(* ===== verification/Gdpfs_Prelude.thy ===== *)
theory Gdpfs_Prelude
  imports Main "HOL-Library.Word"
begin

text \<open>
  Shared vocabulary of the development: machine integer types, the faults a C function can end
  in, the result type of fallible operations with its sequencing operator, and generic facts on
  lists and words that the component theories use.
\<close>

named_theorems res_simps \<open>unfolding rules for fallible operations\<close>
named_theorems iv_simps \<open>characterisations of the interval predicates\<close>

type_synonym u8 = "8 word"
type_synonym u32 = "32 word"
type_synonym u64 = "64 word"

text \<open>
  How an execution of the C code can go wrong: a failed \<open>ASSERT\<close> / \<open>EP_ASSERT\<close>, a pointer that
  is not a live allocation, an access outside an array, a call of \<open>ep_app_fatal\<close>, a log record
  that does not decode, a wait that nothing ends, and a recursion deeper than the bound a model
  function was given.
\<close>

datatype fault =
    Assert_Fail
  | Bad_Pointer
  | Out_Of_Bounds
  | App_Fatal
  | Undecodable
  | Blocked
  | Out_Of_Fuel

type_synonym 'a res = "fault + 'a"

definition bindR :: "'a res \<Rightarrow> ('a \<Rightarrow> 'b res) \<Rightarrow> 'b res" where
  "bindR m f = (case m of Inl e \<Rightarrow> Inl e | Inr x \<Rightarrow> f x)"

definition assertR :: "bool \<Rightarrow> 'a \<Rightarrow> 'a res" where
  "assertR b x = (if b then Inr x else Inl Assert_Fail)"

primrec foldR :: "('s \<Rightarrow> 'a \<Rightarrow> 's res) \<Rightarrow> 'a list \<Rightarrow> 's \<Rightarrow> 's res" where
  "foldR f [] s = Inr s"
| "foldR f (x # xs) s = bindR (f s x) (foldR f xs)"

text \<open>Running an operation several times and collecting its results.\<close>

primrec repeatR :: "('s \<Rightarrow> ('a \<times> 's) res) \<Rightarrow> nat \<Rightarrow> 's \<Rightarrow> ('a list \<times> 's) res" where
  "repeatR f 0 s = Inr ([], s)"
| "repeatR f (Suc n) s = bindR (f s) (\<lambda>(x, s). bindR (repeatR f n s) (\<lambda>(xs, s). Inr (x # xs, s)))"

text \<open>The fault of an execution, if it has one.\<close>

definition fault_of :: "'a res \<Rightarrow> fault option" where
  "fault_of r = (case r of Inl e \<Rightarrow> Some e | Inr _ \<Rightarrow> None)"

lemma bindR_simps [simp, res_simps]:
  "bindR (Inl e) f = Inl e"
  "bindR (Inr x) f = f x"
  by (simp_all add: bindR_def)

lemma bindR_eq_Inr: "bindR m f = Inr y \<longleftrightarrow> (\<exists>x. m = Inr x \<and> f x = Inr y)"
  by (cases m) auto

lemma bindR_cong [fundef_cong]:
  "m = m' \<Longrightarrow> (\<And>x. m' = Inr x \<Longrightarrow> f x = g x) \<Longrightarrow> bindR m f = bindR m' g"
  by (cases m') auto

lemma assertR_simps [simp, res_simps]:
  "assertR True x = Inr x"
  "assertR False x = Inl Assert_Fail"
  by (simp_all add: assertR_def)

lemma assertR_eq_Inr [simp]: "assertR b x = Inr y \<longleftrightarrow> b \<and> x = y"
  by (simp add: assertR_def)

lemma foldR_append: "foldR f (xs @ ys) s = bindR (foldR f xs s) (foldR f ys)"
proof (induction xs arbitrary: s)
  case Nil
  then show ?case by simp
next
  case (Cons x xs)
  then show ?case by (cases "f s x") simp_all
qed

text \<open>Partial correctness of a fallible operation.\<close>

definition okR :: "('a \<Rightarrow> bool) \<Rightarrow> 'a res \<Rightarrow> bool" where
  "okR Q m \<longleftrightarrow> (\<forall>x. m = Inr x \<longrightarrow> Q x)"

lemma okR_simps [simp]: "okR Q (Inl e)" "okR Q (Inr x) = Q x" "okR Q (assertR b x) = (b \<longrightarrow> Q x)"
  by (auto simp: okR_def)

lemma okR_bind: "okR P m \<Longrightarrow> (\<And>x. P x \<Longrightarrow> okR Q (f x)) \<Longrightarrow> okR Q (bindR m f)"
  by (cases m) auto

lemma okR_mono: "okR P m \<Longrightarrow> (\<And>x. P x \<Longrightarrow> Q x) \<Longrightarrow> okR Q m"
  by (auto simp: okR_def)

lemma okR_fold: "P s \<Longrightarrow> (\<And>s x. x \<in> set xs \<Longrightarrow> P s \<Longrightarrow> okR P (f s x)) \<Longrightarrow> okR P (foldR f xs s)"
proof (induction xs arbitrary: s)
  case (Cons x xs)
  then show ?case by (auto intro!: okR_bind [of P "f s x"])
qed simp

lemma okR_if: "(c \<Longrightarrow> okR Q a) \<Longrightarrow> (\<not> c \<Longrightarrow> okR Q b) \<Longrightarrow> okR Q (if c then a else b)"
  by simp

lemma okR_assert: "okR (\<lambda>_. b) (assertR b x)"
  by (simp add: assertR_def)

lemma okR_True [simp]: "okR (\<lambda>_. True) m"
  by (simp add: okR_def)

subsection \<open>Words\<close>

lemma word_le_pred: "0 < b \<Longrightarrow> x \<le> b - 1 \<longleftrightarrow> x < (b :: 'a :: len word)"
  by unat_arith

lemma word_succ_le: "a < b \<Longrightarrow> a + 1 \<le> x \<longleftrightarrow> a < (x :: 'a :: len word)"
  by unat_arith

end
