(* ===== verification/Interval.thy ===== *)
theory Interval
  imports Gdpfs_Prelude
begin

text \<open>
  Closed intervals of byte indices: \<open>struct interval\<close> and the functions of
  \<^verbatim>\<open>src/figtree/interval.c\<close>. A byte index is an unsigned 32-bit integer; arithmetic on it
  wraps around. An interval denotes the set \<open>iv_set\<close> of the bytes between its ends.
\<close>

type_synonym byte_index_t = u32

definition BYTE_INDEX_MIN :: byte_index_t where
  "BYTE_INDEX_MIN = 0"

definition BYTE_INDEX_MAX :: byte_index_t where
  "BYTE_INDEX_MAX = - 1"

record interval =
  left :: byte_index_t
  right :: byte_index_t
  nonempty :: bool

definition i_init :: "byte_index_t \<Rightarrow> byte_index_t \<Rightarrow> interval" where
  "i_init l r = \<lparr>left = l, right = r, nonempty = True\<rparr>"

definition i_new :: "byte_index_t \<Rightarrow> byte_index_t \<Rightarrow> interval res" where
  "i_new l r = assertR (l \<le> r) (i_init l r)"

definition i_copy :: "interval \<Rightarrow> interval" where
  "i_copy this = this"

definition i_contains_val :: "interval \<Rightarrow> byte_index_t \<Rightarrow> bool" where
  "i_contains_val this x \<longleftrightarrow> x \<ge> left this \<and> x \<le> right this"

definition i_contains_int :: "interval \<Rightarrow> interval \<Rightarrow> bool" where
  "i_contains_int this other \<longleftrightarrow> left this \<le> left other \<and> right this \<ge> right other"

definition i_restrict_range ::
  "interval \<Rightarrow> byte_index_t \<Rightarrow> byte_index_t \<Rightarrow> bool \<Rightarrow> interval res" where
  "i_restrict_range this l r allowempty =
    (let newleft = (if left this > l then left this else l);
         newright = (if right this < r then right this else r)
     in if allowempty \<and> newleft > newright
        then Inr (this\<lparr>left := BYTE_INDEX_MAX, right := BYTE_INDEX_MIN, nonempty := False\<rparr>)
        else assertR (newleft \<le> newright) (this\<lparr>left := newleft, right := newright\<rparr>))"

definition i_restrict_int :: "interval \<Rightarrow> interval \<Rightarrow> bool \<Rightarrow> interval res" where
  "i_restrict_int this to allowempty = i_restrict_range this (left to) (right to) allowempty"

definition i_overlaps :: "interval \<Rightarrow> interval \<Rightarrow> bool" where
  "i_overlaps this other \<longleftrightarrow> right this \<ge> left other \<and> left this \<le> right other"

definition i_leftOverlaps :: "interval \<Rightarrow> interval \<Rightarrow> bool" where
  "i_leftOverlaps this other \<longleftrightarrow> nonempty this \<and> i_contains_val other (left this)"

definition i_rightOverlaps :: "interval \<Rightarrow> interval \<Rightarrow> bool" where
  "i_rightOverlaps this other \<longleftrightarrow> nonempty this \<and> i_contains_val other (right this)"

definition i_leftOf_val :: "interval \<Rightarrow> byte_index_t \<Rightarrow> bool" where
  "i_leftOf_val this x \<longleftrightarrow> nonempty this \<and> right this < x"

definition i_leftOf_int :: "interval \<Rightarrow> interval \<Rightarrow> bool" where
  "i_leftOf_int this other \<longleftrightarrow> i_leftOf_val this (left other)"

definition i_rightOf_val :: "interval \<Rightarrow> byte_index_t \<Rightarrow> bool" where
  "i_rightOf_val this x \<longleftrightarrow> nonempty this \<and> left this > x"

definition i_rightOf_int :: "interval \<Rightarrow> interval \<Rightarrow> bool" where
  "i_rightOf_int this other \<longleftrightarrow> i_rightOf_val this (right other)"

definition i_equals :: "interval \<Rightarrow> interval \<Rightarrow> bool" where
  "i_equals this other \<longleftrightarrow>
     (if nonempty this = nonempty other
      then \<not> nonempty this \<or> (left this = left other \<and> right this = right other)
      else False)"


section \<open>Intervals as sets of bytes\<close>

definition iv_set :: "interval \<Rightarrow> byte_index_t set" where
  "iv_set i = {x. left i \<le> x \<and> x \<le> right i}"

text \<open>The \<open>nonempty\<close> flag agrees with the ends.\<close>

definition iv_ok :: "interval \<Rightarrow> bool" where
  "iv_ok i \<longleftrightarrow> (nonempty i \<longleftrightarrow> left i \<le> right i)"

lemma i_init_simps [simp]:
  "left (i_init l r) = l" "right (i_init l r) = r" "nonempty (i_init l r)"
  by (simp_all add: i_init_def)

lemma iv_ok_init: "l \<le> r \<Longrightarrow> iv_ok (i_init l r)"
  by (simp add: iv_ok_def)

lemma BYTE_INDEX_MAX_ge [simp]: "x \<le> BYTE_INDEX_MAX"
  by (simp add: BYTE_INDEX_MAX_def)

lemma BYTE_INDEX_MIN_le [simp]: "BYTE_INDEX_MIN \<le> x"
  by (simp add: BYTE_INDEX_MIN_def)

lemma MAX_not_le_MIN [simp]: "\<not> BYTE_INDEX_MAX \<le> BYTE_INDEX_MIN"
  by (simp add: BYTE_INDEX_MIN_def BYTE_INDEX_MAX_def)

lemma iv_set_iff [iv_simps]: "x \<in> iv_set i \<longleftrightarrow> left i \<le> x \<and> x \<le> right i"
  by (simp add: iv_set_def)

lemma i_restrict_range_True:
  assumes "iv_ok i"
  shows "\<exists>j. i_restrict_range i l r True = Inr j \<and> iv_ok j \<and> iv_set j = iv_set i \<inter> {l..r}"
proof -
  let ?nl = "if left i > l then left i else l" and ?nr = "if right i < r then right i else r"
  have set: "iv_set i \<inter> {l..r} = {?nl..?nr}" by (auto simp: iv_set_def)
  show ?thesis
  proof (cases "?nl > ?nr")
    case True
    let ?e = "i\<lparr>left := BYTE_INDEX_MAX, right := BYTE_INDEX_MIN, nonempty := False\<rparr>"
    have "iv_set ?e = {}"
      using order_trans [of BYTE_INDEX_MAX _ BYTE_INDEX_MIN] by (auto simp: iv_set_def)
    moreover have "{?nl..?nr} = {}" using True by simp
    moreover have "i_restrict_range i l r True = Inr ?e"
      using True by (simp add: i_restrict_range_def Let_def)
    ultimately show ?thesis unfolding set by (simp add: iv_ok_def)
  next
    case False
    then have le: "?nl \<le> ?nr" by simp
    have ne: "nonempty i" using assms le by (auto simp: iv_ok_def split: if_splits)
    have "i_restrict_range i l r True = Inr (i\<lparr>left := ?nl, right := ?nr\<rparr>)"
      using False le by (simp add: i_restrict_range_def Let_def)
    then show ?thesis unfolding set using ne le by (auto simp: iv_ok_def iv_set_def)
  qed
qed

lemma i_restrict_range_False:
  assumes "iv_set i \<inter> {l..r} \<noteq> {}"
  shows "i_restrict_range i l r False
    = Inr (i\<lparr>left := (if left i > l then left i else l), right := (if right i < r then right i else r)\<rparr>)"
  using assms by (auto simp: i_restrict_range_def Let_def iv_set_def)

lemma i_contains_val_iff [iv_simps]: "i_contains_val i x \<longleftrightarrow> x \<in> iv_set i"
  by (auto simp: i_contains_val_def iv_set_def)

end
