(* ===== verification/Fig_Node.thy ===== *)
theory Fig_Node
  imports Interval
begin

text \<open>
  Nodes of the FIG tree on an explicit heap: \<^verbatim>\<open>src/figtree/figtreenode.c\<close> and the memory and
  subtree-pointer functions of \<^verbatim>\<open>src/figtree/utils.c\<close>.
\<close>

section \<open>Data\<close>

definition FT_ORDER :: nat where
  "FT_ORDER = 2"

definition FT_SPLITLIMIT :: nat where
  "FT_SPLITLIMIT = 1 + FT_ORDER * 2"

record subtree_ptr =
  recno :: int
  offset :: int
  st :: "nat option"
  inmemory :: bool

record ft_ent =
  irange :: interval
  fvalue :: int

record ft_node =
  entries :: "ft_ent list"
  subtrees :: "subtree_ptr list"
  HEIGHT :: int
  dirty :: bool

record heap =
  mem :: "nat \<Rightarrow> ft_node option"
  next_ptr :: nat

definition get_node :: "heap \<Rightarrow> nat \<Rightarrow> ft_node res" where
  "get_node h p = (case mem h p of None \<Rightarrow> Inl Bad_Pointer | Some nd \<Rightarrow> Inr nd)"

definition put_node :: "heap \<Rightarrow> nat \<Rightarrow> ft_node \<Rightarrow> heap" where
  "put_node h p nd = h\<lparr>mem := (mem h)(p \<mapsto> nd)\<rparr>"

definition mem_alloc :: "heap \<Rightarrow> ft_node \<Rightarrow> nat \<times> heap" where
  "mem_alloc h nd =
     (next_ptr h, h\<lparr>mem := (mem h)(next_ptr h \<mapsto> nd), next_ptr := Suc (next_ptr h)\<rparr>)"

definition mem_free :: "heap \<Rightarrow> nat option \<Rightarrow> heap res" where
  "mem_free h q =
     (case q of
        None \<Rightarrow> Inr h
      | Some p \<Rightarrow> bindR (get_node h p) (\<lambda>_. Inr (h\<lparr>mem := (mem h)(p := None)\<rparr>)))"

definition fte_overlaps :: "ft_ent \<Rightarrow> ft_ent \<Rightarrow> bool" where
  "fte_overlaps this other = i_overlaps (irange this) (irange other)"

section \<open>Subtree pointers\<close>

definition zero_sptr :: subtree_ptr where
  "zero_sptr = \<lparr>recno = 0, offset = 0, st = None, inmemory = False\<rparr>"

definition subtree_set :: "subtree_ptr \<Rightarrow> nat option \<Rightarrow> subtree_ptr" where
  "subtree_set sptr t = sptr\<lparr>inmemory := True, st := t\<rparr>"

definition subtree_free_by ::
  "(heap \<Rightarrow> nat \<Rightarrow> heap res) \<Rightarrow> heap \<Rightarrow> subtree_ptr \<Rightarrow> (subtree_ptr \<times> heap) res" where
  "subtree_free_by free h sptr =
     (case st sptr of
        Some p \<Rightarrow>
          if inmemory sptr then bindR (free h p) (\<lambda>h. Inr (sptr\<lparr>st := None\<rparr>, h))
          else Inr (sptr, h)
      | None \<Rightarrow> Inr (sptr, h))"

primrec ftn_free :: "nat \<Rightarrow> heap \<Rightarrow> nat \<Rightarrow> heap res" where
  "ftn_free 0 h p = Inl Out_Of_Fuel"
| "ftn_free (Suc n) h p =
     bindR (get_node h p) (\<lambda>nd.
     bindR (foldR (\<lambda>h sptr. bindR (subtree_free_by (ftn_free n) h sptr) (\<lambda>(_, h). Inr h))
              (subtrees nd) h) (\<lambda>h.
     mem_free h (Some p)))"

definition subtree_free :: "nat \<Rightarrow> heap \<Rightarrow> subtree_ptr \<Rightarrow> (subtree_ptr \<times> heap) res" where
  "subtree_free n = subtree_free_by (ftn_free n)"

definition free_subtrees :: "nat \<Rightarrow> heap \<Rightarrow> subtree_ptr list \<Rightarrow> heap res" where
  "free_subtrees n h sptrs =
     foldR (\<lambda>h sptr. bindR (subtree_free n h sptr) (\<lambda>(_, h). Inr h)) sptrs h"

section \<open>Node operations\<close>

function ftn_new :: "heap \<Rightarrow> int \<Rightarrow> bool \<Rightarrow> (nat \<times> heap) res" where
  "ftn_new h height make_height =
    (if height < 0 then Inl Assert_Fail
     else
       let (this, h) = mem_alloc h \<lparr>entries = [], subtrees = [], HEIGHT = height, dirty = True\<rparr>
       in bindR (if height = 0 \<or> \<not> make_height then Inr (None, h)
                 else bindR (ftn_new h (height - 1) True) (\<lambda>(p, h). Inr (Some p, h)))
            (\<lambda>(firstchild, h). Inr (this, put_node h this
               \<lparr>entries = [], subtrees = [subtree_set zero_sptr firstchild],
                HEIGHT = height, dirty = True\<rparr>)))"
  by pat_completeness auto
termination
  by (relation "measure (\<lambda>(h, height, mk). nat height)") auto

declare ftn_new.simps [simp del]

definition ftn_clear :: "heap \<Rightarrow> nat \<Rightarrow> bool \<Rightarrow> heap res" where
  "ftn_clear h this make_height =
     bindR (get_node h this) (\<lambda>nd.
     bindR (free_subtrees (nat (HEIGHT nd)) h (subtrees nd)) (\<lambda>h.
     bindR (get_node h this) (\<lambda>nd.
     bindR (if HEIGHT nd = 0 \<or> \<not> make_height then Inr (None, h)
            else bindR (ftn_new h (HEIGHT nd - 1) True) (\<lambda>(p, h). Inr (Some p, h)))
       (\<lambda>(firstchild, h).
     bindR (get_node h this) (\<lambda>nd.
       Inr (put_node h this
         (nd\<lparr>entries := [],
             subtrees := [subtree_set (case subtrees nd of [] \<Rightarrow> zero_sptr | s # _ \<Rightarrow> s) firstchild]\<rparr>)))))))"

definition subtree_clear :: "heap \<Rightarrow> nat \<Rightarrow> nat \<Rightarrow> int \<Rightarrow> heap res" where
  "subtree_clear h this i height =
    (if height < 0 then Inr h
     else
       bindR (get_node h this) (\<lambda>nd.
       if i \<ge> length (subtrees nd) then Inl Out_Of_Bounds
       else let sptr = subtrees nd ! i in
         if inmemory sptr
         then (case st sptr of
                 None \<Rightarrow> Inr h
               | Some p \<Rightarrow> bindR (get_node h p) (\<lambda>c.
                   bindR (assertR (height = HEIGHT c) h) (\<lambda>h. ftn_clear h p True)))
         else bindR (ftn_new h height True) (\<lambda>(p, h).
              bindR (get_node h this) (\<lambda>nd.
                Inr (put_node h this (nd\<lparr>subtrees := (subtrees nd)
                  [i := sptr\<lparr>inmemory := True, recno := 0, offset := 0, st := Some p\<rparr>]\<rparr>))))))"

definition ftn_entries_add :: "ft_node \<Rightarrow> nat \<Rightarrow> ft_ent \<Rightarrow> ft_node res" where
  "ftn_entries_add this index new =
     assertR (index \<le> length (entries this) \<and> length (entries this) < FT_SPLITLIMIT)
       (this\<lparr>entries := take index (entries this) @ new # drop index (entries this)\<rparr>)"

definition ftn_subtrees_add :: "ft_node \<Rightarrow> nat \<Rightarrow> nat option \<Rightarrow> ft_node res" where
  "ftn_subtrees_add this index new =
     assertR (index \<le> length (subtrees this) \<and> length (subtrees this) \<le> FT_SPLITLIMIT)
       (this\<lparr>subtrees := take index (subtrees this)
          @ subtree_set (if index < length (subtrees this) then subtrees this ! index else zero_sptr) new
          # drop index (subtrees this)\<rparr>)"


definition ftn_insert ::
  "heap \<Rightarrow> nat \<Rightarrow> ft_ent \<Rightarrow> nat \<Rightarrow> nat option \<Rightarrow> nat option \<Rightarrow> (nat option \<times> heap) res" where
  "ftn_insert h this newent index leftChild rightChild =
     bindR (get_node h this) (\<lambda>nd.
     bindR (assertR (length (entries nd) + 1 = length (subtrees nd)) ()) (\<lambda>_.
     bindR (assertR (index \<le> length (entries nd)
              \<and> (index = 0 \<or> \<not> fte_overlaps newent (entries nd ! (index - 1)))
              \<and> (index = length (entries nd) \<or> \<not> fte_overlaps newent (entries nd ! index))) ()) (\<lambda>_.
     bindR (ftn_entries_add nd index newent) (\<lambda>nd.
     let nd = nd\<lparr>subtrees := (subtrees nd)[index := subtree_set (subtrees nd ! index) leftChild]\<rparr> in
     bindR (ftn_subtrees_add nd (index + 1) rightChild) (\<lambda>nd.
     let nd = nd\<lparr>dirty := True\<rparr>; h = put_node h this nd in
     if length (entries nd) = FT_SPLITLIMIT then
       bindR (ftn_new h (HEIGHT nd) False) (\<lambda>(l, h).
       bindR (ftn_new h (HEIGHT nd) False) (\<lambda>(r, h).
       bindR (get_node h l) (\<lambda>lnode.
       bindR (get_node h r) (\<lambda>rnode.
       let h = put_node h l (lnode\<lparr>entries := take FT_ORDER (entries nd),
                                   subtrees := take (FT_ORDER + 1) (subtrees nd)\<rparr>);
           h = put_node h r (rnode\<lparr>entries := drop (FT_ORDER + 1) (entries nd),
                                   subtrees := drop (FT_ORDER + 1) (subtrees nd)\<rparr>);
           h = put_node h this
                 (nd\<lparr>entries := [entries nd ! FT_ORDER],
                     subtrees := [subtree_set (subtrees nd ! 0) (Some l),
                                  subtree_set (subtrees nd ! 1) (Some r)],
                     HEIGHT := HEIGHT nd + 1\<rparr>)
       in Inr (Some this, h)))))
     else Inr (None, h))))))"

definition ftn_replaceEntries ::
  "heap \<Rightarrow> nat \<Rightarrow> nat \<Rightarrow> nat \<Rightarrow> interval \<Rightarrow> int \<Rightarrow> heap res" where
  "ftn_replaceEntries h this start stop newent_interval newent_value =
     bindR (get_node h this) (\<lambda>nd.
     bindR (assertR (length (entries nd) + 1 = length (subtrees nd)) ()) (\<lambda>_.
     bindR (assertR (start < length (entries nd) \<and> stop \<le> length (entries nd)) ()) (\<lambda>_.
     bindR (assertR (stop > start) ()) (\<lambda>_.
     bindR (free_subtrees (nat (HEIGHT nd)) h (take (stop - (start + 1)) (drop (start + 1) (subtrees nd)))) (\<lambda>h.
     bindR (get_node h this) (\<lambda>nd.
       Inr (put_node h this
         (nd\<lparr>entries := take start (entries nd)
                @ (entries nd ! start)\<lparr>irange := newent_interval, fvalue := newent_value\<rparr>
                # drop stop (entries nd),
             subtrees := take (start + 1) (subtrees nd) @ drop stop (subtrees nd),
             dirty := True\<rparr>))))))))"

section \<open>Pruning a node to an interval\<close>

text \<open>
  The loops of \<open>ftn_pruneTo\<close>. Each returns the index at which it stopped and the updated deletion
  marks; stopping at the number of entries is the jump to \<open>performdeletes\<close>.
\<close>

function prune_left_loop ::
  "ft_ent list \<Rightarrow> interval \<Rightarrow> nat \<Rightarrow> bool list \<Rightarrow> bool list \<Rightarrow> nat \<times> bool list \<times> bool list" where
  "prune_left_loop es valid i entrydel subtreedel =
     (if i < length es \<and> i_leftOf_int (irange (es ! i)) valid
      then prune_left_loop es valid (i + 1) (entrydel[i := True]) (subtreedel[i := True])
      else (i, entrydel, subtreedel))"
  by pat_completeness auto
termination
  by (relation "measure (\<lambda>(es, v, i, a, b). length es - i)") auto

function prune_skip_loop :: "ft_ent list \<Rightarrow> interval \<Rightarrow> nat \<Rightarrow> nat" where
  "prune_skip_loop es valid i =
     (if i < length es \<and> i_contains_int valid (irange (es ! i))
      then prune_skip_loop es valid (i + 1) else i)"
  by pat_completeness auto
termination
  by (relation "measure (\<lambda>(es, v, i). length es - i)") auto

function prune_right_loop ::
  "ft_ent list \<Rightarrow> interval \<Rightarrow> nat \<Rightarrow> bool list \<Rightarrow> bool list \<Rightarrow> nat \<times> bool list \<times> bool list" where
  "prune_right_loop es valid i entrydel subtreedel =
     (if i < length es \<and> i_rightOf_int (irange (es ! i)) valid
      then prune_right_loop es valid (i + 1) (entrydel[i := True]) (subtreedel[i + 1 := True])
      else (i, entrydel, subtreedel))"
  by pat_completeness auto
termination
  by (relation "measure (\<lambda>(es, v, i, a, b). length es - i)") auto

declare prune_left_loop.simps [simp del] prune_skip_loop.simps [simp del]
  prune_right_loop.simps [simp del]

definition keep :: "'a list \<Rightarrow> bool list \<Rightarrow> 'a list" where
  "keep xs del = map fst (filter (\<lambda>(x, d). \<not> d) (zip xs del))"

definition dropped :: "'a list \<Rightarrow> bool list \<Rightarrow> 'a list" where
  "dropped xs del = map fst (filter (\<lambda>(x, d). d) (zip xs del))"

definition prune_performdeletes :: "heap \<Rightarrow> nat \<Rightarrow> bool list \<Rightarrow> bool list \<Rightarrow> heap res" where
  "prune_performdeletes h this entrydel subtreedel =
     bindR (get_node h this) (\<lambda>nd.
     let h = put_node h this (nd\<lparr>entries := keep (entries nd) entrydel,
                                 dirty := (dirty nd \<or> True \<in> set entrydel)\<rparr>) in
     bindR (free_subtrees (nat (HEIGHT nd)) h (dropped (subtrees nd) subtreedel)) (\<lambda>h.
     bindR (get_node h this) (\<lambda>nd.
     let nd = nd\<lparr>subtrees := keep (subtrees nd) subtreedel\<rparr> in
     assertR (length (entries nd) + 1 = length (subtrees nd)) (put_node h this nd))))"

definition prune_boundary :: "heap \<Rightarrow> nat \<Rightarrow> nat \<Rightarrow> nat \<Rightarrow> interval \<Rightarrow> heap res" where
  "prune_boundary h this i subtree valid =
     bindR (get_node h this) (\<lambda>nd.
     bindR (subtree_clear h this subtree (HEIGHT nd - 1)) (\<lambda>h.
     bindR (get_node h this) (\<lambda>nd.
     bindR (i_restrict_int (irange (entries nd ! i)) valid False) (\<lambda>iv.
       Inr (put_node h this
         (nd\<lparr>entries := (entries nd)[i := (entries nd ! i)\<lparr>irange := iv\<rparr>]\<rparr>))))))"

definition ftn_pruneTo :: "heap \<Rightarrow> nat \<Rightarrow> interval \<Rightarrow> heap res" where
  "ftn_pruneTo h this valid =
    (if \<not> nonempty valid then ftn_clear h this True
     else
       bindR (get_node h this) (\<lambda>nd.
       let n = length (entries nd) in
       if n = 0 then Inr h
       else
         let entrydel = replicate n False;
             subtreedel = replicate (length (subtrees nd)) False;
             (i, entrydel, subtreedel) = prune_left_loop (entries nd) valid 0 entrydel subtreedel
         in if i = n then prune_performdeletes h this entrydel subtreedel
            else
              bindR (if i_leftOverlaps valid (irange (entries nd ! i))
                     then bindR (prune_boundary h this i i valid) (\<lambda>h. Inr (i + 1, h))
                     else Inr (i, h)) (\<lambda>(i, h).
              if i = n then prune_performdeletes h this entrydel subtreedel
              else
                bindR (get_node h this) (\<lambda>nd.
                let i = prune_skip_loop (entries nd) valid i in
                if i = n then prune_performdeletes h this entrydel subtreedel
                else
                  bindR (if i_rightOverlaps valid (irange (entries nd ! i))
                         then bindR (prune_boundary h this i (i + 1) valid) (\<lambda>h. Inr (i + 1, h))
                         else Inr (i, h)) (\<lambda>(i, h).
                  if i = n then prune_performdeletes h this entrydel subtreedel
                  else
                    bindR (get_node h this) (\<lambda>nd.
                    let (i, entrydel, subtreedel) =
                          prune_right_loop (entries nd) valid i entrydel subtreedel
                    in prune_performdeletes h this entrydel subtreedel))))))"

end
