(* ===== verification/Fig_Tree.thy ===== *)
theory Fig_Tree
  imports Fig_Node
begin

text \<open>
  The FIG tree: \<^verbatim>\<open>src/figtree/figtree.c\<close> and \<open>subtree_get\<close> of \<^verbatim>\<open>src/figtree/utils.c\<close>.
\<close>

section \<open>Log records\<close>

datatype gdpfs_logent_type = GDPFS_LOGENT_TYPE_DATA | GDPFS_LOGENT_TYPE_CHKPT

datatype gdpfs_file_type =
    GDPFS_FILE_TYPE_REGULAR
  | GDPFS_FILE_TYPE_DIR
  | GDPFS_FILE_TYPE_NEW
  | GDPFS_FILE_TYPE_UNKNOWN

record gdpfs_file_info =
  file_size :: u64
  file_type :: gdpfs_file_type
  file_perm :: "16 word"

record gdpfs_fmeta = gdpfs_file_info +
  logent_type :: gdpfs_logent_type
  ent_offset :: u64
  ent_size :: u64
  magic :: u64

datatype log_body = Data_Body "u8 list" | Chkpt_Body "ft_node list"

record log_rec =
  rmeta :: gdpfs_fmeta
  rbody :: log_body

type_synonym gdp_log = "int \<Rightarrow> log_rec option"

definition sizeof_ft_node :: nat where
  "sizeof_ft_node = 336"

fun body_length :: "log_body \<Rightarrow> nat" where
  "body_length (Data_Body bs) = length bs"
| "body_length (Chkpt_Body nds) = sizeof_ft_node * length nds"

fun body_node_at :: "log_body \<Rightarrow> int \<Rightarrow> ft_node res" where
  "body_node_at (Data_Body bs) off = Inl Undecodable"
| "body_node_at (Chkpt_Body nds) off =
     (let k = off div int sizeof_ft_node in
      if off mod int sizeof_ft_node = 0 \<and> 0 \<le> k \<and> k < int (length nds)
      then Inr (nds ! nat k) else Inl Undecodable)"

definition subtree_get :: "gdp_log \<Rightarrow> heap \<Rightarrow> nat \<Rightarrow> nat \<Rightarrow> (nat option \<times> heap) res" where
  "subtree_get log h this i =
     bindR (get_node h this) (\<lambda>nd.
     if i \<ge> length (subtrees nd) then Inl Out_Of_Bounds
     else let sptr = subtrees nd ! i in
       if inmemory sptr then Inr (st sptr, h)
       else
         case log (recno sptr) of
           None \<Rightarrow> Inl Assert_Fail
         | Some r \<Rightarrow>
             if of_nat (body_length (rbody r)) \<noteq> ent_size (rmeta r) then Inl App_Fatal
             else if logent_type (rmeta r) \<noteq> GDPFS_LOGENT_TYPE_CHKPT then Inl Assert_Fail
             else bindR (body_node_at (rbody r) (offset sptr)) (\<lambda>c.
               let (p, h) = mem_alloc h c in
               Inr (Some p, put_node h this
                 (nd\<lparr>subtrees := (subtrees nd)[i := sptr\<lparr>st := Some p\<rparr>]\<rparr>))))"

section \<open>The tree and its insertion state\<close>

record figtree =
  root :: "nat option"

record insertargs =
  ia_range :: interval
  ia_value :: int
  ia_at :: "nat option"
  ia_valid :: interval

record insertcont =
  hasleftc :: bool
  leftc :: insertargs
  hasrightc :: bool
  rightc :: insertargs

type_synonym ft_path = "(nat \<times> nat) list"

definition zero_args :: insertargs where
  "zero_args = \<lparr>ia_range = \<lparr>left = 0, right = 0, nonempty = False\<rparr>, ia_value = 0, ia_at = None,
     ia_valid = \<lparr>left = 0, right = 0, nonempty = False\<rparr>\<rparr>"

definition zero_cont :: insertcont where
  "zero_cont = \<lparr>hasleftc = False, leftc = zero_args, hasrightc = False, rightc = zero_args\<rparr>"

definition ft_init :: "heap \<Rightarrow> (figtree \<times> heap) res" where
  "ft_init h = bindR (ftn_new h 0 True) (\<lambda>(p, h). Inr (\<lparr>root = Some p\<rparr>, h))"

definition ft_init_with_root :: "nat option \<Rightarrow> figtree" where
  "ft_init_with_root r = \<lparr>root = r\<rparr>"

section \<open>Insertion: the descent\<close>

datatype scan_result = Scan_Overlap nat | Scan_RightOf nat | Scan_End

function ft_scan :: "ft_ent list \<Rightarrow> interval \<Rightarrow> nat \<Rightarrow> scan_result" where
  "ft_scan es rng i =
     (if i < length es then
        if i_overlaps (irange (es ! i)) rng then Scan_Overlap i
        else if i_rightOf_int (irange (es ! i)) rng then Scan_RightOf i
        else ft_scan es rng (i + 1)
      else Scan_End)"
  by pat_completeness auto
termination
  by (relation "measure (\<lambda>(es, r, i). length es - i)") auto

function ft_overlap_end :: "ft_ent list \<Rightarrow> interval \<Rightarrow> nat \<Rightarrow> nat" where
  "ft_overlap_end es rng j =
     (if j < length es \<and> i_leftOverlaps (irange (es ! j)) rng
      then ft_overlap_end es rng (j + 1) else j)"
  by pat_completeness auto
termination
  by (relation "measure (\<lambda>(es, r, i). length es - i)") auto

declare ft_scan.simps [simp del] ft_overlap_end.simps [simp del]

definition path_push :: "nat \<Rightarrow> ft_path \<Rightarrow> nat \<Rightarrow> nat \<Rightarrow> ft_path res" where
  "path_push maxdepth path node idx =
     (if length path < maxdepth then Inr (path @ [(node, idx)]) else Inl Out_Of_Bounds)"

definition ft_replace ::
  "gdp_log \<Rightarrow> nat \<Rightarrow> heap \<Rightarrow> interval \<Rightarrow> int \<Rightarrow> nat \<Rightarrow> interval \<Rightarrow> ft_path \<Rightarrow> nat
    \<Rightarrow> (heap \<times> ft_path \<times> insertcont) res" where
  "ft_replace log maxdepth h rng val currnode valid path i =
     bindR (get_node h currnode) (\<lambda>nd.
     let es = entries nd; numentries = length es; ic = zero_cont;
         currival = irange (es ! i); j = ft_overlap_end es rng (i + 1);
         previous = es ! (j - 1) in
     bindR (if left currival < left rng then
              bindR (subtree_get log h currnode i) (\<lambda>(at, h).
              bindR (i_restrict_range valid
                       (if i = 0 then BYTE_INDEX_MIN else right (irange (es ! (i - 1))) + 1)
                       (left currival - 1) True) (\<lambda>v.
              Inr (ic\<lparr>hasleftc := True,
                      leftc := \<lparr>ia_range = i_init (left currival) (left rng - 1),
                                ia_value = fvalue (es ! i), ia_at = at, ia_valid = v\<rparr>\<rparr>, h)))
            else Inr (ic, h)) (\<lambda>(ic, h).
     bindR (if right (irange previous) > right rng then
              bindR (subtree_get log h currnode j) (\<lambda>(at, h).
              bindR (i_restrict_range valid
                       (right (irange previous) + 1)
                       (if j = numentries then BYTE_INDEX_MAX else left (irange (es ! j)) - 1) True) (\<lambda>v.
              bindR (path_push maxdepth path currnode (i + 1)) (\<lambda>path.
              Inr (ic\<lparr>hasrightc := True,
                      rightc := \<lparr>ia_range = i_init (right rng + 1) (right (irange previous)),
                                 ia_value = fvalue previous, ia_at = at, ia_valid = v\<rparr>\<rparr>, h, path))))
            else bindR (path_push maxdepth path currnode i) (\<lambda>path. Inr (ic, h, path))) (\<lambda>(ic, h, path).
     bindR (ftn_replaceEntries h currnode i j rng val) (\<lambda>h.
     Inr (h, path, ic)))))"

primrec ft_descend ::
  "nat \<Rightarrow> gdp_log \<Rightarrow> nat \<Rightarrow> heap \<Rightarrow> interval \<Rightarrow> int \<Rightarrow> nat option \<Rightarrow> interval \<Rightarrow> ft_path
    \<Rightarrow> (nat option \<times> heap \<times> ft_path \<times> insertcont) res" where
  "ft_descend 0 log maxdepth h rng val currnode valid path = Inl Out_Of_Fuel"
| "ft_descend (Suc n) log maxdepth h rng val currnode valid path =
     (case currnode of
        None \<Rightarrow> Inr (None, h, path, zero_cont)
      | Some c \<Rightarrow>
          bindR (ftn_pruneTo h c valid) (\<lambda>h.
          bindR (get_node h c) (\<lambda>nd.
          let es = entries nd; numentries = length es in
          case ft_scan es rng 0 of
            Scan_Overlap i \<Rightarrow>
              bindR (ft_replace log maxdepth h rng val c valid path i) (\<lambda>(h, path, ic).
              Inr (Some c, h, path, ic))
          | Scan_RightOf i \<Rightarrow>
              bindR (path_push maxdepth path c i) (\<lambda>path.
              bindR (subtree_get log h c i) (\<lambda>(next, h).
              bindR (i_restrict_range valid
                       (if i = 0 then BYTE_INDEX_MIN else right (irange (es ! (i - 1))) + 1)
                       (left (irange (es ! i)) - 1) True) (\<lambda>valid.
              ft_descend n log maxdepth h rng val next valid path)))
          | Scan_End \<Rightarrow>
              bindR (path_push maxdepth path c numentries) (\<lambda>path.
              bindR (subtree_get log h c numentries) (\<lambda>(next, h).
              bindR (i_restrict_range valid
                       (if numentries = 0 then BYTE_INDEX_MIN
                        else right (irange (es ! (numentries - 1))) + 1)
                       BYTE_INDEX_MAX True) (\<lambda>valid.
              ft_descend n log maxdepth h rng val next valid path))))))"

section \<open>Insertion: the ascent\<close>

definition path_decrement :: "ft_path \<Rightarrow> nat \<Rightarrow> ft_path res" where
  "path_decrement path k =
     (if k < length path \<and> 0 < snd (path ! k)
      then Inr (path[k := (fst (path ! k), snd (path ! k) - 1)]) else Inl Out_Of_Bounds)"

definition ft_adjust ::
  "gdp_log \<Rightarrow> int \<Rightarrow> heap \<Rightarrow> ft_path \<Rightarrow> nat \<Rightarrow> nat option \<Rightarrow> nat option \<Rightarrow> (heap \<times> ft_path) res" where
  "ft_adjust log finalsharedindex h path pathindex topushnode r =
     bindR (if int pathindex = finalsharedindex then path_decrement path pathindex
            else if int pathindex < finalsharedindex then
              (if Some (fst (path ! (pathindex + 1))) = r
               then Inr (path[pathindex := (fst (path ! pathindex), snd (path ! pathindex) + 1)])
               else Inr path)
            else Inr path) (\<lambda>path.
     case topushnode of
       None \<Rightarrow> Inr (h, path)
     | Some t \<Rightarrow>
         let insertindex = snd (path ! pathindex) in
         if insertindex \<le> FT_ORDER then
           bindR (subtree_get log h t 0) (\<lambda>(l, h).
           case l of None \<Rightarrow> Inl Bad_Pointer
           | Some l \<Rightarrow> Inr (h, path[pathindex := (l, insertindex)]))
         else
           bindR (subtree_get log h t 1) (\<lambda>(r, h).
           case r of None \<Rightarrow> Inl Bad_Pointer
           | Some r \<Rightarrow> Inr (h, path[pathindex := (r, insertindex - (FT_ORDER + 1))])))"

primrec ft_ascend ::
  "gdp_log \<Rightarrow> bool \<Rightarrow> int \<Rightarrow> nat \<Rightarrow> heap \<Rightarrow> ft_path \<Rightarrow> nat option \<Rightarrow> ft_ent \<Rightarrow> nat option \<Rightarrow> nat option
    \<Rightarrow> (heap \<times> ft_path \<times> bool \<times> nat option) res" where
  "ft_ascend log rightcontinuation finalsharedindex 0 h path topushnode topushent l r =
     Inr (h, path, True, topushnode)"
| "ft_ascend log rightcontinuation finalsharedindex (Suc pathindex) h path topushnode topushent l r =
     (let insertinto = fst (path ! pathindex); insertindex = snd (path ! pathindex) in
      bindR (ftn_insert h insertinto topushent insertindex l r) (\<lambda>(rv, h).
      bindR (mem_free h topushnode) (\<lambda>h.
      bindR (if rightcontinuation then ft_adjust log finalsharedindex h path pathindex rv r
             else Inr (h, path)) (\<lambda>(h, path).
      case rv of
        None \<Rightarrow>
          bindR (if rightcontinuation \<and> int pathindex > finalsharedindex
                 then (if finalsharedindex < 0 then Inl Out_Of_Bounds
                       else path_decrement path (nat finalsharedindex))
                 else Inr path) (\<lambda>path.
          Inr (h, path, False, None))
      | Some t \<Rightarrow>
          bindR (get_node h t) (\<lambda>nd.
          bindR (subtree_get log h t 0) (\<lambda>(l, h).
          bindR (subtree_get log h t 1) (\<lambda>(r, h).
          ft_ascend log rightcontinuation finalsharedindex pathindex h path
            (Some t) (entries nd ! 0) l r)))))))"

definition ft_insert ::
  "gdp_log \<Rightarrow> nat \<Rightarrow> heap \<Rightarrow> figtree \<Rightarrow> insertargs \<Rightarrow> ft_path \<Rightarrow> bool
    \<Rightarrow> (heap \<times> figtree \<times> ft_path \<times> insertcont) res" where
  "ft_insert log maxdepth h this args path rightcontinuation =
    (let finalsharedindex = int (length path) - 1 in
     bindR (ft_descend (maxdepth + 1) log maxdepth h (ia_range args) (ia_value args)
              (ia_at args) (ia_valid args) path) (\<lambda>(currnode, h, path, ic).
     bindR (case currnode of
              Some _ \<Rightarrow> Inr (h, this, path, finalsharedindex)
            | None \<Rightarrow>
                bindR (ft_ascend log rightcontinuation finalsharedindex (length path) h path None
                         \<lparr>irange = ia_range args, fvalue = ia_value args\<rparr> None None)
                  (\<lambda>(h, path, noparent, topushnode).
                if \<not> noparent then Inr (h, this, path, finalsharedindex)
                else let this = this\<lparr>root := topushnode\<rparr> in
                  if \<not> rightcontinuation then Inr (h, this, path, finalsharedindex)
                  else case topushnode of
                    None \<Rightarrow> Inl Bad_Pointer
                  | Some t \<Rightarrow>
                      if path = [] \<or> length path \<ge> maxdepth then Inl Out_Of_Bounds
                      else
                        bindR (subtree_get log h t 1) (\<lambda>(r, h).
                        bindR (if Some (fst (path ! 0)) = r then Inr (1, h)
                               else bindR (subtree_get log h t 0) (\<lambda>(l, h).
                                    assertR (Some (fst (path ! 0)) = l) (0, h))) (\<lambda>(idx, h).
                        Inr (h, this, (t, idx) # path, finalsharedindex + 1)))))
       (\<lambda>(h, this, path, finalsharedindex).
     Inr (h, this, if rightcontinuation then take (nat (finalsharedindex + 1)) path else path, ic))))"

definition ft_write ::
  "gdp_log \<Rightarrow> heap \<Rightarrow> figtree \<Rightarrow> byte_index_t \<Rightarrow> byte_index_t \<Rightarrow> int \<Rightarrow> (figtree \<times> heap) res" where
  "ft_write log h this start stop val =
    (case root this of
       None \<Rightarrow> Inl Bad_Pointer
     | Some rt \<Rightarrow>
       bindR (get_node h rt) (\<lambda>nd.
       let maxdepth = nat (HEIGHT nd + 2);
           iargs = \<lparr>ia_range = i_init start stop, ia_value = val, ia_at = Some rt,
                    ia_valid = i_init BYTE_INDEX_MIN BYTE_INDEX_MAX\<rparr> in
       bindR (ft_insert log maxdepth h this iargs [] False) (\<lambda>(h, this, path, starinserts).
       bindR (if hasrightc starinserts then
                bindR (ft_insert log maxdepth h this (rightc starinserts) path True)
                  (\<lambda>(h, this, path, newstar).
                assertR (\<not> hasleftc newstar \<and> \<not> hasrightc newstar) (h, this, path))
              else Inr (h, this, path)) (\<lambda>(h, this, path).
       bindR (if hasleftc starinserts then
                bindR (ft_insert log maxdepth h this (leftc starinserts) path False)
                  (\<lambda>(h, this, path, newstar).
                assertR (\<not> hasleftc newstar \<and> \<not> hasrightc newstar) (h, this))
              else Inr (h, this)) (\<lambda>(h, this).
       Inr (this, h))))))"

section \<open>Lookup\<close>

function ft_lookup_scan :: "ft_ent list \<Rightarrow> byte_index_t \<Rightarrow> nat \<Rightarrow> int + nat" where
  "ft_lookup_scan es location i =
     (if i < length es then
        if i_contains_val (irange (es ! i)) location then Inl (fvalue (es ! i))
        else if left (irange (es ! i)) > location then Inr i
        else ft_lookup_scan es location (i + 1)
      else Inr (length es))"
  by pat_completeness auto
termination
  by (relation "measure (\<lambda>(es, r, i). length es - i)") auto

declare ft_lookup_scan.simps [simp del]

primrec ft_lookup_from ::
  "nat \<Rightarrow> gdp_log \<Rightarrow> heap \<Rightarrow> nat option \<Rightarrow> byte_index_t \<Rightarrow> (int option \<times> heap) res" where
  "ft_lookup_from 0 log h currnode location = Inl Out_Of_Fuel"
| "ft_lookup_from (Suc n) log h currnode location =
     (case currnode of
        None \<Rightarrow> Inr (None, h)
      | Some c \<Rightarrow>
          bindR (get_node h c) (\<lambda>nd.
          case ft_lookup_scan (entries nd) location 0 of
            Inl v \<Rightarrow> Inr (Some v, h)
          | Inr i \<Rightarrow> bindR (subtree_get log h c i) (\<lambda>(next, h).
              ft_lookup_from n log h next location)))"

definition ft_lookup ::
  "gdp_log \<Rightarrow> heap \<Rightarrow> figtree \<Rightarrow> byte_index_t \<Rightarrow> (int option \<times> heap) res" where
  "ft_lookup log h this location =
    (case root this of
       None \<Rightarrow> Inr (None, h)
     | Some rt \<Rightarrow> bindR (get_node h rt) (\<lambda>nd.
         ft_lookup_from (nat (HEIGHT nd + 2)) log h (Some rt) location))"

end
