(* ===== verification/Fig_Rep.thy ===== *)
theory Fig_Rep
  imports Fig_Tree
begin

text \<open>
  Ghost trees: what a pointer into the heap denotes. \<open>rep h k p t\<close> says that \<open>p\<close> is the root of
  the tree \<open>t\<close> of height \<open>k\<close> (a null pointer has height 0, a leaf node height 1), all of whose
  subtrees are in memory. The footprint \<open>addrs\<close> of a tree lists the nodes it owns.
\<close>

section \<open>Ghost trees\<close>

datatype ftree = Lf | Nd nat "ft_ent list" "ftree list"

fun addrs :: "ftree \<Rightarrow> nat list" where
  "addrs Lf = []"
| "addrs (Nd a es ts) = a # concat (map addrs ts)"

fun rep :: "heap \<Rightarrow> nat \<Rightarrow> nat option \<Rightarrow> ftree \<Rightarrow> bool" where
  "rep h k p Lf \<longleftrightarrow> k = 0 \<and> p = None"
| "rep h k p (Nd a es ts) \<longleftrightarrow>
     0 < k \<and> p = Some a \<and>
     (\<exists>nd. mem h a = Some nd \<and> entries nd = es \<and> HEIGHT nd = int k - 1 \<and>
       list_all2 (\<lambda>sp t. inmemory sp \<and> rep h (k - 1) (st sp) t) (subtrees nd) ts)"

abbreviation reps :: "heap \<Rightarrow> nat \<Rightarrow> subtree_ptr list \<Rightarrow> ftree list \<Rightarrow> bool" where
  "reps h k \<equiv> list_all2 (\<lambda>sp t. inmemory sp \<and> rep h k (st sp) t)"

definition ent_ok :: "ft_ent \<Rightarrow> bool" where
  "ent_ok e \<longleftrightarrow> nonempty (irange e) \<and> left (irange e) \<le> right (irange e)
     \<and> right (irange e) < BYTE_INDEX_MAX"

definition ent_lt :: "ft_ent \<Rightarrow> ft_ent \<Rightarrow> bool" where
  "ent_lt d e \<longleftrightarrow> right (irange d) < left (irange e)"

definition sorted_ents :: "ft_ent list \<Rightarrow> bool" where
  "sorted_ents es \<longleftrightarrow> (\<forall>e \<in> set es. ent_ok e) \<and> sorted_wrt ent_lt es"

fun twf :: "ftree \<Rightarrow> bool" where
  "twf Lf \<longleftrightarrow> True"
| "twf (Nd a es ts) \<longleftrightarrow> length ts = length es + 1 \<and> length es < FT_SPLITLIMIT
     \<and> sorted_ents es \<and> (\<forall>t \<in> set ts. twf t)"

fun chain :: "ftree \<Rightarrow> bool" where
  "chain Lf \<longleftrightarrow> True"
| "chain (Nd a es ts) \<longleftrightarrow> es = [] \<and> length ts = 1 \<and> (\<forall>t \<in> set ts. chain t)"

primrec nlook :: "ft_ent list \<Rightarrow> (byte_index_t \<Rightarrow> int option) list \<Rightarrow> byte_index_t \<Rightarrow> int option" where
  "nlook [] fs x = hd fs x"
| "nlook (e # es) fs x =
     (if i_contains_val (irange e) x then Some (fvalue e)
      else if x < left (irange e) then hd fs x
      else nlook es (tl fs) x)"

fun tlook :: "ftree \<Rightarrow> byte_index_t \<Rightarrow> int option" where
  "tlook Lf x = None"
| "tlook (Nd a es ts) x = nlook es (map (\<lambda>t. tlook t) ts) x"

section \<open>Heaps and frames\<close>

definition heap_ok :: "heap \<Rightarrow> bool" where
  "heap_ok h \<longleftrightarrow> (\<forall>a. mem h a \<noteq> None \<longrightarrow> a < next_ptr h)"

definition frame :: "nat set \<Rightarrow> heap \<Rightarrow> heap \<Rightarrow> bool" where
  "frame S h h' \<longleftrightarrow> next_ptr h \<le> next_ptr h' \<and>
     (\<forall>a. a \<notin> S \<and> a < next_ptr h \<longrightarrow> mem h' a = mem h a)"

definition fresh :: "heap \<Rightarrow> heap \<Rightarrow> nat set" where
  "fresh h h' = {next_ptr h ..< next_ptr h'}"

lemma frame_refl [simp]: "frame S h h"
  by (simp add: frame_def)

lemma frame_mono: "frame S h h' \<Longrightarrow> S \<subseteq> S' \<Longrightarrow> frame S' h h'"
  by (auto simp: frame_def)

lemma frame_trans:
  "frame S h h' \<Longrightarrow> frame S' h' h'' \<Longrightarrow> S' \<subseteq> S \<union> fresh h h' \<Longrightarrow> frame S h h''"
  by (fastforce simp: frame_def fresh_def)

lemma frame_mem: "frame S h h' \<Longrightarrow> a \<notin> S \<Longrightarrow> a < next_ptr h \<Longrightarrow> mem h' a = mem h a"
  by (simp add: frame_def)

lemma frame_next: "frame S h h' \<Longrightarrow> next_ptr h \<le> next_ptr h'"
  by (simp add: frame_def)

lemma fresh_union: "next_ptr h \<le> next_ptr h' \<Longrightarrow> next_ptr h' \<le> next_ptr h'' \<Longrightarrow>
    fresh h h' \<union> fresh h' h'' = fresh h h''"
  by (auto simp: fresh_def)

lemma list_all2_in_set2: "list_all2 P xs ys \<Longrightarrow> y \<in> set ys \<Longrightarrow> \<exists>x \<in> set xs. P x y"
  by (induction rule: list_all2_induct) auto

lemma rep_addrs_mem: "rep h k p t \<Longrightarrow> a \<in> set (addrs t) \<Longrightarrow> mem h a \<noteq> None"
proof (induction t arbitrary: k p)
  case Lf
  then show ?case by simp
next
  case (Nd b es ts)
  from Nd.prems(1) obtain nd where nd: "mem h b = Some nd" "reps h (k - 1) (subtrees nd) ts"
    by auto
  show ?case
  proof (cases "a = b")
    case True
    with nd show ?thesis by simp
  next
    case False
    with Nd.prems(2) obtain t where t: "t \<in> set ts" "a \<in> set (addrs t)" by auto
    then obtain sp :: subtree_ptr where "rep h (k - 1) (st sp) t"
      using list_all2_in_set2 [OF nd(2)] by blast
    with t show ?thesis using Nd.IH by blast
  qed
qed

lemma rep_addrs_lt: "rep h k p t \<Longrightarrow> heap_ok h \<Longrightarrow> a \<in> set (addrs t) \<Longrightarrow> a < next_ptr h"
  using rep_addrs_mem by (auto simp: heap_ok_def)

lemma rep_cong:
  "(\<And>a. a \<in> set (addrs t) \<Longrightarrow> mem h' a = mem h a) \<Longrightarrow> rep h' k p t = rep h k p t"
proof (induction t arbitrary: k p)
  case Lf
  then show ?case by simp
next
  case (Nd a es ts)
  have eq: "rep h' k' q t = rep h k' q t" if "t \<in> set ts" for k' q t
    using that by (intro Nd.IH) (auto intro!: Nd.prems)
  have "reps h' k' sps ts = reps h k' sps ts" for k' sps
    by (rule list.rel_cong) (auto simp: eq)
  then show ?case using Nd.prems[of a] by simp
qed

lemma rep_frame:
  assumes "rep h k p t" "heap_ok h" "frame S h h'" "set (addrs t) \<inter> S = {}"
  shows "rep h' k p t"
proof -
  have "mem h' a = mem h a" if "a \<in> set (addrs t)" for a
    using that assms rep_addrs_lt[of h k p t a] by (auto simp: frame_def)
  with assms(1) show ?thesis using rep_cong[of t h' h] by blast
qed

lemma reps_frame:
  assumes "reps h k sps ts" "heap_ok h" "frame S h h'" "set (concat (map addrs ts)) \<inter> S = {}"
  shows "reps h' k sps ts"
proof (rule list.rel_mono_strong [OF assms(1)])
  fix sp :: subtree_ptr and t
  assume "t \<in> set ts" and *: "inmemory sp \<and> rep h k (st sp) t"
  then have "set (addrs t) \<inter> S = {}" using assms(4) by auto
  with * show "inmemory sp \<and> rep h' k (st sp) t"
    using rep_frame[OF _ assms(2,3)] by blast
qed


section \<open>Primitive heap operations\<close>

lemma get_node_Some [simp]: "mem h p = Some nd \<Longrightarrow> get_node h p = Inr nd"
  by (simp add: get_node_def)

lemma mem_put_node [simp]: "mem (put_node h p nd) = (mem h)(p \<mapsto> nd)"
  by (simp add: put_node_def)

lemma next_put_node [simp]: "next_ptr (put_node h p nd) = next_ptr h"
  by (simp add: put_node_def)

lemma heap_ok_put [simp]: "heap_ok h \<Longrightarrow> p < next_ptr h \<Longrightarrow> heap_ok (put_node h p nd)"
  by (simp add: heap_ok_def)

lemma heap_ok_lt: "heap_ok h \<Longrightarrow> mem h p = Some nd \<Longrightarrow> p < next_ptr h"
  by (simp add: heap_ok_def)

lemma frame_put [simp]: "p \<in> S \<Longrightarrow> frame S h (put_node h p nd)"
  by (auto simp: frame_def)

lemma mem_free_Some [simp]:
  "mem h p = Some nd \<Longrightarrow> mem_free h (Some p) = Inr (h\<lparr>mem := (mem h)(p := None)\<rparr>)"
  by (simp add: mem_free_def)

lemma mem_free_None [simp]: "mem_free h None = Inr h"
  by (simp add: mem_free_def)

lemma rep_put_other: "a \<notin> set (addrs t) \<Longrightarrow> rep (put_node h a nd) k p t = rep h k p t"
  by (rule rep_cong) auto

lemma reps_put_other:
  assumes "a \<notin> set (concat (map addrs ts))"
  shows "reps (put_node h a nd) k sps ts = reps h k sps ts"
  by (rule list.rel_cong) (use assms rep_put_other in auto)

section \<open>Allocation of an empty subtree\<close>

lemma subtree_set_simps [simp]:
  "st (subtree_set sp q) = q" "inmemory (subtree_set sp q)"
  by (simp_all add: subtree_set_def)

lemma ftn_new_leaf:
  assumes "0 \<le> H" "H = 0 \<or> \<not> mk"
  shows "ftn_new h H mk = Inr (next_ptr h, put_node (snd (mem_alloc h
      \<lparr>entries = [], subtrees = [], HEIGHT = H, dirty = True\<rparr>)) (next_ptr h)
      \<lparr>entries = [], subtrees = [subtree_set zero_sptr None], HEIGHT = H, dirty = True\<rparr>)"
  using assms by (subst ftn_new.simps) (auto simp: mem_alloc_def Let_def)

lemma ftn_new_spec:
  assumes "heap_ok h"
  shows "\<exists>p h' t. ftn_new h (int k) True = Inr (p, h') \<and> rep h' (Suc k) (Some p) t \<and> chain t
    \<and> heap_ok h' \<and> frame {} h h' \<and> set (addrs t) \<subseteq> fresh h h' \<and> distinct (addrs t)"
  using assms
proof (induction k arbitrary: h)
  case 0
  let ?p = "next_ptr h" and ?nd = "\<lparr>entries = [], subtrees = [], HEIGHT = 0, dirty = True\<rparr>"
  let ?h' = "put_node (snd (mem_alloc h ?nd)) ?p (?nd\<lparr>subtrees := [subtree_set zero_sptr None]\<rparr>)"
  have "ftn_new h (int 0) True = Inr (?p, ?h')" by (simp add: ftn_new_leaf)
  moreover have "rep ?h' (Suc 0) (Some ?p) (Nd ?p [] [Lf])" by simp
  moreover have "heap_ok ?h'" "frame {} h ?h'" "set (addrs (Nd ?p [] [Lf])) \<subseteq> fresh h ?h'"
    using 0 by (auto simp: mem_alloc_def heap_ok_def frame_def fresh_def less_Suc_eq)
  ultimately show ?case by (intro exI[of _ ?p] exI[of _ ?h'] exI[of _ "Nd ?p [] [Lf]"]) auto
next
  case (Suc k)
  let ?p = "next_ptr h" and ?nd = "\<lparr>entries = [], subtrees = [], HEIGHT = int (Suc k), dirty = True\<rparr>"
  let ?h1 = "snd (mem_alloc h ?nd)"
  have ok1: "heap_ok ?h1" and f1: "frame {} h ?h1" and n1: "next_ptr ?h1 = Suc ?p"
    using Suc.prems by (auto simp: mem_alloc_def heap_ok_def frame_def less_Suc_eq)
  from Suc.IH [OF ok1] obtain q h2 t where IH: "ftn_new ?h1 (int k) True = Inr (q, h2)"
    "rep h2 (Suc k) (Some q) t" "chain t" "heap_ok h2" "frame {} ?h1 h2"
    "set (addrs t) \<subseteq> fresh ?h1 h2" "distinct (addrs t)" by blast
  let ?nd' = "\<lparr>entries = [], subtrees = [subtree_set zero_sptr (Some q)], HEIGHT = int (Suc k), dirty = True\<rparr>"
  have n2: "Suc ?p \<le> next_ptr h2" using IH(5) n1 by (simp add: frame_def)
  have p: "?p \<notin> set (addrs t)" using IH(6) n1 by (auto simp: fresh_def)
  have "ftn_new h (int (Suc k)) True = Inr (?p, put_node h2 ?p ?nd')"
    using IH(1) by (subst ftn_new.simps) (simp add: mem_alloc_def Let_def)
  moreover have "rep (put_node h2 ?p ?nd') (Suc (Suc k)) (Some ?p) (Nd ?p [] [t])"
    using IH(2) p by (simp add: rep_put_other)
  moreover have "frame {} h (put_node h2 ?p ?nd')"
    using frame_trans [OF f1 IH(5)] by (auto simp: frame_def)
  moreover have "set (addrs (Nd ?p [] [t])) \<subseteq> fresh h (put_node h2 ?p ?nd')"
    using IH(6) n1 n2 by (auto simp: fresh_def)
  ultimately show ?case
    using IH(3,4,7) p n2
    by (intro exI[of _ ?p] exI[of _ "put_node h2 ?p ?nd'"] exI[of _ "Nd ?p [] [t]"] conjI) auto
qed

lemma chain_twf: "chain t \<Longrightarrow> twf t"
  by (induction t) (auto simp: FT_SPLITLIMIT_def sorted_ents_def)

lemma chain_look: "chain t \<Longrightarrow> tlook t x = None"
  by (induction t) (auto simp: length_Suc_conv)

section \<open>Deallocation\<close>

lemma free_fold_spec:
  assumes "reps h k sps ts" "heap_ok h" "distinct (concat (map addrs ts))"
    and free: "\<And>h p t. rep h k (Some p) t \<Longrightarrow> heap_ok h \<Longrightarrow> distinct (addrs t) \<Longrightarrow> t \<in> set ts \<Longrightarrow>
      \<exists>h'. free h p = Inr h' \<and> heap_ok h' \<and> next_ptr h' = next_ptr h \<and> frame (set (addrs t)) h h'"
  shows "\<exists>h'. foldR (\<lambda>h sptr. bindR (subtree_free_by free h sptr) (\<lambda>(_, h). Inr h)) sps h = Inr h'
    \<and> heap_ok h' \<and> next_ptr h' = next_ptr h \<and> frame (set (concat (map addrs ts))) h h'"
  using assms
proof (induction sps arbitrary: ts h)
  case Nil
  then show ?case by simp
next
  case (Cons sp sps)
  from Cons.prems(1) obtain t ts' where ts: "ts = t # ts'" "inmemory sp" "rep h k (st sp) t"
    "reps h k sps ts'" by (auto simp: list_all2_Cons1)
  have "\<exists>h1. bindR (subtree_free_by free h sp) (\<lambda>(_, h). Inr h) = Inr h1 \<and> heap_ok h1
      \<and> next_ptr h1 = next_ptr h \<and> frame (set (addrs t)) h h1"
  proof (cases "st sp")
    case None
    then show ?thesis using Cons.prems(2) by (simp add: subtree_free_by_def)
  next
    case (Some p)
    with ts Cons.prems(2,3) obtain h1 where "free h p = Inr h1" "heap_ok h1"
      "next_ptr h1 = next_ptr h" "frame (set (addrs t)) h h1"
      using Cons.prems(4)[of h p t] by auto
    with Some ts(2) show ?thesis by (simp add: subtree_free_by_def)
  qed
  then obtain h1 where h1: "bindR (subtree_free_by free h sp) (\<lambda>(_, h). Inr h) = Inr h1"
    "heap_ok h1" "next_ptr h1 = next_ptr h" "frame (set (addrs t)) h h1" by blast
  have "reps h1 k sps ts'"
    using reps_frame [OF ts(4) Cons.prems(2) h1(4)] Cons.prems(3) ts(1) by auto
  moreover have "distinct (concat (map addrs ts'))" using Cons.prems(3) ts(1) by simp
  ultimately obtain h2 where h2:
    "foldR (\<lambda>h sptr. bindR (subtree_free_by free h sptr) (\<lambda>(_, h). Inr h)) sps h1 = Inr h2"
    "heap_ok h2" "next_ptr h2 = next_ptr h1" "frame (set (concat (map addrs ts'))) h1 h2"
    using Cons.IH[of h1 ts'] h1(2) Cons.prems(4) ts(1) by auto
  have "frame (set (concat (map addrs ts))) h h2"
    by (rule frame_trans [OF frame_mono [OF h1(4)] h2(4)]) (auto simp: ts(1))
  with h1 h2 show ?case by auto
qed

lemma ftn_free_spec:
  "rep h k (Some p) t \<Longrightarrow> heap_ok h \<Longrightarrow> distinct (addrs t) \<Longrightarrow> k \<le> n \<Longrightarrow>
   \<exists>h'. ftn_free n h p = Inr h' \<and> heap_ok h' \<and> next_ptr h' = next_ptr h \<and> frame (set (addrs t)) h h'"
proof (induction n arbitrary: h k p t)
  case 0
  then show ?case by (cases t) auto
next
  case (Suc n)
  from Suc.prems(1) obtain es ts nd where t: "t = Nd p es ts" and k: "0 < k"
    and nd: "mem h p = Some nd" "reps h (k - 1) (subtrees nd) ts"
    by (cases t) auto
  from nd(2) Suc.prems(2) have "\<exists>h'. foldR (\<lambda>h sptr. bindR (subtree_free_by (ftn_free n) h sptr)
      (\<lambda>(_, h). Inr h)) (subtrees nd) h = Inr h'
    \<and> heap_ok h' \<and> next_ptr h' = next_ptr h \<and> frame (set (concat (map addrs ts))) h h'"
    by (rule free_fold_spec) (use Suc.prems(3,4) t Suc.IH k in auto)
  then obtain h1 where h1: "foldR (\<lambda>h sptr. bindR (subtree_free_by (ftn_free n) h sptr)
      (\<lambda>(_, h). Inr h)) (subtrees nd) h = Inr h1" "heap_ok h1" "next_ptr h1 = next_ptr h"
      "frame (set (concat (map addrs ts))) h h1" by blast
  have "mem h1 p = Some nd"
    using h1(4) nd(1) Suc.prems(2,3) t by (auto simp: frame_def heap_ok_def)
  with h1 nd(1) have "ftn_free (Suc n) h p = Inr (h1\<lparr>mem := (mem h1)(p := None)\<rparr>)" by simp
  with h1 t show ?case by (auto simp: heap_ok_def frame_def)
qed

lemma free_subtrees_spec:
  assumes "reps h k sps ts" "heap_ok h" "distinct (concat (map addrs ts))" "k \<le> n"
  shows "\<exists>h'. free_subtrees n h sps = Inr h' \<and> heap_ok h' \<and> next_ptr h' = next_ptr h
    \<and> frame (set (concat (map addrs ts))) h h'"
  unfolding free_subtrees_def subtree_free_def
  by (rule free_fold_spec [OF assms(1-3)]) (use assms(4) ftn_free_spec in auto)


section \<open>Ownership of a tree and its evolution\<close>

fun tptr :: "ftree \<Rightarrow> nat option" where
  "tptr Lf = None"
| "tptr (Nd a es ts) = Some a"

lemma rep_tptr: "rep h k p t \<Longrightarrow> p = tptr t"
  by (cases t) auto

definition owns :: "heap \<Rightarrow> nat \<Rightarrow> ftree \<Rightarrow> bool" where
  "owns h k t \<longleftrightarrow> heap_ok h \<and> rep h k (tptr t) t \<and> distinct (addrs t)"

definition evolves :: "heap \<Rightarrow> ftree \<Rightarrow> heap \<Rightarrow> ftree \<Rightarrow> bool" where
  "evolves h t h' t' \<longleftrightarrow> frame (set (addrs t)) h h' \<and> set (addrs t') \<subseteq> set (addrs t) \<union> fresh h h'"

lemma evolves_refl [simp]: "evolves h t h t"
  by (simp add: evolves_def)

lemma evolves_trans [trans]:
  assumes "evolves h t h' t'" "evolves h' t' h'' t''"
  shows "evolves h t h'' t''"
proof -
  have "frame (set (addrs t)) h h''"
    using assms frame_trans [of "set (addrs t)" h h' "set (addrs t')" h''] by (simp add: evolves_def)
  moreover have "fresh h h' \<union> fresh h' h'' = fresh h h''"
    using assms by (intro fresh_union) (auto simp: evolves_def frame_def)
  ultimately show ?thesis using assms by (auto simp: evolves_def)
qed

lemma owns_lt: "owns h k t \<Longrightarrow> a \<in> set (addrs t) \<Longrightarrow> a < next_ptr h"
  unfolding owns_def using rep_addrs_lt by blast

lemma owns_Nd:
  "owns h k (Nd a es ts) \<longleftrightarrow> heap_ok h \<and> 0 < k \<and> distinct (a # concat (map addrs ts)) \<and>
     (\<exists>nd. mem h a = Some nd \<and> entries nd = es \<and> HEIGHT nd = int k - 1 \<and> reps h (k - 1) (subtrees nd) ts)"
  by (auto simp: owns_def)

lemma owns_node:
  assumes "owns h (Suc k) (Nd a es ts)"
  obtains nd where "mem h a = Some nd" "entries nd = es" "HEIGHT nd = int k"
    "reps h k (subtrees nd) ts" "length (subtrees nd) = length ts" "heap_ok h"
    "a \<notin> set (concat (map addrs ts))" "distinct (concat (map addrs ts))"
  using assms by (auto simp: owns_Nd dest: list_all2_lengthD)

lemma concat_split_nth:
  "i < length xss \<Longrightarrow> concat xss = concat (take i xss) @ xss ! i @ concat (drop (Suc i) xss)"
  by (metis concat.simps(2) concat_append id_take_nth_drop)

lemma set_nth_take: "i < j \<Longrightarrow> j < length xss \<Longrightarrow> set (xss ! i) \<subseteq> set (concat (take j xss))"
  by (force simp: in_set_conv_nth)

lemma distinct_concat_nth:
  assumes d: "distinct (concat xss)" and "i < length xss" "j < length xss" "i \<noteq> j"
  shows "set (xss ! i) \<inter> set (xss ! j) = {}"
proof -
  have *: "set (xss ! i) \<inter> set (xss ! j) = {}" if "i < j" "j < length xss" for i j
    using d set_nth_take [OF that] unfolding concat_split_nth [OF that(2)] by auto
  show ?thesis using *[of i j] *[of j i] assms by (cases "i < j") auto
qed

lemma distinct_concat_update:
  assumes "distinct (concat xss)" "i < length xss" "distinct ys"
    "\<And>j. j < length xss \<Longrightarrow> j \<noteq> i \<Longrightarrow> set ys \<inter> set (xss ! j) = {}"
  shows "distinct (concat (xss[i := ys]))"
proof -
  have upd: "concat (xss[i := ys]) = concat (take i xss) @ ys @ concat (drop (Suc i) xss)"
    using assms(2) by (simp add: upd_conv_take_nth_drop)
  have "set ys \<inter> set (take i xss ! j) = {}" if "j < length (take i xss)" for j
    using that assms(4)[of j] by simp
  then have 1: "set ys \<inter> set (concat (take i xss)) = {}"
    unfolding set_concat set_conv_nth[of "take i xss"] by blast
  have "set ys \<inter> set (drop (Suc i) xss ! j) = {}" if "j < length (drop (Suc i) xss)" for j
    using that assms(4)[of "Suc i + j"] by simp
  then have 2: "set ys \<inter> set (concat (drop (Suc i) xss)) = {}"
    unfolding set_concat set_conv_nth[of "drop (Suc i) xss"] by blast
  show ?thesis
    using assms(1,3) 1 2 unfolding upd concat_split_nth [OF assms(2)] by auto
qed

lemma child_addrs: "i < length ts \<Longrightarrow> set (addrs (ts ! i)) \<subseteq> set (addrs (Nd a es ts))"
  by (auto dest: nth_mem)

lemma distinct_concat_mem: "distinct (concat xss) \<Longrightarrow> xs \<in> set xss \<Longrightarrow> distinct xs"
  by (induction xss) auto

lemma owns_child:
  assumes own: "owns h (Suc k) (Nd a es ts)" and i: "i < length ts"
  shows "owns h k (ts ! i)"
proof -
  from own obtain nd :: ft_node where nd: "reps h k (subtrees nd) ts" "heap_ok h"
    "distinct (concat (map addrs ts))" "length (subtrees nd) = length ts"
    by (auto elim: owns_node)
  have "rep h k (st (subtrees nd ! i)) (ts ! i)"
    using nd(1,4) i by (simp add: list_all2_conv_all_nth)
  then have "rep h k (tptr (ts ! i)) (ts ! i)" using rep_tptr by metis
  moreover have "distinct (addrs (ts ! i))"
    by (rule distinct_concat_mem [OF nd(3)]) (use i in auto)
  ultimately show ?thesis using nd(2) by (simp add: owns_def)
qed

lemma child_evolves:
  assumes own: "owns h (Suc k) (Nd a es ts)" and i: "i < length ts"
    and ev: "evolves h (ts ! i) h' t'" and own': "owns h' k t'" and ptr: "tptr t' = tptr (ts ! i)"
  shows "owns h' (Suc k) (Nd a es (ts[i := t']))"
    and "evolves h (Nd a es ts) h' (Nd a es (ts[i := t']))"
proof -
  from own obtain nd where nd: "mem h a = Some nd" "entries nd = es" "HEIGHT nd = int k"
    "reps h k (subtrees nd) ts" "length (subtrees nd) = length ts" "heap_ok h"
    "a \<notin> set (concat (map addrs ts))" "distinct (concat (map addrs ts))"
    by (rule owns_node)
  have fr: "frame (set (addrs (ts ! i))) h h'" and sub: "set (addrs t') \<subseteq> set (addrs (ts ! i)) \<union> fresh h h'"
    using ev by (auto simp: evolves_def)
  have lt: "b < next_ptr h" if "b \<in> set (addrs (Nd a es ts))" for b
    using owns_lt [OF own that] .
  have disj: "set (addrs t') \<inter> set (addrs (ts ! j)) = {}" if "j < length ts" "j \<noteq> i" for j
  proof -
    have "set (addrs (ts ! i)) \<inter> set (addrs (ts ! j)) = {}"
      using distinct_concat_nth [OF nd(8), of i j] that i by simp
    moreover have "fresh h h' \<inter> set (addrs (ts ! j)) = {}"
      using lt that(1) by (auto simp: fresh_def) (metis leD nth_mem)
    ultimately show ?thesis using sub by blast
  qed
  have "mem h' a = Some nd"
    using fr nd(1,6,7) i by (auto simp: frame_def heap_ok_def)
  moreover have "reps h' k (subtrees nd) (ts[i := t'])"
  proof (rule list_all2_all_nthI)
    show "length (subtrees nd) = length (ts[i := t'])" using nd(5) by simp
    fix j assume "j < length (subtrees nd)"
    then have j: "j < length ts" using nd(5) by simp
    then have *: "inmemory (subtrees nd ! j) \<and> rep h k (st (subtrees nd ! j)) (ts ! j)"
      using nd(4) by (simp add: list_all2_conv_all_nth)
    show "inmemory (subtrees nd ! j) \<and> rep h' k (st (subtrees nd ! j)) (ts[i := t'] ! j)"
    proof (cases "j = i")
      case True
      with * have "st (subtrees nd ! i) = tptr (ts ! i)" using rep_tptr by blast
      with True * own' i ptr show ?thesis by (simp add: owns_def)
    next
      case False
      have "set (addrs (ts ! j)) \<inter> set (addrs (ts ! i)) = {}"
        using distinct_concat_nth [OF nd(8), of j i] False i j by simp
      then have "rep h' k (st (subtrees nd ! j)) (ts ! j)"
        using * rep_frame [OF _ nd(6) fr] by blast
      with * False show ?thesis by simp
    qed
  qed
  moreover have "distinct (concat (map addrs (ts[i := t'])))"
    unfolding map_update
    by (rule distinct_concat_update [OF nd(8)]) (use i own' disj in \<open>auto simp: owns_def\<close>)
  moreover have sub2: "set (concat (map addrs (ts[i := t']))) \<subseteq> set (concat (map addrs ts)) \<union> fresh h h'"
  proof -
    have "set (ts[i := t']) \<subseteq> insert t' (set ts)" by (rule set_update_subset_insert)
    moreover have "ts ! i \<in> set ts" using i by simp
    ultimately show ?thesis using sub unfolding set_concat set_map by blast
  qed
  moreover have "a \<notin> fresh h h'" using lt[of a] by (auto simp: fresh_def)
  ultimately show "owns h' (Suc k) (Nd a es (ts[i := t']))"
    using nd own' by (auto simp: owns_Nd owns_def[of h' k t'])
  show "evolves h (Nd a es ts) h' (Nd a es (ts[i := t']))"
    unfolding evolves_def using frame_mono [OF fr child_addrs [OF i]] sub2 by auto
qed


lemma owns_put_node:
  assumes "reps h k sps ts" "heap_ok h" "distinct (a # concat (map addrs ts))" "a < next_ptr h"
    and "subtrees nd = sps" "HEIGHT nd = int k"
  shows "owns (put_node h a nd) (Suc k) (Nd a (entries nd) ts)"
  using assms by (auto simp: owns_Nd reps_put_other)

lemma ftn_clear_spec:
  assumes own: "owns h (Suc k) (Nd a es ts)"
  shows "\<exists>h' c. ftn_clear h a True = Inr h' \<and> owns h' (Suc k) (Nd a [] [c]) \<and> chain c
    \<and> evolves h (Nd a es ts) h' (Nd a [] [c])"
proof -
  from own obtain nd where nd: "mem h a = Some nd" "entries nd = es" "HEIGHT nd = int k"
    "reps h k (subtrees nd) ts" "length (subtrees nd) = length ts" "heap_ok h"
    "a \<notin> set (concat (map addrs ts))" "distinct (concat (map addrs ts))"
    by (rule owns_node)
  obtain h1 where h1: "free_subtrees k h (subtrees nd) = Inr h1" "heap_ok h1"
    "next_ptr h1 = next_ptr h" "frame (set (concat (map addrs ts))) h h1"
    using free_subtrees_spec [OF nd(4,6,8) le_refl] by blast
  have alt: "a < next_ptr h" using heap_ok_lt nd by blast
  have a1: "mem h1 a = Some nd" using h1(4) nd(1,7) alt by (auto simp: frame_def)
  have "\<exists>q h2 c. (if HEIGHT nd = 0 \<or> \<not> True then Inr (None, h1)
      else bindR (ftn_new h1 (HEIGHT nd - 1) True) (\<lambda>(p, h). Inr (Some p, h))) = Inr (q, h2)
    \<and> rep h2 k q c \<and> chain c \<and> heap_ok h2 \<and> frame {} h1 h2 \<and> set (addrs c) \<subseteq> fresh h1 h2
    \<and> distinct (addrs c)"
  proof (cases k)
    case 0
    then show ?thesis using nd(3) h1(2) by (intro exI[of _ None] exI[of _ h1] exI[of _ Lf]) simp
  next
    case (Suc k')
    then show ?thesis using nd(3) ftn_new_spec [OF h1(2), of k'] by fastforce
  qed
  then obtain q h2 c where c: "(if HEIGHT nd = 0 \<or> \<not> True then Inr (None, h1)
      else bindR (ftn_new h1 (HEIGHT nd - 1) True) (\<lambda>(p, h). Inr (Some p, h))) = Inr (q, h2)"
    "rep h2 k q c" "chain c" "heap_ok h2" "frame {} h1 h2" "set (addrs c) \<subseteq> fresh h1 h2"
    "distinct (addrs c)" by blast
  have a2: "mem h2 a = Some nd" using c(5) a1 alt h1(3) by (auto simp: frame_def)
  let ?s = "case subtrees nd of [] \<Rightarrow> zero_sptr | s # _ \<Rightarrow> s"
  let ?nd = "nd\<lparr>entries := [], subtrees := [subtree_set ?s q]\<rparr>"
  have "ftn_clear h a True = Inr (put_node h2 a ?nd)"
    unfolding ftn_clear_def using nd(1,3) h1(1) a1 a2 c(1) by simp
  moreover have na: "a \<notin> set (addrs c)" using c(6) alt h1(3) by (auto simp: fresh_def)
  have "owns (put_node h2 a ?nd) (Suc k) (Nd a (entries ?nd) [c])"
    by (rule owns_put_node) (use c nd(3) na alt h1(3) in \<open>auto simp: frame_def\<close>)
  moreover have "evolves h (Nd a es ts) (put_node h2 a ?nd) (Nd a [] [c])"
    unfolding evolves_def using h1 c(5,6)
    by (auto simp: frame_def fresh_def)
  ultimately show ?thesis using c(3) by auto
qed

lemma subtree_clear_spec:
  assumes own: "owns h (Suc k) (Nd a es ts)" and i: "i < length ts"
  shows "\<exists>h' c. subtree_clear h a i (int k - 1) = Inr h' \<and> owns h' (Suc k) (Nd a es (ts[i := c]))
    \<and> chain c \<and> evolves h (Nd a es ts) h' (Nd a es (ts[i := c]))"
proof (cases k)
  case 0
  from own obtain nd :: ft_node where nd: "reps h k (subtrees nd) ts" by (rule owns_node)
  with i 0 have "rep h 0 (st (subtrees nd ! i)) (ts ! i)" by (simp add: list_all2_conv_all_nth)
  then have "ts ! i = Lf" by (cases "ts ! i") auto
  then have "ts[i := Lf] = ts" using i by (metis list_update_id)
  with own 0 show ?thesis
    by (intro exI[of _ h] exI[of _ Lf]) (simp add: subtree_clear_def)
next
  case (Suc k')
  from own obtain nd where nd: "mem h a = Some nd" "entries nd = es" "HEIGHT nd = int k"
    "reps h k (subtrees nd) ts" "length (subtrees nd) = length ts" "heap_ok h"
    "a \<notin> set (concat (map addrs ts))" "distinct (concat (map addrs ts))"
    by (rule owns_node)
  have r: "inmemory (subtrees nd ! i)" "rep h (Suc k') (st (subtrees nd ! i)) (ts ! i)"
    using nd(4) i Suc by (auto simp: list_all2_conv_all_nth)
  then obtain b es' ts' nd' where b: "ts ! i = Nd b es' ts'" "st (subtrees nd ! i) = Some b"
    "mem h b = Some nd'" "HEIGHT nd' = int k'"
    by (cases "ts ! i") auto
  have "owns h (Suc k') (Nd b es' ts')"
    using owns_child [OF own i] b(1) Suc by simp
  then obtain h' c where h': "ftn_clear h b True = Inr h'" "owns h' (Suc k') (Nd b [] [c])" "chain c"
    "evolves h (Nd b es' ts') h' (Nd b [] [c])"
    using ftn_clear_spec by blast
  have "subtree_clear h a i (int k - 1) = Inr h'"
    unfolding subtree_clear_def using nd(1,5) i r(1) b h'(1) Suc by simp
  moreover have "owns h' (Suc k) (Nd a es (ts[i := Nd b [] [c]]))"
    "evolves h (Nd a es ts) h' (Nd a es (ts[i := Nd b [] [c]]))"
    using child_evolves [OF own i, of h' "Nd b [] [c]"] h' b(1) Suc by auto
  ultimately show ?thesis using h'(3) by (intro exI[of _ h'] exI[of _ "Nd b [] [c]"]) auto
qed


section \<open>Deleting marked entries and subtrees\<close>

lemma keep_simps [simp]:
  "keep [] ds = []"
  "keep (x # xs) (d # ds) = (if d then keep xs ds else x # keep xs ds)"
  by (simp_all add: keep_def)

lemma dropped_simps [simp]:
  "dropped [] ds = []"
  "dropped (x # xs) (d # ds) = (if d then x # dropped xs ds else dropped xs ds)"
  by (simp_all add: dropped_def)

lemma keep_append: "length xs = length ds \<Longrightarrow> keep (xs @ ys) (ds @ es) = keep xs ds @ keep ys es"
  by (simp add: keep_def)

lemma keep_replicate [simp]:
  "keep xs (replicate (length xs) False) = xs"
  "keep xs (replicate (length xs) True) = []"
  by (induction xs) auto

lemma keep_list_all2:
  assumes "list_all2 P xs ys" "length ds = length xs"
  shows "list_all2 P (keep xs ds) (keep ys ds)" "list_all2 P (dropped xs ds) (dropped ys ds)"
proof -
  have "list_all2 P (keep xs ds) (keep ys ds) \<and> list_all2 P (dropped xs ds) (dropped ys ds)"
    using assms
  proof (induction arbitrary: ds rule: list_all2_induct)
    case Nil
    then show ?case by simp
  next
    case (Cons x xs y ys)
    then show ?case by (cases ds) auto
  qed
  then show "list_all2 P (keep xs ds) (keep ys ds)" "list_all2 P (dropped xs ds) (dropped ys ds)"
    by auto
qed

lemma keep_dropped_distinct:
  assumes "distinct (concat (map f xs))" "length ds = length xs"
  shows "distinct (concat (map f (keep xs ds))) \<and> distinct (concat (map f (dropped xs ds)))
    \<and> set (concat (map f (keep xs ds))) \<inter> set (concat (map f (dropped xs ds))) = {}
    \<and> set (keep xs ds) \<subseteq> set xs \<and> set (dropped xs ds) \<subseteq> set xs"
  using assms
proof (induction xs arbitrary: ds)
  case Nil
  then show ?case by simp
next
  case (Cons x xs)
  then obtain d ds' where ds: "ds = d # ds'" "length ds' = length xs" by (cases ds) auto
  note IH = Cons.IH [of ds']
  have new: "set (f x) \<inter> set (concat (map f xs)) = {}" "distinct (f x)" "distinct (concat (map f xs))"
    using Cons.prems(1) by auto
  have "set (keep xs ds') \<subseteq> set xs" "set (dropped xs ds') \<subseteq> set xs"
    using IH new ds(2) by auto
  then have "set (f x) \<inter> set (concat (map f (keep xs ds'))) = {}"
    "set (f x) \<inter> set (concat (map f (dropped xs ds'))) = {}"
    using new(1) unfolding set_concat set_map by blast+
  with IH new ds show ?case by (cases d) auto
qed

lemma owns_put_entries:
  assumes own: "owns h (Suc k) (Nd a es ts)" and "mem h a = Some nd"
    and nd': "entries nd' = es'" "subtrees nd' = subtrees nd" "HEIGHT nd' = HEIGHT nd"
  shows "owns (put_node h a nd') (Suc k) (Nd a es' ts)"
    and "evolves h (Nd a es ts) (put_node h a nd') (Nd a es' ts)"
proof -
  have a: "a < next_ptr h" using own by (auto intro: owns_lt)
  have "owns (put_node h a nd') (Suc k) (Nd a (entries nd') ts)"
    by (rule owns_put_node) (use own assms(2) nd' a in \<open>auto simp: owns_Nd\<close>)
  then show "owns (put_node h a nd') (Suc k) (Nd a es' ts)" using nd' by simp
  show "evolves h (Nd a es ts) (put_node h a nd') (Nd a es' ts)"
    by (auto simp: evolves_def)
qed

lemma performdeletes_spec:
  assumes own: "owns h (Suc k) (Nd a es ts)"
    and len: "length ed = length es" "length sd = length ts"
      "length (keep es ed) + 1 = length (keep ts sd)"
  shows "\<exists>h'. prune_performdeletes h a ed sd = Inr h'
    \<and> owns h' (Suc k) (Nd a (keep es ed) (keep ts sd))
    \<and> evolves h (Nd a es ts) h' (Nd a (keep es ed) (keep ts sd))"
proof -
  from own obtain nd where nd: "mem h a = Some nd" "entries nd = es" "HEIGHT nd = int k"
    "reps h k (subtrees nd) ts" "length (subtrees nd) = length ts" "heap_ok h"
    "a \<notin> set (concat (map addrs ts))" "distinct (concat (map addrs ts))"
    by (rule owns_node)
  let ?nd1 = "nd\<lparr>entries := keep es ed, dirty := (dirty nd \<or> True \<in> set ed)\<rparr>"
  let ?h1 = "put_node h a ?nd1"
  have own1: "owns ?h1 (Suc k) (Nd a (keep es ed) ts)"
    and ev1: "evolves h (Nd a es ts) ?h1 (Nd a (keep es ed) ts)"
    using owns_put_entries [OF own nd(1), of ?nd1] by auto
  have ok1: "heap_ok ?h1" using own1 by (simp add: owns_def)
  have r1: "reps ?h1 k (subtrees nd) ts" using nd(4,7) by (simp add: reps_put_other)
  note kd = keep_dropped_distinct [OF nd(8) len(2)]
  obtain h2 where h2: "free_subtrees k ?h1 (dropped (subtrees nd) sd) = Inr h2" "heap_ok h2"
    "next_ptr h2 = next_ptr ?h1" "frame (set (concat (map addrs (dropped ts sd)))) ?h1 h2"
    using free_subtrees_spec [OF keep_list_all2(2) [OF r1, of sd] ok1 _ le_refl] kd len(2) nd(5)
    by auto
  have sub: "set (concat (map addrs (dropped ts sd))) \<subseteq> set (concat (map addrs ts))"
    "set (concat (map addrs (keep ts sd))) \<subseteq> set (concat (map addrs ts))"
    using kd by auto
  have alt: "a < next_ptr h" using own by (auto intro: owns_lt)
  have a2: "mem h2 a = Some ?nd1"
    using frame_mem [OF h2(4), of a] nd(7) sub(1) alt by auto
  have r2: "reps h2 k (keep (subtrees nd) sd) (keep ts sd)"
    by (rule reps_frame [OF keep_list_all2(1) [OF r1] ok1 h2(4)]) (use kd len(2) nd(5) in auto)
  let ?nd2 = "?nd1\<lparr>subtrees := keep (subtrees nd) sd\<rparr>"
  have "length (keep (subtrees nd) sd) = length (keep ts sd)"
    using r2 by (rule list_all2_lengthD)
  then have "prune_performdeletes h a ed sd = Inr (put_node h2 a ?nd2)"
    unfolding prune_performdeletes_def using nd(1,2,3) h2(1) a2 len(3) by (simp add: Let_def)
  moreover have "owns (put_node h2 a ?nd2) (Suc k) (Nd a (entries ?nd2) (keep ts sd))"
    by (rule owns_put_node [OF r2 h2(2)]) (use kd nd sub alt h2(3) in auto)
  moreover have "evolves h (Nd a es ts) (put_node h2 a ?nd2) (Nd a (keep es ed) (keep ts sd))"
    using h2(3,4) sub by (fastforce simp: evolves_def frame_def)
  ultimately show ?thesis by auto
qed

lemma prune_boundary_spec:
  assumes own: "owns h (Suc k) (Nd a es ts)" and i: "i < length es" and s: "s < length ts"
    and iv: "i_restrict_int (irange (es ! i)) V False = Inr iv"
  shows "\<exists>h' c. prune_boundary h a i s V = Inr h' \<and> chain c
    \<and> owns h' (Suc k) (Nd a (es[i := (es ! i)\<lparr>irange := iv\<rparr>]) (ts[s := c]))
    \<and> evolves h (Nd a es ts) h' (Nd a (es[i := (es ! i)\<lparr>irange := iv\<rparr>]) (ts[s := c]))"
proof -
  from own obtain nd where nd: "mem h a = Some nd" "entries nd = es" "HEIGHT nd = int k"
    by (rule owns_node)
  obtain h1 c where h1: "subtree_clear h a s (int k - 1) = Inr h1"
    "owns h1 (Suc k) (Nd a es (ts[s := c]))" "chain c"
    "evolves h (Nd a es ts) h1 (Nd a es (ts[s := c]))"
    using subtree_clear_spec [OF own s] by blast
  from h1(2) obtain nd1 where nd1: "mem h1 a = Some nd1" "entries nd1 = es" by (rule owns_node)
  let ?es = "es[i := (es ! i)\<lparr>irange := iv\<rparr>]"
  have "prune_boundary h a i s V = Inr (put_node h1 a (nd1\<lparr>entries := ?es\<rparr>))"
    unfolding prune_boundary_def using nd h1(1) nd1 iv by simp
  moreover have "owns (put_node h1 a (nd1\<lparr>entries := ?es\<rparr>)) (Suc k) (Nd a ?es (ts[s := c]))"
    "evolves h1 (Nd a es (ts[s := c])) (put_node h1 a (nd1\<lparr>entries := ?es\<rparr>)) (Nd a ?es (ts[s := c]))"
    using owns_put_entries [OF h1(2) nd1(1), of "nd1\<lparr>entries := ?es\<rparr>" ?es] by auto
  ultimately show ?thesis using h1(3,4) evolves_trans by blast
qed

end
