(* ===== verification/Fig_Prune.thy ===== *)
theory Fig_Prune
  imports Fig_Rep
begin

text \<open>
  Lookups in a node by position, and the correctness of \<open>ftn_pruneTo\<close>: pruning keeps every
  lookup inside the valid interval and leaves no entry outside it.
\<close>

section \<open>Lookups by position\<close>

lemma sorted_ents_ok: "sorted_ents es \<Longrightarrow> j < length es \<Longrightarrow> ent_ok (es ! j)"
  by (simp add: sorted_ents_def)

lemma sorted_ents_lt:
  "sorted_ents es \<Longrightarrow> i < j \<Longrightarrow> j < length es \<Longrightarrow> right (irange (es ! i)) < left (irange (es ! j))"
  by (simp add: sorted_ents_def sorted_wrt_iff_nth_less ent_lt_def)

lemma ent_ok_le: "ent_ok e \<Longrightarrow> left (irange e) \<le> right (irange e)"
  by (simp add: ent_ok_def)

lemma sorted_ents_left_mono:
  "sorted_ents es \<Longrightarrow> i \<le> j \<Longrightarrow> j < length es \<Longrightarrow> left (irange (es ! i)) \<le> left (irange (es ! j))"
  using sorted_ents_lt[of es i j] ent_ok_le[OF sorted_ents_ok[of es i]]
  by (cases "i = j") (auto dest: order.strict_implies_order)

lemma sorted_ents_right_mono:
  "sorted_ents es \<Longrightarrow> i \<le> j \<Longrightarrow> j < length es \<Longrightarrow> right (irange (es ! i)) \<le> right (irange (es ! j))"
  using sorted_ents_lt[of es i j] ent_ok_le[OF sorted_ents_ok[of es j]]
  by (cases "i = j") (auto dest: order.strict_implies_order)

lemma sorted_ents_Cons:
  "sorted_ents (e # es) \<longleftrightarrow> ent_ok e \<and> (\<forall>d \<in> set es. ent_lt e d) \<and> sorted_ents es"
  by (auto simp: sorted_ents_def)

lemma sorted_ents_append:
  "sorted_ents (ds @ es) \<longleftrightarrow> sorted_ents ds \<and> sorted_ents es \<and> (\<forall>d \<in> set ds. \<forall>e \<in> set es. ent_lt d e)"
  by (auto simp: sorted_ents_def sorted_wrt_append)

lemma sorted_ents_take_drop [simp, intro]:
  "sorted_ents es \<Longrightarrow> sorted_ents (take n es)" "sorted_ents es \<Longrightarrow> sorted_ents (drop n es)"
  by (auto simp: sorted_ents_def sorted_wrt_take sorted_wrt_drop dest: in_set_takeD in_set_dropD)

text \<open>A byte is inside entry \<open>j\<close> of a node, or in the gap before entry \<open>g\<close>.\<close>

definition in_gap :: "ft_ent list \<Rightarrow> nat \<Rightarrow> byte_index_t \<Rightarrow> bool" where
  "in_gap es g x \<longleftrightarrow> g \<le> length es \<and> (\<forall>j < g. right (irange (es ! j)) < x)
     \<and> (\<forall>j. g \<le> j \<and> j < length es \<longrightarrow> x < left (irange (es ! j)))"

lemma nlook_entry:
  assumes "sorted_ents es" "j < length es" "x \<in> iv_set (irange (es ! j))"
  shows "nlook es fs x = Some (fvalue (es ! j))"
  using assms
proof (induction es arbitrary: j fs)
  case Nil
  then show ?case by simp
next
  case (Cons e es)
  show ?case
  proof (cases j)
    case 0
    with Cons.prems show ?thesis by (simp add: i_contains_val_iff)
  next
    case (Suc j')
    have "es ! j' \<in> set es" using Cons.prems(2) Suc by simp
    then have "right (irange e) < x" "left (irange e) \<le> right (irange e)"
      using Cons.prems(1,3) Suc by (auto simp: sorted_ents_Cons ent_lt_def iv_set_def ent_ok_def)
    then have "\<not> i_contains_val (irange e) x" "\<not> x < left (irange e)"
      by (auto simp: i_contains_val_def)
    then show ?thesis using Cons.IH[of j'] Cons.prems Suc by (simp add: sorted_ents_Cons)
  qed
qed

lemma nlook_gap:
  assumes "sorted_ents es" "in_gap es g x" "length fs = length es + 1"
  shows "nlook es fs x = (fs ! g) x"
  using assms
proof (induction es arbitrary: g fs)
  case Nil
  then show ?case by (cases fs) (auto simp: in_gap_def)
next
  case (Cons e es)
  then obtain f fs' where fs: "fs = f # fs'" "length fs' = length es + 1" by (cases fs) auto
  show ?case
  proof (cases g)
    case 0
    with Cons.prems(2) have "x < left (irange e)" by (auto simp: in_gap_def)
    with 0 fs show ?thesis by (auto simp: i_contains_val_def)
  next
    case (Suc g')
    with Cons.prems(2) have "right (irange e) < x" by (auto simp: in_gap_def)
    moreover have "left (irange e) \<le> right (irange e)"
      using Cons.prems(1) by (simp add: sorted_ents_Cons ent_ok_def)
    ultimately have "\<not> i_contains_val (irange e) x" "\<not> x < left (irange e)"
      by (auto simp: i_contains_val_def)
    moreover have "in_gap es g' x"
      using Cons.prems(2) Suc unfolding in_gap_def by (force dest: spec[of _ "Suc _"])
    ultimately show ?thesis
      using Cons.IH[of g' fs'] Cons.prems(1) fs Suc by (simp add: sorted_ents_Cons)
  qed
qed

lemma entry_or_gap:
  assumes "sorted_ents es"
  shows "(\<exists>j < length es. x \<in> iv_set (irange (es ! j))) \<or> (\<exists>g. in_gap es g x)"
  using assms
proof (induction es)
  case Nil
  then show ?case by (auto simp: in_gap_def)
next
  case (Cons e es)
  consider "x \<in> iv_set (irange e)" | "x < left (irange e)" | "right (irange e) < x"
    unfolding iv_set_iff by force
  then show ?case
  proof cases
    case 1
    then show ?thesis by (auto intro: exI[of _ 0])
  next
    case 2
    have "x < left (irange d)" if "d \<in> set (e # es)" for d
      using that Cons.prems 2
      by (auto simp: sorted_ents_Cons ent_lt_def ent_ok_def)
    then have "in_gap (e # es) 0 x" unfolding in_gap_def by (metis le0 less_nat_zero_code nth_mem)
    then show ?thesis by blast
  next
    case 3
    from Cons consider j where "j < length es" "x \<in> iv_set (irange (es ! j))" | g where "in_gap es g x"
      by (auto simp: sorted_ents_Cons)
    then show ?thesis
    proof cases
      case 1
      then show ?thesis by (auto intro!: exI[of _ "Suc j"])
    next
      case (2 g)
      with 3 have "in_gap (e # es) (Suc g) x"
        unfolding in_gap_def by (auto simp: nth_Cons split: nat.splits)
      then show ?thesis by blast
    qed
  qed
qed

lemma nlook_cong:
  assumes "sorted_ents es" "length fs = length es + 1" "length gs = length es + 1"
    and "\<And>g. in_gap es g x \<Longrightarrow> (fs ! g) x = (gs ! g) x"
  shows "nlook es fs x = nlook es gs x"
  using entry_or_gap [OF assms(1), of x]
proof
  assume "\<exists>j < length es. x \<in> iv_set (irange (es ! j))"
  then show ?thesis using nlook_entry [OF assms(1)] by metis
next
  assume "\<exists>g. in_gap es g x"
  then show ?thesis using nlook_gap [OF assms(1)] assms(2-4) by metis
qed


section \<open>The loops of pruneTo\<close>

lemma replicate_mark:
  "i < n \<Longrightarrow> (replicate i True @ replicate (n - i) False)[i := True]
     = replicate (Suc i) True @ replicate (n - Suc i) False"
  by (simp add: list_update_append Suc_diff_Suc [symmetric] replicate_app_Cons_same)

lemma prune_left_loop_eq:
  assumes "i \<le> m" "m \<le> length es" "n = length es" "s = Suc n"
    and "\<And>j. i \<le> j \<Longrightarrow> j < m \<Longrightarrow> i_leftOf_int (irange (es ! j)) V"
    and "m < length es \<Longrightarrow> \<not> i_leftOf_int (irange (es ! m)) V"
  shows "prune_left_loop es V i (replicate i True @ replicate (n - i) False)
      (replicate i True @ replicate (s - i) False)
    = (m, replicate m True @ replicate (n - m) False, replicate m True @ replicate (s - m) False)"
  using assms(1,5)
proof (induction "m - i" arbitrary: i)
  case 0
  with assms show ?case by (subst prune_left_loop.simps) auto
next
  case (Suc d)
  then have i: "i < m" "i < length es" "i < n" "i < s" using assms by auto
  with Suc.prems have "i_leftOf_int (irange (es ! i)) V" by simp
  with i Suc.hyps(1)[of "Suc i"] Suc.hyps(2) Suc.prems show ?case
    by (subst prune_left_loop.simps)
      (simp add: replicate_mark [OF i(3)] replicate_mark [OF i(4)] del: replicate_Suc)
qed

lemma prune_skip_loop_eq:
  assumes "i \<le> m" "m \<le> length es"
    and "\<And>j. i \<le> j \<Longrightarrow> j < m \<Longrightarrow> i_contains_int V (irange (es ! j))"
    and "m < length es \<Longrightarrow> \<not> i_contains_int V (irange (es ! m))"
  shows "prune_skip_loop es V i = m"
  using assms(1,3)
proof (induction "m - i" arbitrary: i)
  case 0
  with assms show ?case by (subst prune_skip_loop.simps) auto
next
  case (Suc d)
  then have i: "i < m" "i < length es" using assms by auto
  with Suc.prems have "i_contains_int V (irange (es ! i))" by simp
  with i Suc.hyps(1)[of "Suc i"] Suc.hyps(2) Suc.prems show ?case
    by (subst prune_skip_loop.simps) simp
qed

lemma prune_right_loop_eq:
  assumes "i \<le> length es" "length X = i" "length Y = Suc i"
    and "\<And>j. i \<le> j \<Longrightarrow> j < length es \<Longrightarrow> i_rightOf_int (irange (es ! j)) V"
  shows "prune_right_loop es V i (X @ replicate (length es - i) False) (Y @ replicate (length es - i) False)
    = (length es, X @ replicate (length es - i) True, Y @ replicate (length es - i) True)"
  using assms
proof (induction "length es - i" arbitrary: i X Y)
  case 0
  then show ?case by (subst prune_right_loop.simps) auto
next
  case (Suc d)
  then have i: "i < length es" by simp
  have r: "replicate (length es - i) b = b # replicate (length es - Suc i) b" for b
    using i by (simp add: Suc_diff_Suc [symmetric])
  from Suc.prems i have "i_rightOf_int (irange (es ! i)) V" by simp
  moreover have "prune_right_loop es V (Suc i) ((X @ [True]) @ replicate (length es - Suc i) False)
      ((Y @ [True]) @ replicate (length es - Suc i) False)
    = (length es, (X @ [True]) @ replicate (length es - Suc i) True,
       (Y @ [True]) @ replicate (length es - Suc i) True)"
    using Suc.hyps Suc.prems i by (intro Suc.hyps(1)) auto
  ultimately show ?case
    using i Suc.prems(2,3) by (subst prune_right_loop.simps) (simp add: r list_update_append)
qed

lemma keep_mark_append:
  "length xs = a \<Longrightarrow> keep (xs @ ys) (replicate a True @ ds) = keep ys ds"
  "length xs = a \<Longrightarrow> keep (xs @ ys) (replicate a False @ ds) = xs @ keep ys ds"
  by (induction xs arbitrary: a) auto

lemma keep_slice:
  assumes "length xs = a + b + c"
  shows "keep xs (replicate a True @ replicate b False @ replicate c True) = take b (drop a xs)"
proof -
  define A B C where "A = take a xs" and "B = take b (drop a xs)" and "C = drop (a + b) xs"
  have len: "length A = a" "length B = b" "length C = c"
    using assms by (auto simp: A_def B_def C_def)
  have "keep (A @ B @ C) (replicate a True @ replicate b False @ replicate c True) = B"
    using len keep_replicate(2)[of C] by (simp add: keep_mark_append)
  moreover have "A @ B @ C = xs"
    unfolding A_def B_def C_def by (metis add.commute append_take_drop_id drop_drop)
  ultimately show ?thesis by (simp add: B_def)
qed


section \<open>Pruning a node\<close>

lemma monotone_cut:
  assumes "\<And>i j. i \<le> j \<Longrightarrow> j < (n::nat) \<Longrightarrow> P j \<Longrightarrow> P i"
  shows "\<exists>a \<le> n. \<forall>j < n. P j \<longleftrightarrow> j < a"
  using assms
proof (induction n)
  case 0
  then show ?case by simp
next
  case (Suc n)
  then obtain a where a: "a \<le> n" "\<forall>j < n. P j \<longleftrightarrow> j < a" by (metis less_Suc_eq)
  show ?case
  proof (cases "P n")
    case True
    then have "\<forall>j < Suc n. P j" using Suc.prems by (meson less_Suc_eq_le lessI)
    then show ?thesis by blast
  next
    case False
    then show ?thesis using a by (metis le_Suc_eq less_Suc_eq not_less)
  qed
qed

lemma cut_points:
  assumes s: "sorted_ents es" and V: "left V \<le> right V"
  shows "\<exists>a c. a \<le> c \<and> c \<le> length es
    \<and> (\<forall>j < length es. right (irange (es ! j)) < left V \<longleftrightarrow> j < a)
    \<and> (\<forall>j < length es. right V < left (irange (es ! j)) \<longleftrightarrow> c \<le> j)"
proof -
  obtain a where a: "a \<le> length es" "\<forall>j < length es. right (irange (es ! j)) < left V \<longleftrightarrow> j < a"
    using monotone_cut[of "length es" "\<lambda>j. right (irange (es ! j)) < left V"]
      sorted_ents_right_mono [OF s] by (meson le_less_trans)
  obtain c where c: "c \<le> length es" "\<forall>j < length es. left (irange (es ! j)) \<le> right V \<longleftrightarrow> j < c"
    using monotone_cut[of "length es" "\<lambda>j. left (irange (es ! j)) \<le> right V"]
      sorted_ents_left_mono [OF s] by (meson order_trans)
  have "a \<le> c"
  proof (rule ccontr)
    assume "\<not> a \<le> c"
    then have "c < a" "c < length es" using a(1) by auto
    then have "right (irange (es ! c)) < left V" "\<not> left (irange (es ! c)) \<le> right V"
      using a(2) c(2) by auto
    moreover have "left (irange (es ! c)) \<le> right (irange (es ! c))"
      using sorted_ents_ok [OF s \<open>c < length es\<close>] by (rule ent_ok_le)
    ultimately show False using V by auto
  qed
  with a c show ?thesis by (metis not_le)
qed

definition cut_to :: "interval \<Rightarrow> ft_ent \<Rightarrow> ft_ent \<Rightarrow> bool" where
  "cut_to V e e' \<longleftrightarrow> fvalue e' = fvalue e \<and> nonempty (irange e') = nonempty (irange e)
     \<and> left (irange e') = max (left (irange e)) (left V)
     \<and> right (irange e') = min (right (irange e)) (right V)"

lemma cut_to_same:
  "left V \<le> left (irange e) \<Longrightarrow> right (irange e) \<le> right V \<Longrightarrow> cut_to V e e"
  by (auto simp: cut_to_def max_def min_def)

lemma cut_to_trans: "cut_to V e e' \<Longrightarrow> cut_to V e' e'' \<Longrightarrow> cut_to V e e''"
  by (auto simp: cut_to_def)

lemma restrict_cut:
  assumes "left (irange e) \<le> right V" "left V \<le> right (irange e)" "left V \<le> right V" "ent_ok e"
  obtains iv where "i_restrict_int (irange e) V False = Inr iv" "cut_to V e (e\<lparr>irange := iv\<rparr>)"
proof -
  have "max (left (irange e)) (left V) \<in> iv_set (irange e) \<inter> {left V..right V}"
    using assms by (auto simp: iv_set_def max_def ent_ok_def)
  then have "i_restrict_int (irange e) V False = Inr ((irange e)
      \<lparr>left := (if left (irange e) > left V then left (irange e) else left V),
       right := (if right (irange e) < right V then right (irange e) else right V)\<rparr>)"
    unfolding i_restrict_int_def by (intro i_restrict_range_False) blast
  then show thesis by (rule that) (auto simp: cut_to_def max_def min_def)
qed

text \<open>The left boundary: entry \<open>a\<close> is the first one not left of the valid interval.\<close>

lemma prune_left_stage:
  assumes own: "owns h (Suc k) (Nd p es ts)" and len: "length ts = length es + 1"
    and V: "nonempty V" "left V \<le> right V" and an: "a < length es" and ok: "ent_ok (es ! a)"
    and a: "left V \<le> right (irange (es ! a))"
    and c: "right V < left (irange (es ! a)) \<longleftrightarrow> c \<le> a" and ac: "a \<le> c"
  shows "\<exists>i h2 es2 ts2. (if i_leftOverlaps V (irange (es ! a))
      then bindR (prune_boundary h p a a V) (\<lambda>h. Inr (a + 1, h)) else Inr (a, h)) = Inr (i, h2)
    \<and> owns h2 (Suc k) (Nd p es2 ts2) \<and> evolves h (Nd p es ts) h2 (Nd p es2 ts2)
    \<and> a \<le> i \<and> i \<le> c \<and> (i = a \<longrightarrow> es2 = es \<and> ts2 = ts \<and> \<not> (a < c \<and> left (irange (es ! a)) \<le> left V))
    \<and> (i \<noteq> a \<longrightarrow> i = a + 1 \<and> left (irange (es ! a)) \<le> left V \<and>
        (\<exists>e' d. es2 = es[a := e'] \<and> cut_to V (es ! a) e' \<and> ts2 = ts[a := d] \<and> chain d))"
proof -
  have LO: "i_leftOverlaps V (irange (es ! a)) \<longleftrightarrow> a < c \<and> left (irange (es ! a)) \<le> left V"
    using a c V by (auto simp: i_leftOverlaps_def i_contains_val_def not_less intro: order_trans)
  show ?thesis
  proof (cases "a < c \<and> left (irange (es ! a)) \<le> left V")
    case True
    have "left (irange (es ! a)) \<le> right V" using c True by auto
    then obtain iv where iv: "i_restrict_int (irange (es ! a)) V False = Inr iv"
      "cut_to V (es ! a) ((es ! a)\<lparr>irange := iv\<rparr>)"
      using restrict_cut V(2) a ok by metis
    obtain h2 d where "prune_boundary h p a a V = Inr h2" "chain d"
      "owns h2 (Suc k) (Nd p (es[a := (es ! a)\<lparr>irange := iv\<rparr>]) (ts[a := d]))"
      "evolves h (Nd p es ts) h2 (Nd p (es[a := (es ! a)\<lparr>irange := iv\<rparr>]) (ts[a := d]))"
      using prune_boundary_spec [OF own an _ iv(1), of a] an len by auto
    with True iv(2) LO show ?thesis
      by (intro exI[of _ "a + 1"] exI[of _ h2] exI[of _ "es[a := (es ! a)\<lparr>irange := iv\<rparr>]"]
          exI[of _ "ts[a := d]"]) auto
  next
    case False
    then show ?thesis using LO own ac by auto
  qed
qed

text \<open>The right boundary: entry \<open>c\<close> is the first one right of the valid interval.\<close>

lemma prune_right_stage:
  assumes own: "owns h (Suc k) (Nd p es ts)" and len: "length ts = length es + 1"
    and V: "nonempty V" "left V \<le> right V" and ic: "i \<le> c" "c \<le> length es"
    and ok: "\<And>j. i \<le> j \<Longrightarrow> j < c \<Longrightarrow> ent_ok (es ! j)"
    and inl: "\<And>j. i \<le> j \<Longrightarrow> j < c \<Longrightarrow> left V \<le> left (irange (es ! j))"
    and inr: "\<And>j. i \<le> j \<Longrightarrow> j < c - 1 \<Longrightarrow> right (irange (es ! j)) \<le> right V"
    and low: "\<And>j. i \<le> j \<Longrightarrow> j < c \<Longrightarrow> left (irange (es ! j)) \<le> right V"
    and c: "c < length es \<Longrightarrow> right V < left (irange (es ! c)) \<and> ent_ok (es ! c)"
  shows "\<exists>i' h3 es3 ts3. prune_skip_loop es V i = i' \<and> i' \<le> length es
    \<and> (if i' < length es \<and> i_rightOverlaps V (irange (es ! i'))
      then bindR (prune_boundary h p i' (i' + 1) V) (\<lambda>h. Inr (i' + 1, h)) else Inr (i', h)) = Inr (c, h3)
    \<and> owns h3 (Suc k) (Nd p es3 ts3) \<and> evolves h (Nd p es ts) h3 (Nd p es3 ts3)
    \<and> length es3 = length es \<and> length ts3 = length ts
    \<and> (\<forall>j. i \<le> j \<and> j < c \<longrightarrow> cut_to V (es ! j) (es3 ! j))
    \<and> (\<forall>j. j < i \<or> c \<le> j \<longrightarrow> es3 ! j = es ! j)
    \<and> (\<forall>j < length ts. ts3 ! j = ts ! j \<or> chain (ts3 ! j) \<and> j = c \<and> i < c \<and> right V < right (irange (es ! (c - 1))))"
proof (cases "i < c \<and> right V < right (irange (es ! (c - 1)))")
  case True
  let ?i = "c - 1"
  have i: "?i < length es" "i \<le> ?i" "?i < c" using True ic by auto
  have skip: "prune_skip_loop es V i = ?i"
    by (rule prune_skip_loop_eq) (use True i inl inr in \<open>auto simp: i_contains_int_def\<close>)
  have LO: "i_rightOverlaps V (irange (es ! ?i))"
    using True low[OF i(2,3)] V by (auto simp: i_rightOverlaps_def i_contains_val_def)
  obtain iv where iv: "i_restrict_int (irange (es ! ?i)) V False = Inr iv"
    "cut_to V (es ! ?i) ((es ! ?i)\<lparr>irange := iv\<rparr>)"
    by (rule restrict_cut [OF low [OF i(2,3)] _ V(2) ok [OF i(2,3)]]) (use True V in auto)
  let ?es = "es[?i := (es ! ?i)\<lparr>irange := iv\<rparr>]"
  obtain h3 d where h3: "prune_boundary h p ?i c V = Inr h3" "chain d"
    "owns h3 (Suc k) (Nd p ?es (ts[c := d]))" "evolves h (Nd p es ts) h3 (Nd p ?es (ts[c := d]))"
    using prune_boundary_spec [OF own i(1) _ iv(1), of c] len ic by auto
  have cut: "cut_to V (es ! j) (?es ! j)" if "i \<le> j" "j < c" for j
  proof (cases "j = ?i")
    case True
    with iv i show ?thesis by simp
  next
    case False
    with that have "cut_to V (es ! j) (es ! j)" by (intro cut_to_same inl inr) auto
    with False show ?thesis by simp
  qed
  have "?i + 1 = c" using i by simp
  with skip LO h3 i cut True ic len show ?thesis
    by (intro exI[of _ ?i] exI[of _ h3] exI[of _ ?es] exI[of _ "ts[c := d]"])
      (auto simp: nth_list_update)
next
  case False
  have inr': "right (irange (es ! j)) \<le> right V" if "i \<le> j" "j < c" for j
    using that False inr[of j] by (cases "j = c - 1") auto
  have skip: "prune_skip_loop es V i = c"
    by (rule prune_skip_loop_eq) (use ic inl inr' c in \<open>auto simp: i_contains_int_def ent_ok_def\<close>)
  have "\<not> (c < length es \<and> i_rightOverlaps V (irange (es ! c)))"
    using c by (auto simp: i_rightOverlaps_def i_contains_val_def)
  with skip own ic inl inr' show ?thesis
    by (intro exI[of _ c] exI[of _ h] exI[of _ es] exI[of _ ts]) (auto intro: cut_to_same)
qed


text \<open>The whole of \<open>ftn_pruneTo\<close> up to the final deletion pass.\<close>

lemma prune_flow:
  assumes own: "owns h (Suc k) (Nd p es ts)" and s: "sorted_ents es" and len: "length ts = length es + 1"
    and V: "nonempty V" "left V \<le> right V" and ne: "es \<noteq> []"
    and a: "\<And>j. j < length es \<Longrightarrow> right (irange (es ! j)) < left V \<longleftrightarrow> j < a"
    and c: "\<And>j. j < length es \<Longrightarrow> right V < left (irange (es ! j)) \<longleftrightarrow> c \<le> j"
    and ac: "a \<le> c" "c \<le> length es"
  shows "\<exists>h' es' ts'. ftn_pruneTo h p V = prune_performdeletes h' p
      (replicate a True @ replicate (c - a) False @ replicate (length es - c) True)
      (replicate a True @ replicate (c - a + 1) False @ replicate (length es - c) True)
    \<and> owns h' (Suc k) (Nd p es' ts') \<and> evolves h (Nd p es ts) h' (Nd p es' ts')
    \<and> length es' = length es \<and> length ts' = length ts
    \<and> (\<forall>j. a \<le> j \<and> j < c \<longrightarrow> cut_to V (es ! j) (es' ! j))
    \<and> (\<forall>j < length ts. ts' ! j = ts ! j \<or> chain (ts' ! j)
        \<and> (j = a \<and> a < c \<and> left (irange (es ! a)) \<le> left V
          \<or> j = c \<and> a < c \<and> right V < right (irange (es ! (c - 1)))))
    \<and> (a < c \<and> left (irange (es ! a)) \<le> left V \<longrightarrow> chain (ts' ! a))"
proof -
  let ?n = "length es"
  from own obtain nd where nd: "mem h p = Some nd" "entries nd = es" "length (subtrees nd) = length ts"
    by (rule owns_node)
  have ok: "ent_ok (es ! j)" if "j < ?n" for j using sorted_ents_ok [OF s that] .
  have leftOf: "i_leftOf_int (irange (es ! j)) V \<longleftrightarrow> j < a" if "j < ?n" for j
    using a[OF that] ok[OF that] by (simp add: i_leftOf_int_def i_leftOf_val_def ent_ok_def)
  let ?ed = "replicate a True @ replicate (?n - a) False"
  let ?sd = "replicate a True @ replicate (Suc ?n - a) False"
  have loop1: "prune_left_loop es V 0 (replicate ?n False) (replicate (length (subtrees nd)) False)
      = (a, ?ed, ?sd)"
    using prune_left_loop_eq [of 0 a es ?n "Suc ?n" V] leftOf ac len nd(3) by simp
  show ?thesis
  proof (cases "a = ?n")
    case True
    then have "ftn_pruneTo h p V = prune_performdeletes h p ?ed ?sd"
      using V(1) nd loop1 ne by (simp add: ftn_pruneTo_def Let_def)
    with True ac own show ?thesis
      by (intro exI[of _ h] exI[of _ es] exI[of _ ts]) auto
  next
    case False
    with ac have an: "a < ?n" by simp
    have aV: "left V \<le> right (irange (es ! a))" using a [OF an] by auto
    obtain i h2 es2 ts2 where L: "(if i_leftOverlaps V (irange (es ! a))
        then bindR (prune_boundary h p a a V) (\<lambda>h. Inr (a + 1, h)) else Inr (a, h)) = Inr (i, h2)"
      and own2: "owns h2 (Suc k) (Nd p es2 ts2)" and ev2: "evolves h (Nd p es ts) h2 (Nd p es2 ts2)"
      and i: "a \<le> i" "i \<le> c"
      and same: "i = a \<longrightarrow> es2 = es \<and> ts2 = ts \<and> \<not> (a < c \<and> left (irange (es ! a)) \<le> left V)"
      and diff: "i \<noteq> a \<longrightarrow> i = a + 1 \<and> left (irange (es ! a)) \<le> left V \<and>
        (\<exists>e' d. es2 = es[a := e'] \<and> cut_to V (es ! a) e' \<and> ts2 = ts[a := d] \<and> chain d)"
      using prune_left_stage [OF own len V an ok [OF an] aV c [OF an] ac(1)] by blast
    have len2: "length es2 = ?n" "length ts2 = length ts" using same diff by (cases "i = a"; auto)+
    have es2: "es2 ! j = es ! j" if "i \<le> j" for j using same diff i that by (cases "i = a") auto
    from own2 obtain nd2 where nd2: "mem h2 p = Some nd2" "entries nd2 = es2" by (rule owns_node)
    have inl: "left V \<le> left (irange (es ! j))" if "i \<le> j" "j < c" for j
    proof (cases "j = a")
      case True
      with same that i show ?thesis by auto
    next
      case False
      then have "right (irange (es ! a)) < left (irange (es ! j))"
        using sorted_ents_lt [OF s, of a j] that i ac by simp
      with aV show ?thesis by simp
    qed
    have inr: "right (irange (es ! j)) \<le> right V" if "i \<le> j" "j < c - 1" for j
    proof -
      have c1: "c - 1 < ?n" "\<not> c \<le> c - 1" using that ac by auto
      have "right (irange (es ! j)) < left (irange (es ! (c - 1)))" "left (irange (es ! (c - 1))) \<le> right V"
        using sorted_ents_lt [OF s that(2) c1(1)] c[OF c1(1)] c1(2) by auto
      then show ?thesis by simp
    qed
    have low: "left (irange (es ! j)) \<le> right V" if "j < c" for j
      using c[of j] that ac by auto
    have R0: "\<exists>i' h3 es3 ts3. prune_skip_loop es2 V i = i' \<and> i' \<le> length es2
      \<and> (if i' < length es2 \<and> i_rightOverlaps V (irange (es2 ! i'))
        then bindR (prune_boundary h2 p i' (i' + 1) V) (\<lambda>h. Inr (i' + 1, h)) else Inr (i', h2)) = Inr (c, h3)
      \<and> owns h3 (Suc k) (Nd p es3 ts3) \<and> evolves h2 (Nd p es2 ts2) h3 (Nd p es3 ts3)
      \<and> length es3 = length es2 \<and> length ts3 = length ts2
      \<and> (\<forall>j. i \<le> j \<and> j < c \<longrightarrow> cut_to V (es2 ! j) (es3 ! j))
      \<and> (\<forall>j. j < i \<or> c \<le> j \<longrightarrow> es3 ! j = es2 ! j)
      \<and> (\<forall>j < length ts2. ts3 ! j = ts2 ! j \<or> chain (ts3 ! j) \<and> j = c \<and> i < c \<and> right V < right (irange (es2 ! (c - 1))))"
      by (rule prune_right_stage [OF own2 _ V i(2)])
        (use ac len len2 es2 ok inl inr low c i in auto)
    then obtain i' h3 es3 ts3 where R: "prune_skip_loop es2 V i = i'" "i' \<le> length es2"
      "(if i' < length es2 \<and> i_rightOverlaps V (irange (es2 ! i'))
        then bindR (prune_boundary h2 p i' (i' + 1) V) (\<lambda>h. Inr (i' + 1, h)) else Inr (i', h2)) = Inr (c, h3)"
      "owns h3 (Suc k) (Nd p es3 ts3)" "evolves h2 (Nd p es2 ts2) h3 (Nd p es3 ts3)"
      "length es3 = length es2" "length ts3 = length ts2"
      "\<forall>j. i \<le> j \<and> j < c \<longrightarrow> cut_to V (es2 ! j) (es3 ! j)"
      "\<forall>j. j < i \<or> c \<le> j \<longrightarrow> es3 ! j = es2 ! j"
      "\<forall>j < length ts2. ts3 ! j = ts2 ! j \<or> chain (ts3 ! j) \<and> j = c \<and> i < c \<and> right V < right (irange (es2 ! (c - 1)))"
      by blast
    have body: "ftn_pruneTo h p V = (if c = ?n then prune_performdeletes h3 p ?ed ?sd
        else bindR (get_node h3 p) (\<lambda>nd. let (i, ed, sd) = prune_right_loop (entries nd) V c ?ed ?sd
          in prune_performdeletes h3 p ed sd))"
    proof -
      have "ftn_pruneTo h p V = (if i = ?n then prune_performdeletes h2 p ?ed ?sd
        else if i' = ?n then prune_performdeletes h2 p ?ed ?sd
        else bindR (if i_rightOverlaps V (irange (es2 ! i'))
            then bindR (prune_boundary h2 p i' (i' + 1) V) (\<lambda>h. Inr (i' + 1, h)) else Inr (i', h2)) (\<lambda>(i, h).
          if i = ?n then prune_performdeletes h p ?ed ?sd
          else bindR (get_node h p) (\<lambda>nd. let (i, ed, sd) = prune_right_loop (entries nd) V i ?ed ?sd
            in prune_performdeletes h p ed sd)))"
        unfolding ftn_pruneTo_def using V(1) nd loop1 ne an L nd2 R(1) len2 by (simp add: Let_def)
      moreover have "i = ?n \<Longrightarrow> i' = ?n"
        using R(1) len2(1) by (subst (asm) prune_skip_loop.simps) simp
      ultimately show ?thesis using R(2,3) len2(1) by (cases "i' = ?n") auto
    qed
    have marks: "?ed = (replicate a True @ replicate (c - a) False) @ replicate (?n - c) False"
      "?sd = (replicate a True @ replicate (c - a + 1) False) @ replicate (?n - c) False"
      using ac by (simp_all add: replicate_add [symmetric] Suc_diff_le del: replicate_Suc)
    have right: "i_rightOf_int (irange (es3 ! j)) V" if "c \<le> j" "j < ?n" for j
      using that R(9) es2[of j] i c[of j] ok[of j]
      by (simp add: i_rightOf_int_def i_rightOf_val_def ent_ok_def)
    from R(4) obtain nd3 where nd3: "mem h3 p = Some nd3" "entries nd3 = es3" by (rule owns_node)
    have loop3: "prune_right_loop es3 V c ((replicate a True @ replicate (c - a) False) @ replicate (?n - c) False)
        ((replicate a True @ replicate (c - a + 1) False) @ replicate (?n - c) False)
      = (?n, (replicate a True @ replicate (c - a) False) @ replicate (?n - c) True,
         (replicate a True @ replicate (c - a + 1) False) @ replicate (?n - c) True)"
      by (rule prune_right_loop_eq [of c es3, unfolded R(6) len2]) (use ac right in auto)
    have "ftn_pruneTo h p V = prune_performdeletes h3 p
      (replicate a True @ replicate (c - a) False @ replicate (length es - c) True)
      (replicate a True @ replicate (c - a + 1) False @ replicate (length es - c) True)"
      unfolding body marks using nd3 loop3 by (cases "c = ?n") simp_all
    moreover have "cut_to V (es ! j) (es3 ! j)" if "a \<le> j" "j < c" for j
      using that R(8,9) es2[of j] diff i an by (cases "i \<le> j") (auto simp: not_le dest!: Suc_leI)
    moreover have "ts3 ! j = ts ! j \<or> chain (ts3 ! j)
        \<and> (j = a \<and> a < c \<and> left (irange (es ! a)) \<le> left V
          \<or> j = c \<and> a < c \<and> right V < right (irange (es ! (c - 1))))" if "j < length ts" for j
      using that R(10) len2 same diff i es2[of "c - 1"] by (cases "i = a"; cases "j = a") auto
    moreover have "chain (ts3 ! a)" if "a < c \<and> left (irange (es ! a)) \<le> left V"
      using that R(10)[rule_format, of a] len2 same diff i len ac by (cases "i = a") auto
    ultimately show ?thesis using R(4-7) len2 evolves_trans [OF ev2 R(5)]
      by (intro exI[of _ h3] exI[of _ es3] exI[of _ ts3]) auto
  qed
qed

text \<open>The entries that survive, and their lookups.\<close>

lemma cut_sorted:
  assumes s: "sorted_ents es" and len: "length es' = length es" and ac: "a \<le> c" "c \<le> length es"
    and V: "left V \<le> right V"
    and a: "\<And>j. j < length es \<Longrightarrow> right (irange (es ! j)) < left V \<longleftrightarrow> j < a"
    and c: "\<And>j. j < length es \<Longrightarrow> right V < left (irange (es ! j)) \<longleftrightarrow> c \<le> j"
    and cut: "\<And>j. a \<le> j \<Longrightarrow> j < c \<Longrightarrow> cut_to V (es ! j) (es' ! j)"
  shows "sorted_ents (take (c - a) (drop a es'))"
    and "\<forall>e \<in> set (take (c - a) (drop a es')). iv_set (irange e) \<subseteq> iv_set V"
proof -
  let ?es = "take (c - a) (drop a es')"
  have nth: "?es ! j = es' ! (a + j)" "cut_to V (es ! (a + j)) (?es ! j)" "a + j < length es"
    "\<not> right (irange (es ! (a + j))) < left V" "\<not> right V < left (irange (es ! (a + j)))"
    if "j < length ?es" for j
    using that len ac cut[of "a + j"] a[of "a + j"] c[of "a + j"] by auto
  have "ent_ok (?es ! j)" if "j < length ?es" for j
    using nth[OF that] sorted_ents_ok[OF s, of "a + j"] V
    by (auto simp: ent_ok_def cut_to_def max_def min_def)
  moreover have "ent_lt (?es ! i) (?es ! j)" if "i < j" "j < length ?es" for i j
  proof -
    have "i < length ?es" using that by simp
    with nth[OF that(2)] nth[of i] sorted_ents_lt[OF s, of "a + i" "a + j"] that(1)
    show ?thesis by (auto simp: ent_lt_def cut_to_def min_less_iff_disj less_max_iff_disj)
  qed
  ultimately show "sorted_ents ?es"
    by (auto simp: sorted_ents_def sorted_wrt_iff_nth_less set_conv_nth simp del: length_take length_drop nth_take)
  have "iv_set (irange (?es ! j)) \<subseteq> iv_set V" if "j < length ?es" for j
    using nth(2)[OF that] by (auto simp: cut_to_def iv_set_def)
  then show "\<forall>e \<in> set ?es. iv_set (irange e) \<subseteq> iv_set V"
    by (auto simp: set_conv_nth simp del: length_take length_drop nth_take)
qed

lemma cut_look:
  assumes s: "sorted_ents es" and len: "length es' = length es" "length ts = length es + 1" "length ts' = length ts"
    and ac: "a \<le> c" "c \<le> length es" and V: "left V \<le> right V"
    and a: "\<And>j. j < length es \<Longrightarrow> right (irange (es ! j)) < left V \<longleftrightarrow> j < a"
    and c: "\<And>j. j < length es \<Longrightarrow> right V < left (irange (es ! j)) \<longleftrightarrow> c \<le> j"
    and cut: "\<And>j. a \<le> j \<Longrightarrow> j < c \<Longrightarrow> cut_to V (es ! j) (es' ! j)"
    and sub: "\<And>j. j < length ts \<Longrightarrow> ts' ! j = ts ! j
       \<or> (j = a \<and> a < c \<and> left (irange (es ! a)) \<le> left V
          \<or> j = c \<and> a < c \<and> right V < right (irange (es ! (c - 1))))"
    and x: "x \<in> iv_set V"
  shows "nlook (take (c - a) (drop a es')) (take (c - a + 1) (drop a ts')) x = nlook es ts x"
proof -
  let ?es = "take (c - a) (drop a es')" and ?ts = "take (c - a + 1) (drop a ts')"
  have s': "sorted_ents ?es" by (rule cut_sorted(1) [OF s len(1) ac V a c cut])
  have len': "length ?es = c - a" "length ?ts = length ?es + 1" using len ac by auto
  from entry_or_gap [OF s, of x] show ?thesis
  proof
    assume "\<exists>j < length es. x \<in> iv_set (irange (es ! j))"
    then obtain j where j: "j < length es" "x \<in> iv_set (irange (es ! j))" by blast
    have "a \<le> j" "j < c" using a[OF j(1)] c[OF j(1)] j(2) x by (auto simp: iv_set_def)
    moreover from cut[OF this] have "x \<in> iv_set (irange (es' ! j))" "fvalue (es' ! j) = fvalue (es ! j)"
      using j(2) x by (auto simp: cut_to_def iv_set_def)
    ultimately show ?thesis
      using nlook_entry [OF s j] nlook_entry [OF s', of "j - a" x ?ts] len ac len' by auto
  next
    assume "\<exists>g. in_gap es g x"
    then obtain g where g: "in_gap es g x" by blast
    then have gl: "g \<le> length es" and glo: "\<And>j. j < g \<Longrightarrow> right (irange (es ! j)) < x"
      and ghi: "\<And>j. g \<le> j \<Longrightarrow> j < length es \<Longrightarrow> x < left (irange (es ! j))"
      by (auto simp: in_gap_def)
    have ag: "a \<le> g"
    proof (rule ccontr)
      assume "\<not> a \<le> g"
      then have "g < length es" "g < a" using ac by auto
      then have "x < left (irange (es ! g))" "right (irange (es ! g)) < left V"
        using ghi a by auto
      with sorted_ents_ok [OF s \<open>g < length es\<close>] x show False
        by (auto simp: ent_ok_def iv_set_def)
    qed
    have gc: "g \<le> c"
    proof (rule ccontr)
      assume "\<not> g \<le> c"
      then have "c < length es" "c < g" using gl by auto
      then have "right (irange (es ! c)) < x" "right V < left (irange (es ! c))"
        using glo c by auto
      with sorted_ents_ok [OF s \<open>c < length es\<close>] x show False
        by (auto simp: ent_ok_def iv_set_def)
    qed
    have "\<not> (g = a \<and> a < c \<and> left (irange (es ! a)) \<le> left V)"
      using ghi[of a] ac x by (auto simp: iv_set_def)
    moreover have "\<not> (g = c \<and> a < c \<and> right V < right (irange (es ! (c - 1))))"
      using glo[of "c - 1"] x by (auto simp: iv_set_def)
    ultimately have t: "ts' ! g = ts ! g" using sub[of g] gl len by auto
    have "in_gap ?es (g - a) x"
      unfolding in_gap_def
    proof (intro conjI allI impI)
      show "g - a \<le> length ?es" unfolding len'(1) using gc by (rule diff_le_mono)
      show "right (irange (?es ! j)) < x" if "j < g - a" for j
        using that glo[of "a + j"] cut[of "a + j"] gc len ac by (auto simp: cut_to_def min_less_iff_disj)
      show "x < left (irange (?es ! j))" if "g - a \<le> j \<and> j < length ?es" for j
        using that ghi[of "a + j"] cut[of "a + j"] ag len ac by (auto simp: cut_to_def less_max_iff_disj)
    qed
    then show ?thesis
      using nlook_gap [OF s' _ len'(2)] nlook_gap [OF s g len(2)] t ag gc len ac by simp
  qed
qed

lemma ftn_pruneTo_spec:
  assumes own: "owns h (Suc k) (Nd p es ts)" and wf: "twf (Nd p es ts)" and V: "iv_ok V"
  shows "\<exists>h' es' ts'. ftn_pruneTo h p V = Inr h' \<and> owns h' (Suc k) (Nd p es' ts')
    \<and> evolves h (Nd p es ts) h' (Nd p es' ts') \<and> twf (Nd p es' ts')
    \<and> (\<forall>e \<in> set es'. iv_set (irange e) \<subseteq> iv_set V)
    \<and> (\<forall>x \<in> iv_set V. tlook (Nd p es' ts') x = tlook (Nd p es ts) x)
    \<and> (es' \<noteq> [] \<and> left (irange (es' ! 0)) = left V \<longrightarrow> chain (ts' ! 0))
    \<and> (chain (Nd p es ts) \<longrightarrow> chain (Nd p es' ts'))"
proof -
  consider (empty) "\<not> nonempty V" | (nil) "nonempty V" "es = []" | (cut) "nonempty V" "es \<noteq> []" by blast
  then show ?thesis
  proof cases
    case empty
    then have "iv_set V = {}" using V by (auto simp: iv_ok_def iv_set_def)
    moreover obtain h' c where "ftn_clear h p True = Inr h'" "owns h' (Suc k) (Nd p [] [c])" "chain c"
      "evolves h (Nd p es ts) h' (Nd p [] [c])" using ftn_clear_spec [OF own] by blast
    ultimately show ?thesis using empty chain_twf [of c]
      by (intro exI[of _ h'] exI[of _ "[]"] exI[of _ "[c]"])
        (auto simp: ftn_pruneTo_def sorted_ents_def FT_SPLITLIMIT_def)
  next
    case nil
    from own obtain nd where "mem h p = Some nd" "entries nd = es" by (rule owns_node)
    with nil own wf show ?thesis
      by (intro exI[of _ h] exI[of _ es] exI[of _ ts]) (auto simp: ftn_pruneTo_def)
  next
    case cut
    have V': "left V \<le> right V" using V cut by (simp add: iv_ok_def)
    have s: "sorted_ents es" and len: "length ts = length es + 1" and sz: "length es < FT_SPLITLIMIT"
      and wts: "\<And>t. t \<in> set ts \<Longrightarrow> twf t" using wf by auto
    obtain a c where ac: "a \<le> c" "c \<le> length es"
      and a: "\<And>j. j < length es \<Longrightarrow> right (irange (es ! j)) < left V \<longleftrightarrow> j < a"
      and c: "\<And>j. j < length es \<Longrightarrow> right V < left (irange (es ! j)) \<longleftrightarrow> c \<le> j"
      using cut_points [OF s V'] by blast
    obtain h2 es2 ts2 where flow: "ftn_pruneTo h p V = prune_performdeletes h2 p
        (replicate a True @ replicate (c - a) False @ replicate (length es - c) True)
        (replicate a True @ replicate (c - a + 1) False @ replicate (length es - c) True)"
      and own2: "owns h2 (Suc k) (Nd p es2 ts2)" and ev2: "evolves h (Nd p es ts) h2 (Nd p es2 ts2)"
      and len2: "length es2 = length es" "length ts2 = length ts"
      and ct: "\<And>j. a \<le> j \<Longrightarrow> j < c \<Longrightarrow> cut_to V (es ! j) (es2 ! j)"
      and sub: "\<And>j. j < length ts \<Longrightarrow> ts2 ! j = ts ! j \<or> chain (ts2 ! j)
        \<and> (j = a \<and> a < c \<and> left (irange (es ! a)) \<le> left V
          \<or> j = c \<and> a < c \<and> right V < right (irange (es ! (c - 1))))"
      and ch: "a < c \<and> left (irange (es ! a)) \<le> left V \<longrightarrow> chain (ts2 ! a)"
      using prune_flow [OF own s len cut(1) V' cut(2) a c ac] by blast
    let ?es = "take (c - a) (drop a es2)" and ?ts = "take (c - a + 1) (drop a ts2)"
    have keep: "keep es2 (replicate a True @ replicate (c - a) False @ replicate (length es - c) True) = ?es"
      "keep ts2 (replicate a True @ replicate (c - a + 1) False @ replicate (length es - c) True) = ?ts"
      using keep_slice[of es2 a "c - a" "length es - c"] keep_slice[of ts2 a "c - a + 1" "length es - c"]
        ac len len2 by auto
    have lens: "length ?es = c - a" "length ?ts = c - a + 1" using len len2 ac by auto
    let ?ed = "replicate a True @ replicate (c - a) False @ replicate (length es - c) True"
    let ?sd = "replicate a True @ replicate (c - a + 1) False @ replicate (length es - c) True"
    obtain h' where h': "ftn_pruneTo h p V = Inr h'" "owns h' (Suc k) (Nd p ?es ?ts)"
      "evolves h2 (Nd p es2 ts2) h' (Nd p ?es ?ts)"
      unfolding flow using performdeletes_spec [OF own2, of ?ed ?sd] keep lens ac len len2 by auto
    have wts2: "twf (ts2 ! j)" if "j < length ts2" for j
      using sub[of j] that len2 wts chain_twf by (metis nth_mem)
    have "twf (Nd p ?es ?ts)"
      using lens sz ac cut_sorted(1) [OF s len2(1) ac V' a c ct] wts2
      by (auto simp: FT_SPLITLIMIT_def dest!: in_set_takeD in_set_dropD simp: in_set_conv_nth)
    moreover have "tlook (Nd p ?es ?ts) x = tlook (Nd p es ts) x" if "x \<in> iv_set V" for x
    proof -
      have lsub: "map tlook ts2 ! j = map tlook ts ! j
        \<or> (j = a \<and> a < c \<and> left (irange (es ! a)) \<le> left V
          \<or> j = c \<and> a < c \<and> right V < right (irange (es ! (c - 1))))" if "j < length (map tlook ts)" for j
        using that sub[of j] len2 by auto
      have "nlook ?es (take (c - a + 1) (drop a (map tlook ts2))) x = nlook es (map tlook ts) x"
        by (rule cut_look [OF s len2(1) _ _ ac V' a c ct lsub that]) (use len len2 in auto)
      then show ?thesis by (simp add: take_map drop_map)
    qed
    moreover have "chain (?ts ! 0)" if "?es \<noteq> []" "left (irange (?es ! 0)) = left V"
    proof -
      have "a < c" using that(1) by auto
      with that(2) ct[of a] ac len2 have "left (irange (es ! a)) \<le> left V"
        by (auto simp: cut_to_def max_def split: if_splits)
      with ch \<open>a < c\<close> ac len len2 show ?thesis by auto
    qed
    moreover have "\<not> chain (Nd p es ts)" using cut by simp
    ultimately show ?thesis
      using h' evolves_trans [OF ev2 h'(3)] cut_sorted(2) [OF s len2(1) ac V' a c ct]
      by (intro exI[of _ h'] exI[of _ ?es] exI[of _ ?ts]) auto
  qed
qed

end
