(* ===== verification/Fig_Zip.thy ===== *)
theory Fig_Zip
  imports Fig_Prune "HOL-Library.Multiset"
begin

text \<open>
  Contexts: the part of a ghost tree outside one of its subtrees, as the list of the frames on the
  path from that subtree to the root (innermost first). A path of the insertion code is the list of
  the node addresses and child indices of a context. The hole of a context is the set of bytes
  whose lookup reaches the subtree.
\<close>

section \<open>Contexts\<close>

type_synonym fframe = "nat \<times> ft_ent list \<times> ftree list \<times> ftree list"

fun plug :: "fframe list \<Rightarrow> ftree \<Rightarrow> ftree" where
  "plug [] t = t"
| "plug ((a, es, ls, rs) # C) t = plug C (Nd a es (ls @ t # rs))"

fun caddrs :: "fframe list \<Rightarrow> nat list" where
  "caddrs [] = []"
| "caddrs ((a, es, ls, rs) # C) = a # concat (map addrs ls) @ concat (map addrs rs) @ caddrs C"

fun cpath :: "fframe list \<Rightarrow> ft_path" where
  "cpath [] = []"
| "cpath ((a, es, ls, rs) # C) = cpath C @ [(a, length ls)]"

fun chole :: "fframe list \<Rightarrow> byte_index_t set" where
  "chole [] = UNIV"
| "chole ((a, es, ls, rs) # C) = {x. in_gap es (length ls) x} \<inter> chole C"

fun cwf :: "fframe list \<Rightarrow> bool" where
  "cwf [] \<longleftrightarrow> True"
| "cwf ((a, es, ls, rs) # C) \<longleftrightarrow> length ls + length rs = length es \<and> length es < FT_SPLITLIMIT
     \<and> sorted_ents es \<and> (\<forall>t \<in> set ls \<union> set rs. twf t) \<and> cwf C"

text \<open>The entries of every frame lie in the region \<open>S\<close> and in the hole of the frames around it.\<close>

fun cfit :: "byte_index_t set \<Rightarrow> fframe list \<Rightarrow> bool" where
  "cfit S [] \<longleftrightarrow> True"
| "cfit S ((a, es, ls, rs) # C) \<longleftrightarrow> (\<forall>e \<in> set es. iv_set (irange e) \<subseteq> S \<inter> chole C) \<and> cfit S C"

lemma plug_append [simp]: "plug (D @ C) t = plug C (plug D t)"
  by (induction D t rule: plug.induct) auto

lemma cpath_append [simp]: "cpath (D @ C) = cpath C @ cpath D"
  by (induction D rule: cpath.induct) auto

lemma length_cpath [simp]: "length (cpath C) = length C"
  by (induction C rule: cpath.induct) auto

lemma chole_append [simp]: "chole (D @ C) = chole D \<inter> chole C"
  by (induction D rule: chole.induct) auto

lemma cwf_append [simp]: "cwf (D @ C) \<longleftrightarrow> cwf D \<and> cwf C"
  by (induction D rule: cwf.induct) auto

lemma caddrs_append [simp]: "set (caddrs (D @ C)) = set (caddrs D) \<union> set (caddrs C)"
  by (induction D rule: caddrs.induct) auto

lemma cfit_append: "cfit S (D @ C) \<longleftrightarrow> cfit S C \<and> cfit (S \<inter> chole C) D"
  by (induction S D rule: cfit.induct) (auto simp: Int_assoc Int_left_commute)

lemma cfit_mono: "cfit S C \<Longrightarrow> S \<subseteq> S' \<Longrightarrow> cfit S' C"
  by (induction S C rule: cfit.induct) auto

lemma twf_plug [simp]: "twf (plug C t) \<longleftrightarrow> cwf C \<and> twf t"
  by (induction C t rule: plug.induct) auto

lemma mset_addrs_plug: "mset (addrs (plug C t)) = mset (caddrs C @ addrs t)"
  by (induction C t rule: plug.induct) auto

lemma set_addrs_plug: "set (addrs (plug C t)) = set (caddrs C) \<union> set (addrs t)"
  using mset_addrs_plug [of C t] by (metis set_append set_mset_mset)

lemma distinct_addrs_plug: "distinct (addrs (plug C t)) \<longleftrightarrow> distinct (caddrs C @ addrs t)"
  using mset_addrs_plug [of C t] by (metis mset_eq_imp_distinct_iff)

lemma tptr_plug: "tptr t = tptr t' \<Longrightarrow> tptr (plug C t) = tptr (plug C t')"
  by (induction C arbitrary: t t') auto

section \<open>Lookups through a context\<close>

lemma in_gap_unique:
  assumes "sorted_ents es" "in_gap es g x" "in_gap es g' x"
  shows "g = g'"
proof -
  have "\<not> g < g'" if "in_gap es g x" "in_gap es g' x" for g g'
  proof
    assume "g < g'"
    with that have "right (irange (es ! g)) < x" "x < left (irange (es ! g))" "g < length es"
      by (auto simp: in_gap_def)
    with sorted_ents_ok [OF assms(1)] show False by (force simp: ent_ok_def)
  qed
  with assms show ?thesis by (meson linorder_neqE_nat)
qed

lemma tlook_frame:
  assumes "sorted_ents es" "length ls + length rs = length es"
  shows "in_gap es (length ls) x \<Longrightarrow> tlook (Nd a es (ls @ t # rs)) x = tlook t x"
    and "(in_gap es (length ls) x \<Longrightarrow> tlook t x = tlook t' x)
      \<Longrightarrow> tlook (Nd a es (ls @ t # rs)) x = tlook (Nd b es (ls @ t' # rs)) x"
proof -
  show "tlook (Nd a es (ls @ t # rs)) x = tlook t x" if "in_gap es (length ls) x"
    using nlook_gap [OF assms(1) that, of "map tlook (ls @ t # rs)"] assms(2) by (simp add: nth_append)
  show "tlook (Nd a es (ls @ t # rs)) x = tlook (Nd b es (ls @ t' # rs)) x"
    if *: "in_gap es (length ls) x \<Longrightarrow> tlook t x = tlook t' x"
  proof -
    have "(map tlook (ls @ t # rs) ! g) x = (map tlook (ls @ t' # rs) ! g) x" if "in_gap es g x" for g
      using that * assms(2) by (cases "g = length ls") (auto simp: nth_append nth_Cons' in_gap_def)
    then show ?thesis using assms by (simp add: nlook_cong)
  qed
qed

fun cshape :: "fframe list \<Rightarrow> bool" where
  "cshape [] \<longleftrightarrow> True"
| "cshape ((a, es, ls, rs) # C) \<longleftrightarrow> length ls + length rs = length es \<and> sorted_ents es \<and> cshape C"

lemma cwf_cshape: "cwf C \<Longrightarrow> cshape C"
  by (induction C rule: cwf.induct) auto

lemma tlook_plug_in_shape: "cshape C \<Longrightarrow> x \<in> chole C \<Longrightarrow> tlook (plug C t) x = tlook t x"
  by (induction C t rule: plug.induct) (auto simp: tlook_frame(1) simp del: tlook.simps)

lemma tlook_plug_cong_shape:
  "cshape C \<Longrightarrow> (x \<in> chole C \<Longrightarrow> tlook t x = tlook t' x) \<Longrightarrow> tlook (plug C t) x = tlook (plug C t') x"
proof (induction C arbitrary: t t')
  case Nil
  then show ?case by simp
next
  case (Cons F C)
  obtain a es ls rs where F: "F = (a, es, ls, rs)" by (cases F)
  have "tlook (Nd a es (ls @ t # rs)) x = tlook (Nd a es (ls @ t' # rs)) x" if "x \<in> chole C"
    using Cons.prems F that by (intro tlook_frame(2)) auto
  with Cons.IH Cons.prems(1) F show ?case by simp
qed

lemmas tlook_plug_in = tlook_plug_in_shape [OF cwf_cshape]
lemmas tlook_plug_cong = tlook_plug_cong_shape [OF cwf_cshape]

section \<open>Contexts on the heap\<close>

fun crep :: "heap \<Rightarrow> nat \<Rightarrow> fframe list \<Rightarrow> nat option \<Rightarrow> bool" where
  "crep h k [] p \<longleftrightarrow> True"
| "crep h k ((a, es, ls, rs) # C) p \<longleftrightarrow> crep h (Suc k) C (Some a) \<and>
     (\<exists>nd sls sp srs. mem h a = Some nd \<and> entries nd = es \<and> HEIGHT nd = int k
        \<and> subtrees nd = sls @ sp # srs \<and> inmemory sp \<and> st sp = p
        \<and> reps h k sls ls \<and> reps h k srs rs)"

lemma rep_ptr_iff: "rep h k p t \<longleftrightarrow> p = tptr t \<and> rep h k (tptr t) t"
  by (cases t) auto

lemma reps_split:
  "reps h k sps (ls @ t # rs) \<longleftrightarrow> (\<exists>sls sp srs. sps = sls @ sp # srs \<and> reps h k sls ls
      \<and> (inmemory sp \<and> st sp = tptr t) \<and> reps h k srs rs) \<and> rep h k (tptr t) t" (is "?l \<longleftrightarrow> ?r")
proof
  assume ?l
  then obtain sls sp srs where "sps = sls @ sp # srs" "reps h k sls ls" "inmemory sp" "rep h k (st sp) t"
    "reps h k srs rs" unfolding list_all2_append2 list_all2_Cons2 by blast
  moreover from this(4) have "st sp = tptr t" by (rule rep_tptr)
  ultimately show ?r by auto
next
  assume ?r
  then obtain sls sp srs where *: "sps = sls @ sp # srs" "reps h k sls ls" "inmemory sp" "st sp = tptr t"
    "rep h k (tptr t) t" "reps h k srs rs" by blast
  then have "inmemory sp \<and> rep h k (st sp) t" by simp
  with * show ?l by (simp only: list_all2_Cons list_all2_appendI simp_thms)
qed

lemma rep_plug: "rep h (k + length C) r (plug C t) \<longleftrightarrow> crep h k C (tptr t) \<and> rep h k (tptr t) t \<and> r = tptr (plug C t)"
proof (induction C arbitrary: k t)
  case Nil
  show ?case by (auto dest: rep_tptr)
next
  case (Cons F C)
  obtain a es ls rs where F: "F = (a, es, ls, rs)" by (cases F)
  note split = reps_split [of h k _ ls t rs]
  have "rep h (Suc k) (Some a) (Nd a es (ls @ t # rs)) \<longleftrightarrow>
     (\<exists>nd sls sp srs. mem h a = Some nd \<and> entries nd = es \<and> HEIGHT nd = int k
        \<and> subtrees nd = sls @ sp # srs \<and> inmemory sp \<and> st sp = tptr t
        \<and> reps h k sls ls \<and> reps h k srs rs) \<and> rep h k (tptr t) t"
    by (simp add: split) blast
  then show ?case using Cons.IH [of "Suc k" "Nd a es (ls @ t # rs)"] F by auto
qed

lemma crep_frame:
  "crep h k C p \<Longrightarrow> heap_ok h \<Longrightarrow> frame S h h' \<Longrightarrow> set (caddrs C) \<inter> S = {} \<Longrightarrow> crep h' k C p"
proof (induction C arbitrary: k p)
  case Nil
  then show ?case by simp
next
  case (Cons F C)
  obtain a es ls rs where F: "F = (a, es, ls, rs)" by (cases F)
  from Cons.prems(1) F obtain nd sls sp srs where nd: "mem h a = Some nd" "entries nd = es"
    "HEIGHT nd = int k" "subtrees nd = sls @ sp # srs" "inmemory sp" "st sp = p"
    "reps h k sls ls" "reps h k srs rs" and C: "crep h (Suc k) C (Some a)" by auto
  have "mem h' a = Some nd"
    using frame_mem [OF Cons.prems(3), of a] Cons.prems(4) F heap_ok_lt [OF Cons.prems(2) nd(1)] nd(1) by auto
  moreover have "reps h' k sls ls" "reps h' k srs rs"
    using reps_frame [OF nd(7) Cons.prems(2,3)] reps_frame [OF nd(8) Cons.prems(2,3)] Cons.prems(4) F by auto
  moreover have "crep h' (Suc k) C (Some a)"
    using Cons.IH [OF C Cons.prems(2,3)] Cons.prems(4) F by auto
  ultimately show ?case using nd F by auto
qed

lemma reps_addrs_lt:
  assumes "reps h k sps ts" "heap_ok h" "a \<in> set (concat (map addrs ts))"
  shows "a < next_ptr h"
proof -
  from assms(3) obtain t where t: "t \<in> set ts" "a \<in> set (addrs t)" by auto
  then obtain sp :: subtree_ptr where "rep h k (st sp) t" using list_all2_in_set2 [OF assms(1)] by blast
  with t show ?thesis using rep_addrs_lt assms(2) by blast
qed

lemma crep_addrs_lt: "crep h k C p \<Longrightarrow> heap_ok h \<Longrightarrow> a \<in> set (caddrs C) \<Longrightarrow> a < next_ptr h"
proof (induction C arbitrary: k p)
  case Nil
  then show ?case by simp
next
  case (Cons F C)
  obtain b es ls rs where F: "F = (b, es, ls, rs)" by (cases F)
  from Cons.prems(1) F obtain nd sls srs where nd: "mem h b = Some (nd :: ft_node)"
    "reps h k sls ls" "reps h k srs rs" and C: "crep h (Suc k) C (Some b)" by auto
  from Cons.prems(3) F consider "a = b" | "a \<in> set (concat (map addrs ls))"
    | "a \<in> set (concat (map addrs rs))" | "a \<in> set (caddrs C)" by auto
  then show ?case
    using heap_ok_lt [OF Cons.prems(2) nd(1)] reps_addrs_lt [OF nd(2) Cons.prems(2)]
      reps_addrs_lt [OF nd(3) Cons.prems(2)] Cons.IH [OF C Cons.prems(2)] by cases blast+
qed

lemma owns_plug:
  "owns h (k + length C) (plug C t) \<longleftrightarrow> crep h k C (tptr t) \<and> owns h k t
     \<and> distinct (caddrs C) \<and> set (caddrs C) \<inter> set (addrs t) = {}"
  unfolding owns_def rep_plug distinct_addrs_plug by auto

lemma plug_evolves:
  assumes own: "owns h (k + length C) (plug C t)" and own': "owns h' k t'"
    and ev: "evolves h t h' t'" and ptr: "tptr t' = tptr t"
  shows "owns h' (k + length C) (plug C t')"
proof -
  from own have C: "crep h k C (tptr t)" "heap_ok h" "distinct (caddrs C)" "set (caddrs C) \<inter> set (addrs t) = {}"
    unfolding owns_plug by (auto simp: owns_def)
  have "crep h' k C (tptr t')"
    using crep_frame [OF C(1,2), of "set (addrs t)" h'] ev C(4) ptr by (simp add: evolves_def)
  moreover have "set (caddrs C) \<inter> set (addrs t') = {}"
    using ev C(4) crep_addrs_lt [OF C(1,2)] by (force simp: evolves_def fresh_def)
  ultimately show ?thesis using own' C(3) by (simp add: owns_plug)
qed

end
