(* ===== verification/Fig_Ascend.thy ===== *)
theory Fig_Ascend
  imports Fig_Zip
begin

text \<open>
  Insertion of one entry into a tree whose path from the insertion point to the root is a context:
  the step \<open>ftn_insert\<close> makes at one node, and the ascent of \<open>_ft_insert\<close> that repeats it.
\<close>

section \<open>Inserting into one node\<close>

definition ins_at :: "nat \<Rightarrow> 'a \<Rightarrow> 'a list \<Rightarrow> 'a list" where
  "ins_at i x xs = take i xs @ x # drop i xs"

lemma length_ins_at [simp]: "i \<le> length xs \<Longrightarrow> length (ins_at i x xs) = Suc (length xs)"
  by (simp add: ins_at_def)

definition with_entry :: "ft_node \<Rightarrow> nat \<Rightarrow> ft_ent \<Rightarrow> nat option \<Rightarrow> nat option \<Rightarrow> ft_node" where
  "with_entry nd i e l r = nd\<lparr>entries := ins_at i e (entries nd),
     subtrees := take i (subtrees nd) @ subtree_set (subtrees nd ! i) l
       # subtree_set (if Suc i < length (subtrees nd) then subtrees nd ! Suc i else zero_sptr) r
       # drop (Suc i) (subtrees nd),
     dirty := True\<rparr>"

definition half :: "ft_node \<Rightarrow> ft_ent list \<Rightarrow> subtree_ptr list \<Rightarrow> ft_node" where
  "half nd es sps = \<lparr>entries = es, subtrees = sps, HEIGHT = HEIGHT nd, dirty = True\<rparr>"

definition split_heap :: "heap \<Rightarrow> nat \<Rightarrow> ft_node \<Rightarrow> heap" where
  "split_heap h a nd = h\<lparr>next_ptr := next_ptr h + 2, mem := (mem h)
     (next_ptr h \<mapsto> half nd (take 2 (entries nd)) (take 3 (subtrees nd)),
      Suc (next_ptr h) \<mapsto> half nd (drop 3 (entries nd)) (drop 3 (subtrees nd)),
      a \<mapsto> nd\<lparr>entries := [entries nd ! 2],
              subtrees := [subtree_set (subtrees nd ! 0) (Some (next_ptr h)),
                           subtree_set (subtrees nd ! 1) (Some (Suc (next_ptr h)))],
              HEIGHT := HEIGHT nd + 1\<rparr>)\<rparr>"

lemma ftn_insert_node:
  assumes "mem h a = Some nd" "a < next_ptr h" "length (subtrees nd) = length (entries nd) + 1"
    and i: "i \<le> length (entries nd)" and sz: "length (entries nd) < FT_SPLITLIMIT"
    and prev: "0 < i \<Longrightarrow> \<not> fte_overlaps e (entries nd ! (i - 1))"
    and "next": "i < length (entries nd) \<Longrightarrow> \<not> fte_overlaps e (entries nd ! i)"
    and H: "0 \<le> HEIGHT nd"
  shows "ftn_insert h a e i l r =
    (let nd' = with_entry nd i e l r in
     if length (entries nd') = FT_SPLITLIMIT then Inr (Some a, split_heap h a nd')
     else Inr (None, put_node h a nd'))"
proof -
  let ?nd = "with_entry nd i e l r"
  have sub: "take (Suc i) ((subtrees nd)[i := x]) = take i (subtrees nd) @ [x]" for x
    using i assms(3) by (simp add: take_Suc_conv_app_nth)
  let ?n1 = "nd\<lparr>entries := ins_at i e (entries nd)\<rparr>"
  let ?n2 = "?n1\<lparr>subtrees := (subtrees nd)[i := subtree_set (subtrees nd ! i) l]\<rparr>"
  let ?n3 = "?n2\<lparr>subtrees := take i (subtrees nd) @ subtree_set (subtrees nd ! i) l
       # subtree_set (if Suc i < length (subtrees nd) then subtrees nd ! Suc i else zero_sptr) r
       # drop (Suc i) (subtrees nd)\<rparr>"
  have add: "ftn_entries_add nd i e = Inr ?n1" "ftn_subtrees_add ?n2 (i + 1) r = Inr ?n3"
    "?n3\<lparr>dirty := True\<rparr> = ?nd"
    using i sz assms(3) sub
    by (simp_all add: ftn_entries_add_def ftn_subtrees_add_def with_entry_def ins_at_def)
  have asserts: "(length (entries nd) + 1 = length (subtrees nd)) = True"
    "(i \<le> length (entries nd) \<and> (i = 0 \<or> \<not> fte_overlaps e (entries nd ! (i - 1)))
       \<and> (i = length (entries nd) \<or> \<not> fte_overlaps e (entries nd ! i))) = True"
    using assms(3) i prev "next" by auto
  have select_n1: "subtrees ?n1 = subtrees nd" by simp
  have eq: "ftn_insert h a e i l r = (let nd = ?nd; h = put_node h a nd in
     if length (entries nd) = FT_SPLITLIMIT then
       bindR (ftn_new h (HEIGHT nd) False) (\<lambda>(l, h).
       bindR (ftn_new h (HEIGHT nd) False) (\<lambda>(r, h).
       bindR (get_node h l) (\<lambda>lnode.
       bindR (get_node h r) (\<lambda>rnode.
       let h = put_node h l (lnode\<lparr>entries := take FT_ORDER (entries nd),
                                   subtrees := take (FT_ORDER + 1) (subtrees nd)\<rparr>);
           h = put_node h r (rnode\<lparr>entries := drop (FT_ORDER + 1) (entries nd),
                                   subtrees := drop (FT_ORDER + 1) (subtrees nd)\<rparr>);
           h = put_node h a
                 (nd\<lparr>entries := [entries nd ! FT_ORDER],
                     subtrees := [subtree_set (subtrees nd ! 0) (Some l),
                                  subtree_set (subtrees nd ! 1) (Some r)],
                     HEIGHT := HEIGHT nd + 1\<rparr>)
       in Inr (Some a, h)))))
     else Inr (None, h))"
    unfolding ftn_insert_def get_node_Some [OF assms(1)] bindR_simps asserts assertR_simps add(1)
    by (simp only: Let_def add bindR_simps select_n1)
  have H': "HEIGHT ?nd = HEIGHT nd" by (simp add: with_entry_def)
  show ?thesis
    unfolding eq Let_def using H H' assms(2)
    by (auto simp: ftn_new_leaf mem_alloc_def put_node_def split_heap_def half_def FT_ORDER_def fun_eq_iff)
qed

section \<open>The state of an ascent\<close>

definition qaddr :: "nat option \<Rightarrow> nat list" where
  "qaddr q = (case q of None \<Rightarrow> [] | Some a \<Rightarrow> [a])"

lemma qaddr_simps [simp]: "qaddr None = []" "qaddr (Some a) = [a]"
  by (simp_all add: qaddr_def)

text \<open>
  An entry \<open>e\<close> with subtrees \<open>L\<close> and \<open>R\<close> of height \<open>k\<close> waits to be inserted at the hole of \<open>C\<close>;
  if it comes from a split, \<open>q\<close> is the node that holds it.
\<close>

definition pushed :: "heap \<Rightarrow> nat \<Rightarrow> fframe list \<Rightarrow> nat option \<Rightarrow> ft_ent \<Rightarrow> ftree \<Rightarrow> ftree \<Rightarrow> bool" where
  "pushed h k C q e L R \<longleftrightarrow> heap_ok h \<and> (\<exists>p. crep h k C p) \<and> rep h k (tptr L) L \<and> rep h k (tptr R) R
     \<and> distinct (caddrs C @ qaddr q @ addrs L @ addrs R)
     \<and> (\<forall>a. q = Some a \<longrightarrow> rep h (Suc k) q (Nd a [e] [L, R]))"

lemma mem_free_frame:
  assumes "heap_ok h" "\<forall>a. q = Some a \<longrightarrow> mem h a \<noteq> None"
  shows "\<exists>h'. mem_free h q = Inr h' \<and> heap_ok h' \<and> frame (set (qaddr q)) h h' \<and> next_ptr h' = next_ptr h"
  using assms by (cases q) (auto simp: heap_ok_def frame_def)

lemma gap_no_overlap:
  assumes "ent_ok e" "\<forall>x \<in> iv_set (irange e). in_gap es i x" "i \<le> length es"
  shows "0 < i \<Longrightarrow> \<not> fte_overlaps e (es ! (i - 1))" "i < length es \<Longrightarrow> \<not> fte_overlaps e (es ! i)"
proof -
  have "left (irange e) \<in> iv_set (irange e)" "right (irange e) \<in> iv_set (irange e)"
    using assms(1) by (auto simp: ent_ok_def iv_set_def)
  then have "in_gap es i (left (irange e))" "in_gap es i (right (irange e))" using assms(2) by auto
  then show "0 < i \<Longrightarrow> \<not> fte_overlaps e (es ! (i - 1))" "i < length es \<Longrightarrow> \<not> fte_overlaps e (es ! i)"
    by (auto simp: fte_overlaps_def i_overlaps_def in_gap_def not_le)
qed

lemma reps_insert:
  assumes "reps h k sls ls" "reps h k srs rs" "rep h k (tptr L) L" "rep h k (tptr R) R"
  shows "reps h k (sls @ subtree_set s (tptr L) # subtree_set s' (tptr R) # srs) (ls @ L # R # rs)"
  using assms by (intro list_all2_appendI) auto

lemma insert_step:
  assumes P: "pushed h k ((a, es, ls, rs) # C) q e L R"
    and len: "length ls + length rs = length es" "length es < FT_SPLITLIMIT"
    and e: "ent_ok e" "\<forall>x \<in> iv_set (irange e). in_gap es (length ls) x"
  defines "es' \<equiv> ins_at (length ls) e es" and "ts' \<equiv> ls @ L # R # rs"
  shows "\<exists>rv h1 h2. ftn_insert h a e (length ls) (tptr L) (tptr R) = Inr (rv, h1) \<and> mem_free h1 q = Inr h2
    \<and> (rv = None \<and> length es' < FT_SPLITLIMIT \<and> owns h2 (Suc k + length C) (plug C (Nd a es' ts'))
     \<or> (\<exists>l r. rv = Some a \<and> length es' = FT_SPLITLIMIT \<and> pushed h2 (Suc k) C (Some a) (es' ! 2)
          (Nd l (take 2 es') (take 3 ts')) (Nd r (drop 3 es') (drop 3 ts'))))"
proof -
  have ok: "heap_ok h" and L: "rep h k (tptr L) L" and R: "rep h k (tptr R) R"
    and d: "distinct (a # concat (map addrs ls) @ concat (map addrs rs) @ caddrs C @ qaddr q @ addrs L @ addrs R)"
    using P unfolding pushed_def by simp_all
  have q: "\<forall>b. q = Some b \<longrightarrow> mem h b \<noteq> None" using P by (fastforce simp: pushed_def)
  from P obtain p where "crep h k ((a, es, ls, rs) # C) p" unfolding pushed_def by blast
  then obtain nd sls sp srs where C: "crep h (Suc k) C (Some a)"
    and nd: "mem h a = Some nd" "entries nd = es" "HEIGHT nd = int k" "subtrees nd = sls @ sp # srs"
    and rl: "reps h k sls ls" and rr: "reps h k srs rs" by auto
  have ls: "length sls = length ls" "length srs = length rs" using rl rr by (auto dest: list_all2_lengthD)
  have alt: "a < next_ptr h" using heap_ok_lt ok nd(1) by blast
  let ?nd = "with_entry nd (length ls) e (tptr L) (tptr R)"
  have nd': "entries ?nd = es'" "HEIGHT ?nd = int k"
    using nd by (auto simp: with_entry_def es'_def)
  obtain s s' where sub: "subtrees ?nd = sls @ subtree_set s (tptr L) # subtree_set s' (tptr R) # srs"
    using nd(4) ls by (auto simp: with_entry_def)
  have ins: "ftn_insert h a e (length ls) (tptr L) (tptr R) =
      (if length es' = FT_SPLITLIMIT then Inr (Some a, split_heap h a ?nd) else Inr (None, put_node h a ?nd))"
    using ftn_insert_node [OF nd(1) alt, of "length ls" e] gap_no_overlap [OF e] len ls nd nd'(1)
    by (simp add: Let_def)
  let ?S = "insert a (set (qaddr q))"
  have len': "length es' = Suc (length es)" using len by (simp add: es'_def)
  show ?thesis
  proof (cases "length es' = FT_SPLITLIMIT")
    case False
    let ?h1 = "put_node h a ?nd"
    have live: "\<forall>b. q = Some b \<longrightarrow> mem ?h1 b \<noteq> None" using q by auto
    obtain h2 where h2: "mem_free ?h1 q = Inr h2" "heap_ok h2" "frame (set (qaddr q)) ?h1 h2"
      using mem_free_frame [OF heap_ok_put [OF ok alt] live] by auto
    have fr: "frame ?S h h2"
      by (rule frame_trans [OF _ h2(3)]) auto
    have "mem h2 a = Some ?nd" using frame_mem [OF h2(3), of a] d alt by auto
    moreover have "reps h2 k (subtrees ?nd) ts'"
      unfolding sub ts'_def
      by (intro reps_insert reps_frame [OF rl ok fr] reps_frame [OF rr ok fr]
          rep_frame [OF L ok fr] rep_frame [OF R ok fr]) (use d in auto)
    moreover have "crep h2 (Suc k) C (Some a)"
      by (rule crep_frame [OF C ok fr]) (use d in auto)
    ultimately have "owns h2 (Suc k + length C) (plug C (Nd a es' ts'))"
      unfolding owns_plug owns_Nd using h2(2) nd' d by (auto simp: ts'_def)
    with ins False h2(1) len' len(2) show ?thesis by auto
  next
    case True
    let ?h1 = "split_heap h a ?nd" and ?l = "next_ptr h" and ?r = "Suc (next_ptr h)"
    have ok1: "heap_ok ?h1" using ok alt by (auto simp: split_heap_def heap_ok_def less_Suc_eq)
    have fr1: "frame {a} h ?h1" by (auto simp: frame_def split_heap_def)
    have live: "\<forall>b. q = Some b \<longrightarrow> mem ?h1 b \<noteq> None"
      using frame_mem [OF fr1] q d heap_ok_lt [OF ok] by fastforce
    obtain h2 where h2: "mem_free ?h1 q = Inr h2" "heap_ok h2" "frame (set (qaddr q)) ?h1 h2"
      using mem_free_frame [OF ok1 live] by auto
    have fr: "frame ?S h h2"
      by (rule frame_trans [OF frame_mono [OF fr1] h2(3)]) auto
    have new: "b \<noteq> ?l \<and> b \<noteq> ?r" if "b \<in> set (a # concat (map addrs ls) @ concat (map addrs rs)
        @ caddrs C @ qaddr q @ addrs L @ addrs R)" for b
    proof -
      have "b < next_ptr h"
        using that alt reps_addrs_lt [OF rl ok] reps_addrs_lt [OF rr ok] rep_addrs_lt [OF L ok]
          rep_addrs_lt [OF R ok] crep_addrs_lt [OF C ok] q heap_ok_lt [OF ok]
        by (auto simp: qaddr_def split: option.splits simp del: set_concat set_map)
      then show ?thesis by simp
    qed
    have keep: "mem h2 b = mem ?h1 b" if "b = a \<or> b = ?l \<or> b = ?r" for b
    proof (rule frame_mem [OF h2(3)])
      show "b \<notin> set (qaddr q)" using that d new by auto
      show "b < next_ptr ?h1" using that alt by (auto simp: split_heap_def)
    qed
    have reps: "reps h2 k (subtrees ?nd) ts'"
      unfolding sub ts'_def
      by (intro reps_insert reps_frame [OF rl ok fr] reps_frame [OF rr ok fr]
          rep_frame [OF L ok fr] rep_frame [OF R ok fr]) (use d in auto)
    let ?L = "Nd ?l (take 2 es') (take 3 ts')" and ?R = "Nd ?r (drop 3 es') (drop 3 ts')"
    have "rep h2 (Suc k) (Some ?l) ?L" "rep h2 (Suc k) (Some ?r) ?R"
      using keep[of ?l] keep[of ?r] alt nd' list_all2_takeI [OF reps, of 3] list_all2_dropI [OF reps, of 3]
      by (auto simp: split_heap_def half_def)
    moreover from this have "rep h2 (Suc (Suc k)) (Some a) (Nd a [es' ! 2] [?L, ?R])"
      using keep[of a] alt nd' by (auto simp: split_heap_def)
    moreover have "crep h2 (Suc k) C (Some a)"
      by (rule crep_frame [OF C ok fr]) (use d in auto)
    moreover have "distinct (caddrs C @ qaddr (Some a) @ addrs ?L @ addrs ?R)"
    proof -
      have "distinct (?l # ?r # a # caddrs C @ concat (map addrs ts'))"
        using d new by (auto simp: ts'_def)
      then have "distinct (?l # ?r # a # caddrs C @ concat (map addrs (take 3 ts' @ drop 3 ts')))"
        by (simp only: append_take_drop_id)
      then show ?thesis by (auto simp del: append_take_drop_id)
    qed
    ultimately have "pushed h2 (Suc k) C (Some a) (es' ! 2) ?L ?R"
      unfolding pushed_def using h2(2) by auto
    with ins True h2(1) show ?thesis by auto
  qed
qed

section \<open>Lookups after an insertion\<close>

lemma nlook_append:
  assumes "sorted_ents (es @ e # ds)" "length fs = length es + 1"
  shows "nlook (es @ e # ds) (fs @ gs) x =
    (if i_contains_val (irange e) x then Some (fvalue e)
     else if x < left (irange e) then nlook es fs x else nlook ds gs x)"
  using assms
proof (induction es arbitrary: fs)
  case Nil
  then show ?case by (cases fs) auto
next
  case (Cons d es)
  then obtain f fs' where fs: "fs = f # fs'" "length fs' = length es + 1" by (cases fs) auto
  have lt: "right (irange d) < left (irange e)" "left (irange d) \<le> right (irange d)"
    using Cons.prems(1) by (auto simp: sorted_ents_Cons ent_lt_def ent_ok_def)
  have "x < left (irange e)" "\<not> i_contains_val (irange e) x" if "x \<le> right (irange d)"
    using that lt by (auto simp: i_contains_val_def)
  then show ?case
    using Cons.IH[of fs'] Cons.prems(1) fs lt by (auto simp: sorted_ents_Cons i_contains_val_def)
qed

lemma nlook_insert:
  assumes "length ls = length es" "\<forall>d \<in> set ds. ent_lt e d \<and> ent_ok d" "ent_ok e"
  shows "nlook (es @ e # ds) (ls @ l # r # rs) x = nlook (es @ ds) (ls @ nlook [e] [l, r] # rs) x"
  using assms(1)
proof (induction es arbitrary: ls)
  case Nil
  show ?case
  proof (cases ds)
    case Nil
    with \<open>length ls = length []\<close> show ?thesis by simp
  next
    case (Cons d ds')
    have "right (irange e) < left (irange d)" "left (irange d) \<le> right (irange d)" "left (irange e) \<le> right (irange e)"
      using assms Cons by (auto simp: ent_lt_def ent_ok_def)
    then show ?thesis using \<open>length ls = length []\<close> Cons by (auto simp: i_contains_val_def)
  qed
next
  case (Cons d es)
  then show ?case by (cases ls) auto
qed

lemma tlook_insert:
  assumes "sorted_ents es" "ent_ok e" "length ls \<le> length es"
    and gap: "\<forall>x \<in> iv_set (irange e). in_gap es (length ls) x"
  shows "tlook (Nd a (ins_at (length ls) e es) (ls @ L # R # rs)) x = tlook (Nd b es (ls @ Nd c [e] [L, R] # rs)) x"
proof -
  let ?i = "length ls"
  have "right (irange e) \<in> iv_set (irange e)" using assms(2) by (auto simp: iv_set_def ent_ok_def)
  then have lt: "\<forall>d \<in> set (drop ?i es). ent_lt e d"
    using gap by (auto simp: in_gap_def ent_lt_def in_set_conv_nth)
  have "\<forall>d \<in> set (drop ?i es). ent_lt e d \<and> ent_ok d"
    using lt assms(1) by (auto simp: sorted_ents_def dest: in_set_dropD)
  moreover have "length (map tlook ls) = length (take ?i es)" using assms(3) by simp
  ultimately have "nlook (take ?i es @ e # drop ?i es) (map tlook ls @ tlook L # tlook R # map tlook rs) x
      = nlook (take ?i es @ drop ?i es) (map tlook ls @ nlook [e] [tlook L, tlook R] # map tlook rs) x"
    by (intro nlook_insert) (use assms(2) in auto)
  moreover have "tlook (Nd c [e] [L, R]) = nlook [e] [tlook L, tlook R]" by (auto simp: fun_eq_iff)
  ultimately show ?thesis by (simp add: ins_at_def)
qed

lemma sorted_ins_at:
  assumes "sorted_ents es" "ent_ok e" "i \<le> length es" "\<forall>x \<in> iv_set (irange e). in_gap es i x"
  shows "sorted_ents (ins_at i e es)"
proof -
  have "left (irange e) \<in> iv_set (irange e)" "right (irange e) \<in> iv_set (irange e)"
    using assms(2) by (auto simp: ent_ok_def iv_set_def)
  then have g: "in_gap es i (left (irange e))" "in_gap es i (right (irange e))" using assms(4) by auto
  have "sorted_ents (take i es @ drop i es)" using assms(1) by simp
  moreover have "\<forall>d \<in> set (take i es). ent_lt d e" "\<forall>d \<in> set (drop i es). ent_lt e d"
    using g by (auto simp: in_gap_def ent_lt_def in_set_conv_nth)
  ultimately show ?thesis
    unfolding ins_at_def sorted_ents_append sorted_ents_Cons using assms(2) by auto
qed

lemma set_ins_at [simp]: "set (ins_at i e es) = insert e (set es)"
  unfolding ins_at_def by (metis append_take_drop_id list.simps(15) set_append Un_insert_right)

lemma split_entries:
  assumes "length es = FT_SPLITLIMIT"
  shows "es = take 2 es @ es ! 2 # drop 3 es"
  using assms id_take_nth_drop [of 2 es] by (simp add: FT_SPLITLIMIT_def FT_ORDER_def)

lemma tlook_split:
  assumes "sorted_ents es" "length es = FT_SPLITLIMIT" "length ts = length es + 1"
  shows "tlook (Nd a [es ! 2] [Nd l (take 2 es) (take 3 ts), Nd r (drop 3 es) (drop 3 ts)]) x = tlook (Nd b es ts) x"
proof -
  have s: "sorted_ents (take 2 es @ es ! 2 # drop 3 es)" using assms(1) split_entries [OF assms(2)] by simp
  have "nlook (take 2 es @ es ! 2 # drop 3 es) (take 3 (map tlook ts) @ drop 3 (map tlook ts)) x =
    (if i_contains_val (irange (es ! 2)) x then Some (fvalue (es ! 2))
     else if x < left (irange (es ! 2)) then nlook (take 2 es) (take 3 (map tlook ts)) x
     else nlook (drop 3 es) (drop 3 (map tlook ts)) x)"
    by (rule nlook_append [OF s]) (use assms in \<open>simp add: FT_SPLITLIMIT_def FT_ORDER_def\<close>)
  moreover have "nlook (take 2 es @ es ! 2 # drop 3 es) (take 3 (map tlook ts) @ drop 3 (map tlook ts)) x
      = tlook (Nd b es ts) x"
    unfolding append_take_drop_id split_entries [OF assms(2), symmetric] by simp
  ultimately show ?thesis by (auto simp: take_map drop_map)
qed

lemma twf_split:
  assumes "sorted_ents es" "length es = FT_SPLITLIMIT" "length ts = length es + 1" "\<forall>t \<in> set ts. twf t"
  shows "twf (Nd l (take 2 es) (take 3 ts))" "twf (Nd r (drop 3 es) (drop 3 ts))" "ent_ok (es ! 2)"
  using assms sorted_ents_ok [OF assms(1), of 2]
  by (auto simp: FT_SPLITLIMIT_def FT_ORDER_def dest: in_set_takeD in_set_dropD)

section \<open>One step of the ascent\<close>

lemma pushed_get:
  assumes "pushed h k C (Some a) e L R"
  obtains nd where "get_node h a = Inr nd" "entries nd ! 0 = e"
    "subtree_get log h a 0 = Inr (tptr L, h)" "subtree_get log h a 1 = Inr (tptr R, h)"
proof -
  from assms have "rep h (Suc k) (Some a) (Nd a [e] [L, R])" by (simp add: pushed_def)
  then obtain nd s0 s1 where "mem h a = Some nd" "entries nd = [e]" "subtrees nd = [s0, s1]"
    "inmemory s0" "inmemory s1" "rep h k (st s0) L" "rep h k (st s1) R"
    by (auto simp: list_all2_Cons2)
  moreover from this have "st s0 = tptr L" "st s1 = tptr R" using rep_tptr by blast+
  ultimately show thesis by (intro that[of nd]) (auto simp: subtree_get_def)
qed

definition adj_index :: "int \<Rightarrow> ft_path \<Rightarrow> nat \<Rightarrow> nat option \<Rightarrow> nat" where
  "adj_index f path j r =
     (if int j = f then snd (path ! j) - 1
      else if int j < f \<and> Some (fst (path ! (j + 1))) = r then snd (path ! j) + 1
      else snd (path ! j))"

lemma ft_adjust_None:
  assumes "j < length path" "int j = f \<Longrightarrow> 0 < snd (path ! j)"
  shows "ft_adjust log f h path j None r = Inr (h, path[j := (fst (path ! j), adj_index f path j r)])"
  using assms by (auto simp: ft_adjust_def adj_index_def path_decrement_def)

lemma ft_adjust_Some:
  assumes j: "j < length path" "int j = f \<Longrightarrow> 0 < snd (path ! j)"
    and P: "pushed h k C (Some a) e (Nd l es ts) (Nd l' es' ts')"
  shows "ft_adjust log f h path j (Some a) r = Inr (h, path[j :=
    (let m = adj_index f path j r in if m \<le> FT_ORDER then (l, m) else (l', m - (FT_ORDER + 1)))])"
proof -
  from P obtain nd :: ft_node where "subtree_get log h a 0 = Inr (Some l, h)" "subtree_get log h a 1 = Inr (Some l', h)"
    by (rule pushed_get [of h k C a e _ _ log]) auto
  with j show ?thesis
    by (auto simp: ft_adjust_def adj_index_def path_decrement_def Let_def)
qed

definition dec_at :: "nat \<Rightarrow> ft_path \<Rightarrow> ft_path" where
  "dec_at n path = path[n := (fst (path ! n), snd (path ! n) - 1)]"

lemma take_dec_at: "n < k \<Longrightarrow> take k (dec_at n path) = dec_at n (take k path)"
  by (cases "n < length path") (auto simp: dec_at_def take_update_swap)

text \<open>What the loop body does at a node that is not full, and at a full one.\<close>

lemma ft_ascend_stop:
  assumes "path ! j = (a, i)" "ftn_insert h a e i l r = Inr (None, h1)" "mem_free h1 q = Inr h2"
  shows "ft_ascend log False f (Suc j) h path q e l r = Inr (h2, path, False, None)"
    and "j < length path \<Longrightarrow> f < int j \<Longrightarrow> 0 \<le> f \<Longrightarrow> 0 < snd (path ! nat f) \<Longrightarrow>
      ft_ascend log True f (Suc j) h path q e l r =
        Inr (h2, dec_at (nat f) path, False, None)"
    and "j < length path \<Longrightarrow> int j \<le> f \<Longrightarrow> (int j = f \<Longrightarrow> 0 < snd (path ! j)) \<Longrightarrow>
      ft_ascend log True f (Suc j) h path q e l r =
        Inr (h2, path[j := (a, adj_index f path j r)], False, None)"
proof -
  show "ft_ascend log False f (Suc j) h path q e l r = Inr (h2, path, False, None)"
    using assms by simp
  assume j: "j < length path"
  show "ft_ascend log True f (Suc j) h path q e l r = Inr (h2, path[j := (a, adj_index f path j r)], False, None)"
    if "int j \<le> f" "int j = f \<Longrightarrow> 0 < snd (path ! j)"
    using assms that ft_adjust_None [OF j that(2), where log = log and h = h2 and r = r] by simp
  show "ft_ascend log True f (Suc j) h path q e l r =
      Inr (h2, dec_at (nat f) path, False, None)"
    if f: "f < int j" "0 \<le> f" "0 < snd (path ! nat f)"
  proof -
    have "path[j := (fst (path ! j), adj_index f path j r)] = path"
      using f assms(1) by (simp add: adj_index_def) (metis list_update_id)
    then have "ft_adjust log f h2 path j None r = Inr (h2, path)"
      using ft_adjust_None [OF j, where f = f and log = log and h = h2 and r = r] f by simp
    moreover have "nat f < length path" using f j by linarith
    ultimately show ?thesis using assms f by (simp add: path_decrement_def dec_at_def)
  qed
qed

lemma ft_ascend_continue:
  assumes "path ! j = (a, i)" "ftn_insert h a e i l r = Inr (Some a, h1)" "mem_free h1 q = Inr h2"
    and P: "pushed h2 k C (Some a) e' (Nd b es ts) (Nd b' es' ts')"
  shows "ft_ascend log False f (Suc j) h path q e l r = ft_ascend log False f j h2 path (Some a) e' (Some b) (Some b')"
    and "j < length path \<Longrightarrow> (int j = f \<Longrightarrow> 0 < snd (path ! j)) \<Longrightarrow>
      ft_ascend log True f (Suc j) h path q e l r = ft_ascend log True f j h2 (path[j :=
        (let m = adj_index f path j r in if m \<le> FT_ORDER then (b, m) else (b', m - (FT_ORDER + 1)))])
        (Some a) e' (Some b) (Some b')"
proof -
  from P obtain nd where nd: "get_node h2 a = Inr nd" "entries nd ! 0 = e'"
    "subtree_get log h2 a 0 = Inr (Some b, h2)" "subtree_get log h2 a 1 = Inr (Some b', h2)"
    by (rule pushed_get [of h2 k C a e' _ _ log]) auto
  then show "ft_ascend log False f (Suc j) h path q e l r = ft_ascend log False f j h2 path (Some a) e' (Some b) (Some b')"
    using assms(1-3) by simp
  show "ft_ascend log True f (Suc j) h path q e l r = ft_ascend log True f j h2 (path[j :=
      (let m = adj_index f path j r in if m \<le> FT_ORDER then (b, m) else (b', m - (FT_ORDER + 1)))])
      (Some a) e' (Some b) (Some b')"
    if j: "j < length path" "int j = f \<Longrightarrow> 0 < snd (path ! j)"
    using assms(1-3) nd ft_adjust_Some [OF j P, where log = log and r = r] by simp
qed

declare ft_ascend.simps(2) [simp del]

section \<open>The ascent through a stack of frames\<close>

text \<open>One level, semantically: the node with the new entry, and its two halves when it is full.\<close>

lemma level:
  assumes F: "cwf ((a, es, ls, rs) # C)" and e: "ent_ok e" "iv_set (irange e) \<subseteq> {x. in_gap es (length ls) x}"
    and t: "twf L" "twf R"
  defines "es' \<equiv> ins_at (length ls) e es" and "ts' \<equiv> ls @ L # R # rs"
  shows "sorted_ents es'" "length ts' = length es' + 1" "\<forall>t \<in> set ts'. twf t" "length es' = Suc (length es)"
    and "tlook (Nd b es' ts') x = tlook (Nd b es (ls @ Nd c [e] [L, R] # rs)) x"
    and "length es' < FT_SPLITLIMIT \<Longrightarrow> twf (Nd b es' ts')"
    and "length es' = FT_SPLITLIMIT \<Longrightarrow>
      tlook (Nd b [es' ! 2] [Nd l (take 2 es') (take 3 ts'), Nd r (drop 3 es') (drop 3 ts')]) x
        = tlook (Nd b es (ls @ Nd c [e] [L, R] # rs)) x"
    and "length es' = FT_SPLITLIMIT \<Longrightarrow> twf (Nd l (take 2 es') (take 3 ts')) \<and> twf (Nd r (drop 3 es') (drop 3 ts'))
      \<and> ent_ok (es' ! 2) \<and> es' ! 2 \<in> insert e (set es)"
proof -
  have gap: "\<forall>x \<in> iv_set (irange e). in_gap es (length ls) x" using e by auto
  show s: "sorted_ents es'" unfolding es'_def using F e(1) gap by (intro sorted_ins_at) auto
  show len: "length ts' = length es' + 1" and len': "length es' = Suc (length es)"
    using F by (auto simp: es'_def ts'_def)
  show wf: "\<forall>t \<in> set ts'. twf t" using F t by (auto simp: ts'_def)
  show look: "tlook (Nd b es' ts') x = tlook (Nd b es (ls @ Nd c [e] [L, R] # rs)) x" for b
    unfolding es'_def ts'_def using F e(1) gap by (intro tlook_insert) auto
  show "twf (Nd b es' ts')" if "length es' < FT_SPLITLIMIT" using that s len wf by simp
  assume full: "length es' = FT_SPLITLIMIT"
  show "tlook (Nd b [es' ! 2] [Nd l (take 2 es') (take 3 ts'), Nd r (drop 3 es') (drop 3 ts')]) x
        = tlook (Nd b es (ls @ Nd c [e] [L, R] # rs)) x"
    using tlook_split [OF s full len] look by metis
  have "es' ! 2 \<in> set es'" using full by (intro nth_mem) (simp add: FT_SPLITLIMIT_def FT_ORDER_def)
  then have "es' ! 2 \<in> insert e (set es)" by (simp add: es'_def)
  then show "twf (Nd l (take 2 es') (take 3 ts')) \<and> twf (Nd r (drop 3 es') (drop 3 ts'))
      \<and> ent_ok (es' ! 2) \<and> es' ! 2 \<in> insert e (set es)"
    using twf_split [OF s full len wf] by blast
qed

lemma cfit_entry: "cfit S ((a, es, ls, rs) # C) \<Longrightarrow> d \<in> set es \<Longrightarrow> iv_set (irange d) \<subseteq> S \<inter> chole C"
  by simp

lemma cpath_nth [simp]: "(cpath C @ (a, i) # ps) ! length C = (a, i)"
  by (simp add: nth_append)

lemma take_path_nth: "take (Suc n) path = cpath C @ [p] \<Longrightarrow> length C = n \<Longrightarrow> path ! n = p \<and> n < length path
    \<and> take n path = cpath C"
proof -
  assume *: "take (Suc n) path = cpath C @ [p]" "length C = n"
  have "length (take (Suc n) path) = Suc n" unfolding * using *(2) by simp
  then have n: "n < length path" by simp
  with * show ?thesis by (auto simp: take_Suc_conv_app_nth)
qed

lemma tptr_plug_ne: "D \<noteq> [] \<Longrightarrow> tptr (plug D t) = tptr (plug D t')"
  using tptr_plug [of "Nd _ _ _" "Nd _ _ _"] by (cases D) force+

lemma ascend_frames:
  assumes "pushed h k (D @ C) q e L R" "cwf D" "cfit (chole C) D" "ent_ok e"
    "iv_set (irange e) \<subseteq> chole (D @ C)" "twf L" "twf R"
    "take (length D + length C) path = cpath (D @ C)"
    and rc: "rc \<Longrightarrow> 0 \<le> f \<and> f < int (length C) \<and> 0 < snd (path ! nat f)"
  shows "(\<exists>h' path' t'. ft_ascend log rc f (length D + length C) h path q e (tptr L) (tptr R)
        = Inr (h', path', False, None)
      \<and> (if rc then take (length C) path' = dec_at (nat f) (take (length C) path) else path' = path)
      \<and> owns h' (k + length D + length C) (plug C t') \<and> twf t' \<and> D \<noteq> [] \<and> tptr t' = tptr (plug D Lf)
      \<and> (\<forall>x. tlook t' x = tlook (plug D (Nd 0 [e] [L, R])) x))
   \<or> (\<exists>h' path' q' e' L' R'. ft_ascend log rc f (length D + length C) h path q e (tptr L) (tptr R)
        = ft_ascend log rc f (length C) h' path' q' e' (tptr L') (tptr R')
      \<and> (rc \<or> path' = path) \<and> take (length C) path' = take (length C) path \<and> length path' = length path
      \<and> pushed h' (k + length D) C q' e' L' R' \<and> ent_ok e' \<and> iv_set (irange e') \<subseteq> chole C \<and> twf L' \<and> twf R'
      \<and> (D \<noteq> [] \<or> q \<noteq> None \<longrightarrow> q' \<noteq> None)
      \<and> (\<forall>x. tlook (Nd 0 [e'] [L', R']) x = tlook (plug D (Nd 0 [e] [L, R])) x))"
  (is "?stop h k D q e L R path \<or> ?go h k D q e L R path")
  using assms
proof (induction D arbitrary: h k q e L R path)
  case Nil
  then have "?go h k [] q e L R path"
    by (intro exI[of _ h] exI[of _ path] exI[of _ q] exI[of _ e] exI[of _ L] exI[of _ R]) auto
  then show ?case ..
next
  case (Cons F D)
  obtain a es ls rs where F: "F = (a, es, ls, rs)" by (cases F)
  let ?i = "length ls" and ?j = "length D + length C"
  define es' ts' where "es' = ins_at ?i e es" and "ts' = ls @ L # R # rs"
  have wfF: "cwf ((a, es, ls, rs) # D)" using Cons.prems(2) F by simp
  have gap: "iv_set (irange e) \<subseteq> {x. in_gap es ?i x}" "iv_set (irange e) \<subseteq> chole (D @ C)"
    using Cons.prems(5) F by auto
  note lev = level [OF wfF Cons.prems(4) gap(1) Cons.prems(6,7), folded es'_def ts'_def]
  have path: "path ! ?j = (a, ?i)" "?j < length path" "take ?j path = cpath (D @ C)"
    using take_path_nth [of ?j path "D @ C" "(a, ?i)"] Cons.prems(8) F by auto
  obtain rv h1 h2 where ins: "ftn_insert h a e ?i (tptr L) (tptr R) = Inr (rv, h1)" "mem_free h1 q = Inr h2"
    and alt: "rv = None \<and> length es' < FT_SPLITLIMIT \<and> owns h2 (Suc k + length (D @ C)) (plug (D @ C) (Nd a es' ts'))
      \<or> (\<exists>l r. rv = Some a \<and> length es' = FT_SPLITLIMIT \<and> pushed h2 (Suc k) (D @ C) (Some a) (es' ! 2)
          (Nd l (take 2 es') (take 3 ts')) (Nd r (drop 3 es') (drop 3 ts')))"
    using insert_step [of h k a es ls rs "D @ C" q e L R] Cons.prems(1,4) F wfF gap(1)
    unfolding es'_def ts'_def by fastforce
  from alt show ?case
  proof
    assume A: "rv = None \<and> length es' < FT_SPLITLIMIT \<and> owns h2 (Suc k + length (D @ C)) (plug (D @ C) (Nd a es' ts'))"
    let ?t = "plug D (Nd a es' ts')"
    have "twf ?t" using A lev(6) Cons.prems(2) F by simp
    moreover have "tlook ?t x = tlook (plug (F # D) (Nd 0 [e] [L, R])) x" for x
      using lev(5) [where b = a and c = 0 and x = x] Cons.prems(2) F by (auto intro: tlook_plug_cong)
    moreover have "tptr ?t = tptr (plug (F # D) Lf)" unfolding F by (auto intro: tptr_plug)
    moreover have "owns h2 (k + length (F # D) + length C) (plug C ?t)" using A by (simp add: add.assoc)
    moreover have "\<exists>path'. ft_ascend log rc f (length (F # D) + length C) h path q e (tptr L) (tptr R)
        = Inr (h2, path', False, None)
      \<and> (if rc then take (length C) path' = dec_at (nat f) (take (length C) path) else path' = path)"
      using ft_ascend_stop(1,2) [OF path(1) ins(1) [unfolded conjunct1 [OF A]] ins(2)] path(2) Cons.prems(9)
      by (cases rc) (auto simp: nat_less_iff intro!: take_dec_at)
    ultimately show ?case by blast
  next
    assume "\<exists>l r. rv = Some a \<and> length es' = FT_SPLITLIMIT \<and> pushed h2 (Suc k) (D @ C) (Some a) (es' ! 2)
          (Nd l (take 2 es') (take 3 ts')) (Nd r (drop 3 es') (drop 3 ts'))"
    then obtain l r where rv: "rv = Some a" and full: "length es' = FT_SPLITLIMIT"
      and P: "pushed h2 (Suc k) (D @ C) (Some a) (es' ! 2) (Nd l (take 2 es') (take 3 ts')) (Nd r (drop 3 es') (drop 3 ts'))"
      by blast
    let ?L = "Nd l (take 2 es') (take 3 ts')" and ?R = "Nd r (drop 3 es') (drop 3 ts')"
    define path1 where "path1 = (if rc then path[?j := (let m = adj_index f path ?j (tptr R) in
      if m \<le> FT_ORDER then (l, m) else (r, m - (FT_ORDER + 1)))] else path)"
    have step: "ft_ascend log rc f (length (F # D) + length C) h path q e (tptr L) (tptr R)
        = ft_ascend log rc f ?j h2 path1 (Some a) (es' ! 2) (tptr ?L) (tptr ?R)"
      using ft_ascend_continue [OF path(1) ins(1) [unfolded rv] ins(2) P] path(2) Cons.prems(9)
      by (cases rc) (auto simp: path1_def)
    have path1: "take ?j path1 = take ?j path" "length path1 = length path" "rc \<or> path1 = path"
      by (auto simp: path1_def)
    have tC: "take (length C) path1 = take (length C) path"
      using arg_cong [OF path1(1), of "take (length C)"] by simp
    have rc1: "rc \<Longrightarrow> 0 \<le> f \<and> f < int (length C) \<and> 0 < snd (path1 ! nat f)"
      using Cons.prems(9) by (auto simp: path1_def)
    have mid: "iv_set (irange (es' ! 2)) \<subseteq> chole (D @ C)"
      using lev(8)[OF full] cfit_entry [of "chole C" a es ls rs D] Cons.prems(3) F gap(2) by auto
    have look: "tlook (plug D (Nd 0 [es' ! 2] [?L, ?R])) x = tlook (plug (F # D) (Nd 0 [e] [L, R])) x" for x
      using lev(7) [OF full, where b = 0 and c = 0] tlook_frame(2) [of es ls rs x "Nd 0 [e] [L, R]" _ 0 a]
        Cons.prems(2) F
      by (auto intro!: tlook_plug_cong simp del: tlook.simps)
    have IH: "?stop h2 (Suc k) D (Some a) (es' ! 2) ?L ?R path1 \<or> ?go h2 (Suc k) D (Some a) (es' ! 2) ?L ?R path1"
      by (rule Cons.IH [OF P _ _ _ mid _ _ _ rc1]) (use lev(8)[OF full] Cons.prems(2,3) F path(3) path1(1) in auto)
    show ?case
    proof -
      have ptr: "D \<noteq> [] \<Longrightarrow> tptr (plug D Lf) = tptr (plug (F # D) Lf)"
        using tptr_plug_ne [of D] F by simp
      have ks: "k + length (F # D) = Suc k + length D" by simp
      from IH show ?thesis
      proof
        assume "?stop h2 (Suc k) D (Some a) (es' ! 2) ?L ?R path1"
        then have "?stop h k (F # D) q e L R path"
          unfolding step look tC ks using ptr path1(3) by (elim exE conjE, cases rc) fastforce+
        then show ?thesis ..
      next
        assume "?go h2 (Suc k) D (Some a) (es' ! 2) ?L ?R path1"
        then have "?go h k (F # D) q e L R path"
          unfolding step look tC ks path1(2) using path1(3)
          by (elim exE conjE) (intro exI conjI; (assumption | (simp; fail) | blast)?)
        then show ?thesis ..
      qed
    qed
  qed
qed

end
