(* ===== verification/Fig_Marker.thy ===== *)
theory Fig_Marker
  imports Fig_Ascend
begin

text \<open>
  The ascent of a right continuation. While it inserts the right remainder of a split entry, the
  code keeps the path to the place where the left remainder goes: the marker, a subtree that the
  ascent does not touch but whose ancestors it may split. Statements are parametric in the tree
  \<open>T\<close> at the marker, which makes the hole above the marker the same before and after.
\<close>

section \<open>Marked subtrees\<close>

definition mleft :: "bool \<Rightarrow> fframe list \<Rightarrow> ftree \<Rightarrow> ftree \<Rightarrow> ftree" where
  "mleft s J X T = (if s then plug J T else X)"

definition mright :: "bool \<Rightarrow> fframe list \<Rightarrow> ftree \<Rightarrow> ftree \<Rightarrow> ftree" where
  "mright s J X T = (if s then X else plug J T)"

definition side :: "bool \<Rightarrow> ft_ent \<Rightarrow> byte_index_t set" where
  "side s e = (if s then {x. x < left (irange e)} else {x. right (irange e) < x})"

lemma mark_halves:
  fixes us vs :: "ftree list"
  assumes "length us + length vs = 5"
  shows "length us \<le> 2 \<Longrightarrow> take 3 (us @ t # vs) = us @ t # take (2 - length us) vs
      \<and> drop 3 (us @ t # vs) = drop (2 - length us) vs"
    and "\<not> length us \<le> 2 \<Longrightarrow> take 3 (us @ t # vs) = take 3 us \<and> drop 3 (us @ t # vs) = drop 3 us @ t # vs"
  using assms by (auto simp: take_Cons' drop_Cons')

text \<open>The frame above the marker and the other half when a full node with children \<open>us\<close>, the marked
  one and \<open>vs\<close> splits.\<close>

definition mframe :: "nat \<Rightarrow> nat \<Rightarrow> ft_ent list \<Rightarrow> ftree list \<Rightarrow> ftree list \<Rightarrow> fframe" where
  "mframe l r es us vs = (if length us \<le> 2 then (l, take 2 es, us, take (2 - length us) vs)
     else (r, drop 3 es, drop 3 us, vs))"

definition mother :: "nat \<Rightarrow> nat \<Rightarrow> ft_ent list \<Rightarrow> ftree list \<Rightarrow> ftree list \<Rightarrow> ftree" where
  "mother l r es us vs = (if length us \<le> 2 then Nd r (drop 3 es) (drop (2 - length us) vs)
     else Nd l (take 2 es) (take 3 us))"

lemma mark_split:
  assumes "length us + length vs = 5"
  shows "Nd l (take 2 es) (take 3 (us @ plug J T # vs))
      = mleft (length us \<le> 2) (J @ [mframe l r es us vs]) (mother l r es us vs) T"
    and "Nd r (drop 3 es) (drop 3 (us @ plug J T # vs))
      = mright (length us \<le> 2) (J @ [mframe l r es us vs]) (mother l r es us vs) T"
  using mark_halves [OF assms] by (auto simp: mleft_def mright_def mframe_def mother_def)

lemma mark_split_fit:
  assumes len: "length us + length vs = 5" "length es = FT_SPLITLIMIT" and s: "sorted_ents es"
    and es: "\<forall>e \<in> set es. iv_set (irange e) \<subseteq> H"
    and J: "cfit (H \<inter> {x. in_gap es (length us) x}) J"
  shows "cfit (H \<inter> side (length us \<le> 2) (es ! 2)) (J @ [mframe l r es us vs])"
proof -
  let ?F = "mframe l r es us vs"
  have n: "length es = 5" using len(2) by (simp add: FT_SPLITLIMIT_def FT_ORDER_def)
  have lt: "\<forall>d \<in> set (take 2 es). ent_lt d (es ! 2)" "\<forall>d \<in> set (drop 3 es). ent_lt (es ! 2) d"
    using s split_entries [OF len(2)] by (metis sorted_ents_append sorted_ents_Cons list.set_intros(1))+
  show ?thesis
  proof (cases "length us \<le> 2")
    case True
    have "H \<inter> {x. in_gap es (length us) x} \<subseteq> H \<inter> side True (es ! 2) \<inter> chole [?F]"
      using True n by (auto simp: mframe_def side_def in_gap_def)
    moreover have "iv_set (irange d) \<subseteq> H \<inter> side True (es ! 2)" if "d \<in> set (take 2 es)" for d
      using that lt(1) es by (auto simp: side_def ent_lt_def iv_set_def dest: in_set_takeD)
    ultimately show ?thesis
      unfolding cfit_append using cfit_mono [OF J] True by (auto simp: mframe_def)
  next
    case False
    have "in_gap (drop 3 es) (length us - 3) x" if "in_gap es (length us) x" for x
      using that False n unfolding in_gap_def by (auto dest: spec[of _ "3 + _"])
    moreover have "right (irange (es ! 2)) < x" if "in_gap es (length us) x" for x
      using that False by (auto simp: in_gap_def)
    ultimately have "H \<inter> {x. in_gap es (length us) x} \<subseteq> H \<inter> side False (es ! 2) \<inter> chole [?F]"
      using False by (auto simp: mframe_def side_def)
    moreover have "iv_set (irange d) \<subseteq> H \<inter> side False (es ! 2)" if "d \<in> set (drop 3 es)" for d
      using that lt(2) es by (auto simp: side_def ent_lt_def iv_set_def dest: in_set_dropD)
    ultimately show ?thesis
      unfolding cfit_append using cfit_mono [OF J] False by (auto simp: mframe_def)
  qed
qed

lemma mark_split_wf:
  assumes "length us + length vs = 5" "length es = FT_SPLITLIMIT" "sorted_ents es"
    "cwf J" "\<forall>t \<in> set us \<union> set vs. twf t"
  shows "cwf (J @ [mframe l r es us vs])" "twf (mother l r es us vs)"
  using assms
  by (auto simp: mframe_def mother_def FT_SPLITLIMIT_def FT_ORDER_def dest: in_set_takeD in_set_dropD)

lemma path_update:
  assumes "take (Suc n + k) path = ps @ p # qs" "length ps = n" "n < length path"
  shows "take (Suc n + k) (path[n := p']) = ps @ p' # qs"
  using assms by (simp add: take_update_swap list_update_append)

lemma cpath_eq_Nil [simp]: "cpath C = [] \<longleftrightarrow> C = []"
  by (metis length_0_conv length_cpath)

lemma tptr_plug_hd: "J \<noteq> [] \<Longrightarrow> tptr (plug J T) = Some (fst (hd (cpath J)))"
proof (induction J arbitrary: T)
  case Nil
  then show ?case by simp
next
  case (Cons F J)
  then show ?case by (cases F; cases "J = []") (auto simp: hd_append)
qed

lemma tptr_in_addrs: "tptr t = Some a \<Longrightarrow> a \<in> set (addrs t)"
  by (cases t) auto

section \<open>The ascent above the marker\<close>

lemma mark_level:
  assumes P: "pushed h k ((a, es, ls, rs) # C) q e L R"
    and wf: "cwf ((a, es, ls, rs) # C)" "ent_ok e" "iv_set (irange e) \<subseteq> {x. in_gap es (length ls) x}"
    and path: "path ! length C = (a, length ls)" "length C < length path"
    and f: "int (length C) \<le> f" "int (length C) = f \<Longrightarrow> 0 < length ls"
      "adj_index f path (length C) (tptr R) = m"
  defines "es' \<equiv> ins_at (length ls) e es" and "ts' \<equiv> ls @ L # R # rs"
  shows "(\<exists>h'. ft_ascend log True f (Suc (length C)) h path q e (tptr L) (tptr R)
        = Inr (h', path[length C := (a, m)], False, None)
      \<and> length es' < FT_SPLITLIMIT \<and> owns h' (Suc k + length C) (plug C (Nd a es' ts')))
    \<or> (\<exists>h' l r. ft_ascend log True f (Suc (length C)) h path q e (tptr L) (tptr R)
        = ft_ascend log True f (length C) h' (path[length C := (if m \<le> 2 then (l, m) else (r, m - 3))])
            (Some a) (es' ! 2) (Some l) (Some r)
      \<and> length es' = FT_SPLITLIMIT \<and> pushed h' (Suc k) C (Some a) (es' ! 2)
          (Nd l (take 2 es') (take 3 ts')) (Nd r (drop 3 es') (drop 3 ts')))"
proof -
  obtain rv h1 h2 where ins: "ftn_insert h a e (length ls) (tptr L) (tptr R) = Inr (rv, h1)" "mem_free h1 q = Inr h2"
    and alt: "rv = None \<and> length es' < FT_SPLITLIMIT \<and> owns h2 (Suc k + length C) (plug C (Nd a es' ts'))
      \<or> (\<exists>l r. rv = Some a \<and> length es' = FT_SPLITLIMIT \<and> pushed h2 (Suc k) C (Some a) (es' ! 2)
          (Nd l (take 2 es') (take 3 ts')) (Nd r (drop 3 es') (drop 3 ts')))"
    using insert_step [OF P] wf unfolding es'_def ts'_def by fastforce
  have pos: "int (length C) = f \<Longrightarrow> 0 < snd (path ! length C)" using f(2) path by simp
  from alt show ?thesis
  proof
    assume "rv = None \<and> length es' < FT_SPLITLIMIT \<and> owns h2 (Suc k + length C) (plug C (Nd a es' ts'))"
    then show ?thesis
      using ft_ascend_stop(3) [OF path(1) _ ins(2) path(2) f(1) pos, where log = log] ins(1) f(3) by auto
  next
    assume "\<exists>l r. rv = Some a \<and> length es' = FT_SPLITLIMIT \<and> pushed h2 (Suc k) C (Some a) (es' ! 2)
          (Nd l (take 2 es') (take 3 ts')) (Nd r (drop 3 es') (drop 3 ts'))"
    then obtain l r where rv: "rv = Some a" and full: "length es' = FT_SPLITLIMIT"
      and P': "pushed h2 (Suc k) C (Some a) (es' ! 2) (Nd l (take 2 es') (take 3 ts')) (Nd r (drop 3 es') (drop 3 ts'))"
      by blast
    have "ft_ascend log True f (Suc (length C)) h path q e (tptr L) (tptr R)
        = ft_ascend log True f (length C) h2 (path[length C := (if m \<le> 2 then (l, m) else (r, m - 3))])
            (Some a) (es' ! 2) (Some l) (Some r)"
      using ft_ascend_continue(2) [OF path(1) ins(1) [unfolded rv] ins(2) P' path(2) pos, where log = log] f(3)
      by (simp add: FT_ORDER_def Let_def)
    with full P' show ?thesis by blast
  qed
qed

text \<open>The result of an ascent that keeps the marker: the tree is complete, or its root was split.\<close>

definition marked_done ::
  "nat \<Rightarrow> nat \<Rightarrow> ftree \<Rightarrow> (ftree \<Rightarrow> byte_index_t \<Rightarrow> int option) \<Rightarrow> (heap \<times> ft_path \<times> bool \<times> nat option) res \<Rightarrow> nat option \<Rightarrow> bool" where
  "marked_done K n M look res p \<longleftrightarrow> (\<exists>h' path' J. res = Inr (h', path', False, None)
     \<and> owns h' K (plug J M) \<and> cwf J \<and> cfit UNIV J \<and> take n path' = cpath J \<and> length J = n \<and> tptr (plug J M) = p
     \<and> (\<forall>T x. tlook (plug J T) x = look T x))"

definition marked_split ::
  "nat \<Rightarrow> nat \<Rightarrow> nat \<Rightarrow> ftree \<Rightarrow> (ftree \<Rightarrow> byte_index_t \<Rightarrow> int option) \<Rightarrow> (heap \<times> ft_path \<times> bool \<times> nat option) res \<Rightarrow> bool" where
  "marked_split K n m M look res \<longleftrightarrow> (\<exists>h' path' a e s J X. res = Inr (h', path', True, Some a)
     \<and> pushed h' K [] (Some a) e (mleft s J X M) (mright s J X M) \<and> ent_ok e \<and> cwf J \<and> twf X \<and> J \<noteq> []
     \<and> cfit (side s e) J \<and> take n path' = cpath J \<and> length J = n \<and> length path' = m
     \<and> (\<forall>T x. tlook (Nd 0 [e] [mleft s J X T, mright s J X T]) x = look T x))"

lemma adj_index_mark:
  assumes P: "pushed h k C q e (mleft s J X M) (mright s J X M)" and J: "J \<noteq> []"
    and path: "take (Suc n + length J) path = ps @ (a, i) # cpath J" "length ps = n"
    and f: "int n < f"
  shows "adj_index f path n (tptr (mright s J X M)) = (if s then i else Suc i)"
proof -
  have "take (Suc n + length J) path ! n = (a, i)" "take (Suc n + length J) path ! Suc n = hd (cpath J)"
    unfolding path using path(2) J by (auto simp: nth_append hd_conv_nth)
  then have nth: "path ! n = (a, i)" "path ! Suc n = hd (cpath J)" using J by auto
  have hd: "tptr (plug J M) = Some (fst (hd (cpath J)))" using tptr_plug_hd [OF J] .
  have "tptr X \<noteq> Some (fst (hd (cpath J)))" if s
  proof
    assume "tptr X = Some (fst (hd (cpath J)))"
    then have "fst (hd (cpath J)) \<in> set (addrs X) \<inter> set (addrs (plug J M))"
      using tptr_in_addrs hd by blast
    with P that show False by (auto simp: pushed_def mleft_def mright_def)
  qed
  with nth hd f show ?thesis by (auto simp: adj_index_def mright_def)
qed

text \<open>A region beside the new entry lies in the gap beside it.\<close>

lemma side_gap:
  assumes "in_gap es i x" "i \<le> length es" "x \<in> side s e"
  shows "in_gap (ins_at i e es) (if s then i else Suc i) x"
proof -
  have nth: "ins_at i e es ! j = (if j < i then es ! j else if j = i then e else es ! (j - 1))" for j
    using assms(2) by (auto simp: ins_at_def nth_append nth_Cons')
  have lo: "right (irange (es ! j)) < x" if "j < i" for j using assms(1) that by (simp add: in_gap_def)
  have hi: "x < left (irange (es ! (j - 1)))" if "i < j" "j < Suc (length es)" for j
    using assms(1) that by (cases j) (auto simp: in_gap_def)
  show ?thesis
    unfolding in_gap_def nth using assms(2,3) lo hi by (auto simp: side_def less_Suc_eq split: if_splits)
qed

text \<open>
  From one marked level to the next: the node that now holds the marker, or its half above it.
\<close>

lemma mark_next:
  assumes wf: "cwf ((a, es, ls M, rs M) # C)" "ent_ok e" "iv_set (irange e) \<subseteq> chole ((a, es, ls M, rs M) # C)"
      "cfit UNIV ((a, es, ls M, rs M) # C)"
    and eq: "\<And>T. ls T @ L T # R T # rs T = us @ plug J T # vs" and ll: "\<And>T. length (ls T) = i" and tw: "twf (L M)" "twf (R M)"
    and J: "cwf J" "cfit (chole C \<inter> {x. in_gap (ins_at i e es) (length us) x}) J"
    and sz: "length us + length vs = length es + 1"
  defines "es' \<equiv> ins_at i e es"
  shows "length es' < FT_SPLITLIMIT \<Longrightarrow> cwf ((J @ [(a, es', us, vs)]) @ C) \<and> cfit UNIV ((J @ [(a, es', us, vs)]) @ C)
      \<and> (\<forall>T x. tlook (plug ((J @ [(a, es', us, vs)]) @ C) T) x
           = tlook (plug ((a, es, ls T, rs T) # C) (Nd 0 [e] [L T, R T])) x)"
    and "length es' = FT_SPLITLIMIT \<Longrightarrow> cwf (J @ [mframe l r es' us vs]) \<and> twf (mother l r es' us vs)
      \<and> ent_ok (es' ! 2) \<and> iv_set (irange (es' ! 2)) \<subseteq> chole C
      \<and> cfit (chole C \<inter> side (length us \<le> 2) (es' ! 2)) (J @ [mframe l r es' us vs])
      \<and> (\<forall>T x. tlook (plug C (Nd 0 [es' ! 2]
              [mleft (length us \<le> 2) (J @ [mframe l r es' us vs]) (mother l r es' us vs) T,
               mright (length us \<le> 2) (J @ [mframe l r es' us vs]) (mother l r es' us vs) T])) x
           = tlook (plug ((a, es, ls T, rs T) # C) (Nd 0 [e] [L T, R T])) x)"
proof -
  have gap: "iv_set (irange e) \<subseteq> {x. in_gap es (length (ls M)) x}" using wf(3) by auto
  note lev = level [OF wf(1,2) gap tw, unfolded ll, folded es'_def]
  have mem: "set us \<union> set vs \<subseteq> set (ls M @ L M # R M # rs M)" unfolding eq by auto
  have wfs: "\<forall>t \<in> set us \<union> set vs. twf t" using lev(3) mem by blast
  have fit: "\<forall>d \<in> set es'. iv_set (irange d) \<subseteq> chole C" using wf(3,4) by (auto simp: es'_def)
  have look: "tlook (Nd b es' (us @ plug J T # vs)) x = tlook (Nd b es (ls T @ Nd 0 [e] [L T, R T] # rs T)) x" for b T x
    unfolding eq [symmetric] es'_def ll [of T, symmetric]
    by (rule tlook_insert) (use wf(1,2) gap ll [of M] ll [of T] in auto)
  have cC: "cwf C" using wf(1) by simp
  have plook: "tlook (plug C (Nd a es' (us @ plug J T # vs))) x = tlook (plug C (Nd a es (ls T @ Nd 0 [e] [L T, R T] # rs T))) x" for T x
    by (rule tlook_plug_cong [OF cC look])
  show "cwf ((J @ [(a, es', us, vs)]) @ C) \<and> cfit UNIV ((J @ [(a, es', us, vs)]) @ C)
      \<and> (\<forall>T x. tlook (plug ((J @ [(a, es', us, vs)]) @ C) T) x
           = tlook (plug ((a, es, ls T, rs T) # C) (Nd 0 [e] [L T, R T])) x)"
    if "length es' < FT_SPLITLIMIT"
  proof (intro conjI allI)
    show "cwf ((J @ [(a, es', us, vs)]) @ C)" using wf(1) J(1) that wfs sz lev(1,4) by auto
    show "cfit UNIV ((J @ [(a, es', us, vs)]) @ C)"
      using wf(4) fit J(2) by (simp add: cfit_append es'_def Int_commute)
    show "tlook (plug ((J @ [(a, es', us, vs)]) @ C) T) x
           = tlook (plug ((a, es, ls T, rs T) # C) (Nd 0 [e] [L T, R T])) x" for T x
      using plook by simp
  qed
  assume full: "length es' = FT_SPLITLIMIT"
  then have n: "length us + length vs = 5" using sz lev(4) by (simp add: FT_SPLITLIMIT_def FT_ORDER_def)
  show "cwf (J @ [mframe l r es' us vs]) \<and> twf (mother l r es' us vs)
      \<and> ent_ok (es' ! 2) \<and> iv_set (irange (es' ! 2)) \<subseteq> chole C
      \<and> cfit (chole C \<inter> side (length us \<le> 2) (es' ! 2)) (J @ [mframe l r es' us vs])
      \<and> (\<forall>T x. tlook (plug C (Nd 0 [es' ! 2]
              [mleft (length us \<le> 2) (J @ [mframe l r es' us vs]) (mother l r es' us vs) T,
               mright (length us \<le> 2) (J @ [mframe l r es' us vs]) (mother l r es' us vs) T])) x
           = tlook (plug ((a, es, ls T, rs T) # C) (Nd 0 [e] [L T, R T])) x)"
  proof (intro conjI allI)
    show "cwf (J @ [mframe l r es' us vs])" "twf (mother l r es' us vs)"
      using mark_split_wf [OF n full lev(1) J(1) wfs] .
    show "ent_ok (es' ! 2)" "iv_set (irange (es' ! 2)) \<subseteq> chole C"
      using lev(8)[OF full] fit by (auto simp: es'_def)
    show "cfit (chole C \<inter> side (length us \<le> 2) (es' ! 2)) (J @ [mframe l r es' us vs])"
      by (rule mark_split_fit [OF n full lev(1) fit J(2) [folded es'_def]])
    fix T x
    have "tlook (Nd 0 [es' ! 2] [Nd l (take 2 es') (take 3 (us @ plug J T # vs)),
        Nd r (drop 3 es') (drop 3 (us @ plug J T # vs))]) y = tlook (Nd a es' (us @ plug J T # vs)) y" for y
      by (rule tlook_split [OF lev(1) full]) (use n full in \<open>simp add: FT_SPLITLIMIT_def FT_ORDER_def\<close>)
    then show "tlook (plug C (Nd 0 [es' ! 2]
              [mleft (length us \<le> 2) (J @ [mframe l r es' us vs]) (mother l r es' us vs) T,
               mright (length us \<le> 2) (J @ [mframe l r es' us vs]) (mother l r es' us vs) T])) x
           = tlook (plug ((a, es, ls T, rs T) # C) (Nd 0 [e] [L T, R T])) x"
      unfolding mark_split [OF n, where l = l and r = r] plug.simps plook [symmetric]
      using cC by (intro tlook_plug_cong) auto
  qed
qed

lemma ascend_marked:
  assumes "pushed h k C q e (mleft s J X M) (mright s J X M)" "q \<noteq> None" "J \<noteq> []"
    "cwf (J @ C)" "twf X" "twf M" "cfit UNIV C" "cfit (chole C \<inter> side s e) J"
    "ent_ok e" "iv_set (irange e) \<subseteq> chole C"
    "take (length C + length J) path = cpath (J @ C)" "f = int (length C + length J) - 1"
  defines "n \<equiv> length C + length J"
  shows "marked_done (k + length C) n M (\<lambda>T. tlook (plug C (Nd 0 [e] [mleft s J X T, mright s J X T])))
       (ft_ascend log True f (length C) h path q e (tptr (mleft s J X M)) (tptr (mright s J X M)))
       (tptr (plug C (Nd 0 [] [])))
    \<or> marked_split (k + length C) n (length path) M (\<lambda>T. tlook (plug C (Nd 0 [e] [mleft s J X T, mright s J X T])))
       (ft_ascend log True f (length C) h path q e (tptr (mleft s J X M)) (tptr (mright s J X M)))"
  using assms(1-12) unfolding n_def
proof (induction C arbitrary: h k q e s J X path)
  case Nil
  then obtain a where "q = Some a" by blast
  with Nil have "marked_split (k + length []) (length [] + length J) (length path) M
      (\<lambda>T. tlook (plug [] (Nd 0 [e] [mleft s J X T, mright s J X T])))
      (ft_ascend log True f (length []) h path q e (tptr (mleft s J X M)) (tptr (mright s J X M)))"
    unfolding marked_split_def
    by (intro exI[of _ h] exI[of _ path] exI[of _ a] exI[of _ e] exI[of _ s] exI[of _ J] exI[of _ X]) simp
  then show ?case ..
next
  case (Cons F C)
  obtain a es ls rs where F: "F = (a, es, ls, rs)" by (cases F)
  let ?L = "mleft s J X" and ?R = "mright s J X" and ?i = "length ls"
  define us where "us = (if s then ls else ls @ [X])"
  define vs where "vs = (if s then X # rs else rs)"
  define es' where "es' = ins_at ?i e es"
  have eq: "ls @ ?L T # ?R T # rs = us @ plug J T # vs" for T
    by (simp add: mleft_def mright_def us_def vs_def)
  have wfF: "cwf ((a, es, ls, rs) # C)" "cwf J" using Cons.prems(4) F by auto
  have gap: "iv_set (irange e) \<subseteq> {x. in_gap es ?i x}" using Cons.prems(10) F by auto
  have path: "take (Suc (length C) + length J) path = cpath C @ (a, ?i) # cpath J"
    using Cons.prems(11) F by simp
  then have "length (take (Suc (length C) + length J) path) = Suc (length C) + length J" by simp
  then have lt: "length C < length path" by simp
  have nth: "path ! length C = (a, ?i)"
    using arg_cong [OF path, of "\<lambda>p. p ! length C"] by simp
  have m: "adj_index f path (length C) (tptr (?R M)) = length us"
    using adj_index_mark [OF Cons.prems(1,3) path, of f] Cons.prems(3,12) F
    by (cases J) (auto simp: us_def)
  have f: "int (length C) \<le> f" "int (length C) \<noteq> f" using Cons.prems(3,12) by (cases J; simp)+
  have fitJ: "cfit (chole C \<inter> {x. in_gap (ins_at ?i e es) (length us) x}) J"
    by (rule cfit_mono [OF Cons.prems(8)]) (use F wfF side_gap [of es ?i _ s e] in \<open>auto simp: us_def\<close>)
  have tw: "twf (?L M)" "twf (?R M)"
    using wfF Cons.prems(5,6) by (auto simp: mleft_def mright_def)
  have sz: "length us + length vs = length es + 1" using wfF(1) by (auto simp: us_def vs_def)
  note nxt = mark_next [where ls = "\<lambda>_. ls" and rs = "\<lambda>_. rs" and L = ?L and R = ?R,
      OF wfF(1) Cons.prems(9) _ _ eq refl tw wfF(2) fitJ sz, folded es'_def]
  have lv: "(\<exists>h'. ft_ascend log True f (Suc (length C)) h path q e (tptr (?L M)) (tptr (?R M))
        = Inr (h', path[length C := (a, length us)], False, None)
      \<and> length es' < FT_SPLITLIMIT \<and> owns h' (Suc k + length C) (plug C (Nd a es' (ls @ ?L M # ?R M # rs))))
    \<or> (\<exists>h' l r. ft_ascend log True f (Suc (length C)) h path q e (tptr (?L M)) (tptr (?R M))
        = ft_ascend log True f (length C) h' (path[length C := (if length us \<le> 2 then (l, length us) else (r, length us - 3))])
            (Some a) (es' ! 2) (Some l) (Some r)
      \<and> length es' = FT_SPLITLIMIT \<and> pushed h' (Suc k) C (Some a) (es' ! 2)
          (Nd l (take 2 es') (take 3 (ls @ ?L M # ?R M # rs))) (Nd r (drop 3 es') (drop 3 (ls @ ?L M # ?R M # rs))))"
    unfolding es'_def
    by (rule mark_level [OF Cons.prems(1) [unfolded F] wfF(1) Cons.prems(9) gap nth lt f(1) _ m]) (use f in simp)
  from lv show ?case
  proof
    assume "\<exists>h'. ft_ascend log True f (Suc (length C)) h path q e (tptr (?L M)) (tptr (?R M))
        = Inr (h', path[length C := (a, length us)], False, None)
      \<and> length es' < FT_SPLITLIMIT \<and> owns h' (Suc k + length C) (plug C (Nd a es' (ls @ ?L M # ?R M # rs)))"
    then obtain h' where A: "ft_ascend log True f (Suc (length C)) h path q e (tptr (?L M)) (tptr (?R M))
        = Inr (h', path[length C := (a, length us)], False, None)" "length es' < FT_SPLITLIMIT"
        "owns h' (Suc k + length C) (plug C (Nd a es' (us @ plug J M # vs)))" unfolding eq by blast
    let ?J = "(J @ [(a, es', us, vs)]) @ C"
    have "take (Suc (length C) + length J) (path[length C := (a, length us)]) = cpath C @ (a, length us) # cpath J"
      by (rule path_update [OF path _ lt]) simp
    moreover have "tptr (plug ?J M) = tptr (plug (F # C) (Nd 0 [] []))"
      unfolding F by (auto intro: tptr_plug)
    ultimately have "marked_done (k + length (F # C)) (length (F # C) + length J) M
        (\<lambda>T. tlook (plug (F # C) (Nd 0 [e] [?L T, ?R T])))
        (ft_ascend log True f (length (F # C)) h path q e (tptr (?L M)) (tptr (?R M)))
        (tptr (plug (F # C) (Nd 0 [] [])))"
      unfolding marked_done_def using A nxt(1) [OF _ _ A(2)] Cons.prems(7,10) F
      by (intro exI[of _ h'] exI[of _ "path[length C := (a, length us)]"] exI[of _ ?J]) simp
    then show ?case ..
  next
    assume "\<exists>h' l r. ft_ascend log True f (Suc (length C)) h path q e (tptr (?L M)) (tptr (?R M))
        = ft_ascend log True f (length C) h' (path[length C := (if length us \<le> 2 then (l, length us) else (r, length us - 3))])
            (Some a) (es' ! 2) (Some l) (Some r)
      \<and> length es' = FT_SPLITLIMIT \<and> pushed h' (Suc k) C (Some a) (es' ! 2)
          (Nd l (take 2 es') (take 3 (ls @ ?L M # ?R M # rs))) (Nd r (drop 3 es') (drop 3 (ls @ ?L M # ?R M # rs)))"
    then obtain h' l r where A: "ft_ascend log True f (Suc (length C)) h path q e (tptr (?L M)) (tptr (?R M))
        = ft_ascend log True f (length C) h' (path[length C := (if length us \<le> 2 then (l, length us) else (r, length us - 3))])
            (Some a) (es' ! 2) (Some l) (Some r)" and full: "length es' = FT_SPLITLIMIT"
      and P: "pushed h' (Suc k) C (Some a) (es' ! 2)
          (Nd l (take 2 es') (take 3 (us @ plug J M # vs))) (Nd r (drop 3 es') (drop 3 (us @ plug J M # vs)))"
      unfolding eq by blast
    have "length es' = Suc (length es)" using wfF(1) by (simp add: es'_def)
    then have n: "length us + length vs = 5" using full sz by (simp add: FT_SPLITLIMIT_def FT_ORDER_def)
    let ?s = "length us \<le> 2" and ?J = "J @ [mframe l r es' us vs]" and ?X = "mother l r es' us vs"
    let ?path = "path[length C := (if length us \<le> 2 then (l, length us) else (r, length us - 3))]"
    have P': "pushed h' (Suc k) C (Some a) (es' ! 2) (mleft ?s ?J ?X M) (mright ?s ?J ?X M)"
      using P unfolding mark_split [OF n, where l = l and r = r] .
    have ptr: "tptr (mleft ?s ?J ?X M) = Some l" "tptr (mright ?s ?J ?X M) = Some r"
      unfolding mark_split [OF n, where l = l and r = r, symmetric] by simp_all
    have fr: "cpath (mframe l r es' us vs # C) = cpath C @ [if length us \<le> 2 then (l, length us) else (r, length us - 3)]"
      by (auto simp: mframe_def)
    have path1: "take (length C + length ?J) ?path = cpath (?J @ C)"
      using path_update [OF path _ lt] by (simp add: fr)
    note N = nxt(2) [OF _ _ full, where l = l and r = r]
    have fF: "iv_set (irange e) \<subseteq> chole ((a, es, ls, rs) # C)" "cfit UNIV ((a, es, ls, rs) # C)"
      using Cons.prems(7,10) F by auto
    have cJ: "cwf (?J @ C)" unfolding cwf_append [of ?J C] using N [OF fF] wfF(1) by auto
    have IH: "marked_done (Suc k + length C) (length C + length ?J) M
         (\<lambda>T. tlook (plug C (Nd 0 [es' ! 2] [mleft ?s ?J ?X T, mright ?s ?J ?X T])))
         (ft_ascend log True f (length C) h' ?path (Some a) (es' ! 2) (tptr (mleft ?s ?J ?X M)) (tptr (mright ?s ?J ?X M)))
         (tptr (plug C (Nd 0 [] [])))
      \<or> marked_split (Suc k + length C) (length C + length ?J) (length ?path) M
         (\<lambda>T. tlook (plug C (Nd 0 [es' ! 2] [mleft ?s ?J ?X T, mright ?s ?J ?X T])))
         (ft_ascend log True f (length C) h' ?path (Some a) (es' ! 2) (tptr (mleft ?s ?J ?X M)) (tptr (mright ?s ?J ?X M)))"
      by (rule Cons.IH [OF P' _ _ cJ _ Cons.prems(6) _ _ _ _ path1])
        (use N [OF fF] wfF fF Cons.prems(12) in auto)
    have look: "(\<lambda>T. tlook (plug C (Nd 0 [es' ! 2] [mleft ?s ?J ?X T, mright ?s ?J ?X T])))
        = (\<lambda>T. tlook (plug (F # C) (Nd 0 [e] [?L T, ?R T])))"
      using N [OF fF] unfolding F by (auto simp: fun_eq_iff simp del: tlook.simps)
    have root: "C \<noteq> [] \<Longrightarrow> tptr (plug C (Nd 0 [] [])) = tptr (plug (F # C) (Nd 0 [] []))"
      unfolding F plug.simps by (rule tptr_plug_ne)
    show ?case
    proof (cases "C = []")
      case True
      then have "\<not> marked_done K m M lk (ft_ascend log True f (length C) h' ?path (Some a) (es' ! 2) u v) p" for K m lk p u v
        by (simp add: marked_done_def)
      with IH show ?thesis unfolding look ptr using A by (simp del: plug.simps)
    next
      case False
      show ?thesis using IH unfolding look ptr root [OF False] using A by (simp del: plug.simps)
    qed
  qed
qed

end
