(* ===== verification/Fig_Descend.thy ===== *)
theory Fig_Descend
  imports Fig_Marker
begin

text \<open>
  The descent of \<open>_ft_insert\<close>: the invariant that relates the valid interval to the hole of the
  context, and where the descent ends.
\<close>

section \<open>Scanning a node\<close>

lemma ft_scan_spec:
  assumes "sorted_ents es" "i \<le> length es" "\<forall>j < i. right (irange (es ! j)) < left rng"
  shows "case ft_scan es rng i of
      Scan_Overlap m \<Rightarrow> m < length es \<and> i_overlaps (irange (es ! m)) rng \<and> (\<forall>j < m. right (irange (es ! j)) < left rng)
    | Scan_RightOf m \<Rightarrow> m < length es \<and> right rng < left (irange (es ! m)) \<and> (\<forall>j < m. right (irange (es ! j)) < left rng)
    | Scan_End \<Rightarrow> \<forall>j < length es. right (irange (es ! j)) < left rng"
  using assms
proof (induction es rng i rule: ft_scan.induct)
  case (1 es rng i)
  show ?case
  proof (cases "i < length es")
    case False
    then show ?thesis using 1(2-) by (subst ft_scan.simps) auto
  next
    case True
    have ok: "ent_ok (es ! i)" using sorted_ents_ok 1(2) True .
    consider "i_overlaps (irange (es ! i)) rng" | "\<not> i_overlaps (irange (es ! i)) rng" "i_rightOf_int (irange (es ! i)) rng"
      | "\<not> i_overlaps (irange (es ! i)) rng" "\<not> i_rightOf_int (irange (es ! i)) rng" by blast
    then show ?thesis
    proof cases
      case 3
      then have "right (irange (es ! i)) < left rng"
        using ok by (auto simp: i_overlaps_def i_rightOf_int_def i_rightOf_val_def ent_ok_def)
      then have "\<forall>j < i + 1. right (irange (es ! j)) < left rng" using 1(4) by (auto simp: less_Suc_eq)
      with 1(1) [OF True 3] 1(2) True 3 show ?thesis by (subst ft_scan.simps) auto
    qed (use True 1(4) ok in \<open>subst ft_scan.simps, auto simp: i_rightOf_int_def i_rightOf_val_def ent_ok_def\<close>)+
  qed
qed

lemma gap_interval:
  assumes s: "sorted_ents es" and i: "i \<le> length es" and pos: "i < length es \<Longrightarrow> 0 < left (irange (es ! i))"
  shows "{x. in_gap es i x} =
    {(if i = 0 then BYTE_INDEX_MIN else right (irange (es ! (i - 1))) + 1) ..
     (if i = length es then BYTE_INDEX_MAX else left (irange (es ! i)) - 1)}" (is "_ = {?lo .. ?hi}")
proof (intro set_eqI iffI)
  have up: "x < left (irange (es ! j))" if "x < left (irange (es ! i))" "i \<le> j" "j < length es" for x j
    using sorted_ents_left_mono [OF s that(2,3)] that(1) by simp
  have down: "right (irange (es ! j)) < x" if "right (irange (es ! (i - 1))) < x" "j < i" for x j
    using sorted_ents_right_mono [OF s, of j "i - 1"] that i by (cases i) auto
  have mx: "right (irange (es ! (i - 1))) < BYTE_INDEX_MAX" if "0 < i"
    using sorted_ents_ok [OF s, of "i - 1"] that i by (simp add: ent_ok_def)
  have lo: "?lo \<le> x \<longleftrightarrow> i = 0 \<or> right (irange (es ! (i - 1))) < x" for x
    using word_succ_le [OF mx] by auto
  have hi: "x \<le> ?hi \<longleftrightarrow> i = length es \<or> x < left (irange (es ! i))" for x
    using word_le_pred [OF pos] i by auto
  show "x \<in> {?lo .. ?hi}" if "x \<in> {x. in_gap es i x}" for x
  proof -
    have "i = 0 \<or> right (irange (es ! (i - 1))) < x" using that by (cases i) (auto simp: in_gap_def)
    moreover have "i = length es \<or> x < left (irange (es ! i))" using that i by (auto simp: in_gap_def)
    ultimately show ?thesis unfolding atLeastAtMost_iff lo hi by blast
  qed
  show "x \<in> {x. in_gap es i x}" if "x \<in> {?lo .. ?hi}" for x
    using that i up down by (auto simp: lo hi in_gap_def)
qed

lemma rng_in_gap:
  assumes "sorted_ents es" "m \<le> length es" "\<forall>j < m. right (irange (es ! j)) < left rng"
    "m < length es \<Longrightarrow> right rng < left (irange (es ! m))"
  shows "iv_set rng \<subseteq> {x. in_gap es m x}"
  using assms sorted_ents_left_mono [OF assms(1), of m]
  by (fastforce simp: in_gap_def iv_set_def)

section \<open>The invariant of the descent\<close>

definition descending :: "heap \<Rightarrow> nat \<Rightarrow> fframe list \<Rightarrow> ftree \<Rightarrow> interval \<Rightarrow> interval \<Rightarrow> bool" where
  "descending h k C t V rng \<longleftrightarrow> owns h (k + length C) (plug C t) \<and> cwf C \<and> twf t \<and> cfit UNIV C
     \<and> iv_ok V \<and> iv_set rng \<subseteq> chole C \<and> (iv_set V \<subseteq> chole C \<or> chain t)
     \<and> chole C \<subseteq> iv_set V \<union> iv_set rng"

lemma descend_prune:
  assumes D: "descending h (Suc k) C (Nd a es ts) V rng"
  obtains h' es' ts' where "ftn_pruneTo h a V = Inr h'" "descending h' (Suc k) C (Nd a es' ts') V rng"
    "\<forall>e \<in> set es'. iv_set (irange e) \<subseteq> iv_set V \<inter> chole C"
    "\<And>x. x \<in> chole C \<Longrightarrow> x \<notin> iv_set rng \<Longrightarrow> tlook (Nd a es' ts') x = tlook (Nd a es ts) x"
    "es' \<noteq> [] \<and> left (irange (es' ! 0)) = left V \<longrightarrow> chain (ts' ! 0)"
    "chain (Nd a es ts) \<longrightarrow> chain (Nd a es' ts')"
proof -
  have own: "owns h (Suc k + length C) (plug C (Nd a es ts))" using D unfolding descending_def by blast
  then have own1: "owns h (Suc k) (Nd a es ts)" unfolding owns_plug by blast
  have wf: "twf (Nd a es ts)" "iv_ok V" using D unfolding descending_def by blast+
  obtain h' es' ts' where P: "ftn_pruneTo h a V = Inr h'" "owns h' (Suc k) (Nd a es' ts')"
    "evolves h (Nd a es ts) h' (Nd a es' ts')" "twf (Nd a es' ts')"
    "\<forall>e \<in> set es'. iv_set (irange e) \<subseteq> iv_set V"
    "\<forall>x \<in> iv_set V. tlook (Nd a es' ts') x = tlook (Nd a es ts) x"
    "es' \<noteq> [] \<and> left (irange (es' ! 0)) = left V \<longrightarrow> chain (ts' ! 0)"
    "chain (Nd a es ts) \<longrightarrow> chain (Nd a es' ts')"
    using ftn_pruneTo_spec [OF own1 wf] by blast
  have "owns h' (Suc k + length C) (plug C (Nd a es' ts'))"
    by (rule plug_evolves [OF own P(2,3)]) simp
  then have D': "descending h' (Suc k) C (Nd a es' ts') V rng"
    using D P(4,8) by (auto simp: descending_def)
  have "\<forall>e \<in> set es'. iv_set (irange e) \<subseteq> iv_set V \<inter> chole C"
  proof (cases "iv_set V \<subseteq> chole C")
    case True
    with P(5) show ?thesis by blast
  next
    case False
    then have "chain (Nd a es' ts')" using D P(8) unfolding descending_def by blast
    then show ?thesis by simp
  qed
  moreover have "tlook (Nd a es' ts') x = tlook (Nd a es ts) x" if "x \<in> chole C" "x \<notin> iv_set rng" for x
    using P(6) D that by (auto simp: descending_def)
  ultimately show thesis using that P(1,7,8) D' by blast
qed

lemma descend_child:
  assumes D: "descending h (Suc k) C (Nd a es ts) V rng" and i: "i \<le> length es"
    and es: "\<forall>e \<in> set es. iv_set (irange e) \<subseteq> chole C" and g: "iv_set rng \<subseteq> {x. in_gap es i x}"
    and V': "iv_ok V'" "iv_set V' = iv_set V \<inter> {x. in_gap es i x}"
  shows "descending h k ((a, es, take i ts, drop (Suc i) ts) # C) (ts ! i) V' rng"
    and "plug ((a, es, take i ts, drop (Suc i) ts) # C) (ts ! i) = plug C (Nd a es ts)"
    and "subtree_get log h a i = Inr (tptr (ts ! i), h)"
proof -
  have len: "length ts = length es + 1" using D by (simp add: descending_def)
  then have il: "i < length ts" using i by simp
  show pl: "plug ((a, es, take i ts, drop (Suc i) ts) # C) (ts ! i) = plug C (Nd a es ts)"
    using id_take_nth_drop [OF il] by simp
  have own1: "owns h (Suc k) (Nd a es ts)" using D unfolding descending_def owns_plug by blast
  from own1 obtain nd where nd: "mem h a = Some nd" "reps h k (subtrees nd) ts" "length (subtrees nd) = length ts"
    by (rule owns_node)
  then have "inmemory (subtrees nd ! i)" "st (subtrees nd ! i) = tptr (ts ! i)"
    using il rep_tptr by (auto simp: list_all2_conv_all_nth)
  then show "subtree_get log h a i = Inr (tptr (ts ! i), h)"
    using nd il by (simp add: subtree_get_def)
  have ltake: "length (take i ts) = i" using il by simp
  have wf: "cwf ((a, es, take i ts, drop (Suc i) ts) # C)" "twf (ts ! i)"
    using D len il by (auto simp: descending_def dest: in_set_takeD in_set_dropD)
  have ch: "chain (Nd a es ts) \<Longrightarrow> chain (ts ! i)" using il by auto
  show "descending h k ((a, es, take i ts, drop (Suc i) ts) # C) (ts ! i) V' rng"
    unfolding descending_def pl
    using D wf es g V' ch by (auto simp: descending_def ltake simp del: length_take)
qed

section \<open>Where the descent ends\<close>

text \<open>It reached a null pointer: the new range is in the gap that the path leads to.\<close>

definition descent_bottom ::
  "nat \<Rightarrow> fframe list \<Rightarrow> ftree \<Rightarrow> interval \<Rightarrow> (nat option \<times> heap \<times> ft_path \<times> insertcont) res \<Rightarrow> bool" where
  "descent_bottom k C t rng res \<longleftrightarrow> (\<exists>h' D. res = Inr (None, h', cpath (D @ C), zero_cont)
     \<and> owns h' (length (D @ C)) (plug (D @ C) Lf) \<and> length D = k \<and> cwf D \<and> cfit (chole C) D
     \<and> iv_set rng \<subseteq> chole (D @ C) \<and> tptr (plug D Lf) = tptr t
     \<and> (\<forall>x. x \<in> chole C \<longrightarrow> x \<notin> iv_set rng \<longrightarrow> tlook (plug D Lf) x = tlook t x))"

text \<open>It found an entry that overlaps the new range.\<close>

definition descent_overlap ::
  "gdp_log \<Rightarrow> nat \<Rightarrow> int \<Rightarrow> nat \<Rightarrow> fframe list \<Rightarrow> ftree \<Rightarrow> interval
    \<Rightarrow> (nat option \<times> heap \<times> ft_path \<times> insertcont) res \<Rightarrow> bool" where
  "descent_overlap log md val k C t rng res \<longleftrightarrow> (\<exists>h' D k' c es ts V i.
     res = bindR (ft_replace log md h' rng val c V (cpath (D @ C)) i) (\<lambda>(h, path, ic). Inr (Some c, h, path, ic))
     \<and> descending h' (Suc k') (D @ C) (Nd c es ts) V rng \<and> k = length D + Suc k'
     \<and> (\<forall>e \<in> set es. iv_set (irange e) \<subseteq> iv_set V \<inter> chole (D @ C))
     \<and> i < length es \<and> i_overlaps (irange (es ! i)) rng \<and> (\<forall>j < i. right (irange (es ! j)) < left rng)
     \<and> (left (irange (es ! 0)) = left V \<longrightarrow> chain (ts ! 0))
     \<and> tptr (plug D (Nd c es ts)) = tptr t
     \<and> (\<forall>x. x \<in> chole C \<longrightarrow> x \<notin> iv_set rng \<longrightarrow> tlook (plug D (Nd c es ts)) x = tlook t x))"

lemma descent_extend:
  assumes t: "t = Nd a es0 ts0" and il: "i < length ts" and len: "length ts = length es + 1" and s: "sorted_ents es"
    and wf: "cwf [(a, es, take i ts, drop (Suc i) ts)]"
    and es: "\<forall>e \<in> set es. iv_set (irange e) \<subseteq> chole C"
    and look: "\<And>x. x \<in> chole C \<Longrightarrow> x \<notin> iv_set rng \<Longrightarrow> tlook (Nd a es ts) x = tlook (Nd a es0 ts0) x"
  shows "descent_bottom k ((a, es, take i ts, drop (Suc i) ts) # C) (ts ! i) rng res \<Longrightarrow> descent_bottom (Suc k) C t rng res"
    and "descent_overlap log md val k ((a, es, take i ts, drop (Suc i) ts) # C) (ts ! i) rng res
      \<Longrightarrow> descent_overlap log md val (Suc k) C t rng res"
proof -
  let ?F = "(a, es, take i ts, drop (Suc i) ts)"
  have split: "take i ts @ ts ! i # drop (Suc i) ts = ts" using id_take_nth_drop [OF il] by simp
  have lk: "tlook (plug (D @ [?F]) u) x = tlook t x"
    if "\<And>x. x \<in> chole (?F # C) \<Longrightarrow> x \<notin> iv_set rng \<Longrightarrow> tlook (plug D u) x = tlook (ts ! i) x"
      "x \<in> chole C" "x \<notin> iv_set rng" for D u x
  proof -
    have "tlook (Nd a es (take i ts @ plug D u # drop (Suc i) ts)) x = tlook (Nd a es (take i ts @ ts ! i # drop (Suc i) ts)) x"
      by (rule tlook_frame(2)) (use s len il that in \<open>auto simp del: chole_append\<close>)
    then show ?thesis using look that(2,3) t split by simp
  qed
  have tp: "tptr (plug (D @ [?F]) u) = tptr t" for D u using t by simp
  have eq: "(D @ [?F]) @ C = D @ ?F # C" for D by simp
  show "descent_bottom (Suc k) C t rng res" if "descent_bottom k (?F # C) (ts ! i) rng res"
  proof -
    from that obtain h' D where D: "res = Inr (None, h', cpath (D @ ?F # C), zero_cont)"
    "owns h' (length (D @ ?F # C)) (plug (D @ ?F # C) Lf)" "length D = k" "cwf D" "cfit (chole (?F # C)) D"
    "iv_set rng \<subseteq> chole (D @ ?F # C)" "tptr (plug D Lf) = tptr (ts ! i)"
    "\<And>x. x \<in> chole (?F # C) \<Longrightarrow> x \<notin> iv_set rng \<Longrightarrow> tlook (plug D Lf) x = tlook (ts ! i) x"
    unfolding descent_bottom_def by blast
  have "cfit (chole C) (D @ [?F])" unfolding cfit_append using D(5) es by (simp add: Int_commute)
  moreover have "cwf (D @ [?F])" using D(4) wf by (simp only: cwf_append)
  ultimately show ?thesis
    unfolding descent_bottom_def
    using D(1,2,3,6) lk [OF D(8)] tp
    by (intro exI[of _ h'] exI[of _ "D @ [?F]"]) (simp only: eq, simp del: plug.simps plug_append)
  qed
  show "descent_overlap log md val (Suc k) C t rng res"
    if "descent_overlap log md val k (?F # C) (ts ! i) rng res"
  proof -
    from that obtain h' D k' c es' ts' V j where D:
      "res = bindR (ft_replace log md h' rng val c V (cpath (D @ ?F # C)) j) (\<lambda>(h, path, ic). Inr (Some c, h, path, ic))"
      "descending h' (Suc k') (D @ ?F # C) (Nd c es' ts') V rng" "k = length D + Suc k'"
      "\<forall>e \<in> set es'. iv_set (irange e) \<subseteq> iv_set V \<inter> chole (D @ ?F # C)"
      "j < length es' \<and> i_overlaps (irange (es' ! j)) rng \<and> (\<forall>m < j. right (irange (es' ! m)) < left rng)"
      "left (irange (es' ! 0)) = left V \<longrightarrow> chain (ts' ! 0)"
      "\<And>x. x \<in> chole (?F # C) \<Longrightarrow> x \<notin> iv_set rng \<Longrightarrow> tlook (plug D (Nd c es' ts')) x = tlook (ts ! i) x"
      unfolding descent_overlap_def by blast
    show ?thesis
      unfolding descent_overlap_def
      using D(1-6) lk [OF D(7)] tp [of D "Nd c es' ts'"]
      by (intro exI[of _ h'] exI[of _ "D @ [?F]"] exI[of _ k'] exI[of _ c] exI[of _ es'] exI[of _ ts']
          exI[of _ V] exI[of _ j]) (simp only: eq length_append list.size conj_assoc [symmetric] simp_thms, auto)
  qed
qed

lemma path_push_ok: "length path < md \<Longrightarrow> path_push md path c i = Inr (path @ [(c, i)])"
  by (simp add: path_push_def)

lemma restrict_gap:
  assumes "iv_ok V" "sorted_ents es" "i \<le> length es" "i < length es \<Longrightarrow> 0 < left (irange (es ! i))"
  obtains V' where "i_restrict_range V
      (if i = 0 then BYTE_INDEX_MIN else right (irange (es ! (i - 1))) + 1)
      (if i = length es then BYTE_INDEX_MAX else left (irange (es ! i)) - 1) True = Inr V'"
    "iv_ok V'" "iv_set V' = iv_set V \<inter> {x. in_gap es i x}"
proof -
  obtain V' where "i_restrict_range V
      (if i = 0 then BYTE_INDEX_MIN else right (irange (es ! (i - 1))) + 1)
      (if i = length es then BYTE_INDEX_MAX else left (irange (es ! i)) - 1) True = Inr V'" "iv_ok V'"
    "iv_set V' = iv_set V \<inter> {(if i = 0 then BYTE_INDEX_MIN else right (irange (es ! (i - 1))) + 1) ..
      (if i = length es then BYTE_INDEX_MAX else left (irange (es ! i)) - 1)}"
    using i_restrict_range_True [OF assms(1)] by blast
  then show thesis using that gap_interval assms(2-4) by simp
qed

lemma descend_step:
  assumes D: "descending h (Suc k) C (Nd a es ts) V rng" and i: "i \<le> length es"
    and es: "\<forall>e \<in> set es. iv_set (irange e) \<subseteq> chole C" and rng: "left rng \<le> right rng"
    and lo: "\<forall>j < i. right (irange (es ! j)) < left rng" and hi: "i < length es \<Longrightarrow> right rng < left (irange (es ! i))"
    and md: "length C < md"
  obtains V' where "bindR (path_push md (cpath C) a i) (\<lambda>path.
      bindR (subtree_get log h a i) (\<lambda>(next, h).
      bindR (i_restrict_range V
        (if i = 0 then BYTE_INDEX_MIN else right (irange (es ! (i - 1))) + 1)
        (if i = length es then BYTE_INDEX_MAX else left (irange (es ! i)) - 1) True) (\<lambda>valid.
      ft_descend n log md h rng val next valid path)))
    = ft_descend n log md h rng val (tptr (ts ! i)) V' (cpath ((a, es, take i ts, drop (Suc i) ts) # C))"
    "descending h k ((a, es, take i ts, drop (Suc i) ts) # C) (ts ! i) V' rng" "iv_set V' \<subseteq> iv_set V"
proof -
  have s: "sorted_ents es" "iv_ok V" "length ts = length es + 1" using D by (auto simp: descending_def)
  have "i < length es \<Longrightarrow> 0 < left (irange (es ! i))" using hi by (auto intro: le_less_trans)
  then obtain V' where V': "i_restrict_range V
      (if i = 0 then BYTE_INDEX_MIN else right (irange (es ! (i - 1))) + 1)
      (if i = length es then BYTE_INDEX_MAX else left (irange (es ! i)) - 1) True = Inr V'"
    "iv_ok V'" "iv_set V' = iv_set V \<inter> {x. in_gap es i x}"
    using restrict_gap [OF s(2,1) i] by blast
  note ch = descend_child [OF D i es rng_in_gap [OF s(1) i lo hi] V'(2,3)]
  have "min (length ts) i = i" using s(3) i by simp
  then show thesis
    using that [OF _ ch(1)] V' ch(3) [where log = log] md by (simp add: path_push_ok)
qed

lemma descend_spec:
  assumes "descending h k C t V rng" "left rng \<le> right rng" "k + length C \<le> md" "k < n"
  shows "descent_bottom k C t rng (ft_descend n log md h rng val (tptr t) V (cpath C))
    \<or> (iv_set V \<inter> iv_set rng \<noteq> {} \<and> \<not> chain t
       \<and> descent_overlap log md val k C t rng (ft_descend n log md h rng val (tptr t) V (cpath C)))"
  using assms
proof (induction k arbitrary: n h C t V)
  case 0
  then obtain n' where n: "n = Suc n'" by (cases n) auto
  have "owns h 0 t" using "0.prems"(1) unfolding descending_def owns_plug by blast
  then have t: "t = Lf" by (cases t) (auto simp: owns_def)
  with 0 n have "descent_bottom 0 C t rng (ft_descend n log md h rng val (tptr t) V (cpath C))"
    unfolding descent_bottom_def descending_def
    by (intro exI[of _ h] exI[of _ "[]"]) simp
  then show ?case ..
next
  case (Suc k)
  then obtain n' where n: "n = Suc n'" "k < n'" by (cases n) auto
  have "owns h (Suc k) t" using Suc.prems(1) unfolding descending_def owns_plug by blast
  then obtain a es0 ts0 where t: "t = Nd a es0 ts0" by (cases t) (auto simp: owns_def)
  obtain h1 es ts where P: "ftn_pruneTo h a V = Inr h1" "descending h1 (Suc k) C (Nd a es ts) V rng"
    "\<forall>e \<in> set es. iv_set (irange e) \<subseteq> iv_set V \<inter> chole C"
    "\<And>x. x \<in> chole C \<Longrightarrow> x \<notin> iv_set rng \<Longrightarrow> tlook (Nd a es ts) x = tlook (Nd a es0 ts0) x"
    "es \<noteq> [] \<and> left (irange (es ! 0)) = left V \<longrightarrow> chain (ts ! 0)"
    "chain (Nd a es0 ts0) \<longrightarrow> chain (Nd a es ts)"
    using descend_prune [OF Suc.prems(1) [unfolded t]] by blast
  have s: "sorted_ents es" "length ts = length es + 1" using P(2) by (auto simp: descending_def)
  have wf: "cwf [(a, es, take i ts, drop (Suc i) ts)]" if "i \<le> length es" for i
    using P(2) that by (auto simp: descending_def dest: in_set_takeD in_set_dropD)
  have esC: "\<forall>e \<in> set es. iv_set (irange e) \<subseteq> chole C" using P(3) by blast
  have "owns h1 (Suc k) (Nd a es ts)" using P(2) unfolding descending_def owns_plug by blast
  then obtain nd where nd: "mem h1 a = Some nd" "entries nd = es" by (rule owns_node)
  let ?res = "ft_descend n log md h rng val (tptr t) V (cpath C)"
  have rec: "descent_bottom (Suc k) C t rng ?res \<or> (iv_set V \<inter> iv_set rng \<noteq> {} \<and> \<not> chain t
       \<and> descent_overlap log md val (Suc k) C t rng ?res)"
    if i: "i \<le> length es" "\<forall>j < i. right (irange (es ! j)) < left rng"
      "i < length es \<Longrightarrow> right rng < left (irange (es ! i))"
    and res: "?res = bindR (path_push md (cpath C) a i) (\<lambda>path.
      bindR (subtree_get log h1 a i) (\<lambda>(next, h).
      bindR (i_restrict_range V
        (if i = 0 then BYTE_INDEX_MIN else right (irange (es ! (i - 1))) + 1)
        (if i = length es then BYTE_INDEX_MAX else left (irange (es ! i)) - 1) True) (\<lambda>valid.
      ft_descend n' log md h rng val next valid path)))" for i
  proof -
    let ?F = "(a, es, take i ts, drop (Suc i) ts)"
    have lt: "length C < md" using Suc.prems(3) by simp
    obtain V' where V': "?res = ft_descend n' log md h1 rng val (tptr (ts ! i)) V' (cpath (?F # C))"
      "descending h1 k (?F # C) (ts ! i) V' rng" "iv_set V' \<subseteq> iv_set V"
      unfolding res
      by (rule descend_step [OF P(2) i(1) esC Suc.prems(2) i(2) _ lt, where n = n' and log = log and val = val])
        (erule i(3), blast)
    have il: "i < length ts" using i(1) s(2) by simp
    have "chain t \<Longrightarrow> chain (ts ! i)" using P(6) t il by auto
    then show ?thesis
      using Suc.IH [OF V'(2) Suc.prems(2) _ n(2)] Suc.prems(3) V'(3)
        descent_extend [OF t il s(2) s(1) wf [OF i(1)] esC P(4)] unfolding V'(1)
      by fastforce
  qed
  note scan = ft_scan_spec [OF s(1), where i = 0 and rng = rng, simplified]
  have unf: "?res = (case ft_scan es rng 0 of
            Scan_Overlap i \<Rightarrow>
              bindR (ft_replace log md h1 rng val a V (cpath C) i) (\<lambda>(h, path, ic). Inr (Some a, h, path, ic))
          | Scan_RightOf i \<Rightarrow>
              bindR (path_push md (cpath C) a i) (\<lambda>path.
              bindR (subtree_get log h1 a i) (\<lambda>(next, h).
              bindR (i_restrict_range V
                       (if i = 0 then BYTE_INDEX_MIN else right (irange (es ! (i - 1))) + 1)
                       (left (irange (es ! i)) - 1) True) (\<lambda>valid.
              ft_descend n' log md h rng val next valid path)))
          | Scan_End \<Rightarrow>
              bindR (path_push md (cpath C) a (length es)) (\<lambda>path.
              bindR (subtree_get log h1 a (length es)) (\<lambda>(next, h).
              bindR (i_restrict_range V
                       (if length es = 0 then BYTE_INDEX_MIN
                        else right (irange (es ! (length es - 1))) + 1)
                       BYTE_INDEX_MAX True) (\<lambda>valid.
              ft_descend n' log md h rng val next valid path))))"
    unfolding n(1) t ft_descend.simps tptr.simps option.case P(1) bindR_simps get_node_Some [OF nd(1)] Let_def nd(2) ..
  show ?case
  proof (cases "ft_scan es rng 0")
    case (Scan_Overlap i)
    with scan have i: "i < length es" "i_overlaps (irange (es ! i)) rng" "\<forall>j < i. right (irange (es ! j)) < left rng"
      by auto
    have ok: "ent_ok (es ! i)" using sorted_ents_ok s(1) i(1) by blast
    let ?x = "max (left (irange (es ! i))) (left rng)"
    have "?x \<in> iv_set (irange (es ! i))" "?x \<in> iv_set rng"
      using i(2) ok Suc.prems(2) by (auto simp: iv_set_def i_overlaps_def ent_ok_def max_def)
    moreover have "iv_set (irange (es ! i)) \<subseteq> iv_set V" using P(3) i(1) nth_mem by blast
    ultimately have Vr: "iv_set V \<inter> iv_set rng \<noteq> {}" by blast
    have c0: "left (irange (es ! 0)) = left V \<longrightarrow> chain (ts ! 0)" using P(5) i(1) by auto
    have "\<not> chain t" using P(6) t i(1) by auto
    moreover have "descent_overlap log md val (Suc k) C t rng ?res"
      unfolding descent_overlap_def unf Scan_Overlap
      by (rule exI[of _ h1], rule exI[of _ "[]"], rule exI[of _ k], rule exI[of _ a], rule exI[of _ es],
          rule exI[of _ ts], rule exI[of _ V], rule exI[of _ i], intro conjI)
        (use P(2,3,4) c0 i t in \<open>simp_all del: tlook.simps, blast?\<close>)
    ultimately show ?thesis using Vr by blast
  next
    case (Scan_RightOf i)
    with scan have "i < length es" "right rng < left (irange (es ! i))" "\<forall>j < i. right (irange (es ! j)) < left rng"
      by auto
    then show ?thesis by (intro rec[of i]) (auto simp: unf Scan_RightOf)
  next
    case Scan_End
    with scan show ?thesis by (intro rec[of "length es"]) (auto simp: unf Scan_End)
  qed
qed

end
