(* ===== verification/Fig_Write.thy ===== *)
theory Fig_Write
  imports Fig_Descend
begin

text \<open>
  \<open>_ft_insert\<close> and \<open>ft_write\<close>: one pass of insertion for each of the new range, the right and the
  left remainder of the entries it cuts, and the lookups after all of them.
\<close>

declare ft_descend.simps [simp del]

section \<open>An insertion pass that reaches the bottom\<close>

lemma pushed_bottom:
  assumes "owns h (length C) (plug C Lf)"
  shows "pushed h 0 C None e Lf Lf"
  using assms owns_plug [of h 0 C Lf] by (auto simp: pushed_def owns_def)

text \<open>The two outcomes of an ascent through the frames \<open>D\<close> inside \<open>C\<close>.\<close>

definition ascent_stopped ::
  "nat \<Rightarrow> fframe list \<Rightarrow> fframe list \<Rightarrow> ftree \<Rightarrow> bool \<Rightarrow> int \<Rightarrow> ft_path \<Rightarrow> (heap \<times> ft_path \<times> bool \<times> nat option) res \<Rightarrow> bool" where
  "ascent_stopped K D C u rc f path res \<longleftrightarrow> (\<exists>h' path' t'. res = Inr (h', path', False, None)
      \<and> (if rc then take (length C) path' = dec_at (nat f) (take (length C) path) else path' = path)
      \<and> owns h' K (plug C t') \<and> twf t' \<and> D \<noteq> [] \<and> tptr t' = tptr (plug D Lf)
      \<and> (\<forall>x. tlook t' x = tlook (plug D u) x))"

definition ascent_goes ::
  "gdp_log \<Rightarrow> nat \<Rightarrow> fframe list \<Rightarrow> fframe list \<Rightarrow> nat option \<Rightarrow> ftree \<Rightarrow> bool \<Rightarrow> int \<Rightarrow> ft_path
    \<Rightarrow> (heap \<times> ft_path \<times> bool \<times> nat option) res \<Rightarrow> bool" where
  "ascent_goes log k D C q u rc f path res \<longleftrightarrow> (\<exists>h' path' q' e' L' R'.
      res = ft_ascend log rc f (length C) h' path' q' e' (tptr L') (tptr R')
      \<and> (rc \<or> path' = path) \<and> take (length C) path' = take (length C) path \<and> length path' = length path
      \<and> pushed h' k C q' e' L' R' \<and> ent_ok e' \<and> iv_set (irange e') \<subseteq> chole C \<and> twf L' \<and> twf R'
      \<and> (D \<noteq> [] \<or> q \<noteq> None \<longrightarrow> q' \<noteq> None)
      \<and> (\<forall>x. tlook (Nd 0 [e'] [L', R']) x = tlook (plug D u) x))"

lemmas ascend_outcome = ascend_frames [folded ascent_stopped_def ascent_goes_def]

definition new_ent :: "interval \<Rightarrow> int \<Rightarrow> ft_ent" where
  "new_ent rng val = \<lparr>irange = rng, fvalue = val\<rparr>"

definition rng_ok :: "interval \<Rightarrow> bool" where
  "rng_ok rng \<longleftrightarrow> nonempty rng \<and> left rng \<le> right rng \<and> right rng < BYTE_INDEX_MAX"

lemma new_ent_ok: "rng_ok rng \<Longrightarrow> ent_ok (new_ent rng val)"
  by (simp add: rng_ok_def ent_ok_def new_ent_def)

lemma tlook_new_ent:
  "tlook (Nd a [new_ent rng val] [Lf, Lf]) x = (if x \<in> iv_set rng then Some val else None)"
  by (auto simp: new_ent_def i_contains_val_iff)

text \<open>The lookups of a tree with the new entry at the bottom of a path.\<close>

lemma tlook_bottom:
  assumes "cshape C" "cshape D" "iv_set rng \<subseteq> chole (D @ C)"
    and look: "\<And>x. x \<in> chole C \<Longrightarrow> x \<notin> iv_set rng \<Longrightarrow> tlook (plug D Lf) x = tlook t x"
  shows "tlook (plug C (plug D (Nd a [new_ent rng val] [Lf, Lf]))) x
    = (if x \<in> iv_set rng then Some val else tlook (plug C t) x)"
proof (cases "x \<in> iv_set rng")
  case True
  then have "x \<in> chole C" "x \<in> chole D" using assms(3) by auto
  with True show ?thesis
    by (simp add: tlook_plug_in_shape [OF assms(1)] tlook_plug_in_shape [OF assms(2)] tlook_new_ent del: tlook.simps)
next
  case False
  have "tlook (plug D (Nd a [new_ent rng val] [Lf, Lf])) x = tlook (plug D Lf) x"
    by (rule tlook_plug_cong_shape [OF assms(2)]) (use False in \<open>simp add: tlook_new_ent del: tlook.simps(2)\<close>)
  then have "tlook (plug C (plug D (Nd a [new_ent rng val] [Lf, Lf]))) x = tlook (plug C t) x"
    by (intro tlook_plug_cong_shape [OF assms(1)]) (use False look in simp)
  with False show ?thesis by simp
qed

definition args :: "interval \<Rightarrow> int \<Rightarrow> nat option \<Rightarrow> interval \<Rightarrow> insertargs" where
  "args rng val at V = \<lparr>ia_range = rng, ia_value = val, ia_at = at, ia_valid = V\<rparr>"

lemma insert_plain:
  assumes D: "descending h k C t V rng" and rng: "rng_ok rng" and pos: "0 < k + length C"
    and bot: "descent_bottom k C t rng (ft_descend (md + 1) log md h rng val (tptr t) V (cpath C))"
    and root: "root tr = tptr (plug C t)"
  shows "\<exists>h' tr' path t' K. ft_insert log md h tr (args rng val (tptr t) V) (cpath C) False = Inr (h', tr', path, zero_cont)
    \<and> root tr' = tptr t' \<and> owns h' (Suc K) t' \<and> twf t'
    \<and> (\<forall>x. tlook t' x = (if x \<in> iv_set rng then Some val else tlook (plug C t) x))"
proof -
  from bot obtain h1 E where E: "ft_descend (md + 1) log md h rng val (tptr t) V (cpath C) = Inr (None, h1, cpath (E @ C), zero_cont)"
    "owns h1 (length (E @ C)) (plug (E @ C) Lf)" "length E = k" "cwf E" "cfit (chole C) E"
    "iv_set rng \<subseteq> chole (E @ C)" "tptr (plug E Lf) = tptr t"
    "\<And>x. x \<in> chole C \<Longrightarrow> x \<notin> iv_set rng \<Longrightarrow> tlook (plug E Lf) x = tlook t x"
    unfolding descent_bottom_def by blast
  let ?e = "new_ent rng val" and ?EC = "E @ C"
  have wfC: "cwf C" "cfit UNIV C" using D by (auto simp: descending_def)
  have fit: "cfit (chole []) ?EC" using E(5) wfC(2) by (simp add: cfit_append)
  have ne: "?EC \<noteq> []" using pos E(3) by auto
  have ins: "ft_insert log md h tr (args rng val (tptr t) V) (cpath C) False
      = bindR (ft_ascend log False (int (length C) - 1) (length ?EC) h1 (cpath ?EC) None ?e None None)
          (\<lambda>(h, path, np, q). Inr (h, if np then tr\<lparr>root := q\<rparr> else tr, path, zero_cont))"
  proof -
    have "ft_insert log md h tr (args rng val (tptr t) V) (cpath C) False
      = bindR (bindR (ft_ascend log False (int (length C) - 1) (length ?EC) h1 (cpath ?EC) None ?e None None)
          (\<lambda>(h, path, np, q). if \<not> np then Inr (h, tr, path, int (length C) - 1) else Inr (h, tr\<lparr>root := q\<rparr>, path, int (length C) - 1)))
          (\<lambda>(h, tr, path, f). Inr (h, tr, path, zero_cont))"
      unfolding ft_insert_def args_def Let_def
      by (simp only: insertargs.select_convs E(1) [unfolded args_def] bindR_simps prod.case length_cpath option.case
          new_ent_def if_False not_False_eq_True if_True)
    then show ?thesis by (auto simp: bindR_def split: sum.splits)
  qed
  have look: "tlook (plug ?EC (Nd 0 [?e] [Lf, Lf])) x = (if x \<in> iv_set rng then Some val else tlook (plug C t) x)" for x
    using tlook_bottom [OF cwf_cshape [OF wfC(1)] cwf_cshape [OF E(4)] E(6) E(8)] by simp
  have "ascent_stopped (0 + length ?EC + length ([] :: fframe list)) ?EC [] (Nd 0 [?e] [Lf, Lf]) False (int (length C) - 1) (cpath ?EC)
      (ft_ascend log False (int (length C) - 1) (length ?EC + length ([] :: fframe list)) h1 (cpath ?EC) None ?e (tptr Lf) (tptr Lf))
   \<or> ascent_goes log (0 + length ?EC) ?EC [] None (Nd 0 [?e] [Lf, Lf]) False (int (length C) - 1) (cpath ?EC)
      (ft_ascend log False (int (length C) - 1) (length ?EC + length ([] :: fframe list)) h1 (cpath ?EC) None ?e (tptr Lf) (tptr Lf))"
    by (rule ascend_outcome)
      (use pushed_bottom [OF E(2)] E wfC fit new_ent_ok [OF rng] in \<open>auto simp: new_ent_def\<close>)
  then have asc: "ascent_stopped (length ?EC) ?EC [] (Nd 0 [?e] [Lf, Lf]) False (int (length C) - 1) (cpath ?EC)
      (ft_ascend log False (int (length C) - 1) (length ?EC) h1 (cpath ?EC) None ?e None None)
   \<or> ascent_goes log (length ?EC) ?EC [] None (Nd 0 [?e] [Lf, Lf]) False (int (length C) - 1) (cpath ?EC)
      (ft_ascend log False (int (length C) - 1) (length ?EC) h1 (cpath ?EC) None ?e None None)"
    by (simp only: tptr.simps list.size add_0_right add_0_left)
  then show ?thesis
  proof
    assume "ascent_stopped (length ?EC) ?EC [] (Nd 0 [?e] [Lf, Lf]) False (int (length C) - 1) (cpath ?EC)
      (ft_ascend log False (int (length C) - 1) (length ?EC) h1 (cpath ?EC) None ?e None None)"
    then obtain h' t' where A: "ft_ascend log False (int (length C) - 1) (length ?EC) h1 (cpath ?EC) None ?e None None
        = Inr (h', cpath ?EC, False, None)" "owns h' (length ?EC) t'" "twf t'"
      "tptr t' = tptr (plug ?EC Lf)" "\<forall>x. tlook t' x = tlook (plug ?EC (Nd 0 [?e] [Lf, Lf])) x"
      unfolding ascent_stopped_def by auto
    have "root tr = tptr t'" unfolding root A(4) plug_append by (rule tptr_plug [OF E(7) [symmetric]])
    moreover have "length ?EC = Suc (length ?EC - 1)" using ne by (cases ?EC) auto
    moreover have "ft_insert log md h tr (args rng val (tptr t) V) (cpath C) False = Inr (h', tr, cpath ?EC, zero_cont)"
      using ins A(1) by simp
    ultimately show ?thesis using A(2,3,5) look by metis
  next
    assume "ascent_goes log (length ?EC) ?EC [] None (Nd 0 [?e] [Lf, Lf]) False (int (length C) - 1) (cpath ?EC)
      (ft_ascend log False (int (length C) - 1) (length ?EC) h1 (cpath ?EC) None ?e None None)"
    then obtain h' q' e' L' R' where A: "ft_ascend log False (int (length C) - 1) (length ?EC) h1 (cpath ?EC) None ?e None None
        = Inr (h', cpath ?EC, True, q')"
      "pushed h' (length ?EC) [] q' e' L' R'" "ent_ok e'" "twf L'" "twf R'" "q' \<noteq> None"
      "\<forall>x. tlook (Nd 0 [e'] [L', R']) x = tlook (plug ?EC (Nd 0 [?e] [Lf, Lf])) x"
      unfolding ascent_goes_def using ne by auto
    then obtain a where a: "q' = Some a" by auto
    let ?t = "Nd a [e'] [L', R']"
    have "owns h' (Suc (length ?EC)) ?t"
      using A(2) a by (auto simp: pushed_def owns_def)
    moreover have "twf ?t" using A(3-5) by (simp add: sorted_ents_def FT_SPLITLIMIT_def FT_ORDER_def)
    moreover have "tlook ?t x = (if x \<in> iv_set rng then Some val else tlook (plug C t) x)" for x
      using A(7) look by simp
    moreover have "ft_insert log md h tr (args rng val (tptr t) V) (cpath C) False
        = Inr (h', tr\<lparr>root := Some a\<rparr>, cpath ?EC, zero_cont)"
      using ins A(1) a by simp
    ultimately show ?thesis
      by (intro exI[of _ h'] exI[of _ "tr\<lparr>root := Some a\<rparr>"] exI[of _ "cpath ?EC"] exI[of _ ?t] exI[of _ "length ?EC"]) simp
  qed
qed

section \<open>The ascent of a right continuation\<close>

lemma right_stopped:
  assumes st: "ascent_stopped K E ((a, es, ls @ [M], rs) # C) u True (int (length C)) path res"
    and path: "take (Suc (length C)) path = cpath C @ [(a, Suc (length ls))]"
    and wf: "cwf ((a, es, ls @ [M], rs) # C)" "cfit UNIV ((a, es, ls @ [M], rs) # C)"
  shows "marked_done K (Suc (length C)) M (\<lambda>T. tlook (plug ((a, es, ls @ [T], rs) # C) (plug E u))) res
    (tptr (plug ((a, es, ls @ [M], rs) # C) Lf))"
proof -
  from st obtain h' path' t' where A: "res = Inr (h', path', False, None)"
    "take (Suc (length C)) path' = dec_at (length C) (take (Suc (length C)) path)"
    "owns h' K (plug ((a, es, ls @ [M], rs) # C) t')" "twf t'" "\<forall>x. tlook t' x = tlook (plug E u) x"
    unfolding ascent_stopped_def by auto
  let ?J = "(a, es, ls, t' # rs) # C"
  have "take (Suc (length C)) path' = cpath ?J"
    unfolding A(2) path by (simp add: dec_at_def list_update_append)
  moreover have "tlook (plug ?J T) x = tlook (plug ((a, es, ls @ [T], rs) # C) (plug E u)) x" for T x
  proof -
    have "cshape ((a, es, ls @ [T], rs) # C)" using wf(1) cwf_cshape [of C] by simp
    then have "tlook (plug ((a, es, ls @ [T], rs) # C) t') x = tlook (plug ((a, es, ls @ [T], rs) # C) (plug E u)) x"
      by (rule tlook_plug_cong_shape) (use A(5) in simp)
    then show ?thesis by simp
  qed
  moreover have "tptr (plug ?J M) = tptr (plug ((a, es, ls @ [M], rs) # C) Lf)"
    by (simp add: tptr_plug)
  ultimately show ?thesis
    unfolding marked_done_def using A(1,3,4) wf
    by (intro exI[of _ h'] exI[of _ path'] exI[of _ ?J]) auto
qed

lemma right_goes:
  assumes go: "ascent_goes log k E ((a, es, ls @ [M], rs) # C) q u True (int (length C)) path res"
    and path: "take (Suc (length C)) path = cpath C @ [(a, Suc (length ls))]"
    and wf: "cwf ((a, es, ls @ [M], rs) # C)" "cfit UNIV ((a, es, ls @ [M], rs) # C)"
  defines "look \<equiv> \<lambda>T. tlook (plug ((a, es, ls @ [T], rs) # C) (plug E u))"
  shows "marked_done (Suc k + length C) (Suc (length C)) M look res (tptr (plug ((a, es, ls @ [M], rs) # C) Lf))
    \<or> marked_split (Suc k + length C) (Suc (length C)) (length path) M look res"
proof -
  let ?ls = "ls @ [M]" and ?f = "int (length C)"
  from go obtain h' path' q' e L R where
      go1: "res = ft_ascend log True ?f (length ((a, es, ?ls, rs) # C)) h' path' q' e (tptr L) (tptr R)"
    "take (length ((a, es, ?ls, rs) # C)) path' = take (length ((a, es, ?ls, rs) # C)) path" and
      go2: "length path' = length path"
    "pushed h' k ((a, es, ?ls, rs) # C) q' e L R" "ent_ok e" "iv_set (irange e) \<subseteq> chole ((a, es, ?ls, rs) # C)"
    "twf L" "twf R" "\<forall>x. tlook (Nd 0 [e] [L, R]) x = tlook (plug E u) x"
    unfolding ascent_goes_def by blast
  have "res = ft_ascend log True ?f (Suc (length C)) h' path' q' e (tptr L) (tptr R)"
    "take (Suc (length C)) path' = cpath C @ [(a, Suc (length ls))]" using go1 path by simp_all
  note A = this go2
  have nth: "path' ! length C = (a, length ?ls)" "length C < length path'"
    using take_path_nth [OF A(2)] by auto
  have adj: "adj_index ?f path' (length C) (tptr R) = length ls" using nth by (simp add: adj_index_def)
  have gap: "iv_set (irange e) \<subseteq> {x. in_gap es (length ?ls) x}" using A(6) by auto
  define es' where "es' = ins_at (length ?ls) e es"
  have eq: "(ls @ [T]) @ L # R # rs = ls @ plug [] T # L # R # rs" for T by simp
  have sz: "length ls + length (L # R # rs) = length es + 1" using wf(1) by simp
  have lk: "tlook (plug ((a, es, ls @ [T], rs) # C) (Nd 0 [e] [L, R])) x = look T x" for T x
  proof -
    have "cshape ((a, es, ls @ [T], rs) # C)" using wf(1) cwf_cshape [of C] by simp
    then show ?thesis unfolding look_def by (rule tlook_plug_cong_shape) (use A(9) in simp)
  qed
  have fin: "length es' < FT_SPLITLIMIT \<Longrightarrow> cwf ((a, es', ls, L # R # rs) # C) \<and> cfit UNIV ((a, es', ls, L # R # rs) # C)
      \<and> (\<forall>T x. tlook (plug ((a, es', ls, L # R # rs) # C) T) x = look T x)"
    and spl: "length es' = FT_SPLITLIMIT \<Longrightarrow> cwf ([] @ [mframe l r es' ls (L # R # rs)]) \<and> twf (mother l r es' ls (L # R # rs))
      \<and> ent_ok (es' ! 2) \<and> iv_set (irange (es' ! 2)) \<subseteq> chole C
      \<and> cfit (chole C \<inter> side (length ls \<le> 2) (es' ! 2)) ([] @ [mframe l r es' ls (L # R # rs)])
      \<and> (\<forall>T x. tlook (plug C (Nd 0 [es' ! 2]
              [mleft (length ls \<le> 2) ([] @ [mframe l r es' ls (L # R # rs)]) (mother l r es' ls (L # R # rs)) T,
               mright (length ls \<le> 2) ([] @ [mframe l r es' ls (L # R # rs)]) (mother l r es' ls (L # R # rs)) T])) x
           = look T x)" for l r
    using mark_next(1) [where ls = "\<lambda>T. ls @ [T]" and rs = "\<lambda>_. rs" and L = "\<lambda>_. L" and R = "\<lambda>_. R" and M = M
      and J = "[]" and us = ls and vs = "L # R # rs" and i = "length ?ls",
      OF wf(1) A(5,6) wf(2) eq _ A(7,8) _ _ sz, folded es'_def, unfolded lk]
      mark_next(2) [where ls = "\<lambda>T. ls @ [T]" and rs = "\<lambda>_. rs" and L = "\<lambda>_. L" and R = "\<lambda>_. R" and M = M
      and J = "[]" and us = ls and vs = "L # R # rs" and i = "length ?ls" and l = l and r = r,
      OF wf(1) A(5,6) wf(2) eq _ A(7,8) _ _ sz, folded es'_def, unfolded lk]
    by (simp_all del: tlook.simps plug.simps cwf.simps(2) cfit.simps(2))
  have "(\<exists>h2. res = Inr (h2, path'[length C := (a, length ls)], False, None)
      \<and> length es' < FT_SPLITLIMIT \<and> owns h2 (Suc k + length C) (plug C (Nd a es' (?ls @ L # R # rs))))
    \<or> (\<exists>h2 l r. res = ft_ascend log True ?f (length C) h2
          (path'[length C := (if length ls \<le> 2 then (l, length ls) else (r, length ls - 3))])
            (Some a) (es' ! 2) (Some l) (Some r)
      \<and> length es' = FT_SPLITLIMIT \<and> pushed h2 (Suc k) C (Some a) (es' ! 2)
          (Nd l (take 2 es') (take 3 (?ls @ L # R # rs))) (Nd r (drop 3 es') (drop 3 (?ls @ L # R # rs))))"
    unfolding A(1) es'_def
    by (rule mark_level [OF A(4) wf(1) A(5) gap nth _ _ adj]) simp_all
  then show ?thesis
  proof (elim disjE exE conjE)
    fix h2
    assume B: "res = Inr (h2, path'[length C := (a, length ls)], False, None)" "length es' < FT_SPLITLIMIT"
      "owns h2 (Suc k + length C) (plug C (Nd a es' (?ls @ L # R # rs)))"
    let ?J = "(a, es', ls, L # R # rs) # C"
    have "take (Suc (length C) + 0) (path'[length C := (a, length ls)]) = cpath C @ (a, length ls) # []"
      by (rule path_update [OF _ _ nth(2)]) (use A(2) in auto)
    moreover have "tptr (plug ?J M) = tptr (plug ((a, es, ?ls, rs) # C) Lf)" by (simp add: tptr_plug)
    ultimately have "marked_done (Suc k + length C) (Suc (length C)) M look res (tptr (plug ((a, es, ?ls, rs) # C) Lf))"
      unfolding marked_done_def using B(1,3) fin [OF B(2)]
      by (intro exI[of _ h2] exI[of _ "path'[length C := (a, length ls)]"] exI[of _ ?J]) simp
    then show ?thesis ..
  next
    fix h2 l r
    let ?path = "path'[length C := (if length ls \<le> 2 then (l, length ls) else (r, length ls - 3))]"
    let ?F = "mframe l r es' ls (L # R # rs)" and ?X = "mother l r es' ls (L # R # rs)" and ?s = "length ls \<le> 2"
    assume B: "res = ft_ascend log True ?f (length C) h2 ?path (Some a) (es' ! 2) (Some l) (Some r)"
      and full: "length es' = FT_SPLITLIMIT"
      and P: "pushed h2 (Suc k) C (Some a) (es' ! 2)
          (Nd l (take 2 es') (take 3 (?ls @ L # R # rs))) (Nd r (drop 3 es') (drop 3 (?ls @ L # R # rs)))"
    have "length es' = Suc (length es)" using wf(1) by (simp add: es'_def)
    then have n: "length ls + length (L # R # rs) = 5" using full sz by (simp add: FT_SPLITLIMIT_def FT_ORDER_def)
    have P': "pushed h2 (Suc k) C (Some a) (es' ! 2) (mleft ?s [?F] ?X M) (mright ?s [?F] ?X M)"
      using P mark_split [OF n, where l = l and r = r and es = es' and J = "[]" and T = M] by simp
    have ptr: "tptr (mleft ?s [?F] ?X M) = Some l" "tptr (mright ?s [?F] ?X M) = Some r"
      using mark_split [OF n, where l = l and r = r and es = es' and J = "[]" and T = M, symmetric] by simp_all
    have fr: "cpath ([?F] @ C) = cpath C @ [if length ls \<le> 2 then (l, length ls) else (r, length ls - 3)]"
      by (auto simp: mframe_def)
    have "take (Suc (length C) + 0) ?path = cpath C @ (if length ls \<le> 2 then (l, length ls) else (r, length ls - 3)) # []"
      by (rule path_update [OF _ _ nth(2)]) (use A(2) in auto)
    then have path1: "take (length C + length [?F]) ?path = cpath ([?F] @ C)" unfolding fr by simp
    note S = spl [OF full, where l = l and r = r, simplified append_Nil]
    have cJ: "cwf ([?F] @ C)" unfolding cwf_append using S wf(1) by auto
    have M: "twf M" using wf(1) by simp
    have "marked_done (Suc k + length C) (length C + length [?F]) M
         (\<lambda>T. tlook (plug C (Nd 0 [es' ! 2] [mleft ?s [?F] ?X T, mright ?s [?F] ?X T])))
         (ft_ascend log True ?f (length C) h2 ?path (Some a) (es' ! 2) (tptr (mleft ?s [?F] ?X M)) (tptr (mright ?s [?F] ?X M)))
         (tptr (plug C (Nd 0 [] [])))
      \<or> marked_split (Suc k + length C) (length C + length [?F]) (length ?path) M
         (\<lambda>T. tlook (plug C (Nd 0 [es' ! 2] [mleft ?s [?F] ?X T, mright ?s [?F] ?X T])))
         (ft_ascend log True ?f (length C) h2 ?path (Some a) (es' ! 2) (tptr (mleft ?s [?F] ?X M)) (tptr (mright ?s [?F] ?X M)))"
      by (rule ascend_marked [OF P' _ _ cJ _ M _ _ _ _ path1]) (use S wf(2) in auto)
    moreover have "(\<lambda>T. tlook (plug C (Nd 0 [es' ! 2] [mleft ?s [?F] ?X T, mright ?s [?F] ?X T]))) = look"
      using S by (auto simp: fun_eq_iff simp del: tlook.simps)
    ultimately have R: "marked_done (Suc k + length C) (Suc (length C)) M look res (tptr (plug C (Nd 0 [] [])))
      \<or> marked_split (Suc k + length C) (Suc (length C)) (length path) M look res"
      using B A(3) ptr by simp
    show ?thesis
    proof (cases "C = []")
      case True
      then have "\<not> marked_done (Suc k + length C) (Suc (length C)) M look res (tptr (plug C (Nd 0 [] [])))"
        unfolding B by (simp add: marked_done_def)
      with R show ?thesis by blast
    next
      case False
      then have "tptr (plug C (Nd 0 [] [])) = tptr (plug ((a, es, ?ls, rs) # C) Lf)"
        unfolding plug.simps by (rule tptr_plug_ne)
      with R show ?thesis by simp
    qed
  qed
qed

section \<open>A right continuation\<close>

text \<open>The part of \<open>_ft_insert\<close> after the ascent of a right continuation: a new root goes in front of the path.\<close>

definition right_finish ::
  "gdp_log \<Rightarrow> nat \<Rightarrow> figtree \<Rightarrow> int \<Rightarrow> insertcont \<Rightarrow> heap \<times> ft_path \<times> bool \<times> nat option
    \<Rightarrow> (heap \<times> figtree \<times> ft_path \<times> insertcont) res" where
  "right_finish log md tr f ic = (\<lambda>(h, path, np, q).
     if \<not> np then Inr (h, tr, take (nat (f + 1)) path, ic)
     else case q of
       None \<Rightarrow> Inl Bad_Pointer
     | Some t \<Rightarrow>
         if path = [] \<or> length path \<ge> md then Inl Out_Of_Bounds
         else
           bindR (subtree_get log h t 1) (\<lambda>(r, h).
           bindR (if Some (fst (path ! 0)) = r then Inr (1, h)
                  else bindR (subtree_get log h t 0) (\<lambda>(l, h).
                       assertR (Some (fst (path ! 0)) = l) (0, h))) (\<lambda>(idx, h).
           Inr (h, tr\<lparr>root := q\<rparr>, take (nat (f + 2)) ((t, idx) # path), ic))))"

lemma ft_insert_right:
  assumes "ft_descend (md + 1) log md h rng val at V path0 = Inr (None, h1, path, ic)"
  shows "ft_insert log md h tr (args rng val at V) path0 True =
    bindR (ft_ascend log True (int (length path0) - 1) (length path) h1 path None (new_ent rng val) None None)
      (right_finish log md tr (int (length path0) - 1) ic)"
proof (cases "ft_ascend log True (int (length path0) - 1) (length path) h1 path None (new_ent rng val) None None")
  case (Inl e)
  then show ?thesis using assms by (simp add: ft_insert_def args_def new_ent_def)
next
  case (Inr res)
  obtain h2 p2 np q where "res = (h2, p2, np, q)" by (cases res)
  with Inr assms show ?thesis
    by (auto simp: ft_insert_def args_def new_ent_def right_finish_def bindR_def ac_simps
        split: sum.splits option.splits prod.splits)
qed

lemma right_finish_split:
  assumes S: "marked_split K n m M look res" and m: "m < md" and res: "res = Inr out" and n: "n = nat (f + 1)" "0 \<le> f"
    and wf: "twf M"
  shows "\<exists>h' tr' J. right_finish log md tr f ic out = Inr (h', tr', cpath J, ic) \<and> owns h' (Suc K) (plug J M)
    \<and> length J = Suc n \<and> root tr' = tptr (plug J M) \<and> cwf J \<and> cfit UNIV J \<and> (\<forall>T x. tlook (plug J T) x = look T x)"
proof -
  from S obtain h' path a e s J X where out: "res = Inr (h', path, True, Some a)" and A0:
    "pushed h' K [] (Some a) e (mleft s J X M) (mright s J X M)" "ent_ok e" "cwf J" "twf X" "J \<noteq> []"
    "cfit (side s e) J" "take n path = cpath J" "length J = n" "length path = m"
    "\<forall>T x. tlook (Nd 0 [e] [mleft s J X T, mright s J X T]) x = look T x"
    unfolding marked_split_def by blast
  note A = out [unfolded res, THEN Inr_inject] A0
  have get: "subtree_get log h' a 0 = Inr (tptr (mleft s J X M), h')"
    "subtree_get log h' a 1 = Inr (tptr (mright s J X M), h')"
    using A(2) by (rule pushed_get [where log = log]; simp)+
  let ?F = "(a, [e], if s then [] else [X], if s then [X] else [])"
  let ?J = "J @ [?F]"
  have plugJ: "plug ?J T = Nd a [e] [mleft s J X T, mright s J X T]" for T
    by (simp add: mleft_def mright_def)
  have own: "owns h' (Suc K) (plug ?J M)"
    unfolding plugJ using A(2) by (auto simp: pushed_def owns_def)
  have pne: "path \<noteq> []" using A(6,8) cpath_eq_Nil by (metis take_Nil)
  have "path ! 0 = hd (cpath J)" using A(6,8,9) pne by (metis cpath_eq_Nil hd_conv_nth hd_take length_greater_0_conv take_eq_Nil)
  then have hd: "Some (fst (path ! 0)) = tptr (plug J M)" using tptr_plug_hd [OF A(6)] by simp
  have "tptr X \<noteq> tptr (plug J M)"
  proof
    assume eq: "tptr X = tptr (plug J M)"
    then have "fst (path ! 0) \<in> set (addrs X)" "fst (path ! 0) \<in> set (addrs (plug J M))"
      using hd by (auto intro!: tptr_in_addrs)
    with A(2) show False by (cases s) (auto simp: pushed_def mleft_def mright_def)
  qed
  then have fin: "right_finish log md tr f ic out = Inr (h', tr\<lparr>root := Some a\<rparr>, take (nat (f + 2)) ((a, if s then 0 else 1) # path), ic)"
    unfolding A(1) right_finish_def using get hd pne A(10) m by (auto simp: mleft_def mright_def)
  have "nat (f + 2) = Suc n" using n by simp
  then have pth: "take (nat (f + 2)) ((a, if s then 0 else 1) # path) = cpath ?J" using A(8) by simp
  have "root (tr\<lparr>root := Some a\<rparr>) = tptr (plug ?J M)" by simp
  moreover have "length ?J = Suc n" using A(9) by simp
  moreover have "cfit UNIV ?J"
    unfolding cfit_append by (auto intro!: cfit_mono [OF A(7)] simp: side_def in_gap_def)
  moreover have "cwf ?J"
    using A(3,4,5) by (simp add: sorted_ents_def FT_SPLITLIMIT_def FT_ORDER_def)
  moreover have "tlook (plug ?J T) x = look T x" for T x using A(11) unfolding plugJ by simp
  ultimately show ?thesis using own fin [unfolded pth] by blast
qed

lemma insert_right:
  assumes D: "descending h k ((a, es, ls @ [M], rs) # C) t V rng" and rng: "rng_ok rng" and md: "k + Suc (length C) < md"
    and bot: "descent_bottom k ((a, es, ls @ [M], rs) # C) t rng
      (ft_descend (md + 1) log md h rng val (tptr t) V (cpath ((a, es, ls @ [M], rs) # C)))"
    and root: "root tr = tptr (plug ((a, es, ls @ [M], rs) # C) t)"
  shows "\<exists>h' tr' J. ft_insert log md h tr (args rng val (tptr t) V) (cpath ((a, es, ls @ [M], rs) # C)) True
      = Inr (h', tr', cpath J, zero_cont)
    \<and> owns h' (k + length J) (plug J M) \<and> J \<noteq> [] \<and> length J \<le> length C + 2
    \<and> root tr' = tptr (plug J M) \<and> cwf J \<and> cfit UNIV J
    \<and> (\<forall>T x. tlook (plug J T) x = (if x \<in> iv_set rng then Some val else tlook (plug C (Nd a es (ls @ T # t # rs))) x))"
proof -
  let ?F = "(a, es, ls @ [M], rs)" and ?f = "int (length C)" and ?e = "new_ent rng val"
  from bot obtain h1 E where E: "ft_descend (md + 1) log md h rng val (tptr t) V (cpath (?F # C)) = Inr (None, h1, cpath (E @ ?F # C), zero_cont)"
    "owns h1 (length (E @ ?F # C)) (plug (E @ ?F # C) Lf)" "length E = k" "cwf E" "cfit (chole (?F # C)) E"
    "iv_set rng \<subseteq> chole (E @ ?F # C)" "tptr (plug E Lf) = tptr t"
    "\<And>x. x \<in> chole (?F # C) \<Longrightarrow> x \<notin> iv_set rng \<Longrightarrow> tlook (plug E Lf) x = tlook t x"
    unfolding descent_bottom_def by blast
  let ?path = "cpath (E @ ?F # C)"
  let ?res = "ft_ascend log True ?f (length E + length (?F # C)) h1 ?path None ?e (tptr Lf) (tptr Lf)"
  let ?look = "\<lambda>T. tlook (plug ((a, es, ls @ [T], rs) # C) (plug E (Nd 0 [?e] [Lf, Lf])))"
  have wf: "cwf (?F # C)" "cfit UNIV (?F # C)" using D unfolding descending_def by blast+
  have path: "take (Suc (length C)) ?path = cpath C @ [(a, Suc (length ls))]" by simp
  have "ascent_stopped (0 + length E + length (?F # C)) E (?F # C) (Nd 0 [?e] [Lf, Lf]) True ?f ?path ?res
     \<or> ascent_goes log (0 + length E) E (?F # C) None (Nd 0 [?e] [Lf, Lf]) True ?f ?path ?res"
    by (rule ascend_outcome)
      (use pushed_bottom [OF E(2)] E(3-6) new_ent_ok [OF rng] in \<open>auto simp: new_ent_def nth_append\<close>)
  then have out: "marked_done (k + Suc (length C)) (Suc (length C)) M ?look ?res (tptr (plug (?F # C) Lf))
      \<or> marked_split (k + Suc (length C)) (Suc (length C)) (length ?path) M ?look ?res"
  proof
    assume "ascent_stopped (0 + length E + length (?F # C)) E (?F # C) (Nd 0 [?e] [Lf, Lf]) True ?f ?path ?res"
    from right_stopped [OF this path wf] show ?thesis using E(3) by simp
  next
    assume "ascent_goes log (0 + length E) E (?F # C) None (Nd 0 [?e] [Lf, Lf]) True ?f ?path ?res"
    from right_goes [OF this path wf] show ?thesis using E(3) by auto
  qed
  have look: "?look T x = (if x \<in> iv_set rng then Some val else tlook (plug C (Nd a es (ls @ T # t # rs))) x)" for T x
  proof -
    have "cshape ((a, es, ls @ [T], rs) # C)" using wf(1) cwf_cshape [of C] by simp
    from tlook_bottom [OF this cwf_cshape [OF E(4)]] E(6,8) show ?thesis by simp
  qed
  have ins: "ft_insert log md h tr (args rng val (tptr t) V) (cpath (?F # C)) True = bindR ?res (right_finish log md tr ?f zero_cont)"
    using ft_insert_right [OF E(1)] by (simp add: add.commute)
  from out show ?thesis
  proof
    assume "marked_done (k + Suc (length C)) (Suc (length C)) M ?look ?res (tptr (plug (?F # C) Lf))"
    then obtain h' path' J where A: "?res = Inr (h', path', False, None)" "owns h' (k + Suc (length C)) (plug J M)"
      "cwf J" "cfit UNIV J" "take (Suc (length C)) path' = cpath J" "length J = Suc (length C)"
      "tptr (plug J M) = tptr (plug (?F # C) Lf)" "\<forall>T x. tlook (plug J T) x = ?look T x"
      unfolding marked_done_def by blast
    have "root tr = tptr (plug J M)" unfolding root A(7) by (simp add: tptr_plug)
    moreover have "J \<noteq> []" using A(6) by auto
    ultimately show ?thesis using ins A look
      by (intro exI[of _ h'] exI[of _ tr] exI[of _ J]) (simp add: right_finish_def nat_add_distrib)
  next
    assume S: "marked_split (k + Suc (length C)) (Suc (length C)) (length ?path) M ?look ?res"
    then obtain out where res: "?res = Inr out" unfolding marked_split_def by blast
    have "length ?path < md" using md E(3) by simp
    from right_finish_split [OF S this res, of ?f log tr zero_cont] wf(1)
    obtain h' tr' J where A: "right_finish log md tr ?f zero_cont out = Inr (h', tr', cpath J, zero_cont)"
      "owns h' (Suc (k + Suc (length C))) (plug J M)" "length J = Suc (Suc (length C))" "root tr' = tptr (plug J M)"
      "cwf J" "cfit UNIV J" "\<forall>T x. tlook (plug J T) x = ?look T x" by (auto simp: nat_add_distrib)
    have "J \<noteq> []" using A(3) by auto
    then show ?thesis using ins res A look
      by (intro exI[of _ h'] exI[of _ tr'] exI[of _ J]) simp
  qed
qed

end
