(* ===== verification/Fig_Replace.thy ===== *)
theory Fig_Replace
  imports Fig_Write
begin

text \<open>
  Replacing the entries that a new range overlaps: \<open>ftn_replaceEntries\<close>, what it keeps of the
  lookups, and the remainders of the first and the last replaced entry that the continuations
  insert again.
\<close>

section \<open>The overlapped entries\<close>

lemma overlap_end_spec:
  assumes "sorted_ents es" "i < j" "j \<le> length es"
    "\<forall>m. i < m \<and> m < j \<longrightarrow> left (irange (es ! m)) \<le> right rng" "left rng \<le> right (irange (es ! i))"
  shows "i < ft_overlap_end es rng j \<and> ft_overlap_end es rng j \<le> length es
    \<and> (\<forall>m. i < m \<and> m < ft_overlap_end es rng j \<longrightarrow> left (irange (es ! m)) \<le> right rng)
    \<and> (ft_overlap_end es rng j < length es \<longrightarrow> right rng < left (irange (es ! ft_overlap_end es rng j)))"
  using assms
proof (induction es rng j rule: ft_overlap_end.induct)
  case (1 es rng j)
  show ?case
  proof (cases "j < length es \<and> i_leftOverlaps (irange (es ! j)) rng")
    case True
    then have "\<forall>m. i < m \<and> m < j + 1 \<longrightarrow> left (irange (es ! m)) \<le> right rng"
      using 1(5) by (auto simp: i_leftOverlaps_def i_contains_val_def less_Suc_eq)
    then have IH: "i < ft_overlap_end es rng (j + 1) \<and> ft_overlap_end es rng (j + 1) \<le> length es
      \<and> (\<forall>m. i < m \<and> m < ft_overlap_end es rng (j + 1) \<longrightarrow> left (irange (es ! m)) \<le> right rng)
      \<and> (ft_overlap_end es rng (j + 1) < length es \<longrightarrow> right rng < left (irange (es ! ft_overlap_end es rng (j + 1))))"
      by (intro 1(1)) (use True 1(2,3,4,6) in auto)
    have "ft_overlap_end es rng j = ft_overlap_end es rng (j + 1)"
      by (subst ft_overlap_end.simps) (use True in simp)
    with IH show ?thesis by simp
  next
    case False
    then have eq: "ft_overlap_end es rng j = j" by (subst ft_overlap_end.simps) auto
    have "right rng < left (irange (es ! j))" if j: "j < length es"
    proof -
      have "right (irange (es ! i)) < left (irange (es ! j))" using sorted_ents_lt 1(2,3) j by blast
      then have "left rng \<le> left (irange (es ! j))" using 1(6) by simp
      moreover have "nonempty (irange (es ! j))" using sorted_ents_ok [OF 1(2) j] by (simp add: ent_ok_def)
      ultimately show ?thesis using False j by (auto simp: i_leftOverlaps_def i_contains_val_def)
    qed
    with 1 show ?thesis unfolding eq by simp
  qed
qed

text \<open>The entries \<open>i\<close> to \<open>j - 1\<close> of a node are the ones a range overlaps.\<close>

definition overlapped :: "ft_ent list \<Rightarrow> interval \<Rightarrow> nat \<Rightarrow> nat \<Rightarrow> bool" where
  "overlapped es rng i j \<longleftrightarrow> sorted_ents es \<and> i < j \<and> j \<le> length es \<and> left rng \<le> right rng
     \<and> (\<forall>m < i. right (irange (es ! m)) < left rng) \<and> left rng \<le> right (irange (es ! i))
     \<and> left (irange (es ! (j - 1))) \<le> right rng \<and> (j < length es \<longrightarrow> right rng < left (irange (es ! j)))"

lemma overlapped_scan:
  assumes "sorted_ents es" "i < length es" "i_overlaps (irange (es ! i)) rng" "left rng \<le> right rng"
    "\<forall>m < i. right (irange (es ! m)) < left rng"
  shows "overlapped es rng i (ft_overlap_end es rng (i + 1))"
proof -
  let ?j = "ft_overlap_end es rng (i + 1)"
  have ov: "left rng \<le> right (irange (es ! i))" "left (irange (es ! i)) \<le> right rng"
    using assms(3) by (auto simp: i_overlaps_def)
  have v: "\<forall>m. i < m \<and> m < i + 1 \<longrightarrow> left (irange (es ! m)) \<le> right rng"
    by (auto simp: less_Suc_eq)
  have j: "i < ?j" "?j \<le> length es" "\<forall>m. i < m \<and> m < ?j \<longrightarrow> left (irange (es ! m)) \<le> right rng"
    "?j < length es \<longrightarrow> right rng < left (irange (es ! ?j))"
    using overlap_end_spec [OF assms(1) _ _ v ov(1)] assms(2) by simp_all
  have "left (irange (es ! (?j - 1))) \<le> right rng"
    using j(1,3) ov(2) by (cases "?j - 1 = i") auto
  with j ov assms show ?thesis by (simp add: overlapped_def)
qed

definition replaced :: "ft_ent list \<Rightarrow> nat \<Rightarrow> nat \<Rightarrow> ft_ent \<Rightarrow> ft_ent list" where
  "replaced es i j e = take i es @ e # drop j es"

lemma replaced_nth:
  assumes "i < j" "j \<le> length es"
  shows "m < i \<Longrightarrow> replaced es i j e ! m = es ! m" "replaced es i j e ! i = e"
    "replaced es i j e ! (Suc i + m) = es ! (j + m)" "length (replaced es i j e) = Suc i + (length es - j)"
  using assms by (auto simp: replaced_def nth_append nth_Cons')

lemma replaced_gap:
  assumes ov: "overlapped es rng i j" and e: "irange e = rng"
  shows "in_gap (replaced es i j e) i x \<longleftrightarrow> (\<forall>m < i. right (irange (es ! m)) < x) \<and> x < left rng"
    and "in_gap (replaced es i j e) (Suc i) x \<longleftrightarrow> right rng < x \<and> (j < length es \<longrightarrow> x < left (irange (es ! j)))"
proof -
  from ov have s: "sorted_ents es" and ij: "i < j" "j \<le> length es" and r: "left rng \<le> right rng"
    and lo: "\<forall>m < i. right (irange (es ! m)) < left rng"
    and hi: "j < length es \<longrightarrow> right rng < left (irange (es ! j))"
    by (auto simp: overlapped_def)
  let ?es = "replaced es i j e"
  note nth = replaced_nth [OF ij, where e = e]
  have up: "x < left (irange (es ! (j + m)))" if "x < left (irange (es ! j))" "j + m < length es" for m
    using sorted_ents_left_mono [OF s, of j "j + m"] that by simp
  have all: "(\<forall>m. Suc i \<le> m \<and> m < length ?es \<longrightarrow> x < left (irange (?es ! m))) \<longleftrightarrow> (j < length es \<longrightarrow> x < left (irange (es ! j)))"
  proof
    assume *: "\<forall>m. Suc i \<le> m \<and> m < length ?es \<longrightarrow> x < left (irange (?es ! m))"
    show "j < length es \<longrightarrow> x < left (irange (es ! j))"
      using spec [OF *, of "Suc i"] nth(3) [of 0] nth(4) ij by auto
  next
    assume *: "j < length es \<longrightarrow> x < left (irange (es ! j))"
    show "\<forall>m. Suc i \<le> m \<and> m < length ?es \<longrightarrow> x < left (irange (?es ! m))"
    proof (intro allI impI)
      fix m assume m: "Suc i \<le> m \<and> m < length ?es"
      then obtain d where d: "m = Suc i + d" using le_Suc_ex by blast
      with m nth(4) have "j + d < length es" by auto
      then show "x < left (irange (?es ! m))" unfolding d nth(3) using * up by auto
    qed
  qed
  have lt: "(\<forall>m < i. right (irange (?es ! m)) < x) \<longleftrightarrow> (\<forall>m < i. right (irange (es ! m)) < x)"
    using nth(1) by auto
  have ile: "i < length ?es" using nth(4) by simp
  have ge: "(\<forall>m. i \<le> m \<and> m < length ?es \<longrightarrow> x < left (irange (?es ! m))) \<longleftrightarrow>
      x < left rng \<and> (\<forall>m. Suc i \<le> m \<and> m < length ?es \<longrightarrow> x < left (irange (?es ! m)))"
    using nth(2) e ile by (auto simp: le_eq_less_or_eq [of i] Suc_le_eq)
  have lt': "(\<forall>m < Suc i. right (irange (?es ! m)) < x) \<longleftrightarrow> right rng < x \<and> (\<forall>m < i. right (irange (es ! m)) < x)"
    using lt nth(2) e by (auto simp: less_Suc_eq)
  have il: "i \<le> length ?es" "Suc i \<le> length ?es" using nth(4) by auto
  show "in_gap ?es i x \<longleftrightarrow> (\<forall>m < i. right (irange (es ! m)) < x) \<and> x < left rng"
    unfolding in_gap_def lt ge all using il hi r by (auto intro: less_trans le_less_trans)
  show "in_gap ?es (Suc i) x \<longleftrightarrow> right rng < x \<and> (j < length es \<longrightarrow> x < left (irange (es ! j)))"
    unfolding in_gap_def lt' all using il lo r by (auto intro: less_trans le_less_trans)
qed

lemma replaced_sorted:
  assumes ov: "overlapped es rng i j" and e: "irange e = rng" "ent_ok e"
  shows "sorted_ents (replaced es i j e)"
proof -
  from ov have s: "sorted_ents es" and ij: "i < j" "j \<le> length es" and r: "left rng \<le> right rng"
    and lo: "\<forall>m < i. right (irange (es ! m)) < left rng"
    and hi: "j < length es \<longrightarrow> right rng < left (irange (es ! j))"
    by (auto simp: overlapped_def)
  have "\<forall>d \<in> set (take i es). ent_lt d e"
    using lo e(1) by (auto simp: ent_lt_def in_set_conv_nth)
  moreover have "\<forall>d \<in> set (drop j es). ent_lt e d"
  proof
    fix d assume "d \<in> set (drop j es)"
    then obtain m where m: "j + m < length es" "d = es ! (j + m)" using ij(2)
      by (auto simp: in_set_conv_nth less_diff_conv add.commute)
    with sorted_ents_left_mono [OF s, of j "j + m"] hi e(1) show "ent_lt e d" by (simp add: ent_lt_def)
  qed
  moreover have "\<forall>c \<in> set (take i es). \<forall>d \<in> set (drop j es). ent_lt c d"
    using sorted_ents_lt [OF s] ij by (fastforce simp: ent_lt_def in_set_conv_nth)
  ultimately show ?thesis
    using s e(2) unfolding replaced_def sorted_ents_append sorted_ents_Cons by auto
qed

lemma nat_split3: "(m :: nat) < i \<or> m = i \<or> (\<exists>d. m = Suc i + d)"
  by presburger

text \<open>Away from the new range and the two remainders, no lookup changes.\<close>

lemma replaced_look:
  assumes ov: "overlapped es rng i j" and e: "irange e = rng" "ent_ok e" and len: "length ts = length es + 1"
    and x: "x \<notin> iv_set rng" "\<not> (left (irange (es ! i)) \<le> x \<and> x < left rng)"
      "\<not> (right rng < x \<and> x \<le> right (irange (es ! (j - 1))))"
  shows "nlook (replaced es i j e) (take (Suc i) ts @ drop j ts) x = nlook es ts x"
proof -
  from ov have s: "sorted_ents es" and ij: "i < j" "j \<le> length es"
    and r: "left rng \<le> right rng" "left rng \<le> right (irange (es ! i))" "left (irange (es ! (j - 1))) \<le> right rng"
    and lo: "\<forall>m < i. right (irange (es ! m)) < left rng"
    and hi: "j < length es \<longrightarrow> right rng < left (irange (es ! j))"
    by (auto simp: overlapped_def)
  let ?es = "replaced es i j e" and ?ts = "take (Suc i) ts @ drop j ts"
  have s': "sorted_ents ?es" by (rule replaced_sorted [OF ov e])
  note nth = replaced_nth [OF ij, where e = e]
  have len': "length ?ts = length ?es + 1" using len ij nth(4) by simp
  have far: "right rng < x" if "left rng \<le> x" using that x(1) by (auto simp: iv_set_def)
  have near: "x < left rng" if "x \<le> right rng" using that x(1) by (auto simp: iv_set_def)
  from entry_or_gap [OF s, of x] show ?thesis
  proof
    assume "\<exists>m < length es. x \<in> iv_set (irange (es ! m))"
    then obtain m where m: "m < length es" "left (irange (es ! m)) \<le> x" "x \<le> right (irange (es ! m))"
      by (auto simp: iv_set_def)
    consider "m < i" | "j \<le> m" | "i \<le> m" "m < j" by linarith
    then show ?thesis
    proof cases
      case 1
      then show ?thesis
        using nlook_entry [OF s m(1), of x ts] nlook_entry [OF s', of m x ?ts] m nth(1,4) ij by (simp add: iv_set_def)
    next
      case 2
      then obtain d where d: "m = j + d" using le_Suc_ex by blast
      then show ?thesis
        using nlook_entry [OF s m(1), of x ts] nlook_entry [OF s', of "Suc i + d" x ?ts] m nth(3,4) by (simp add: iv_set_def)
    next
      case 3
      have "left rng \<le> x"
      proof (cases "m = i")
        case True
        with m(2) x(2) show ?thesis by auto
      next
        case False
        with 3 sorted_ents_lt [OF s, of i m] m r(2) show ?thesis by simp
      qed
      then have "right rng < x" by (rule far)
      moreover have "right (irange (es ! m)) \<le> right (irange (es ! (j - 1)))"
        using sorted_ents_right_mono [OF s, of m "j - 1"] 3 ij by simp
      ultimately show ?thesis using x(3) m(3) by (meson order_trans)
    qed
  next
    assume "\<exists>g. in_gap es g x"
    then obtain g where g: "in_gap es g x" by blast
    then have gl: "g \<le> length es" and glo: "\<And>m. m < g \<Longrightarrow> right (irange (es ! m)) < x"
      and ghi: "\<And>m. g \<le> m \<Longrightarrow> m < length es \<Longrightarrow> x < left (irange (es ! m))"
      by (auto simp: in_gap_def)
    consider "g \<le> i" | "j \<le> g" | "i < g" "g < j" by linarith
    then show ?thesis
    proof cases
      case 1
      have "x < left (irange (es ! i))" using ghi [of i] 1 ij by simp
      also have "\<dots> \<le> left (irange (es ! (j - 1)))" using sorted_ents_left_mono [OF s, of i "j - 1"] ij by simp
      finally have "x < left rng" using r(3) near by simp
      have "in_gap ?es g x"
        unfolding in_gap_def
      proof (intro conjI allI impI)
        show "g \<le> length ?es" using 1 nth(4) by simp
        show "right (irange (?es ! m)) < x" if "m < g" for m using that 1 nth(1) glo by simp
        show "x < left (irange (?es ! m))" if m: "g \<le> m \<and> m < length ?es" for m
        proof -
          consider "m < i" | "m = i" | d where "m = Suc i + d" using nat_split3 [of m i] by blast
          then show ?thesis
          proof cases
            case 1
            then show ?thesis using m nth(1) ghi ij by simp
          next
            case 2
            then show ?thesis using nth(2) e \<open>x < left rng\<close> by simp
          next
            case (3 d)
            then show ?thesis using m nth(3,4) ghi [of "j + d"] \<open>g \<le> i\<close> ij by simp
          qed
        qed
      qed
      moreover have "?ts ! g = ts ! g" using 1 len ij by (simp add: nth_append)
      ultimately show ?thesis using nlook_gap [OF s' _ len'] nlook_gap [OF s g len] by simp
    next
      case 2
      then obtain d where d: "g = j + d" using le_Suc_ex by blast
      have "left rng \<le> right (irange (es ! (j - 1)))"
        using order_trans [OF r(2) sorted_ents_right_mono [OF s, of i "j - 1"]] ij by simp
      moreover have "right (irange (es ! (j - 1))) < x" using glo [of "j - 1"] ij 2 by simp
      ultimately have "right rng < x" using far by simp
      have "in_gap ?es (Suc i + d) x"
        unfolding in_gap_def
      proof (intro conjI allI impI)
        show "Suc i + d \<le> length ?es" using d gl nth(4) by simp
        show "right (irange (?es ! m)) < x" if m: "m < Suc i + d" for m
        proof -
          consider "m < i" | "m = i" | d' where "m = Suc i + d'" using nat_split3 [of m i] by blast
          then show ?thesis
          proof cases
            case 1
            then show ?thesis using nth(1) glo 2 ij by simp
          next
            case 2
            then show ?thesis using nth(2) e \<open>right rng < x\<close> by simp
          next
            case (3 d')
            then show ?thesis using m nth(3) glo [of "j + d'"] d by simp
          qed
        qed
        show "x < left (irange (?es ! m))" if m: "Suc i + d \<le> m \<and> m < length ?es" for m
        proof -
          obtain d' where d': "m = Suc i + d'" using m le_Suc_ex [of "Suc i" m] by auto
          moreover from this m nth(4) have "j + d' < length es" by auto
          ultimately show ?thesis using m nth(3) ghi [of "j + d'"] d by simp
        qed
      qed
      moreover have "?ts ! (Suc i + d) = ts ! g" using d len ij by (simp add: nth_append)
      ultimately show ?thesis using nlook_gap [OF s' _ len'] nlook_gap [OF s g len] by simp
    next
      case 3
      have "right (irange (es ! i)) < x" "x < left (irange (es ! (j - 1)))"
        using glo [of i] ghi [of "j - 1"] 3 ij by auto
      then have "x \<in> iv_set rng" using r by (auto simp: iv_set_def)
      with x(1) show ?thesis by contradiction
    qed
  qed
qed

section \<open>Replacing on the heap\<close>

lemma distinct_concat_drop_slice:
  assumes "distinct (concat xss)" "i \<le> j" "j \<le> length xss"
  shows "distinct (concat (take (j - i) (drop i xss)))" "distinct (concat (take i xss @ drop j xss))"
    "set (concat (take i xss @ drop j xss)) \<inter> set (concat (take (j - i) (drop i xss))) = {}"
    "set (concat (take i xss @ drop j xss)) \<subseteq> set (concat xss)" "set (concat (take (j - i) (drop i xss))) \<subseteq> set (concat xss)"
proof -
  have "xss = take i xss @ take (j - i) (drop i xss) @ drop j xss"
    using assms(2) by (metis append_take_drop_id drop_drop le_add_diff_inverse2)
  then have eq: "concat xss = concat (take i xss) @ concat (take (j - i) (drop i xss)) @ concat (drop j xss)"
    by (metis concat_append)
  have d: "distinct (concat (take i xss) @ concat (take (j - i) (drop i xss)) @ concat (drop j xss))"
    using assms(1) unfolding eq .
  show "distinct (concat (take (j - i) (drop i xss)))" using d by simp
  show "distinct (concat (take i xss @ drop j xss))" using d unfolding concat_append by (simp del: set_concat) blast
  show "set (concat (take i xss @ drop j xss)) \<inter> set (concat (take (j - i) (drop i xss))) = {}"
    using d unfolding concat_append by (simp del: set_concat) blast
  show "set (concat (take i xss @ drop j xss)) \<subseteq> set (concat xss)" "set (concat (take (j - i) (drop i xss))) \<subseteq> set (concat xss)"
    unfolding eq concat_append by auto
qed

lemma replaceEntries_spec:
  assumes own: "owns h (Suc k) (Nd a es ts)" and len: "length ts = length es + 1" and ij: "i < j" "j \<le> length es"
  shows "\<exists>h'. ftn_replaceEntries h a i j rng val = Inr h'
    \<and> owns h' (Suc k) (Nd a (replaced es i j (new_ent rng val)) (take (Suc i) ts @ drop j ts))
    \<and> evolves h (Nd a es ts) h' (Nd a (replaced es i j (new_ent rng val)) (take (Suc i) ts @ drop j ts))"
proof -
  from own obtain nd where nd: "mem h a = Some nd" "entries nd = es" "HEIGHT nd = int k"
    "reps h k (subtrees nd) ts" "length (subtrees nd) = length ts" "heap_ok h"
    "a \<notin> set (concat (map addrs ts))" "distinct (concat (map addrs ts))"
    by (rule owns_node)
  have ij': "Suc i \<le> j" "j \<le> length (map addrs ts)" using ij len by auto
  note ds = distinct_concat_drop_slice [OF nd(8) ij', folded take_map drop_map, folded map_append]
  let ?mid = "take (j - Suc i) (drop (Suc i) ts)" and ?ts = "take (Suc i) ts @ drop j ts"
  have rm: "reps h k (take (j - Suc i) (drop (Suc i) (subtrees nd))) ?mid"
    by (intro list_all2_takeI list_all2_dropI nd(4))
  have dm: "distinct (concat (map addrs ?mid))" "distinct (concat (map addrs ?ts))"
    "set (concat (map addrs ?ts)) \<inter> set (concat (map addrs ?mid)) = {}"
    "set (concat (map addrs ?ts)) \<subseteq> set (concat (map addrs ts))" "set (concat (map addrs ?mid)) \<subseteq> set (concat (map addrs ts))"
    using ds by (simp_all only: take_map drop_map map_append)
  obtain h1 where h1: "free_subtrees k h (take (j - Suc i) (drop (Suc i) (subtrees nd))) = Inr h1" "heap_ok h1"
    "next_ptr h1 = next_ptr h" "frame (set (concat (map addrs ?mid))) h h1"
    using free_subtrees_spec [OF rm nd(6) dm(1) le_refl] by blast
  have alt: "a < next_ptr h" using own by (auto intro: owns_lt)
  have a1: "mem h1 a = Some nd" using frame_mem [OF h1(4), of a] nd(1,7) dm(5) alt by auto
  let ?nd = "nd\<lparr>entries := replaced es i j (new_ent rng val),
      subtrees := take (Suc i) (subtrees nd) @ drop j (subtrees nd), dirty := True\<rparr>"
  have e: "(es ! i)\<lparr>irange := rng, fvalue := val\<rparr> = new_ent rng val"
    by (rule ft_ent.equality) (simp_all add: new_ent_def)
  have "ftn_replaceEntries h a i j rng val = Inr (put_node h1 a ?nd)"
    unfolding ftn_replaceEntries_def using nd(1,2,3,5) len ij h1(1) a1
    by (simp add: replaced_def e)
  moreover have "reps h k (take (Suc i) (subtrees nd) @ drop j (subtrees nd)) ?ts"
    by (intro list_all2_appendI list_all2_takeI list_all2_dropI nd(4))
  then have "reps h1 k (take (Suc i) (subtrees nd) @ drop j (subtrees nd)) ?ts"
    by (rule reps_frame [OF _ nd(6) h1(4) dm(3)])
  then have "owns (put_node h1 a ?nd) (Suc k) (Nd a (entries ?nd) ?ts)"
    by (rule owns_put_node [OF _ h1(2)]) (use nd(3,7) dm(2,4) alt h1(3) in auto)
  moreover have "evolves h (Nd a es ts) (put_node h1 a ?nd) (Nd a (entries ?nd) ?ts)"
    using h1(3,4) dm(4,5) by (fastforce simp: evolves_def frame_def)
  ultimately show ?thesis by auto
qed

definition conts :: "bool \<Rightarrow> insertargs \<Rightarrow> bool \<Rightarrow> insertargs \<Rightarrow> insertcont" where
  "conts hl la hr ra = \<lparr>hasleftc = hl, leftc = (if hl then la else zero_args),
     hasrightc = hr, rightc = (if hr then ra else zero_args)\<rparr>"

lemma owns_subtree_get:
  assumes "owns h (Suc k) (Nd a es ts)" "i < length ts"
  shows "subtree_get log h a i = Inr (tptr (ts ! i), h)"
proof -
  from assms(1) obtain nd where nd: "mem h a = Some nd" "reps h k (subtrees nd) ts" "length (subtrees nd) = length ts"
    by (rule owns_node)
  then have "inmemory (subtrees nd ! i)" "st (subtrees nd ! i) = tptr (ts ! i)"
    using assms(2) rep_tptr by (auto simp: list_all2_conv_all_nth)
  then show ?thesis using nd assms(2) by (simp add: subtree_get_def)
qed

lemma ft_replace_eq:
  assumes own: "owns h (Suc k) (Nd c es ts)" and len: "length ts = length es + 1" and V: "iv_ok V"
    and ov: "overlapped es rng i j" and j: "j = ft_overlap_end es rng (i + 1)" and md: "length path < md"
  obtains h' VL VR where
    "ft_replace log md h rng val c V path i = Inr (h',
       path @ [(c, if right rng < right (irange (es ! (j - 1))) then Suc i else i)],
       conts (left (irange (es ! i)) < left rng)
         (args (i_init (left (irange (es ! i))) (left rng - 1)) (fvalue (es ! i)) (tptr (ts ! i)) VL)
         (right rng < right (irange (es ! (j - 1))))
         (args (i_init (right rng + 1) (right (irange (es ! (j - 1))))) (fvalue (es ! (j - 1))) (tptr (ts ! j)) VR))"
    "owns h' (Suc k) (Nd c (replaced es i j (new_ent rng val)) (take (Suc i) ts @ drop j ts))"
    "evolves h (Nd c es ts) h' (Nd c (replaced es i j (new_ent rng val)) (take (Suc i) ts @ drop j ts))"
    "iv_ok VL" "iv_set VL = iv_set V \<inter> {(if i = 0 then BYTE_INDEX_MIN else right (irange (es ! (i - 1))) + 1) .. left (irange (es ! i)) - 1}"
    "iv_ok VR" "iv_set VR = iv_set V \<inter> {right (irange (es ! (j - 1))) + 1 .. (if j = length es then BYTE_INDEX_MAX else left (irange (es ! j)) - 1)}"
proof -
  have ij: "i < j" "j \<le> length es" using ov by (auto simp: overlapped_def)
  from own obtain nd where nd: "mem h c = Some nd" "entries nd = es" by (rule owns_node)
  obtain VL where VL: "i_restrict_range V (if i = 0 then BYTE_INDEX_MIN else right (irange (es ! (i - 1))) + 1)
      (left (irange (es ! i)) - 1) True = Inr VL" "iv_ok VL"
    "iv_set VL = iv_set V \<inter> {(if i = 0 then BYTE_INDEX_MIN else right (irange (es ! (i - 1))) + 1) .. left (irange (es ! i)) - 1}"
    using i_restrict_range_True [OF V] by blast
  obtain VR where VR: "i_restrict_range V (right (irange (es ! (j - 1))) + 1)
      (if j = length es then BYTE_INDEX_MAX else left (irange (es ! j)) - 1) True = Inr VR" "iv_ok VR"
    "iv_set VR = iv_set V \<inter> {right (irange (es ! (j - 1))) + 1 .. (if j = length es then BYTE_INDEX_MAX else left (irange (es ! j)) - 1)}"
    using i_restrict_range_True [OF V] by blast
  obtain h' where h': "ftn_replaceEntries h c i j rng val = Inr h'"
    "owns h' (Suc k) (Nd c (replaced es i j (new_ent rng val)) (take (Suc i) ts @ drop j ts))"
    "evolves h (Nd c es ts) h' (Nd c (replaced es i j (new_ent rng val)) (take (Suc i) ts @ drop j ts))"
    using replaceEntries_spec [OF own len ij] by blast
  have get: "subtree_get log h c i = Inr (tptr (ts ! i), h)" "subtree_get log h c j = Inr (tptr (ts ! j), h)"
    using owns_subtree_get [OF own] ij len by auto
  have "ft_replace log md h rng val c V path i = Inr (h',
       path @ [(c, if right rng < right (irange (es ! (j - 1))) then Suc i else i)],
       conts (left (irange (es ! i)) < left rng)
         (args (i_init (left (irange (es ! i))) (left rng - 1)) (fvalue (es ! i)) (tptr (ts ! i)) VL)
         (right rng < right (irange (es ! (j - 1))))
         (args (i_init (right rng + 1) (right (irange (es ! (j - 1))))) (fvalue (es ! (j - 1))) (tptr (ts ! j)) VR))"
    unfolding ft_replace_def get_node_Some [OF nd(1)] bindR_simps Let_def nd(2) j [symmetric]
    using get VL(1) VR(1) h'(1) md by (simp add: path_push_ok conts_def args_def zero_cont_def)
  then show thesis using that h'(2,3) VL(2,3) VR(2,3) by blast
qed

end
