(* ===== verification/Fig_Correct.thy ===== *)
theory Fig_Correct
  imports Fig_Replace
begin

text \<open>
  Correctness of \<open>ft_write\<close> and \<open>ft_lookup\<close> on trees that are in memory, up to sequences of writes.
\<close>

section \<open>The remainders are ready to be inserted\<close>

text \<open>A node whose entries \<open>i\<close> to \<open>j - 1\<close> the descent found to overlap the new range.\<close>

definition overlap_at :: "heap \<Rightarrow> nat \<Rightarrow> fframe list \<Rightarrow> nat \<Rightarrow> ft_ent list \<Rightarrow> ftree list \<Rightarrow> interval \<Rightarrow> interval \<Rightarrow> nat \<Rightarrow> nat \<Rightarrow> bool" where
  "overlap_at h k C c es ts V rng i j \<longleftrightarrow> descending h (Suc k) C (Nd c es ts) V rng \<and> overlapped es rng i j
     \<and> (\<forall>e \<in> set es. iv_set (irange e) \<subseteq> iv_set V \<inter> chole C)
     \<and> (left (irange (es ! 0)) = left V \<longrightarrow> chain (ts ! 0)) \<and> rng_ok rng"

lemma overlap_at_facts:
  assumes "overlap_at h k C c es ts V rng i j"
  shows "iv_set V \<subseteq> chole C" "cwf C" "cfit UNIV C" "length ts = length es + 1" "length es < FT_SPLITLIMIT" "sorted_ents es"
    "\<forall>t \<in> set ts. twf t" "chole C \<subseteq> iv_set V \<union> iv_set rng" "iv_set rng \<subseteq> chole C" "i < j" "j \<le> length es"
    "owns h (Suc k + length C) (plug C (Nd c es ts))" "owns h (Suc k) (Nd c es ts)" "iv_ok V"
proof -
  have D: "descending h (Suc k) C (Nd c es ts) V rng" and ov: "overlapped es rng i j"
    using assms by (auto simp: overlap_at_def)
  then show ij: "i < j" "j \<le> length es" by (auto simp: overlapped_def)
  then have "\<not> chain (Nd c es ts)" by auto
  then show "iv_set V \<subseteq> chole C" using D unfolding descending_def by blast
  show own: "owns h (Suc k + length C) (plug C (Nd c es ts))" using D unfolding descending_def by blast
  then show "owns h (Suc k) (Nd c es ts)" unfolding owns_plug by blast
  show "cwf C" "cfit UNIV C" "length ts = length es + 1" "length es < FT_SPLITLIMIT" "sorted_ents es"
    "\<forall>t \<in> set ts. twf t" "chole C \<subseteq> iv_set V \<union> iv_set rng" "iv_set rng \<subseteq> chole C" "iv_ok V"
    using D by (simp_all add: descending_def)
qed

lemma replaced_tree:
  fixes val :: int
  assumes O: "overlap_at h k C c es ts V rng i j"
  defines "es' \<equiv> replaced es i j (new_ent rng val)" and "ts' \<equiv> take (Suc i) ts @ drop j ts"
  shows "sorted_ents es'" "length ts' = length es' + 1" "length es' < FT_SPLITLIMIT" "\<forall>t \<in> set ts'. twf t"
    "\<forall>e \<in> set es'. iv_set (irange e) \<subseteq> chole C" "ts' = take i ts @ ts ! i # ts ! j # drop (Suc j) ts"
proof -
  note F = overlap_at_facts [OF O]
  have ov: "overlapped es rng i j" "rng_ok rng" and fit: "\<forall>e \<in> set es. iv_set (irange e) \<subseteq> iv_set V \<inter> chole C"
    using O by (auto simp: overlap_at_def)
  show "sorted_ents es'"
    unfolding es'_def by (rule replaced_sorted [OF ov(1) _ new_ent_ok [OF ov(2)]]) (simp add: new_ent_def)
  show "length ts' = length es' + 1" "length es' < FT_SPLITLIMIT"
    using F(4,5,10,11) by (auto simp: es'_def ts'_def replaced_nth(4))
  show "\<forall>t \<in> set ts'. twf t" using F(7) by (auto simp: ts'_def dest: in_set_takeD in_set_dropD)
  show "\<forall>e \<in> set es'. iv_set (irange e) \<subseteq> chole C"
    using fit F(9) by (auto simp: es'_def replaced_def new_ent_def dest: in_set_takeD in_set_dropD)
  have "drop j ts = ts ! j # drop (Suc j) ts" using F(4,11) by (simp add: Cons_nth_drop_Suc)
  moreover have "take (Suc i) ts = take i ts @ [ts ! i]" using F(4,10,11) by (simp add: take_Suc_conv_app_nth)
  ultimately show "ts' = take i ts @ ts ! i # ts ! j # drop (Suc j) ts" by (simp add: ts'_def)
qed

lemma right_ready:
  assumes O: "overlap_at h k C c es ts V rng i j"
    and own: "owns h' (Suc k + length C) (plug C (Nd c (replaced es i j (new_ent rng val)) (take (Suc i) ts @ drop j ts)))"
    and more: "right rng < right (irange (es ! (j - 1)))"
    and VR: "iv_ok VR" "iv_set VR = iv_set V \<inter> {right (irange (es ! (j - 1))) + 1 .. (if j = length es then BYTE_INDEX_MAX else left (irange (es ! j)) - 1)}"
  defines "rngR \<equiv> i_init (right rng + 1) (right (irange (es ! (j - 1))))"
  shows "descending h' k ((c, replaced es i j (new_ent rng val), take i ts @ [ts ! i], drop (Suc j) ts) # C) (ts ! j) VR rngR"
    and "iv_set VR \<inter> iv_set rngR = {}" and "rng_ok rngR"
proof -
  note F = overlap_at_facts [OF O]
  note T = replaced_tree(1-3,5) [OF O, where val = val] replaced_tree(4,6) [OF O]
  have ov: "overlapped es rng i j" and fit: "\<forall>e \<in> set es. iv_set (irange e) \<subseteq> iv_set V \<inter> chole C"
    using O by (auto simp: overlap_at_def)
  let ?es = "replaced es i j (new_ent rng val)" and ?p = "right (irange (es ! (j - 1)))"
  let ?F = "(c, ?es, take i ts @ [ts ! i], drop (Suc j) ts)"
  have jl: "j - 1 < length es" using F(10,11) by simp
  have pmax: "?p < BYTE_INDEX_MAX" and pe: "left (irange (es ! (j - 1))) \<le> ?p"
    using sorted_ents_ok [OF F(6) jl] by (auto simp: ent_ok_def)
  have prev: "iv_set (irange (es ! (j - 1))) \<subseteq> iv_set V \<inter> chole C" using fit jl nth_mem by blast
  have lp: "left (irange (es ! (j - 1))) \<le> right rng" and hi: "j < length es \<Longrightarrow> right rng < left (irange (es ! j))"
    using ov by (auto simp: overlapped_def)
  have pj: "?p < left (irange (es ! j))" if "j < length es"
    using sorted_ents_lt [OF F(6), of "j - 1" j] that F(10) by simp
  have in_R: "x \<in> iv_set rngR \<longleftrightarrow> right rng < x \<and> x \<le> ?p" for x
    unfolding rngR_def by (simp add: iv_set_def word_succ_le [OF more])
  have in_V: "x \<in> iv_set VR \<longleftrightarrow> x \<in> iv_set V \<and> ?p < x \<and> (j < length es \<longrightarrow> x < left (irange (es ! j)))" for x
  proof -
    have "j < length es \<Longrightarrow> 0 < left (irange (es ! j))" using hi by (auto intro: le_less_trans)
    then show ?thesis using word_succ_le [OF pmax] word_le_pred [of "left (irange (es ! j))" x] F(11) unfolding VR(2) by auto
  qed
  have gap: "in_gap ?es (Suc i) x \<longleftrightarrow> right rng < x \<and> (j < length es \<longrightarrow> x < left (irange (es ! j)))" for x
    by (rule replaced_gap(2) [OF ov]) (simp add: new_ent_def)
  have len: "length (take i ts @ [ts ! i]) = Suc i" using F(4,10,11) by simp
  have hole: "chole (?F # C) = {x. right rng < x \<and> (j < length es \<longrightarrow> x < left (irange (es ! j)))} \<inter> chole C"
    using gap len by (auto simp del: length_append)
  show "iv_set VR \<inter> iv_set rngR = {}" using in_R in_V by auto
  show "rng_ok rngR" using more pmax word_succ_le [OF more] by (auto simp: rng_ok_def rngR_def)
  have pl: "plug (?F # C) (ts ! j) = plug C (Nd c ?es (take (Suc i) ts @ drop j ts))"
    using T(6) by simp
  have "k + length (?F # C) = Suc k + length C" by simp
  moreover have "cwf (?F # C)"
    using T(1-3,5) F(2) len unfolding T(6) by auto
  moreover have "cfit UNIV (?F # C)" using T(4) F(3) by auto
  moreover have "twf (ts ! j)" using F(4,7,11) by auto
  moreover have "iv_set rngR \<subseteq> chole (?F # C)"
  proof
    fix x assume "x \<in> iv_set rngR"
    then have x: "right rng < x" "x \<le> ?p" using in_R by auto
    then have "x \<in> iv_set (irange (es ! (j - 1)))" using lp by (auto simp: iv_set_def)
    then show "x \<in> chole (?F # C)" unfolding hole using prev x pj by auto
  qed
  moreover have "iv_set VR \<subseteq> chole (?F # C)"
    unfolding hole using in_V F(1) more by auto
  moreover have "chole (?F # C) \<subseteq> iv_set VR \<union> iv_set rngR"
    unfolding hole using in_V in_R F(8) by (auto simp: iv_set_def)
  ultimately show "descending h' k (?F # C) (ts ! j) VR rngR"
    unfolding descending_def pl using own VR(1) by simp
qed

lemma left_ready:
  assumes O: "overlap_at h k C c es ts V rng i j"
    and own: "owns h' (k + length J) (plug J (ts ! i))" and J: "cwf J" "cfit UNIV J"
    and hole: "chole J = {x. in_gap (replaced es i j (new_ent rng val)) i x} \<inter> chole C"
    and less: "left (irange (es ! i)) < left rng"
    and VL: "iv_ok VL" "iv_set VL = iv_set V \<inter> {(if i = 0 then BYTE_INDEX_MIN else right (irange (es ! (i - 1))) + 1) .. left (irange (es ! i)) - 1}"
  defines "rngL \<equiv> i_init (left (irange (es ! i))) (left rng - 1)"
  shows "descending h' k J (ts ! i) VL rngL" and "iv_set VL \<inter> iv_set rngL = {} \<or> chain (ts ! i)" and "rng_ok rngL"
proof -
  note F = overlap_at_facts [OF O]
  have ov: "overlapped es rng i j" and fit: "\<forall>e \<in> set es. iv_set (irange e) \<subseteq> iv_set V \<inter> chole C"
    and ch: "left (irange (es ! 0)) = left V \<longrightarrow> chain (ts ! 0)" and rok: "rng_ok rng"
    using O by (auto simp: overlap_at_def)
  let ?c = "left (irange (es ! i))"
  have il: "i < length es" using F(10,11) by simp
  have pos: "0 < left rng" using less by (auto intro: le_less_trans)
  have in_L: "x \<in> iv_set rngL \<longleftrightarrow> ?c \<le> x \<and> x < left rng" for x
    unfolding rngL_def by (simp add: iv_set_def word_le_pred [OF pos])
  have cur: "iv_set (irange (es ! i)) \<subseteq> iv_set V \<inter> chole C" using fit il nth_mem by blast
  have lo: "left rng \<le> right (irange (es ! i))" and before: "\<forall>m < i. right (irange (es ! m)) < left rng"
    using ov by (auto simp: overlapped_def)
  have mono: "(\<forall>m < i. right (irange (es ! m)) < x) \<longleftrightarrow> i = 0 \<or> right (irange (es ! (i - 1))) < x" for x
  proof (cases "i = 0")
    case False
    have "right (irange (es ! m)) \<le> right (irange (es ! (i - 1)))" if "m < i" for m
      using sorted_ents_right_mono [OF F(6), of m "i - 1"] that il by simp
    with False show ?thesis by (metis One_nat_def diff_Suc_less le_less_trans neq0_conv)
  qed simp
  have lob: "(if i = 0 then BYTE_INDEX_MIN else right (irange (es ! (i - 1))) + 1) \<le> x
      \<longleftrightarrow> (\<forall>m < i. right (irange (es ! m)) < x)" for x
  proof (cases "i = 0")
    case False
    have "right (irange (es ! (i - 1))) < BYTE_INDEX_MAX"
      using sorted_ents_ok [OF F(6), of "i - 1"] il by (simp add: ent_ok_def)
    from word_succ_le [OF this] False show ?thesis unfolding mono by simp
  qed simp
  have gap: "in_gap (replaced es i j (new_ent rng val)) i x \<longleftrightarrow> (\<forall>m < i. right (irange (es ! m)) < x) \<and> x < left rng" for x
    by (rule replaced_gap(1) [OF ov]) (simp add: new_ent_def)
  have R: "iv_set rngL \<subseteq> chole J"
  proof
    fix x assume "x \<in> iv_set rngL"
    then have x: "?c \<le> x" "x < left rng" using in_L by auto
    then have "x \<in> iv_set (irange (es ! i))" using lo by (auto simp: iv_set_def)
    moreover have "\<forall>m < i. right (irange (es ! m)) < x"
      using sorted_ents_lt [OF F(6) _ il] x(1) by (auto intro: less_le_trans)
    ultimately show "x \<in> chole J" unfolding hole gap using cur x by auto
  qed
  have nr: "x \<notin> iv_set rng" if "x \<in> chole J" for x using that unfolding hole gap by (auto simp: iv_set_def)
  have inV: "x \<in> iv_set V \<and> (\<forall>m < i. right (irange (es ! m)) < x) \<and> x < left rng" if "x \<in> chole J" for x
    using that nr [OF that] F(8) unfolding hole gap by auto
  have V: "(iv_set VL \<subseteq> chole J \<and> iv_set VL \<inter> iv_set rngL = {} \<or> chain (ts ! i)) \<and> chole J \<subseteq> iv_set VL \<union> iv_set rngL"
  proof (cases "?c = 0")
    case True
    have i0: "i = 0"
    proof (rule ccontr)
      assume "i \<noteq> 0"
      then have "right (irange (es ! (i - 1))) < ?c" using sorted_ents_lt [OF F(6) _ il, of "i - 1"] by simp
      with True show False by simp
    qed
    have "0 \<in> iv_set (irange (es ! i))" using True by (simp add: iv_set_def)
    then have "0 \<in> iv_set V" using cur by blast
    then have "left V = 0" by (simp add: iv_set_def)
    then have "chain (ts ! i)" using ch True i0 by simp
    moreover have "iv_set VL = iv_set V" unfolding VL(2) using True i0
      by (auto simp: BYTE_INDEX_MAX_def BYTE_INDEX_MIN_def)
    ultimately show ?thesis using inV by auto
  next
    case False
    then have "0 < ?c" by (simp add: word_neq_0_conv)
    then have in_V: "x \<in> iv_set VL \<longleftrightarrow> x \<in> iv_set V \<and> (\<forall>m < i. right (irange (es ! m)) < x) \<and> x < ?c" for x
      unfolding VL(2) using lob by (auto simp: word_le_pred)
    have "iv_set VL \<subseteq> chole J" unfolding hole gap using in_V F(1) less by auto
    moreover have "iv_set VL \<inter> iv_set rngL = {}" using in_V in_L by auto
    moreover have "chole J \<subseteq> iv_set VL \<union> iv_set rngL" using inV in_V in_L by force
    ultimately show ?thesis by blast
  qed
  then show "iv_set VL \<inter> iv_set rngL = {} \<or> chain (ts ! i)" by blast
  show "rng_ok rngL"
  proof -
    have "left rng - 1 < left rng" using pos by (simp add: word_le_pred [symmetric])
    moreover have "left rng \<le> right rng" "right rng < BYTE_INDEX_MAX" using rok by (auto simp: rng_ok_def)
    ultimately have "left rng - 1 < BYTE_INDEX_MAX" by (meson le_less_trans less_trans)
    then show ?thesis using less by (simp add: rng_ok_def rngL_def word_le_pred [OF pos])
  qed
  have "twf (ts ! i)" using F(4,7) il by auto
  then show "descending h' k J (ts ! i) VL rngL"
    unfolding descending_def using own J VL(1) R V by blast
qed

text \<open>The hole of a context is the set of bytes whose lookup depends on what fills it.\<close>

lemma chole_dep:
  assumes "cwf C"
  shows "x \<in> chole C \<longleftrightarrow> (\<exists>T. tlook (plug C T) x \<noteq> tlook (plug C Lf) x)"
proof
  let ?t = "Nd 0 [\<lparr>irange = i_init x x, fvalue = 0\<rparr>] [Lf, Lf]"
  have t: "tlook ?t x = Some 0" by (simp add: i_contains_val_def)
  assume "x \<in> chole C"
  then have "tlook (plug C ?t) x \<noteq> tlook (plug C Lf) x"
    using tlook_plug_in [OF assms, of x] t by (simp del: tlook.simps(2))
  then show "\<exists>T. tlook (plug C T) x \<noteq> tlook (plug C Lf) x" ..
next
  assume "\<exists>T. tlook (plug C T) x \<noteq> tlook (plug C Lf) x"
  then show "x \<in> chole C" using tlook_plug_cong [OF assms] by blast
qed

lemma chole_right:
  assumes J: "cwf J" and G: "cwf G" and R: "R \<inter> chole G = {}"
    and look: "\<And>T x. tlook (plug J T) x = (if x \<in> R then Some v else tlook (plug G T) x)"
  shows "chole J = chole G"
proof (rule set_eqI)
  fix x
  show "x \<in> chole J \<longleftrightarrow> x \<in> chole G"
  proof (cases "x \<in> R")
    case True
    then have "x \<notin> chole J" using chole_dep [OF J] look by simp
    with True R show ?thesis by blast
  next
    case False
    then show ?thesis using chole_dep [OF J] chole_dep [OF G] look by simp
  qed
qed

section \<open>Writing a range\<close>

text \<open>The continuations of a write, after its first insertion pass.\<close>

definition write_rest ::
  "gdp_log \<Rightarrow> nat \<Rightarrow> heap \<times> figtree \<times> ft_path \<times> insertcont \<Rightarrow> (figtree \<times> heap) res" where
  "write_rest log md = (\<lambda>(h, this, path, starinserts).
     bindR (if hasrightc starinserts then
              bindR (ft_insert log md h this (rightc starinserts) path True)
                (\<lambda>(h, this, path, newstar).
              assertR (\<not> hasleftc newstar \<and> \<not> hasrightc newstar) (h, this, path))
            else Inr (h, this, path)) (\<lambda>(h, this, path).
     bindR (if hasleftc starinserts then
              bindR (ft_insert log md h this (leftc starinserts) path False)
                (\<lambda>(h, this, path, newstar).
              assertR (\<not> hasleftc newstar \<and> \<not> hasrightc newstar) (h, this))
            else Inr (h, this)) (\<lambda>(h, this).
     Inr (this, h))))"

lemma ft_write_rest:
  assumes "root tr = Some rt" "mem h rt = Some nd"
  shows "ft_write log h tr start stop val = bindR (ft_insert log (nat (HEIGHT nd + 2)) h tr
      (args (i_init start stop) val (Some rt) (i_init BYTE_INDEX_MIN BYTE_INDEX_MAX)) [] False)
    (write_rest log (nat (HEIGHT nd + 2)))"
  unfolding ft_write_def write_rest_def args_def using assms by (simp add: Let_def)

lemma zero_cont_simps [simp]: "\<not> hasleftc zero_cont" "\<not> hasrightc zero_cont"
  by (simp_all add: zero_cont_def)

lemma conts_simps [simp]:
  "hasleftc (conts hl la hr ra) = hl" "hasrightc (conts hl la hr ra) = hr"
  "hl \<Longrightarrow> leftc (conts hl la hr ra) = la" "hr \<Longrightarrow> rightc (conts hl la hr ra) = ra"
  by (simp_all add: conts_def)

text \<open>The tree of a FIG tree is in memory, well formed, and rooted at its root pointer.\<close>

definition fig_ok :: "heap \<Rightarrow> figtree \<Rightarrow> ftree \<Rightarrow> bool" where
  "fig_ok h tr t \<longleftrightarrow> (\<exists>K. owns h (Suc K) t) \<and> twf t \<and> root tr = tptr t"

text \<open>The right continuation leaves the marker's context, with the same hole, and adds the right remainder.\<close>

lemma right_stage:
  assumes O: "overlap_at h k C c es ts V rng i j" and md: "Suc k + length C < md"
    and own: "owns h' (Suc k + length C) (plug C (Nd c (replaced es i j (new_ent rng val)) (take (Suc i) ts @ drop j ts)))"
    and root: "root tr = tptr (plug C (Nd c es ts))"
    and VR: "iv_ok VR" "iv_set VR = iv_set V \<inter> {right (irange (es ! (j - 1))) + 1 .. (if j = length es then BYTE_INDEX_MAX else left (irange (es ! j)) - 1)}"
  defines "hr \<equiv> right rng < right (irange (es ! (j - 1)))"
  shows "\<exists>h2 tr2 J. (if hr then bindR (ft_insert log md h' tr
          (args (i_init (right rng + 1) (right (irange (es ! (j - 1))))) (fvalue (es ! (j - 1))) (tptr (ts ! j)) VR)
          (cpath C @ [(c, if hr then Suc i else i)]) True)
        (\<lambda>(h, this, path, newstar). assertR (\<not> hasleftc newstar \<and> \<not> hasrightc newstar) (h, this, path))
      else Inr (h', tr, cpath C @ [(c, if hr then Suc i else i)])) = Inr (h2, tr2, cpath J)
    \<and> owns h2 (k + length J) (plug J (ts ! i)) \<and> root tr2 = tptr (plug J (ts ! i)) \<and> cwf J \<and> cfit UNIV J
    \<and> J \<noteq> [] \<and> k + length J \<le> Suc (Suc k + length C)
    \<and> chole J = {x. in_gap (replaced es i j (new_ent rng val)) i x} \<inter> chole C
    \<and> (\<forall>x. tlook (plug J (ts ! i)) x = (if right rng < x \<and> x \<le> right (irange (es ! (j - 1))) then Some (fvalue (es ! (j - 1)))
        else tlook (plug C (Nd c (replaced es i j (new_ent rng val)) (take (Suc i) ts @ drop j ts))) x))"
proof -
  note F = overlap_at_facts [OF O]
  note T = replaced_tree(1-3,5) [OF O, where val = val] replaced_tree(4,6) [OF O]
  have ov: "overlapped es rng i j" using O by (simp add: overlap_at_def)
  let ?es = "replaced es i j (new_ent rng val)" and ?ts = "take (Suc i) ts @ drop j ts"
  let ?G = "(c, ?es, take i ts, ts ! j # drop (Suc j) ts) # C"
  have li: "length (take i ts) = i" using F(4,10,11) by simp
  have G: "cwf ?G" "cfit UNIV ?G" using T(1-5) F(2,3) li unfolding T(6) by auto
  have holeG: "chole ?G = {x. in_gap ?es i x} \<inter> chole C" using li by (simp del: length_take)
  have plG: "plug ?G U = plug C (Nd c ?es (take i ts @ U # ts ! j # drop (Suc j) ts))" for U by simp
  have rootG: "root tr = tptr (plug C (Nd c ?es u))" for u unfolding root by (rule tptr_plug) simp
  show ?thesis
  proof (cases hr)
    case False
    have "cpath C @ [(c, i)] = cpath ?G" using li by (simp del: length_take)
    moreover have "owns h' (k + length ?G) (plug ?G (ts ! i))" using own plG T(6) by simp
    moreover have "root tr = tptr (plug ?G (ts ! i))" unfolding plG by (rule rootG)
    moreover have "tlook (plug ?G (ts ! i)) x = (if right rng < x \<and> x \<le> right (irange (es ! (j - 1))) then Some (fvalue (es ! (j - 1)))
        else tlook (plug C (Nd c ?es ?ts)) x)" for x
      unfolding plG T(6) using False by (auto simp: hr_def)
    ultimately show ?thesis using False G holeG
      by (intro exI[of _ h'] exI[of _ tr] exI[of _ ?G]) (simp del: plug.simps cwf.simps cfit.simps chole.simps cpath.simps)
  next
    case True
    let ?rng = "i_init (right rng + 1) (right (irange (es ! (j - 1))))"
    let ?F = "(c, ?es, take i ts @ [ts ! i], drop (Suc j) ts)"
    note R = right_ready [OF O own True [unfolded hr_def] VR]
    have cp: "cpath (?F # C) = cpath C @ [(c, Suc i)]" using li by simp
    have "descent_bottom k (?F # C) (ts ! j) ?rng (ft_descend (md + 1) log md h' ?rng (fvalue (es ! (j - 1))) (tptr (ts ! j)) VR (cpath (?F # C)))"
      using descend_spec [OF R(1), of md "md + 1" log "fvalue (es ! (j - 1))"] R(2,3) md by (auto simp: rng_ok_def)
    moreover have "root tr = tptr (plug (?F # C) (ts ! j))" using rootG by simp
    ultimately obtain h2 tr2 J where A: "ft_insert log md h' tr (args ?rng (fvalue (es ! (j - 1))) (tptr (ts ! j)) VR) (cpath (?F # C)) True
        = Inr (h2, tr2, cpath J, zero_cont)"
      "owns h2 (k + length J) (plug J (ts ! i))" "J \<noteq> []" "length J \<le> length C + 2"
      "root tr2 = tptr (plug J (ts ! i))" "cwf J" "cfit UNIV J"
      "\<forall>T x. tlook (plug J T) x = (if x \<in> iv_set ?rng then Some (fvalue (es ! (j - 1)))
        else tlook (plug C (Nd c ?es (take i ts @ T # ts ! j # drop (Suc j) ts))) x)"
      using insert_right [OF R(1,3), of md log "fvalue (es ! (j - 1))" tr] md by auto
    have in_R: "x \<in> iv_set ?rng \<longleftrightarrow> right rng < x \<and> x \<le> right (irange (es ! (j - 1)))" for x
      using True by (simp add: iv_set_def word_succ_le hr_def)
    have gap: "in_gap ?es i x \<longleftrightarrow> (\<forall>m < i. right (irange (es ! m)) < x) \<and> x < left rng" for x
      by (rule replaced_gap(1) [OF ov]) (simp add: new_ent_def)
    have "iv_set ?rng \<inter> chole ?G = {}"
      unfolding holeG gap using in_R ov by (auto simp: overlapped_def)
    then have "chole J = chole ?G"
      by (rule chole_right [OF A(6) G(1), where v = "fvalue (es ! (j - 1))"]) (use A(8) in simp)
    moreover have "tlook (plug J (ts ! i)) x = (if right rng < x \<and> x \<le> right (irange (es ! (j - 1))) then Some (fvalue (es ! (j - 1)))
        else tlook (plug C (Nd c ?es ?ts)) x)" for x
      using A(8) in_R unfolding T(6) by simp
    ultimately show ?thesis using A(1-7) True holeG cp
      by (intro exI[of _ h2] exI[of _ tr2] exI[of _ J]) (simp del: cpath.simps)
  qed
qed

text \<open>The left continuation completes the tree with the left remainder.\<close>

lemma left_stage:
  assumes O: "overlap_at h k C c es ts V rng i j" and md: "k + length J \<le> md"
    and own: "owns h' (k + length J) (plug J (ts ! i))" and root: "root tr = tptr (plug J (ts ! i))"
    and J: "cwf J" "cfit UNIV J" "J \<noteq> []"
    and hole: "chole J = {x. in_gap (replaced es i j (new_ent rng val)) i x} \<inter> chole C"
    and VL: "iv_ok VL" "iv_set VL = iv_set V \<inter> {(if i = 0 then BYTE_INDEX_MIN else right (irange (es ! (i - 1))) + 1) .. left (irange (es ! i)) - 1}"
  defines "hl \<equiv> left (irange (es ! i)) < left rng"
  shows "\<exists>h2 tr2 t. (if hl then bindR (ft_insert log md h' tr
          (args (i_init (left (irange (es ! i))) (left rng - 1)) (fvalue (es ! i)) (tptr (ts ! i)) VL) (cpath J) False)
        (\<lambda>(h, this, path, newstar). assertR (\<not> hasleftc newstar \<and> \<not> hasrightc newstar) (h, this))
      else Inr (h', tr)) = Inr (h2, tr2) \<and> fig_ok h2 tr2 t
    \<and> (\<forall>x. tlook t x = (if left (irange (es ! i)) \<le> x \<and> x < left rng then Some (fvalue (es ! i)) else tlook (plug J (ts ! i)) x))"
proof (cases hl)
  case False
  note F = overlap_at_facts [OF O]
  have "twf (ts ! i)" using F(4,7,10,11) by auto
  moreover obtain n where "k + length J = Suc n" using J(3) by (cases J) auto
  ultimately have "fig_ok h' tr (plug J (ts ! i))" using own root J(1) by (auto simp: fig_ok_def)
  moreover have "tlook (plug J (ts ! i)) x = (if left (irange (es ! i)) \<le> x \<and> x < left rng then Some (fvalue (es ! i)) else tlook (plug J (ts ! i)) x)" for x
    using False by (auto simp: hl_def)
  ultimately show ?thesis using False by auto
next
  case True
  let ?rng = "i_init (left (irange (es ! i))) (left rng - 1)"
  note L = left_ready [OF O own J(1,2) hole True [unfolded hl_def] VL]
  have pos: "0 < left rng" using True by (auto simp: hl_def intro: le_less_trans)
  have bot: "descent_bottom k J (ts ! i) ?rng (ft_descend (md + 1) log md h' ?rng (fvalue (es ! i)) (tptr (ts ! i)) VL (cpath J))"
    using descend_spec [OF L(1), of md "md + 1" log "fvalue (es ! i)"] L(2,3) md by (auto simp: rng_ok_def)
  have "0 < k + length J" using J(3) by simp
  from insert_plain [OF L(1,3) this bot root] obtain h2 tr2 path t K where A:
    "ft_insert log md h' tr (args ?rng (fvalue (es ! i)) (tptr (ts ! i)) VL) (cpath J) False = Inr (h2, tr2, path, zero_cont)"
    "root tr2 = tptr t" "owns h2 (Suc K) t" "twf t"
    "\<forall>x. tlook t x = (if x \<in> iv_set ?rng then Some (fvalue (es ! i)) else tlook (plug J (ts ! i)) x)" by blast
  have "x \<in> iv_set ?rng \<longleftrightarrow> left (irange (es ! i)) \<le> x \<and> x < left rng" for x
    by (simp add: iv_set_def word_le_pred [OF pos])
  with A True show ?thesis
    by (intro exI[of _ h2] exI[of _ tr2] exI[of _ t]) (auto simp: fig_ok_def)
qed

text \<open>Together with the remainders, the replaced entries look up as before outside the new range.\<close>

lemma overlap_look:
  assumes O: "overlap_at h k C c es ts V rng i j"
  shows "(if left (irange (es ! i)) \<le> x \<and> x < left rng then Some (fvalue (es ! i))
      else if right rng < x \<and> x \<le> right (irange (es ! (j - 1))) then Some (fvalue (es ! (j - 1)))
      else tlook (plug C (Nd c (replaced es i j (new_ent rng val)) (take (Suc i) ts @ drop j ts))) x)
    = (if x \<in> iv_set rng then Some val else tlook (plug C (Nd c es ts)) x)"
proof -
  note F = overlap_at_facts [OF O]
  have ov: "overlapped es rng i j" and rok: "rng_ok rng" and fit: "\<forall>e \<in> set es. iv_set (irange e) \<subseteq> iv_set V \<inter> chole C"
    using O by (auto simp: overlap_at_def)
  let ?es = "replaced es i j (new_ent rng val)" and ?ts = "take (Suc i) ts @ drop j ts"
  have ent: "tlook (plug C (Nd c es ts)) x = Some (fvalue (es ! m))" if "m < length es" "x \<in> iv_set (irange (es ! m))" for m
  proof -
    have "x \<in> chole C" using that fit nth_mem by blast
    then show ?thesis using tlook_plug_in [OF F(2)] nlook_entry [OF F(6) that] by simp
  qed
  have r: "left rng \<le> right rng" "left rng \<le> right (irange (es ! i))" "left (irange (es ! (j - 1))) \<le> right rng"
    using ov by (auto simp: overlapped_def)
  consider (l) "left (irange (es ! i)) \<le> x" "x < left rng" | (r) "right rng < x" "x \<le> right (irange (es ! (j - 1)))"
    | (new) "x \<in> iv_set rng" | (old) "x \<notin> iv_set rng" "\<not> (left (irange (es ! i)) \<le> x \<and> x < left rng)"
      "\<not> (right rng < x \<and> x \<le> right (irange (es ! (j - 1))))" by blast
  then show ?thesis
  proof cases
    case l
    then have "x \<in> iv_set (irange (es ! i))" "x \<notin> iv_set rng" using r by (auto simp: iv_set_def)
    with l ent [of i] F(10,11) show ?thesis by simp
  next
    case r
    then have "x \<in> iv_set (irange (es ! (j - 1)))" "x \<notin> iv_set rng" "\<not> x < left rng"
      using \<open>left (irange (es ! (j - 1))) \<le> right rng\<close> \<open>left rng \<le> right rng\<close> by (auto simp: iv_set_def)
    with r ent [of "j - 1"] F(10,11) show ?thesis by simp
  next
    case new
    have "nlook ?es (map tlook ?ts) x = Some val"
      using nlook_entry [OF replaced_tree(1) [OF O, where val = val], of i x "map tlook ?ts"] new
        replaced_nth(2,4) [OF F(10,11), where e = "new_ent rng val"] by (simp add: new_ent_def)
    then have "tlook (plug C (Nd c ?es ?ts)) x = Some val"
      using tlook_plug_in [OF F(2)] new F(9) by auto
    with new show ?thesis by (auto simp: iv_set_def)
  next
    case old
    have "nlook ?es (take (Suc i) (map tlook ts) @ drop j (map tlook ts)) x = nlook es (map tlook ts) x"
      by (rule replaced_look [OF ov _ new_ent_ok [OF rok] _ old]) (use F(4) in \<open>auto simp: new_ent_def\<close>)
    then have "tlook (Nd c ?es ?ts) x = tlook (Nd c es ts) x" by (simp add: take_map drop_map)
    then have "tlook (plug C (Nd c ?es ?ts)) x = tlook (plug C (Nd c es ts)) x"
      by (intro tlook_plug_cong [OF F(2)])
    with old show ?thesis by auto
  qed
qed

lemma ft_insert_replace:
  assumes "ft_descend (md + 1) log md h rng val at V path0 = Inr (Some c, h1, path, ic)"
  shows "ft_insert log md h tr (args rng val at V) path0 False = Inr (h1, tr, path, ic)"
  using assms by (simp add: ft_insert_def args_def)

lemma write_overlap:
  assumes O: "overlap_at h1 k C c es ts V rng i j" and j: "j = ft_overlap_end es rng (i + 1)"
    and md: "md = Suc (Suc k + length C)" and root: "root tr = tptr (plug C (Nd c es ts))"
    and first: "ft_insert log md h tr a [] False = bindR (ft_replace log md h1 rng val c V (cpath C) i)
      (\<lambda>(h, path, ic). Inr (h, tr, path, ic))"
  shows "\<exists>tr' h' t'. bindR (ft_insert log md h tr a [] False) (write_rest log md) = Inr (tr', h') \<and> fig_ok h' tr' t'
    \<and> (\<forall>x. tlook t' x = (if x \<in> iv_set rng then Some val else tlook (plug C (Nd c es ts)) x))"
proof -
  note F = overlap_at_facts [OF O]
  have ov: "overlapped es rng i j" and rok: "rng_ok rng" and fit: "\<forall>e \<in> set es. iv_set (irange e) \<subseteq> iv_set V \<inter> chole C"
    using O by (auto simp: overlap_at_def)
  let ?es = "replaced es i j (new_ent rng val)" and ?ts = "take (Suc i) ts @ drop j ts"
  let ?hr = "right rng < right (irange (es ! (j - 1)))" and ?hl = "left (irange (es ! i)) < left rng"
  have lt: "length (cpath C) < md" using md by simp
  obtain h2 VL VR where R: "ft_replace log md h1 rng val c V (cpath C) i = Inr (h2,
       cpath C @ [(c, if ?hr then Suc i else i)],
       conts ?hl (args (i_init (left (irange (es ! i))) (left rng - 1)) (fvalue (es ! i)) (tptr (ts ! i)) VL)
         ?hr (args (i_init (right rng + 1) (right (irange (es ! (j - 1))))) (fvalue (es ! (j - 1))) (tptr (ts ! j)) VR))"
    "owns h2 (Suc k) (Nd c ?es ?ts)" "evolves h1 (Nd c es ts) h2 (Nd c ?es ?ts)"
    "iv_ok VL" "iv_set VL = iv_set V \<inter> {(if i = 0 then BYTE_INDEX_MIN else right (irange (es ! (i - 1))) + 1) .. left (irange (es ! i)) - 1}"
    "iv_ok VR" "iv_set VR = iv_set V \<inter> {right (irange (es ! (j - 1))) + 1 .. (if j = length es then BYTE_INDEX_MAX else left (irange (es ! j)) - 1)}"
    by (rule ft_replace_eq [OF F(13,4,14) ov j lt, where log = log and val = val])
  have own2: "owns h2 (Suc k + length C) (plug C (Nd c ?es ?ts))"
    by (rule plug_evolves [OF F(12) R(2,3)]) simp
  obtain h3 tr3 J where A: "(if ?hr then bindR (ft_insert log md h2 tr
          (args (i_init (right rng + 1) (right (irange (es ! (j - 1))))) (fvalue (es ! (j - 1))) (tptr (ts ! j)) VR)
          (cpath C @ [(c, if ?hr then Suc i else i)]) True)
        (\<lambda>(h, this, path, newstar). assertR (\<not> hasleftc newstar \<and> \<not> hasrightc newstar) (h, this, path))
      else Inr (h2, tr, cpath C @ [(c, if ?hr then Suc i else i)])) = Inr (h3, tr3, cpath J)"
    "owns h3 (k + length J) (plug J (ts ! i))" "root tr3 = tptr (plug J (ts ! i))" "cwf J" "cfit UNIV J"
    "J \<noteq> []" "k + length J \<le> Suc (Suc k + length C)"
    "chole J = {x. in_gap ?es i x} \<inter> chole C"
    "\<forall>x. tlook (plug J (ts ! i)) x = (if right rng < x \<and> x \<le> right (irange (es ! (j - 1))) then Some (fvalue (es ! (j - 1)))
        else tlook (plug C (Nd c ?es ?ts)) x)"
    using right_stage [OF O _ own2 root R(6,7), of md log] md by (auto simp del: tlook.simps cpath.simps)
  obtain h4 tr4 t where B: "(if ?hl then bindR (ft_insert log md h3 tr3
          (args (i_init (left (irange (es ! i))) (left rng - 1)) (fvalue (es ! i)) (tptr (ts ! i)) VL) (cpath J) False)
        (\<lambda>(h, this, path, newstar). assertR (\<not> hasleftc newstar \<and> \<not> hasrightc newstar) (h, this))
      else Inr (h3, tr3)) = Inr (h4, tr4)" "fig_ok h4 tr4 t"
    "\<forall>x. tlook t x = (if left (irange (es ! i)) \<le> x \<and> x < left rng then Some (fvalue (es ! i)) else tlook (plug J (ts ! i)) x)"
    using left_stage [OF O _ A(2,3,4,5,6,8) R(4,5), of md log] A(7) md by auto
  have "bindR (ft_insert log md h tr a [] False) (write_rest log md) = Inr (tr4, h4)"
    unfolding first R(1) bindR_simps prod.case write_rest_def conts_simps
    using A(1) B(1) by (cases ?hr; cases ?hl; simp)
  moreover have "tlook t x = (if x \<in> iv_set rng then Some val else tlook (plug C (Nd c es ts)) x)" for x
    unfolding overlap_look [OF O, symmetric] using A(9) B(3) by simp
  ultimately show ?thesis using B(2) by blast
qed

lemma ft_write_spec:
  assumes ok: "fig_ok h tr t" and rng: "start \<le> stop" "stop < BYTE_INDEX_MAX"
  shows "\<exists>tr' h' t'. ft_write log h tr start stop val = Inr (tr', h') \<and> fig_ok h' tr' t'
    \<and> (\<forall>x. tlook t' x = (if start \<le> x \<and> x \<le> stop then Some val else tlook t x))"
proof -
  from ok obtain K where own: "owns h (Suc K) t" and wf: "twf t" and root: "root tr = tptr t"
    by (auto simp: fig_ok_def)
  then obtain rt es0 ts0 where t: "t = Nd rt es0 ts0" by (cases t) (auto simp: owns_def)
  with own obtain nd where nd: "mem h rt = Some nd" "HEIGHT nd = int K" by (auto elim: owns_node)
  let ?V = "i_init BYTE_INDEX_MIN BYTE_INDEX_MAX" and ?rng = "i_init start stop" and ?md = "Suc (Suc K)"
  have rok: "rng_ok ?rng" using rng by (simp add: rng_ok_def)
  have D: "descending h (Suc K) [] t ?V ?rng"
    using own wf by (auto simp: descending_def iv_ok_init iv_set_def)
  have md: "nat (HEIGHT nd + 2) = ?md" using nd(2) by simp
  have wr: "ft_write log h tr start stop val =
      bindR (ft_insert log ?md h tr (args ?rng val (tptr t) ?V) (cpath []) False) (write_rest log ?md)"
    using ft_write_rest [of tr rt h nd] root t nd(1) md by simp
  have x: "x \<in> iv_set ?rng \<longleftrightarrow> start \<le> x \<and> x \<le> stop" for x by (simp add: iv_set_def)
  let ?d = "ft_descend (?md + 1) log ?md h ?rng val (tptr t) ?V (cpath [])"
  have "descent_bottom (Suc K) [] t ?rng ?d \<or> descent_overlap log ?md val (Suc K) [] t ?rng ?d"
    using descend_spec [OF D, of ?md "?md + 1" log val] rng by auto
  then show ?thesis
  proof
    assume bot: "descent_bottom (Suc K) [] t ?rng ?d"
    have pos: "0 < Suc K + length ([] :: fframe list)" and root0: "root tr = tptr (plug [] t)" using root by simp_all
    from insert_plain [OF D rok pos bot root0, unfolded plug.simps] obtain h' tr' path t' K' where
      "ft_insert log ?md h tr (args ?rng val (tptr t) ?V) (cpath []) False = Inr (h', tr', path, zero_cont)"
      "root tr' = tptr t'" "owns h' (Suc K') t'" "twf t'"
      "\<forall>x. tlook t' x = (if x \<in> iv_set ?rng then Some val else tlook t x)" by blast
    then show ?thesis unfolding wr x
      by (intro exI[of _ tr'] exI[of _ h'] exI[of _ t']) (auto simp: write_rest_def fig_ok_def)
  next
    assume "descent_overlap log ?md val (Suc K) [] t ?rng ?d"
    then obtain h1 C k c es ts V i where A:
      "?d = bindR (ft_replace log ?md h1 ?rng val c V (cpath C) i) (\<lambda>(h, path, ic). Inr (Some c, h, path, ic))"
      "descending h1 (Suc k) C (Nd c es ts) V ?rng" "Suc K = length C + Suc k"
      "\<forall>e \<in> set es. iv_set (irange e) \<subseteq> iv_set V \<inter> chole C"
      "i < length es" "i_overlaps (irange (es ! i)) ?rng" "\<forall>j < i. right (irange (es ! j)) < left ?rng"
      "left (irange (es ! 0)) = left V \<longrightarrow> chain (ts ! 0)" "tptr (plug C (Nd c es ts)) = tptr t"
      "\<forall>x. x \<notin> iv_set ?rng \<longrightarrow> tlook (plug C (Nd c es ts)) x = tlook t x"
      unfolding descent_overlap_def append_Nil2 chole.simps by blast
    have s: "sorted_ents es" using A(2) by (simp add: descending_def)
    let ?j = "ft_overlap_end es ?rng (i + 1)"
    have O: "overlap_at h1 k C c es ts V ?rng i ?j"
      unfolding overlap_at_def using A(2,4,8) rok overlapped_scan [OF s A(5,6) _ A(7)] rng by simp
    have first: "ft_insert log ?md h tr (args ?rng val (tptr t) ?V) [] False
        = bindR (ft_replace log ?md h1 ?rng val c V (cpath C) i) (\<lambda>(h, path, ic). Inr (h, tr, path, ic))"
    proof (cases "ft_replace log ?md h1 ?rng val c V (cpath C) i")
      case (Inl e)
      then show ?thesis using A(1) by (simp add: ft_insert_def args_def)
    next
      case (Inr r)
      then show ?thesis using A(1) ft_insert_replace by (cases r) auto
    qed
    obtain tr' h' t' where "bindR (ft_insert log ?md h tr (args ?rng val (tptr t) ?V) [] False) (write_rest log ?md) = Inr (tr', h')"
      "fig_ok h' tr' t'" "\<forall>x. tlook t' x = (if x \<in> iv_set ?rng then Some val else tlook (plug C (Nd c es ts)) x)"
      using write_overlap [OF O refl _ _ first] A(3,9) root by auto
    then show ?thesis unfolding wr x using A(10) x
      by (intro exI[of _ tr'] exI[of _ h'] exI[of _ t']) simp
  qed
qed

section \<open>Lookup\<close>

lemma lookup_scan_spec:
  assumes "sorted_ents es" "i \<le> length es" "\<forall>j < i. right (irange (es ! j)) < x"
  shows "case ft_lookup_scan es x i of
      Inl v \<Rightarrow> \<exists>j < length es. x \<in> iv_set (irange (es ! j)) \<and> v = fvalue (es ! j)
    | Inr g \<Rightarrow> in_gap es g x"
  using assms
proof (induction es x i rule: ft_lookup_scan.induct)
  case (1 es x i)
  consider "i < length es" "i_contains_val (irange (es ! i)) x" | "i < length es" "x < left (irange (es ! i))"
      "\<not> i_contains_val (irange (es ! i)) x"
    | "i < length es" "\<not> i_contains_val (irange (es ! i)) x" "\<not> x < left (irange (es ! i))" | "\<not> i < length es" by blast
  then show ?case
  proof cases
    case 1
    then show ?thesis by (subst ft_lookup_scan.simps) (auto simp: i_contains_val_iff)
  next
    case 2
    then have "in_gap es i x" using "1.prems" sorted_ents_left_mono [OF "1.prems"(1), of i]
      unfolding in_gap_def by (meson less_imp_le less_le_trans)
    with 2 show ?thesis by (subst ft_lookup_scan.simps) simp
  next
    case 3
    then have "right (irange (es ! i)) < x" by (auto simp: i_contains_val_def)
    then have "\<forall>j < i + 1. right (irange (es ! j)) < x" using "1.prems"(3) by (auto simp: less_Suc_eq)
    with "1.IH" [OF 3] "1.prems"(1) 3 show ?thesis by (subst ft_lookup_scan.simps) simp
  next
    case 4
    then have "in_gap es (length es) x" using "1.prems" by (auto simp: in_gap_def)
    with 4 show ?thesis by (subst ft_lookup_scan.simps) simp
  qed
qed

lemma ft_lookup_from_spec:
  "owns h k t \<Longrightarrow> twf t \<Longrightarrow> k < n \<Longrightarrow> ft_lookup_from n log h (tptr t) x = Inr (tlook t x, h)"
proof (induction n arbitrary: k t)
  case 0
  then show ?case by simp
next
  case (Suc n)
  show ?case
  proof (cases t)
    case Lf
    then show ?thesis by simp
  next
    case (Nd a es ts)
    then obtain k' where k: "k = Suc k'" using Suc.prems(1) by (cases k) (auto simp: owns_def)
    from Suc.prems(1) Nd k obtain nd where nd: "mem h a = Some nd" "entries nd = es" by (auto elim: owns_node)
    have s: "sorted_ents es" "length ts = length es + 1" using Suc.prems(2) Nd by auto
    note scan = lookup_scan_spec [OF s(1), where i = 0 and x = x, simplified]
    show ?thesis
    proof (cases "ft_lookup_scan es x 0")
      case (Inl v)
      with scan obtain j where "j < length es" "x \<in> iv_set (irange (es ! j))" "v = fvalue (es ! j)" by auto
      then have "tlook t x = Some v" using nlook_entry [OF s(1)] Nd by simp
      with Inl nd Nd show ?thesis by simp
    next
      case (Inr g)
      with scan have g: "in_gap es g x" by simp
      then have gl: "g < length ts" using s(2) by (simp add: in_gap_def)
      have "subtree_get log h a g = Inr (tptr (ts ! g), h)"
        using owns_subtree_get [of h k' a es ts g log] Suc.prems(1) Nd k gl by simp
      moreover have "ft_lookup_from n log h (tptr (ts ! g)) x = Inr (tlook (ts ! g) x, h)"
        using Suc.IH [of k' "ts ! g"] owns_child [of h k' a es ts g] Suc.prems Nd k gl by auto
      moreover have "tlook t x = tlook (ts ! g) x"
        using nlook_gap [OF s(1) g, of "map tlook ts"] s(2) gl Nd by simp
      ultimately show ?thesis using Inr nd Nd by simp
    qed
  qed
qed

lemma ft_lookup_spec:
  assumes "fig_ok h tr t"
  shows "ft_lookup log h tr x = Inr (tlook t x, h)"
proof -
  from assms obtain K where own: "owns h (Suc K) t" and wf: "twf t" and root: "root tr = tptr t"
    by (auto simp: fig_ok_def)
  then obtain a es ts where t: "t = Nd a es ts" by (cases t) (auto simp: owns_def)
  with own obtain nd where nd: "mem h a = Some nd" "HEIGHT nd = int K" by (auto elim: owns_node)
  then have "nat (HEIGHT nd + 2) = Suc (Suc K)" by simp
  with ft_lookup_from_spec [OF own wf, of "Suc (Suc K)" log x] root t nd show ?thesis
    by (simp add: ft_lookup_def)
qed

section \<open>Initialisation\<close>

lemma ft_init_spec:
  assumes "heap_ok h"
  shows "\<exists>tr h' t. ft_init h = Inr (tr, h') \<and> fig_ok h' tr t \<and> (\<forall>x. tlook t x = None)"
proof -
  obtain p h' t where A: "ftn_new h (int 0) True = Inr (p, h')" "rep h' (Suc 0) (Some p) t" "chain t" "heap_ok h'"
    "distinct (addrs t)" using ftn_new_spec [OF assms, of 0] by blast
  have "tptr t = Some p" using rep_tptr [OF A(2)] by simp
  then have "fig_ok h' \<lparr>root = Some p\<rparr> t"
    using A chain_twf by (auto simp: fig_ok_def owns_def intro!: exI[of _ 0])
  then show ?thesis using A(1) chain_look [OF A(3)] by (auto simp: ft_init_def)
qed

end
