(* ===== verification/Extent_Map.thy ===== *)
theory Extent_Map
  imports Fig_Correct
begin

text \<open>
  What a FIG tree promises to its clients: a map from byte indices to values that is written a
  range at a time. The interface is the locale \<open>extent_map\<close>, its client lemmas are on sequences of
  writes, and it is interpreted on \<open>ft_write\<close> and \<open>ft_lookup\<close>.
\<close>

section \<open>The interface\<close>

type_synonym extent = "byte_index_t \<times> byte_index_t \<times> int"

definition extent_ok :: "extent \<Rightarrow> bool" where
  "extent_ok w = (case w of (a, b, v) \<Rightarrow> a \<le> b \<and> b < BYTE_INDEX_MAX)"

text \<open>The value of a byte after a sequence of writes, the last one that covers it winning.\<close>

primrec last_write :: "extent list \<Rightarrow> byte_index_t \<Rightarrow> int option \<Rightarrow> int option" where
  "last_write [] x d = d"
| "last_write (w # ws) x d = last_write ws x (case w of (a, b, v) \<Rightarrow> if a \<le> x \<and> x \<le> b then Some v else d)"

lemma last_write_append: "last_write (us @ ws) x d = last_write ws x (last_write us x d)"
  by (induction us arbitrary: d) auto

lemma last_write_covered:
  "(\<exists>(a, b, v) \<in> set ws. a \<le> x \<and> x \<le> b) \<Longrightarrow> last_write ws x d = last_write ws x d'"
  by (induction ws arbitrary: d d') (force split: prod.splits)+

lemma last_write_uncovered:
  "\<forall>(a, b, v) \<in> set ws. \<not> (a \<le> x \<and> x \<le> b) \<Longrightarrow> last_write ws x d = d"
  by (induction ws arbitrary: d) (auto split: prod.splits)

locale extent_map =
  fixes inv :: "'s \<Rightarrow> bool"
    and wr :: "'s \<Rightarrow> byte_index_t \<Rightarrow> byte_index_t \<Rightarrow> int \<Rightarrow> 's res"
    and look :: "'s \<Rightarrow> byte_index_t \<Rightarrow> int option"
  assumes wr_ok: "inv s \<Longrightarrow> a \<le> b \<Longrightarrow> b < BYTE_INDEX_MAX \<Longrightarrow>
    \<exists>s'. wr s a b v = Inr s' \<and> inv s' \<and> (\<forall>x. look s' x = (if a \<le> x \<and> x \<le> b then Some v else look s x))"
begin

lemma wrs_ok:
  "inv s \<Longrightarrow> \<forall>w \<in> set ws. extent_ok w \<Longrightarrow>
    \<exists>s'. foldR (\<lambda>s (a, b, v). wr s a b v) ws s = Inr s' \<and> inv s' \<and> (\<forall>x. look s' x = last_write ws x (look s x))"
proof (induction ws arbitrary: s)
  case Nil
  then show ?case by simp
next
  case (Cons w ws)
  obtain a b v where w: "w = (a, b, v)" by (cases w)
  with Cons.prems obtain s1 where s1: "wr s a b v = Inr s1" "inv s1"
    "\<forall>x. look s1 x = (if a \<le> x \<and> x \<le> b then Some v else look s x)"
    using wr_ok [of s a b v] by (auto simp: extent_ok_def)
  with Cons.IH [of s1] Cons.prems(2) w show ?case by auto
qed

text \<open>A write that later writes cover everywhere leaves no trace.\<close>

lemma overwritten:
  assumes "inv s" "extent_ok (a, b, v)" "extent_ok (a, b, v')" "\<forall>w \<in> set ws. extent_ok w"
    and cover: "\<And>x. a \<le> x \<Longrightarrow> x \<le> b \<Longrightarrow> \<exists>(c, d, u) \<in> set ws. c \<le> x \<and> x \<le> d"
  shows "\<exists>s1 s2. foldR (\<lambda>s (a, b, v). wr s a b v) ((a, b, v) # ws) s = Inr s1
    \<and> foldR (\<lambda>s (a, b, v). wr s a b v) ((a, b, v') # ws) s = Inr s2 \<and> look s1 = look s2"
proof -
  obtain s1 where s1: "foldR (\<lambda>s (a, b, v). wr s a b v) ((a, b, v) # ws) s = Inr s1"
    "\<forall>x. look s1 x = last_write ((a, b, v) # ws) x (look s x)"
    using wrs_ok [of s "(a, b, v) # ws"] assms by auto
  obtain s2 where s2: "foldR (\<lambda>s (a, b, v). wr s a b v) ((a, b, v') # ws) s = Inr s2"
    "\<forall>x. look s2 x = last_write ((a, b, v') # ws) x (look s x)"
    using wrs_ok [of s "(a, b, v') # ws"] assms by auto
  have "last_write ((a, b, v) # ws) x d = last_write ((a, b, v') # ws) x d" for x d
    using cover last_write_covered [of ws x] by simp
  with s1 s2 show ?thesis by auto
qed

end

section \<open>The FIG tree implements it\<close>

definition fig_inv :: "figtree \<times> heap \<Rightarrow> bool" where
  "fig_inv s = (case s of (tr, h) \<Rightarrow> \<exists>t. fig_ok h tr t)"

definition fig_wr :: "gdp_log \<Rightarrow> figtree \<times> heap \<Rightarrow> byte_index_t \<Rightarrow> byte_index_t \<Rightarrow> int \<Rightarrow> (figtree \<times> heap) res" where
  "fig_wr log s a b v = (case s of (tr, h) \<Rightarrow> ft_write log h tr a b v)"

definition fig_look :: "gdp_log \<Rightarrow> figtree \<times> heap \<Rightarrow> byte_index_t \<Rightarrow> int option" where
  "fig_look log s x = (case s of (tr, h) \<Rightarrow> case ft_lookup log h tr x of Inl _ \<Rightarrow> None | Inr (v, _) \<Rightarrow> v)"

lemma fig_lookup: "fig_inv (tr, h) \<Longrightarrow> ft_lookup log h tr x = Inr (fig_look log (tr, h) x, h)"
  using ft_lookup_spec by (fastforce simp: fig_inv_def fig_look_def)

interpretation fig: extent_map fig_inv "fig_wr log" "fig_look log" for log
proof
  fix s :: "figtree \<times> heap" and a b :: byte_index_t and v :: int
  assume inv: "fig_inv s" and ab: "a \<le> b" "b < BYTE_INDEX_MAX"
  obtain tr h where s: "s = (tr, h)" by (cases s)
  with inv obtain t where t: "fig_ok h tr t" by (auto simp: fig_inv_def)
  obtain tr' h' t' where w: "ft_write log h tr a b v = Inr (tr', h')" "fig_ok h' tr' t'"
    "\<forall>x. tlook t' x = (if a \<le> x \<and> x \<le> b then Some v else tlook t x)"
    using ft_write_spec [OF t ab] by blast
  have "fig_look log (tr', h') x = (if a \<le> x \<and> x \<le> b then Some v else fig_look log s x)" for x
    using w(3) ft_lookup_spec [OF w(2), of log x] ft_lookup_spec [OF t, of log x] s by (simp add: fig_look_def)
  then show "\<exists>s'. fig_wr log s a b v = Inr s' \<and> fig_inv s'
      \<and> (\<forall>x. fig_look log s' x = (if a \<le> x \<and> x \<le> b then Some v else fig_look log s x))"
    using w s by (auto simp: fig_wr_def fig_inv_def)
qed

section \<open>Properties\<close>

definition empty_heap :: heap where
  "empty_heap = \<lparr>mem = (\<lambda>_. None), next_ptr = 0\<rparr>"

lemma empty_heap_ok: "heap_ok empty_heap"
  by (simp add: heap_ok_def empty_heap_def)

lemma fig_init:
  assumes "heap_ok h"
  obtains tr h' where "ft_init h = Inr (tr, h')" "fig_inv (tr, h')" "\<And>x. fig_look log (tr, h') x = None"
  using ft_init_spec [OF assms] ft_lookup_spec by (fastforce simp: fig_inv_def fig_look_def)

text \<open>
  C1: writing a range into a well-formed tree succeeds (no assertion fails, no pointer or array
  access is out of place), keeps the tree well formed, and afterwards a lookup returns the new
  value inside the range and the old answer outside it.
\<close>

theorem ft_write_correct:
  assumes "fig_inv (tr, h)" "start \<le> stop" "stop < BYTE_INDEX_MAX" "ft_lookup log h tr x = Inr (old, h0)"
  shows "\<exists>tr' h'. ft_write log h tr start stop val = Inr (tr', h') \<and> fig_inv (tr', h')
    \<and> ft_lookup log h' tr' x = Inr (if start \<le> x \<and> x \<le> stop then Some val else old, h')"
proof -
  obtain tr' h' where w: "ft_write log h tr start stop val = Inr (tr', h')" "fig_inv (tr', h')"
    "fig_look log (tr', h') x = (if start \<le> x \<and> x \<le> stop then Some val else fig_look log (tr, h) x)"
    using fig.wr_ok [OF assms(1-3), of log val] by (auto simp: fig_wr_def)
  moreover have "old = fig_look log (tr, h) x" using fig_lookup [OF assms(1), of log x] assms(4) by simp
  ultimately show ?thesis using fig_lookup [OF w(2), of log x] by auto
qed

theorem ft_write_correct_witness:
  "\<exists>tr h tr' h'. ft_init empty_heap = Inr (tr, h) \<and> ft_write (\<lambda>_. None) h tr 10 19 7 = Inr (tr', h')
    \<and> ft_lookup (\<lambda>_. None) h' tr' 15 = Inr (Some 7, h')"
proof -
  obtain tr h where i: "ft_init empty_heap = Inr (tr, h)" "fig_inv (tr, h)"
    "\<And>x. fig_look (\<lambda>_. None) (tr, h) x = None" using fig_init [OF empty_heap_ok, of "\<lambda>_. None"] by blast
  show ?thesis
    using ft_write_correct [OF i(2), of 10 19 "\<lambda>_. None" 15 _ _ 7, OF _ _ fig_lookup [OF i(2)]] i(1)
    by (auto simp: BYTE_INDEX_MAX_def)
qed



text \<open>
  A write that later writes cover everywhere leaves no trace: two sequences that differ only in
  the value of a fully overwritten range give trees with the same lookups.
\<close>

theorem ft_write_overwritten:
  assumes "fig_inv (tr, h)" "extent_ok (a, b, v)" "extent_ok (a, b, v')" "\<forall>w \<in> set ws. extent_ok w"
    and "\<And>x. a \<le> x \<Longrightarrow> x \<le> b \<Longrightarrow> \<exists>(c, d, u) \<in> set ws. c \<le> x \<and> x \<le> d"
  shows "\<exists>s1 s2. foldR (\<lambda>(tr, h) (a, b, v). ft_write log h tr a b v) ((a, b, v) # ws) (tr, h) = Inr s1
    \<and> foldR (\<lambda>(tr, h) (a, b, v). ft_write log h tr a b v) ((a, b, v') # ws) (tr, h) = Inr s2
    \<and> fig_look log s1 = fig_look log s2"
proof -
  have step: "(\<lambda>s (a, b, v). fig_wr log s a b v) = (\<lambda>(tr, h) (a, b, v). ft_write log h tr a b v)"
    by (auto simp: fun_eq_iff fig_wr_def)
  show ?thesis using fig.overwritten [OF assms, of log] unfolding step .
qed

theorem ft_write_overwritten_witness:
  "\<exists>tr h s1 s2. ft_init empty_heap = Inr (tr, h)
    \<and> foldR (\<lambda>(tr, h) (a, b, v). ft_write (\<lambda>_. None) h tr a b v) ((5, 9, 1) # [(0, 7, 2), (8, 20, 3)]) (tr, h) = Inr s1
    \<and> foldR (\<lambda>(tr, h) (a, b, v). ft_write (\<lambda>_. None) h tr a b v) ((5, 9, 4) # [(0, 7, 2), (8, 20, 3)]) (tr, h) = Inr s2
    \<and> fig_look (\<lambda>_. None) s1 = fig_look (\<lambda>_. None) s2"
proof -
  obtain tr h where i: "ft_init empty_heap = Inr (tr, h)" "fig_inv (tr, h)"
    using fig_init [OF empty_heap_ok, of "\<lambda>_. None"] by blast
  have cover: "\<exists>(c, d, u) \<in> set [(0 :: byte_index_t, 7, 2 :: int), (8, 20, 3)]. c \<le> x \<and> x \<le> d"
    if "5 \<le> x" "x \<le> 9" for x :: byte_index_t
  proof (cases "x \<le> 7")
    case False
    then have "8 \<le> x" by unat_arith
    moreover have "x \<le> 20" using that(2) by unat_arith
    ultimately show ?thesis by simp
  qed simp
  show ?thesis
    using ft_write_overwritten [OF i(2), of 5 9 1 4 "[(0, 7, 2), (8, 20, 3)]" "\<lambda>_. None", OF _ _ _ cover] i(1)
    by (auto simp: extent_ok_def BYTE_INDEX_MAX_def)
qed


end
