(* ===== verification/Fig_Iter.thy ===== *)
theory Fig_Iter
  imports Extent_Map
begin

text \<open>
  The iterator over a range of a FIG tree: \<open>ft_read\<close> and \<open>fti_next\<close> of \<^verbatim>\<open>src/figtree/figtree.c\<close>. An
  iterator is the array of iteration states; here it is a stack with the current state first, and
  pushing past the end of the array is the fault \<open>Out_Of_Bounds\<close>. The specification is the list of
  the pieces of a range in order, \<open>flat\<close>; the iterator yields exactly that list.
\<close>

section \<open>The iterator\<close>

record iterstate =
  is_node :: "nat option"
  is_pos :: int
  is_valid :: interval

record figtree_iter =
  it_cap :: nat
  it_states :: "iterstate list"

record fig =
  fig_irange :: interval
  fig_value :: int

definition ft_iterstate_init :: "nat option \<Rightarrow> interval \<Rightarrow> iterstate" where
  "ft_iterstate_init node valid = \<lparr>is_node = node, is_pos = -1, is_valid = valid\<rparr>"

definition push_state :: "nat \<Rightarrow> iterstate \<Rightarrow> iterstate list \<Rightarrow> iterstate list res" where
  "push_state cap rs states = (if length states < cap then Inr (rs # states) else Inl Out_Of_Bounds)"

text \<open>
  The inner loop of \<open>ft_read\<close>: the first entry that contains the start (\<open>Inl\<close>) or lies to the right of
  it; \<open>Inr\<close> of the number of entries when there is none.
\<close>

function read_scan :: "ft_ent list \<Rightarrow> byte_index_t \<Rightarrow> nat \<Rightarrow> nat + nat" where
  "read_scan es start i =
     (if i < length es then
        if i_contains_val (irange (es ! i)) start then Inl i
        else if i_rightOf_val (irange (es ! i)) start then Inr i
        else read_scan es start (i + 1)
      else Inr (length es))"
  by pat_completeness auto
termination
  by (relation "measure (\<lambda>(es, s, i). length es - i)") auto

declare read_scan.simps [simp del]

definition gap_left :: "ft_ent list \<Rightarrow> nat \<Rightarrow> byte_index_t" where
  "gap_left es i = (if i = 0 then BYTE_INDEX_MIN else right (irange (es ! (i - 1))) + 1)"

definition gap_right :: "ft_ent list \<Rightarrow> nat \<Rightarrow> byte_index_t" where
  "gap_right es i = (if i = length es then BYTE_INDEX_MAX else left (irange (es ! i)) - 1)"

primrec ft_read_descend ::
  "nat \<Rightarrow> gdp_log \<Rightarrow> nat \<Rightarrow> heap \<Rightarrow> byte_index_t \<Rightarrow> iterstate \<Rightarrow> iterstate list \<Rightarrow> (iterstate list \<times> heap) res" where
  "ft_read_descend 0 log cap h start rs states = Inl Out_Of_Fuel"
| "ft_read_descend (Suc n) log cap h start rs states =
     (case is_node rs of
        None \<Rightarrow> Inr (rs # states, h)
      | Some node \<Rightarrow>
          bindR (get_node h node) (\<lambda>nd.
          case read_scan (entries nd) start 0 of
            Inl i \<Rightarrow> Inr (rs\<lparr>is_pos := int i\<rparr> # states, h)
          | Inr i \<Rightarrow>
              let states = rs\<lparr>is_pos := int i\<rparr> # states in
              bindR (subtree_get log h node i) (\<lambda>(child, h).
              bindR (i_restrict_range (is_valid rs) (gap_left (entries nd) i) (gap_right (entries nd) i) False) (\<lambda>v.
              bindR (push_state cap (ft_iterstate_init child v) states) (\<lambda>_.
              ft_read_descend n log cap h start (ft_iterstate_init child v) states)))))"

text \<open>A state is spent when its node has no entry left in the valid interval.\<close>

definition state_spent :: "heap \<Rightarrow> iterstate \<Rightarrow> bool res" where
  "state_spent h rs =
     (case is_node rs of
        None \<Rightarrow> Inr True
      | Some node \<Rightarrow> bindR (get_node h node) (\<lambda>nd.
          if is_pos rs = int (length (entries nd)) then Inr True
          else if is_pos rs < 0 \<or> int (length (entries nd)) < is_pos rs then Inl Out_Of_Bounds
          else Inr (i_leftOf_int (is_valid rs) (irange (entries nd ! nat (is_pos rs))))))"

primrec backtrack :: "heap \<Rightarrow> iterstate list \<Rightarrow> iterstate list res" where
  "backtrack h [] = Inr []"
| "backtrack h (rs # states) = bindR (state_spent h rs) (\<lambda>spent. if spent then backtrack h states else Inr (rs # states))"

definition ft_read ::
  "gdp_log \<Rightarrow> heap \<Rightarrow> figtree \<Rightarrow> byte_index_t \<Rightarrow> byte_index_t \<Rightarrow> (figtree_iter \<times> heap) res" where
  "ft_read log h this start stop =
     (case root this of
        None \<Rightarrow> Inl Bad_Pointer
      | Some rt \<Rightarrow> bindR (get_node h rt) (\<lambda>nd.
          let cap = nat (HEIGHT nd + 2) in
          bindR (ft_read_descend (Suc cap) log cap h start (ft_iterstate_init (Some rt) (i_init start stop)) []) (\<lambda>(states, h).
          bindR (backtrack h states) (\<lambda>states. Inr (\<lparr>it_cap = cap, it_states = states\<rparr>, h)))))"

text \<open>Skipping the entries to the left of the valid interval.\<close>

function next_skip :: "ft_ent list \<Rightarrow> interval \<Rightarrow> nat \<Rightarrow> nat" where
  "next_skip es valid i =
     (if i < length es \<and> i_leftOf_int (irange (es ! i)) valid then next_skip es valid (i + 1) else i)"
  by pat_completeness auto
termination
  by (relation "measure (\<lambda>(es, v, i). length es - i)") auto

declare next_skip.simps [simp del]

text \<open>The drill-down of \<open>fti_next\<close>: \<open>rs\<close> is the state whose subtree is entered.\<close>

primrec fti_drill ::
  "nat \<Rightarrow> gdp_log \<Rightarrow> nat \<Rightarrow> heap \<Rightarrow> iterstate list \<Rightarrow> interval \<Rightarrow> nat option \<Rightarrow> byte_index_t \<Rightarrow> byte_index_t \<Rightarrow>
     (iterstate list \<times> heap) res" where
  "fti_drill 0 log cap h states oldvalid subtree leftlimit rightlimit = Inl Out_Of_Fuel"
| "fti_drill (Suc n) log cap h states oldvalid subtree leftlimit rightlimit =
     (case subtree of
        None \<Rightarrow> Inr (states, h)
      | Some node \<Rightarrow>
          bindR (i_restrict_range oldvalid leftlimit rightlimit False) (\<lambda>v.
          bindR (get_node h node) (\<lambda>nd.
          let i = next_skip (entries nd) v 0;
              rs = (ft_iterstate_init subtree v)\<lparr>is_pos := int i\<rparr> in
          bindR (push_state cap rs states) (\<lambda>states.
          if i < length (entries nd) \<and> i_leftOverlaps v (irange (entries nd ! i)) then Inr (states, h)
          else bindR (subtree_get log h node i) (\<lambda>(subtree, h).
            fti_drill n log cap h states v subtree (gap_left (entries nd) i) (gap_right (entries nd) i))))))"

definition fti_next :: "gdp_log \<Rightarrow> heap \<Rightarrow> figtree_iter \<Rightarrow> (fig option \<times> figtree_iter \<times> heap) res" where
  "fti_next log h this =
     (case it_states this of
        [] \<Rightarrow> Inr (None, this, h)
      | rs # states \<Rightarrow>
          (case is_node rs of
             None \<Rightarrow> Inl Bad_Pointer
           | Some node \<Rightarrow>
               bindR (get_node h node) (\<lambda>nd.
               let es = entries nd; i = nat (is_pos rs); entry = es ! i; v = is_valid rs in
               bindR (assertR (is_pos rs < int (length es)) ()) (\<lambda>_.
               bindR (i_restrict_int (irange entry) v False) (\<lambda>irange'.
               let nxt = \<lparr>fig_irange = irange', fig_value = fvalue entry\<rparr> in
               bindR (if right v \<le> right (irange entry)
                      then Inr (rs\<lparr>is_pos := int (length es)\<rparr> # states, h)
                      else
                        let states = rs\<lparr>is_pos := int (i + 1)\<rparr> # states;
                            leftlimit = right (irange entry) + 1; rightlimit = gap_right es (i + 1) in
                        if leftlimit \<le> rightlimit
                        then bindR (subtree_get log h node (i + 1)) (\<lambda>(subtree, h).
                               fti_drill (it_cap this) log (it_cap this) h states v subtree leftlimit rightlimit)
                        else Inr (states, h)) (\<lambda>(states, h).
               bindR (backtrack h states) (\<lambda>states. Inr (Some nxt, this\<lparr>it_states := states\<rparr>, h))))))))"

text \<open>The loop of a client that asks for all pieces.\<close>

primrec fti_collect :: "nat \<Rightarrow> gdp_log \<Rightarrow> heap \<Rightarrow> figtree_iter \<Rightarrow> (fig list \<times> heap) res" where
  "fti_collect 0 log h it = Inl Out_Of_Fuel"
| "fti_collect (Suc n) log h it =
     bindR (fti_next log h it) (\<lambda>(nxt, it, h).
     case nxt of None \<Rightarrow> Inr ([], h)
     | Some f \<Rightarrow> bindR (fti_collect n log h it) (\<lambda>(fs, h). Inr (f # fs, h)))"

section \<open>The pieces of a range\<close>

text \<open>
  A piece is a half-open range of byte indices, as natural numbers, with its value. \<open>clip\<close> is the part of an
  entry inside a range, \<open>nflat\<close> the pieces of a node whose subtrees have the pieces \<open>fs\<close>, and \<open>nrest\<close> the
  same without the pieces of the first subtree.
\<close>

type_synonym piece = "nat \<times> nat \<times> int"

definition clip :: "ft_ent \<Rightarrow> nat \<Rightarrow> nat \<Rightarrow> piece list" where
  "clip e a b =
     (let l = max a (unat (left (irange e))); r = min b (Suc (unat (right (irange e))))
      in if l < r then [(l, r, fvalue e)] else [])"

primrec nflat :: "ft_ent list \<Rightarrow> (nat \<Rightarrow> nat \<Rightarrow> piece list) list \<Rightarrow> nat \<Rightarrow> nat \<Rightarrow> piece list" where
  "nflat [] fs a b = hd fs a b"
| "nflat (e # es) fs a b =
     hd fs a (min b (unat (left (irange e)))) @ clip e a b @
     nflat es (tl fs) (max a (Suc (unat (right (irange e))))) b"

fun flat :: "ftree \<Rightarrow> nat \<Rightarrow> nat \<Rightarrow> piece list" where
  "flat Lf a b = []"
| "flat (Nd p es ts) a b = nflat es (map (\<lambda>t. flat t) ts) a b"

primrec nrest :: "ft_ent list \<Rightarrow> (nat \<Rightarrow> nat \<Rightarrow> piece list) list \<Rightarrow> nat \<Rightarrow> nat \<Rightarrow> piece list" where
  "nrest [] fs a b = []"
| "nrest (e # es) fs a b = clip e a b @ nflat es (tl fs) (max a (Suc (unat (right (irange e))))) b"

definition gap_end :: "ft_ent list \<Rightarrow> nat \<Rightarrow> nat" where
  "gap_end es b = (case es of [] \<Rightarrow> b | e # _ \<Rightarrow> min b (unat (left (irange e))))"

lemma nflat_split: "nflat es fs a b = hd fs a (gap_end es b) @ nrest es fs a b"
  by (cases es) (simp_all add: gap_end_def)

lemma clip_empty: "b \<le> a \<Longrightarrow> clip e a b = []"
  by (simp add: clip_def)

lemma clip_right_of: "b \<le> unat (left (irange e)) \<Longrightarrow> clip e a b = []"
  by (simp add: clip_def)

lemma clip_left_of: "Suc (unat (right (irange e))) \<le> a \<Longrightarrow> clip e a b = []"
  by (simp add: clip_def)

text \<open>Subtrees with no pieces in an empty range, which all subtrees are.\<close>

definition strict :: "(nat \<Rightarrow> nat \<Rightarrow> piece list) \<Rightarrow> bool" where
  "strict f \<longleftrightarrow> (\<forall>a b. b \<le> a \<longrightarrow> f a b = [])"

lemma nflat_empty:
  "length fs = Suc (length es) \<Longrightarrow> \<forall>f \<in> set fs. strict f \<Longrightarrow> b \<le> a \<Longrightarrow> nflat es fs a b = []"
proof (induction es arbitrary: fs a)
  case Nil
  then show ?case by (cases fs) (auto simp: strict_def)
next
  case (Cons e es)
  then obtain f fs' where "fs = f # fs'" by (cases fs) auto
  then show ?case using Cons by (auto simp: strict_def clip_empty le_max_iff_disj)
qed

lemma flat_strict: "twf t \<Longrightarrow> strict (flat t)"
proof (induction t)
  case (Nd p es ts)
  then show ?case by (auto simp: strict_def intro!: nflat_empty)
qed (simp add: strict_def)

lemma nrest_empty:
  assumes "length fs = Suc (length es)" "\<forall>f \<in> set fs. strict f" "b \<le> a"
  shows "nrest es fs a b = []"
  using assms nflat_split [of es fs a b] nflat_empty [OF assms] by simp

lemma nrest_right_of:
  assumes "length fs = Suc (length (e # es))" "\<forall>f \<in> set fs. strict f" "b \<le> unat (left (irange e))" "ent_ok e"
  shows "nrest (e # es) fs a b = []"
proof -
  have "b \<le> max a (Suc (unat (right (irange e))))" using assms(3,4) by (auto simp: ent_ok_def word_le_nat_alt)
  moreover have "length (tl fs) = Suc (length es)" "\<forall>f \<in> set (tl fs). strict f"
    using assms(1,2) by (auto dest: list.set_sel(2) [rotated])
  ultimately show ?thesis using nflat_empty [of "tl fs" es] clip_right_of [OF assms(3)] by simp
qed

text \<open>Entries to the left of the range have no pieces.\<close>

lemma nflat_skip:
  assumes "length fs = Suc (length es)" "\<forall>f \<in> set fs. strict f" "i \<le> length es"
    "\<forall>j < i. unat (right (irange (es ! j))) < a" "\<forall>e \<in> set es. ent_ok e"
  shows "nflat es fs a b = nflat (drop i es) (drop i fs) a b"
  using assms
proof (induction i arbitrary: es fs)
  case (Suc i)
  then obtain e es' where es: "es = e # es'" by (cases es) auto
  then obtain f fs' where fs: "fs = f # fs'" using Suc.prems(1) by (cases fs) auto
  have r: "unat (right (irange e)) < a" using Suc.prems(4) es by force
  then have "min b (unat (left (irange e))) \<le> a" using Suc.prems(5) es by (auto simp: ent_ok_def word_le_nat_alt)
  then have "f a (min b (unat (left (irange e)))) = []" using Suc.prems(2) fs by (simp add: strict_def)
  moreover have "max a (Suc (unat (right (irange e)))) = a" using r by simp
  ultimately have "nflat es fs a b = nflat es' fs' a b" using clip_left_of [of e a b] r es fs by simp
  also have "\<dots> = nflat (drop i es') (drop i fs') a b"
    using Suc.prems es fs by (intro Suc.IH) auto
  finally show ?case using es fs by simp
qed simp

text \<open>The lower end does not matter as long as it is left of the entries.\<close>

lemma nrest_lower:
  assumes "case es of [] \<Rightarrow> True | e # _ \<Rightarrow> ent_ok e \<and> a \<le> unat (left (irange e)) \<and> a' \<le> unat (left (irange e))"
  shows "nrest es fs a b = nrest es fs a' b"
proof (cases es)
  case (Cons e es')
  then have "a \<le> Suc (unat (right (irange e)))" "a' \<le> Suc (unat (right (irange e)))"
    using assms by (auto simp: ent_ok_def word_le_nat_alt)
  then show ?thesis using assms Cons by (simp add: clip_def max_absorb2)
qed simp

section \<open>Iteration states\<close>

abbreviation lo :: "interval \<Rightarrow> nat" where
  "lo v \<equiv> unat (left v)"

abbreviation hi :: "interval \<Rightarrow> nat" where
  "hi v \<equiv> Suc (unat (right v))"

definition live :: "interval \<Rightarrow> bool" where
  "live v \<longleftrightarrow> nonempty v \<and> left v \<le> right v"

text \<open>A state stands for a tree of height \<open>k\<close>, and what it has left to yield.\<close>

definition st_ok :: "heap \<Rightarrow> iterstate \<Rightarrow> nat \<times> ftree \<Rightarrow> bool" where
  "st_ok h rs kt = (case kt of (k, t) \<Rightarrow> is_node rs = tptr t \<and> owns h k t \<and> twf t \<and> live (is_valid rs) \<and>
     (case t of Lf \<Rightarrow> True | Nd a es ts \<Rightarrow> 0 \<le> is_pos rs \<and> is_pos rs \<le> int (length es) \<and>
        (is_pos rs < int (length es) \<longrightarrow> left (is_valid rs) \<le> right (irange (es ! nat (is_pos rs))))))"

definition srem :: "iterstate \<Rightarrow> nat \<times> ftree \<Rightarrow> piece list" where
  "srem rs kt = (case snd kt of Lf \<Rightarrow> []
     | Nd a es ts \<Rightarrow> nrest (drop (nat (is_pos rs)) es) (drop (nat (is_pos rs)) (map flat ts)) (lo (is_valid rs)) (hi (is_valid rs)))"

definition rems :: "iterstate list \<Rightarrow> (nat \<times> ftree) list \<Rightarrow> piece list" where
  "rems states kts = concat (map2 srem states kts)"

text \<open>The array has room for the states below the current one.\<close>

primrec fits :: "nat \<Rightarrow> (nat \<times> ftree) list \<Rightarrow> bool" where
  "fits cap [] \<longleftrightarrow> True"
| "fits cap (kt # kts) \<longleftrightarrow> Suc (length kts) + fst kt \<le> cap \<and> fits cap kts"

definition stack_ok :: "heap \<Rightarrow> nat \<Rightarrow> iterstate list \<Rightarrow> (nat \<times> ftree) list \<Rightarrow> bool" where
  "stack_ok h cap states kts \<longleftrightarrow> list_all2 (st_ok h) states kts \<and> fits cap kts"

lemma rems_Cons [simp]: "rems (rs # states) (kt # kts) = srem rs kt @ rems states kts"
  by (simp add: rems_def)

lemma rems_Nil [simp]: "rems [] kts = []" "rems states [] = []"
  by (simp_all add: rems_def)

lemma rems_append: "length ss = length ks \<Longrightarrow> rems (ss @ states) (ks @ kts) = rems ss ks @ rems states kts"
  by (simp add: rems_def)

lemma stack_ok_Cons [simp]:
  "stack_ok h cap (rs # states) (kt # kts) \<longleftrightarrow> st_ok h rs kt \<and> Suc (length kts) + fst kt \<le> cap \<and> stack_ok h cap states kts"
  by (auto simp: stack_ok_def)

lemma stack_ok_Nil [simp]: "stack_ok h cap [] kts \<longleftrightarrow> kts = []"
  by (auto simp: stack_ok_def)

lemma stack_ok_length: "stack_ok h cap states kts \<Longrightarrow> length states = length kts"
  by (auto simp: stack_ok_def dest: list_all2_lengthD)

lemma tree_facts:
  assumes "twf (Nd a es ts)"
  shows "sorted_ents es" "length (map flat ts) = Suc (length es)" "\<forall>f \<in> set (map flat ts). strict f"
    "\<forall>e \<in> set es. ent_ok e" "length ts = Suc (length es)"
  using assms by (auto simp: sorted_ents_def intro: flat_strict)

lemma gap_right_end:
  assumes "i \<le> length es" "i < length es \<longrightarrow> 0 < left (irange (es ! i))"
    and r: "r = (if right v < gap_right es i then right v else gap_right es i)"
  shows "Suc (unat r) = gap_end (drop i es) (hi v)"
proof (cases "i = length es")
  case True
  then have "r = right v" by (auto simp: r gap_right_def not_less intro: antisym)
  then show ?thesis using True by (simp add: gap_end_def)
next
  case False
  then have pos: "0 < left (irange (es ! i))" using assms by simp
  have d: "drop i es = es ! i # drop (Suc i) es" using False assms(1) by (simp add: Cons_nth_drop_Suc)
  have "unat (left (irange (es ! i)) - 1) = unat (left (irange (es ! i))) - 1" using pos by (simp add: unat_minus_one)
  moreover have "0 < unat (left (irange (es ! i)))" using pos by (simp add: unat_gt_0)
  ultimately show ?thesis using False unfolding d by (auto simp: r gap_right_def gap_end_def word_less_nat_alt)
qed

text \<open>Entering the gap in front of entry \<open>i\<close>, when the valid interval starts there.\<close>

lemma gap_restrict:
  assumes ok: "\<forall>e \<in> set es. ent_ok e" and i: "i \<le> length es" "\<forall>j < i. right (irange (es ! j)) < left v"
    "i < length es \<longrightarrow> left v < left (irange (es ! i))" and v: "live v"
  shows "\<exists>v'. i_restrict_range v (gap_left es i) (gap_right es i) False = Inr v' \<and> live v' \<and>
     left v' = left v \<and> hi v' = gap_end (drop i es) (hi v)"
proof -
  have gl: "gap_left es i \<le> left v"
  proof (cases i)
    case (Suc j)
    then have "right (irange (es ! j)) < left v" using i(2) by simp
    then show ?thesis using Suc word_succ_le [of "right (irange (es ! j))" "left v" "left v"] by (simp add: gap_left_def)
  qed (simp add: gap_left_def)
  have gr: "left v \<le> gap_right es i"
    using i(1,3) by (auto simp: gap_right_def word_le_pred le_less_trans [OF word_zero_le])
  have lr: "left v \<le> right v" using v by (simp add: live_def)
  define r where "r = (if right v < gap_right es i then right v else gap_right es i)"
  have "i_restrict_range v (gap_left es i) (gap_right es i) False = Inr (v\<lparr>left := left v, right := r\<rparr>)"
    using gl gr lr by (auto simp: i_restrict_range_def Let_def r_def not_less)
  moreover have "Suc (unat r) = gap_end (drop i es) (hi v)"
    by (rule gap_right_end [OF i(1) _ r_def]) (use i(3) le_less_trans [OF word_zero_le] in blast)
  ultimately show ?thesis using v gr lr by (auto simp: live_def r_def)
qed

text \<open>What a node yields, from the first entry that is not left of the range.\<close>

lemma node_pieces:
  assumes wf: "twf (Nd a es ts)" and i: "i \<le> length es" "\<forall>j < i. right (irange (es ! j)) < left v"
  shows "flat (Nd a es ts) (lo v) (hi v) =
     flat (ts ! i) (lo v) (gap_end (drop i es) (hi v)) @ nrest (drop i es) (drop i (map flat ts)) (lo v) (hi v)"
proof -
  note F = tree_facts [OF wf]
  have "\<forall>j < i. unat (right (irange (es ! j))) < lo v" using i(2) by (simp add: word_less_nat_alt)
  from nflat_skip [OF F(2,3) i(1) this F(4)]
  have "flat (Nd a es ts) (lo v) (hi v) = nflat (drop i es) (drop i (map flat ts)) (lo v) (hi v)" by simp
  moreover have "hd (drop i (map flat ts)) = flat (ts ! i)" using i(1) F(5) by (simp add: hd_drop_conv_nth)
  ultimately show ?thesis by (simp add: nflat_split)
qed

lemma node_pieces_overlap:
  assumes wf: "twf (Nd a es ts)" and i: "i < length es" "\<forall>j < i. right (irange (es ! j)) < left v"
    "left (irange (es ! i)) \<le> left v"
  shows "flat (Nd a es ts) (lo v) (hi v) = nrest (drop i es) (drop i (map flat ts)) (lo v) (hi v)"
proof -
  have d: "drop i es = es ! i # drop (Suc i) es" using i by (simp add: Cons_nth_drop_Suc)
  have "gap_end (drop i es) (hi v) \<le> lo v" using i(3) by (simp add: d gap_end_def word_le_nat_alt)
  moreover have "strict (flat (ts ! i))" using tree_facts [OF wf] i(1) by simp
  ultimately show ?thesis using node_pieces [OF wf less_imp_le [OF i(1)] i(2)] by (simp add: strict_def)
qed

section \<open>The scans\<close>

lemma read_scan_spec:
  assumes "\<forall>e \<in> set es. ent_ok e" "i \<le> length es" "\<forall>j < i. right (irange (es ! j)) < x"
  shows "case read_scan es x i of
      Inl m \<Rightarrow> m < length es \<and> (\<forall>j < m. right (irange (es ! j)) < x) \<and> left (irange (es ! m)) \<le> x \<and> x \<le> right (irange (es ! m))
    | Inr m \<Rightarrow> m \<le> length es \<and> (\<forall>j < m. right (irange (es ! j)) < x) \<and> (m < length es \<longrightarrow> x < left (irange (es ! m)))"
  using assms
proof (induction es x i rule: read_scan.induct)
  case (1 es x i)
  show ?case
  proof (cases "i < length es")
    case False
    then show ?thesis using "1.prems" by (subst read_scan.simps) simp
  next
    case True
    then have ok: "ent_ok (es ! i)" using "1.prems" by simp
    consider "i_contains_val (irange (es ! i)) x" | "\<not> i_contains_val (irange (es ! i)) x" "i_rightOf_val (irange (es ! i)) x"
      | "\<not> i_contains_val (irange (es ! i)) x" "\<not> i_rightOf_val (irange (es ! i)) x" by blast
    then show ?thesis
    proof cases
      case 3
      then have "right (irange (es ! i)) < x" using ok by (auto simp: i_contains_val_def i_rightOf_val_def ent_ok_def not_less)
      then have "\<forall>j < i + 1. right (irange (es ! j)) < x" using "1.prems"(3) by (auto simp: less_Suc_eq)
      then show ?thesis using "1.IH" [OF True 3] "1.prems" True 3 by (subst read_scan.simps) simp
    qed (use "1.prems" True in \<open>auto simp: read_scan.simps [of es x i] i_contains_val_def i_rightOf_val_def\<close>)
  qed
qed

lemma next_skip_spec:
  assumes "\<forall>e \<in> set es. ent_ok e" "i \<le> length es" "\<forall>j < i. right (irange (es ! j)) < left v"
  shows "next_skip es v i \<le> length es \<and> (\<forall>j < next_skip es v i. right (irange (es ! j)) < left v) \<and>
    (next_skip es v i < length es \<longrightarrow> left v \<le> right (irange (es ! next_skip es v i)))"
  using assms
proof (induction es v i rule: next_skip.induct)
  case (1 es v i)
  show ?case
  proof (cases "i < length es \<and> i_leftOf_int (irange (es ! i)) v")
    case True
    then have "\<forall>j < i + 1. right (irange (es ! j)) < left v"
      using "1.prems"(3) by (auto simp: less_Suc_eq i_leftOf_int_def i_leftOf_val_def)
    moreover have e: "next_skip es v i = next_skip es v (i + 1)" using True by (subst next_skip.simps) simp
    ultimately show ?thesis unfolding e using "1.IH" [OF True] "1.prems" True by simp
  next
    case False
    then have e: "next_skip es v i = i" by (subst next_skip.simps) auto
    show ?thesis unfolding e using False "1.prems" by (auto simp: i_leftOf_int_def i_leftOf_val_def ent_ok_def not_less)
  qed
qed

section \<open>Descending\<close>

lemma st_ok_node:
  "st_ok h rs (k, Nd a es ts) \<longleftrightarrow> is_node rs = Some a \<and> owns h k (Nd a es ts) \<and> twf (Nd a es ts) \<and> live (is_valid rs) \<and>
     0 \<le> is_pos rs \<and> is_pos rs \<le> int (length es) \<and>
     (is_pos rs < int (length es) \<longrightarrow> left (is_valid rs) \<le> right (irange (es ! nat (is_pos rs))))"
  by (simp add: st_ok_def)

lemma owns_Suc: "owns h k (Nd a es ts) \<Longrightarrow> \<exists>k'. k = Suc k'"
  by (cases k) (auto simp: owns_def)

lemma descend_pieces:
  assumes "owns h k t" "twf t" "live v" "k < n" "Suc (length states) + k \<le> cap" "stack_ok h cap states kts" "start = left v"
  shows "\<exists>new nks. ft_read_descend n log cap h start (ft_iterstate_init (tptr t) v) states = Inr (new @ states, h) \<and>
    stack_ok h cap (new @ states) (nks @ kts) \<and> length new = length nks \<and> rems new nks = flat t (lo v) (hi v)"
  using assms
proof (induction n arbitrary: k t v states kts)
  case (Suc n)
  note len = stack_ok_length [OF Suc.prems(6)]
  show ?case
  proof (cases t)
    case Lf
    let ?s = "ft_iterstate_init None v"
    have "st_ok h ?s (k, Lf)" using Suc.prems Lf by (simp add: st_ok_def ft_iterstate_init_def)
    then show ?thesis using Suc.prems Lf len
      by (intro exI [of _ "[?s]"] exI [of _ "[(k, Lf)]"]) (auto simp: srem_def ft_iterstate_init_def)
  next
    case (Nd a es ts)
    obtain k' where k: "k = Suc k'" using owns_Suc Suc.prems(1) Nd by blast
    obtain nd where nd: "mem h a = Some nd" "entries nd = es" using Suc.prems(1) Nd k by (auto elim: owns_node)
    have wf: "twf (Nd a es ts)" using Suc.prems(2) Nd by simp
    note F = tree_facts [OF wf]
    note scan = read_scan_spec [OF F(4), of 0 start, simplified]
    let ?rs = "\<lambda>i. (ft_iterstate_init (Some a) v)\<lparr>is_pos := int i\<rparr>"
    have ok: "st_ok h (?rs i) (k, Nd a es ts)" if "i \<le> length es" "i < length es \<longrightarrow> left v \<le> right (irange (es ! i))" for i
      using Suc.prems(1-3) Nd that by (simp add: st_ok_node ft_iterstate_init_def)
    have sr: "srem (?rs i) (k, Nd a es ts) = nrest (drop i es) (drop i (map flat ts)) (lo v) (hi v)" for i
      by (simp add: srem_def ft_iterstate_init_def drop_map)
    show ?thesis
    proof (cases "read_scan es start 0")
      case (Inl i)
      with scan have i: "i < length es" "\<forall>j < i. right (irange (es ! j)) < start" "left (irange (es ! i)) \<le> start" "start \<le> right (irange (es ! i))" by auto
      have "rems [?rs i] [(k, Nd a es ts)] = flat t (lo v) (hi v)"
        using node_pieces_overlap [OF wf i(1)] i(2,3) Suc.prems(7) Nd sr by simp
      moreover have "ft_read_descend (Suc n) log cap h start (ft_iterstate_init (tptr t) v) states = Inr ([?rs i] @ states, h)"
        using Inl nd Nd by (simp add: ft_iterstate_init_def)
      ultimately show ?thesis using ok [of i] i(1,4) Suc.prems(5-7) Nd len
        by (intro exI [of _ "[?rs i]"] exI [of _ "[(k, Nd a es ts)]"]) simp
    next
      case (Inr i)
      with scan have i: "i \<le> length es" "\<forall>j < i. right (irange (es ! j)) < left v" "i < length es \<longrightarrow> left v < left (irange (es ! i))"
        using Suc.prems(7) by auto
      obtain v' where v': "i_restrict_range v (gap_left es i) (gap_right es i) False = Inr v'" "live v'"
        "left v' = left v" "hi v' = gap_end (drop i es) (hi v)" using gap_restrict [OF F(4) i Suc.prems(3)] by blast
      have ch: "subtree_get log h a i = Inr (tptr (ts ! i), h)" "owns h k' (ts ! i)" "twf (ts ! i)"
        using owns_subtree_get [of h k' a es ts i log] owns_child [of h k' a es ts i] Suc.prems(1,2) Nd k i(1) F(5) by auto
      have ri: "i < length es \<longrightarrow> left v \<le> right (irange (es ! i))"
        using i(3) F(4) by (auto simp: ent_ok_def dest!: nth_mem)
      have st: "stack_ok h cap (?rs i # states) ((k, Nd a es ts) # kts)"
        using ok [OF i(1) ri] Suc.prems(5,6) len by simp
      have "k' < n" "Suc (length (?rs i # states)) + k' \<le> cap" "start = left v'" using Suc.prems(4,5,7) k v'(3) by simp_all
      from Suc.IH [OF ch(2,3) v'(2) this(1,2) st this(3)] obtain new nks where
        new: "ft_read_descend n log cap h start (ft_iterstate_init (tptr (ts ! i)) v') (?rs i # states) = Inr (new @ ?rs i # states, h)"
        "stack_ok h cap (new @ ?rs i # states) (nks @ (k, Nd a es ts) # kts)" "length new = length nks"
        "rems new nks = flat (ts ! i) (lo v') (hi v')" by blast
      have "rems (new @ [?rs i]) (nks @ [(k, Nd a es ts)]) = flat t (lo v) (hi v)"
        using node_pieces [OF wf i(1,2)] new(3,4) v'(3,4) Nd sr by (simp add: rems_append)
      moreover have "push_state cap s (?rs i # states) = Inr (s # ?rs i # states)" for s
        using Suc.prems(5) k by (simp add: push_state_def)
      then have "ft_read_descend (Suc n) log cap h start (ft_iterstate_init (tptr t) v) states = Inr ((new @ [?rs i]) @ states, h)"
        using Inr nd Nd ch(1) v'(1) new(1) by (simp add: ft_iterstate_init_def)
      ultimately show ?thesis using new(2,3)
        by (intro exI [of _ "new @ [?rs i]"] exI [of _ "nks @ [(k, Nd a es ts)]"]) simp
    qed
  qed
qed simp

lemma drill_pieces:
  assumes "owns h k t" "twf t" "i_restrict_range v0 ll rl False = Inr v" "live v" "k < n" "Suc (length states) + k \<le> cap"
    "stack_ok h cap states kts"
  shows "\<exists>new nks. fti_drill n log cap h states v0 (tptr t) ll rl = Inr (new @ states, h) \<and>
    stack_ok h cap (new @ states) (nks @ kts) \<and> length new = length nks \<and> rems new nks = flat t (lo v) (hi v)"
  using assms
proof (induction n arbitrary: k t v0 ll rl v states kts)
  case (Suc n)
  note len = stack_ok_length [OF Suc.prems(7)]
  show ?case
  proof (cases t)
    case Lf
    then show ?thesis using Suc.prems by (intro exI [of _ "[]"]) simp
  next
    case (Nd a es ts)
    obtain k' where k: "k = Suc k'" using owns_Suc Suc.prems(1) Nd by blast
    obtain nd where nd: "mem h a = Some nd" "entries nd = es" using Suc.prems(1) Nd k by (auto elim: owns_node)
    have wf: "twf (Nd a es ts)" using Suc.prems(2) Nd by simp
    note F = tree_facts [OF wf]
    define i where "i = next_skip es v 0"
    have i: "i \<le> length es" "\<forall>j < i. right (irange (es ! j)) < left v" "i < length es \<longrightarrow> left v \<le> right (irange (es ! i))"
      using next_skip_spec [OF F(4), of 0 v] by (auto simp: i_def)
    let ?rs = "(ft_iterstate_init (Some a) v)\<lparr>is_pos := int i\<rparr>"
    have ok: "st_ok h ?rs (k, Nd a es ts)"
      using Suc.prems(1,2,4) Nd i(1,3) by (simp add: st_ok_node ft_iterstate_init_def)
    have sr: "srem ?rs (k, Nd a es ts) = nrest (drop i es) (drop i (map flat ts)) (lo v) (hi v)"
      by (simp add: srem_def ft_iterstate_init_def drop_map)
    have push: "push_state cap ?rs states = Inr (?rs # states)" using Suc.prems(6) k by (simp add: push_state_def)
    have st: "stack_ok h cap (?rs # states) ((k, Nd a es ts) # kts)" using ok Suc.prems(6,7) len by simp
    show ?thesis
    proof (cases "i < length es \<and> i_leftOverlaps v (irange (es ! i))")
      case True
      then have "left (irange (es ! i)) \<le> left v" by (auto simp: i_leftOverlaps_def i_contains_val_def)
      then have "rems [?rs] [(k, Nd a es ts)] = flat t (lo v) (hi v)"
        using node_pieces_overlap [OF wf _ i(2)] True Nd sr by simp
      moreover have "fti_drill (Suc n) log cap h states v0 (tptr t) ll rl = Inr ([?rs] @ states, h)"
        using True Suc.prems(3) nd Nd push by (simp add: i_def [symmetric])
      ultimately show ?thesis using st by (intro exI [of _ "[?rs]"] exI [of _ "[(k, Nd a es ts)]"]) simp
    next
      case False
      then have i3: "i < length es \<longrightarrow> left v < left (irange (es ! i))"
        using i(3) Suc.prems(4) by (auto simp: i_leftOverlaps_def i_contains_val_def live_def not_le)
      obtain v' where v': "i_restrict_range v (gap_left es i) (gap_right es i) False = Inr v'" "live v'"
        "left v' = left v" "hi v' = gap_end (drop i es) (hi v)" using gap_restrict [OF F(4) i(1,2) i3 Suc.prems(4)] by blast
      have ch: "subtree_get log h a i = Inr (tptr (ts ! i), h)" "owns h k' (ts ! i)" "twf (ts ! i)"
        using owns_subtree_get [of h k' a es ts i log] owns_child [of h k' a es ts i] Suc.prems(1,2) Nd k i(1) F(5) by auto
      have "k' < n" "Suc (length (?rs # states)) + k' \<le> cap" using Suc.prems(5,6) k by simp_all
      from Suc.IH [OF ch(2,3) v'(1,2) this st] obtain new nks where
        new: "fti_drill n log cap h (?rs # states) v (tptr (ts ! i)) (gap_left es i) (gap_right es i) = Inr (new @ ?rs # states, h)"
        "stack_ok h cap (new @ ?rs # states) (nks @ (k, Nd a es ts) # kts)" "length new = length nks"
        "rems new nks = flat (ts ! i) (lo v') (hi v')" by blast
      have "rems (new @ [?rs]) (nks @ [(k, Nd a es ts)]) = flat t (lo v) (hi v)"
        using node_pieces [OF wf i(1,2)] new(3,4) v'(3,4) Nd sr by (simp add: rems_append)
      moreover have "fti_drill (Suc n) log cap h states v0 (tptr t) ll rl = Inr ((new @ [?rs]) @ states, h)"
        using False Suc.prems(3) nd Nd push ch(1) new(1) by (auto simp: i_def [symmetric])
      ultimately show ?thesis using new(2,3)
        by (intro exI [of _ "new @ [?rs]"] exI [of _ "nks @ [(k, Nd a es ts)]"]) simp
    qed
  qed
qed simp

section \<open>Backtracking\<close>

text \<open>A state that is not spent has a piece to yield.\<close>

lemma spent_rem:
  assumes "st_ok h rs (k, t)"
  shows "\<exists>b. state_spent h rs = Inr b \<and> (b \<longrightarrow> srem rs (k, t) = []) \<and>
    (\<not> b \<longrightarrow> (\<exists>a es ts. t = Nd a es ts \<and> is_pos rs < int (length es) \<and> left (irange (es ! nat (is_pos rs))) \<le> right (is_valid rs)))"
proof (cases t)
  case Lf
  then show ?thesis using assms by (intro exI [of _ True]) (simp add: st_ok_def state_spent_def srem_def)
next
  case (Nd a es ts)
  have "owns h k (Nd a es ts)" using assms Nd by (simp add: st_ok_def)
  then obtain k' where "k = Suc k'" using owns_Suc by blast
  then obtain nd where nd: "mem h a = Some nd" "entries nd = es" using assms Nd by (auto simp: st_ok_def elim: owns_node)
  have st: "is_node rs = Some a" "twf (Nd a es ts)" "live (is_valid rs)" "0 \<le> is_pos rs" "is_pos rs \<le> int (length es)"
    using assms Nd by (auto simp: st_ok_def)
  let ?i = "nat (is_pos rs)" and ?v = "is_valid rs"
  note F = tree_facts [OF st(2)]
  show ?thesis
  proof (cases "is_pos rs = int (length es)")
    case True
    then show ?thesis using nd st(1) Nd by (intro exI [of _ True]) (simp add: state_spent_def srem_def)
  next
    case False
    then have i: "?i < length es" using st(4,5) by linarith
    have d: "drop ?i es = es ! ?i # drop (Suc ?i) es" using i by (simp add: Cons_nth_drop_Suc)
    have sp: "state_spent h rs = Inr (right ?v < left (irange (es ! ?i)))"
      using nd st False by (simp add: state_spent_def i_leftOf_int_def i_leftOf_val_def live_def)
    have "srem rs (k, t) = []" if "right ?v < left (irange (es ! ?i))"
    proof -
      have "nrest (es ! ?i # drop (Suc ?i) es) (drop ?i (map flat ts)) (lo ?v) (hi ?v) = []"
        by (rule nrest_right_of) (use F i that set_drop_subset [of ?i "map flat ts"] in \<open>auto simp: word_less_nat_alt\<close>)
      then show ?thesis using Nd d by (simp add: srem_def drop_map)
    qed
    then show ?thesis using sp Nd i st(4) by (auto simp: not_less)
  qed
qed

definition ready :: "iterstate list \<Rightarrow> (nat \<times> ftree) list \<Rightarrow> bool" where
  "ready states kts \<longleftrightarrow> (case (states, kts) of
      (rs # _, (k, Nd a es ts) # _) \<Rightarrow> is_pos rs < int (length es) \<and> left (irange (es ! nat (is_pos rs))) \<le> right (is_valid rs)
    | (rs # _, _) \<Rightarrow> False | ([], _) \<Rightarrow> True)"

lemma backtrack_spec:
  assumes "stack_ok h cap states kts"
  shows "\<exists>states' kts'. backtrack h states = Inr states' \<and> stack_ok h cap states' kts' \<and> ready states' kts' \<and>
    rems states' kts' = rems states kts"
  using assms
proof (induction states arbitrary: kts)
  case Nil
  then show ?case by (simp add: ready_def)
next
  case (Cons rs states)
  then obtain k t kts' where kts: "kts = (k, t) # kts'" by (cases kts) (auto simp: stack_ok_def)
  with Cons.prems have ok: "st_ok h rs (k, t)" "stack_ok h cap states kts'" by auto
  from spent_rem [OF ok(1)] obtain b where b: "state_spent h rs = Inr b" "b \<longrightarrow> srem rs (k, t) = []"
    "\<not> b \<longrightarrow> (\<exists>a es ts. t = Nd a es ts \<and> is_pos rs < int (length es) \<and> left (irange (es ! nat (is_pos rs))) \<le> right (is_valid rs))" by blast
  show ?case
  proof (cases b)
    case True
    then show ?thesis using Cons.IH [OF ok(2)] b kts by auto
  next
    case False
    then show ?thesis using b Cons.prems kts by (intro exI [of _ "rs # states"] exI [of _ kts]) (auto simp: ready_def)
  qed
qed

section \<open>One step of the iterator\<close>

definition fig_is :: "fig \<Rightarrow> piece \<Rightarrow> bool" where
  "fig_is f p = (case p of (l, r, v) \<Rightarrow> lo (fig_irange f) = l \<and> hi (fig_irange f) = r \<and> fig_value f = v)"

definition iter_ok :: "heap \<Rightarrow> figtree_iter \<Rightarrow> (nat \<times> ftree) list \<Rightarrow> bool" where
  "iter_ok h it kts \<longleftrightarrow> stack_ok h (it_cap it) (it_states it) kts \<and> ready (it_states it) kts"

text \<open>The entry a ready state yields, and what follows it.\<close>

lemma yield_entry:
  assumes "ent_ok e" "live v" "left (irange e) \<le> right v" "left v \<le> right (irange e)"
  shows "\<exists>ir l r. i_restrict_int (irange e) v False = Inr ir \<and> clip e (lo v) (hi v) = [(l, r, fvalue e)] \<and> lo ir = l \<and> hi ir = r"
proof -
  let ?l = "if left (irange e) > left v then left (irange e) else left v"
  let ?r = "if right (irange e) < right v then right (irange e) else right v"
  have "i_restrict_int (irange e) v False = Inr ((irange e)\<lparr>left := ?l, right := ?r\<rparr>)"
    using assms by (auto simp: i_restrict_int_def i_restrict_range_def Let_def ent_ok_def live_def)
  moreover have "clip e (lo v) (hi v) = [(unat ?l, Suc (unat ?r), fvalue e)]"
    using assms by (auto simp: clip_def Let_def ent_ok_def live_def word_le_nat_alt word_less_nat_alt max_def min_def)
  ultimately show ?thesis
    by (intro exI [of _ "(irange e)\<lparr>left := ?l, right := ?r\<rparr>"] exI [of _ "unat ?l"] exI [of _ "Suc (unat ?r)"]) simp
qed

lemma sorted_next:
  assumes "sorted_ents es" "Suc i < length es"
  shows "right (irange (es ! i)) < left (irange (es ! Suc i))" "left (irange (es ! Suc i)) \<le> right (irange (es ! Suc i))"
  using assms by (auto simp: sorted_ents_def sorted_wrt_iff_nth_less ent_lt_def ent_ok_def)

text \<open>The subtree after a yielded entry: the pieces up to the next entry, then those from the next entry on.\<close>

lemma after_entry:
  assumes wf: "twf (Nd a es ts)" and i: "i < length es" and v: "live v"
    and e: "left v \<le> right (irange (es ! i))" "right (irange (es ! i)) < right v"
  shows "nflat (drop (Suc i) es) (drop (Suc i) (map flat ts)) (max (lo v) (hi (irange (es ! i)))) (hi v) =
     flat (ts ! Suc i) (hi (irange (es ! i))) (gap_end (drop (Suc i) es) (hi v)) @
     nrest (drop (Suc i) es) (drop (Suc i) (map flat ts)) (lo v) (hi v)"
proof -
  note F = tree_facts [OF wf]
  have m: "max (lo v) (hi (irange (es ! i))) = hi (irange (es ! i))" using e(1) by (simp add: word_le_nat_alt max_absorb2)
  have "hd (drop (Suc i) (map flat ts)) = flat (ts ! Suc i)" using i F(5) by (simp add: hd_drop_conv_nth)
  moreover have "nrest (drop (Suc i) es) fs (hi (irange (es ! i))) (hi v) = nrest (drop (Suc i) es) fs (lo v) (hi v)" for fs
  proof (rule nrest_lower, cases "Suc i < length es")
    case True
    have "ent_ok (es ! Suc i)" using F(4) True by simp
    then show "case drop (Suc i) es of [] \<Rightarrow> True
      | e # _ \<Rightarrow> ent_ok e \<and> hi (irange (es ! i)) \<le> unat (left (irange e)) \<and> lo v \<le> unat (left (irange e))"
      using sorted_next [OF F(1) True] e(1) True
      by (auto simp: word_less_nat_alt word_le_nat_alt simp flip: Cons_nth_drop_Suc)
  qed simp
  ultimately show ?thesis unfolding m nflat_split by simp
qed

lemma next_restrict:
  assumes ok: "sorted_ents es" and i: "i < length es" and v: "live v"
    and e: "left v \<le> right (irange (es ! i))" "right (irange (es ! i)) < right v"
    and g: "right (irange (es ! i)) + 1 \<le> gap_right es (Suc i)"
  shows "\<exists>v'. i_restrict_range v (right (irange (es ! i)) + 1) (gap_right es (Suc i)) False = Inr v' \<and> live v' \<and>
     lo v' = hi (irange (es ! i)) \<and> hi v' = gap_end (drop (Suc i) es) (hi v)"
proof -
  let ?r = "right (irange (es ! i))"
  define r where "r = (if right v < gap_right es (Suc i) then right v else gap_right es (Suc i))"
  have u: "unat (?r + 1) = Suc (unat ?r)" using e(2) by unat_arith
  have lt: "left v < ?r + 1" using e(1) u by (simp add: word_less_nat_alt word_le_nat_alt)
  have rv: "?r + 1 \<le> right v" using e(2) u by (simp add: word_less_nat_alt word_le_nat_alt)
  have "i_restrict_range v (?r + 1) (gap_right es (Suc i)) False = Inr (v\<lparr>left := ?r + 1, right := r\<rparr>)"
    using lt rv g by (auto simp: i_restrict_range_def Let_def r_def)
  moreover have "Suc (unat r) = gap_end (drop (Suc i) es) (hi v)"
    by (rule gap_right_end [OF _ _ r_def]) (use i sorted_next [OF ok, of i] le_less_trans [OF word_zero_le] in auto)
  moreover have "?r + 1 \<le> r" using rv g by (simp add: r_def)
  ultimately show ?thesis using u v by (auto simp: live_def)
qed

text \<open>What \<open>fti_next\<close> does below the yielded entry, before it backtracks.\<close>

lemma next_phase:
  assumes wf: "twf (Nd a es ts)" and own: "owns h (Suc k) (Nd a es ts)" and i: "i < length es" and v: "live v"
    and e: "left v \<le> right (irange (es ! i))" "right (irange (es ! i)) < right v"
    and rs: "is_node rs = Some a" "is_valid rs = v" and cap: "Suc (length states) + Suc k \<le> cap"
    and st: "stack_ok h cap states kts"
  defines "rs' \<equiv> rs\<lparr>is_pos := int (Suc i)\<rparr>" and "ll \<equiv> right (irange (es ! i)) + 1" and "rl \<equiv> gap_right es (Suc i)"
  shows "\<exists>ss ks. (if ll \<le> rl
      then bindR (subtree_get log h a (Suc i)) (\<lambda>(subtree, h). fti_drill cap log cap h (rs' # states) v subtree ll rl)
      else Inr (rs' # states, h)) = Inr (ss, h) \<and> stack_ok h cap ss ks \<and>
    rems ss ks = nflat (drop (Suc i) es) (drop (Suc i) (map flat ts)) (max (lo v) (hi (irange (es ! i)))) (hi v) @ rems states kts"
proof -
  note F = tree_facts [OF wf] and A = after_entry [OF wf i v e]
  note len = stack_ok_length [OF st]
  have "st_ok h rs' (Suc k, Nd a es ts)"
    using wf own v rs i e sorted_next [OF F(1), of i] unfolding st_ok_node rs'_def
    by (auto simp: nat_add_distrib intro: order_trans less_imp_le)
  then have st': "stack_ok h cap (rs' # states) ((Suc k, Nd a es ts) # kts)" using st cap len by simp
  have sr: "srem rs' (Suc k, Nd a es ts) = nrest (drop (Suc i) es) (drop (Suc i) (map flat ts)) (lo v) (hi v)"
    using rs(2) by (simp add: srem_def rs'_def nat_add_distrib drop_map)
  have si: "Suc i < length ts" using i F(5) by simp
  show ?thesis
  proof (cases "ll \<le> rl")
    case True
    obtain v' where v': "i_restrict_range v ll rl False = Inr v'" "live v'" "lo v' = hi (irange (es ! i))"
      "hi v' = gap_end (drop (Suc i) es) (hi v)" using next_restrict [OF F(1) i v e] True unfolding ll_def rl_def by blast
    have ch: "subtree_get log h a (Suc i) = Inr (tptr (ts ! Suc i), h)" "owns h k (ts ! Suc i)" "twf (ts ! Suc i)"
      using owns_subtree_get [OF own si] owns_child [OF own si] wf si by auto
    have "k < cap" "Suc (length (rs' # states)) + k \<le> cap" using cap by simp_all
    from drill_pieces [OF ch(2,3) v'(1,2) this st'] obtain new nks where
      "fti_drill cap log cap h (rs' # states) v (tptr (ts ! Suc i)) ll rl = Inr (new @ rs' # states, h)"
      "stack_ok h cap (new @ rs' # states) (nks @ (Suc k, Nd a es ts) # kts)" "length new = length nks"
      "rems new nks = flat (ts ! Suc i) (lo v') (hi v')" by blast
    then show ?thesis using True ch(1) sr A v'(3,4)
      by (intro exI [of _ "new @ rs' # states"] exI [of _ "nks @ (Suc k, Nd a es ts) # kts"]) (simp add: rems_append)
  next
    case False
    have "gap_end (drop (Suc i) es) (hi v) \<le> hi (irange (es ! i))"
    proof (cases "Suc i < length es")
      case True
      have "left (irange (es ! Suc i)) - 1 < right (irange (es ! i)) + 1"
        using False True by (simp add: ll_def rl_def gap_right_def)
      then have "unat (left (irange (es ! Suc i))) \<le> Suc (unat (right (irange (es ! i))))" by unat_arith
      then show ?thesis using True by (simp add: gap_end_def flip: Cons_nth_drop_Suc)
    next
      case False: False
      then have "rl = BYTE_INDEX_MAX" using i by (simp add: rl_def gap_right_def)
      then show ?thesis using \<open>\<not> ll \<le> rl\<close> by simp
    qed
    then have "flat (ts ! Suc i) (hi (irange (es ! i))) (gap_end (drop (Suc i) es) (hi v)) = []"
      using flat_strict [of "ts ! Suc i"] wf si by (simp add: strict_def)
    then show ?thesis using False st' sr A
      by (intro exI [of _ "rs' # states"] exI [of _ "(Suc k, Nd a es ts) # kts"]) simp
  qed
qed

lemma fti_next_end: "iter_ok h it kts \<Longrightarrow> it_states it = [] \<Longrightarrow> fti_next log h it = Inr (None, it, h)"
  by (simp add: fti_next_def)

lemma fti_next_yield:
  assumes ok: "iter_ok h it kts" and ne: "it_states it \<noteq> []"
  shows "\<exists>f p it' kts'. fti_next log h it = Inr (Some f, it', h) \<and> fig_is f p \<and> iter_ok h it' kts' \<and>
    rems (it_states it) kts = p # rems (it_states it') kts'"
proof -
  obtain rs states where ss: "it_states it = rs # states" using ne by (cases "it_states it") auto
  obtain k0 a es ts kts0 where kts: "kts = (k0, Nd a es ts) # kts0" and rd: "is_pos rs < int (length es)"
    "left (irange (es ! nat (is_pos rs))) \<le> right (is_valid rs)"
    using ok ss by (auto simp: iter_ok_def ready_def split: list.splits prod.splits ftree.splits)
  let ?v = "is_valid rs" and ?i = "nat (is_pos rs)" and ?cap = "it_cap it"
  have st: "st_ok h rs (k0, Nd a es ts)" "Suc (length kts0) + k0 \<le> ?cap" "stack_ok h ?cap states kts0"
    using ok ss kts by (auto simp: iter_ok_def)
  then have own: "owns h k0 (Nd a es ts)" and wf: "twf (Nd a es ts)" and v: "live ?v" and n: "is_node rs = Some a"
    and pos: "0 \<le> is_pos rs" "left ?v \<le> right (irange (es ! ?i))" using rd by (auto simp: st_ok_node)
  obtain k where k: "k0 = Suc k" using owns_Suc own by blast
  obtain nd where nd: "mem h a = Some nd" "entries nd = es" using own k by (auto elim: owns_node)
  have i: "?i < length es" using rd(1) pos(1) by linarith
  note F = tree_facts [OF wf]
  let ?e = "es ! ?i"
  have eok: "ent_ok ?e" using F(4) i by simp
  obtain ir l r where y: "i_restrict_int (irange ?e) ?v False = Inr ir" "clip ?e (lo ?v) (hi ?v) = [(l, r, fvalue ?e)]"
    "lo ir = l" "hi ir = r" using yield_entry [OF eok v rd(2) pos(2)] by blast
  let ?f = "\<lparr>fig_irange = ir, fig_value = fvalue ?e\<rparr>"
  let ?rest = "nflat (drop (Suc ?i) es) (drop (Suc ?i) (map flat ts)) (max (lo ?v) (hi (irange ?e))) (hi ?v)"
  have d: "drop ?i es = ?e # drop (Suc ?i) es" using i by (simp add: Cons_nth_drop_Suc)
  have sr: "srem rs (k0, Nd a es ts) = (l, r, fvalue ?e) # ?rest"
    using y(2) by (simp add: srem_def d flip: drop_map) (simp add: drop_Suc tl_drop map_tl)
  have len: "length states = length kts0" using stack_ok_length [OF st(3)] .
  define ph where "ph = (if right ?v \<le> right (irange ?e) then Inr (rs\<lparr>is_pos := int (length es)\<rparr> # states, h)
     else if right (irange ?e) + 1 \<le> gap_right es (?i + 1)
       then bindR (subtree_get log h a (?i + 1)) (\<lambda>(subtree, h).
          fti_drill ?cap log ?cap h (rs\<lparr>is_pos := int (?i + 1)\<rparr> # states) ?v subtree (right (irange ?e) + 1) (gap_right es (?i + 1)))
       else Inr (rs\<lparr>is_pos := int (?i + 1)\<rparr> # states, h))"
  have "\<exists>ss ks. ph = Inr (ss, h) \<and> stack_ok h ?cap ss ks \<and> rems ss ks = ?rest @ rems states kts0"
  proof (cases "right ?v \<le> right (irange ?e)")
    case True
    have "?rest = []" by (rule nflat_empty) (use F i True set_drop_subset [of "Suc ?i" "map flat ts"] in \<open>auto simp: word_le_nat_alt\<close>)
    moreover have "st_ok h (rs\<lparr>is_pos := int (length es)\<rparr>) (k0, Nd a es ts)" using own wf v n by (simp add: st_ok_node)
    ultimately show ?thesis using True st(2,3) len
      by (intro exI [of _ "rs\<lparr>is_pos := int (length es)\<rparr> # states"] exI [of _ "(k0, Nd a es ts) # kts0"]) (simp add: ph_def srem_def)
  next
    case False
    then have lt: "right (irange ?e) < right ?v" by simp
    have c: "Suc (length states) + Suc k \<le> ?cap" using st(2) k len by simp
    show ?thesis unfolding ph_def if_not_P [OF False] Suc_eq_plus1 [symmetric]
      by (rule next_phase [OF wf own [unfolded k] i v pos(2) lt n refl c st(3)])
  qed
  then obtain ss1 ks1 where ph: "ph = Inr (ss1, h)" "stack_ok h ?cap ss1 ks1" "rems ss1 ks1 = ?rest @ rems states kts0" by blast
  obtain ss2 ks2 where bt: "backtrack h ss1 = Inr ss2" "stack_ok h ?cap ss2 ks2" "ready ss2 ks2" "rems ss2 ks2 = rems ss1 ks1"
    using backtrack_spec [OF ph(2)] by blast
  have "fti_next log h it = Inr (Some ?f, it\<lparr>it_states := ss2\<rparr>, h)"
  proof -
    have "assertR (is_pos rs < int (length es)) () = Inr ()" using rd(1) by simp
    then show ?thesis
      unfolding fti_next_def ss list.case n option.case get_node_Some [OF nd(1)] bindR_simps Let_def nd(2)
      by (simp only: y(1) bindR_simps ph_def [symmetric] ph(1) prod.case bt(1))
  qed
  then show ?thesis using y(3,4) bt(2-4) ph(3) ss kts sr
    by (intro exI [of _ ?f] exI [of _ "(l, r, fvalue ?e)"] exI [of _ "it\<lparr>it_states := ss2\<rparr>"] exI [of _ ks2])
       (simp add: fig_is_def iter_ok_def)
qed

section \<open>The whole iteration\<close>

lemma fti_collect_spec:
  assumes "iter_ok h it kts" "length (rems (it_states it) kts) < n"
  shows "\<exists>fs. fti_collect n log h it = Inr (fs, h) \<and> list_all2 fig_is fs (rems (it_states it) kts)"
  using assms
proof (induction n arbitrary: it kts)
  case (Suc n)
  show ?case
  proof (cases "it_states it = []")
    case True
    then show ?thesis using fti_next_end [OF Suc.prems(1)] by simp
  next
    case False
    obtain f p it' kts' where y: "fti_next log h it = Inr (Some f, it', h)" "fig_is f p" "iter_ok h it' kts'"
      "rems (it_states it) kts = p # rems (it_states it') kts'" using fti_next_yield [OF Suc.prems(1) False] by blast
    then obtain fs where "fti_collect n log h it' = Inr (fs, h)" "list_all2 fig_is fs (rems (it_states it') kts')"
      using Suc.IH [OF y(3)] Suc.prems(2) by auto
    then show ?thesis using y by simp
  qed
qed simp

lemma ft_read_spec:
  assumes "fig_ok h tr t" "start \<le> stop"
  shows "\<exists>it kts. ft_read log h tr start stop = Inr (it, h) \<and> iter_ok h it kts \<and>
    rems (it_states it) kts = flat t (unat start) (Suc (unat stop))"
proof -
  obtain K where own: "owns h (Suc K) t" and wf: "twf t" and root: "root tr = tptr t"
    using assms(1) by (auto simp: fig_ok_def)
  then obtain a es ts where t: "t = Nd a es ts" by (cases t) (auto simp: owns_def)
  obtain nd where nd: "mem h a = Some nd" "HEIGHT nd = int K" using own t by (auto elim: owns_node)
  let ?v = "i_init start stop" and ?cap = "Suc (Suc K)"
  have cap: "nat (HEIGHT nd + 2) = ?cap" using nd(2) by simp
  have lv: "live ?v" using assms(2) by (simp add: live_def)
  obtain new nks where D: "ft_read_descend (Suc ?cap) log ?cap h start (ft_iterstate_init (tptr t) ?v) [] = Inr (new @ [], h)"
    "stack_ok h ?cap (new @ []) (nks @ [])" "rems new nks = flat t (lo ?v) (hi ?v)"
    using descend_pieces [OF own wf lv, of "Suc ?cap" "[]" ?cap "[]" start log] by auto
  obtain ss ks where B: "backtrack h new = Inr ss" "stack_ok h ?cap ss ks" "ready ss ks" "rems ss ks = rems new nks"
    using backtrack_spec [of h ?cap new nks] D(2) by auto
  have "ft_read log h tr start stop = Inr (\<lparr>it_cap = ?cap, it_states = ss\<rparr>, h)"
    using root t nd(1) D(1) B(1) unfolding ft_read_def by (simp add: cap Let_def del: ft_read_descend.simps)
  then show ?thesis using B D(3) by (intro exI [of _ "\<lparr>it_cap = ?cap, it_states = ss\<rparr>"] exI [of _ ks]) (simp add: iter_ok_def)
qed

section \<open>Pieces and lookups\<close>

primrec plook :: "piece list \<Rightarrow> nat \<Rightarrow> int option" where
  "plook [] n = None"
| "plook (p # ps) n = (case p of (l, r, v) \<Rightarrow> if l \<le> n \<and> n < r then Some v else plook ps n)"

text \<open>Pieces are not empty, do not overlap, come in ascending order and lie in the range.\<close>

definition pieces_ok :: "piece list \<Rightarrow> nat \<Rightarrow> nat \<Rightarrow> bool" where
  "pieces_ok ps a b \<longleftrightarrow> (\<forall>(l, r, v) \<in> set ps. a \<le> l \<and> l < r \<and> r \<le> b) \<and> sorted_wrt (\<lambda>(l, r, v) (l', r', v'). r \<le> l') ps"

definition describes :: "(nat \<Rightarrow> nat \<Rightarrow> piece list) \<Rightarrow> (byte_index_t \<Rightarrow> int option) \<Rightarrow> bool" where
  "describes f look \<longleftrightarrow> (\<forall>a b. pieces_ok (f a b) a b \<and> (\<forall>x. a \<le> unat x \<longrightarrow> unat x < b \<longrightarrow> look x = plook (f a b) (unat x)))"

lemma describesD: "describes f look \<Longrightarrow> a \<le> unat x \<Longrightarrow> unat x < b \<Longrightarrow> look x = plook (f a b) (unat x)"
  by (simp add: describes_def)

lemma plook_append: "plook (ps @ qs) n = (case plook ps n of None \<Rightarrow> plook qs n | Some v \<Rightarrow> Some v)"
  by (induction ps) auto

lemma plook_outside: "pieces_ok ps a b \<Longrightarrow> n < a \<or> b \<le> n \<Longrightarrow> plook ps n = None"
  by (induction ps) (auto simp: pieces_ok_def)

lemma pieces_ok_append:
  assumes "pieces_ok ps a m" "pieces_ok qs m' b" "m \<le> m'" "a \<le> m'" "m \<le> b"
  shows "pieces_ok (ps @ qs) a b"
  using assms unfolding pieces_ok_def sorted_wrt_append by (fastforce split: prod.splits)

lemma pieces_ok_mono: "pieces_ok ps a b \<Longrightarrow> a' \<le> a \<Longrightarrow> b \<le> b' \<Longrightarrow> pieces_ok ps a' b'"
  unfolding pieces_ok_def by fastforce

lemma pieces_ok_empty: "pieces_ok ps a b \<Longrightarrow> b \<le> a \<Longrightarrow> ps = []"
  by (cases ps) (auto simp: pieces_ok_def)

lemma clip_ok: "pieces_ok (clip e a b) (max a (unat (left (irange e)))) (min b (Suc (unat (right (irange e)))))"
  by (simp add: clip_def pieces_ok_def Let_def)

lemma plook_clip:
  "a \<le> unat x \<Longrightarrow> unat x < b \<Longrightarrow> plook (clip e a b) (unat x) = (if i_contains_val (irange e) x then Some (fvalue e) else None)"
  by (auto simp: clip_def Let_def i_contains_val_def word_le_nat_alt)

lemma nflat_describes:
  assumes "sorted_ents es" "length fs = Suc (length es)" "list_all2 describes fs ls"
  shows "describes (nflat es fs) (nlook es ls)"
  using assms
proof (induction es arbitrary: fs ls)
  case Nil
  then obtain f l where "fs = [f]" "ls = [l]" "describes f l" by (auto simp: length_Suc_conv list_all2_Cons1)
  then show ?case by (simp add: describes_def)
next
  case (Cons e es)
  obtain f fs' l ls' where fl: "fs = f # fs'" "ls = l # ls'" "describes f l" "list_all2 describes fs' ls'"
    using Cons.prems(2,3) by (auto simp: length_Suc_conv list_all2_Cons1)
  have ok: "ent_ok e" "sorted_ents es" using Cons.prems(1) by (auto simp: sorted_ents_def)
  have D: "describes (nflat es fs') (nlook es ls')" using Cons.IH [OF ok(2) _ fl(4)] Cons.prems(2) fl(1) by simp
  let ?l = "unat (left (irange e))" and ?r = "Suc (unat (right (irange e)))"
  have lr: "?l < ?r" using ok(1) by (simp add: ent_ok_def word_le_nat_alt)
  show ?case unfolding describes_def
  proof (intro allI conjI impI)
    fix a b
    let ?A = "f a (min b ?l)" and ?B = "clip e a b" and ?C = "nflat es fs' (max a ?r) b"
    have A: "pieces_ok ?A a (min b ?l)" and C: "pieces_ok ?C (max a ?r) b" using fl(3) D by (auto simp: describes_def)
    have BC: "pieces_ok (?B @ ?C) (max a ?l) b"
      by (rule pieces_ok_append [OF clip_ok C]) (use lr in auto)
    have "pieces_ok (?A @ ?B @ ?C) a b" by (rule pieces_ok_append [OF A BC]) auto
    then show "pieces_ok (nflat (e # es) fs a b) a b" by (simp add: fl(1))
    fix x :: byte_index_t
    assume x: "a \<le> unat x" "unat x < b"
    have f: "nflat (e # es) fs a b = ?A @ ?B @ ?C" by (simp add: fl(1))
    consider "i_contains_val (irange e) x" | "x < left (irange e)" | "right (irange e) < x"
      unfolding i_contains_val_def by (cases "left (irange e) \<le> x"; cases "x \<le> right (irange e)") (auto simp: not_le)
    then show "nlook (e # es) ls x = plook (nflat (e # es) fs a b) (unat x)"
    proof cases
      case 1
      then have "?l \<le> unat x" by (simp add: i_contains_val_def word_le_nat_alt)
      then have "plook ?A (unat x) = None" using plook_outside [OF A, of "unat x"] by (simp add: min_le_iff_disj)
      then show ?thesis unfolding f using 1 x by (simp add: plook_append plook_clip)
    next
      case 2
      have nc: "\<not> i_contains_val (irange e) x" using 2 by (auto simp: i_contains_val_def)
      have "l x = plook ?A (unat x)" using describesD [OF fl(3), of a x "min b ?l"] x 2 by (simp add: word_less_nat_alt)
      moreover have "plook ?C (unat x) = None" using plook_outside [OF C, of "unat x"] 2 lr by (simp add: word_less_nat_alt less_max_iff_disj)
      ultimately show ?thesis unfolding f using 2 nc x by (simp add: fl(2) plook_append plook_clip split: option.split)
    next
      case 3
      have nc: "\<not> i_contains_val (irange e) x" "\<not> x < left (irange e)"
        using 3 ok(1) by (auto simp: i_contains_val_def ent_ok_def)
      have "plook ?A (unat x) = None" using plook_outside [OF A, of "unat x"] 3 lr by (simp add: word_less_nat_alt min_le_iff_disj)
      moreover have "nlook es ls' x = plook ?C (unat x)" using describesD [OF D, of "max a ?r" x b] x 3 by (simp add: word_less_nat_alt)
      ultimately show ?thesis unfolding f using nc x by (simp add: fl(2) plook_append plook_clip)
    qed
  qed
qed

lemma flat_describes: "twf t \<Longrightarrow> describes (flat t) (tlook t)"
proof (induction t)
  case Lf
  then show ?case by (simp add: describes_def pieces_ok_def)
next
  case (Nd a es ts)
  then have "list_all2 describes (map flat ts) (map tlook ts)" by (auto simp: list_all2_conv_all_nth)
  then have "describes (nflat es (map flat ts)) (nlook es (map tlook ts))"
    using tree_facts [OF Nd.prems] by (intro nflat_describes) auto
  then show ?case by (simp add: describes_def)
qed

section \<open>Property\<close>

text \<open>The entries of the figs of an iteration, as pieces.\<close>

definition fig_piece :: "fig \<Rightarrow> piece" where
  "fig_piece f = (lo (fig_irange f), hi (fig_irange f), fig_value f)"

lemma fig_is_piece: "list_all2 fig_is fs ps \<Longrightarrow> map fig_piece fs = ps"
  by (induction rule: list_all2_induct) (auto simp: fig_is_def fig_piece_def)

text \<open>
  C3: reading a range of a well-formed tree with the iterator yields, for some number of steps, finitely many
  figs that lie in the range, are not empty, come in ascending order and do not overlap, and a byte of
  the range has a value exactly when one of the figs covers it, with that value. No assertion fails
  and the iterator never leaves its array.
\<close>

theorem ft_read_exact:
  assumes "fig_inv (tr, h)" "start \<le> stop"
  shows "\<exists>it fs n. ft_read log h tr start stop = Inr (it, h) \<and> fti_collect n log h it = Inr (fs, h) \<and>
    pieces_ok (map fig_piece fs) (unat start) (Suc (unat stop)) \<and>
    (\<forall>x. start \<le> x \<longrightarrow> x \<le> stop \<longrightarrow> fig_look log (tr, h) x = plook (map fig_piece fs) (unat x))"
proof -
  obtain t where t: "fig_ok h tr t" using assms(1) by (auto simp: fig_inv_def)
  obtain it kts where it: "ft_read log h tr start stop = Inr (it, h)" "iter_ok h it kts"
    "rems (it_states it) kts = flat t (unat start) (Suc (unat stop))" using ft_read_spec [OF t assms(2)] by blast
  obtain fs where fs: "fti_collect (Suc (length (rems (it_states it) kts))) log h it = Inr (fs, h)"
    "list_all2 fig_is fs (rems (it_states it) kts)" using fti_collect_spec [OF it(2)] by blast
  have "describes (flat t) (tlook t)" using t flat_describes by (simp add: fig_ok_def)
  moreover have "fig_look log (tr, h) x = tlook t x" for x using ft_lookup_spec [OF t] by (simp add: fig_look_def)
  ultimately show ?thesis using it fs fig_is_piece [OF fs(2)]
    by (intro exI [of _ it] exI [of _ fs] exI [of _ "Suc (length (rems (it_states it) kts))"])
       (auto simp: describes_def word_le_nat_alt)
qed

theorem ft_read_exact_witness:
  "\<exists>tr h it fs n. ft_init empty_heap = Inr (tr, h) \<and> ft_read (\<lambda>_. None) h tr 3 9 = Inr (it, h) \<and>
     fti_collect n (\<lambda>_. None) h it = Inr (fs, h) \<and> pieces_ok (map fig_piece fs) 3 (Suc 9)"
proof -
  obtain tr h where i: "ft_init empty_heap = Inr (tr, h)" "fig_inv (tr, h)" using fig_init [OF empty_heap_ok] by blast
  then show ?thesis using ft_read_exact [OF i(2), of 3 9 "\<lambda>_. None"] by fastforce
qed

end
