(* ===== verification/Fig_Dirty.thy ===== *)
theory Fig_Dirty
  imports Extent_Map
begin

text \<open>
  Trees that have never been written out: every node is dirty and every subtree pointer is in
  memory. All operations on the index keep this, so a checkpoint of such a tree is complete.
\<close>

definition unsaved_node :: "ft_node \<Rightarrow> bool" where
  "unsaved_node nd \<longleftrightarrow> dirty nd \<and> (\<forall>sp \<in> set (subtrees nd). inmemory sp)"

definition unsaved :: "heap \<Rightarrow> bool" where
  "unsaved h \<longleftrightarrow> (\<forall>a nd. mem h a = Some nd \<longrightarrow> unsaved_node nd)"

lemma unsaved_get: "unsaved h \<Longrightarrow> okR unsaved_node (get_node h a)"
  by (auto simp: get_node_def unsaved_def split: option.splits)

lemma unsaved_put [simp]: "unsaved h \<Longrightarrow> unsaved_node nd \<Longrightarrow> unsaved (put_node h a nd)"
  by (auto simp: unsaved_def put_node_def)

lemma unsaved_alloc: "unsaved h \<Longrightarrow> unsaved_node nd \<Longrightarrow> mem_alloc h nd = (p, h') \<Longrightarrow> unsaved h'"
  by (auto simp: unsaved_def mem_alloc_def split: if_splits)

lemma unsaved_free: "unsaved h \<Longrightarrow> okR unsaved (mem_free h q)"
  by (cases q) (auto simp: mem_free_def get_node_def unsaved_def split: option.splits)

lemma inmemory_set [simp]: "inmemory (subtree_set sp q)"
  by (simp add: subtree_set_def)

lemma inmemory_update: "\<forall>sp \<in> set xs. inmemory sp \<Longrightarrow> inmemory y \<Longrightarrow> \<forall>sp \<in> set (xs[i := y]). inmemory sp"
  using set_update_subset_insert [of xs i y] by auto

lemma unsaved_ftn_free: "unsaved h \<Longrightarrow> okR unsaved (ftn_free n h p)"
proof (induction n arbitrary: h p)
  case (Suc n)
  have step: "okR unsaved (bindR (subtree_free_by (ftn_free n) h sp) (\<lambda>(_, h). Inr h))" if "unsaved h" for h sp
    using Suc.IH [OF that] that by (cases "st sp") (auto simp: subtree_free_by_def bindR_def okR_def split: sum.splits)
  show ?case unfolding ftn_free.simps
    by (rule okR_bind [OF unsaved_get [OF Suc.prems]], rule okR_bind [of unsaved])
      (auto intro!: okR_fold step Suc.prems unsaved_free)
qed simp

lemma unsaved_free_subtrees: "unsaved h \<Longrightarrow> okR unsaved (free_subtrees n h sps)"
proof -
  have "okR unsaved (bindR (subtree_free n h sp) (\<lambda>(_, h). Inr h))" if "unsaved h" for h sp
    using unsaved_ftn_free [OF that] that
    by (cases "st sp") (auto simp: subtree_free_def subtree_free_by_def bindR_def okR_def split: sum.splits)
  then show "unsaved h \<Longrightarrow> ?thesis" unfolding free_subtrees_def by (auto intro!: okR_fold)
qed

lemma unsaved_ftn_new: "unsaved h \<Longrightarrow> okR (\<lambda>(p, h). unsaved h) (ftn_new h height mk)"
proof (induction h height mk rule: ftn_new.induct)
  case (1 h height mk)
  let ?nd = "\<lparr>entries = [], subtrees = [], HEIGHT = height, dirty = True\<rparr>"
  obtain this h1 where al: "mem_alloc h ?nd = (this, h1)" by fastforce
  then have u1: "unsaved h1" using unsaved_alloc [OF "1.prems" _ al] by (simp add: unsaved_node_def)
  show ?case
  proof (cases "height < 0")
    case True
    then show ?thesis by (simp add: ftn_new.simps)
  next
    case False
    have "okR (\<lambda>(p, h). unsaved h) (if height = 0 \<or> \<not> mk then Inr (None, h1)
                 else bindR (ftn_new h1 (height - 1) True) (\<lambda>(p, h). Inr (Some p, h)))"
    proof (cases "height = 0 \<or> \<not> mk")
      case f: False
      have "okR (\<lambda>(p, h). unsaved h) (ftn_new h1 (height - 1) True)"
        using "1.IH" [OF False al [symmetric] refl f u1] .
      then have "okR (\<lambda>(p, h). unsaved h) (bindR (ftn_new h1 (height - 1) True) (\<lambda>(p, h). Inr (Some p, h)))"
        by (rule okR_bind) auto
      then show ?thesis using f by simp
    qed (use u1 in auto)
    then have "okR (\<lambda>(p, h). unsaved h) (bindR (if height = 0 \<or> \<not> mk then Inr (None, h1)
                 else bindR (ftn_new h1 (height - 1) True) (\<lambda>(p, h). Inr (Some p, h)))
            (\<lambda>(firstchild, h). Inr (this, put_node h this
               \<lparr>entries = [], subtrees = [subtree_set zero_sptr firstchild],
                HEIGHT = height, dirty = True\<rparr>)))"
      by (rule okR_bind) (auto simp: unsaved_node_def)
    then show ?thesis using False al by (subst ftn_new.simps) simp
  qed
qed

lemma unsaved_new_child:
  "unsaved h \<Longrightarrow> okR (\<lambda>(p, h). unsaved h) (if b then Inr (None, h) else bindR (ftn_new h k True) (\<lambda>(p, h). Inr (Some p, h)))"
  by (auto intro!: okR_bind [OF unsaved_ftn_new])

lemma unsaved_ftn_clear: "unsaved h \<Longrightarrow> okR unsaved (ftn_clear h this mk)"
  unfolding ftn_clear_def
  by (rule okR_bind [OF unsaved_get], assumption, rule okR_bind [OF unsaved_free_subtrees], assumption,
      rule okR_bind [OF unsaved_get], assumption, rule okR_bind [OF unsaved_new_child], assumption)
    (auto intro!: okR_bind [OF unsaved_get] simp: unsaved_node_def)

lemma unsaved_node_subtrees:
  "unsaved_node nd \<Longrightarrow> (\<And>sp. sp \<in> set sps \<Longrightarrow> inmemory sp) \<Longrightarrow> unsaved_node (nd\<lparr>subtrees := sps\<rparr>)"
  by (simp add: unsaved_node_def)

lemma unsaved_node_update [simp]:
  "unsaved_node nd \<Longrightarrow> inmemory sp \<Longrightarrow> unsaved_node (nd\<lparr>subtrees := (subtrees nd)[i := sp]\<rparr>)"
  using inmemory_update [of "subtrees nd" sp i] by (intro unsaved_node_subtrees) (auto simp: unsaved_node_def)

lemma unsaved_set_child:
  "unsaved h \<Longrightarrow> inmemory sp \<Longrightarrow>
   okR unsaved (bindR (get_node h this) (\<lambda>nd. Inr (put_node h this (nd\<lparr>subtrees := (subtrees nd)[i := sp]\<rparr>))))"
  by (rule okR_bind [OF unsaved_get]) simp_all

lemma unsaved_subtree_clear:
  assumes "unsaved h"
  shows "okR unsaved (subtree_clear h this i height)"
proof -
  have new: "okR unsaved (bindR (ftn_new h height True) (\<lambda>(p, h). bindR (get_node h this) (\<lambda>nd.
      Inr (put_node h this (nd\<lparr>subtrees := (subtrees nd)[i := sp\<lparr>inmemory := True, recno := 0, offset := 0, st := Some p\<rparr>]\<rparr>)))))" for sp
    by (rule okR_bind [OF unsaved_ftn_new [OF assms]]) (auto intro!: unsaved_set_child)
  have clear: "okR unsaved (bindR (get_node h p) (\<lambda>c. bindR (assertR (height = HEIGHT c) h) (\<lambda>h. ftn_clear h p True)))" for p
    by (rule okR_bind [OF unsaved_get [OF assms]]) (simp add: assertR_def unsaved_ftn_clear [OF assms])
  show ?thesis unfolding subtree_clear_def
    by (cases "height < 0", simp add: assms, simp only: if_False)
      (rule okR_bind [OF unsaved_get [OF assms]], simp add: Let_def new clear assms split: option.splits)
qed

lemma keep_subset: "set (keep xs del) \<subseteq> set xs"
  by (auto simp: keep_def dest: set_zip_leftD)

lemma unsaved_performdeletes: "unsaved h \<Longrightarrow> okR unsaved (prune_performdeletes h this ed sd)"
  unfolding prune_performdeletes_def Let_def
  by (rule okR_bind [OF unsaved_get], assumption, rule okR_bind [OF unsaved_free_subtrees])
    (auto simp: unsaved_node_def intro!: okR_bind [OF unsaved_get] unsaved_put dest!: subsetD [OF keep_subset])

lemma unsaved_boundary: "unsaved h \<Longrightarrow> okR unsaved (prune_boundary h this i j valid)"
  unfolding prune_boundary_def
  by (rule okR_bind [OF unsaved_get], assumption, rule okR_bind [OF unsaved_subtree_clear], assumption,
      rule okR_bind [OF unsaved_get], assumption, rule okR_bind [of "\<lambda>_. True"]) (auto simp: okR_def unsaved_node_def)

lemma unsaved_pruneTo:
  assumes u: "unsaved h"
  shows "okR unsaved (ftn_pruneTo h this valid)"
proof -
  have b: "okR (\<lambda>(i, h). unsaved h) (if c then bindR (prune_boundary h this i j valid) (\<lambda>h. Inr (i + 1, h)) else Inr (i, h))"
    if "unsaved h" for c i j h
    using that by (auto intro!: okR_bind [OF unsaved_boundary])
  have f: "okR unsaved (let (i, ed, sd) = prune_right_loop es valid i ed sd in prune_performdeletes h this ed sd)"
    if "unsaved h" for es i ed sd h using that by (auto simp: unsaved_performdeletes split: prod.split)
  have g: "okR unsaved (if i = n then prune_performdeletes h this ed sd else
      bindR (get_node h this) (\<lambda>nd. let (i, ed, sd) = prune_right_loop (entries nd) valid i ed sd in prune_performdeletes h this ed sd))"
    if "unsaved h" for n i ed sd h
    using that by (auto simp: Let_def intro!: okR_bind [OF unsaved_get] f [unfolded Let_def] unsaved_performdeletes)
  have m: "okR unsaved (if i = n then prune_performdeletes h this ed sd else bindR (get_node h this) (\<lambda>nd.
      let i = prune_skip_loop (entries nd) valid i in
      if i = n then prune_performdeletes h this ed sd
      else bindR (if i_rightOverlaps valid (irange (entries nd ! i))
             then bindR (prune_boundary h this i (i + 1) valid) (\<lambda>h. Inr (i + 1, h)) else Inr (i, h)) (\<lambda>(i, h).
        if i = n then prune_performdeletes h this ed sd else
          bindR (get_node h this) (\<lambda>nd. let (i, ed, sd) = prune_right_loop (entries nd) valid i ed sd in prune_performdeletes h this ed sd))))"
    if "unsaved h" for n i ed sd h
    unfolding Let_def
    by (rule okR_if, rule unsaved_performdeletes [OF that], rule okR_bind [OF unsaved_get [OF that]],
        rule okR_if, rule unsaved_performdeletes [OF that], rule okR_bind [OF b [OF that]])
      (simp only: case_prod_beta g [unfolded Let_def case_prod_beta])
  show ?thesis
  proof (cases "nonempty valid")
    case True
    show ?thesis unfolding ftn_pruneTo_def Let_def case_prod_beta
      by (rule okR_if, use True in simp, rule okR_bind [OF unsaved_get [OF u]], rule okR_if, use u in simp,
          rule okR_if, rule unsaved_performdeletes [OF u], rule okR_bind [OF b [OF u]])
        (simp only: case_prod_beta m [unfolded Let_def case_prod_beta])
  qed (simp add: ftn_pruneTo_def unsaved_ftn_clear u)
qed

lemma unsaved_replaceEntries: "unsaved h \<Longrightarrow> okR unsaved (ftn_replaceEntries h this start stop iv v)"
  unfolding ftn_replaceEntries_def
  by (rule okR_bind [OF unsaved_get], assumption, rule okR_bind [OF okR_assert], rule okR_bind [OF okR_assert],
      rule okR_bind [OF okR_assert], rule okR_bind [OF unsaved_free_subtrees], assumption, rule okR_bind [OF unsaved_get], assumption)
    (auto simp: unsaved_node_def intro!: unsaved_put dest!: in_set_takeD in_set_dropD)

text \<open>In such a heap nothing is read from the log.\<close>

lemma unsaved_subtree_get: "unsaved h \<Longrightarrow> okR (\<lambda>(q, h'). h' = h) (subtree_get log h this i)"
  unfolding subtree_get_def
  by (rule okR_bind [OF unsaved_get], assumption) (auto simp: Let_def unsaved_node_def)

lemma unsaved_add:
  "unsaved_node nd \<Longrightarrow> okR unsaved_node (ftn_entries_add nd i e)"
  "unsaved_node nd \<Longrightarrow> okR unsaved_node (ftn_subtrees_add nd i q)"
  by (auto simp: ftn_entries_add_def ftn_subtrees_add_def unsaved_node_def dest: in_set_takeD in_set_dropD)

lemma unsaved_split:
  assumes "unsaved h" "unsaved_node nd"
  shows "okR (\<lambda>(q, h). unsaved h) (bindR (ftn_new h (HEIGHT nd) False) (\<lambda>(l, h).
       bindR (ftn_new h (HEIGHT nd) False) (\<lambda>(r, h).
       bindR (get_node h l) (\<lambda>lnode.
       bindR (get_node h r) (\<lambda>rnode.
       let h = put_node h l (lnode\<lparr>entries := take FT_ORDER (entries nd),
                                   subtrees := take (FT_ORDER + 1) (subtrees nd)\<rparr>);
           h = put_node h r (rnode\<lparr>entries := drop (FT_ORDER + 1) (entries nd),
                                   subtrees := drop (FT_ORDER + 1) (subtrees nd)\<rparr>);
           h = put_node h this
                 (nd\<lparr>entries := [entries nd ! FT_ORDER],
                     subtrees := [subtree_set (subtrees nd ! 0) (Some l),
                                  subtree_set (subtrees nd ! 1) (Some r)],
                     HEIGHT := HEIGHT nd + 1\<rparr>)
       in Inr (Some this, h))))))"
  by (rule okR_bind [OF unsaved_ftn_new [OF assms(1)]], clarify, rule okR_bind [OF unsaved_ftn_new], assumption, clarify,
      rule okR_bind [OF unsaved_get], assumption, rule okR_bind [OF unsaved_get], assumption)
    (use assms in \<open>auto simp: Let_def unsaved_node_def intro!: unsaved_put dest!: in_set_takeD in_set_dropD\<close>)

lemma unsaved_insert:
  assumes u: "unsaved h"
  shows "okR (\<lambda>(q, h). unsaved h) (ftn_insert h this e i l r)"
proof -
  have c: "unsaved_node (nd\<lparr>subtrees := (subtrees nd)[i := subtree_set sp l]\<rparr>)" if "unsaved_node nd" for nd sp
    using that by simp
  show ?thesis unfolding ftn_insert_def Let_def
    by (rule okR_bind [OF unsaved_get [OF u]], rule okR_bind [OF okR_assert], rule okR_bind [OF okR_assert],
        rule okR_bind [OF unsaved_add(1)], assumption, rule okR_bind [OF unsaved_add(2)], erule c,
        rule okR_if, rule unsaved_split [unfolded Let_def])
      (use u in \<open>auto simp: unsaved_node_def\<close>)
qed

lemma unsaved_replace:
  assumes u: "unsaved h"
  shows "okR (\<lambda>(h, path, ic). unsaved h) (ft_replace log maxdepth h rng v c valid path i)"
proof -
  have sg: "okR Q (bindR (subtree_get log h c j) F)" if "\<And>q. okR Q (F (q, h))" for Q F j
    using that by (intro okR_bind [OF unsaved_subtree_get [OF u]]) auto
  have tk: "okR Q (bindR m F)" if "\<And>x. okR Q (F x)" for Q m F
    by (rule okR_bind [of "\<lambda>_. True"]) (use that in auto)
  have lp: "okR (\<lambda>(ic, h'). h' = h) (if b then bindR (subtree_get log h c j) (\<lambda>(at, h). bindR (iv at) (\<lambda>x. Inr (f at x, h)))
      else Inr (ic, h))" for b j ic iv f
    by (rule okR_if, rule sg, simp only: prod.case, rule tk) simp_all
  have rp: "okR (\<lambda>(ic, h', path). h' = h) (if b then bindR (subtree_get log h c j) (\<lambda>(at, h). bindR (iv at) (\<lambda>x.
      bindR (pth at x) (\<lambda>path. Inr (f at x, h, path)))) else bindR pth' (\<lambda>path. Inr (ic, h, path)))" for b j ic iv f pth pth'
    by (rule okR_if, rule sg, simp only: prod.case, rule tk, rule tk, simp, rule tk, simp)
  show ?thesis unfolding ft_replace_def Let_def
    by (rule okR_bind [OF unsaved_get [OF u]], rule okR_bind [OF lp], clarify, rule okR_bind [OF rp], clarify,
        rule okR_bind [OF unsaved_replaceEntries [OF u]]) simp
qed

lemma unsaved_descend:
  "unsaved h \<Longrightarrow> okR (\<lambda>(c, h, path, ic). unsaved h) (ft_descend n log maxdepth h rng v c valid path)"
proof (induction n arbitrary: h c valid path)
  case (Suc n)
  have go: "okR (\<lambda>(c, h, path, ic). unsaved h) (bindR (path_push maxdepth path c i) (\<lambda>path. bindR (subtree_get log h c i) (\<lambda>(next, h).
      bindR (iv h) (\<lambda>valid. ft_descend n log maxdepth h rng v next valid path))))" if "unsaved h" for h c i iv
    by (rule okR_bind [of "\<lambda>_. True"], simp, rule okR_bind [OF unsaved_subtree_get [OF that]], clarify,
        rule okR_bind [of "\<lambda>_. True"], simp, rule Suc.IH [OF that])
  show ?case
  proof (cases c)
    case (Some a)
    show ?thesis unfolding Some ft_descend.simps option.case Let_def
    proof (rule okR_bind [OF unsaved_pruneTo [OF Suc.prems]], rule okR_bind [OF unsaved_get], assumption, goal_cases)
      case (1 h nd)
      have "okR (\<lambda>(c, h, path, ic). unsaved h) (bindR (ft_replace log maxdepth h rng v a valid path i) (\<lambda>(h, path, ic).
          Inr (Some a, h, path, ic)))" for i
        by (rule okR_bind [OF unsaved_replace [OF 1(1)]]) auto
      then show ?case by (cases "ft_scan (entries nd) rng 0") (simp_all only: scan_result.case go [OF 1(1)])
    qed
  qed (use Suc.prems in \<open>simp add: ft_descend.simps\<close>)
qed (simp add: ft_descend.simps)

lemma unsaved_adjust: "unsaved h \<Longrightarrow> okR (\<lambda>(h, path). unsaved h) (ft_adjust log fsi h path i t r)"
  unfolding ft_adjust_def Let_def
  by (rule okR_bind [of "\<lambda>_. True"], simp, cases t)
    (auto split: option.split intro!: okR_bind [OF unsaved_subtree_get])

lemma unsaved_ascend:
  "unsaved h \<Longrightarrow> okR (\<lambda>(h, path, np, t). unsaved h) (ft_ascend log rc fsi n h path t e l r)"
proof (induction n arbitrary: h path t e l r)
  case (Suc n)
  have adj: "okR (\<lambda>(h, path). unsaved h) (if rc then ft_adjust log fsi h path n rv r else Inr (h, path))" if "unsaved h" for h rv
    using that by (simp add: unsaved_adjust)
  have last: "okR (\<lambda>(h, path, np, t). unsaved h) (case rv of
        None \<Rightarrow> bindR (pth path) (\<lambda>path. Inr (h, path, False, None))
      | Some t \<Rightarrow> bindR (get_node h t) (\<lambda>nd. bindR (subtree_get log h t 0) (\<lambda>(l, h). bindR (subtree_get log h t 1) (\<lambda>(r, h).
          ft_ascend log rc fsi n h path (Some t) (entries nd ! 0) l r))))" if u: "unsaved h" for h rv pth path
  proof (cases rv)
    case None
    show ?thesis unfolding None option.case by (rule okR_bind [of "\<lambda>_. True"]) (simp_all add: u)
  next
    case (Some t)
    show ?thesis unfolding Some option.case
      by (rule okR_bind [OF unsaved_get [OF u]], rule okR_bind [OF unsaved_subtree_get [OF u]], clarify,
          rule okR_bind [OF unsaved_subtree_get [OF u]], clarify, rule Suc.IH [OF u])
  qed
  show ?case unfolding ft_ascend.simps Let_def
    by (rule okR_bind [OF unsaved_insert [OF Suc.prems]], clarify, rule okR_bind [OF unsaved_free], assumption,
        rule okR_bind [OF adj], assumption, clarify, rule last)
qed (simp add: ft_ascend.simps)

lemma unsaved_new_root:
  assumes u: "unsaved h"
  shows "okR (\<lambda>(h, tr, path, fsi). unsaved h) (bindR (subtree_get log h t 1) (\<lambda>(r, h).
      bindR (if c r then Inr (1, h) else bindR (subtree_get log h t 0) (\<lambda>(l, h). assertR (c l) (0, h))) (\<lambda>(idx, h).
      Inr (h, tr, (t, idx) # path, fsi + 1))))"
proof (rule okR_bind [OF unsaved_subtree_get [OF u]], clarify)
  fix r
  have "okR (\<lambda>(idx, h'). h' = h) (if c r then Inr (1, h) else bindR (subtree_get log h t 0) (\<lambda>(l, h). assertR (c l) (0, h)))"
    by (rule okR_if, simp, rule okR_bind [OF unsaved_subtree_get [OF u]]) auto
  then show "okR (\<lambda>(h, tr, path, fsi). unsaved h) (bindR
      (if c r then Inr (1, h) else bindR (subtree_get log h t 0) (\<lambda>(l, h). assertR (c l) (0, h))) (\<lambda>(idx, h).
      Inr (h, tr, (t, idx) # path, fsi + 1)))"
    by (rule okR_bind) (use u in auto)
qed

lemma unsaved_ft_insert:
  assumes u: "unsaved h"
  shows "okR (\<lambda>(h, tr, path, ic). unsaved h) (ft_insert log maxdepth h tr ia path rc)"
  unfolding ft_insert_def Let_def
proof (rule okR_bind [OF unsaved_descend [OF u]], clarify, rule okR_bind [of "\<lambda>(h, tr, path, fsi). unsaved h"], goal_cases)
  case (1 c h path' ic)
  show ?case
  proof (cases c)
    case None
    show ?thesis unfolding None option.case
    proof (rule okR_bind [OF unsaved_ascend [OF 1]], clarify, goal_cases)
      case (1 h path np t)
      then show ?case
        by (auto simp only: okR_simps prod.case split: option.split intro!: okR_if unsaved_new_root)
    qed
  qed (simp add: 1)
qed auto

lemma unsaved_write:
  assumes u: "unsaved h"
  shows "okR (\<lambda>(tr, h). unsaved h) (ft_write log h tr start stop v)"
proof (cases "root tr")
  case (Some rt)
  have cont: "okR (\<lambda>(h, x). unsaved h) (if b then bindR (ft_insert log k h tr ia path rc) (\<lambda>(h, tr, path, ns).
      assertR (q ns) (h, f tr path)) else Inr (h, g))" if "unsaved h" for b k h tr ia path rc q f g
    by (rule okR_if, rule okR_bind [OF unsaved_ft_insert [OF that]]) (auto simp: that)
  show ?thesis unfolding ft_write_def Some option.case Let_def
  proof (rule okR_bind [OF unsaved_get [OF u]], rule okR_bind [OF unsaved_ft_insert [OF u]], clarify, rule okR_bind [OF cont], assumption, goal_cases)
    case (1 nd h tr path ic x)
    obtain h' tr' path' where x: "x = (h', tr', path')" "unsaved h'" using 1 by (cases x) auto
    show ?case unfolding x prod.case
      by (rule okR_bind [OF cont [OF x(2)]]) auto
  qed
qed (simp add: ft_write_def)

lemma unsaved_init: "unsaved h \<Longrightarrow> okR (\<lambda>(tr, h). unsaved h) (ft_init h)"
  unfolding ft_init_def by (auto intro!: okR_bind [OF unsaved_ftn_new])

lemma unsaved_writes:
  "unsaved h \<Longrightarrow> okR (\<lambda>(tr, h). unsaved h) (foldR (\<lambda>(tr, h) (a, b, v). ft_write log h tr a b v) ws (tr, h))"
  by (rule okR_fold) (auto simp: unsaved_write)

end
