(* ===== verification/Fig_Ckpt.thy ===== *)
theory Fig_Ckpt
  imports Fig_Dirty
begin

text \<open>
  Checkpoints of a FIG tree: \<open>get_dirty\<close> of \<^verbatim>\<open>src/figtree/utils.c\<close>, which writes the dirty nodes of a tree out,
  children before parents, and \<open>ft_dealloc\<close> of \<^verbatim>\<open>src/figtree/figtree.c\<close>. The lemmas relate the nodes of a
  checkpoint to the tree in memory, and lookups in a tree whose nodes come from the log to lookups in
  the tree that was written.
\<close>

section \<open>Operations\<close>

text \<open>
  The nodes collected so far are a list, whose length is \<open>dirty_len\<close>. The loop over the children works
  on the array of subtree pointers in the node, so each round reads and writes the node in memory.
\<close>

definition detach :: "subtree_ptr \<Rightarrow> subtree_ptr res" where
  "detach sp = (case st sp of Some _ \<Rightarrow> Inr (sp\<lparr>inmemory := False, st := None\<rparr>)
     | None \<Rightarrow> assertR (inmemory sp) sp)"

primrec mapR :: "('a \<Rightarrow> 'b res) \<Rightarrow> 'a list \<Rightarrow> 'b list res" where
  "mapR f [] = Inr []"
| "mapR f (x # xs) = bindR (f x) (\<lambda>y. bindR (mapR f xs) (\<lambda>ys. Inr (y # ys)))"

primrec get_dirty_helper ::
  "nat \<Rightarrow> heap \<Rightarrow> subtree_ptr \<Rightarrow> int \<Rightarrow> ft_node list \<Rightarrow> (subtree_ptr \<times> heap \<times> ft_node list) res" where
  "get_dirty_helper 0 h node rno dirtys = Inl Out_Of_Fuel"
| "get_dirty_helper (Suc n) h node rno dirtys =
     (case st node of
        None \<Rightarrow> Inr (node, h, dirtys)
      | Some p \<Rightarrow>
          if \<not> inmemory node then Inr (node, h, dirtys)
          else bindR (get_node h p) (\<lambda>nd.
            if \<not> dirty nd then Inr (node, h, dirtys)
            else
              bindR (foldR (\<lambda>(h, dirtys) i.
                       bindR (get_node h p) (\<lambda>nd.
                       bindR (get_dirty_helper n h (subtrees nd ! i) rno dirtys) (\<lambda>(sp, h, dirtys).
                       bindR (get_node h p) (\<lambda>nd.
                       Inr (put_node h p (nd\<lparr>subtrees := (subtrees nd)[i := sp]\<rparr>), dirtys)))))
                     [0..<length (subtrees nd)] (h, dirtys)) (\<lambda>(h, dirtys).
              bindR (get_node h p) (\<lambda>nd.
              let nd = nd\<lparr>dirty := False\<rparr>;
                  node = node\<lparr>recno := rno, offset := int (length dirtys * sizeof_ft_node)\<rparr> in
              bindR (mapR detach (subtrees nd)) (\<lambda>sps.
              Inr (node, put_node h p nd, dirtys @ [nd\<lparr>subtrees := sps\<rparr>]))))))"

definition get_dirty :: "heap \<Rightarrow> figtree \<Rightarrow> int \<Rightarrow> (ft_node list \<times> heap) res" where
  "get_dirty h ft chkpt_recno =
     (case root ft of
        None \<Rightarrow> Inr ([], h)
      | Some rt \<Rightarrow> bindR (get_node h rt) (\<lambda>nd.
          bindR (get_dirty_helper (nat (HEIGHT nd + 2)) h (zero_sptr\<lparr>st := Some rt, inmemory := True\<rparr>) chkpt_recno [])
            (\<lambda>(_, h, dirtys). Inr (dirtys, h))))"

definition ft_dealloc :: "heap \<Rightarrow> figtree \<Rightarrow> (figtree \<times> heap) res" where
  "ft_dealloc h this =
     (case root this of
        None \<Rightarrow> Inl Bad_Pointer
      | Some rt \<Rightarrow> bindR (get_node h rt) (\<lambda>nd.
          bindR (ftn_free (nat (HEIGHT nd + 1)) h rt) (\<lambda>h. Inr (\<lparr>root = None\<rparr>, h))))"

section \<open>Deallocation frees the nodes of the tree\<close>

definition freed :: "heap \<Rightarrow> nat set \<Rightarrow> heap" where
  "freed h A = h\<lparr>mem := (\<lambda>a. if a \<in> A then None else mem h a)\<rparr>"

lemma freed_freed: "freed (freed h A) B = freed h (A \<union> B)"
  by (auto simp: freed_def fun_eq_iff)

lemma freed_empty [simp]: "freed h {} = h"
  by (simp add: freed_def)

lemma rep_freed: "rep h k p t \<Longrightarrow> set (addrs t) \<inter> A = {} \<Longrightarrow> rep (freed h A) k p t"
  by (subst rep_cong [of t "freed h A" h]) (auto simp: freed_def)

lemma reps_freed:
  "reps h k sps ts \<Longrightarrow> set (concat (map addrs ts)) \<inter> A = {} \<Longrightarrow> reps (freed h A) k sps ts"
  by (erule list.rel_mono_strong) (auto intro!: rep_freed)

lemma free_fold_freed:
  assumes "reps h k sps ts" "distinct (concat (map addrs ts))"
    "\<And>h p t. rep h k (Some p) t \<Longrightarrow> distinct (addrs t) \<Longrightarrow> t \<in> set ts \<Longrightarrow> free h p = Inr (freed h (set (addrs t)))"
  shows "foldR (\<lambda>h sptr. bindR (subtree_free_by free h sptr) (\<lambda>(_, h). Inr h)) sps h =
     Inr (freed h (set (concat (map addrs ts))))"
  using assms
proof (induction sps arbitrary: ts h)
  case (Cons sp sps)
  obtain t ts' where ts: "ts = t # ts'" "inmemory sp" "rep h k (st sp) t" "reps h k sps ts'"
    using Cons.prems(1) by (auto simp: list_all2_Cons1)
  have "bindR (subtree_free_by free h sp) (\<lambda>(_, h). Inr h) = Inr (freed h (set (addrs t)))"
  proof (cases "st sp")
    case None
    then have "t = Lf" using ts(3) by (cases t) auto
    then show ?thesis using None by (simp add: subtree_free_by_def)
  next
    case (Some p)
    then show ?thesis using ts Cons.prems(2,3) by (simp add: subtree_free_by_def)
  qed
  moreover have "reps (freed h (set (addrs t))) k sps ts'"
    using Cons.prems(2) ts by (intro reps_freed [OF ts(4)]) auto
  ultimately show ?case using Cons.IH [of "freed h (set (addrs t))" ts'] Cons.prems(2,3) ts(1)
    by (simp add: freed_freed)
qed simp

lemma ftn_free_freed:
  "rep h k (Some p) t \<Longrightarrow> distinct (addrs t) \<Longrightarrow> k \<le> n \<Longrightarrow> ftn_free n h p = Inr (freed h (set (addrs t)))"
proof (induction n arbitrary: h k p t)
  case 0
  then show ?case by (cases t) auto
next
  case (Suc n)
  obtain es ts nd where t: "t = Nd p es ts" and k: "0 < k" and nd: "mem h p = Some nd" "reps h (k - 1) (subtrees nd) ts"
    using Suc.prems(1) by (cases t) auto
  have "foldR (\<lambda>h sptr. bindR (subtree_free_by (ftn_free n) h sptr) (\<lambda>(_, h). Inr h)) (subtrees nd) h =
      Inr (freed h (set (concat (map addrs ts))))"
    by (rule free_fold_freed [OF nd(2)]) (use Suc t k in auto)
  moreover have "mem (freed h (set (concat (map addrs ts)))) p = Some nd" using nd(1) Suc.prems(2) t by (simp add: freed_def)
  ultimately show ?case using nd(1) t by (auto simp: freed_def fun_eq_iff)
qed

lemma ft_dealloc_spec:
  assumes "fig_ok h tr t"
  shows "ft_dealloc h tr = Inr (\<lparr>root = None\<rparr>, freed h (set (addrs t)))"
proof -
  obtain K where own: "owns h (Suc K) t" and root: "root tr = tptr t" using assms by (auto simp: fig_ok_def)
  then obtain a es ts where t: "t = Nd a es ts" by (cases t) (auto simp: owns_def)
  obtain nd where nd: "mem h a = Some nd" "HEIGHT nd = int K" using own t by (auto elim: owns_node)
  have "nat (HEIGHT nd + 1) = Suc K" using nd(2) by simp
  then show ?thesis using ftn_free_freed [of h "Suc K" a t "Suc K"] own root t nd(1)
    by (simp add: ft_dealloc_def owns_def del: ftn_free.simps)
qed

section \<open>Heaps of the same shape\<close>

text \<open>A checkpoint changes only the dirty flags of nodes and the log positions of subtree pointers.\<close>

definition same_sptr :: "subtree_ptr \<Rightarrow> subtree_ptr \<Rightarrow> bool" where
  "same_sptr a b \<longleftrightarrow> inmemory a = inmemory b \<and> st a = st b"

definition same_node :: "ft_node \<Rightarrow> ft_node \<Rightarrow> bool" where
  "same_node nd nd' \<longleftrightarrow> entries nd = entries nd' \<and> HEIGHT nd = HEIGHT nd' \<and> list_all2 same_sptr (subtrees nd) (subtrees nd')"

definition shape :: "heap \<Rightarrow> heap \<Rightarrow> bool" where
  "shape h h' \<longleftrightarrow> next_ptr h = next_ptr h' \<and> (\<forall>a. rel_option same_node (mem h a) (mem h' a))"

lemma same_sptr_refl [simp]: "same_sptr a a"
  by (simp add: same_sptr_def)

lemma same_node_refl [simp]: "same_node nd nd"
  by (simp add: same_node_def list_all2_refl)

lemma shape_refl [simp]: "shape h h"
  by (simp add: shape_def option.rel_refl)

lemma same_node_trans: "same_node a b \<Longrightarrow> same_node b c \<Longrightarrow> same_node a c"
  unfolding same_node_def using list_all2_trans [of same_sptr same_sptr same_sptr "subtrees a" "subtrees b" "subtrees c"]
  by (auto simp: same_sptr_def)

lemma shape_trans [trans]:
  assumes "shape h1 h2" "shape h2 h3"
  shows "shape h1 h3"
proof -
  have "rel_option same_node (mem h1 a) (mem h3 a)" for a
  proof -
    have "rel_option same_node (mem h1 a) (mem h2 a)" "rel_option same_node (mem h2 a) (mem h3 a)"
      using assms by (auto simp: shape_def)
    then show ?thesis
      by (cases "mem h1 a"; cases "mem h2 a"; cases "mem h3 a") (auto intro: same_node_trans)
  qed
  then show ?thesis using assms by (simp add: shape_def)
qed

lemma shape_node: "shape h h' \<Longrightarrow> mem h a = Some nd \<Longrightarrow> \<exists>nd'. mem h' a = Some nd' \<and> same_node nd nd'"
  unfolding shape_def by (metis option.rel_cases option.distinct(1) option.inject)

lemma shape_put: "mem h a = Some nd \<Longrightarrow> same_node nd nd' \<Longrightarrow> shape h (put_node h a nd')"
  by (auto simp: shape_def put_node_def option.rel_refl)

lemma rep_shape: "shape h h' \<Longrightarrow> rep h k p t \<Longrightarrow> rep h' k p t"
proof (induction t arbitrary: k p)
  case (Nd a es ts)
  obtain nd where nd: "mem h a = Some nd" "entries nd = es" "HEIGHT nd = int k - 1" "reps h (k - 1) (subtrees nd) ts"
    and k: "0 < k" "p = Some a" using Nd.prems(2) by auto
  obtain nd' where nd': "mem h' a = Some nd'" "same_node nd nd'" using shape_node [OF Nd.prems(1) nd(1)] by blast
  have "reps h' (k - 1) (subtrees nd') ts"
    unfolding list_all2_conv_all_nth
  proof (intro conjI allI impI)
    show l: "length (subtrees nd') = length ts" using nd(4) nd'(2) by (auto simp: same_node_def dest!: list_all2_lengthD)
    fix i assume i: "i < length (subtrees nd')"
    then have "same_sptr (subtrees nd ! i) (subtrees nd' ! i)" "inmemory (subtrees nd ! i)" "rep h (k - 1) (st (subtrees nd ! i)) (ts ! i)"
      using nd'(2) nd(4) l by (auto simp: same_node_def list_all2_conv_all_nth)
    then show "inmemory (subtrees nd' ! i)" "rep h' (k - 1) (st (subtrees nd' ! i)) (ts ! i)"
      using Nd.IH [of "ts ! i"] Nd.prems(1) i l by (auto simp: same_sptr_def)
  qed
  then show ?case using nd nd' k by (auto simp: same_node_def)
qed simp

lemma shape_heap_ok: "shape h h' \<Longrightarrow> heap_ok h \<Longrightarrow> heap_ok h'"
  unfolding shape_def heap_ok_def by (metis option.rel_cases option.distinct(1))

section \<open>Trees in a checkpoint\<close>

text \<open>
  \<open>lptr L r k sp t\<close>: the pointer leads to the tree \<open>t\<close> of height \<open>k\<close> in the list \<open>L\<close> of the nodes of log
  record \<open>r\<close>; \<open>lnode\<close> says the same of a node that has been read.
\<close>

fun lptr :: "ft_node list \<Rightarrow> int \<Rightarrow> nat \<Rightarrow> subtree_ptr \<Rightarrow> ftree \<Rightarrow> bool" where
  "lptr L r k sp Lf \<longleftrightarrow> k = 0 \<and> inmemory sp \<and> st sp = None"
| "lptr L r k sp (Nd a es ts) \<longleftrightarrow> 0 < k \<and> \<not> inmemory sp \<and> recno sp = r \<and>
     (\<exists>j < length L. offset sp = int (j * sizeof_ft_node) \<and> entries (L ! j) = es \<and> HEIGHT (L ! j) = int k - 1 \<and>
        list_all2 (\<lambda>sp t. lptr L r (k - 1) sp t) (subtrees (L ! j)) ts)"

definition lnode :: "ft_node list \<Rightarrow> int \<Rightarrow> nat \<Rightarrow> ft_node \<Rightarrow> ftree \<Rightarrow> bool" where
  "lnode L r k nd t = (case t of Lf \<Rightarrow> False | Nd a es ts \<Rightarrow> 0 < k \<and> entries nd = es \<and> HEIGHT nd = int k - 1 \<and>
     list_all2 (\<lambda>sp t. lptr L r (k - 1) sp t) (subtrees nd) ts)"

lemma lptr_append: "lptr L r k sp t \<Longrightarrow> lptr (L @ M) r k sp t"
proof (induction t arbitrary: k sp)
  case (Nd a es ts)
  then obtain j where j: "j < length L" "offset sp = int (j * sizeof_ft_node)" "entries (L ! j) = es" "HEIGHT (L ! j) = int k - 1"
    "list_all2 (\<lambda>sp t. lptr L r (k - 1) sp t) (subtrees (L ! j)) ts" by auto
  have "list_all2 (\<lambda>sp t. lptr (L @ M) r (k - 1) sp t) (subtrees (L ! j)) ts"
    using j(5) by (rule list.rel_mono_strong) (use Nd.IH in auto)
  then show ?case using Nd.prems j by (auto simp: nth_append intro!: exI [of _ j])
qed simp

lemma lptr_children_append:
  "list_all2 (\<lambda>sp t. lptr L r k sp t) sps ts \<Longrightarrow> list_all2 (\<lambda>sp t. lptr (L @ M) r k sp t) sps ts"
  by (erule list.rel_mono_strong) (rule lptr_append)

lemma mapR_all2:
  "list_all2 (\<lambda>x y. f x = Inr y) xs ys \<Longrightarrow> mapR f xs = Inr ys"
  by (induction rule: list_all2_induct) simp_all

section \<open>Writing a tree out\<close>

text \<open>What writing one subtree achieves: the pointer, cut off from memory, leads to the tree in the list.\<close>

definition dirty_in :: "heap \<Rightarrow> ftree \<Rightarrow> bool" where
  "dirty_in h t \<longleftrightarrow> (\<forall>a \<in> set (addrs t). \<exists>nd. mem h a = Some nd \<and> dirty nd)"

definition written :: "heap \<Rightarrow> nat \<Rightarrow> subtree_ptr \<Rightarrow> int \<Rightarrow> ft_node list \<Rightarrow> ftree \<Rightarrow> (subtree_ptr \<times> heap \<times> ft_node list) res \<Rightarrow> bool" where
  "written h k sp r acc t res \<longleftrightarrow> (\<exists>sp' h' L d. res = Inr (sp', h', acc @ L) \<and> shape h h' \<and>
     (\<forall>a. a \<notin> set (addrs t) \<longrightarrow> mem h' a = mem h a) \<and> same_sptr sp sp' \<and>
     detach sp' = Inr d \<and> lptr (acc @ L) r k d t \<and> (t \<noteq> Lf \<longrightarrow> L \<noteq> [] \<and> lnode (acc @ L) r k (last L) t))"

definition child_step where
  "child_step f p = (\<lambda>(h, dirtys) i.
     bindR (get_node h p) (\<lambda>nd.
     bindR (f h (subtrees nd ! i) dirtys) (\<lambda>(sp, h, dirtys).
     bindR (get_node h p) (\<lambda>nd.
     Inr (put_node h p (nd\<lparr>subtrees := (subtrees nd)[i := sp]\<rparr>), dirtys :: ft_node list)))))"

text \<open>The state of the loop over the children of \<open>p\<close> after \<open>i\<close> rounds.\<close>

definition children_done ::
  "heap \<Rightarrow> nat \<Rightarrow> ft_node \<Rightarrow> nat \<Rightarrow> int \<Rightarrow> ftree list \<Rightarrow> nat \<Rightarrow> heap \<Rightarrow> ft_node list \<Rightarrow> bool" where
  "children_done h p nd k r ts i hi acc \<longleftrightarrow> shape h hi \<and>
     (\<forall>a. a \<noteq> p \<longrightarrow> a \<notin> set (concat (map addrs (take i ts))) \<longrightarrow> mem hi a = mem h a) \<and>
     (\<exists>ndi. mem hi p = Some ndi \<and> same_node nd ndi \<and> dirty ndi \<and>
        (\<forall>j < i. \<exists>d. detach (subtrees ndi ! j) = Inr d \<and> lptr acc r k d (ts ! j)) \<and>
        (\<forall>j. i \<le> j \<longrightarrow> j < length ts \<longrightarrow> subtrees ndi ! j = subtrees nd ! j))"

lemma dirty_in_cong: "(\<And>a. a \<in> set (addrs t) \<Longrightarrow> mem h' a = mem h a) \<Longrightarrow> dirty_in h' t = dirty_in h t"
  by (simp add: dirty_in_def)

lemma child_round:
  assumes D: "children_done h p nd k r ts i hi acc" and i: "i < length ts"
    and nd: "reps h k (subtrees nd) ts" "mem h p = Some nd"
    and ds: "distinct (p # concat (map addrs ts))" "dirty_in h (ts ! i)"
    and f: "\<And>h sp acc. rep h k (st sp) (ts ! i) \<Longrightarrow> inmemory sp \<Longrightarrow> dirty_in h (ts ! i) \<Longrightarrow> written h k sp r acc (ts ! i) (f h sp acc)"
  shows "\<exists>h' L. child_step f p (hi, acc) i = Inr (h', acc @ L) \<and> children_done h p nd k r ts (Suc i) h' (acc @ L)"
proof -
  obtain ndi where n: "mem hi p = Some ndi" "same_node nd ndi" "dirty ndi"
    "\<forall>j < i. \<exists>d. detach (subtrees ndi ! j) = Inr d \<and> lptr acc r k d (ts ! j)"
    "\<forall>j. i \<le> j \<longrightarrow> j < length ts \<longrightarrow> subtrees ndi ! j = subtrees nd ! j" and sh: "shape h hi"
    and fr: "\<forall>a. a \<noteq> p \<longrightarrow> a \<notin> set (concat (map addrs (take i ts))) \<longrightarrow> mem hi a = mem h a"
    using D by (auto simp: children_done_def)
  have len: "length (subtrees nd) = length ts" "length (subtrees ndi) = length ts"
    using nd(1) n(2) by (auto simp: same_node_def dest!: list_all2_lengthD)
  let ?sp = "subtrees ndi ! i" and ?t = "ts ! i"
  have pt: "p \<notin> set (addrs ?t)" using ds(1) nth_mem [OF i] by auto
  have dj: "set (addrs ?t) \<inter> set (concat (map addrs (take i ts))) = {}"
  proof -
    have e: "concat (map addrs ts) = concat (map addrs (take i ts)) @ addrs ?t @ concat (drop (Suc i) (map addrs ts))"
      using concat_split_nth [of i "map addrs ts"] i by (simp add: take_map)
    have "distinct (concat (map addrs ts))" using ds(1) by simp
    then have "distinct (concat (map addrs (take i ts)) @ addrs ?t @ concat (drop (Suc i) (map addrs ts)))"
      by (simp only: e)
    then show ?thesis unfolding distinct_append set_append by blast
  qed
  have eq: "mem hi a = mem h a" if a: "a \<in> set (addrs ?t)" for a
  proof -
    have "a \<noteq> p" using a pt by auto
    moreover have "a \<notin> set (concat (map addrs (take i ts)))" using dj a by (meson disjoint_iff)
    ultimately show ?thesis using fr by simp
  qed
  have sp: "?sp = subtrees nd ! i" using n(5) i by simp
  then have rp: "rep hi k (st ?sp) ?t" "inmemory ?sp"
    using nd(1) i rep_shape [OF sh] by (auto simp: list_all2_conv_all_nth)
  have dr: "dirty_in hi ?t" using dirty_in_cong [OF eq] ds(2) by simp
  from f [OF rp dr, of acc] obtain sp' h1 L d where w: "f hi ?sp acc = Inr (sp', h1, acc @ L)" "shape hi h1"
    "\<forall>a. a \<notin> set (addrs ?t) \<longrightarrow> mem h1 a = mem hi a" "same_sptr ?sp sp'" "detach sp' = Inr d" "lptr (acc @ L) r k d ?t"
    unfolding written_def by blast
  have p1: "mem h1 p = Some ndi" using w(3) pt n(1) by simp
  let ?nd = "ndi\<lparr>subtrees := (subtrees ndi)[i := sp']\<rparr>"
  have "same_sptr (subtrees ndi ! j) ((subtrees ndi)[i := sp'] ! j)" if "j < length (subtrees ndi)" for j
    using w(4) that by (cases "j = i") simp_all
  then have sn: "same_node ndi ?nd" by (simp add: same_node_def list_all2_conv_all_nth)
  have "child_step f p (hi, acc) i = Inr (put_node h1 p ?nd, acc @ L)" using n(1) w(1) p1 by (simp add: child_step_def)
  moreover have "children_done h p nd k r ts (Suc i) (put_node h1 p ?nd) (acc @ L)"
    unfolding children_done_def
  proof (intro conjI exI [of _ ?nd])
    show "shape h (put_node h1 p ?nd)" using sh w(2) shape_put [OF p1 sn] shape_trans by blast
    show "\<forall>a. a \<noteq> p \<longrightarrow> a \<notin> set (concat (map addrs (take (Suc i) ts))) \<longrightarrow> mem (put_node h1 p ?nd) a = mem h a"
      using fr w(3) i by (simp add: take_Suc_conv_app_nth)
    show "same_node nd ?nd" using n(2) sn same_node_trans by blast
    show "\<forall>j < Suc i. \<exists>d. detach (subtrees ?nd ! j) = Inr d \<and> lptr (acc @ L) r k d (ts ! j)"
      using n(4) w(5,6) len(2) i lptr_append by (auto simp: less_Suc_eq)
  qed (use n in auto)
  ultimately show ?thesis by blast
qed

lemma children_rounds:
  assumes D: "children_done h p nd k r ts i hi acc" and i: "i \<le> length ts"
    and nd: "reps h k (subtrees nd) ts" "mem h p = Some nd"
    and ds: "distinct (p # concat (map addrs ts))" "\<forall>t \<in> set ts. dirty_in h t"
    and f: "\<And>h sp acc t. t \<in> set ts \<Longrightarrow> rep h k (st sp) t \<Longrightarrow> inmemory sp \<Longrightarrow> dirty_in h t \<Longrightarrow> written h k sp r acc t (f h sp acc)"
  shows "\<exists>h' L. foldR (child_step f p) [i..<length ts] (hi, acc) = Inr (h', acc @ L) \<and>
    children_done h p nd k r ts (length ts) h' (acc @ L)"
  using D i
proof (induction "length ts - i" arbitrary: i hi acc)
  case 0
  then show ?case by (intro exI [of _ hi] exI [of _ "[]"]) simp
next
  case (Suc m)
  then have lt: "i < length ts" by simp
  obtain h1 L1 where s: "child_step f p (hi, acc) i = Inr (h1, acc @ L1)" "children_done h p nd k r ts (Suc i) h1 (acc @ L1)"
    using child_round [OF Suc.prems(1) lt nd ds(1)] ds(2) f lt by (meson nth_mem)
  have "m = length ts - Suc i" "Suc i \<le> length ts" using Suc lt by simp_all
  from Suc.hyps(1) [OF this(1) s(2) this(2)] obtain h' L where
    "foldR (child_step f p) [Suc i..<length ts] (h1, acc @ L1) = Inr (h', (acc @ L1) @ L)"
    "children_done h p nd k r ts (length ts) h' ((acc @ L1) @ L)" by blast
  then show ?case using s(1) lt by (intro exI [of _ h'] exI [of _ "L1 @ L"]) (simp add: upt_conv_Cons)
qed

lemma detach_lptr:
  assumes "list_all2 (\<lambda>x y. detach x = Inr y) sps ds"
  shows "mapR detach sps = Inr ds"
  using assms by (rule mapR_all2)

lemma get_dirty_helper_spec:
  "rep h k (st sp) t \<Longrightarrow> inmemory sp \<Longrightarrow> distinct (addrs t) \<Longrightarrow> dirty_in h t \<Longrightarrow> k < n \<Longrightarrow>
   written h k sp r acc t (get_dirty_helper n h sp r acc)"
proof (induction n arbitrary: h k sp t acc)
  case (Suc n)
  show ?case
  proof (cases t)
    case Lf
    then show ?thesis using Suc.prems by (auto simp: written_def detach_def same_sptr_def intro!: exI [of _ "[]"])
  next
    case (Nd p es ts)
    have stp: "st sp = Some p" using rep_tptr [OF Suc.prems(1)] Nd by simp
    obtain nd where nd: "mem h p = Some nd" "entries nd = es" "HEIGHT nd = int k - 1" "reps h (k - 1) (subtrees nd) ts" and k: "0 < k"
      using Suc.prems(1) Nd by auto
    have dp: "dirty nd" "\<forall>t \<in> set ts. dirty_in h t" using Suc.prems(4) Nd nd(1) by (auto simp: dirty_in_def)
    have ds: "distinct (p # concat (map addrs ts))" using Suc.prems(3) Nd by simp
    have len: "length (subtrees nd) = length ts" using nd(4) by (rule list_all2_lengthD)
    have D0: "children_done h p nd (k - 1) r ts 0 h acc" using nd(1) dp(1) by (auto simp: children_done_def)
    have IH: "written h' (k - 1) sp r acc t (get_dirty_helper n h' sp r acc)"
      if "t \<in> set ts" "rep h' (k - 1) (st sp) t" "inmemory sp" "dirty_in h' t" for h' sp acc t
    proof -
      have "distinct (addrs t)" using ds that(1) distinct_concat_mem [of "map addrs ts" "addrs t"] by simp
      then show ?thesis using Suc.IH that Suc.prems(5) k by simp
    qed
    let ?f = "\<lambda>h sp dirtys. get_dirty_helper n h sp r dirtys"
    obtain h1 L where F: "foldR (child_step ?f p) [0..<length ts] (h, acc) = Inr (h1, acc @ L)"
      "children_done h p nd (k - 1) r ts (length ts) h1 (acc @ L)"
      using children_rounds [OF D0 _ nd(4,1) ds dp(2), of ?f] IH by blast
    obtain nd1 where n1: "mem h1 p = Some nd1" "same_node nd nd1" "shape h h1"
      "\<forall>j < length ts. \<exists>d. detach (subtrees nd1 ! j) = Inr d \<and> lptr (acc @ L) r (k - 1) d (ts ! j)"
      "\<forall>a. a \<noteq> p \<longrightarrow> a \<notin> set (concat (map addrs ts)) \<longrightarrow> mem h1 a = mem h a"
      using F(2) by (auto simp: children_done_def)
    have len1: "length (subtrees nd1) = length ts" using n1(2) len by (auto simp: same_node_def dest!: list_all2_lengthD)
    obtain dv where dv: "\<forall>j < length ts. detach (subtrees nd1 ! j) = Inr (dv j) \<and> lptr (acc @ L) r (k - 1) (dv j) (ts ! j)"
      using n1(4) by metis
    define sps where "sps = map dv [0..<length ts]"
    have sps: "mapR detach (subtrees nd1) = Inr sps" "list_all2 (\<lambda>sp t. lptr (acc @ L) r (k - 1) sp t) sps ts"
      using dv len1 by (auto simp: sps_def list_all2_conv_all_nth intro!: mapR_all2)
    let ?nd = "nd1\<lparr>dirty := False\<rparr>" and ?W = "nd1\<lparr>dirty := False, subtrees := sps\<rparr>"
    let ?off = "int (length (acc @ L) * sizeof_ft_node)"
    let ?sp = "sp\<lparr>recno := r, offset := ?off\<rparr>" and ?M = "acc @ L @ [nd1\<lparr>subtrees := sps, dirty := False\<rparr>]"
    have run: "get_dirty_helper (Suc n) h sp r acc = Inr (?sp, put_node h1 p ?nd, ?M)"
      using stp Suc.prems(2) nd(1) dp(1) F(1) n1(1) sps(1) len unfolding child_step_def by (simp add: Let_def)
    have W: "entries nd1 = es" "HEIGHT nd1 = int k - 1" using n1(2) nd(2,3) by (auto simp: same_node_def)
    have subs: "list_all2 (\<lambda>sp t. lptr ?M r (k - 1) sp t) sps ts" using lptr_children_append [OF sps(2)] by simp
    have ln: "lnode ?M r k (nd1\<lparr>subtrees := sps, dirty := False\<rparr>) t" using Nd k W subs by (simp add: lnode_def)
    have nth: "?M ! length (acc @ L) = nd1\<lparr>subtrees := sps, dirty := False\<rparr>" by (simp add: nth_append)
    have "lptr ?M r k (?sp\<lparr>inmemory := False, st := None\<rparr>) t"
      using Nd k W subs nth by (auto intro!: exI [of _ "length (acc @ L)"])
    moreover have "detach ?sp = Inr (?sp\<lparr>inmemory := False, st := None\<rparr>)" using stp by (simp add: detach_def)
    moreover have "shape h (put_node h1 p ?nd)"
      using n1(3) shape_put [OF n1(1), of ?nd] shape_trans by (simp add: same_node_def list_all2_refl)
    moreover have "\<forall>a. a \<notin> set (addrs t) \<longrightarrow> mem (put_node h1 p ?nd) a = mem h a" using n1(5) Nd by auto
    ultimately show ?thesis using run ln unfolding written_def
      by (intro exI [of _ ?sp] exI [of _ "put_node h1 p ?nd"] exI [of _ "L @ [nd1\<lparr>subtrees := sps, dirty := False\<rparr>]"]
          exI [of _ "?sp\<lparr>inmemory := False, st := None\<rparr>"]) (auto simp: same_sptr_def)
  qed
qed simp

lemma get_dirty_spec:
  assumes ok: "fig_ok h tr t" and d: "dirty_in h t"
  shows "\<exists>L h' k. get_dirty h tr r = Inr (L, h') \<and> fig_ok h' tr t \<and> L \<noteq> [] \<and> lnode L r (Suc k) (last L) t"
proof -
  obtain K where own: "owns h (Suc K) t" and wf: "twf t" and root: "root tr = tptr t" using ok by (auto simp: fig_ok_def)
  then obtain a es ts where t: "t = Nd a es ts" by (cases t) (auto simp: owns_def)
  obtain nd where nd: "mem h a = Some nd" "HEIGHT nd = int K" using own t by (auto elim: owns_node)
  let ?sp = "zero_sptr\<lparr>st := Some a, inmemory := True\<rparr>"
  have "rep h (Suc K) (st ?sp) t" "distinct (addrs t)" using own t by (auto simp: owns_def)
  then have "written h (Suc K) ?sp r [] t (get_dirty_helper (Suc (Suc K)) h ?sp r [])"
    using d by (intro get_dirty_helper_spec) auto
  then obtain sp' h' L where w: "get_dirty_helper (Suc (Suc K)) h ?sp r [] = Inr (sp', h', L)" "shape h h'" "L \<noteq> []"
    "lnode L r (Suc K) (last L) t" using t by (auto simp: written_def)
  have "nat (HEIGHT nd + 2) = Suc (Suc K)" using nd(2) by simp
  then have "get_dirty h tr r = Inr (L, h')" using root t nd(1) w(1) by (simp add: get_dirty_def del: get_dirty_helper.simps)
  moreover have "owns h' (Suc K) t" using own rep_shape [OF w(2)] shape_heap_ok [OF w(2)] by (simp add: owns_def)
  ultimately show ?thesis using w wf root by (auto simp: fig_ok_def)
qed

section \<open>Reading a checkpoint back\<close>

text \<open>The record of a checkpoint as \<open>_file_chkpt\<close> writes it.\<close>

definition chkpt_in :: "gdp_log \<Rightarrow> int \<Rightarrow> ft_node list \<Rightarrow> bool" where
  "chkpt_in log r L \<longleftrightarrow> (\<exists>rec. log r = Some rec \<and> rbody rec = Chkpt_Body L \<and>
     ent_size (rmeta rec) = of_nat (sizeof_ft_node * length L) \<and> logent_type (rmeta rec) = GDPFS_LOGENT_TYPE_CHKPT)"

lemma body_node_at_nth:
  "j < length L \<Longrightarrow> body_node_at (Chkpt_Body L) (int (j * sizeof_ft_node)) = Inr (L ! j)"
  by (simp add: sizeof_ft_node_def)

lemma subtree_get_loaded:
  assumes log: "chkpt_in log r L" and h: "heap_ok h" "mem h p = Some nd" and nd: "lnode L r (Suc k) nd (Nd a es ts)"
    and i: "i < length ts"
  shows "\<exists>q h'. subtree_get log h p i = Inr (q, h') \<and> heap_ok h' \<and>
    (case q of None \<Rightarrow> ts ! i = Lf | Some c \<Rightarrow> \<exists>cd. mem h' c = Some cd \<and> lnode L r k cd (ts ! i))"
proof -
  let ?sp = "subtrees nd ! i"
  have subs: "list_all2 (\<lambda>sp t. lptr L r k sp t) (subtrees nd) ts" using nd by (simp add: lnode_def)
  then have len: "length (subtrees nd) = length ts" and sp: "lptr L r k ?sp (ts ! i)"
    using i by (auto simp: list_all2_conv_all_nth)
  show ?thesis
  proof (cases "ts ! i")
    case Lf
    then have "subtree_get log h p i = Inr (None, h)" using sp h(2) i len by (simp add: subtree_get_def)
    then show ?thesis using h(1) Lf by auto
  next
    case (Nd b fs us)
    then obtain j where j: "j < length L" "offset ?sp = int (j * sizeof_ft_node)" "lnode L r k (L ! j) (ts ! i)"
      and sp': "\<not> inmemory ?sp" "recno ?sp = r" using sp by (auto simp: lnode_def)
    obtain rec where rec: "log r = Some rec" "rbody rec = Chkpt_Body L"
      "ent_size (rmeta rec) = of_nat (sizeof_ft_node * length L)" "logent_type (rmeta rec) = GDPFS_LOGENT_TYPE_CHKPT"
      using log by (auto simp: chkpt_in_def)
    obtain c h1 where al: "mem_alloc h (L ! j) = (c, h1)" by fastforce
    then have c: "c = next_ptr h" "mem h1 = (mem h)(c \<mapsto> L ! j)" "next_ptr h1 = Suc (next_ptr h)" by (auto simp: mem_alloc_def)
    have pc: "p \<noteq> c" using h c(1) by (auto simp: heap_ok_def)
    have sg: "subtree_get log h p i = Inr (Some c, put_node h1 p (nd\<lparr>subtrees := (subtrees nd)[i := ?sp\<lparr>st := Some c\<rparr>]\<rparr>))"
      unfolding subtree_get_def using h(2) i len sp' rec al j(2) body_node_at_nth [OF j(1)]
      by (simp add: Let_def del: body_node_at.simps)
    have "heap_ok (put_node h1 p (nd\<lparr>subtrees := (subtrees nd)[i := ?sp\<lparr>st := Some c\<rparr>]\<rparr>))"
      using h c by (auto simp: heap_ok_def put_node_def less_Suc_eq)
    then show ?thesis using sg j(3) pc c(2) by (auto simp: put_node_def)
  qed
qed

lemma lookup_loaded:
  "chkpt_in log r L \<Longrightarrow> heap_ok h \<Longrightarrow> mem h p = Some nd \<Longrightarrow> lnode L r k nd t \<Longrightarrow> twf t \<Longrightarrow> k < n \<Longrightarrow>
   \<exists>h'. ft_lookup_from n log h (Some p) x = Inr (tlook t x, h')"
proof (induction n arbitrary: h p nd k t)
  case (Suc n)
  obtain a es ts where t: "t = Nd a es ts" using Suc.prems(4) by (cases t) (auto simp: lnode_def)
  obtain k' where k: "k = Suc k'" using Suc.prems(4) t by (cases k) (auto simp: lnode_def)
  have es: "entries nd = es" using Suc.prems(4) t by (simp add: lnode_def)
  have s: "sorted_ents es" "length ts = length es + 1" using Suc.prems(5) t by auto
  note scan = lookup_scan_spec [OF s(1), where i = 0 and x = x, simplified]
  show ?case
  proof (cases "ft_lookup_scan es x 0")
    case (Inl v)
    with scan obtain j where "j < length es" "x \<in> iv_set (irange (es ! j))" "v = fvalue (es ! j)" by auto
    then have "tlook t x = Some v" using nlook_entry [OF s(1)] t by simp
    with Inl es Suc.prems(3) show ?thesis by simp
  next
    case (Inr g)
    with scan have g: "in_gap es g x" by simp
    then have gl: "g < length ts" using s(2) by (simp add: in_gap_def)
    have tl: "tlook t x = tlook (ts ! g) x"
      using nlook_gap [OF s(1) g, of "map tlook ts"] s(2) gl t by simp
    obtain q h' where q: "subtree_get log h p g = Inr (q, h')" "heap_ok h'"
      "case q of None \<Rightarrow> ts ! g = Lf | Some c \<Rightarrow> \<exists>cd. mem h' c = Some cd \<and> lnode L r k' cd (ts ! g)"
      using subtree_get_loaded [OF Suc.prems(1-3) _ gl] Suc.prems(4) t k by blast
    have "\<exists>h''. ft_lookup_from n log h' q x = Inr (tlook (ts ! g) x, h'')"
    proof (cases q)
      case None
      then show ?thesis using q(3) Suc.prems(6) k by (cases n) auto
    next
      case (Some c)
      moreover have "twf (ts ! g)" using Suc.prems(5) t gl by simp
      ultimately show ?thesis using Suc.IH [OF Suc.prems(1) q(2), of c _ k' "ts ! g"] q(3) Suc.prems(6) k by auto
    qed
    then show ?thesis using Inr es Suc.prems(3) q(1) tl by simp
  qed
qed simp

text \<open>Opening a file whose last record is the checkpoint puts its last node at the root.\<close>

lemma lookup_reloaded:
  assumes "chkpt_in log r L" "heap_ok h" "mem h p = Some (last L)" "lnode L r (Suc k) (last L) t" "twf t"
  shows "\<exists>h'. ft_lookup log h (ft_init_with_root (Some p)) x = Inr (tlook t x, h')"
proof -
  have "nat (HEIGHT (last L) + 2) = Suc (Suc k)" using assms(4) by (cases t) (auto simp: lnode_def)
  then show ?thesis using lookup_loaded [OF assms, of "Suc (Suc k)" x] assms(3)
    by (simp add: ft_lookup_def ft_init_with_root_def)
qed

section \<open>Properties\<close>

lemma unsaved_dirty_in: "fig_ok h tr t \<Longrightarrow> unsaved h \<Longrightarrow> dirty_in h t"
  unfolding dirty_in_def fig_ok_def owns_def unsaved_def unsaved_node_def using rep_addrs_mem by blast

lemma chkpt_reload:
  assumes "fig_ok h tr t" "unsaved h"
  shows "\<exists>L h'. get_dirty h tr r = Inr (L, h') \<and> fig_ok h' tr t \<and>
    (\<forall>log g p x. chkpt_in log r L \<longrightarrow> heap_ok g \<longrightarrow> mem g p = Some (last L) \<longrightarrow>
       (\<exists>g'. ft_lookup log g (ft_init_with_root (Some p)) x = Inr (tlook t x, g')))"
proof -
  obtain L h' k where g: "get_dirty h tr r = Inr (L, h')" "fig_ok h' tr t" "lnode L r (Suc k) (last L) t"
    using get_dirty_spec [OF assms(1) unsaved_dirty_in [OF assms]] by blast
  have "twf t" using assms(1) by (auto simp: fig_ok_def)
  then show ?thesis using g lookup_reloaded by blast
qed

text \<open>
  C4: the index survives a checkpoint. From an empty index, after any sequence of writes,
  \<open>get_dirty\<close> succeeds and leaves the index in memory as it was, and when the nodes it returns are
  the body of log record \<open>r\<close>, an index opened on the last of them answers every lookup, loading its
  nodes from the log, with the value of the last write that covers the byte.
\<close>

theorem chkpt_round_trip:
  assumes "heap_ok h" "unsaved h" "\<forall>w \<in> set ws. extent_ok w"
  shows "\<exists>tr h1 L h2. bindR (ft_init h) (foldR (\<lambda>(tr, h) (a, b, v). ft_write log h tr a b v) ws) = Inr (tr, h1) \<and>
    get_dirty h1 tr r = Inr (L, h2) \<and> (\<forall>x. ft_lookup log h2 tr x = Inr (last_write ws x None, h2)) \<and>
    (\<forall>log' g p x. chkpt_in log' r L \<longrightarrow> heap_ok g \<longrightarrow> mem g p = Some (last L) \<longrightarrow>
       (\<exists>g'. ft_lookup log' g (ft_init_with_root (Some p)) x = Inr (last_write ws x None, g')))"
proof -
  let ?ws = "foldR (\<lambda>(tr, h) (a, b, v). ft_write log h tr a b v) ws"
  obtain tr0 h0 where i: "ft_init h = Inr (tr0, h0)" "fig_inv (tr0, h0)" "\<And>x. fig_look log (tr0, h0) x = None"
    using fig_init [OF assms(1), of log] by blast
  have step: "(\<lambda>s (a, b, v). fig_wr log s a b v) = (\<lambda>(tr, h) (a, b, v). ft_write log h tr a b v)"
    by (auto simp: fun_eq_iff fig_wr_def)
  obtain tr h1 where w: "?ws (tr0, h0) = Inr (tr, h1)" "fig_inv (tr, h1)" "\<forall>x. fig_look log (tr, h1) x = last_write ws x None"
    using fig.wrs_ok [OF i(2) assms(3), of log] i(3) unfolding step by (metis surj_pair)
  have "unsaved h0" using unsaved_init [OF assms(2)] i(1) by (simp add: okR_def)
  then have u: "unsaved h1" using unsaved_writes w(1) by (fastforce simp: okR_def)
  obtain t where t: "fig_ok h1 tr t" using w(2) by (auto simp: fig_inv_def)
  have look: "tlook t x = last_write ws x None" for x
    using ft_lookup_spec [OF t, of log x] w(3) [rule_format, of x] by (simp add: fig_look_def)
  obtain L h2 where "get_dirty h1 tr r = Inr (L, h2)" "fig_ok h2 tr t"
    "\<forall>log g p x. chkpt_in log r L \<longrightarrow> heap_ok g \<longrightarrow> mem g p = Some (last L) \<longrightarrow>
       (\<exists>g'. ft_lookup log g (ft_init_with_root (Some p)) x = Inr (tlook t x, g'))"
    using chkpt_reload [OF t u] by blast
  then show ?thesis using i(1) w(1) ft_lookup_spec [of h2 tr t] look by (intro exI [of _ tr] exI [of _ h1] exI [of _ L] exI [of _ h2]) simp
qed

definition chkpt_rec :: "ft_node list \<Rightarrow> log_rec" where
  "chkpt_rec L = \<lparr>rmeta = \<lparr>file_size = 0, file_type = GDPFS_FILE_TYPE_REGULAR, file_perm = 0, logent_type = GDPFS_LOGENT_TYPE_CHKPT,
     ent_offset = -1, ent_size = of_nat (sizeof_ft_node * length L), magic = 0\<rparr>, rbody = Chkpt_Body L\<rparr>"

definition reload_heap :: "ft_node list \<Rightarrow> heap" where
  "reload_heap L = \<lparr>mem = [0 \<mapsto> last L], next_ptr = 1\<rparr>"

theorem chkpt_round_trip_witness:
  "\<exists>tr h1 L h2 g'. bindR (ft_init empty_heap) (foldR (\<lambda>(tr, h) (a, b, v). ft_write (\<lambda>_. None) h tr a b v)
       [(0, 99, 1), (40, 59, 2)]) = Inr (tr, h1) \<and> get_dirty h1 tr 3 = Inr (L, h2) \<and>
     ft_lookup [3 \<mapsto> chkpt_rec L] (reload_heap L) (ft_init_with_root (Some 0)) 50 = Inr (Some 2, g')"
proof -
  have u: "unsaved empty_heap" by (simp add: unsaved_def empty_heap_def)
  have e: "\<forall>w \<in> set [(0, 99, 1), (40, 59, 2)]. extent_ok w" by (simp add: extent_ok_def BYTE_INDEX_MAX_def)
  obtain tr h1 L h2 where r: "bindR (ft_init empty_heap) (foldR (\<lambda>(tr, h) (a, b, v). ft_write (\<lambda>_. None) h tr a b v)
       [(0, 99, 1), (40, 59, 2)]) = Inr (tr, h1)" "get_dirty h1 tr 3 = Inr (L, h2)"
    "\<forall>log' g p x. chkpt_in log' 3 L \<longrightarrow> heap_ok g \<longrightarrow> mem g p = Some (last L) \<longrightarrow>
       (\<exists>g'. ft_lookup log' g (ft_init_with_root (Some p)) x = Inr (last_write [(0, 99, 1), (40, 59, 2)] x None, g'))"
    using chkpt_round_trip [OF empty_heap_ok u e, of "\<lambda>_. None" 3] by blast
  moreover have "chkpt_in [3 \<mapsto> chkpt_rec L] 3 L" "heap_ok (reload_heap L)" "mem (reload_heap L) 0 = Some (last L)"
    by (simp_all add: chkpt_in_def chkpt_rec_def heap_ok_def reload_heap_def)
  moreover have "last_write [(0, 99, 1), (40, 59, 2)] 50 None = Some 2" by simp
  ultimately show ?thesis by metis
qed

text \<open>
  C29: \<open>ft_dealloc\<close> frees every node of the tree, and nothing else.
\<close>

theorem ft_dealloc_exact:
  assumes "fig_ok h tr t"
  shows "\<exists>h'. ft_dealloc h tr = Inr (\<lparr>root = None\<rparr>, h') \<and> (\<forall>a. mem h' a = (if a \<in> set (addrs t) then None else mem h a))"
  using ft_dealloc_spec [OF assms] by (simp add: freed_def)

theorem ft_dealloc_exact_witness:
  "\<exists>tr h h'. ft_init empty_heap = Inr (tr, h) \<and> ft_dealloc h tr = Inr (\<lparr>root = None\<rparr>, h') \<and> mem h' 0 = None"
proof -
  obtain tr h where i: "ft_init empty_heap = Inr (tr, h)" "fig_inv (tr, h)"
    using fig_init [OF empty_heap_ok, of "\<lambda>_. None"] by blast
  then obtain t where "fig_ok h tr t" by (auto simp: fig_inv_def)
  from ft_dealloc_exact [OF this] obtain h' where d: "ft_dealloc h tr = Inr (\<lparr>root = None\<rparr>, h')" by blast
  moreover have "map_sum (\<lambda>_. ()) (\<lambda>(_, h'). mem h' 0 = None) (bindR (ft_init empty_heap) (\<lambda>(tr, h). ft_dealloc h tr)) = Inr True"
    by code_simp
  then have "mem h' 0 = None" using i(1) d by simp
  ultimately show ?thesis using i(1) by blast
qed


text \<open>
  A reloaded index that is changed at its root cannot be checkpointed again while one of its subtrees
  has not been loaded: the pointer to that subtree is null and not in memory, which \<open>get_dirty_helper\<close>
  asserts not to happen.
\<close>

theorem rechkpt_assertion_fails:
  "fault_of (bindR (ft_init empty_heap) (\<lambda>s.
     bindR (foldR (\<lambda>(tr, h) (a, b, v). ft_write (\<lambda>_. None) h tr a b v)
       [(0, 0, 1), (10, 10, 2), (20, 20, 3), (30, 30, 4), (40, 40, 5)] s) (\<lambda>(tr, h).
     bindR (get_dirty h tr 3) (\<lambda>(L, h).
     bindR (ft_write [3 \<mapsto> chkpt_rec L] (reload_heap L) (ft_init_with_root (Some 0)) 20 20 9) (\<lambda>(tr, h).
     get_dirty h tr 5))))) = Some Assert_Fail"
  by code_simp

end
