(* ===== verification/DList.thy ===== *)
theory DList
  imports Gdpfs_Prelude
begin

text \<open>
  The intrusive doubly linked list of \<^verbatim>\<open>src/list.c\<close>, on a store of \<open>struct list_elem\<close>. A list
  structure holds its head and its tail element next to each other, so a pointer \<open>l\<close> to a list has
  its head at \<open>l\<close> and its tail at \<open>l + 1\<close>. Loops over a list take a bound on their iterations;
  the number of elements plus one is always enough.
\<close>

section \<open>Elements and links\<close>

record list_elem =
  lprev :: "nat option"
  lnext :: "nat option"

type_synonym links = "nat \<Rightarrow> list_elem option"

definition get_elem :: "links \<Rightarrow> nat \<Rightarrow> list_elem res" where
  "get_elem st p = (case st p of None \<Rightarrow> Inl Bad_Pointer | Some e \<Rightarrow> Inr e)"

definition deref :: "nat option \<Rightarrow> nat res" where
  "deref q = (case q of None \<Rightarrow> Inl Bad_Pointer | Some p \<Rightarrow> Inr p)"

definition set_prev :: "links \<Rightarrow> nat \<Rightarrow> nat option \<Rightarrow> links res" where
  "set_prev st p v = bindR (get_elem st p) (\<lambda>e. Inr (st(p \<mapsto> e\<lparr>lprev := v\<rparr>)))"

definition set_next :: "links \<Rightarrow> nat \<Rightarrow> nat option \<Rightarrow> links res" where
  "set_next st p v = bindR (get_elem st p) (\<lambda>e. Inr (st(p \<mapsto> e\<lparr>lnext := v\<rparr>)))"

definition list_head :: "nat \<Rightarrow> nat" where
  "list_head l = l"

definition list_tail :: "nat \<Rightarrow> nat" where
  "list_tail l = Suc l"

definition is_head :: "links \<Rightarrow> nat option \<Rightarrow> bool res" where
  "is_head st elem = (case elem of None \<Rightarrow> Inr False
     | Some p \<Rightarrow> bindR (get_elem st p) (\<lambda>e. Inr (lprev e = None \<and> lnext e \<noteq> None)))"

definition is_interior :: "links \<Rightarrow> nat option \<Rightarrow> bool res" where
  "is_interior st elem = (case elem of None \<Rightarrow> Inr False
     | Some p \<Rightarrow> bindR (get_elem st p) (\<lambda>e. Inr (lprev e \<noteq> None \<and> lnext e \<noteq> None)))"

definition is_tail :: "links \<Rightarrow> nat option \<Rightarrow> bool res" where
  "is_tail st elem = (case elem of None \<Rightarrow> Inr False
     | Some p \<Rightarrow> bindR (get_elem st p) (\<lambda>e. Inr (lprev e \<noteq> None \<and> lnext e = None)))"

definition orR :: "bool res \<Rightarrow> bool res \<Rightarrow> bool res" where
  "orR a b = bindR a (\<lambda>x. if x then Inr True else b)"

section \<open>Operations\<close>

definition list_init :: "links \<Rightarrow> nat \<Rightarrow> links" where
  "list_init st l = st(list_head l \<mapsto> \<lparr>lprev = None, lnext = Some (list_tail l)\<rparr>,
                       list_tail l \<mapsto> \<lparr>lprev = Some (list_head l), lnext = None\<rparr>)"

definition list_begin :: "links \<Rightarrow> nat \<Rightarrow> nat option res" where
  "list_begin st l = bindR (get_elem st (list_head l)) (\<lambda>e. Inr (lnext e))"

definition list_next :: "links \<Rightarrow> nat option \<Rightarrow> nat option res" where
  "list_next st elem =
     bindR (orR (is_head st elem) (is_interior st elem)) (\<lambda>ok.
     bindR (assertR ok ()) (\<lambda>_.
     bindR (deref elem) (\<lambda>p. bindR (get_elem st p) (\<lambda>e. Inr (lnext e)))))"

definition list_end :: "nat \<Rightarrow> nat option" where
  "list_end l = Some (list_tail l)"

definition list_rbegin :: "links \<Rightarrow> nat \<Rightarrow> nat option res" where
  "list_rbegin st l = bindR (get_elem st (list_tail l)) (\<lambda>e. Inr (lprev e))"

definition list_prev :: "links \<Rightarrow> nat option \<Rightarrow> nat option res" where
  "list_prev st elem =
     bindR (orR (is_interior st elem) (is_tail st elem)) (\<lambda>ok.
     bindR (assertR ok ()) (\<lambda>_.
     bindR (deref elem) (\<lambda>p. bindR (get_elem st p) (\<lambda>e. Inr (lprev e)))))"

definition list_rend :: "nat \<Rightarrow> nat option" where
  "list_rend l = Some (list_head l)"

definition list_insert :: "links \<Rightarrow> nat option \<Rightarrow> nat option \<Rightarrow> links res" where
  "list_insert st before elem =
     bindR (orR (is_interior st before) (is_tail st before)) (\<lambda>ok.
     bindR (assertR ok ()) (\<lambda>_.
     bindR (assertR (elem \<noteq> None) ()) (\<lambda>_.
     bindR (deref before) (\<lambda>b.
     bindR (deref elem) (\<lambda>e.
     bindR (bindR (get_elem st b) (\<lambda>be. set_prev st e (lprev be))) (\<lambda>st.
     bindR (set_next st e before) (\<lambda>st.
     bindR (bindR (get_elem st b) (\<lambda>be. bindR (deref (lprev be)) (\<lambda>p. set_next st p elem))) (\<lambda>st.
     set_prev st b elem))))))))"

definition list_splice :: "links \<Rightarrow> nat option \<Rightarrow> nat option \<Rightarrow> nat option \<Rightarrow> links res" where
  "list_splice st before first lst =
     bindR (orR (is_interior st before) (is_tail st before)) (\<lambda>ok.
     bindR (assertR ok ()) (\<lambda>_.
     if first = lst then Inr st
     else
       bindR (list_prev st lst) (\<lambda>lst.
       bindR (bindR (is_interior st first) (\<lambda>ok. assertR ok ())) (\<lambda>_.
       bindR (bindR (is_interior st lst) (\<lambda>ok. assertR ok ())) (\<lambda>_.
       bindR (deref before) (\<lambda>b. bindR (deref first) (\<lambda>f. bindR (deref lst) (\<lambda>z.
       bindR (bindR (get_elem st f) (\<lambda>fe. bindR (get_elem st z) (\<lambda>ze.
                bindR (deref (lprev fe)) (\<lambda>p. set_next st p (lnext ze))))) (\<lambda>st.
       bindR (bindR (get_elem st z) (\<lambda>ze. bindR (get_elem st f) (\<lambda>fe.
                bindR (deref (lnext ze)) (\<lambda>n. set_prev st n (lprev fe))))) (\<lambda>st.
       bindR (bindR (get_elem st b) (\<lambda>be. set_prev st f (lprev be))) (\<lambda>st.
       bindR (set_next st z before) (\<lambda>st.
       bindR (bindR (get_elem st b) (\<lambda>be. bindR (deref (lprev be)) (\<lambda>p. set_next st p first))) (\<lambda>st.
       set_prev st b lst)))))))))))))"

definition list_push_front :: "links \<Rightarrow> nat \<Rightarrow> nat option \<Rightarrow> links res" where
  "list_push_front st l elem = bindR (list_begin st l) (\<lambda>b. list_insert st b elem)"

definition list_push_back :: "links \<Rightarrow> nat \<Rightarrow> nat option \<Rightarrow> links res" where
  "list_push_back st l elem = list_insert st (list_end l) elem"

definition list_remove :: "links \<Rightarrow> nat option \<Rightarrow> (nat option \<times> links) res" where
  "list_remove st elem =
     bindR (bindR (is_interior st elem) (\<lambda>ok. assertR ok ())) (\<lambda>_.
     bindR (deref elem) (\<lambda>e.
     bindR (bindR (get_elem st e) (\<lambda>ee. bindR (deref (lprev ee)) (\<lambda>p. set_next st p (lnext ee)))) (\<lambda>st.
     bindR (bindR (get_elem st e) (\<lambda>ee. bindR (deref (lnext ee)) (\<lambda>n. set_prev st n (lprev ee)))) (\<lambda>st.
     bindR (get_elem st e) (\<lambda>ee. Inr (lnext ee, st))))))"

definition list_empty :: "links \<Rightarrow> nat \<Rightarrow> bool res" where
  "list_empty st l = bindR (list_begin st l) (\<lambda>b. Inr (b = list_end l))"

definition list_front :: "links \<Rightarrow> nat \<Rightarrow> nat option res" where
  "list_front st l =
     bindR (bindR (list_empty st l) (\<lambda>b. assertR (\<not> b) ())) (\<lambda>_.
     bindR (get_elem st (list_head l)) (\<lambda>e. Inr (lnext e)))"

definition list_back :: "links \<Rightarrow> nat \<Rightarrow> nat option res" where
  "list_back st l =
     bindR (bindR (list_empty st l) (\<lambda>b. assertR (\<not> b) ())) (\<lambda>_.
     bindR (get_elem st (list_tail l)) (\<lambda>e. Inr (lprev e)))"

definition list_pop_front :: "links \<Rightarrow> nat \<Rightarrow> (nat option \<times> links) res" where
  "list_pop_front st l =
     bindR (list_front st l) (\<lambda>front. bindR (list_remove st front) (\<lambda>(_, st). Inr (front, st)))"

definition list_pop_back :: "links \<Rightarrow> nat \<Rightarrow> (nat option \<times> links) res" where
  "list_pop_back st l =
     bindR (list_back st l) (\<lambda>back. bindR (list_remove st back) (\<lambda>(_, st). Inr (back, st)))"

primrec list_size_from :: "nat \<Rightarrow> links \<Rightarrow> nat \<Rightarrow> nat option \<Rightarrow> nat \<Rightarrow> nat res" where
  "list_size_from 0 st l e cnt = Inl Out_Of_Fuel"
| "list_size_from (Suc n) st l e cnt =
     (if e = list_end l then Inr cnt
      else bindR (list_next st e) (\<lambda>e. list_size_from n st l e (cnt + 1)))"

definition list_size :: "nat \<Rightarrow> links \<Rightarrow> nat \<Rightarrow> nat res" where
  "list_size n st l = bindR (list_begin st l) (\<lambda>e. list_size_from n st l e 0)"

text \<open>The loop of \<open>list_insert_ordered\<close>: the first element that the new one is less than, or the tail.\<close>

primrec ordered_pos :: "nat \<Rightarrow> links \<Rightarrow> nat \<Rightarrow> (nat \<Rightarrow> nat \<Rightarrow> bool) \<Rightarrow> nat \<Rightarrow> nat option \<Rightarrow> nat option res" where
  "ordered_pos 0 st l lt_fn x e = Inl Out_Of_Fuel"
| "ordered_pos (Suc n) st l lt_fn x e =
     (if e = list_end l then Inr e
      else bindR (deref e) (\<lambda>p.
        if lt_fn x p then Inr e
        else bindR (list_next st e) (\<lambda>e. ordered_pos n st l lt_fn x e)))"

definition list_insert_ordered ::
  "nat \<Rightarrow> links \<Rightarrow> nat \<Rightarrow> nat option \<Rightarrow> (nat \<Rightarrow> nat \<Rightarrow> bool) \<Rightarrow> links res" where
  "list_insert_ordered n st l elem lt_fn =
     bindR (assertR (elem \<noteq> None) ()) (\<lambda>_.
     bindR (deref elem) (\<lambda>x.
     bindR (list_begin st l) (\<lambda>e.
     bindR (ordered_pos n st l lt_fn x e) (\<lambda>e. list_insert st e elem))))"

text \<open>The loops of \<open>list_max\<close> and \<open>list_min\<close>, with the order of the comparison as a parameter.\<close>

primrec best_from :: "nat \<Rightarrow> links \<Rightarrow> nat \<Rightarrow> (nat \<Rightarrow> nat \<Rightarrow> bool) \<Rightarrow> nat \<Rightarrow> nat option \<Rightarrow> nat option res" where
  "best_from 0 st l better b e = Inl Out_Of_Fuel"
| "best_from (Suc n) st l better b e =
     (if e = list_end l then Inr (Some b)
      else bindR (deref e) (\<lambda>p.
        bindR (list_next st e) (\<lambda>e. best_from n st l better (if better p b then p else b) e)))"

definition list_max :: "nat \<Rightarrow> links \<Rightarrow> nat \<Rightarrow> (nat \<Rightarrow> nat \<Rightarrow> bool) \<Rightarrow> nat option res" where
  "list_max n st l lt_fn =
     bindR (list_begin st l) (\<lambda>b.
     if b = list_end l then Inr b
     else bindR (deref b) (\<lambda>p. bindR (list_next st b) (\<lambda>e. best_from n st l (\<lambda>x m. lt_fn m x) p e)))"

definition list_min :: "nat \<Rightarrow> links \<Rightarrow> nat \<Rightarrow> (nat \<Rightarrow> nat \<Rightarrow> bool) \<Rightarrow> nat option res" where
  "list_min n st l lt_fn =
     bindR (list_begin st l) (\<lambda>b.
     if b = list_end l then Inr b
     else bindR (deref b) (\<lambda>p. bindR (list_next st b) (\<lambda>e. best_from n st l (\<lambda>x m. lt_fn x m) p e)))"

text \<open>The loop of \<open>list_reverse\<close> swaps the links of every element.\<close>

primrec reverse_loop :: "nat \<Rightarrow> links \<Rightarrow> nat \<Rightarrow> nat option \<Rightarrow> links res" where
  "reverse_loop 0 st l e = Inl Out_Of_Fuel"
| "reverse_loop (Suc n) st l e =
     (if e = list_end l then Inr st
      else bindR (deref e) (\<lambda>p. bindR (get_elem st p) (\<lambda>ee.
        let st = st(p \<mapsto> \<lparr>lprev = lnext ee, lnext = lprev ee\<rparr>)
        in bindR (get_elem st p) (\<lambda>ee. reverse_loop n st l (lprev ee)))))"

definition list_reverse :: "nat \<Rightarrow> links \<Rightarrow> nat \<Rightarrow> links res" where
  "list_reverse n st l =
     bindR (list_empty st l) (\<lambda>empty.
     if empty then Inr st
     else
       bindR (list_begin st l) (\<lambda>e.
       bindR (reverse_loop n st l e) (\<lambda>st.
       bindR (get_elem st (list_head l)) (\<lambda>h. bindR (get_elem st (list_tail l)) (\<lambda>t.
       bindR (set_next st (list_head l) (lprev t)) (\<lambda>st.
       bindR (set_prev st (list_tail l) (lnext h)) (\<lambda>st.
       bindR (get_elem st (list_head l)) (\<lambda>h. bindR (get_elem st (list_tail l)) (\<lambda>t.
       bindR (deref (lnext h)) (\<lambda>f. bindR (deref (lprev t)) (\<lambda>b.
       bindR (get_elem st f) (\<lambda>fe. bindR (get_elem st b) (\<lambda>be.
       bindR (set_prev st f (lnext be)) (\<lambda>st. set_next st b (lprev fe)))))))))))))))"

section \<open>The list a store holds\<close>

definition hd_or :: "nat option \<Rightarrow> nat list \<Rightarrow> nat option" where
  "hd_or q xs = (case xs of [] \<Rightarrow> q | x # _ \<Rightarrow> Some x)"

definition lst_or :: "nat option \<Rightarrow> nat list \<Rightarrow> nat option" where
  "lst_or p xs = (if xs = [] then p else Some (last xs))"

text \<open>The elements \<open>xs\<close> are linked both ways, with \<open>p\<close> before and \<open>q\<close> after them.\<close>

primrec lchain :: "links \<Rightarrow> nat option \<Rightarrow> nat list \<Rightarrow> nat option \<Rightarrow> bool" where
  "lchain st p [] q \<longleftrightarrow> True"
| "lchain st p (x # xs) q \<longleftrightarrow>
     st x = Some \<lparr>lprev = p, lnext = hd_or q xs\<rparr> \<and> lchain st (Some x) xs q"

definition nodes :: "nat \<Rightarrow> nat list \<Rightarrow> nat list" where
  "nodes l xs = list_head l # xs @ [list_tail l]"

definition dlist :: "links \<Rightarrow> nat \<Rightarrow> nat list \<Rightarrow> bool" where
  "dlist st l xs \<longleftrightarrow> lchain st None (nodes l xs) None \<and> distinct (nodes l xs)"

lemma hd_or_simps [simp]: "hd_or q [] = q" "hd_or q (x # xs) = Some x"
  by (simp_all add: hd_or_def)

lemma hd_or_append [simp]: "hd_or q (xs @ ys) = hd_or (hd_or q ys) xs"
  by (simp add: hd_or_def split: list.split)

lemma lst_or_simps [simp]: "lst_or p [] = p" "lst_or p (xs @ [x]) = Some x" "lst_or p (x # xs) = lst_or (Some x) xs"
  by (simp_all add: lst_or_def)

lemma lst_or_append [simp]: "lst_or p (xs @ ys) = lst_or (lst_or p xs) ys"
  by (simp add: lst_or_def)

lemma lchain_append [simp]:
  "lchain st p (xs @ ys) q \<longleftrightarrow> lchain st p xs (hd_or q ys) \<and> lchain st (lst_or p xs) ys q"
  by (induction xs arbitrary: p) auto

lemma lchain_frame: "\<forall>x \<in> set xs. st' x = st x \<Longrightarrow> lchain st' p xs q = lchain st p xs q"
  by (induction xs arbitrary: p) auto

lemma lchain_upd [simp]: "x \<notin> set xs \<Longrightarrow> lchain (st(x := v)) p xs q = lchain st p xs q"
  by (rule lchain_frame) auto

lemma nodes_set [simp]: "set (nodes l xs) = insert (list_head l) (insert (list_tail l) (set xs))"
  by (auto simp: nodes_def)

lemma head_not_tail [simp]: "list_head l \<noteq> list_tail l" "list_tail l \<noteq> list_head l"
  by (simp_all add: list_head_def list_tail_def)

lemma dlist_def2:
  "dlist st l xs \<longleftrightarrow>
     st (list_head l) = Some \<lparr>lprev = None, lnext = hd_or (Some (list_tail l)) xs\<rparr> \<and>
     lchain st (Some (list_head l)) xs (Some (list_tail l)) \<and>
     st (list_tail l) = Some \<lparr>lprev = lst_or (Some (list_head l)) xs, lnext = None\<rparr> \<and>
     list_head l \<notin> set xs \<and> list_tail l \<notin> set xs \<and> distinct xs"
  by (auto simp: dlist_def nodes_def)

lemma dlist_frame:
  assumes "dlist st l xs" "\<forall>x \<in> set (nodes l xs). st' x = st x"
  shows "dlist st' l xs"
  using assms lchain_frame [of xs st' st] by (auto simp: dlist_def2)

lemma list_init_dlist: "dlist (list_init st l) l []"
  by (auto simp: list_init_def dlist_def2)

lemma list_begin_dlist [simp]: "dlist st l xs \<Longrightarrow> list_begin st l = Inr (hd_or (Some (list_tail l)) xs)"
  by (simp add: list_begin_def get_elem_def dlist_def2)

lemma list_rbegin_dlist [simp]: "dlist st l xs \<Longrightarrow> list_rbegin st l = Inr (lst_or (Some (list_head l)) xs)"
  by (simp add: list_rbegin_def get_elem_def dlist_def2)

lemma list_empty_dlist [simp]: "dlist st l xs \<Longrightarrow> list_empty st l = Inr (xs = [])"
  by (cases xs) (auto simp: list_empty_def list_end_def list_begin_def get_elem_def dlist_def2)

lemma list_front_dlist: "dlist st l (x # xs) \<Longrightarrow> list_front st l = Inr (Some x)"
  by (simp add: list_front_def get_elem_def) (simp add: dlist_def2)

lemma list_front_empty: "dlist st l [] \<Longrightarrow> list_front st l = Inl Assert_Fail"
  by (simp add: list_front_def)

lemma list_back_dlist: "dlist st l (xs @ [x]) \<Longrightarrow> list_back st l = Inr (Some x)"
  by (simp add: list_back_def get_elem_def) (simp add: dlist_def2)

lemma list_back_empty: "dlist st l [] \<Longrightarrow> list_back st l = Inl Assert_Fail"
  by (simp add: list_back_def)

section \<open>Walking along the links\<close>

lemma lchain_at:
  "lchain st p (us @ x # vs) q \<Longrightarrow> st x = Some \<lparr>lprev = lst_or p us, lnext = hd_or q vs\<rparr>"
  by simp

lemma lst_or_neq: "p \<noteq> None \<or> us \<noteq> [] \<Longrightarrow> lst_or p us \<noteq> None"
  by (auto simp: lst_or_def)

lemma hd_or_neq: "q \<noteq> None \<or> us \<noteq> [] \<Longrightarrow> hd_or q us \<noteq> None"
  by (cases us) (simp_all add: hd_or_def)

text \<open>Where an element of the list stands in the store.\<close>

lemma dlist_at:
  assumes "dlist st l (us @ x # vs)"
  shows "st x = Some \<lparr>lprev = lst_or (Some (list_head l)) us, lnext = hd_or (Some (list_tail l)) vs\<rparr>"
  using assms by (auto simp: dlist_def2)

lemma dlist_interior:
  assumes "dlist st l (us @ x # vs)"
  shows "is_interior st (Some x) = Inr True" "is_head st (Some x) = Inr False" "is_tail st (Some x) = Inr False"
  using dlist_at [OF assms] lst_or_neq [of "Some (list_head l)" us] hd_or_neq [of "Some (list_tail l)" vs]
  by (simp_all add: is_interior_def is_head_def is_tail_def get_elem_def)

lemma dlist_tail_kind:
  assumes "dlist st l xs"
  shows "is_tail st (Some (list_tail l)) = Inr True" "is_interior st (Some (list_tail l)) = Inr False"
  using assms lst_or_neq [of "Some (list_head l)" xs]
  by (simp_all add: is_tail_def is_interior_def get_elem_def dlist_def2)

lemma list_next_dlist:
  assumes "dlist st l (us @ x # vs)"
  shows "list_next st (Some x) = Inr (hd_or (Some (list_tail l)) vs)"
  using dlist_interior [OF assms] dlist_at [OF assms]
  by (simp add: list_next_def orR_def deref_def get_elem_def)

lemma list_prev_dlist:
  assumes "dlist st l (us @ x # vs)"
  shows "list_prev st (Some x) = Inr (lst_or (Some (list_head l)) us)"
  using dlist_interior [OF assms] dlist_at [OF assms]
  by (simp add: list_prev_def orR_def deref_def get_elem_def)

section \<open>Insertion and removal\<close>

text \<open>
  Both are stated for the whole path of nodes of a list: insertion links a node in front of any node
  but the head, removal unlinks any node but the head and the tail.
\<close>

lemma list_insert_chain:
  assumes c: "lchain st None (us @ [a] @ b # vs) None" and d: "distinct (us @ [a] @ b # vs)"
    and e: "e \<notin> set (us @ [a] @ b # vs)" "st e \<noteq> None"
  shows "\<exists>st'. list_insert st (Some b) (Some e) = Inr st' \<and> lchain st' None (us @ [a] @ e # b # vs) None \<and>
           (\<forall>x. x \<noteq> a \<longrightarrow> x \<noteq> e \<longrightarrow> x \<noteq> b \<longrightarrow> st' x = st x)"
proof -
  have sa: "st a = Some \<lparr>lprev = lst_or None us, lnext = Some b\<rparr>"
    and sb: "st b = Some \<lparr>lprev = Some a, lnext = hd_or None vs\<rparr>" using c by simp_all
  obtain vp vn where se: "st e = Some \<lparr>lprev = vp, lnext = vn\<rparr>" using e by (metis list_elem.cases not_None_eq)
  have ok: "orR (is_interior st (Some b)) (is_tail st (Some b)) = Inr True"
    using sb by (simp add: orR_def is_interior_def is_tail_def get_elem_def)
  have ne: "e \<noteq> a" "e \<noteq> b" "a \<noteq> b" "b \<noteq> a" "b \<noteq> e" "a \<noteq> e" using d e by auto
  let ?st = "st(e \<mapsto> \<lparr>lprev = Some a, lnext = Some b\<rparr>, a \<mapsto> \<lparr>lprev = lst_or None us, lnext = Some e\<rparr>,
                b \<mapsto> \<lparr>lprev = Some e, lnext = hd_or None vs\<rparr>)"
  have "list_insert st (Some b) (Some e) = Inr ?st"
    using sa sb se ne by (simp add: list_insert_def ok deref_def get_elem_def set_prev_def set_next_def fun_upd_twist)
  moreover have "lchain ?st None (us @ [a] @ e # b # vs) None" using c d e ne by auto
  ultimately show ?thesis by auto
qed

lemma list_remove_chain:
  assumes c: "lchain st None (us @ [a] @ e # b # vs) None" and d: "distinct (us @ [a] @ e # b # vs)"
  shows "\<exists>st'. list_remove st (Some e) = Inr (Some b, st') \<and> lchain st' None (us @ [a] @ b # vs) None \<and>
           (\<forall>x. x \<noteq> a \<longrightarrow> x \<noteq> b \<longrightarrow> st' x = st x)"
proof -
  have sa: "st a = Some \<lparr>lprev = lst_or None us, lnext = Some e\<rparr>"
    and se: "st e = Some \<lparr>lprev = Some a, lnext = Some b\<rparr>"
    and sb: "st b = Some \<lparr>lprev = Some e, lnext = hd_or None vs\<rparr>" using c by simp_all
  have ne: "e \<noteq> a" "e \<noteq> b" "a \<noteq> b" "b \<noteq> a" "b \<noteq> e" "a \<noteq> e" using d by auto
  let ?st = "st(a \<mapsto> \<lparr>lprev = lst_or None us, lnext = Some b\<rparr>, b \<mapsto> \<lparr>lprev = Some a, lnext = hd_or None vs\<rparr>)"
  have "list_remove st (Some e) = Inr (Some b, ?st)"
    using sa sb se ne
    by (simp add: list_remove_def is_interior_def deref_def get_elem_def set_prev_def set_next_def)
  moreover have "lchain ?st None (us @ [a] @ b # vs) None" using c d ne by auto
  ultimately show ?thesis by auto
qed

text \<open>The same facts for the elements of a list; everything outside of the list stays as it is.\<close>

lemma path_before: "\<exists>ps a. list_head l # us = ps @ [a]"
  by (metis append_butlast_last_id list.distinct(1))

lemma path_after: "\<exists>b qs. vs @ [list_tail l] = b # qs \<and> hd_or (Some (list_tail l)) vs = Some b"
  by (cases vs) auto

lemma nodes_split: "nodes l (us @ vs) = (list_head l # us) @ (vs @ [list_tail l])"
  by (simp add: nodes_def)

lemma list_insert_dlist:
  assumes d: "dlist st l (us @ vs)" and e: "e \<notin> set (nodes l (us @ vs))" "st e \<noteq> None"
  shows "\<exists>st'. list_insert st (hd_or (Some (list_tail l)) vs) (Some e) = Inr st' \<and> dlist st' l (us @ e # vs) \<and>
           (\<forall>x. x \<notin> set (nodes l (us @ e # vs)) \<longrightarrow> st' x = st x)"
proof -
  obtain ps a where ps: "list_head l # us = ps @ [a]" using path_before by blast
  obtain b qs where qs: "vs @ [list_tail l] = b # qs" "hd_or (Some (list_tail l)) vs = Some b"
    using path_after by blast
  have path: "nodes l (us @ vs) = ps @ [a] @ b # qs"
    unfolding nodes_split ps qs(1) by simp
  have path': "nodes l (us @ e # vs) = ps @ [a] @ e # b # qs"
    unfolding nodes_split ps append_Cons [of e vs] qs(1) by simp
  have "lchain st None (ps @ [a] @ b # qs) None" "distinct (ps @ [a] @ b # qs)" "e \<notin> set (ps @ [a] @ b # qs)"
    using d e unfolding dlist_def path by blast+
  from list_insert_chain [OF this e(2)] obtain st' where
    "list_insert st (Some b) (Some e) = Inr st'" "lchain st' None (ps @ [a] @ e # b # qs) None"
    "\<forall>x. x \<noteq> a \<longrightarrow> x \<noteq> e \<longrightarrow> x \<noteq> b \<longrightarrow> st' x = st x" by blast
  moreover have "distinct (ps @ [a] @ e # b # qs)" using d e unfolding dlist_def path by auto
  ultimately show ?thesis unfolding dlist_def path' qs(2) by auto
qed

lemma list_remove_dlist:
  assumes d: "dlist st l (us @ e # vs)"
  shows "\<exists>st'. list_remove st (Some e) = Inr (hd_or (Some (list_tail l)) vs, st') \<and> dlist st' l (us @ vs) \<and>
           (\<forall>x. x \<notin> set (nodes l (us @ vs)) \<longrightarrow> st' x = st x)"
proof -
  obtain ps a where ps: "list_head l # us = ps @ [a]" using path_before by blast
  obtain b qs where qs: "vs @ [list_tail l] = b # qs" "hd_or (Some (list_tail l)) vs = Some b"
    using path_after by blast
  have path: "nodes l (us @ vs) = ps @ [a] @ b # qs"
    unfolding nodes_split ps qs(1) by simp
  have path': "nodes l (us @ e # vs) = ps @ [a] @ e # b # qs"
    unfolding nodes_split ps append_Cons [of e vs] qs(1) by simp
  have "lchain st None (ps @ [a] @ e # b # qs) None" "distinct (ps @ [a] @ e # b # qs)"
    using d unfolding dlist_def path' by blast+
  from this(2) list_remove_chain [OF this] show ?thesis unfolding dlist_def path qs(2) by auto
qed

lemma list_push_front_dlist:
  assumes "dlist st l xs" "e \<notin> set (nodes l xs)" "st e \<noteq> None"
  shows "\<exists>st'. list_push_front st l (Some e) = Inr st' \<and> dlist st' l (e # xs) \<and>
           (\<forall>x. x \<notin> set (nodes l (e # xs)) \<longrightarrow> st' x = st x)"
  using list_insert_dlist [of st l "[]" xs e] assms by (simp add: list_push_front_def)

lemma list_push_back_dlist:
  assumes "dlist st l xs" "e \<notin> set (nodes l xs)" "st e \<noteq> None"
  shows "\<exists>st'. list_push_back st l (Some e) = Inr st' \<and> dlist st' l (xs @ [e]) \<and>
           (\<forall>x. x \<notin> set (nodes l (xs @ [e])) \<longrightarrow> st' x = st x)"
  using list_insert_dlist [of st l xs "[]" e] assms by (simp add: list_push_back_def list_end_def)

lemma list_pop_front_dlist:
  assumes "dlist st l (x # xs)"
  shows "\<exists>st'. list_pop_front st l = Inr (Some x, st') \<and> dlist st' l xs \<and>
           (\<forall>y. y \<notin> set (nodes l xs) \<longrightarrow> st' y = st y)"
  using list_remove_dlist [of st l "[]" x xs] assms by (auto simp: list_pop_front_def list_front_dlist)

lemma list_pop_back_dlist:
  assumes "dlist st l (xs @ [x])"
  shows "\<exists>st'. list_pop_back st l = Inr (Some x, st') \<and> dlist st' l xs \<and>
           (\<forall>y. y \<notin> set (nodes l xs) \<longrightarrow> st' y = st y)"
  using list_remove_dlist [of st l xs x "[]"] assms by (auto simp: list_pop_back_def list_back_dlist)

section \<open>Traversals\<close>

lemma list_size_from_dlist:
  assumes "dlist st l (us @ vs)" "length vs < n"
  shows "list_size_from n st l (hd_or (Some (list_tail l)) vs) cnt = Inr (cnt + length vs)"
  using assms
proof (induction vs arbitrary: us cnt n)
  case Nil
  then show ?case by (cases n) (simp_all add: list_end_def)
next
  case (Cons v vs)
  then obtain m where n: "n = Suc m" "length vs < m" by (cases n) auto
  have "v \<noteq> list_tail l" using Cons.prems by (auto simp: dlist_def2)
  moreover have "list_next st (Some v) = Inr (hd_or (Some (list_tail l)) vs)"
    by (rule list_next_dlist) (rule Cons.prems(1))
  ultimately show ?case using Cons.IH [of "us @ [v]" m "cnt + 1"] Cons.prems n by (simp add: list_end_def)
qed

lemma list_size_dlist:
  "dlist st l xs \<Longrightarrow> length xs < n \<Longrightarrow> list_size n st l = Inr (length xs)"
  using list_size_from_dlist [of st l "[]" xs n 0] by (simp add: list_size_def)

lemma ordered_pos_dlist:
  assumes "dlist st l (us @ vs)" "length vs < n"
  shows "ordered_pos n st l lt_fn x (hd_or (Some (list_tail l)) vs) =
           Inr (hd_or (Some (list_tail l)) (dropWhile (\<lambda>y. \<not> lt_fn x y) vs))"
  using assms
proof (induction vs arbitrary: us n)
  case Nil
  then show ?case by (cases n) (simp_all add: list_end_def)
next
  case (Cons v vs)
  then obtain m where n: "n = Suc m" "length vs < m" by (cases n) auto
  have "v \<noteq> list_tail l" using Cons.prems by (auto simp: dlist_def2)
  moreover have "list_next st (Some v) = Inr (hd_or (Some (list_tail l)) vs)"
    by (rule list_next_dlist) (rule Cons.prems(1))
  ultimately show ?case using Cons.IH [of "us @ [v]" m] Cons.prems n by (simp add: list_end_def deref_def)
qed

lemma list_insert_ordered_dlist:
  assumes "dlist st l xs" "e \<notin> set (nodes l xs)" "st e \<noteq> None" "length xs < n"
  shows "\<exists>st'. list_insert_ordered n st l (Some e) lt_fn = Inr st' \<and>
           dlist st' l (takeWhile (\<lambda>y. \<not> lt_fn e y) xs @ e # dropWhile (\<lambda>y. \<not> lt_fn e y) xs)"
  using list_insert_dlist [of st l "takeWhile (\<lambda>y. \<not> lt_fn e y) xs" "dropWhile (\<lambda>y. \<not> lt_fn e y) xs" e]
    ordered_pos_dlist [of st l "[]" xs n lt_fn e] assms
  by (auto simp: list_insert_ordered_def deref_def)

lemma best_from_dlist:
  assumes "dlist st l (us @ vs)" "length vs < n"
  shows "best_from n st l better b (hd_or (Some (list_tail l)) vs) =
           Inr (Some (foldl (\<lambda>b p. if better p b then p else b) b vs))"
  using assms
proof (induction vs arbitrary: us n b)
  case Nil
  then show ?case by (cases n) (simp_all add: list_end_def)
next
  case (Cons v vs)
  then obtain m where n: "n = Suc m" "length vs < m" by (cases n) auto
  have "v \<noteq> list_tail l" using Cons.prems by (auto simp: dlist_def2)
  moreover have "list_next st (Some v) = Inr (hd_or (Some (list_tail l)) vs)"
    by (rule list_next_dlist) (rule Cons.prems(1))
  ultimately show ?case using Cons.IH [of "us @ [v]" m] Cons.prems n by (simp add: list_end_def deref_def)
qed

lemma reverse_loop_chain:
  assumes "lchain st p vs (Some (list_tail l))" "distinct vs" "list_tail l \<notin> set vs" "length vs < n"
  shows "\<exists>st'. reverse_loop n st l (hd_or (Some (list_tail l)) vs) = Inr st' \<and>
           lchain st' (Some (list_tail l)) (rev vs) p \<and> (\<forall>x. x \<notin> set vs \<longrightarrow> st' x = st x)"
  using assms
proof (induction vs arbitrary: st p n)
  case Nil
  then show ?case by (cases n) (simp_all add: list_end_def)
next
  case (Cons v vs)
  let ?t = "Some (list_tail l)"
  obtain m where n: "n = Suc m" "length vs < m" using Cons.prems by (cases n) auto
  have sv: "st v = Some \<lparr>lprev = p, lnext = hd_or ?t vs\<rparr>" using Cons.prems by simp
  let ?st = "st(v \<mapsto> \<lparr>lprev = hd_or ?t vs, lnext = p\<rparr>)"
  have "lchain ?st (Some v) vs ?t" using Cons.prems by simp
  moreover have "distinct vs" "list_tail l \<notin> set vs" using Cons.prems by auto
  ultimately obtain st' where st': "reverse_loop m ?st l (hd_or ?t vs) = Inr st'"
    "lchain st' ?t (rev vs) (Some v)" "\<forall>x. x \<notin> set vs \<longrightarrow> st' x = ?st x"
    using Cons.IH [OF _ _ _ n(2), of ?st "Some v"] by blast
  have "lst_or ?t (rev vs) = hd_or ?t vs" by (cases vs) simp_all
  moreover have "st' v = ?st v" using st'(3) Cons.prems by auto
  ultimately show ?case
    using st' sv n Cons.prems by (auto simp: list_end_def deref_def get_elem_def)
qed

lemma chain_relink:
  assumes c: "lchain st t xs h" and ne: "xs \<noteq> []" "distinct xs"
    and st': "st' = (st(hd xs \<mapsto> (the (st (hd xs)))\<lparr>lprev := h\<rparr>))"
    and st'': "st'' = (st'(last xs \<mapsto> (the (st' (last xs)))\<lparr>lnext := t\<rparr>))"
  shows "lchain st'' h xs t"
proof -
  obtain x ys where xs: "xs = x # ys" using ne by (cases xs) auto
  show ?thesis
  proof (cases ys rule: rev_cases)
    case Nil
    then show ?thesis using c xs by (simp add: st' st'')
  next
    case (snoc zs z)
    then show ?thesis using c ne xs by (auto simp: st' st'')
  qed
qed

lemma list_reverse_dlist:
  assumes d: "dlist st l xs" and n: "length xs < n"
  shows "\<exists>st'. list_reverse n st l = Inr st' \<and> dlist st' l (rev xs) \<and>
           (\<forall>x. x \<notin> set (nodes l xs) \<longrightarrow> st' x = st x)"
proof (cases "xs = []")
  case True
  then show ?thesis using d by (auto simp: list_reverse_def)
next
  case ne: False
  let ?h = "list_head l" and ?t = "list_tail l"
  have nt: "?h \<notin> set xs" "?t \<notin> set xs" "distinct xs" and c: "lchain st (Some ?h) xs (Some ?t)"
    using d by (auto simp: dlist_def2)
  from reverse_loop_chain [OF c nt(3,2) n] obtain st1 where st1:
    "reverse_loop n st l (hd_or (Some ?t) xs) = Inr st1" "lchain st1 (Some ?t) (rev xs) (Some ?h)"
    "\<forall>x. x \<notin> set xs \<longrightarrow> st1 x = st x" by blast
  have sh: "st1 ?h = Some \<lparr>lprev = None, lnext = Some (hd xs)\<rparr>"
    and tl: "st1 ?t = Some \<lparr>lprev = Some (last xs), lnext = None\<rparr>"
    using st1(3) nt d ne by (simp_all add: dlist_def2 lst_or_def hd_or_def split: list.splits)
  define st2 where "st2 = st1(?h \<mapsto> \<lparr>lprev = None, lnext = Some (last xs)\<rparr>, ?t \<mapsto> \<lparr>lprev = Some (hd xs), lnext = None\<rparr>)"
  have c2: "lchain st2 (Some ?t) (rev xs) (Some ?h)" unfolding st2_def using st1(2) nt by simp
  obtain y ys where y: "rev xs = y # ys" using ne by (cases "rev xs") auto
  obtain zs z where z: "rev xs = zs @ [z]" using ne by (cases "rev xs" rule: rev_cases) auto
  have hl: "hd xs = z" "last xs = y" using y z by (metis last_rev hd_rev last_snoc list.sel(1) rev_rev_ident)+
  obtain fn where f: "st2 y = Some \<lparr>lprev = Some ?t, lnext = fn\<rparr>" using c2 y by simp
  obtain bp where b: "st2 z = Some \<lparr>lprev = bp, lnext = Some ?h\<rparr>" using c2 z by simp
  define st3 where "st3 = st2(hd (rev xs) \<mapsto> (the (st2 (hd (rev xs))))\<lparr>lprev := Some ?h\<rparr>)"
  define st4 where "st4 = st3(last (rev xs) \<mapsto> (the (st3 (last (rev xs))))\<lparr>lnext := Some ?t\<rparr>)"
  have c4: "lchain st4 (Some ?h) (rev xs) (Some ?t)"
    by (rule chain_relink [OF c2 _ _ st3_def st4_def]) (use ne nt in auto)
  have ends: "hd (rev xs) = y" "last (rev xs) = z" unfolding y by simp (simp add: z flip: y)
  have lh: "lst_or (Some ?h) (rev xs) = Some z" "hd_or (Some ?t) (rev xs) = Some y"
    unfolding z by (simp, simp add: y flip: z)
  have in_xs: "y \<in> set xs" "z \<in> set xs" using y z by (metis list.set_intros(1) set_rev last_in_set last_snoc snoc_eq_iff_butlast)+
  have fb: "st1 y = Some \<lparr>lprev = Some ?t, lnext = fn\<rparr>" "st1 z = Some \<lparr>lprev = bp, lnext = Some ?h\<rparr>"
    using f b in_xs nt by (auto simp: st2_def split: if_splits)
  have neq: "y \<noteq> ?h" "y \<noteq> ?t" "z \<noteq> ?h" "z \<noteq> ?t" using in_xs nt by auto
  have run: "list_reverse n st l = Inr st4"
    using d ne st1(1) sh tl fb hl neq
    by (cases "y = z") (simp_all add: list_reverse_def get_elem_def deref_def set_prev_def set_next_def
        st2_def st3_def st4_def ends fun_eq_iff)
  have other: "st4 x = st2 x" if "x \<notin> set xs" for x
    using that in_xs by (auto simp: st4_def st3_def ends)
  have "dlist st4 l (rev xs)"
    using c4 nt other [OF nt(1)] other [OF nt(2)] hl lh ne
    by (simp add: dlist_def2 st2_def)
  then show ?thesis using run other st1(3) by (auto simp: st2_def)
qed

section \<open>The list as a recency queue\<close>

text \<open>
  The cache of recently closed files uses the list as a queue: an element enters at the front, leaves
  at the back, or is taken out of the middle. The contract: \<open>holds s xs\<close> says that the state keeps
  \<open>xs\<close>, most recent first, and \<open>live s e\<close> that \<open>e\<close> may be a member.
\<close>

locale recency_queue =
  fixes holds :: "'s \<Rightarrow> 'e list \<Rightarrow> bool"
    and live :: "'s \<Rightarrow> 'e \<Rightarrow> bool"
    and push :: "'s \<Rightarrow> 'e \<Rightarrow> 's res"
    and pop :: "'s \<Rightarrow> ('e \<times> 's) res"
    and takeout :: "'s \<Rightarrow> 'e \<Rightarrow> 's res"
  assumes push_law: "holds s xs \<Longrightarrow> live s e \<Longrightarrow> e \<notin> set xs \<Longrightarrow>
      \<exists>s'. push s e = Inr s' \<and> holds s' (e # xs) \<and> (\<forall>x. live s x \<longrightarrow> live s' x)"
    and pop_law: "holds s (xs @ [x]) \<Longrightarrow>
      \<exists>s'. pop s = Inr (x, s') \<and> holds s' xs \<and> (\<forall>x. live s x \<longrightarrow> live s' x)"
    and takeout_law: "holds s (xs @ e # ys) \<Longrightarrow>
      \<exists>s'. takeout s e = Inr s' \<and> holds s' (xs @ ys) \<and> (\<forall>x. live s x \<longrightarrow> live s' x)"
    and member_law: "holds s xs \<Longrightarrow> distinct xs \<and> (\<forall>x \<in> set xs. live s x)"
begin

lemma pushes:
  assumes "holds s xs" "\<forall>y \<in> set ys. live s y" "distinct ys" "set ys \<inter> set xs = {}"
  shows "\<exists>s'. foldR push ys s = Inr s' \<and> holds s' (rev ys @ xs)"
  using assms
proof (induction ys arbitrary: s xs)
  case (Cons y ys)
  then obtain s' where "push s y = Inr s'" "holds s' (y # xs)" "\<forall>x. live s x \<longrightarrow> live s' x"
    using push_law [of s xs y] by auto
  then show ?case using Cons.IH [of s' "y # xs"] Cons.prems by auto
qed simp

lemma pops_all: "holds s (rev ys) \<Longrightarrow> \<exists>s'. repeatR pop (length ys) s = Inr (ys, s') \<and> holds s' []"
proof (induction ys arbitrary: s)
  case (Cons y ys)
  then obtain s' where "pop s = Inr (y, s')" "holds s' (rev ys)" using pop_law [of s "rev ys" y] by auto
  then show ?case using Cons.IH [of s'] by auto
qed simp

lemma fifo:
  assumes "holds s []" "\<forall>y \<in> set ys. live s y" "distinct ys"
  shows "\<exists>s'. bindR (foldR push ys s) (repeatR pop (length ys)) = Inr (ys, s') \<and> holds s' []"
  using pushes [OF assms(1-3)] pops_all by fastforce

text \<open>Taking a member out and pushing it again makes it the most recent one and keeps the order of the rest.\<close>

lemma refresh:
  assumes "holds s (xs @ e # ys)"
  shows "\<exists>s'. bindR (takeout s e) (\<lambda>s. push s e) = Inr s' \<and> holds s' (e # xs @ ys)"
proof -
  have m: "distinct (xs @ e # ys)" "live s e" using member_law [OF assms] by auto
  obtain s1 where "takeout s e = Inr s1" "holds s1 (xs @ ys)" "live s1 e"
    using takeout_law [OF assms] m by auto
  then show ?thesis using push_law [of s1 "xs @ ys" e] m by auto
qed

lemma refresh_evicts_oldest:
  assumes "holds s (xs @ e # ys @ [y])"
  shows "\<exists>s'. bindR (bindR (takeout s e) (\<lambda>s. push s e)) pop = Inr (y, s') \<and> holds s' (e # xs @ ys)"
  using refresh [OF assms] pop_law [of _ "e # xs @ ys" y] by fastforce

end

definition live_elem :: "nat \<Rightarrow> links \<Rightarrow> nat \<Rightarrow> bool" where
  "live_elem l st e \<longleftrightarrow> st e \<noteq> None \<and> e \<noteq> list_head l \<and> e \<noteq> list_tail l"

lemma live_elem_keep:
  assumes "dlist st' l xs" "\<forall>x. x \<notin> set (nodes l xs) \<longrightarrow> st' x = st x" "live_elem l st e"
  shows "live_elem l st' e"
proof (cases "e \<in> set xs")
  case True
  then obtain us vs where "xs = us @ e # vs" by (auto simp: in_set_conv_decomp)
  then show ?thesis using dlist_at [of st' l us e vs] assms by (simp add: live_elem_def)
next
  case False
  then show ?thesis using assms by (simp add: live_elem_def)
qed

lemma dlist_members:
  assumes "dlist st l xs"
  shows "distinct xs \<and> (\<forall>x \<in> set xs. live_elem l st x)"
  using assms by (auto simp: live_elem_def dlist_def2 in_set_conv_decomp)

interpretation lru: recency_queue "\<lambda>st xs. dlist st l xs" "live_elem l"
  "\<lambda>st e. list_push_front st l (Some e)" "\<lambda>st. bindR (list_pop_back st l) (\<lambda>(x, st). bindR (deref x) (\<lambda>x. Inr (x, st)))"
  "\<lambda>st e. bindR (list_remove st (Some e)) (\<lambda>(_, st). Inr st)" for l
proof unfold_locales
  fix st xs e
  assume d: "dlist st l xs" and e: "live_elem l st e" "e \<notin> set xs"
  show "\<exists>st'. list_push_front st l (Some e) = Inr st' \<and> dlist st' l (e # xs) \<and> (\<forall>x. live_elem l st x \<longrightarrow> live_elem l st' x)"
    using list_push_front_dlist [OF d, of e] e live_elem_keep [of _ l "e # xs" st]
    by (simp add: live_elem_def) blast
next
  fix st xs x
  assume "dlist st l (xs @ [x])"
  then show "\<exists>st'. bindR (list_pop_back st l) (\<lambda>(x, st). bindR (deref x) (\<lambda>x. Inr (x, st))) = Inr (x, st') \<and>
      dlist st' l xs \<and> (\<forall>x. live_elem l st x \<longrightarrow> live_elem l st' x)"
    using list_pop_back_dlist [of st l xs x] live_elem_keep [of _ l xs st] by (fastforce simp: deref_def)
next
  fix st xs e ys
  assume "dlist st l (xs @ e # ys)"
  then show "\<exists>st'. bindR (list_remove st (Some e)) (\<lambda>(_, st). Inr st) = Inr st' \<and> dlist st' l (xs @ ys) \<and>
      (\<forall>x. live_elem l st x \<longrightarrow> live_elem l st' x)"
    using list_remove_dlist [of st l xs e ys] live_elem_keep [of _ l "xs @ ys" st] by fastforce
qed (rule dlist_members)

section \<open>Properties\<close>

abbreviation pop_elem :: "nat \<Rightarrow> links \<Rightarrow> (nat \<times> links) res" where
  "pop_elem l st \<equiv> bindR (list_pop_back st l) (\<lambda>(x, st). bindR (deref x) (\<lambda>x. Inr (x, st)))"

lemma live_elem_init [simp]: "live_elem l (list_init st l) e \<longleftrightarrow> live_elem l st e"
  by (auto simp: live_elem_def list_init_def)

definition blank_links :: links where
  "blank_links p = (if p < 10 then Some \<lparr>lprev = None, lnext = None\<rparr> else None)"

definition three_links :: links where
  "three_links = Map.empty(
     0 \<mapsto> \<lparr>lprev = None, lnext = Some 5\<rparr>, 5 \<mapsto> \<lparr>lprev = Some 0, lnext = Some 7\<rparr>,
     7 \<mapsto> \<lparr>lprev = Some 5, lnext = Some 6\<rparr>, 6 \<mapsto> \<lparr>lprev = Some 7, lnext = Some 1\<rparr>,
     1 \<mapsto> \<lparr>lprev = Some 6, lnext = None\<rparr>, 8 \<mapsto> \<lparr>lprev = None, lnext = None\<rparr>)"

definition age :: "nat \<Rightarrow> int" where
  "age a = (if a = 8 then 2 else 3)"

lemma three_links_dlist: "dlist three_links 0 [5, 7, 6]"
  by (simp add: three_links_def dlist_def2 list_head_def list_tail_def)

text \<open>
  C27: The list is a first-in first-out queue: elements pushed to the front of a fresh list, in any
  number, leave at the back in the order they came, and the list is empty again.
\<close>

theorem list_fifo:
  assumes "\<forall>y \<in> set ys. live_elem l st y" "distinct ys"
  shows "\<exists>st'. bindR (foldR (\<lambda>st e. list_push_front st l (Some e)) ys (list_init st l))
                 (repeatR (pop_elem l) (length ys)) = Inr (ys, st') \<and> dlist st' l []"
  by (rule lru.fifo) (use assms list_init_dlist in auto)

theorem list_fifo_witness:
  "\<exists>st'. bindR (foldR (\<lambda>st e. list_push_front st 0 (Some e)) [5, 7, 6] (list_init blank_links 0))
                 (repeatR (pop_elem 0) 3) = Inr ([5, 7, 6], st') \<and> dlist st' 0 []"
proof -
  have "\<forall>y \<in> set [5, 7, 6]. live_elem 0 blank_links y"
    by (simp add: live_elem_def blank_links_def list_head_def list_tail_def)
  then show ?thesis using list_fifo [of "[5, 7, 6]" 0 blank_links] by (simp add: numeral_3_eq_3)
qed

text \<open>
  Using an element again protects it: when a member that is not the last one is removed and pushed
  back to the front, the next \<open>list_pop_back\<close> returns the oldest element and the order of the
  others is kept.
\<close>

theorem list_refresh_evicts_oldest:
  assumes "dlist st l (xs @ e # ys @ [y])"
  shows "\<exists>st'. bindR (bindR (bindR (list_remove st (Some e)) (\<lambda>(_, st). Inr st))
                     (\<lambda>st. list_push_front st l (Some e))) (pop_elem l) = Inr (y, st') \<and>
               dlist st' l (e # xs @ ys)"
  by (rule lru.refresh_evicts_oldest [OF assms])

theorem list_refresh_evicts_oldest_witness:
  "dlist three_links 0 [5, 7, 6] \<and>
   (\<exists>st'. bindR (bindR (bindR (list_remove three_links (Some 7)) (\<lambda>(_, st). Inr st))
                     (\<lambda>st. list_push_front st 0 (Some 7))) (pop_elem 0) = Inr (6, st') \<and>
               dlist st' 0 [7, 5])"
  using three_links_dlist list_refresh_evicts_oldest [of three_links 0 "[5]" 7 "[]" 6] by simp

text \<open>
  \<open>list_reverse\<close> terminates within one step more than the list has elements, reverses the list and
  leaves every element outside of it alone.
\<close>

theorem list_reverse_correct:
  assumes "dlist st l xs" "length xs < n"
  shows "\<exists>st'. list_reverse n st l = Inr st' \<and> dlist st' l (rev xs) \<and>
           (\<forall>x. x \<notin> set (nodes l xs) \<longrightarrow> st' x = st x)"
  by (rule list_reverse_dlist [OF assms])

theorem list_reverse_correct_witness:
  "dlist three_links 0 [5, 7, 6] \<and>
   (\<exists>st'. list_reverse 4 three_links 0 = Inr st' \<and> dlist st' 0 [6, 7, 5])"
  using three_links_dlist list_reverse_correct [of three_links 0 "[5, 7, 6]" 4] by auto

text \<open>
  \<open>list_insert_ordered\<close> keeps a list sorted, for any comparison that comes from a key, and adds exactly
  the new element.
\<close>

theorem list_insert_ordered_sorted:
  fixes key :: "nat \<Rightarrow> int"
  assumes "dlist st l xs" "e \<notin> set (nodes l xs)" "st e \<noteq> None" "length xs < n" "sorted (map key xs)"
  shows "\<exists>st' ys. list_insert_ordered n st l (Some e) (\<lambda>a b. key a < key b) = Inr st' \<and> dlist st' l ys \<and>
           sorted (map key ys) \<and> set ys = insert e (set xs) \<and> length ys = Suc (length xs)"
proof -
  let ?tw = "takeWhile (\<lambda>y. \<not> key e < key y) xs" and ?dw = "dropWhile (\<lambda>y. \<not> key e < key y) xs"
  obtain st' where st': "list_insert_ordered n st l (Some e) (\<lambda>a b. key a < key b) = Inr st'"
    "dlist st' l (?tw @ e # ?dw)" using list_insert_ordered_dlist [OF assms(1-4)] by blast
  have split: "xs = ?tw @ ?dw" by simp
  have srt: "sorted (map key ?tw)" "sorted (map key ?dw)"
    using assms(5) by (subst (asm) split, simp only: map_append sorted_append)+
  have lo: "\<forall>y \<in> set ?tw. key y \<le> key e" by (auto dest: set_takeWhileD)
  have hi: "\<forall>y \<in> set ?dw. key e \<le> key y"
  proof (cases ?dw)
    case (Cons z zs)
    then have "key e < key z" by (metis dropWhile_eq_Cons_conv not_less)
    then show ?thesis using srt(2) Cons by fastforce
  next
    case Nil
    then show ?thesis by (metis empty_iff list.set(1))
  qed
  have "sorted (map key (?tw @ e # ?dw))" using srt lo hi by (fastforce simp: sorted_append)
  moreover have "set (?tw @ e # ?dw) = insert e (set xs)" by (subst (3) split, simp only: set_append) auto
  moreover have "length (?tw @ e # ?dw) = Suc (length xs)" by (subst (3) split, simp only: length_append) simp
  ultimately show ?thesis using st' by blast
qed

theorem list_insert_ordered_sorted_witness:
  "dlist three_links 0 [5, 7, 6] \<and>
   (\<exists>st' ys. list_insert_ordered 4 three_links 0 (Some 8) (\<lambda>a b. age a < age b) = Inr st' \<and>
      dlist st' 0 ys \<and> sorted (map age ys) \<and> set ys = insert 8 (set [5, 7, 6]) \<and> length ys = Suc (length [5, 7, 6 :: nat]))"
proof -
  have "8 \<notin> set (nodes 0 [5, 7, 6])" by (simp add: list_head_def list_tail_def)
  moreover have "three_links 8 \<noteq> None" by (simp add: three_links_def)
  moreover have "sorted (map age [5, 7, 6])" by (simp add: age_def)
  moreover have "length [5, 7, 6 :: nat] < 4" by simp
  ultimately show ?thesis using three_links_dlist list_insert_ordered_sorted [of three_links 0 "[5, 7, 6]" 8 4 age] by blast
qed

end
