(* ===== verification/List_Sort.thy ===== *)
theory List_Sort
  imports DList "HOL-Library.Multiset"
begin

text \<open>
  Sorting and removal of duplicates of \<^verbatim>\<open>src/list.c\<close>: a natural merge sort that moves the elements of a linked
  list in place. The loops take a bound on their iterations, for which one more than the number of
  elements is enough.
\<close>

section \<open>Operations\<close>

type_synonym list_less = "nat \<Rightarrow> nat \<Rightarrow> bool"

text \<open>The comparison of an element with the one before it.\<close>

definition less_prev :: "links \<Rightarrow> list_less \<Rightarrow> nat option \<Rightarrow> bool res" where
  "less_prev st lt_fn a = bindR (list_prev st a) (\<lambda>p. bindR (deref a) (\<lambda>x. bindR (deref p) (\<lambda>y. Inr (lt_fn x y))))"

primrec sorted_loop :: "nat \<Rightarrow> links \<Rightarrow> list_less \<Rightarrow> nat option \<Rightarrow> nat option \<Rightarrow> bool res" where
  "sorted_loop 0 st lt_fn a b = Inl Out_Of_Fuel"
| "sorted_loop (Suc n) st lt_fn a b =
     bindR (list_next st a) (\<lambda>a.
     if a = b then Inr True
     else bindR (less_prev st lt_fn a) (\<lambda>c. if c then Inr False else sorted_loop n st lt_fn a b))"

definition is_sorted :: "nat \<Rightarrow> links \<Rightarrow> list_less \<Rightarrow> nat option \<Rightarrow> nat option \<Rightarrow> bool res" where
  "is_sorted n st lt_fn a b = (if a \<noteq> b then sorted_loop n st lt_fn a b else Inr True)"

primrec run_loop :: "nat \<Rightarrow> links \<Rightarrow> list_less \<Rightarrow> nat option \<Rightarrow> nat option \<Rightarrow> nat option res" where
  "run_loop 0 st lt_fn a b = Inl Out_Of_Fuel"
| "run_loop (Suc n) st lt_fn a b =
     bindR (list_next st a) (\<lambda>a.
     if a = b then Inr a
     else bindR (less_prev st lt_fn a) (\<lambda>c. if c then Inr a else run_loop n st lt_fn a b))"

definition find_end_of_run :: "nat \<Rightarrow> links \<Rightarrow> list_less \<Rightarrow> nat option \<Rightarrow> nat option \<Rightarrow> nat option res" where
  "find_end_of_run n st lt_fn a b =
     bindR (assertR (a \<noteq> None \<and> b \<noteq> None \<and> a \<noteq> b) ()) (\<lambda>_. run_loop n st lt_fn a b)"

primrec merge_loop :: "nat \<Rightarrow> links \<Rightarrow> list_less \<Rightarrow> nat option \<Rightarrow> nat option \<Rightarrow> nat option \<Rightarrow> links res" where
  "merge_loop 0 st lt_fn a0 a1b0 b1 = Inl Out_Of_Fuel"
| "merge_loop (Suc n) st lt_fn a0 a1b0 b1 =
     (if a0 \<noteq> a1b0 \<and> a1b0 \<noteq> b1 then
        bindR (deref a1b0) (\<lambda>y. bindR (deref a0) (\<lambda>x.
        if \<not> lt_fn y x then bindR (list_next st a0) (\<lambda>a0. merge_loop n st lt_fn a0 a1b0 b1)
        else
          bindR (list_next st a1b0) (\<lambda>a1b0.
          bindR (list_prev st a1b0) (\<lambda>p.
          bindR (list_splice st a0 p a1b0) (\<lambda>st. merge_loop n st lt_fn a0 a1b0 b1)))))
      else Inr st)"

definition inplace_merge :: "nat \<Rightarrow> links \<Rightarrow> list_less \<Rightarrow> nat option \<Rightarrow> nat option \<Rightarrow> nat option \<Rightarrow> links res" where
  "inplace_merge n st lt_fn a0 a1b0 b1 =
     bindR (assertR (a0 \<noteq> None \<and> a1b0 \<noteq> None \<and> b1 \<noteq> None) ()) (\<lambda>_.
     bindR (bindR (is_sorted n st lt_fn a0 a1b0) (\<lambda>ok. assertR ok ())) (\<lambda>_.
     bindR (bindR (is_sorted n st lt_fn a1b0 b1) (\<lambda>ok. assertR ok ())) (\<lambda>_.
     merge_loop n st lt_fn a0 a1b0 b1)))"

text \<open>One pass over the list, with the number of runs it leaves.\<close>

primrec sort_pass :: "nat \<Rightarrow> nat \<Rightarrow> links \<Rightarrow> list_less \<Rightarrow> nat \<Rightarrow> nat option \<Rightarrow> nat \<Rightarrow> (links \<times> nat) res" where
  "sort_pass 0 n st lt_fn l a0 cnt = Inl Out_Of_Fuel"
| "sort_pass (Suc m) n st lt_fn l a0 cnt =
     (if a0 = list_end l then Inr (st, cnt)
      else
        bindR (find_end_of_run n st lt_fn a0 (list_end l)) (\<lambda>a1b0.
        if a1b0 = list_end l then Inr (st, cnt + 1)
        else
          bindR (find_end_of_run n st lt_fn a1b0 (list_end l)) (\<lambda>b1.
          bindR (inplace_merge n st lt_fn a0 a1b0 b1) (\<lambda>st.
          sort_pass m n st lt_fn l b1 (cnt + 1)))))"

primrec sort_loop :: "nat \<Rightarrow> nat \<Rightarrow> links \<Rightarrow> list_less \<Rightarrow> nat \<Rightarrow> links res" where
  "sort_loop 0 n st lt_fn l = Inl Out_Of_Fuel"
| "sort_loop (Suc m) n st lt_fn l =
     bindR (list_begin st l) (\<lambda>a0.
     bindR (sort_pass n n st lt_fn l a0 0) (\<lambda>(st, cnt).
     if cnt > 1 then sort_loop m n st lt_fn l else Inr st))"

definition list_sort :: "nat \<Rightarrow> links \<Rightarrow> nat \<Rightarrow> list_less \<Rightarrow> links res" where
  "list_sort n st l lt_fn =
     bindR (sort_loop n n st lt_fn l) (\<lambda>st.
     bindR (list_begin st l) (\<lambda>a.
     bindR (is_sorted n st lt_fn a (list_end l)) (\<lambda>ok. assertR ok st)))"

text \<open>The duplicates go to a second list, if there is one.\<close>

primrec unique_loop :: "nat \<Rightarrow> links \<Rightarrow> nat \<Rightarrow> nat option \<Rightarrow> list_less \<Rightarrow> nat option \<Rightarrow> links res" where
  "unique_loop 0 st l duplicates lt_fn elem = Inl Out_Of_Fuel"
| "unique_loop (Suc n) st l duplicates lt_fn elem =
     bindR (list_next st elem) (\<lambda>next.
     if next = list_end l then Inr st
     else
       bindR (deref elem) (\<lambda>x. bindR (deref next) (\<lambda>y.
       if \<not> lt_fn x y \<and> \<not> lt_fn y x then
         bindR (list_remove st next) (\<lambda>(_, st).
         bindR (case duplicates of None \<Rightarrow> Inr st | Some d \<Rightarrow> list_push_back st d next) (\<lambda>st.
         unique_loop n st l duplicates lt_fn elem))
       else unique_loop n st l duplicates lt_fn next)))"

definition list_unique :: "nat \<Rightarrow> links \<Rightarrow> nat \<Rightarrow> nat option \<Rightarrow> list_less \<Rightarrow> links res" where
  "list_unique n st l duplicates lt_fn =
     bindR (list_empty st l) (\<lambda>b.
     if b then Inr st else bindR (list_begin st l) (\<lambda>elem. unique_loop n st l duplicates lt_fn elem))"

section \<open>Moving one element\<close>

text \<open>Splicing a range of one element is removing and inserting it.\<close>

lemma splice_remove_insert:
  assumes "list_remove st (Some b) = Inr (x, st1)" "list_insert st1 (Some a) (Some b) = Inr st2"
    "orR (is_interior st (Some a)) (is_tail st (Some a)) = Inr True" "list_prev st c = Inr (Some b)" "c \<noteq> Some b"
    "is_interior st (Some b) = Inr True"
  shows "list_splice st (Some a) (Some b) c = Inr st2"
  using assms by (auto simp: list_splice_def list_remove_def list_insert_def bindR_eq_Inr assertR_def deref_def split: if_splits option.splits)

lemma list_prev_at:
  assumes "dlist st l (us @ vs)"
  shows "list_prev st (hd_or (Some (list_tail l)) vs) = Inr (lst_or (Some (list_head l)) us)"
proof (cases vs)
  case Nil
  then show ?thesis using assms dlist_tail_kind [OF assms]
    by (simp add: list_prev_def orR_def deref_def get_elem_def dlist_def2)
next
  case (Cons v vs')
  then show ?thesis using list_prev_dlist [of st l us v vs'] assms by simp
qed

lemma list_splice_one:
  assumes d: "dlist st l (us @ a # vs @ b # zs)"
  shows "\<exists>st'. list_splice st (Some a) (Some b) (hd_or (Some (list_tail l)) zs) = Inr st' \<and> dlist st' l (us @ b # a # vs @ zs) \<and>
    (\<forall>x. x \<notin> set (nodes l (us @ a # vs @ b # zs)) \<longrightarrow> st' x = st x)"
proof -
  have d': "dlist st l ((us @ a # vs) @ b # zs)" "dlist st l (((us @ a # vs) @ [b]) @ zs)" using d by simp_all
  obtain st1 where r: "list_remove st (Some b) = Inr (hd_or (Some (list_tail l)) zs, st1)" "dlist st1 l (us @ a # vs @ zs)"
    "\<forall>x. x \<notin> set (nodes l (us @ a # vs @ zs)) \<longrightarrow> st1 x = st x" using list_remove_dlist [OF d'(1)] by auto
  have nb: "b \<notin> set (nodes l (us @ a # vs @ zs))" using d by (auto simp: dlist_def2)
  have "st1 b \<noteq> None" using r(3) nb dlist_at [OF d'(1)] by simp
  then obtain st2 where i: "list_insert st1 (Some a) (Some b) = Inr st2" "dlist st2 l (us @ b # a # vs @ zs)"
    "\<forall>x. x \<notin> set (nodes l (us @ b # a # vs @ zs)) \<longrightarrow> st2 x = st1 x" using list_insert_dlist [of st1 l us "a # vs @ zs" b] r(2) nb by auto
  have "list_prev st (hd_or (Some (list_tail l)) zs) = Inr (Some b)" using list_prev_at [OF d'(2)] by simp
  moreover have "hd_or (Some (list_tail l)) zs \<noteq> Some b" using d by (cases zs) (auto simp: dlist_def2)
  moreover have "orR (is_interior st (Some a)) (is_tail st (Some a)) = Inr True" using dlist_interior [OF d] by (simp add: orR_def)
  ultimately have "list_splice st (Some a) (Some b) (hd_or (Some (list_tail l)) zs) = Inr st2"
    using splice_remove_insert [OF r(1) i(1)] dlist_interior(1) [OF d'(1)] by blast
  then show ?thesis using i(2,3) r(3) by auto
qed

section \<open>Lists of keys\<close>

fun kmerge :: "(nat \<Rightarrow> 'k :: linorder) \<Rightarrow> nat list \<Rightarrow> nat list \<Rightarrow> nat list" where
  "kmerge key [] ys = ys"
| "kmerge key xs [] = xs"
| "kmerge key (x # xs) (y # ys) = (if key y < key x then y # kmerge key (x # xs) ys else x # kmerge key xs (y # ys))"

lemma kmerge_Nil [simp]: "kmerge key xs [] = xs"
  by (cases xs) simp_all

lemma mset_kmerge [simp]: "mset (kmerge key xs ys) = mset xs + mset ys"
  by (induction key xs ys rule: kmerge.induct) simp_all

lemma set_kmerge [simp]: "set (kmerge key xs ys) = set xs \<union> set ys"
  by (metis mset_kmerge set_mset_mset set_mset_union)

lemma sorted_kmerge: "sorted (map key xs) \<Longrightarrow> sorted (map key ys) \<Longrightarrow> sorted (map key (kmerge key xs ys))"
  by (induction key xs ys rule: kmerge.induct) (auto simp: less_imp_le not_less intro: order_trans)

lemma filter_kmerge:
  "sorted (map key xs) \<Longrightarrow> filter (\<lambda>x. k = key x) (kmerge key xs ys) = filter (\<lambda>x. k = key x) xs @ filter (\<lambda>x. k = key x) ys"
proof (induction key xs ys rule: kmerge.induct)
  case (3 key x xs y ys)
  show ?case
  proof (cases "key y < key x")
    case True
    have "filter (\<lambda>z. k = key z) (x # xs) = []" if "k = key y" using True 3(3) that by (auto simp: filter_empty_conv)
    then show ?thesis using 3(1) [OF True] 3(3) True by (cases "k = key y") auto
  next
    case False
    then show ?thesis using 3(2) [OF False] 3(3) by auto
  qed
qed simp_all

text \<open>The first run of a list and the rest.\<close>

fun run_of :: "(nat \<Rightarrow> 'k :: linorder) \<Rightarrow> nat list \<Rightarrow> nat list" where
  "run_of key (x # y # ys) = (if key y < key x then [x] else x # run_of key (y # ys))"
| "run_of key xs = xs"

fun run_rest :: "(nat \<Rightarrow> 'k :: linorder) \<Rightarrow> nat list \<Rightarrow> nat list" where
  "run_rest key (x # y # ys) = (if key y < key x then y # ys else run_rest key (y # ys))"
| "run_rest key xs = []"

lemma run_split: "run_of key xs @ run_rest key xs = xs"
  by (induction key xs rule: run_of.induct) simp_all

lemma run_nonempty [simp]: "run_of key xs = [] \<longleftrightarrow> xs = []"
  by (induction key xs rule: run_of.induct) simp_all

lemma run_sorted: "sorted (map key (run_of key xs))"
proof (induction key xs rule: run_of.induct)
  case (1 key x y ys)
  have "\<exists>r. run_of key (y # ys) = y # r" by (cases ys) auto
  then obtain r where r: "run_of key (y # ys) = y # r" by blast
  show ?case
  proof (cases "key y < key x")
    case False
    then have "sorted (map key (y # r))" "key x \<le> key y" using 1 r by simp_all
    then have "sorted (map key (x # y # r))" by auto
    then show ?thesis using False r by simp
  qed simp
qed simp_all

lemma run_rest_shorter: "xs \<noteq> [] \<Longrightarrow> length (run_rest key xs) < length xs"
  by (induction key xs rule: run_rest.induct) auto

function kpass :: "(nat \<Rightarrow> 'k :: linorder) \<Rightarrow> nat list \<Rightarrow> nat list \<times> nat" where
  "kpass key xs =
     (if xs = [] then ([], 0)
      else if run_rest key xs = [] then (xs, 1)
      else (case kpass key (run_rest key (run_rest key xs)) of
        (ys, c) \<Rightarrow> (kmerge key (run_of key xs) (run_of key (run_rest key xs)) @ ys, Suc c)))"
  by pat_completeness auto
termination
proof (relation "measure (\<lambda>(key, xs). length xs)", goal_cases)
  case (2 key xs)
  then show ?case using run_rest_shorter [of xs key] run_rest_shorter [of "run_rest key xs" key] by simp
qed simp

declare kpass.simps [simp del]

text \<open>A pass keeps the elements and the order of those with equal keys, and leaves at most half of the runs.\<close>

function nruns :: "(nat \<Rightarrow> 'k :: linorder) \<Rightarrow> nat list \<Rightarrow> nat" where
  "nruns key xs = (if xs = [] then 0 else Suc (nruns key (run_rest key xs)))"
  by pat_completeness auto
termination
  by (relation "measure (\<lambda>(key, xs). length xs)") (auto intro: run_rest_shorter)

declare nruns.simps [simp del]

lemma nruns_Nil [simp]: "nruns key [] = 0" "nruns key xs = 0 \<longleftrightarrow> xs = []"
  by (simp_all add: nruns.simps [of key])

lemma nruns_le: "nruns key xs \<le> length xs"
proof (induction "length xs" arbitrary: xs rule: less_induct)
  case less
  show ?case
  proof (cases "xs = []")
    case False
    have "nruns key (run_rest key xs) \<le> length (run_rest key xs)" using less run_rest_shorter [OF False] by blast
    then show ?thesis using False run_rest_shorter [OF False, of key] by (simp add: nruns.simps [of key xs])
  qed simp
qed

lemma nruns_Cons: "nruns key (x # y # ys) = (if key y < key x then Suc (nruns key (y # ys)) else nruns key (y # ys))"
  by (simp add: nruns.simps [of key "x # y # ys"] nruns.simps [of key "y # ys"])

lemma nruns_sorted: "sorted (map key xs) \<Longrightarrow> nruns key xs \<le> 1"
proof (induction xs)
  case (Cons x xs)
  then show ?case by (cases xs) (auto simp: nruns_Cons nruns.simps [of key "[x]"])
qed simp

lemma nruns_append: "nruns key (xs @ ys) \<le> nruns key xs + nruns key ys"
proof (induction xs)
  case (Cons x xs)
  show ?case
  proof (cases xs)
    case Nil
    then show ?thesis by (cases ys) (auto simp: nruns_Cons nruns.simps [of key "[x]"])
  next
    case (Cons y xs')
    then show ?thesis using Cons.IH by (simp add: nruns_Cons)
  qed
qed simp

lemma sorted_one_run: "nruns key xs \<le> 1 \<Longrightarrow> sorted (map key xs)"
proof -
  assume n: "nruns key xs \<le> 1"
  have "run_rest key xs = []" using n by (cases "xs = []") (simp_all add: nruns.simps [of key xs])
  then have "run_of key xs = xs" using run_split [of key xs] by simp
  then show ?thesis using run_sorted [of key xs] by simp
qed

lemma kpass_props:
  "mset (fst (kpass key xs)) = mset xs \<and> (\<forall>k. filter (\<lambda>x. k = key x) (fst (kpass key xs)) = filter (\<lambda>x. k = key x) xs) \<and>
   nruns key (fst (kpass key xs)) \<le> snd (kpass key xs) \<and> 2 * snd (kpass key xs) \<le> Suc (nruns key xs)"
proof (induction "length xs" arbitrary: xs rule: less_induct)
  case less
  let ?r = "run_rest key xs" and ?a = "run_of key xs"
  show ?case
  proof (cases "xs = [] \<or> ?r = []")
    case True
    then show ?thesis by (cases "xs = []") (auto simp: kpass.simps [of key xs] kpass.simps [of key "[]"] nruns.simps [of key xs])
  next
    case False
    let ?b = "run_of key ?r" and ?q = "run_rest key ?r"
    have l: "length ?q < length xs" using run_rest_shorter [of xs key] run_rest_shorter [of ?r key] False by simp
    obtain ys c where k: "kpass key ?q = (ys, c)" by (cases "kpass key ?q")
    have ih: "mset ys = mset ?q" "\<And>k. filter (\<lambda>x. k = key x) ys = filter (\<lambda>x. k = key x) ?q" "nruns key ys \<le> c" "2 * c \<le> Suc (nruns key ?q)"
      using less [OF l] k by simp_all
    have x: "xs = ?a @ ?b @ ?q" using run_split [of key xs] run_split [of key ?r] by simp
    have p: "kpass key xs = (kmerge key ?a ?b @ ys, Suc c)" using False k by (simp add: kpass.simps [of key xs])
    have "mset (kmerge key ?a ?b @ ys) = mset xs" using ih(1) arg_cong [OF x, of mset] by simp
    moreover have "filter (\<lambda>x. k = key x) (kmerge key ?a ?b @ ys) = filter (\<lambda>x. k = key x) xs" for k
      using arg_cong [OF x, of "filter (\<lambda>x. k = key x)"] by (simp add: filter_kmerge [OF run_sorted] ih(2))
    moreover have "nruns key (kmerge key ?a ?b) \<le> 1" by (intro nruns_sorted sorted_kmerge run_sorted)
    then have "nruns key (kmerge key ?a ?b @ ys) \<le> Suc c" using nruns_append [of key "kmerge key ?a ?b" ys] ih(3) by simp
    moreover have "nruns key xs = Suc (Suc (nruns key ?q))" using False by (simp add: nruns.simps [of key xs] nruns.simps [of key ?r])
    ultimately show ?thesis using p ih(4) by simp
  qed
qed

section \<open>The loops\<close>

abbreviation key_less :: "(nat \<Rightarrow> 'k :: linorder) \<Rightarrow> list_less" where
  "key_less key \<equiv> (\<lambda>a b. key a < key b)"

lemma less_prev_dlist:
  "dlist st l (us @ x # y # vs) \<Longrightarrow> less_prev st lt_fn (Some y) = Inr (lt_fn y x)"
  using list_prev_dlist [of st l "us @ [x]" y vs] by (simp add: less_prev_def deref_def)

lemma hd_or_inj: "dlist st l (us @ vs @ ws) \<Longrightarrow> vs \<noteq> [] \<Longrightarrow> hd_or (Some (list_tail l)) (vs @ ws) \<noteq> hd_or (Some (list_tail l)) ws"
  by (cases vs; cases ws) (auto simp: dlist_def2)

lemma sorted_loop_dlist:
  assumes "dlist st l (us @ vs @ ws)" "vs \<noteq> []" "sorted (map key vs)" "length vs \<le> n"
  shows "sorted_loop n st (key_less key) (hd_or (Some (list_tail l)) (vs @ ws)) (hd_or (Some (list_tail l)) ws) = Inr True"
  using assms
proof (induction vs arbitrary: us n)
  case (Cons v vs)
  obtain m where n: "n = Suc m" "length vs \<le> m" using Cons.prems(4) by (cases n) auto
  have nx: "list_next st (Some v) = Inr (hd_or (Some (list_tail l)) (vs @ ws))" using list_next_dlist [of st l us v "vs @ ws"] Cons.prems(1) by simp
  show ?case
  proof (cases vs)
    case Nil
    then show ?thesis using nx n by simp
  next
    case (Cons y vs')
    have d: "dlist st l ((us @ [v]) @ vs @ ws)" using Cons.prems(1) by simp
    have ne: "hd_or (Some (list_tail l)) (vs @ ws) \<noteq> hd_or (Some (list_tail l)) ws" by (rule hd_or_inj [OF d]) (simp add: Cons)
    have "less_prev st (key_less key) (Some y) = Inr False"
      using less_prev_dlist [of st l us v y "vs' @ ws" "key_less key"] Cons.prems(1,3) Cons by (simp add: not_less)
    then show ?thesis using nx ne n Cons.IH [OF d _ _ n(2)] Cons.prems(3) Cons by simp
  qed
qed simp

lemma is_sorted_dlist:
  assumes "dlist st l (us @ vs @ ws)" "sorted (map key vs)" "length vs \<le> n"
  shows "is_sorted n st (key_less key) (hd_or (Some (list_tail l)) (vs @ ws)) (hd_or (Some (list_tail l)) ws) = Inr True"
  using assms sorted_loop_dlist [OF assms(1) _ assms(2,3)] by (cases "vs = []") (simp_all add: is_sorted_def)

lemma run_loop_dlist:
  assumes "dlist st l (us @ xs)" "xs \<noteq> []" "length xs \<le> n"
  shows "run_loop n st (key_less key) (hd_or (Some (list_tail l)) xs) (Some (list_tail l)) = Inr (hd_or (Some (list_tail l)) (run_rest key xs))"
  using assms
proof (induction xs arbitrary: us n)
  case (Cons x xs)
  obtain m where n: "n = Suc m" "length xs \<le> m" using Cons.prems(3) by (cases n) auto
  have nx: "list_next st (Some x) = Inr (hd_or (Some (list_tail l)) xs)" by (rule list_next_dlist [OF Cons.prems(1)])
  show ?case
  proof (cases xs)
    case Nil
    then show ?thesis using nx n by simp
  next
    case (Cons y ys)
    have d: "dlist st l ((us @ [x]) @ xs)" using Cons.prems(1) by simp
    have ne: "y \<noteq> list_tail l" using Cons.prems(1) Cons by (auto simp: dlist_def2)
    have "less_prev st (key_less key) (Some y) = Inr (key y < key x)" using less_prev_dlist [of st l us x y ys] Cons.prems(1) Cons by simp
    then show ?thesis using nx ne n Cons.IH [OF d _ n(2)] Cons by simp
  qed
qed simp

lemma find_end_dlist:
  assumes "dlist st l (us @ xs)" "xs \<noteq> []" "length xs \<le> n"
  shows "find_end_of_run n st (key_less key) (hd_or (Some (list_tail l)) xs) (list_end l) = Inr (hd_or (Some (list_tail l)) (run_rest key xs))"
proof -
  have "hd_or (Some (list_tail l)) xs \<noteq> Some (list_tail l)" using hd_or_inj [of st l us xs "[]"] assms(1,2) by simp
  moreover have "hd_or (Some (list_tail l)) xs \<noteq> None" by (cases xs) simp_all
  ultimately show ?thesis using run_loop_dlist [OF assms] by (simp add: find_end_of_run_def list_end_def assertR_def)
qed

text \<open>The links outside of the list stay as they are.\<close>

definition relinked :: "nat \<Rightarrow> nat list \<Rightarrow> links \<Rightarrow> links \<Rightarrow> bool" where
  "relinked l xs st st' \<longleftrightarrow> (\<forall>x. x \<notin> set (nodes l xs) \<longrightarrow> st' x = st x)"

lemma relinked_trans: "relinked l xs st st1 \<Longrightarrow> relinked l ys st1 st2 \<Longrightarrow> set ys = set xs \<Longrightarrow> relinked l xs st st2"
  by (auto simp: relinked_def)

lemma merge_loop_dlist:
  assumes "dlist st l (us @ xs @ ys @ zs)" "length xs + length ys < n"
  shows "\<exists>st'. merge_loop n st (key_less key) (hd_or (Some (list_tail l)) (xs @ ys @ zs)) (hd_or (Some (list_tail l)) (ys @ zs)) (hd_or (Some (list_tail l)) zs) = Inr st' \<and>
    dlist st' l (us @ kmerge key xs ys @ zs) \<and> relinked l (us @ xs @ ys @ zs) st st'"
  using assms
proof (induction n arbitrary: st us xs ys)
  case (Suc n)
  let ?t = "Some (list_tail l)"
  show ?case
  proof (cases "xs = [] \<or> ys = []")
    case True
    then show ?thesis using Suc.prems by (auto simp: relinked_def)
  next
    case False
    then obtain x xs' y ys' where e: "xs = x # xs'" "ys = y # ys'" by (cases xs; cases ys) auto
    have "hd_or ?t (xs @ ys @ zs) \<noteq> hd_or ?t (ys @ zs)" "hd_or ?t (ys @ zs) \<noteq> hd_or ?t zs"
      using hd_or_inj [of st l us xs "ys @ zs"] hd_or_inj [of st l "us @ xs" ys zs] Suc.prems(1) False by simp_all
    then have ne: "Some x \<noteq> Some y" "Some y \<noteq> hd_or ?t zs" using e by simp_all
    show ?thesis
    proof (cases "key y < key x")
      case True
      have d: "dlist st l (us @ x # xs' @ y # (ys' @ zs))" using Suc.prems(1) e by simp
      have nx: "list_next st (Some y) = Inr (hd_or ?t (ys' @ zs))" using list_next_dlist [of st l "us @ x # xs'" y "ys' @ zs"] d by simp
      have pv: "list_prev st (hd_or ?t (ys' @ zs)) = Inr (Some y)" using list_prev_at [of st l "us @ x # xs' @ [y]" "ys' @ zs"] d by simp
      obtain st1 where s: "list_splice st (Some x) (Some y) (hd_or ?t (ys' @ zs)) = Inr st1" "dlist st1 l (us @ y # x # xs' @ ys' @ zs)"
        "relinked l (us @ x # xs' @ y # ys' @ zs) st st1" using list_splice_one [OF d] by (auto simp: relinked_def)
      have d1: "dlist st1 l ((us @ [y]) @ xs @ ys' @ zs)" "length xs + length ys' < n" using s(2) e Suc.prems(2) by simp_all
      from Suc.IH [OF d1] obtain st2 where r: "merge_loop n st1 (key_less key) (hd_or ?t (xs @ ys' @ zs)) (hd_or ?t (ys' @ zs)) (hd_or ?t zs) = Inr st2"
        "dlist st2 l ((us @ [y]) @ kmerge key xs ys' @ zs)" "relinked l ((us @ [y]) @ xs @ ys' @ zs) st1 st2" by blast
      have "merge_loop (Suc n) st (key_less key) (hd_or ?t (xs @ ys @ zs)) (hd_or ?t (ys @ zs)) (hd_or ?t zs) = Inr st2"
        using ne True nx pv s(1) r(1) e by (simp add: deref_def)
      moreover have "relinked l (us @ xs @ ys @ zs) st st2" using s(3) r(3) e by (auto simp: relinked_def)
      ultimately show ?thesis using r(2) True e by simp
    next
      case le: False
      have nx: "list_next st (Some x) = Inr (hd_or ?t (xs' @ ys @ zs))" using list_next_dlist [of st l us x "xs' @ ys @ zs"] Suc.prems(1) e by simp
      have d1: "dlist st l ((us @ [x]) @ xs' @ ys @ zs)" "length xs' + length ys < n" using Suc.prems e by simp_all
      from Suc.IH [OF d1] obtain st2 where r: "merge_loop n st (key_less key) (hd_or ?t (xs' @ ys @ zs)) (hd_or ?t (ys @ zs)) (hd_or ?t zs) = Inr st2"
        "dlist st2 l ((us @ [x]) @ kmerge key xs' ys @ zs)" "relinked l ((us @ [x]) @ xs' @ ys @ zs) st st2" by blast
      have "merge_loop (Suc n) st (key_less key) (hd_or ?t (xs @ ys @ zs)) (hd_or ?t (ys @ zs)) (hd_or ?t zs) = Inr st2"
        using ne le nx r(1) e by (simp add: deref_def)
      then show ?thesis using r(2,3) le e by (auto simp: relinked_def)
    qed
  qed
qed simp

lemma inplace_merge_dlist:
  assumes "dlist st l (us @ xs @ ys @ zs)" "length xs + length ys < n" "sorted (map key xs)" "sorted (map key ys)"
  shows "\<exists>st'. inplace_merge n st (key_less key) (hd_or (Some (list_tail l)) (xs @ ys @ zs)) (hd_or (Some (list_tail l)) (ys @ zs)) (hd_or (Some (list_tail l)) zs) = Inr st' \<and>
    dlist st' l (us @ kmerge key xs ys @ zs) \<and> relinked l (us @ xs @ ys @ zs) st st'"
proof -
  have ne: "hd_or (Some (list_tail l)) vs \<noteq> None" for vs by (cases vs) simp_all
  have "is_sorted n st (key_less key) (hd_or (Some (list_tail l)) (xs @ ys @ zs)) (hd_or (Some (list_tail l)) (ys @ zs)) = Inr True"
    "is_sorted n st (key_less key) (hd_or (Some (list_tail l)) (ys @ zs)) (hd_or (Some (list_tail l)) zs) = Inr True"
    using is_sorted_dlist [of st l us xs "ys @ zs" key n] is_sorted_dlist [of st l "us @ xs" ys zs key n] assms by simp_all
  then show ?thesis using merge_loop_dlist [OF assms(1,2), of key] ne unfolding inplace_merge_def by (simp add: assertR_def del: hd_or_append)
qed

lemma sort_pass_dlist:
  assumes "dlist st l (us @ xs)" "length xs < n" "nruns key xs < m"
  shows "\<exists>st'. sort_pass m n st (key_less key) l (hd_or (Some (list_tail l)) xs) cnt = Inr (st', cnt + snd (kpass key xs)) \<and>
    dlist st' l (us @ fst (kpass key xs)) \<and> relinked l (us @ xs) st st'"
  using assms
proof (induction m arbitrary: st us xs cnt)
  case (Suc m)
  let ?t = "Some (list_tail l)" let ?r = "run_rest key xs" and ?a = "run_of key xs"
  show ?case
  proof (cases "xs = []")
    case True
    then show ?thesis using Suc.prems(1) by (auto simp: list_end_def kpass.simps [of key "[]"] relinked_def)
  next
    case False
    have tl: "hd_or ?t vs \<noteq> ?t" if "vs \<noteq> []" "dlist st l (ws @ vs)" for vs ws using hd_or_inj [of st l ws vs "[]"] that by simp
    have x0: "hd_or ?t xs \<noteq> list_end l" using tl [OF False Suc.prems(1)] by (simp add: list_end_def)
    have f1: "find_end_of_run n st (key_less key) (hd_or ?t xs) (list_end l) = Inr (hd_or ?t ?r)"
      by (rule find_end_dlist [OF Suc.prems(1) False]) (use Suc.prems(2) in simp)
    show ?thesis
    proof (cases "?r = []")
      case True
      then show ?thesis using False x0 f1 Suc.prems(1) by (auto simp: list_end_def kpass.simps [of key xs] relinked_def)
    next
      case r: False
      let ?b = "run_of key ?r" and ?q = "run_rest key ?r"
      have sp: "xs = ?a @ ?b @ ?q" "?r = ?b @ ?q" using run_split [of key xs] run_split [of key ?r] by simp_all
      have d: "dlist st l ((us @ ?a) @ ?r)" "dlist st l (us @ ?a @ ?b @ ?q)" using Suc.prems(1) run_split [of key xs] sp by simp_all
      have len: "length xs = length ?a + length ?b + length ?q" using arg_cong [OF sp(1), of length] by simp
      have r0: "hd_or ?t ?r \<noteq> list_end l" using tl [OF r d(1)] by (simp add: list_end_def)
      have f2: "find_end_of_run n st (key_less key) (hd_or ?t ?r) (list_end l) = Inr (hd_or ?t ?q)"
        by (rule find_end_dlist [OF d(1) r]) (use Suc.prems(2) run_rest_shorter [OF False, of key] in simp)
      have g0: "\<exists>st1. inplace_merge n st (key_less key) (hd_or ?t (?a @ ?b @ ?q)) (hd_or ?t (?b @ ?q)) (hd_or ?t ?q) = Inr st1 \<and>
        dlist st1 l (us @ kmerge key ?a ?b @ ?q) \<and> relinked l (us @ ?a @ ?b @ ?q) st st1"
        by (rule inplace_merge_dlist [OF d(2) _ run_sorted run_sorted]) (use len Suc.prems(2) in simp)
      obtain st1 where g: "inplace_merge n st (key_less key) (hd_or ?t xs) (hd_or ?t ?r) (hd_or ?t ?q) = Inr st1"
        "dlist st1 l (us @ kmerge key ?a ?b @ ?q)" "relinked l (us @ xs) st st1"
        using g0 [unfolded sp(1) [symmetric], unfolded sp(2) [symmetric]] by blast
      have d1: "dlist st1 l ((us @ kmerge key ?a ?b) @ ?q)" "length ?q < n" "nruns key ?q < m"
        using g(2) len Suc.prems(2,3) False r by (simp_all add: nruns.simps [of key xs] nruns.simps [of key ?r])
      from Suc.IH [OF d1, of "cnt + 1"] obtain st2 where p: "sort_pass m n st1 (key_less key) l (hd_or ?t ?q) (cnt + 1) = Inr (st2, cnt + 1 + snd (kpass key ?q))"
        "dlist st2 l ((us @ kmerge key ?a ?b) @ fst (kpass key ?q))" "relinked l ((us @ kmerge key ?a ?b) @ ?q) st1 st2" by blast
      have k: "kpass key xs = (kmerge key ?a ?b @ fst (kpass key ?q), Suc (snd (kpass key ?q)))"
        using False r by (simp add: kpass.simps [of key xs] case_prod_beta)
      have "set ((us @ kmerge key ?a ?b) @ ?q) = set (us @ xs)" using arg_cong [OF sp(1), of set] by auto
      then have "relinked l (us @ xs) st st2" by (rule relinked_trans [OF g(3) p(3)])
      moreover have "sort_pass (Suc m) n st (key_less key) l (hd_or ?t xs) cnt = Inr (st2, cnt + snd (kpass key xs))"
        using x0 f1 r0 f2 g(1) p(1) k by simp
      ultimately show ?thesis using p(2) k by (intro exI [of _ st2]) simp
    qed
  qed
qed simp

lemma sort_loop_dlist:
  assumes "dlist st l xs" "length xs < n" "nruns key xs < m"
  shows "\<exists>st' ys. sort_loop m n st (key_less key) l = Inr st' \<and> dlist st' l ys \<and> sorted (map key ys) \<and> mset ys = mset xs \<and>
    (\<forall>k. filter (\<lambda>x. k = key x) ys = filter (\<lambda>x. k = key x) xs) \<and> relinked l xs st st'"
  using assms
proof (induction m arbitrary: st xs)
  case (Suc m)
  let ?y = "fst (kpass key xs)" and ?c = "snd (kpass key xs)"
  have "nruns key xs < n" using nruns_le [of key xs] Suc.prems(2) by simp
  then obtain st1 where p: "sort_pass n n st (key_less key) l (hd_or (Some (list_tail l)) xs) 0 = Inr (st1, ?c)" "dlist st1 l ?y" "relinked l xs st st1"
    using sort_pass_dlist [of st l "[]" xs n key n 0] Suc.prems(1,2) by auto
  have k: "mset ?y = mset xs" "\<And>k. filter (\<lambda>x. k = key x) ?y = filter (\<lambda>x. k = key x) xs" "nruns key ?y \<le> ?c" "2 * ?c \<le> Suc (nruns key xs)"
    using kpass_props [of key xs] by simp_all
  have st: "sort_loop (Suc m) n st (key_less key) l = (if ?c > 1 then sort_loop m n st1 (key_less key) l else Inr st1)"
    using p(1) Suc.prems(1) by simp
  show ?case
  proof (cases "?c > 1")
    case True
    have "nruns key ?y < m" using True k(3,4) Suc.prems(3) by linarith
    moreover have "length ?y < n" using k(1) Suc.prems(2) by (metis size_mset)
    ultimately obtain st2 ys where r: "sort_loop m n st1 (key_less key) l = Inr st2" "dlist st2 l ys" "sorted (map key ys)" "mset ys = mset ?y"
      "\<forall>k. filter (\<lambda>x. k = key x) ys = filter (\<lambda>x. k = key x) ?y" "relinked l ?y st1 st2" using Suc.IH [OF p(2)] by blast
    have "relinked l xs st st2" by (rule relinked_trans [OF p(3) r(6)]) (metis k(1) set_mset_mset)
    then show ?thesis using st True r k by (intro exI [of _ st2] exI [of _ ys]) simp
  next
    case False
    then have "sorted (map key ?y)" using k(3) by (intro sorted_one_run) simp
    then show ?thesis using st False p k by (intro exI [of _ st1] exI [of _ ?y]) simp
  qed
qed simp

lemma list_sort_dlist:
  assumes "dlist st l xs" "length xs < n"
  shows "\<exists>st'. list_sort n st l (key_less key) = Inr st' \<and> dlist st' l (sort_key key xs) \<and> relinked l xs st st'"
proof -
  have "nruns key xs < n" using nruns_le [of key xs] assms(2) by simp
  then obtain st' ys where s: "sort_loop n n st (key_less key) l = Inr st'" "dlist st' l ys" "sorted (map key ys)" "mset ys = mset xs"
    "\<forall>k. filter (\<lambda>x. k = key x) ys = filter (\<lambda>x. k = key x) xs" "relinked l xs st st'" using sort_loop_dlist [OF assms] by blast
  have ys: "sort_key key xs = ys" using s(3-5) by (intro properties_for_sort_key) auto
  have "length ys \<le> n" using s(4) assms(2) by (metis less_imp_le size_mset)
  then have "is_sorted n st' (key_less key) (hd_or (Some (list_tail l)) ys) (list_end l) = Inr True"
    using is_sorted_dlist [of st' l "[]" ys "[]" key n] s(2,3) by (simp add: list_end_def)
  then show ?thesis using s(1,2,6) ys by (intro exI [of _ st']) (simp add: list_sort_def assertR_def)
qed

section \<open>Removing duplicates\<close>

text \<open>The elements that stay and those that are taken out.\<close>

fun kuniq :: "(nat \<Rightarrow> 'k :: linorder) \<Rightarrow> nat list \<Rightarrow> nat list \<times> nat list" where
  "kuniq key (x # y # ys) =
     (if key x = key y then (fst (kuniq key (x # ys)), y # snd (kuniq key (x # ys)))
      else (x # fst (kuniq key (y # ys)), snd (kuniq key (y # ys))))"
| "kuniq key xs = (xs, [])"

lemma kuniq_mset: "mset (fst (kuniq key xs)) + mset (snd (kuniq key xs)) = mset xs"
  by (induction key xs rule: kuniq.induct) auto

lemma kuniq_keys: "map key (fst (kuniq key xs)) = remdups_adj (map key xs)"
  by (induction key xs rule: kuniq.induct) auto

text \<open>The second list takes the duplicates at its end, in their order.\<close>

lemma unique_loop_dlist:
  assumes "dlist st l (us @ x # xs)" "dlist st d ds" "set (nodes l (us @ x # xs)) \<inter> set (nodes d ds) = {}" "length xs < n"
  shows "\<exists>st'. unique_loop n st l (Some d) (key_less key) (Some x) = Inr st' \<and> dlist st' l (us @ fst (kuniq key (x # xs))) \<and>
    dlist st' d (ds @ snd (kuniq key (x # xs)))"
  using assms
proof (induction xs arbitrary: st us x ds n)
  case Nil
  then show ?case using list_next_dlist [of st l us x "[]"] by (cases n) (simp_all add: list_end_def)
next
  case (Cons y ys)
  obtain m where n: "n = Suc m" "length ys < m" using Cons.prems(4) by (cases n) auto
  have nx: "list_next st (Some x) = Inr (Some y)" using list_next_dlist [OF Cons.prems(1)] by simp
  have ne: "y \<noteq> list_tail l" using Cons.prems(1) by (auto simp: dlist_def2)
  show ?case
  proof (cases "key x = key y")
    case True
    obtain st1 where r: "list_remove st (Some y) = Inr (hd_or (Some (list_tail l)) ys, st1)" "dlist st1 l ((us @ [x]) @ ys)"
      "\<forall>z. z \<notin> set (nodes l ((us @ [x]) @ ys)) \<longrightarrow> st1 z = st z" using list_remove_dlist [of st l "us @ [x]" y ys] Cons.prems(1) by auto
    have sub: "set (nodes l ((us @ [x]) @ ys)) \<subseteq> set (nodes l (us @ x # y # ys))" "set (nodes d (ds @ [y])) = insert y (set (nodes d ds))" by auto
    then have z: "\<forall>z \<in> set (nodes d ds). st1 z = st z" using r(3) Cons.prems(3) by blast
    have d1: "dlist st1 d ds" by (rule dlist_frame [OF Cons.prems(2) z])
    have yl: "y \<notin> set (nodes l ((us @ [x]) @ ys))" "y \<notin> set (nodes d ds)" using Cons.prems(1,3) by (auto simp: dlist_def2)
    have "st1 y \<noteq> None" using r(3) yl(1) dlist_at [of st l "us @ [x]" y ys] Cons.prems(1) by simp
    from list_push_back_dlist [OF d1 yl(2) this] obtain st2 where b: "list_push_back st1 d (Some y) = Inr st2" "dlist st2 d (ds @ [y])"
      "\<forall>z. z \<notin> set (nodes d (ds @ [y])) \<longrightarrow> st2 z = st1 z" by blast
    have "\<forall>z \<in> set (nodes l ((us @ [x]) @ ys)). st2 z = st1 z"
    proof
      fix z
      assume z: "z \<in> set (nodes l ((us @ [x]) @ ys))"
      then have "z \<noteq> y" "z \<notin> set (nodes d ds)" using yl(1) sub(1) Cons.prems(3) by blast+
      then show "st2 z = st1 z" using b(3) sub(2) by simp
    qed
    then have "dlist st2 l (us @ x # ys)" using dlist_frame [OF r(2)] by simp
    moreover have "set (nodes l (us @ x # ys)) \<inter> set (nodes d (ds @ [y])) = {}" using Cons.prems(3) yl(1) by auto
    ultimately obtain st3 where u: "unique_loop m st2 l (Some d) (key_less key) (Some x) = Inr st3" "dlist st3 l (us @ fst (kuniq key (x # ys)))"
      "dlist st3 d ((ds @ [y]) @ snd (kuniq key (x # ys)))" using Cons.IH [OF _ b(2) _ n(2)] by blast
    have "unique_loop n st l (Some d) (key_less key) (Some x) = Inr st3"
      using nx ne r(1) b(1) u(1) n(1) True by (simp add: list_end_def deref_def)
    then show ?thesis using u(2,3) True by simp
  next
    case False
    have "dlist st l ((us @ [x]) @ y # ys)" "set (nodes l ((us @ [x]) @ y # ys)) \<inter> set (nodes d ds) = {}" using Cons.prems(1,3) by simp_all
    from Cons.IH [OF this(1) Cons.prems(2) this(2) n(2)] obtain st3 where u: "unique_loop m st l (Some d) (key_less key) (Some y) = Inr st3"
      "dlist st3 l ((us @ [x]) @ fst (kuniq key (y # ys)))" "dlist st3 d (ds @ snd (kuniq key (y # ys)))" by blast
    have "unique_loop n st l (Some d) (key_less key) (Some x) = Inr st3"
      using nx ne u(1) n(1) False by (auto simp: list_end_def deref_def)
    then show ?thesis using u(2,3) False by simp
  qed
qed

lemma list_unique_dlist:
  assumes "dlist st l xs" "dlist st d ds" "set (nodes l xs) \<inter> set (nodes d ds) = {}" "length xs \<le> n"
  shows "\<exists>st' ys zs. list_unique n st l (Some d) (key_less key) = Inr st' \<and> dlist st' l ys \<and> dlist st' d (ds @ zs) \<and>
    map key ys = remdups_adj (map key xs) \<and> mset ys + mset zs = mset xs"
proof (cases xs)
  case Nil
  then show ?thesis using assms by (intro exI [of _ st] exI [of _ "[]"]) (simp add: list_unique_def)
next
  case (Cons x xs')
  have d: "dlist st l ([] @ x # xs')" "set (nodes l ([] @ x # xs')) \<inter> set (nodes d ds) = {}" "length xs' < n" using assms Cons by simp_all
  from unique_loop_dlist [OF d(1) assms(2) d(2,3), of key] obtain st' where
    "unique_loop n st l (Some d) (key_less key) (Some x) = Inr st'" "dlist st' l (fst (kuniq key xs))" "dlist st' d (ds @ snd (kuniq key xs))"
    using Cons by auto
  moreover have "list_unique n st l (Some d) (key_less key) = unique_loop n st l (Some d) (key_less key) (Some x)"
    using list_begin_dlist [OF assms(1)] assms(1) Cons by (simp add: list_unique_def)
  ultimately show ?thesis using kuniq_mset [of key xs] kuniq_keys [of key xs] by (metis (no_types, lifting))
qed

section \<open>Properties\<close>

text \<open>
  C28: \<open>list_sort\<close> is a stable sort, for any comparison that comes from a key. It ends within one pass more than
  the list has elements, its own assertions hold, and the list has the same elements afterwards,
  ordered by their keys, those with equal keys in their old order. Links outside of the list do not change.
\<close>

theorem list_sort_stable:
  fixes key :: "nat \<Rightarrow> int"
  assumes "dlist st l xs" "length xs < n"
  shows "\<exists>st'. list_sort n st l (\<lambda>a b. key a < key b) = Inr st' \<and> dlist st' l (sort_key key xs) \<and>
    (\<forall>x. x \<notin> set (nodes l xs) \<longrightarrow> st' x = st x)"
  using list_sort_dlist [OF assms] by (simp add: relinked_def)

theorem list_sort_stable_witness:
  "dlist three_links 0 [5, 7, 6] \<and>
   (\<exists>st'. list_sort 4 three_links 0 (\<lambda>a b. - int (a div 2) < - int (b div 2)) = Inr st' \<and> dlist st' 0 [7, 6, 5])"
proof -
  have "sort_key (\<lambda>a. - int (a div 2)) [5, 7, 6 :: nat] = [7, 6, 5]" by simp
  then show ?thesis using three_links_dlist list_sort_stable [of three_links 0 "[5, 7, 6]" 4 "\<lambda>a. - int (a div 2)"] by auto
qed

end
