(* ===== verification/Posix_File.thy ===== *)
theory Posix_File
  imports Gdpfs_Prelude
begin

text \<open>
  Regular files of the local file system, as far as the caches use them: \<open>lseek\<close>, \<open>read\<close>, \<open>write\<close>, and the
  position of the next hole. A file is its bytes and the blocks that are allocated for it; \<open>blk\<close> is the
  block size and \<open>quota\<close> the largest size a file may grow to, past which a write is short.
\<close>

record pfile =
  fdata :: "u8 list"
  falloc :: "nat \<Rightarrow> bool"

definition empty_file :: pfile where
  "empty_file = \<lparr>fdata = [], falloc = (\<lambda>_. False)\<rparr>"

definition pread :: "pfile \<Rightarrow> nat \<Rightarrow> nat \<Rightarrow> u8 list" where
  "pread f pos n = take n (drop pos (fdata f))"

text \<open>Bytes written past the end leave zeros in the gap.\<close>

definition overlay :: "u8 list \<Rightarrow> nat \<Rightarrow> u8 list \<Rightarrow> u8 list" where
  "overlay d pos bs =
     (if bs = [] then d
      else take pos d @ replicate (pos - length d) 0 @ bs @ drop (pos + length bs) d)"

definition pwrite :: "nat \<Rightarrow> nat \<Rightarrow> pfile \<Rightarrow> nat \<Rightarrow> u8 list \<Rightarrow> nat \<times> pfile" where
  "pwrite blk quota f pos bs =
     (let bs = take (quota - pos) bs in
      (length bs,
       f\<lparr>fdata := overlay (fdata f) pos bs,
         falloc := (\<lambda>b. falloc f b \<or> bs \<noteq> [] \<and> pos div blk \<le> b \<and> b \<le> (pos + length bs - 1) div blk)\<rparr>))"

text \<open>\<open>lseek\<close> with \<open>SEEK_SET\<close>: \<open>None\<close> is the error for a negative offset.\<close>

definition pseek :: "int \<Rightarrow> nat option" where
  "pseek off = (if off < 0 then None else Some (nat off))"

text \<open>\<open>lseek\<close> with \<open>SEEK_HOLE\<close>: the first offset that is not in an allocated block; the end of the file is a hole.\<close>

lemma next_block:
  assumes "0 < (blk :: nat)"
  shows "off < (off div blk + 1) * blk" "off \<le> i \<Longrightarrow> i < (off div blk + 1) * blk \<Longrightarrow> i div blk = off div blk"
proof -
  show "off < (off div blk + 1) * blk" using dividend_less_div_times [OF assms, of off] by simp
  show "i div blk = off div blk" if "off \<le> i" "i < (off div blk + 1) * blk"
    using that assms by (intro div_nat_eqI) (auto simp: mult.commute intro: order.trans [OF times_div_less_eq_dividend])
qed

function hole_from :: "nat \<Rightarrow> pfile \<Rightarrow> nat \<Rightarrow> nat" where
  "hole_from blk f off =
     (if blk = 0 \<or> length (fdata f) \<le> off then length (fdata f)
      else if \<not> falloc f (off div blk) then off
      else hole_from blk f ((off div blk + 1) * blk))"
  by pat_completeness auto
termination
proof (relation "measure (\<lambda>(blk, f, off). length (fdata f) - off)")
  fix blk off :: nat and f :: pfile
  assume a: "\<not> (blk = 0 \<or> length (fdata f) \<le> off)"
  have "off < (off div blk + 1) * blk" using a next_block by simp
  then show "((blk, f, (off div blk + 1) * blk), blk, f, off) \<in> measure (\<lambda>(blk, f, off). length (fdata f) - off)"
    using a by auto
qed simp

declare hole_from.simps [simp del]

definition pseek_hole :: "nat \<Rightarrow> pfile \<Rightarrow> int \<Rightarrow> nat option" where
  "pseek_hole blk f off =
     (if off < 0 \<or> int (length (fdata f)) \<le> off then None else Some (hole_from blk f (nat off)))"

section \<open>Reading after writing\<close>

definition byte_at :: "pfile \<Rightarrow> nat \<Rightarrow> u8" where
  "byte_at f i = (if i < length (fdata f) then fdata f ! i else 0)"

lemma length_overlay: "length (overlay d pos bs) = (if bs = [] then length d else max (length d) (pos + length bs))"
  by (auto simp: overlay_def)

lemma nth_overlay:
  assumes "i < length (overlay d pos bs)"
  shows "overlay d pos bs ! i =
     (if pos \<le> i \<and> i < pos + length bs then bs ! (i - pos) else if i < length d then d ! i else 0)"
  using assms by (auto simp: overlay_def nth_append length_overlay min_def split: if_splits)

lemma pwrite_all:
  assumes "pos + length bs \<le> quota"
  shows "fst (pwrite blk quota f pos bs) = length bs"
    "fdata (snd (pwrite blk quota f pos bs)) = overlay (fdata f) pos bs"
  using assms by (simp_all add: pwrite_def Let_def)

lemma byte_at_pwrite:
  assumes "pos + length bs \<le> quota"
  shows "byte_at (snd (pwrite blk quota f pos bs)) i =
     (if pos \<le> i \<and> i < pos + length bs then bs ! (i - pos) else byte_at f i)"
  using pwrite_all(2) [OF assms, of blk f] nth_overlay [of i "fdata f" pos bs]
  by (auto simp: byte_at_def length_overlay split: if_splits)

lemma pread_byte_at:
  assumes "pos + n \<le> length (fdata f)"
  shows "pread f pos n = map (byte_at f) [pos..<pos + n]"
  using assms by (auto intro!: nth_equalityI simp: pread_def byte_at_def)

lemma hole_from_spec:
  assumes "0 < blk" "off \<le> length (fdata f)"
  shows "off \<le> hole_from blk f off \<and> hole_from blk f off \<le> length (fdata f) \<and>
    (\<forall>i. off \<le> i \<longrightarrow> i < hole_from blk f off \<longrightarrow> falloc f (i div blk)) \<and>
    (hole_from blk f off = length (fdata f) \<or> \<not> falloc f (hole_from blk f off div blk))"
  using assms
proof (induction blk f off rule: hole_from.induct)
  case (1 blk f off)
  let ?n = "(off div blk + 1) * blk"
  consider "off = length (fdata f) \<or> \<not> falloc f (off div blk)"
    | "off < length (fdata f)" "falloc f (off div blk)" "?n \<le> length (fdata f)"
    | "off < length (fdata f)" "falloc f (off div blk)" "length (fdata f) < ?n" using 1(3) by linarith
  then show ?case
  proof cases
    case 1
    then show ?thesis using "1.prems" by (auto simp: hole_from.simps [of blk f off])
  next
    case 2
    have e: "hole_from blk f off = hole_from blk f ?n" using 2 "1.prems" by (subst hole_from.simps) simp
    have ih: "?n \<le> hole_from blk f ?n \<and> hole_from blk f ?n \<le> length (fdata f) \<and>
       (\<forall>i. ?n \<le> i \<longrightarrow> i < hole_from blk f ?n \<longrightarrow> falloc f (i div blk)) \<and>
       (hole_from blk f ?n = length (fdata f) \<or> \<not> falloc f (hole_from blk f ?n div blk))"
      using 2 "1.prems" by (intro "1.IH") auto
    have "falloc f (i div blk)" if "off \<le> i" "i < hole_from blk f ?n" for i
    proof (cases "i < ?n")
      case True
      then show ?thesis using next_block(2) [OF "1.prems"(1) that(1)] 2(2) by simp
    next
      case False
      then show ?thesis using ih that by (simp only: not_less)
    qed
    moreover have "off < ?n" by (rule next_block(1) [OF "1.prems"(1)])
    ultimately show ?thesis unfolding e using ih by (meson le_trans less_imp_le)
  next
    case 3
    have n: "hole_from blk f ?n = length (fdata f)"
      unfolding hole_from.simps [of blk f ?n] using less_imp_le [OF 3(3)] by (simp only: simp_thms if_True)
    have e: "hole_from blk f off = length (fdata f)"
      unfolding hole_from.simps [of blk f off] using 3(1,2) n "1.prems"(1) by (simp only: not_le not_less if_False simp_thms) simp
    have "falloc f (i div blk)" if "off \<le> i" "i < length (fdata f)" for i
      using next_block(2) [OF "1.prems"(1) that(1) less_trans [OF that(2) 3(3)]] 3(2) by simp
    then show ?thesis unfolding e using 3(1) by simp
  qed
qed

end
