(* ===== verification/Bitmap.thy ===== *)
theory Bitmap
  imports Gdpfs_Prelude
begin

text \<open>
  The bitmap of \<^verbatim>\<open>src/bitmap.c\<close>, which hands out file handles. A bitmap is its size in bits and its bytes;
  a pointer to one is an option (\<open>NULL\<close> is \<open>None\<close>), a read of a byte outside of the allocation is the
  fault \<open>Out_Of_Bounds\<close>, and the calls under the mutex are atomic. Theory content: the operations,
  the set of bits a bitmap stands for, a contract for pools of handles and its interpretation.
\<close>

unbundle bit_operations_syntax

section \<open>Data and operations\<close>

record bitmap_t =
  bmp_size :: u64
  bmp_data :: "u8 list"

definition byte_size :: "u64 \<Rightarrow> u64" where
  "byte_size bit_size = 1 + ((bit_size - 1) div 8)"

text \<open>
  Whether \<open>ep_mem_zalloc\<close> and \<open>ep_thr_mutex_init\<close> succeed is up to the system.
\<close>

definition bitmap_create :: "bool \<Rightarrow> bool \<Rightarrow> u64 \<Rightarrow> bitmap_t option" where
  "bitmap_create alloc_ok mutex_ok sz =
     (if alloc_ok
      then (if mutex_ok then Some \<lparr>bmp_size = sz, bmp_data = replicate (unat (byte_size sz)) 0\<rparr> else None)
      else None)"

text \<open>The loop over full bytes; its condition reads the byte before it compares the index with the limit.\<close>

function skip_full :: "u8 list \<Rightarrow> nat \<Rightarrow> nat \<Rightarrow> nat res" where
  "skip_full data lim byte =
     (if byte < length data
      then (if data ! byte = 0xFF \<and> byte < lim then skip_full data lim (byte + 1) else Inr byte)
      else Inl Out_Of_Bounds)"
  by pat_completeness auto
termination
  by (relation "measure (\<lambda>(data, lim, byte). length data - byte)") auto

text \<open>The loop over the bits of one byte.\<close>

function reserve_bit :: "u8 \<Rightarrow> nat \<Rightarrow> nat \<Rightarrow> nat option" where
  "reserve_bit field bit_lim b =
     (if b < bit_lim
      then (if drop_bit b field AND 1 = 0 then Some b else reserve_bit field bit_lim (b + 1))
      else None)"
  by pat_completeness auto
termination
  by (relation "measure (\<lambda>(field, lim, b). lim - b)") auto

declare skip_full.simps [simp del] reserve_bit.simps [simp del]

definition bitmap_reserve :: "bitmap_t option \<Rightarrow> (u64 \<times> bitmap_t option) res" where
  "bitmap_reserve p =
     (case p of None \<Rightarrow> Inr (-1, None)
      | Some bmp \<Rightarrow>
        (let data = bmp_data bmp; lim = unat (byte_size (bmp_size bmp)) in
         bindR (skip_full data lim 0) (\<lambda>byte.
         let bit_lim = (if byte = lim - 1 then unat ((bmp_size bmp - 1) mod 8) + 1
                        else if byte = lim then 0 else 8)
         in case reserve_bit (data ! byte) bit_lim 0 of
              None \<Rightarrow> Inr (-1, Some bmp)
            | Some b \<Rightarrow> Inr (of_nat (byte * 8 + b),
                 Some (bmp\<lparr>bmp_data := data[byte := data ! byte OR push_bit b 1]\<rparr>)))))"

definition bitmap_release :: "bitmap_t option \<Rightarrow> u64 \<Rightarrow> (int \<times> bitmap_t option) res" where
  "bitmap_release p val =
     (case p of None \<Rightarrow> Inr (-1, None)
      | Some bmp \<Rightarrow>
        if bmp_size bmp < val then Inr (-1, p)
        else
          (let byte = unat (val div 8); b = unat (val mod 8); data = bmp_data bmp in
           if byte < length data
           then (if drop_bit b (data ! byte) AND 1 \<noteq> 1 then Inr (-1, p)
                 else Inr (0, Some (bmp\<lparr>bmp_data := data[byte := data ! byte AND NOT (push_bit b 1)]\<rparr>)))
           else Inl Out_Of_Bounds))"

definition bitmap_set :: "bitmap_t option \<Rightarrow> u64 \<Rightarrow> (int \<times> bitmap_t option) res" where
  "bitmap_set p val =
     (case p of None \<Rightarrow> Inr (-1, None)
      | Some bmp \<Rightarrow>
        if bmp_size bmp < val then Inr (-1, p)
        else
          (let byte = unat (val div 8); b = unat (val mod 8); data = bmp_data bmp in
           if byte < length data
           then (if drop_bit b (data ! byte) AND 1 \<noteq> 0 then Inr (-1, p)
                 else Inr (0, Some (bmp\<lparr>bmp_data := data[byte := data ! byte OR push_bit b 1]\<rparr>)))
           else Inl Out_Of_Bounds))"

definition bitmap_is_set :: "bitmap_t option \<Rightarrow> u64 \<Rightarrow> int res" where
  "bitmap_is_set p val =
     (case p of None \<Rightarrow> Inr (-1)
      | Some bmp \<Rightarrow>
        if bmp_size bmp < val then Inr (-1)
        else
          (let byte = unat (val div 8); b = unat (val mod 8); data = bmp_data bmp in
           if byte < length data then Inr (uint (drop_bit b (data ! byte) AND 1))
           else Inl Out_Of_Bounds))"

definition bitmap_free :: "bitmap_t option \<Rightarrow> bitmap_t option res" where
  "bitmap_free p = (case p of None \<Rightarrow> Inl Bad_Pointer | Some _ \<Rightarrow> Inr None)"

section \<open>The set of bits\<close>

definition has_bit :: "u8 list \<Rightarrow> nat \<Rightarrow> bool" where
  "has_bit data i \<longleftrightarrow> i div 8 < length data \<and> bit (data ! (i div 8)) (i mod 8)"

definition bits :: "bitmap_t \<Rightarrow> nat set" where
  "bits bmp = {i. has_bit (bmp_data bmp) i}"

definition capacity :: "bitmap_t \<Rightarrow> nat" where
  "capacity bmp = unat (bmp_size bmp)"

text \<open>A well-formed bitmap is not empty, has the bytes for its size, and no bit outside of its size.\<close>

definition bitmap_wf :: "bitmap_t \<Rightarrow> bool" where
  "bitmap_wf bmp \<longleftrightarrow> bmp_size bmp \<noteq> 0 \<and> length (bmp_data bmp) = unat (byte_size (bmp_size bmp)) \<and>
     bits bmp \<subseteq> {..<capacity bmp}"

lemma low_bit: "drop_bit b (w :: u8) AND 1 = of_bool (bit w b)"
  by (simp add: and_one_eq bit_iff_odd_drop_bit mod_2_eq_odd)

lemma full_byte: "(w :: u8) = 0xFF \<longleftrightarrow> (\<forall>b < 8. bit w b)"
proof -
  have "w = -1 \<longleftrightarrow> (\<forall>b < 8. bit w b)" by (auto simp: bit_eq_iff)
  moreover have "(0xFF :: u8) = -1" by transfer simp
  ultimately show ?thesis by (simp only:)
qed

lemma has_bit_upd:
  assumes "i div 8 < length data"
  shows "has_bit (data[i div 8 := data ! (i div 8) OR push_bit (i mod 8) 1]) j \<longleftrightarrow> has_bit data j \<or> j = i"
    "has_bit (data[i div 8 := data ! (i div 8) AND NOT (push_bit (i mod 8) 1)]) j \<longleftrightarrow> has_bit data j \<and> j \<noteq> i"
proof -
  have eq: "j = i \<longleftrightarrow> j div 8 = i div 8 \<and> j mod 8 = i mod 8" for j by (metis div_mult_mod_eq)
  have lt: "j mod 8 < 8" for j :: nat by simp
  show "has_bit (data[i div 8 := data ! (i div 8) OR push_bit (i mod 8) 1]) j \<longleftrightarrow> has_bit data j \<or> j = i"
    using assms lt [of i] lt [of j]
    by (cases "j div 8 = i div 8") (auto simp: has_bit_def eq bit_simps nth_list_update)
  show "has_bit (data[i div 8 := data ! (i div 8) AND NOT (push_bit (i mod 8) 1)]) j \<longleftrightarrow> has_bit data j \<and> j \<noteq> i"
    using assms lt [of i] lt [of j]
    by (cases "j div 8 = i div 8") (auto simp: has_bit_def eq bit_simps nth_list_update)
qed

lemma unat_byte_size:
  assumes "sz \<noteq> 0"
  shows "unat (byte_size sz) = Suc ((unat sz - 1) div 8)"
proof -
  have "unat ((sz - 1) div 8) = (unat sz - 1) div 8" using assms by (simp add: unat_div unat_minus_one)
  moreover have "unat sz < 2 ^ LENGTH(64)" by (rule unsigned_less)
  ultimately show ?thesis unfolding byte_size_def by (simp add: unat_word_ariths)
qed

lemma has_bit_div: "has_bit data (8 * k + b) \<longleftrightarrow> k < length data \<and> bit (data ! k) b" if "b < 8"
  using that by (simp add: has_bit_def)

lemma full_byte_bits: "k < length data \<Longrightarrow> data ! k = 0xFF \<longleftrightarrow> (\<forall>b < 8. has_bit data (8 * k + b))"
  unfolding full_byte by (auto simp: has_bit_div)

section \<open>The search loops\<close>

lemma skip_full_stops:
  assumes "k \<le> j" "j < length data" "data ! j \<noteq> 0xFF" "\<forall>m. k \<le> m \<longrightarrow> m < j \<longrightarrow> data ! m = 0xFF" "j \<le> lim"
  shows "skip_full data lim k = Inr j"
  using assms
proof (induction "j - k" arbitrary: k)
  case 0
  then show ?case by (subst skip_full.simps) simp
next
  case (Suc d)
  then have "data ! k = 0xFF" "k < j" by auto
  moreover have "skip_full data lim (k + 1) = Inr j" using Suc by (intro Suc(1)) auto
  ultimately show ?case using Suc.prems by (subst skip_full.simps) simp
qed

lemma skip_full_overruns:
  assumes "\<forall>m. k \<le> m \<longrightarrow> m < length data \<longrightarrow> data ! m = 0xFF"
  shows "skip_full data (length data) k = Inl Out_Of_Bounds"
  using assms
proof (induction "length data - k" arbitrary: k)
  case 0
  then show ?case by (subst skip_full.simps) simp
next
  case (Suc d)
  then have "skip_full data (length data) (k + 1) = Inl Out_Of_Bounds" by (intro Suc(1)) auto
  then show ?case using Suc by (subst skip_full.simps) simp
qed

lemma reserve_bit_stops:
  assumes "b \<le> c" "c < lim" "\<not> bit f c" "\<forall>m. b \<le> m \<longrightarrow> m < c \<longrightarrow> bit f m"
  shows "reserve_bit f lim b = Some c"
  using assms
proof (induction "c - b" arbitrary: b)
  case 0
  then show ?case by (subst reserve_bit.simps) (simp add: low_bit)
next
  case (Suc d)
  then have "reserve_bit f lim (b + 1) = Some c" by (intro Suc(1)) auto
  then show ?case using Suc by (subst reserve_bit.simps) (auto simp: low_bit)
qed

lemma reserve_bit_none:
  assumes "\<forall>m. b \<le> m \<longrightarrow> m < lim \<longrightarrow> bit f m"
  shows "reserve_bit f lim b = None"
  using assms
proof (induction "lim - b" arbitrary: b)
  case 0
  then show ?case by (subst reserve_bit.simps) simp
next
  case (Suc d)
  then have "reserve_bit f lim (b + 1) = None" by (intro Suc(1)) auto
  then show ?case using Suc by (subst reserve_bit.simps) (auto simp: low_bit)
qed

section \<open>The operations on the set of bits\<close>

lemma wf_length: "bitmap_wf bmp \<Longrightarrow> length (bmp_data bmp) = Suc ((capacity bmp - 1) div 8)"
  by (simp add: bitmap_wf_def unat_byte_size capacity_def)

lemma wf_lim: "bitmap_wf bmp \<Longrightarrow> unat (byte_size (bmp_size bmp)) = length (bmp_data bmp)"
  by (simp add: bitmap_wf_def)

lemma wf_pos: "bitmap_wf bmp \<Longrightarrow> 0 < capacity bmp"
  by (simp add: bitmap_wf_def capacity_def unat_gt_0)

lemma wf_bit_lim:
  "bitmap_wf bmp \<Longrightarrow> unat ((bmp_size bmp - 1) mod 8) = (capacity bmp - 1) mod 8"
  by (simp add: bitmap_wf_def capacity_def unat_mod unat_minus_one)

lemma wf_index: "bitmap_wf bmp \<Longrightarrow> i < capacity bmp \<Longrightarrow> i div 8 < length (bmp_data bmp)"
  by (simp add: wf_length less_Suc_eq_le div_le_mono)

lemma bitmap_create_wf:
  "sz \<noteq> 0 \<Longrightarrow> \<exists>bmp. bitmap_create True True sz = Some bmp \<and> bitmap_wf bmp \<and> bits bmp = {} \<and> capacity bmp = unat sz"
  by (auto simp: bitmap_create_def bitmap_wf_def bits_def has_bit_def capacity_def)

lemma bitmap_with_bit:
  assumes "bitmap_wf bmp" "i < capacity bmp"
  defines "bmp' \<equiv> bmp\<lparr>bmp_data := (bmp_data bmp)[i div 8 := bmp_data bmp ! (i div 8) OR push_bit (i mod 8) 1]\<rparr>"
  shows "bits bmp' = insert i (bits bmp)" "bitmap_wf bmp'" "capacity bmp' = capacity bmp"
proof -
  show b: "bits bmp' = insert i (bits bmp)"
    using has_bit_upd(1) [OF wf_index [OF assms(1,2)]] by (auto simp: bits_def bmp'_def)
  show c: "capacity bmp' = capacity bmp" by (simp add: capacity_def bmp'_def)
  show "bitmap_wf bmp'" using assms(1,2) unfolding bitmap_wf_def b c by (auto simp: bmp'_def)
qed

lemma bitmap_without_bit:
  assumes "bitmap_wf bmp" "i < capacity bmp"
  defines "bmp' \<equiv> bmp\<lparr>bmp_data := (bmp_data bmp)[i div 8 := bmp_data bmp ! (i div 8) AND NOT (push_bit (i mod 8) 1)]\<rparr>"
  shows "bits bmp' = bits bmp - {i}" "bitmap_wf bmp'" "capacity bmp' = capacity bmp"
proof -
  show b: "bits bmp' = bits bmp - {i}"
    using has_bit_upd(2) [OF wf_index [OF assms(1,2)]] by (auto simp: bits_def bmp'_def)
  show c: "capacity bmp' = capacity bmp" by (simp add: capacity_def bmp'_def)
  show "bitmap_wf bmp'" using assms(1,2) unfolding bitmap_wf_def b c by (auto simp: bmp'_def)
qed

lemma bitmap_reserve_free:
  assumes wf: "bitmap_wf bmp" and i: "i < capacity bmp" "i \<notin> bits bmp" "\<forall>j < i. j \<in> bits bmp"
  shows "bitmap_reserve (Some bmp) = Inr (of_nat i,
     Some (bmp\<lparr>bmp_data := (bmp_data bmp)[i div 8 := bmp_data bmp ! (i div 8) OR push_bit (i mod 8) 1]\<rparr>))"
proof -
  let ?d = "bmp_data bmp" and ?k = "i div 8"
  have k: "?k < length ?d" using wf_index [OF wf i(1)] .
  have fullb: "?d ! m = 0xFF" if "m < ?k" for m
  proof -
    have "m < length ?d" using that k by simp
    moreover have "8 * m + b < i" if "b < 8" for b using that \<open>m < ?k\<close> by (simp add: less_eq_div_iff_mult_less_eq flip: Suc_le_eq)
    ultimately show ?thesis using i(3) by (simp add: full_byte_bits bits_def)
  qed
  have nb: "\<not> bit (?d ! ?k) (i mod 8)" using i(2) k by (simp add: bits_def has_bit_def)
  have m8: "i mod 8 < 8" by simp
  have "?d ! ?k \<noteq> 0xFF" using nb m8 unfolding full_byte by blast
  then have s: "skip_full ?d (length ?d) 0 = Inr ?k" using k fullb by (intro skip_full_stops) auto
  have low: "bit (?d ! ?k) m" if "m < i mod 8" for m
  proof -
    have "8 * ?k + m < i" using that by (metis add.commute div_mult_mod_eq mult.commute nat_add_left_cancel_less)
    moreover have "m < 8" using that by (metis less_trans mod_less_divisor zero_less_numeral)
    ultimately have "has_bit ?d (8 * ?k + m)" "m < 8" using i(3) by (auto simp: bits_def)
    then show ?thesis by (simp add: has_bit_div)
  qed
  have last: "i mod 8 < (capacity bmp - 1) mod 8 + 1" if "?k = length ?d - 1"
  proof -
    have "?k = (capacity bmp - 1) div 8" using that by (simp add: wf_length [OF wf])
    moreover have "i \<le> capacity bmp - 1" using i(1) by simp
    ultimately show ?thesis
      using mult_div_mod_eq [of 8 i] mult_div_mod_eq [of 8 "capacity bmp - 1"] by linarith
  qed
  define bl where "bl = (if ?k = length ?d - 1 then unat ((bmp_size bmp - 1) mod 8) + 1 else if ?k = length ?d then 0 else 8)"
  have "i mod 8 < bl" using last k by (auto simp: bl_def wf_bit_lim [OF wf])
  then have "reserve_bit (?d ! ?k) bl 0 = Some (i mod 8)" using nb low by (intro reserve_bit_stops) auto
  then show ?thesis using s by (simp add: bitmap_reserve_def wf_lim [OF wf] bl_def Let_def)
qed

text \<open>
  A full bitmap: when the size is a multiple of eight the search runs past the last byte, otherwise
  the unused bits of the last byte stop it and the call reports failure.
\<close>

lemma blocks_aligned: "0 < (c :: nat) \<Longrightarrow> c mod 8 = 0 \<Longrightarrow> 8 * Suc ((c - 1) div 8) = c"
  by presburger

lemma blocks_unaligned: "(c :: nat) mod 8 \<noteq> 0 \<Longrightarrow> (c - 1) div 8 = c div 8 \<and> (c - 1) mod 8 + 1 = c mod 8"
proof -
  assume b: "c mod 8 \<noteq> 0"
  have "c - 1 = 8 * (c div 8) + (c mod 8 - 1)" using b by (metis Nat.diff_add_assoc Suc_leI add.commute bot_nat_0.not_eq_extremum div_mult_mod_eq mult.commute One_nat_def)
  moreover have "c mod 8 - 1 < 8" by simp
  ultimately have "(c - 1) div 8 = c div 8" "(c - 1) mod 8 = c mod 8 - 1"
    by (simp_all only: div_mult_self4 mod_mult_self4 div_less mod_less)
  then show ?thesis using b by simp
qed

lemma bitmap_reserve_full_aligned:
  assumes wf: "bitmap_wf bmp" and f: "bits bmp = {..<capacity bmp}" and a: "capacity bmp mod 8 = 0"
  shows "bitmap_reserve (Some bmp) = Inl Out_Of_Bounds"
proof -
  let ?d = "bmp_data bmp"
  have len: "8 * length ?d = capacity bmp" using wf_length [OF wf] blocks_aligned [OF wf_pos [OF wf] a] by simp
  have "?d ! m = 0xFF" if "m < length ?d" for m
  proof -
    have "8 * m + b < capacity bmp" if "b < 8" for b using that \<open>m < length ?d\<close> len by linarith
    then show ?thesis using f that by (simp add: full_byte_bits bits_def set_eq_iff)
  qed
  then have "skip_full ?d (length ?d) 0 = Inl Out_Of_Bounds" by (intro skip_full_overruns) simp
  then show ?thesis by (simp add: bitmap_reserve_def wf_lim [OF wf])
qed

lemma bitmap_reserve_full_unaligned:
  assumes wf: "bitmap_wf bmp" and f: "bits bmp = {..<capacity bmp}" and a: "capacity bmp mod 8 \<noteq> 0"
  shows "bitmap_reserve (Some bmp) = Inr (-1, Some bmp)"
proof -
  let ?d = "bmp_data bmp" and ?k = "capacity bmp div 8" and ?b = "capacity bmp mod 8"
  have pos: "0 < capacity bmp" using wf_pos [OF wf] .
  have cap: "capacity bmp = 8 * ?k + ?b" by simp
  have len: "length ?d = Suc ?k" using wf_length [OF wf] blocks_unaligned [OF a] by simp
  have bl: "(capacity bmp - 1) mod 8 + 1 = ?b" using blocks_unaligned [OF a] by simp
  have hb: "has_bit ?d i \<longleftrightarrow> i < capacity bmp" for i using f by (auto simp: bits_def)
  have fullb: "?d ! m = 0xFF" if "m < ?k" for m
  proof -
    have "8 * m + b < capacity bmp" if "b < 8" for b using that \<open>m < ?k\<close> cap by linarith
    then show ?thesis using that len by (simp add: full_byte_bits hb)
  qed
  have bitk: "bit (?d ! ?k) b \<longleftrightarrow> b < ?b" if "b < 8" for b
  proof -
    have "8 * ?k + b < capacity bmp \<longleftrightarrow> b < ?b" using cap by linarith
    then show ?thesis using hb [of "8 * ?k + b"] that len by (simp add: has_bit_div)
  qed
  have "?b < 8" by simp
  then have "?d ! ?k \<noteq> 0xFF" using bitk [of ?b] unfolding full_byte by blast
  then have s: "skip_full ?d (length ?d) 0 = Inr ?k" using len fullb by (intro skip_full_stops) auto
  have "reserve_bit (?d ! ?k) ?b 0 = None" using bitk by (intro reserve_bit_none) auto
  then show ?thesis using s len by (simp add: bitmap_reserve_def wf_lim [OF wf] wf_bit_lim [OF wf] bl [simplified] Let_def)
qed

lemma val_index:
  "unat ((val :: u64) div 8) = unat val div 8" "unat (val mod 8) = unat val mod 8"
  by (simp_all add: unat_div unat_mod)

lemma in_bits: "bitmap_wf bmp \<Longrightarrow> i < capacity bmp \<Longrightarrow> bit (bmp_data bmp ! (i div 8)) (i mod 8) \<longleftrightarrow> i \<in> bits bmp"
  using wf_index [of bmp i] by (simp add: bits_def has_bit_def)

lemma in_range: "unat val < capacity bmp \<Longrightarrow> \<not> bmp_size bmp < val"
  by (simp add: capacity_def word_less_nat_alt)

lemma bitmap_set_in:
  assumes "bitmap_wf bmp" "unat val < capacity bmp"
  shows "\<exists>bmp'. bitmap_set (Some bmp) val = Inr (if unat val \<in> bits bmp then -1 else 0, Some bmp') \<and>
           bits bmp' = insert (unat val) (bits bmp) \<and> bitmap_wf bmp' \<and> capacity bmp' = capacity bmp"
proof (cases "unat val \<in> bits bmp")
  case True
  then have "bitmap_set (Some bmp) val = Inr (-1, Some bmp)"
    using assms wf_index [OF assms] in_range [OF assms(2)] by (simp add: bitmap_set_def low_bit val_index in_bits Let_def)
  then show ?thesis using True assms by (simp add: insert_absorb)
next
  case False
  let ?i = "unat val"
  have "bitmap_set (Some bmp) val = Inr (0, Some (bmp\<lparr>bmp_data := (bmp_data bmp)[?i div 8 := bmp_data bmp ! (?i div 8) OR push_bit (?i mod 8) 1]\<rparr>))"
    using False assms wf_index [OF assms] in_range [OF assms(2)] by (simp add: bitmap_set_def low_bit val_index in_bits Let_def)
  then show ?thesis using False bitmap_with_bit [OF assms] by (simp only: if_False) blast
qed

lemma bitmap_release_in:
  assumes "bitmap_wf bmp" "unat val < capacity bmp"
  shows "\<exists>bmp'. bitmap_release (Some bmp) val = Inr (if unat val \<in> bits bmp then 0 else -1, Some bmp') \<and>
           bits bmp' = bits bmp - {unat val} \<and> bitmap_wf bmp' \<and> capacity bmp' = capacity bmp"
proof (cases "unat val \<in> bits bmp")
  case False
  then have "bitmap_release (Some bmp) val = Inr (-1, Some bmp)"
    using assms wf_index [OF assms] in_range [OF assms(2)] by (simp add: bitmap_release_def low_bit val_index in_bits Let_def)
  then show ?thesis using False assms by simp
next
  case True
  let ?i = "unat val"
  have "bitmap_release (Some bmp) val = Inr (0, Some (bmp\<lparr>bmp_data := (bmp_data bmp)[?i div 8 := bmp_data bmp ! (?i div 8) AND NOT (push_bit (?i mod 8) 1)]\<rparr>))"
    using True assms wf_index [OF assms] in_range [OF assms(2)] by (simp add: bitmap_release_def low_bit val_index in_bits Let_def)
  then show ?thesis using True bitmap_without_bit [OF assms] by (simp only: if_True) blast
qed

lemma bitmap_is_set_in:
  assumes "bitmap_wf bmp" "unat val < capacity bmp"
  shows "bitmap_is_set (Some bmp) val = Inr (if unat val \<in> bits bmp then 1 else 0)"
  using assms wf_index [OF assms] in_range [OF assms(2)]
  by (simp add: bitmap_is_set_def low_bit val_index in_bits Let_def)

lemma bitmap_beyond:
  assumes "bmp_size bmp < val"
  shows "bitmap_set (Some bmp) val = Inr (-1, Some bmp)" "bitmap_release (Some bmp) val = Inr (-1, Some bmp)"
    "bitmap_is_set (Some bmp) val = Inr (-1)"
  using assms by (simp_all add: bitmap_set_def bitmap_release_def bitmap_is_set_def)

section \<open>A pool of handles\<close>

text \<open>
  The contract of a handle allocator, and what follows for its client: handles that are out at the
  same time differ, and a handle that is given back can be taken again.
\<close>

locale handle_pool =
  fixes inv :: "'s \<Rightarrow> bool"
    and used :: "'s \<Rightarrow> nat set"
    and cap :: "'s \<Rightarrow> nat"
    and take_one :: "'s \<Rightarrow> (nat \<times> 's) res"
    and give :: "'s \<Rightarrow> nat \<Rightarrow> 's res"
  assumes take_law: "inv s \<Longrightarrow> i < cap s \<Longrightarrow> i \<notin> used s \<Longrightarrow> \<forall>j < i. j \<in> used s \<Longrightarrow>
      \<exists>s'. take_one s = Inr (i, s') \<and> inv s' \<and> used s' = insert i (used s) \<and> cap s' = cap s"
    and give_law: "inv s \<Longrightarrow> i \<in> used s \<Longrightarrow>
      \<exists>s'. give s i = Inr s' \<and> inv s' \<and> used s' = used s - {i} \<and> cap s' = cap s"
    and used_law: "inv s \<Longrightarrow> used s \<subseteq> {..<cap s}"
begin

lemma take_least:
  assumes "inv s" "used s \<noteq> {..<cap s}"
  shows "\<exists>i s'. take_one s = Inr (i, s') \<and> i < cap s \<and> i \<notin> used s \<and> (\<forall>j < i. j \<in> used s) \<and>
           inv s' \<and> used s' = insert i (used s) \<and> cap s' = cap s"
proof -
  define i where "i = (LEAST i. i \<notin> used s)"
  obtain k where k: "k < cap s" "k \<notin> used s" using used_law [OF assms(1)] assms(2) by auto
  then have "i \<notin> used s" "i \<le> k" "\<forall>j < i. j \<in> used s"
    unfolding i_def using LeastI [of "\<lambda>i. i \<notin> used s" k] by (auto intro: Least_le dest: not_less_Least)
  then show ?thesis using take_law [of s i] assms(1) k(1) by (metis le_less_trans)
qed

lemma takes_distinct:
  assumes "inv s" "card (used s) + n \<le> cap s"
  shows "\<exists>is s'. repeatR take_one n s = Inr (is, s') \<and> length is = n \<and> distinct is \<and> set is \<inter> used s = {} \<and>
           inv s' \<and> used s' = set is \<union> used s \<and> cap s' = cap s"
  using assms
proof (induction n arbitrary: s)
  case (Suc n)
  have fin: "finite (used s)" using used_law [OF Suc.prems(1)] finite_subset by blast
  have "used s \<noteq> {..<cap s}"
  proof
    assume "used s = {..<cap s}"
    then have "card (used s) = card {..<cap s}" by (rule arg_cong)
    then show False using Suc.prems(2) by simp
  qed
  from take_least [OF Suc.prems(1) this] obtain i s1 where
    s1: "take_one s = Inr (i, s1)" "i \<notin> used s" "inv s1" "used s1 = insert i (used s)" "cap s1 = cap s" by blast
  have "card (used s1) + n \<le> cap s1" using Suc.prems(2) s1 fin by simp
  from Suc.IH [OF s1(3) this] obtain "is" s' where "repeatR take_one n s1 = Inr (is, s')"
    "length is = n" "distinct is" "set is \<inter> used s1 = {}" "inv s'" "used s' = set is \<union> used s1" "cap s' = cap s1" by blast
  then show ?case using s1 by auto
qed simp

lemma give_take:
  assumes "inv s" "i \<in> used s" "\<forall>j < i. j \<in> used s"
  shows "\<exists>s'. bindR (give s i) take_one = Inr (i, s') \<and> used s' = used s"
proof -
  obtain s1 where "give s i = Inr s1" "inv s1" "used s1 = used s - {i}" "cap s1 = cap s"
    using give_law [OF assms(1,2)] by blast
  moreover from this have "i < cap s1" "\<forall>j < i. j \<in> used s1" "insert i (used s1) = used s"
    using assms used_law [OF assms(1)] by auto
  ultimately show ?thesis using take_law [of s1 i] by auto
qed

end

definition bitmap_take :: "bitmap_t \<Rightarrow> (nat \<times> bitmap_t) res" where
  "bitmap_take bmp = bindR (bitmap_reserve (Some bmp)) (\<lambda>(v, p).
     case p of None \<Rightarrow> Inl Bad_Pointer | Some bmp \<Rightarrow> Inr (unat v, bmp))"

definition bitmap_give :: "bitmap_t \<Rightarrow> nat \<Rightarrow> bitmap_t res" where
  "bitmap_give bmp i = bindR (bitmap_release (Some bmp) (of_nat i)) (\<lambda>(v, p).
     case p of None \<Rightarrow> Inl Bad_Pointer | Some bmp \<Rightarrow> Inr bmp)"

lemma unat_index: "i < capacity bmp \<Longrightarrow> unat (of_nat i :: u64) = i"
proof -
  assume "i < capacity bmp"
  moreover have "unat (bmp_size bmp) < 2 ^ LENGTH(64)" by (rule unsigned_less)
  ultimately show ?thesis by (simp add: capacity_def unat_of_nat)
qed

interpretation fhs: handle_pool bitmap_wf bits capacity bitmap_take bitmap_give
proof unfold_locales
  fix bmp i
  assume a: "bitmap_wf bmp" "i < capacity bmp" "i \<notin> bits bmp" "\<forall>j < i. j \<in> bits bmp"
  have "bitmap_take bmp = Inr (i, bmp\<lparr>bmp_data := (bmp_data bmp)[i div 8 := bmp_data bmp ! (i div 8) OR push_bit (i mod 8) 1]\<rparr>)"
    unfolding bitmap_take_def bitmap_reserve_free [OF a] by (simp add: unat_index [OF a(2)])
  then show "\<exists>s'. bitmap_take bmp = Inr (i, s') \<and> bitmap_wf s' \<and> bits s' = insert i (bits bmp) \<and> capacity s' = capacity bmp"
    using bitmap_with_bit [OF a(1,2)] by blast
next
  fix bmp i
  assume wf: "bitmap_wf bmp" and i: "i \<in> bits bmp"
  then have "i < capacity bmp" by (auto simp: bitmap_wf_def)
  then show "\<exists>s'. bitmap_give bmp i = Inr s' \<and> bitmap_wf s' \<and> bits s' = bits bmp - {i} \<and> capacity s' = capacity bmp"
    using bitmap_release_in [OF wf, of "of_nat i"] by (auto simp: bitmap_give_def unat_index)
qed (simp add: bitmap_wf_def)

section \<open>Properties\<close>

text \<open>
  C24: On a well-formed bitmap with a free bit, \<open>bitmap_reserve\<close> returns the least free index, sets exactly
  that bit and keeps the bitmap well formed.
\<close>

theorem bitmap_reserve_least:
  assumes "bitmap_wf bmp" "bits bmp \<noteq> {..<capacity bmp}"
  shows "\<exists>v bmp'. bitmap_reserve (Some bmp) = Inr (v, Some bmp') \<and> unat v < capacity bmp \<and>
           unat v \<notin> bits bmp \<and> (\<forall>j < unat v. j \<in> bits bmp) \<and>
           bits bmp' = insert (unat v) (bits bmp) \<and> bitmap_wf bmp' \<and> capacity bmp' = capacity bmp"
  using fhs.take_least [OF assms] by (auto simp: bitmap_take_def bindR_eq_Inr split: option.splits)

theorem bitmap_reserve_least_witness:
  "bitmap_wf \<lparr>bmp_size = 12, bmp_data = [0xFF, 0]\<rparr> \<and>
   (\<exists>v bmp'. bitmap_reserve (Some \<lparr>bmp_size = 12, bmp_data = [0xFF, 0]\<rparr>) = Inr (v, Some bmp') \<and>
      unat v \<notin> bits \<lparr>bmp_size = 12, bmp_data = [0xFF, 0]\<rparr>)"
proof -
  let ?b = "\<lparr>bmp_size = 12, bmp_data = [0xFF, 0]\<rparr>"
  have "i \<in> bits ?b \<Longrightarrow> i < 12" for i
    using mult_div_mod_eq [of 8 i] by (cases "i div 8") (auto simp: bits_def has_bit_def less_Suc_eq)
  then have wf: "bitmap_wf ?b" by (auto simp: bitmap_wf_def byte_size_def capacity_def)
  have "9 \<notin> bits ?b" by (simp add: bits_def has_bit_def)
  moreover have "9 \<in> {..<capacity ?b}" by (simp add: capacity_def)
  ultimately have "bits ?b \<noteq> {..<capacity ?b}" by metis
  then show ?thesis using bitmap_reserve_least [OF wf] wf by blast
qed

text \<open>
  Handles that are out at the same time differ: any number of reservations up to the size of a fresh
  bitmap succeed and return pairwise different indices.
\<close>

theorem bitmap_reserves_distinct:
  assumes "sz \<noteq> 0" "n \<le> unat sz"
  shows "\<exists>bmp is bmp'. bitmap_create True True sz = Some bmp \<and> repeatR bitmap_take n bmp = Inr (is, bmp') \<and>
           length is = n \<and> distinct is \<and> bits bmp' = set is \<and> bitmap_wf bmp'"
proof -
  obtain bmp where "bitmap_create True True sz = Some bmp" "bitmap_wf bmp" "bits bmp = {}" "capacity bmp = unat sz"
    using bitmap_create_wf [OF assms(1)] by blast
  then show ?thesis using fhs.takes_distinct [of bmp n] assms by auto
qed

theorem bitmap_reserves_distinct_witness:
  "\<exists>bmp is bmp'. bitmap_create True True 1024 = Some bmp \<and> repeatR bitmap_take 1024 bmp = Inr (is, bmp') \<and>
     length is = 1024 \<and> distinct is \<and> bits bmp' = set is \<and> bitmap_wf bmp'"
  by (rule bitmap_reserves_distinct) simp_all

text \<open>
  A released handle can be reserved again: when all lower handles are in use, releasing a handle and
  reserving gives the same handle back and restores the set of handles in use.
\<close>

theorem bitmap_release_reserve:
  assumes "bitmap_wf bmp" "i \<in> bits bmp" "\<forall>j < i. j \<in> bits bmp"
  shows "\<exists>bmp'. bindR (bitmap_give bmp i) bitmap_take = Inr (i, bmp') \<and> bits bmp' = bits bmp"
  by (rule fhs.give_take [OF assms])

theorem bitmap_release_reserve_witness:
  "bitmap_wf \<lparr>bmp_size = 8, bmp_data = [0xFF]\<rparr> \<and>
   (\<exists>bmp'. bindR (bitmap_give \<lparr>bmp_size = 8, bmp_data = [0xFF]\<rparr> 3) bitmap_take = Inr (3, bmp') \<and>
      bits bmp' = bits \<lparr>bmp_size = 8, bmp_data = [0xFF]\<rparr>)"
proof -
  let ?b = "\<lparr>bmp_size = 8, bmp_data = [0xFF]\<rparr>"
  have "bits ?b = {..<8}"
    using full_byte [of "0xFF"] by (auto simp: bits_def has_bit_def)
  then have "bitmap_wf ?b" "3 \<in> bits ?b" "\<forall>j < 3. j \<in> bits ?b"
    by (simp_all add: bitmap_wf_def byte_size_def capacity_def)
  then show ?thesis using bitmap_release_reserve [of ?b 3] by blast
qed

text \<open>
  C37: When every bit of a bitmap whose size is a multiple of eight is set, as for the table of file
  handles, the search of \<open>bitmap_reserve\<close> reads the byte after the allocation.
\<close>

theorem bitmap_reserve_overrun:
  assumes "bitmap_wf bmp" "bits bmp = {..<capacity bmp}"
  shows "bitmap_reserve (Some bmp) =
           (if capacity bmp mod 8 = 0 then Inl Out_Of_Bounds else Inr (-1, Some bmp))"
  using bitmap_reserve_full_aligned [OF assms] bitmap_reserve_full_unaligned [OF assms] by simp

theorem bitmap_reserve_overrun_witness:
  "bitmap_reserve (Some \<lparr>bmp_size = 8, bmp_data = [0xFF]\<rparr>) = Inl Out_Of_Bounds"
proof -
  let ?b = "\<lparr>bmp_size = 8, bmp_data = [0xFF]\<rparr>"
  have b: "bits ?b = {..<capacity ?b}" using full_byte [of "0xFF"] by (auto simp: bits_def has_bit_def capacity_def)
  then have "bitmap_wf ?b" by (simp add: bitmap_wf_def byte_size_def capacity_def)
  from bitmap_reserve_overrun [OF this b] show ?thesis by (simp add: capacity_def)
qed

text \<open>
  The bound of \<open>bitmap_set\<close>, \<open>bitmap_release\<close> and \<open>bitmap_is_set\<close> lets the index equal to the size
  through: when the size is a multiple of eight they access the byte after the allocation.
\<close>

theorem bitmap_index_size_overrun:
  assumes "bitmap_wf bmp" "capacity bmp mod 8 = 0"
  shows "bitmap_set (Some bmp) (bmp_size bmp) = Inl Out_Of_Bounds \<and>
         bitmap_release (Some bmp) (bmp_size bmp) = Inl Out_Of_Bounds \<and>
         bitmap_is_set (Some bmp) (bmp_size bmp) = Inl Out_Of_Bounds"
proof -
  have "length (bmp_data bmp) = unat (bmp_size bmp) div 8"
    using wf_length [OF assms(1)] blocks_aligned [OF wf_pos [OF assms(1)] assms(2)] by (simp add: capacity_def)
  then show ?thesis
    by (simp add: bitmap_set_def bitmap_release_def bitmap_is_set_def val_index Let_def)
qed

theorem bitmap_index_size_overrun_witness:
  "bitmap_is_set (Some \<lparr>bmp_size = 8, bmp_data = [0xFF]\<rparr>) 8 = Inl Out_Of_Bounds"
proof -
  let ?b = "\<lparr>bmp_size = 8, bmp_data = [0xFF]\<rparr>"
  have "bits ?b = {..<capacity ?b}" using full_byte [of "0xFF"] by (auto simp: bits_def has_bit_def capacity_def)
  then have "bitmap_wf ?b" by (simp add: bitmap_wf_def byte_size_def capacity_def)
  from bitmap_index_size_overrun [OF this] show ?thesis by (simp add: capacity_def)
qed

end
