(* ===== verification/Bitmap_File.thy ===== *)
theory Bitmap_File
  imports Posix_File Bitmap
begin

text \<open>
  Bitmaps kept in a local file, \<^verbatim>\<open>src/bitmap_file.c\<close>: which bytes of a cached file are valid. Within a byte the
  first bit is the most significant one. The file descriptor is the file and its position; offsets
  are unbounded, a negative one makes \<open>lseek\<close> fail and a write past the quota is short.
\<close>

section \<open>Operations\<close>

definition BMP_CHUNKSIZE :: nat where
  "BMP_CHUNKSIZE = 4096"

definition leftmask :: "nat \<Rightarrow> u8" where
  "leftmask leftbits = drop_bit leftbits 0xFF"

definition rightmask :: "nat \<Rightarrow> u8" where
  "rightmask rightbits = push_bit (7 - rightbits) 0xFF"

text \<open>The whole chunks of ones; \<open>None\<close> is a short write, otherwise the bytes left, the position and the file.\<close>

function write_ones :: "nat \<Rightarrow> nat \<Rightarrow> nat \<Rightarrow> nat \<Rightarrow> pfile \<Rightarrow> (nat \<times> nat \<times> pfile) option" where
  "write_ones blk quota bytesleft pos f =
     (if BMP_CHUNKSIZE < bytesleft
      then let (rv, f) = pwrite blk quota f pos (replicate BMP_CHUNKSIZE 0xFF) in
           if rv \<noteq> BMP_CHUNKSIZE then None
           else write_ones blk quota (bytesleft - BMP_CHUNKSIZE) (pos + BMP_CHUNKSIZE) f
      else Some (bytesleft, pos, f))"
  by pat_completeness auto
termination
  by (relation "measure (\<lambda>(blk, quota, n, pos, f). n)") (auto simp: BMP_CHUNKSIZE_def)

declare write_ones.simps [simp del]

text \<open>Reading one byte that counts as zero past the end, or-ing a mask into it and writing it back.\<close>

definition or_byte :: "nat \<Rightarrow> nat \<Rightarrow> pfile \<Rightarrow> nat \<Rightarrow> u8 \<Rightarrow> bool \<times> pfile" where
  "or_byte blk quota f pos msk =
     (let c = (case pread f pos 1 of [] \<Rightarrow> 0 | b # _ \<Rightarrow> b);
          (rv, f) = pwrite blk quota f pos [c OR msk]
      in (rv = 1, f))"

definition bitmap_file_set_range :: "nat \<Rightarrow> nat \<Rightarrow> pfile \<Rightarrow> int \<Rightarrow> int \<Rightarrow> bool \<times> pfile" where
  "bitmap_file_set_range blk quota f left right =
     (if right \<le> left then (False, f)
      else case pseek (left div 8) of
        None \<Rightarrow> (False, f)
      | Some leftbyte \<Rightarrow>
        let right = right - 1; rightbyte = nat (right div 8);
            lm = leftmask (nat (left mod 8)); rm = rightmask (nat (right mod 8))
        in if leftbyte = rightbyte then or_byte blk quota f leftbyte (lm AND rm)
           else let (ok, f) = or_byte blk quota f leftbyte lm in
                if \<not> ok then (False, f)
                else case write_ones blk quota (rightbyte - leftbyte) (leftbyte + 1) f of
                  None \<Rightarrow> (False, f)
                | Some (bytesleft, pos, f) \<Rightarrow>
                  let (rv, f) = pwrite blk quota f pos (replicate (bytesleft - 1) 0xFF) in
                  if rv \<noteq> bytesleft - 1 then (False, f)
                  else or_byte blk quota f (pos + rv) rm)"

text \<open>The whole chunks that must be all ones.\<close>

function check_ones :: "nat \<Rightarrow> nat \<Rightarrow> pfile \<Rightarrow> (nat \<times> nat) option" where
  "check_ones bytesleft pos f =
     (if BMP_CHUNKSIZE < bytesleft
      then let chunk = pread f pos BMP_CHUNKSIZE in
           if length chunk \<noteq> BMP_CHUNKSIZE \<or> (\<exists>b \<in> set chunk. b \<noteq> 0xFF) then None
           else check_ones (bytesleft - BMP_CHUNKSIZE) (pos + BMP_CHUNKSIZE) f
      else Some (bytesleft, pos))"
  by pat_completeness auto
termination
  by (relation "measure (\<lambda>(n, pos, f). n)") (auto simp: BMP_CHUNKSIZE_def)

declare check_ones.simps [simp del]

definition bitmap_file_isset :: "pfile \<Rightarrow> int \<Rightarrow> int \<Rightarrow> bool" where
  "bitmap_file_isset f left right =
     (if right \<le> left then False
      else case pseek (left div 8) of
        None \<Rightarrow> False
      | Some leftbyte \<Rightarrow>
        let right = right - 1; rightbyte = nat (right div 8);
            lm = leftmask (nat (left mod 8)); rm = rightmask (nat (right mod 8))
        in case pread f leftbyte 1 of
             [] \<Rightarrow> False
           | c # _ \<Rightarrow>
             if leftbyte = rightbyte then c AND (lm AND rm) = lm AND rm
             else if c AND lm \<noteq> lm then False
             else case check_ones (rightbyte - leftbyte) (leftbyte + 1) f of
               None \<Rightarrow> False
             | Some (bytesleft, pos) \<Rightarrow>
               let chunk = pread f pos bytesleft in
               if length chunk \<noteq> bytesleft then False
               else if \<exists>b \<in> set (take (bytesleft - 1) chunk). b \<noteq> 0xFF then False
               else (chunk ! (bytesleft - 1)) AND rm = rm)"

text \<open>
  \<open>bitmap_file_get_range\<close> calls \<open>lseek\<close> with the offset 0 and the byte it wants as the third argument, converted to
  a 32-bit integer: 0 to 4 stand for the start, the position, the end, the next data and the next hole, everything else is an
  error. On an error the position stays.
\<close>

definition lseek_zero :: "nat \<Rightarrow> pfile \<Rightarrow> nat \<Rightarrow> int \<Rightarrow> nat" where
  "lseek_zero blk f pos whence =
     (if whence = 0 then 0
      else if whence = 1 then pos
      else if whence = 2 then length (fdata f)
      else if whence = 3 then (case find (\<lambda>i. falloc f (i div blk)) [0..<length (fdata f)] of None \<Rightarrow> pos | Some i \<Rightarrow> i)
      else if whence = 4 then (case pseek_hole blk f 0 of None \<Rightarrow> pos | Some i \<Rightarrow> i)
      else pos)"

text \<open>The remainder has the sign of the dividend.\<close>

definition rem8 :: "int \<Rightarrow> int" where
  "rem8 x = (if x < 0 then - ((- x) mod 8) else x mod 8)"

definition get_range_bit :: "bitmap_t option \<Rightarrow> int \<Rightarrow> int \<Rightarrow> bitmap_t option \<Rightarrow> int \<Rightarrow> bitmap_t option res" where
  "get_range_bit extended_bitmap extended_left left bitmap byte =
     bindR (bitmap_is_set extended_bitmap (of_int (byte - extended_left))) (\<lambda>b.
     if b \<noteq> 0 then bindR (bitmap_set bitmap (of_int (byte - left))) (\<lambda>(_, bitmap). Inr bitmap) else Inr bitmap)"

definition bitmap_file_get_range :: "bool \<Rightarrow> bool \<Rightarrow> nat \<Rightarrow> pfile \<Rightarrow> nat \<Rightarrow> int \<Rightarrow> int \<Rightarrow> bitmap_t option res" where
  "bitmap_file_get_range alloc1_ok alloc2_ok blk f pos left right =
     (let extended_left = left - rem8 left; extended_right = right + 8 - rem8 right; extended_size = extended_right - extended_left in
      if extended_size \<le> 0 then Inl Out_Of_Bounds
      else
        let whence = sint (of_int (extended_left div 8) :: u32);
            file_bitmap = pread f (lseek_zero blk f pos whence) (nat (extended_size div 8)) in
        case bitmap_create alloc1_ok True (of_int extended_size) of
          None \<Rightarrow> Inl Bad_Pointer
        | Some e \<Rightarrow>
            let extended_bitmap = Some (e\<lparr>bmp_data := file_bitmap @ drop (length file_bitmap) (bmp_data e)\<rparr>) in
            bindR (foldR (get_range_bit extended_bitmap extended_left left) [left..right - 1] (bitmap_create alloc2_ok True (of_int (right - left)))) (\<lambda>bitmap.
            bindR (bitmap_free extended_bitmap) (\<lambda>_. Inr bitmap)))"

section \<open>The bits of a file\<close>

definition fbit :: "pfile \<Rightarrow> nat \<Rightarrow> bool" where
  "fbit f i \<longleftrightarrow> bit (byte_at f (i div 8)) (7 - i mod 8)"

text \<open>The part of byte \<open>p\<close> that lies in the range from \<open>l\<close> to before \<open>r\<close>.\<close>

definition range_mask :: "nat \<Rightarrow> nat \<Rightarrow> nat \<Rightarrow> u8" where
  "range_mask l r p =
     (if p < l div 8 \<or> (r - 1) div 8 < p then 0
      else (if p = l div 8 then leftmask (l mod 8) else 0xFF) AND
           (if p = (r - 1) div 8 then rightmask ((r - 1) mod 8) else 0xFF))"

lemma bit_FF: "bit (0xFF :: u8) k \<longleftrightarrow> k < 8"
proof -
  have "(0xFF :: u8) = -1" by transfer simp
  then show ?thesis by (simp only: bit_minus_1_iff) simp
qed

lemma bit_leftmask: "bit (leftmask l) k \<longleftrightarrow> l + k < 8"
  unfolding leftmask_def by (simp only: bit_drop_bit_eq o_apply bit_FF)

lemma bit_rightmask: "r < 8 \<Longrightarrow> bit (rightmask r) k \<longleftrightarrow> 7 - r \<le> k \<and> k < 8"
  unfolding rightmask_def by (auto simp only: bit_push_bit_iff bit_FF) auto

lemma bit_range_mask:
  assumes "l < r" "j < 8"
  shows "bit (range_mask l r p) (7 - j) \<longleftrightarrow> l \<le> 8 * p + j \<and> 8 * p + j < r"
proof -
  let ?lb = "l div 8" and ?rb = "(r - 1) div 8"
  have l: "l = 8 * ?lb + l mod 8" and r: "r = 8 * ?rb + (r - 1) mod 8 + 1" using assms(1) by simp_all
  have rm: "(r - 1) mod 8 < 8" by simp
  have L: "p = ?lb \<Longrightarrow> l \<le> 8 * p + j \<longleftrightarrow> l mod 8 \<le> j" "?lb < p \<Longrightarrow> l \<le> 8 * p + j" "p < ?lb \<Longrightarrow> \<not> l \<le> 8 * p + j"
    using assms(2) l by linarith+
  have R: "p = ?rb \<Longrightarrow> 8 * p + j < r \<longleftrightarrow> j \<le> (r - 1) mod 8" "p < ?rb \<Longrightarrow> 8 * p + j < r" "?rb < p \<Longrightarrow> \<not> 8 * p + j < r"
    using assms r by linarith+
  have j: "7 - j < 8" by simp
  have ml: "bit (if p = ?lb then leftmask (l mod 8) else 0xFF) (7 - j) \<longleftrightarrow> (p = ?lb \<longrightarrow> l mod 8 \<le> j)"
    using assms(2) by (simp only: bit_leftmask bit_FF split: if_split) auto
  have mr: "bit (if p = ?rb then rightmask ((r - 1) mod 8) else 0xFF) (7 - j) \<longleftrightarrow> (p = ?rb \<longrightarrow> j \<le> (r - 1) mod 8)"
    using assms(2) rm j by (simp only: bit_rightmask [OF rm] bit_FF split: if_split) auto
  show ?thesis
  proof (cases "p < ?lb \<or> ?rb < p")
    case True
    then show ?thesis using L(3) R(3) by (auto simp: range_mask_def)
  next
    case False
    then have "bit (range_mask l r p) (7 - j) \<longleftrightarrow> (p = ?lb \<longrightarrow> l mod 8 \<le> j) \<and> (p = ?rb \<longrightarrow> j \<le> (r - 1) mod 8)"
      unfolding range_mask_def by (simp only: if_False bit_and_iff ml mr)
    then show ?thesis using L(1,2) R(1,2) False by (metis nat_neq_iff)
  qed
qed

lemma mask_bits: "(c :: u8) AND m = m \<longleftrightarrow> (\<forall>j < 8. bit m (7 - j) \<longrightarrow> bit c (7 - j))"
proof -
  have "c AND m = m \<longleftrightarrow> (\<forall>k < 8. bit m k \<longrightarrow> bit c k)" by (auto simp: bit_eq_iff bit_and_iff)
  also have "\<dots> \<longleftrightarrow> (\<forall>j < 8. bit m (7 - j) \<longrightarrow> bit c (7 - j))"
  proof safe
    fix k :: nat
    assume "\<forall>j < 8. bit m (7 - j) \<longrightarrow> bit c (7 - j)" "k < 8" "bit m k"
    moreover from this have "7 - (7 - k) = k" "7 - k < 8" by simp_all
    ultimately show "bit c k" by metis
  qed simp
  finally show ?thesis .
qed

text \<open>Both operations, stated byte by byte, are what they should be bit by bit.\<close>

lemma fbit_or_mask:
  assumes "l < r" "\<forall>p. byte_at f' p = byte_at f p OR range_mask l r p"
  shows "fbit f' i \<longleftrightarrow> fbit f i \<or> l \<le> i \<and> i < r"
  using assms bit_range_mask [OF assms(1), of "i mod 8" "i div 8"] by (simp add: fbit_def bit_or_iff)

lemma fbit_has_mask:
  assumes "l < r"
  shows "(\<forall>p. byte_at f p AND range_mask l r p = range_mask l r p) \<longleftrightarrow> (\<forall>i. l \<le> i \<longrightarrow> i < r \<longrightarrow> fbit f i)"
proof
  assume a: "\<forall>p. byte_at f p AND range_mask l r p = range_mask l r p"
  show "\<forall>i. l \<le> i \<longrightarrow> i < r \<longrightarrow> fbit f i"
  proof (intro allI impI)
    fix i assume "l \<le> i" "i < r"
    then have "bit (range_mask l r (i div 8)) (7 - i mod 8)"
      using bit_range_mask [OF assms, of "i mod 8" "i div 8"] by simp
    then show "fbit f i" using a by (metis bit_and_iff fbit_def)
  qed
next
  assume a: "\<forall>i. l \<le> i \<longrightarrow> i < r \<longrightarrow> fbit f i"
  show "\<forall>p. byte_at f p AND range_mask l r p = range_mask l r p"
    unfolding mask_bits
  proof (intro allI impI)
    fix p j :: nat assume "j < 8" "bit (range_mask l r p) (7 - j)"
    then have "fbit f (8 * p + j)" using a bit_range_mask [OF assms, of j p] by simp
    then show "bit (byte_at f p) (7 - j)" using \<open>j < 8\<close> by (simp add: fbit_def)
  qed
qed

section \<open>The loops\<close>

lemma or_byte_spec:
  assumes "pos < quota"
  shows "\<exists>f'. or_byte blk quota f pos m = (True, f') \<and>
    (\<forall>p. byte_at f' p = (if p = pos then byte_at f pos OR m else byte_at f p))"
proof -
  have c: "(case pread f pos 1 of [] \<Rightarrow> 0 | b # _ \<Rightarrow> b) = byte_at f pos"
    by (cases "pos < length (fdata f)") (simp_all add: pread_def byte_at_def take_Suc hd_drop_conv_nth)
  let ?w = "pwrite blk quota f pos [byte_at f pos OR m]"
  have q: "pos + length [byte_at f pos OR m] \<le> quota" using assms by simp
  have "or_byte blk quota f pos m = (True, snd ?w)"
    unfolding or_byte_def c using pwrite_all(1) [OF q, of blk f] by (simp add: split_def Let_def)
  moreover have "byte_at (snd ?w) p = (if p = pos then byte_at f pos OR m else byte_at f p)" for p
    unfolding byte_at_pwrite [OF q] by auto
  ultimately show ?thesis by blast
qed

lemma pwrite_ones_spec:
  assumes "pos + n \<le> quota"
  shows "\<exists>f'. pwrite blk quota f pos (replicate n 0xFF) = (n, f') \<and>
    (\<forall>p. byte_at f' p = (if pos \<le> p \<and> p < pos + n then 0xFF else byte_at f p))"
proof -
  let ?w = "pwrite blk quota f pos (replicate n 0xFF)"
  have q: "pos + length (replicate n (0xFF :: u8)) \<le> quota" using assms by simp
  have "?w = (n, snd ?w)" using pwrite_all(1) [OF q, of blk f] by (simp add: prod_eq_iff)
  moreover have "byte_at (snd ?w) p = (if pos \<le> p \<and> p < pos + n then 0xFF else byte_at f p)" for p
    unfolding byte_at_pwrite [OF q] by auto
  ultimately show ?thesis by metis
qed

lemma write_ones_spec:
  assumes "pos + n \<le> quota" "0 < n"
  shows "\<exists>n' pos' f'. write_ones blk quota n pos f = Some (n', pos', f') \<and> 0 < n' \<and> pos' + n' = pos + n \<and> pos \<le> pos' \<and>
    (\<forall>p. byte_at f' p = (if pos \<le> p \<and> p < pos' then 0xFF else byte_at f p))"
  using assms
proof (induction blk quota n pos f rule: write_ones.induct)
  case (1 blk quota n pos f)
  show ?case
  proof (cases "BMP_CHUNKSIZE < n")
    case True
    obtain f1 where f1: "pwrite blk quota f pos (replicate BMP_CHUNKSIZE 0xFF) = (BMP_CHUNKSIZE, f1)"
      "\<forall>p. byte_at f1 p = (if pos \<le> p \<and> p < pos + BMP_CHUNKSIZE then 0xFF else byte_at f p)"
      using pwrite_ones_spec [of pos BMP_CHUNKSIZE quota blk f] True "1.prems"(1) by auto
    have "pos + BMP_CHUNKSIZE + (n - BMP_CHUNKSIZE) \<le> quota" "0 < n - BMP_CHUNKSIZE" using True "1.prems" by simp_all
    from "1.IH" [OF True f1(1) [symmetric] refl _ this] obtain n' pos' f' where
      "write_ones blk quota (n - BMP_CHUNKSIZE) (pos + BMP_CHUNKSIZE) f1 = Some (n', pos', f')" "0 < n'"
      "pos' + n' = pos + n" "pos + BMP_CHUNKSIZE \<le> pos'"
      "\<forall>p. byte_at f' p = (if pos + BMP_CHUNKSIZE \<le> p \<and> p < pos' then 0xFF else byte_at f1 p)" using True by auto
    moreover from this(1) have "write_ones blk quota n pos f = Some (n', pos', f')"
      using True f1(1) by (subst write_ones.simps) simp
    ultimately show ?thesis using f1(2) by (intro exI [of _ n'] exI [of _ pos'] exI [of _ f']) auto
  next
    case False
    then have "write_ones blk quota n pos f = Some (n, pos, f)" by (subst write_ones.simps) simp
    then show ?thesis using "1.prems" by auto
  qed
qed

lemma byte_FF_inside: "byte_at f p = 0xFF \<Longrightarrow> p < length (fdata f)"
  by (rule ccontr) (simp add: byte_at_def)

lemma pread_ones:
  "(length (pread f pos n) \<noteq> n \<or> (\<exists>b \<in> set (pread f pos n). b \<noteq> 0xFF)) \<longleftrightarrow>
   \<not> (\<forall>p. pos \<le> p \<longrightarrow> p < pos + n \<longrightarrow> byte_at f p = 0xFF)"
proof (cases "pos + n \<le> length (fdata f)")
  case True
  have "set [pos..<pos + n] = {p. pos \<le> p \<and> p < pos + n}" by auto
  then show ?thesis unfolding pread_byte_at [OF True] by auto
next
  case False
  show ?thesis
  proof (cases "n = 0")
    case True
    then show ?thesis by (simp add: pread_def)
  next
    case n: False
    then have "length (pread f pos n) \<noteq> n" using False by (auto simp: pread_def)
    moreover have "\<not> (\<forall>p. pos \<le> p \<longrightarrow> p < pos + n \<longrightarrow> byte_at f p = 0xFF)"
    proof
      assume "\<forall>p. pos \<le> p \<longrightarrow> p < pos + n \<longrightarrow> byte_at f p = 0xFF"
      then have "byte_at f (pos + n - 1) = 0xFF" using n by simp
      then show False using byte_FF_inside n False by fastforce
    qed
    ultimately show ?thesis by simp
  qed
qed

lemma check_ones_spec:
  assumes "0 < n"
  shows "case check_ones n pos f of
      None \<Rightarrow> \<exists>p. pos \<le> p \<and> p + 1 < pos + n \<and> byte_at f p \<noteq> 0xFF
    | Some (n', pos') \<Rightarrow> 0 < n' \<and> pos' + n' = pos + n \<and> pos \<le> pos' \<and> (\<forall>p. pos \<le> p \<longrightarrow> p < pos' \<longrightarrow> byte_at f p = 0xFF)"
  using assms
proof (induction n pos f rule: check_ones.induct)
  case (1 n pos f)
  let ?C = BMP_CHUNKSIZE
  consider "n \<le> ?C" | "?C < n" "\<not> (\<forall>p. pos \<le> p \<longrightarrow> p < pos + ?C \<longrightarrow> byte_at f p = 0xFF)"
    | "?C < n" "\<forall>p. pos \<le> p \<longrightarrow> p < pos + ?C \<longrightarrow> byte_at f p = 0xFF" using not_less by blast
  then show ?case
  proof cases
    case 1
    then have "check_ones n pos f = Some (n, pos)" by (subst check_ones.simps) simp
    then show ?thesis using "1.prems" by simp
  next
    case 2
    then have "check_ones n pos f = None" by (subst check_ones.simps) (simp only: pread_ones Let_def if_True simp_thms)
    moreover obtain p where "pos \<le> p" "p < pos + ?C" "byte_at f p \<noteq> 0xFF" using 2(2) by blast
    ultimately show ?thesis using 2(1) by (auto intro!: exI [of _ p])
  next
    case 3
    then have e: "check_ones n pos f = check_ones (n - ?C) (pos + ?C) f"
      by (subst check_ones.simps, simp only: pread_ones Let_def if_True, simp)
    have n: "\<not> (length (pread f pos ?C) \<noteq> ?C \<or> (\<exists>b \<in> set (pread f pos ?C). b \<noteq> 0xFF))"
      unfolding pread_ones using 3(2) by blast
    have "0 < n - ?C" using 3 by simp
    note ih = "1.IH" [OF 3(1) refl n this]
    show ?thesis
    proof (cases "check_ones (n - ?C) (pos + ?C) f")
      case None
      then show ?thesis using ih 3(1) unfolding e by (auto dest: add_leD1)
    next
      case (Some np)
      then show ?thesis using ih 3 unfolding e by (cases np) (auto simp: not_less)
    qed
  qed
qed

section \<open>Setting and testing a range\<close>

lemma range_mask_inside: "l div 8 < p \<Longrightarrow> p < (r - 1) div 8 \<Longrightarrow> range_mask l r p = 0xFF"
  by (simp add: range_mask_def)

lemma range_mask_left: "l div 8 < (r - 1) div 8 \<Longrightarrow> range_mask l r (l div 8) = leftmask (l mod 8)"
proof -
  have "m AND 0xFF = m" for m :: u8
    using bit_FF by (auto simp: bit_eq_iff bit_and_iff)
  then show "l div 8 < (r - 1) div 8 \<Longrightarrow> range_mask l r (l div 8) = leftmask (l mod 8)" by (simp add: range_mask_def)
qed

lemma range_mask_right: "l div 8 < (r - 1) div 8 \<Longrightarrow> range_mask l r ((r - 1) div 8) = rightmask ((r - 1) mod 8)"
proof -
  have "0xFF AND m = m" for m :: u8
    using bit_FF by (auto simp: bit_eq_iff bit_and_iff)
  then show "l div 8 < (r - 1) div 8 \<Longrightarrow> range_mask l r ((r - 1) div 8) = rightmask ((r - 1) mod 8)" by (simp add: range_mask_def)
qed

lemma range_mask_one:
  "l div 8 = (r - 1) div 8 \<Longrightarrow> range_mask l r (l div 8) = leftmask (l mod 8) AND rightmask ((r - 1) mod 8)"
  by (simp add: range_mask_def)

lemma range_mask_outside: "p < l div 8 \<or> (r - 1) div 8 < p \<Longrightarrow> range_mask l r p = 0"
  by (auto simp: range_mask_def)

lemma seek_left: "pseek (int l div 8) = Some (l div 8)"
  by (simp add: pseek_def nat_div_distrib)

lemma int_right:
  assumes "l < r"
  shows "nat ((int r - 1) div 8) = (r - 1) div 8" "nat ((int r - 1) mod 8) = (r - 1) mod 8" "nat (int l mod 8) = l mod 8"
proof -
  have e: "int r - 1 = int (r - 1)" using assms by simp
  show "nat ((int r - 1) div 8) = (r - 1) div 8" "nat ((int r - 1) mod 8) = (r - 1) mod 8" "nat (int l mod 8) = l mod 8"
    unfolding e by (simp_all add: nat_div_distrib nat_mod_distrib)
qed

lemma or_FF: "(c :: u8) OR 0xFF = 0xFF"
  using bit_FF by (auto simp: bit_eq_iff bit_or_iff)

lemma set_range_bytes:
  assumes lr: "l < r" and q: "(r - 1) div 8 < quota"
  shows "\<exists>f'. bitmap_file_set_range blk quota f (int l) (int r) = (True, f') \<and>
    (\<forall>p. byte_at f' p = byte_at f p OR range_mask l r p)"
proof -
  let ?lb = "l div 8" and ?rb = "(r - 1) div 8"
  let ?lm = "leftmask (l mod 8)" and ?rm = "rightmask ((r - 1) mod 8)"
  have le: "?lb \<le> ?rb" using lr by (intro div_le_mono) simp
  show ?thesis
  proof (cases "?lb = ?rb")
    case True
    obtain f' where f': "or_byte blk quota f ?lb (?lm AND ?rm) = (True, f')"
      "\<forall>p. byte_at f' p = (if p = ?lb then byte_at f ?lb OR (?lm AND ?rm) else byte_at f p)"
      using or_byte_spec [of ?lb quota blk f "?lm AND ?rm"] True q by auto
    have "byte_at f' p = byte_at f p OR range_mask l r p" for p
      using f'(2) range_mask_one [OF True] range_mask_outside [of p l r] True by (cases "p = ?lb") (auto simp: nat_neq_iff)
    moreover have "bitmap_file_set_range blk quota f (int l) (int r) = (True, f')"
      using f'(1) lr by (simp add: bitmap_file_set_range_def seek_left int_right [OF lr] True Let_def)
    ultimately show ?thesis by blast
  next
    case False
    then have lt: "?lb < ?rb" using le by simp
    obtain f1 where f1: "or_byte blk quota f ?lb ?lm = (True, f1)"
      "\<forall>p. byte_at f1 p = (if p = ?lb then byte_at f ?lb OR ?lm else byte_at f p)"
      using or_byte_spec [of ?lb quota blk f ?lm] lt q by auto
    obtain n pos f2 where f2: "write_ones blk quota (?rb - ?lb) (?lb + 1) f1 = Some (n, pos, f2)" "0 < n"
      "pos + n = ?rb + 1" "?lb + 1 \<le> pos" "\<forall>p. byte_at f2 p = (if ?lb + 1 \<le> p \<and> p < pos then 0xFF else byte_at f1 p)"
      using write_ones_spec [of "?lb + 1" "?rb - ?lb" quota blk f1] lt q by auto
    obtain f3 where f3: "pwrite blk quota f2 pos (replicate (n - 1) 0xFF) = (n - 1, f3)"
      "\<forall>p. byte_at f3 p = (if pos \<le> p \<and> p < pos + (n - 1) then 0xFF else byte_at f2 p)"
      using pwrite_ones_spec [of pos "n - 1" quota blk f2] f2(2,3) q by auto
    have rb: "pos + (n - 1) = ?rb" using f2(2,3) by simp
    obtain f4 where f4: "or_byte blk quota f3 ?rb ?rm = (True, f4)"
      "\<forall>p. byte_at f4 p = (if p = ?rb then byte_at f3 ?rb OR ?rm else byte_at f3 p)"
      using or_byte_spec [of ?rb quota blk f3 ?rm] q by auto
    have "bitmap_file_set_range blk quota f (int l) (int r) = (True, f4)"
      using f1(1) f2(1) f3(1) f4(1) False rb lr
      by (simp add: bitmap_file_set_range_def seek_left int_right [OF lr] Let_def)
    moreover have "byte_at f4 p = byte_at f p OR range_mask l r p" for p
    proof -
      consider "p = ?lb" | "p = ?rb" | "?lb < p" "p < ?rb" | "p < ?lb \<or> ?rb < p" by linarith
      then show ?thesis
      proof cases
        case 1
        then show ?thesis using f4(2) f3(2) f2(4,5) f1(2) lt range_mask_left [OF lt] by simp
      next
        case 2
        then show ?thesis using f4(2) f3(2) f2(4,5) f1(2) lt rb range_mask_right [OF lt] by simp
      next
        case 3
        then show ?thesis using f4(2) f3(2) f2(4,5) rb range_mask_inside [OF 3] or_FF by simp
      next
        case 4
        then show ?thesis using f4(2) f3(2) f2(4,5) f1(2) lt rb range_mask_outside [OF 4] by auto
      qed
    qed
    ultimately show ?thesis by blast
  qed
qed

lemma pread_one: "pread f pos 1 = (if pos < length (fdata f) then [byte_at f pos] else [])"
  by (simp add: pread_def byte_at_def take_Suc hd_drop_conv_nth)

lemma zero_and_mask: "(0 :: u8) AND m = m \<longleftrightarrow> m = 0"
  by auto

lemma leftmask_not_0: "l < 8 \<Longrightarrow> leftmask l \<noteq> 0"
  using bit_leftmask [of l 0] by auto

lemma rightmask_not_0: "r < 8 \<Longrightarrow> rightmask r \<noteq> 0"
  using bit_rightmask [of r 7] by auto

lemma left_right_not_0:
  assumes "l < r" "l div 8 = (r - 1) div 8"
  shows "leftmask (l mod 8) AND rightmask ((r - 1) mod 8) \<noteq> 0"
proof -
  have "bit (range_mask l r (l div 8)) (7 - l mod 8)" using bit_range_mask [OF assms(1), of "l mod 8" "l div 8"] assms(1) by simp
  then show ?thesis using range_mask_one [OF assms(2)] by auto
qed

lemma isset_unfold:
  assumes "l < r"
  shows "bitmap_file_isset f (int l) (int r) \<longleftrightarrow> l div 8 < length (fdata f) \<and>
    (if l div 8 = (r - 1) div 8
     then byte_at f (l div 8) AND (leftmask (l mod 8) AND rightmask ((r - 1) mod 8)) = leftmask (l mod 8) AND rightmask ((r - 1) mod 8)
     else byte_at f (l div 8) AND leftmask (l mod 8) = leftmask (l mod 8) \<and>
       (case check_ones ((r - 1) div 8 - l div 8) (l div 8 + 1) f of None \<Rightarrow> False
        | Some (n, pos) \<Rightarrow> length (pread f pos n) = n \<and> (\<forall>b \<in> set (take (n - 1) (pread f pos n)). b = 0xFF) \<and>
              (pread f pos n ! (n - 1)) AND rightmask ((r - 1) mod 8) = rightmask ((r - 1) mod 8)))"
proof -
  have g: "(int r \<le> int l) = False" using assms by simp
  show ?thesis
    unfolding bitmap_file_isset_def Let_def seek_left int_right [OF assms] pread_one g
    by (auto split: option.split)
qed

lemma missing_byte: "\<not> p < length (fdata f) \<Longrightarrow> m \<noteq> 0 \<Longrightarrow> byte_at f p AND m \<noteq> m"
  by (simp add: byte_at_def zero_and_mask)

lemma last_chunk:
  assumes "0 < n" "m \<noteq> 0"
  shows "length (pread f pos n) = n \<and> (\<forall>b \<in> set (take (n - 1) (pread f pos n)). b = 0xFF) \<and> (pread f pos n ! (n - 1)) AND m = m \<longleftrightarrow>
    (\<forall>p. pos \<le> p \<longrightarrow> p < pos + (n - 1) \<longrightarrow> byte_at f p = 0xFF) \<and> byte_at f (pos + (n - 1)) AND m = m"
proof (cases "pos + (n - 1) < length (fdata f)")
  case True
  then have rd: "pread f pos n = map (byte_at f) [pos..<pos + n]" using assms by (intro pread_byte_at) simp
  have "take (n - 1) (pread f pos n) = map (byte_at f) [pos..<pos + (n - 1)]" unfolding rd using assms by (simp add: take_map)
  moreover have "pread f pos n ! (n - 1) = byte_at f (pos + (n - 1))" unfolding rd using assms by simp
  moreover have "length (pread f pos n) = n" unfolding rd by simp
  ultimately show ?thesis by auto
next
  case False
  then have "length (pread f pos n) \<noteq> n" using assms by (auto simp: pread_def)
  then show ?thesis using missing_byte [OF False assms(2)] by simp
qed

text \<open>The chunks after the first byte: all ones up to the last byte, which has the bits of the mask.\<close>

lemma check_tail:
  assumes "lb < rb" "m \<noteq> 0"
  shows "(case check_ones (rb - lb) (lb + 1) f of None \<Rightarrow> False
      | Some (n, pos) \<Rightarrow> length (pread f pos n) = n \<and> (\<forall>b \<in> set (take (n - 1) (pread f pos n)). b = 0xFF) \<and>
          (pread f pos n ! (n - 1)) AND m = m) \<longleftrightarrow>
    (\<forall>p. lb < p \<longrightarrow> p < rb \<longrightarrow> byte_at f p = 0xFF) \<and> byte_at f rb AND m = m"
proof -
  have spec: "case check_ones (rb - lb) (lb + 1) f of
        None \<Rightarrow> \<exists>p. lb + 1 \<le> p \<and> p + 1 < lb + 1 + (rb - lb) \<and> byte_at f p \<noteq> 0xFF
      | Some (n, pos) \<Rightarrow> 0 < n \<and> pos + n = lb + 1 + (rb - lb) \<and> lb + 1 \<le> pos \<and>
          (\<forall>p. lb + 1 \<le> p \<longrightarrow> p < pos \<longrightarrow> byte_at f p = 0xFF)"
    by (rule check_ones_spec) (use assms in simp)
  show ?thesis
  proof (cases "check_ones (rb - lb) (lb + 1) f")
    case None
    then show ?thesis using spec assms by (auto simp: Suc_le_eq)
  next
    case (Some np)
    obtain n pos where np: "np = (n, pos)" by (cases np)
    have n: "0 < n" "pos + (n - 1) = rb" "lb < pos" "\<forall>p. lb < p \<longrightarrow> p < pos \<longrightarrow> byte_at f p = 0xFF"
      using spec Some np assms by auto
    have "(\<forall>p. pos \<le> p \<longrightarrow> p < rb \<longrightarrow> byte_at f p = 0xFF) \<longleftrightarrow> (\<forall>p. lb < p \<longrightarrow> p < rb \<longrightarrow> byte_at f p = 0xFF)"
    proof (intro iffI allI impI)
      fix p
      assume "\<forall>p. pos \<le> p \<longrightarrow> p < rb \<longrightarrow> byte_at f p = 0xFF" "lb < p" "p < rb"
      then show "byte_at f p = 0xFF" using n(4) by (cases "p < pos") simp_all
    qed (use n(3) in simp)
    then show ?thesis using last_chunk [OF n(1) assms(2), of f pos] Some np n(2) by simp
  qed
qed

lemma isset_bytes:
  assumes lr: "l < r"
  shows "bitmap_file_isset f (int l) (int r) \<longleftrightarrow> (\<forall>p. byte_at f p AND range_mask l r p = range_mask l r p)"
proof -
  let ?lb = "l div 8" and ?rb = "(r - 1) div 8" and ?ok = "\<lambda>p. byte_at f p AND range_mask l r p = range_mask l r p"
  let ?lm = "leftmask (l mod 8)" and ?rm = "rightmask ((r - 1) mod 8)"
  have le: "?lb \<le> ?rb" using lr by (intro div_le_mono) simp
  have out: "?ok p" if "p < ?lb \<or> ?rb < p" for p using range_mask_outside [OF that] by simp
  show ?thesis
  proof (cases "?lb = ?rb")
    case True
    have one: "(\<forall>p. ?ok p) \<longleftrightarrow> byte_at f ?lb AND (?lm AND ?rm) = ?lm AND ?rm"
      using out range_mask_one [OF True] True by (metis nat_neq_iff)
    show ?thesis
      unfolding isset_unfold [OF lr] one if_P [OF True]
      using missing_byte [of ?lb f "?lm AND ?rm"] left_right_not_0 [OF lr True] by blast
  next
    case False
    then have lt: "?lb < ?rb" using le by simp
    have mid: "?ok p \<longleftrightarrow> byte_at f p = 0xFF" if "?lb < p" "p < ?rb" for p
      using range_mask_inside [OF that] bit_FF by (auto simp: bit_eq_iff bit_and_iff)
    have ok: "(\<forall>p. ?ok p) \<longleftrightarrow> byte_at f ?lb AND ?lm = ?lm \<and> (\<forall>p. ?lb < p \<longrightarrow> p < ?rb \<longrightarrow> byte_at f p = 0xFF) \<and> byte_at f ?rb AND ?rm = ?rm"
      using out mid range_mask_left [OF lt] range_mask_right [OF lt] by (metis nat_neq_iff)
    show ?thesis
      unfolding isset_unfold [OF lr] ok if_not_P [OF False] check_tail [OF lt rightmask_not_0 [OF mod_less_divisor [OF zero_less_numeral]]]
      using missing_byte [of ?lb f ?lm] leftmask_not_0 [of "l mod 8"] by auto
  qed
qed

section \<open>Reading a range\<close>

lemma unat_of_int_64: "0 \<le> x \<Longrightarrow> x < 2 ^ 64 \<Longrightarrow> unat (of_int x :: u64) = nat x"
  by (simp add: unat_eq_nat_uint uint_word_of_int_eq take_bit_int_eq_self)

lemma get_range_loop:
  assumes "bitmap_wf e" "bitmap_wf b" "\<forall>x \<in> set xs. left \<le> x \<and> x < left + int (capacity b) \<and> x - el < int (capacity e) \<and> el \<le> left"
    "capacity b < 2 ^ 63" "capacity e < 2 ^ 63"
  shows "\<exists>b'. foldR (get_range_bit (Some e) el left) xs (Some b) = Inr (Some b') \<and> bitmap_wf b' \<and> capacity b' = capacity b \<and>
    bits b' = bits b \<union> {nat (x - left) |x. x \<in> set xs \<and> nat (x - el) \<in> bits e}"
  using assms(2-4)
proof (induction xs arbitrary: b)
  case (Cons x xs)
  have x: "left \<le> x" "x < left + int (capacity b)" "x - el < int (capacity e)" "el \<le> left" using Cons.prems(2) by simp_all
  have u: "unat (of_int (x - el) :: u64) = nat (x - el)" "unat (of_int (x - left) :: u64) = nat (x - left)"
    using unat_of_int_64 [of "x - el"] unat_of_int_64 [of "x - left"] x Cons.prems(3) assms(5) by simp_all
  have lt: "nat (x - left) < capacity b" "nat (x - el) < capacity e" using x by linarith+
  have i: "bitmap_is_set (Some e) (of_int (x - el)) = Inr (if nat (x - el) \<in> bits e then 1 else 0)"
    using bitmap_is_set_in [OF assms(1), of "of_int (x - el)"] u(1) lt(2) by simp
  obtain b1 r where s: "bitmap_set (Some b) (of_int (x - left)) = Inr (r, Some b1)" "bits b1 = insert (nat (x - left)) (bits b)" "bitmap_wf b1" "capacity b1 = capacity b"
    using bitmap_set_in [OF Cons.prems(1), of "of_int (x - left)"] u(2) lt(1) by auto
  define b2 where "b2 = (if nat (x - el) \<in> bits e then b1 else b)"
  have b2: "bitmap_wf b2" "capacity b2 = capacity b" using s Cons.prems(1) by (simp_all add: b2_def)
  have st: "get_range_bit (Some e) el left (Some b) x = Inr (Some b2)" using i s(1) by (simp add: get_range_bit_def b2_def)
  obtain b' where "foldR (get_range_bit (Some e) el left) xs (Some b2) = Inr (Some b')" "bitmap_wf b'" "capacity b' = capacity b2"
    "bits b' = bits b2 \<union> {nat (x - left) |x. x \<in> set xs \<and> nat (x - el) \<in> bits e}"
    using Cons.IH [OF b2(1)] Cons.prems(2,3) b2(2) by auto
  then show ?case using st b2(2) s(2) by (auto simp: b2_def)
qed simp

text \<open>
  What the routine returns for a range of the first byte: the bits of the byte at the position it seeks to, counted from the
  least significant one, while the other routines count from the most significant one.
\<close>

lemma get_range_first_byte:
  assumes "0 \<le> left" "left < right" "right < 8"
  shows "\<exists>b. bitmap_file_get_range True True blk f pos left right = Inr (Some b) \<and> capacity b = nat (right - left) \<and>
    bits b = {i. i < nat (right - left) \<and> bit (byte_at f 0) (i + nat left)}"
proof -
  have l: "left - rem8 left = 0" "right + 8 - rem8 right = 8" using assms by (simp_all add: rem8_def)
  let ?fb = "pread f 0 1"
  obtain e where e: "bitmap_create True True 8 = Some e" "bitmap_wf e" "capacity e = 8" "bmp_data e = [0]" using bitmap_create_wf [of 8]
    by (auto simp: bitmap_create_def byte_size_def)
  define e' where "e' = e\<lparr>bmp_data := ?fb @ drop (length ?fb) (bmp_data e)\<rparr>"
  have d: "bmp_data e' = [byte_at f 0]" unfolding e'_def using pread_one [of f 0] by (simp add: e(4) byte_at_def)
  have be: "i \<in> bits e' \<longleftrightarrow> i < 8 \<and> bit (byte_at f 0) i" for i by (auto simp: bits_def has_bit_def d)
  have wf: "bitmap_wf e'" "capacity e' = 8" using e(2,3) be d e(4) by (auto simp: bitmap_wf_def capacity_def e'_def length_Suc_conv simp del: length_append)
  have sz: "(of_int (right - left) :: u64) \<noteq> 0" "unat (of_int (right - left) :: u64) = nat (right - left)"
    using unat_of_int_64 [of "right - left"] assms by (auto simp: unat_eq_0 [symmetric])
  obtain b where b: "bitmap_create True True (of_int (right - left)) = Some b" "bitmap_wf b" "bits b = {}" "capacity b = nat (right - left)"
    using bitmap_create_wf [OF sz(1)] sz(2) by auto
  have lt: "nat (right - left) < 2 ^ 63" using assms by (simp add: nat_less_iff)
  obtain b' where b': "foldR (get_range_bit (Some e') 0 left) [left..right - 1] (Some b) = Inr (Some b')" "capacity b' = capacity b"
    "bits b' = bits b \<union> {nat (x - left) |x. x \<in> set [left..right - 1] \<and> nat (x - 0) \<in> bits e'}"
    using get_range_loop [OF wf(1) b(2), of "[left..right - 1]" left 0] assms b(4) wf(2) lt by auto
  have "bitmap_file_get_range True True blk f pos left right = Inr (Some b')"
    unfolding bitmap_file_get_range_def Let_def l using b'(1) b(1) e(1) by (simp add: lseek_zero_def e'_def bitmap_free_def)
  moreover have "bits b' = {i. i < nat (right - left) \<and> bit (byte_at f 0) (i + nat left)}"
  proof (intro set_eqI iffI)
    fix i assume "i \<in> bits b'"
    then obtain x where x: "i = nat (x - left)" "left \<le> x" "x < right" "bit (byte_at f 0) (nat x)" by (auto simp: b'(3) b(3) be)
    moreover have "nat x = i + nat left" "i < nat (right - left)" using x assms by linarith+
    ultimately show "i \<in> {i. i < nat (right - left) \<and> bit (byte_at f 0) (i + nat left)}" by simp
  next
    fix i assume i: "i \<in> {i. i < nat (right - left) \<and> bit (byte_at f 0) (i + nat left)}"
    then have "i < nat (right - left)" "bit (byte_at f 0) (i + nat left)" by simp_all
    moreover have "nat (int i + left) = i + nat left" "i + nat left < 8" "int i + left < right" using assms \<open>i < nat (right - left)\<close> by linarith+
    ultimately have "left \<le> int i + left" "int i + left < right" "nat (int i + left) \<in> bits e'" "i = nat (int i + left - left)"
      by (simp_all add: be)
    then show "i \<in> bits b'" unfolding b'(3) by (intro UnI2 CollectI exI [of _ "int i + left"]) simp
  qed
  ultimately show ?thesis using b'(2) b(4) by (intro exI [of _ b']) simp
qed

section \<open>Properties\<close>

text \<open>
  C25: Setting a range of bits in a bitmap file succeeds when the file may grow that far, and afterwards exactly
  the bits of the range and those that were set before are set, across byte and chunk boundaries.
\<close>

theorem bitmap_file_set_range_exact:
  assumes "l < r" "(r - 1) div 8 < quota"
  shows "\<exists>f'. bitmap_file_set_range blk quota f (int l) (int r) = (True, f') \<and>
           (\<forall>i. fbit f' i \<longleftrightarrow> fbit f i \<or> l \<le> i \<and> i < r)"
  using set_range_bytes [OF assms, of blk f] fbit_or_mask [OF assms(1)] by blast

theorem bitmap_file_set_range_exact_witness:
  "\<exists>f'. bitmap_file_set_range 4096 100000 empty_file (int 5) (int 70000) = (True, f') \<and>
     (\<forall>i. fbit f' i \<longleftrightarrow> fbit empty_file i \<or> 5 \<le> i \<and> i < 70000)"
  by (rule bitmap_file_set_range_exact) simp_all

text \<open>
  C26: \<open>bitmap_file_isset\<close> answers exactly whether all bits of the range are set, also for ranges that
  reach past the end of the file or span several chunks.
\<close>

theorem bitmap_file_isset_exact:
  assumes "l < r"
  shows "bitmap_file_isset f (int l) (int r) \<longleftrightarrow> (\<forall>i. l \<le> i \<longrightarrow> i < r \<longrightarrow> fbit f i)"
  unfolding isset_bytes [OF assms] by (rule fbit_has_mask [OF assms])

theorem bitmap_file_isset_exact_witness:
  "\<not> bitmap_file_isset empty_file (int 3) (int 9000)"
proof -
  have "\<not> fbit empty_file 3" by (simp add: fbit_def byte_at_def empty_file_def)
  then show ?thesis using bitmap_file_isset_exact [of 3 9000 empty_file] by auto
qed

text \<open>
  A range that is read back is mirrored. For a range within the first byte the routine returns a bitmap of the right size, whose bits
  are those of the byte from the other end: bit \<open>i\<close> is set when bit 7 - \<open>left\<close> - \<open>i\<close> of the file is.
\<close>

theorem bitmap_file_get_range_mirrored:
  assumes "0 \<le> left" "left < right" "right < 8"
  shows "\<exists>b. bitmap_file_get_range True True blk f pos left right = Inr (Some b) \<and> capacity b = nat (right - left) \<and>
    (\<forall>i. i \<in> bits b \<longleftrightarrow> i < nat (right - left) \<and> fbit f (7 - nat left - i))"
proof -
  obtain b where b: "bitmap_file_get_range True True blk f pos left right = Inr (Some b)" "capacity b = nat (right - left)"
    "bits b = {i. i < nat (right - left) \<and> bit (byte_at f 0) (i + nat left)}" using get_range_first_byte [OF assms] by blast
  have "bit (byte_at f 0) (i + nat left) = fbit f (7 - nat left - i)" if "i < nat (right - left)" for i
    using that assms by (simp add: fbit_def add.commute)
  then show ?thesis using b by auto
qed

theorem bitmap_file_get_range_mirrored_witness:
  "\<exists>f b. bitmap_file_set_range 4096 1000 empty_file 0 1 = (True, f) \<and> bitmap_file_isset f 0 1 \<and>
     bitmap_file_get_range True True 4096 f 0 0 1 = Inr (Some b) \<and> bits b = {}"
proof -
  obtain f where f: "bitmap_file_set_range 4096 1000 empty_file 0 1 = (True, f)" "\<forall>p. byte_at f p = range_mask 0 1 p"
    using set_range_bytes [of 0 1 1000 4096 empty_file] by (auto simp: byte_at_def empty_file_def)
  have i: "bitmap_file_isset f 0 1" using isset_bytes [of 0 1 f] f(2) by simp
  have n: "\<not> fbit f 7" using bit_range_mask [of 0 1 7 0] f(2) by (simp add: fbit_def)
  obtain b where b: "bitmap_file_get_range True True 4096 f 0 0 1 = Inr (Some b)" "\<forall>i. i \<in> bits b \<longleftrightarrow> i < nat (1 - 0) \<and> fbit f (7 - nat 0 - i)"
    using bitmap_file_get_range_mirrored [of 0 1 4096 f 0] by (elim meta_impE exE conjE) simp_all
  have "i \<notin> bits b" for i using b(2) n by (cases i) simp_all
  then show ?thesis using f(1) i b(1) by blast
qed

end
