(* ===== verification/Log_Queue.thy ===== *)
theory Log_Queue
  imports Gdpfs_Prelude
begin

text \<open>
  The queue of precreated logs of \<^verbatim>\<open>src/gdpfs_log.c\<close>: a ring buffer filled by one producer thread and
  drained by the threads that create files. The first part is the ring and its operations, with a
  contract for bounded queues; the second part is the interleaving of the producer with any number
  of consumers, including the condition variable on which they wait.
\<close>

section \<open>The ring buffer\<close>

type_synonym gdp_name = "u8 list"

definition PRECREATED_MAX :: nat where
  "PRECREATED_MAX = 1024"

record precreated =
  precreated_logs :: "gdp_name list"
  precreated_front :: nat
  precreated_back :: nat

text \<open>Static storage starts out zeroed and \<open>init_gdpfs_log\<close> resets the two indices.\<close>

definition precreated_init :: precreated where
  "precreated_init = \<lparr>precreated_logs = replicate PRECREATED_MAX (replicate 32 0),
     precreated_front = 0, precreated_back = 0\<rparr>"

definition ring_full :: "precreated \<Rightarrow> bool" where
  "ring_full q \<longleftrightarrow> precreated_front q = (precreated_back q + 1) mod PRECREATED_MAX"

definition ring_empty :: "precreated \<Rightarrow> bool" where
  "ring_empty q \<longleftrightarrow> precreated_front q = precreated_back q"

text \<open>
  \<open>_precreate_log\<close> asks the log daemon for a new log; the argument is the name of the log that
  \<open>gdp_gcl_create\<close> made, or \<open>None\<close> when that failed. The result says whether the call succeeded.
\<close>

definition precreate_log :: "gdp_name option \<Rightarrow> nat \<Rightarrow> precreated \<Rightarrow> bool \<times> precreated" where
  "precreate_log created index q =
     (case created of
        None \<Rightarrow> (False, q)
      | Some gcl_iname \<Rightarrow> (True, q\<lparr>precreated_logs := (precreated_logs q)[index := gcl_iname]\<rparr>))"

text \<open>The producer's last critical section: the new index, and whether it broadcasts.\<close>

definition producer_publish :: "precreated \<Rightarrow> bool \<times> precreated" where
  "producer_publish q =
     (let q = q\<lparr>precreated_back := (precreated_back q + 1) mod PRECREATED_MAX\<rparr>
      in (precreated_back q = (precreated_front q + 1) mod PRECREATED_MAX, q))"

text \<open>One call of \<open>gdpfs_log_get_precreated\<close>; \<open>None\<close> when it has to wait.\<close>

definition gdpfs_log_get_precreated :: "precreated \<Rightarrow> (gdp_name \<times> precreated) option" where
  "gdpfs_log_get_precreated q =
     (if ring_empty q then None
      else Some (precreated_logs q ! precreated_front q,
                 q\<lparr>precreated_front := (precreated_front q + 1) mod PRECREATED_MAX\<rparr>))"

section \<open>What the ring holds\<close>

definition ring_wf :: "precreated \<Rightarrow> bool" where
  "ring_wf q \<longleftrightarrow> length (precreated_logs q) = PRECREATED_MAX \<and>
     precreated_front q < PRECREATED_MAX \<and> precreated_back q < PRECREATED_MAX"

definition distance :: "nat \<Rightarrow> nat \<Rightarrow> nat" where
  "distance f b = (if f \<le> b then b - f else b + PRECREATED_MAX - f)"

definition slot :: "nat \<Rightarrow> nat \<Rightarrow> nat" where
  "slot f i = (f + i) mod PRECREATED_MAX"

definition contents :: "precreated \<Rightarrow> gdp_name list" where
  "contents q = map (\<lambda>i. precreated_logs q ! slot (precreated_front q) i)
                  [0..<distance (precreated_front q) (precreated_back q)]"

lemma wrap: "b < PRECREATED_MAX \<Longrightarrow> (b + 1) mod PRECREATED_MAX = (if b + 1 = PRECREATED_MAX then 0 else b + 1)"
  by simp

lemma ring_max [simp]: "0 < PRECREATED_MAX" "Suc 0 < PRECREATED_MAX"
  by (simp_all add: PRECREATED_MAX_def)

lemma length_contents [simp]: "length (contents q) = distance (precreated_front q) (precreated_back q)"
  by (simp add: contents_def)

lemma distance_bound: "f < PRECREATED_MAX \<Longrightarrow> b < PRECREATED_MAX \<Longrightarrow> distance f b < PRECREATED_MAX"
  by (auto simp: distance_def)

lemma distance_empty: "f < PRECREATED_MAX \<Longrightarrow> b < PRECREATED_MAX \<Longrightarrow> distance f b = 0 \<longleftrightarrow> f = b"
  by (auto simp: distance_def)

lemma distance_full:
  "f < PRECREATED_MAX \<Longrightarrow> b < PRECREATED_MAX \<Longrightarrow> f = (b + 1) mod PRECREATED_MAX \<longleftrightarrow> distance f b = PRECREATED_MAX - 1"
  unfolding wrap distance_def by auto

lemma distance_push:
  assumes "f < PRECREATED_MAX" "b < PRECREATED_MAX" "distance f b \<noteq> PRECREATED_MAX - 1"
  shows "distance f ((b + 1) mod PRECREATED_MAX) = Suc (distance f b)"
  using assms unfolding wrap [OF assms(2)] distance_def by (auto split: if_splits)

lemma distance_pop:
  assumes "f < PRECREATED_MAX" "b < PRECREATED_MAX" "f \<noteq> b"
  shows "distance f b = Suc (distance ((f + 1) mod PRECREATED_MAX) b)"
  using assms unfolding wrap [OF assms(1)] distance_def by (auto split: if_splits)

lemma slot_back: "f < PRECREATED_MAX \<Longrightarrow> b < PRECREATED_MAX \<Longrightarrow> slot f (distance f b) = b"
  by (auto simp: slot_def distance_def)

lemma slot_Suc: "slot ((f + 1) mod PRECREATED_MAX) i = slot f (Suc i)"
  by (simp add: slot_def mod_add_left_eq)

lemma slot_less [simp]: "slot f i < PRECREATED_MAX"
  by (simp add: slot_def)

lemma slot_inj:
  assumes "f < PRECREATED_MAX" "i < PRECREATED_MAX" "j < PRECREATED_MAX" "slot f i = slot f j"
  shows "i = j"
proof -
  have "slot f k = (if f + k < PRECREATED_MAX then f + k else f + k - PRECREATED_MAX)" if "k < PRECREATED_MAX" for k
    using assms(1) that by (auto simp: slot_def le_mod_geq)
  then show ?thesis using assms by (auto split: if_splits)
qed

lemma ring_full_iff: "ring_wf q \<Longrightarrow> ring_full q \<longleftrightarrow> length (contents q) = PRECREATED_MAX - 1"
  unfolding ring_full_def ring_wf_def length_contents by (rule distance_full) simp_all

lemma ring_empty_iff: "ring_wf q \<Longrightarrow> ring_empty q \<longleftrightarrow> contents q = []"
  using distance_empty [of "precreated_front q" "precreated_back q"] unfolding length_0_conv [symmetric]
  by (simp add: ring_empty_def ring_wf_def)

lemma contents_bound: "ring_wf q \<Longrightarrow> length (contents q) < PRECREATED_MAX"
  by (simp add: ring_wf_def distance_bound)

text \<open>The slot the producer writes is not one that holds a name, so the contents stay.\<close>

lemma contents_fill:
  assumes "ring_wf q"
  shows "contents (q\<lparr>precreated_logs := (precreated_logs q)[precreated_back q := x]\<rparr>) = contents q"
proof -
  let ?f = "precreated_front q" and ?b = "precreated_back q"
  have fb: "?f < PRECREATED_MAX" "?b < PRECREATED_MAX" using assms by (auto simp: ring_wf_def)
  have "?b \<noteq> slot ?f i" if "i < distance ?f ?b" for i
  proof
    assume "?b = slot ?f i"
    then have "slot ?f i = slot ?f (distance ?f ?b)" using slot_back [OF fb] by simp
    then show False using slot_inj [OF fb(1) _ distance_bound [OF fb]] that distance_bound [OF fb] by (metis less_imp_neq less_trans)
  qed
  then show ?thesis by (auto simp: contents_def)
qed

lemma contents_publish:
  assumes "ring_wf q" "\<not> ring_full q"
  shows "contents (snd (producer_publish q)) = contents q @ [precreated_logs q ! precreated_back q]"
proof -
  let ?f = "precreated_front q" and ?b = "precreated_back q"
  have fb: "?f < PRECREATED_MAX" "?b < PRECREATED_MAX" using assms by (auto simp: ring_wf_def)
  have "distance ?f ?b \<noteq> PRECREATED_MAX - 1" using assms ring_full_iff by auto
  then show ?thesis
    using distance_push [OF fb] slot_back [OF fb] by (simp add: producer_publish_def contents_def)
qed

lemma contents_get:
  assumes "ring_wf q" "\<not> ring_empty q"
  shows "\<exists>x q'. gdpfs_log_get_precreated q = Some (x, q') \<and> ring_wf q' \<and> contents q = x # contents q' \<and>
           precreated_logs q' = precreated_logs q \<and> precreated_back q' = precreated_back q"
proof -
  let ?f = "precreated_front q" and ?b = "precreated_back q"
  have fb: "?f < PRECREATED_MAX" "?b < PRECREATED_MAX" "?f \<noteq> ?b"
    using assms by (auto simp: ring_wf_def ring_empty_def)
  have "slot ?f 0 = ?f" using fb by (simp add: slot_def)
  then show ?thesis using assms(1) distance_pop [OF fb] slot_Suc [of ?f] assms(2)
    by (simp add: gdpfs_log_get_precreated_def ring_wf_def contents_def map_upt_Suc del: upt_Suc)
qed

section \<open>The contract of a bounded queue\<close>

primrec drain :: "nat \<Rightarrow> ('q \<Rightarrow> ('a \<times> 'q) option) \<Rightarrow> 'q \<Rightarrow> 'a list" where
  "drain 0 get q = []"
| "drain (Suc n) get q = (case get q of None \<Rightarrow> [] | Some (x, q) \<Rightarrow> x # drain n get q)"

locale bounded_queue =
  fixes inv :: "'q \<Rightarrow> bool"
    and items :: "'q \<Rightarrow> 'a list"
    and bound :: nat
    and put :: "'a \<Rightarrow> 'q \<Rightarrow> 'q"
    and get :: "'q \<Rightarrow> ('a \<times> 'q) option"
  assumes put_law: "inv q \<Longrightarrow> length (items q) < bound \<Longrightarrow> inv (put x q) \<and> items (put x q) = items q @ [x]"
    and get_law: "inv q \<Longrightarrow> items q = x # xs \<Longrightarrow> \<exists>q'. get q = Some (x, q') \<and> inv q' \<and> items q' = xs"
    and get_empty: "inv q \<Longrightarrow> items q = [] \<Longrightarrow> get q = None"
begin

lemma drain_items: "inv q \<Longrightarrow> length (items q) \<le> n \<Longrightarrow> drain n get q = items q"
proof (induction n arbitrary: q)
  case (Suc n)
  then show ?case
    using get_law [of q] get_empty [of q] by (cases "items q") fastforce+
qed simp

lemma puts: "inv q \<Longrightarrow> length (items q) + length xs \<le> bound \<Longrightarrow>
    inv (fold put xs q) \<and> items (fold put xs q) = items q @ xs"
proof (induction xs arbitrary: q)
  case (Cons x xs)
  then show ?case using put_law [of q x] Cons.IH [of "put x q"] by simp
qed simp

lemma fifo: "inv q \<Longrightarrow> items q = [] \<Longrightarrow> length xs \<le> bound \<Longrightarrow> drain (length xs) get (fold put xs q) = xs"
  using puts [of q xs] drain_items [of "fold put xs q"] by simp

end

text \<open>One successful round of the producer.\<close>

definition precreate_round :: "gdp_name \<Rightarrow> precreated \<Rightarrow> precreated" where
  "precreate_round x q = snd (producer_publish (snd (precreate_log (Some x) (precreated_back q) q)))"

lemma ring_wf_fill: "ring_wf q \<Longrightarrow> ring_wf (q\<lparr>precreated_logs := (precreated_logs q)[i := x]\<rparr>)"
  by (simp add: ring_wf_def)

lemma ring_wf_publish: "ring_wf q \<Longrightarrow> ring_wf (snd (producer_publish q))"
  by (simp add: ring_wf_def producer_publish_def)

lemma ring_wf_init: "ring_wf precreated_init" "contents precreated_init = []"
  by (simp_all add: ring_wf_def precreated_init_def contents_def distance_def)

interpretation ring: bounded_queue ring_wf contents "PRECREATED_MAX - 1" precreate_round gdpfs_log_get_precreated
proof unfold_locales
  fix q x
  assume wf: "ring_wf q" and "length (contents q) < PRECREATED_MAX - 1"
  let ?q = "q\<lparr>precreated_logs := (precreated_logs q)[precreated_back q := x]\<rparr>"
  have "\<not> ring_full ?q" using \<open>_ < _\<close> ring_full_iff [OF wf] by (simp add: ring_full_def)
  then have "contents (precreate_round x q) = contents q @ [x]"
    using contents_publish [OF ring_wf_fill [OF wf]] contents_fill [OF wf] wf
    by (simp add: precreate_round_def precreate_log_def ring_wf_def)
  then show "ring_wf (precreate_round x q) \<and> contents (precreate_round x q) = contents q @ [x]"
    using wf by (simp add: precreate_round_def precreate_log_def ring_wf_publish ring_wf_fill)
next
  fix q x xs
  assume "ring_wf q" "contents q = x # xs"
  then show "\<exists>q'. gdpfs_log_get_precreated q = Some (x, q') \<and> ring_wf q' \<and> contents q' = xs"
    using contents_get [of q] ring_empty_iff [of q] by auto
next
  fix q
  assume "ring_wf q" "contents q = []"
  then show "gdpfs_log_get_precreated q = None"
    using ring_empty_iff [of q] by (simp add: gdpfs_log_get_precreated_def)
qed

section \<open>Producer and consumers\<close>

text \<open>
  The producer is at its first critical section, creating a log, about to publish it, or waiting on the
  condition variable. Consumers are only counted: how many wait on the condition variable. Three
  ghost fields record the logs created, the names handed out, and whether a creation has failed.
\<close>

datatype producer_pc = P_Check | P_Create | P_Publish | P_Wait

record log_sys =
  ring_of :: precreated
  producer_at :: producer_pc
  waiting :: nat
  made :: "gdp_name list"
  taken :: "gdp_name list"
  failed :: bool

definition log_sys_init :: log_sys where
  "log_sys_init = \<lparr>ring_of = precreated_init, producer_at = P_Check, waiting = 0, made = [], taken = [], failed = False\<rparr>"

text \<open>
  A step is one critical section. \<open>ep_thr_cond_signal\<close> wakes one waiter, if there is any: the producer
  or one of the consumers; a woken thread tries its critical section again. Waiters may also wake
  up for no reason.
\<close>

inductive signalled :: "log_sys \<Rightarrow> log_sys \<Rightarrow> bool" where
  none: "producer_at s \<noteq> P_Wait \<Longrightarrow> waiting s = 0 \<Longrightarrow> signalled s s"
| producer: "producer_at s = P_Wait \<Longrightarrow> signalled s (s\<lparr>producer_at := P_Check\<rparr>)"
| consumer: "waiting s = Suc n \<Longrightarrow> signalled s (s\<lparr>waiting := n\<rparr>)"

definition broadcast :: "log_sys \<Rightarrow> log_sys" where
  "broadcast s = s\<lparr>producer_at := (if producer_at s = P_Wait then P_Check else producer_at s), waiting := 0\<rparr>"

inductive log_step :: "log_sys \<Rightarrow> log_sys \<Rightarrow> bool" where
  check_full: "producer_at s = P_Check \<Longrightarrow> ring_full (ring_of s) \<Longrightarrow> log_step s (s\<lparr>producer_at := P_Wait\<rparr>)"
| check_room: "producer_at s = P_Check \<Longrightarrow> \<not> ring_full (ring_of s) \<Longrightarrow> log_step s (s\<lparr>producer_at := P_Create\<rparr>)"
| create_ok: "producer_at s = P_Create \<Longrightarrow> precreate_log (Some x) (precreated_back (ring_of s)) (ring_of s) = (True, q) \<Longrightarrow>
    log_step s (s\<lparr>ring_of := q, producer_at := P_Publish, made := made s @ [x]\<rparr>)"
| create_fail: "producer_at s = P_Create \<Longrightarrow> precreate_log None (precreated_back (ring_of s)) (ring_of s) = (False, q) \<Longrightarrow>
    log_step s (s\<lparr>ring_of := q, producer_at := P_Publish, failed := True\<rparr>)"
| publish: "producer_at s = P_Publish \<Longrightarrow> producer_publish (ring_of s) = (b, q) \<Longrightarrow>
    s' = s\<lparr>ring_of := q, producer_at := P_Check\<rparr> \<Longrightarrow> log_step s (if b then broadcast s' else s')"
| get_wait: "gdpfs_log_get_precreated (ring_of s) = None \<Longrightarrow> log_step s (s\<lparr>waiting := Suc (waiting s)\<rparr>)"
| get: "gdpfs_log_get_precreated (ring_of s) = Some (x, q) \<Longrightarrow>
    signalled (s\<lparr>ring_of := q, taken := taken s @ [x]\<rparr>) s' \<Longrightarrow> log_step s s'"
| spurious_producer: "producer_at s = P_Wait \<Longrightarrow> log_step s (s\<lparr>producer_at := P_Check\<rparr>)"
| spurious_consumer: "waiting s = Suc n \<Longrightarrow> log_step s (s\<lparr>waiting := n\<rparr>)"

inductive reachable :: "log_sys \<Rightarrow> bool" where
  start: "reachable log_sys_init"
| step: "reachable s \<Longrightarrow> log_step s s' \<Longrightarrow> reachable s'"

inductive_cases signalledE: "signalled s s'"

section \<open>The invariant of the system\<close>

definition in_flight :: "log_sys \<Rightarrow> gdp_name list" where
  "in_flight s = (if producer_at s = P_Publish
     then [precreated_logs (ring_of s) ! precreated_back (ring_of s)] else [])"

text \<open>
  The ring is well formed; the producer only creates and publishes when there is room; nobody waits
  for a condition that already holds; and as long as no creation failed, every log that was made is
  handed out, in the queue, or about to be published, in the order of creation.
\<close>

definition log_inv :: "log_sys \<Rightarrow> bool" where
  "log_inv s \<longleftrightarrow> ring_wf (ring_of s) \<and>
     (producer_at s \<in> {P_Create, P_Publish} \<longrightarrow> \<not> ring_full (ring_of s)) \<and>
     (producer_at s = P_Wait \<longrightarrow> ring_full (ring_of s)) \<and>
     (0 < waiting s \<longrightarrow> ring_empty (ring_of s)) \<and>
     (\<not> failed s \<longrightarrow> made s = taken s @ contents (ring_of s) @ in_flight s)"

lemma ring_full_not_empty: "ring_full q \<Longrightarrow> ring_wf q \<Longrightarrow> \<not> ring_empty q"
  by (auto simp: ring_full_def ring_empty_def ring_wf_def mod_Suc PRECREATED_MAX_def split: if_splits)

lemma log_inv_publish:
  assumes "log_inv s" "producer_at s = P_Publish" "producer_publish (ring_of s) = (b, q)"
    "s' = s\<lparr>ring_of := q, producer_at := P_Check\<rparr>"
  shows "log_inv (if b then broadcast s' else s')"
proof -
  let ?q = "ring_of s"
  have wf: "ring_wf ?q" and nf: "\<not> ring_full ?q" and w: "0 < waiting s \<longrightarrow> ring_empty ?q"
    using assms(1,2) by (auto simp: log_inv_def)
  have q: "ring_wf q" "contents q = contents ?q @ [precreated_logs ?q ! precreated_back ?q]"
    using ring_wf_publish [OF wf] contents_publish [OF wf nf] assms(3) by simp_all
  have "0 < waiting s \<longrightarrow> b" using w assms(3) by (auto simp: producer_publish_def ring_empty_def)
  then show ?thesis using assms q by (auto simp: log_inv_def broadcast_def in_flight_def)
qed

lemma log_inv_get:
  assumes inv: "log_inv s" and g: "gdpfs_log_get_precreated (ring_of s) = Some (x, q)"
    and sg: "signalled (s\<lparr>ring_of := q, taken := taken s @ [x]\<rparr>) s'"
  shows "log_inv s'"
proof -
  let ?q = "ring_of s"
  have wf: "ring_wf ?q" using inv by (simp add: log_inv_def)
  have ne: "\<not> ring_empty ?q" using g by (auto simp: gdpfs_log_get_precreated_def split: if_splits)
  have q: "ring_wf q" "contents ?q = x # contents q" "precreated_logs q = precreated_logs ?q"
    "precreated_back q = precreated_back ?q" using contents_get [OF wf ne] g by auto
  have nf: "\<not> ring_full q" using q(2) contents_bound [OF wf] ring_full_iff [OF q(1)] by simp
  have w: "waiting s = 0" using inv ne by (auto simp: log_inv_def)
  have m: "\<not> failed s \<Longrightarrow> made s = (taken s @ [x]) @ contents q @ in_flight s"
    using inv q(2) by (simp add: log_inv_def)
  from sg show ?thesis
    by (cases rule: signalled.cases) (use q nf w m in \<open>auto simp: log_inv_def in_flight_def\<close>)
qed

lemma log_inv_create:
  assumes "log_inv s" "producer_at s = P_Create" "precreate_log (Some x) (precreated_back (ring_of s)) (ring_of s) = (True, q)"
  shows "log_inv (s\<lparr>ring_of := q, producer_at := P_Publish, made := made s @ [x]\<rparr>)"
proof -
  have wf: "ring_wf (ring_of s)" using assms by (simp add: log_inv_def)
  have q: "q = (ring_of s)\<lparr>precreated_logs := (precreated_logs (ring_of s))[precreated_back (ring_of s) := x]\<rparr>"
    using assms(3) by (simp add: precreate_log_def)
  show ?thesis using assms(1,2) contents_fill [OF wf] ring_wf_fill [OF wf]
    by (auto simp: q log_inv_def in_flight_def ring_full_def ring_empty_def ring_wf_def)
qed

lemma log_inv_step:
  assumes "log_step s s'" "log_inv s"
  shows "log_inv s'"
  using assms
proof (cases rule: log_step.cases)
  case (create_ok x q)
  then show ?thesis using log_inv_create assms(2) by simp
next
  case (publish b q s'')
  then show ?thesis using log_inv_publish assms(2) by simp
next
  case (get x q)
  then show ?thesis using log_inv_get assms(2) by blast
next
  case get_wait
  then show ?thesis using assms(2) by (auto simp: log_inv_def in_flight_def gdpfs_log_get_precreated_def split: if_splits)
qed (use assms(2) in \<open>auto simp: log_inv_def in_flight_def precreate_log_def\<close>)

lemma reachable_inv: "reachable s \<Longrightarrow> log_inv s"
proof (induction rule: reachable.induct)
  case start
  then show ?case
    using ring_wf_init by (simp add: log_inv_def log_sys_init_def in_flight_def)
qed (rule log_inv_step)

section \<open>Properties\<close>

text \<open>
  The ring keeps what is put into it: up to 1023 precreated names leave the fresh queue in the
  order they were created in.
\<close>

theorem precreated_fifo:
  assumes "length names \<le> 1023"
  shows "drain (length names) gdpfs_log_get_precreated (fold precreate_round names precreated_init) = names"
  by (rule ring.fifo) (use assms ring_wf_init in \<open>simp_all add: PRECREATED_MAX_def\<close>)

theorem precreated_fifo_witness:
  "drain 2 gdpfs_log_get_precreated (fold precreate_round [[1, 2], [3]] precreated_init) = [[1, 2], [3]]"
  using precreated_fifo [of "[[1, 2], [3]]"] by (simp add: numeral_2_eq_2)

text \<open>
  C22: In every state of the producer and the consumers that is reached while log creation succeeds, the logs
  that were made are exactly the ones handed out, then the ones in the queue, then the one about to be
  published, each once and in the order of creation: no log is lost, duplicated or reordered, under every
  interleaving.
\<close>

theorem precreated_no_loss:
  assumes "reachable s" "\<not> failed s"
  shows "made s = taken s @ contents (ring_of s) @ in_flight s"
  using reachable_inv [OF assms(1)] assms(2) by (simp add: log_inv_def)

definition one_made :: "gdp_name \<Rightarrow> log_sys" where
  "one_made x = log_sys_init\<lparr>ring_of := snd (precreate_log (Some x) 0 precreated_init), producer_at := P_Publish, made := [x]\<rparr>"

lemma one_made_reachable: "reachable (one_made x)"
proof -
  have nf: "\<not> ring_full precreated_init" by (simp add: ring_full_def precreated_init_def PRECREATED_MAX_def)
  have "log_step log_sys_init (log_sys_init\<lparr>producer_at := P_Create\<rparr>)"
    by (rule check_room) (simp_all add: log_sys_init_def nf)
  then have r: "reachable (log_sys_init\<lparr>producer_at := P_Create\<rparr>)" by (rule step [OF start])
  have "log_step (log_sys_init\<lparr>producer_at := P_Create\<rparr>) (one_made x)"
    using create_ok [of "log_sys_init\<lparr>producer_at := P_Create\<rparr>" x "snd (precreate_log (Some x) 0 precreated_init)"]
    by (simp add: one_made_def log_sys_init_def precreate_log_def precreated_init_def)
  then show ?thesis by (rule step [OF r])
qed

theorem precreated_no_loss_witness:
  "reachable (one_made [7]) \<and> \<not> failed (one_made [7]) \<and>
   made (one_made [7]) = taken (one_made [7]) @ contents (ring_of (one_made [7])) @ in_flight (one_made [7])"
proof -
  have "\<not> failed (one_made [7])" by (simp add: one_made_def log_sys_init_def)
  then show ?thesis using precreated_no_loss [OF one_made_reachable [of "[7]"]] one_made_reachable [of "[7]"] by blast
qed

text \<open>
  C23: No wake-up is lost: in every reachable state, if the producer waits on the condition variable the ring
  is full, and if any consumer waits the ring is empty, although both share one condition variable,
  consumers signal only one waiter and the producer broadcasts only when the ring stops being empty.
\<close>

theorem precreated_no_lost_wakeup:
  assumes "reachable s"
  shows "(producer_at s = P_Wait \<longrightarrow> ring_full (ring_of s)) \<and> (0 < waiting s \<longrightarrow> ring_empty (ring_of s)) \<and>
         \<not> (producer_at s = P_Wait \<and> 0 < waiting s)"
  using reachable_inv [OF assms] ring_full_not_empty [of "ring_of s"] by (auto simp: log_inv_def)

theorem precreated_no_lost_wakeup_witness:
  "reachable (log_sys_init\<lparr>waiting := 1\<rparr>) \<and> ring_empty (ring_of (log_sys_init\<lparr>waiting := 1\<rparr>))"
proof -
  have "gdpfs_log_get_precreated (ring_of log_sys_init) = None"
    by (simp add: gdpfs_log_get_precreated_def ring_empty_def log_sys_init_def precreated_init_def)
  then have "log_step log_sys_init (log_sys_init\<lparr>waiting := 1\<rparr>)"
    using get_wait [of log_sys_init] by (simp add: log_sys_init_def)
  then have "reachable (log_sys_init\<lparr>waiting := 1\<rparr>)" by (rule step [OF start])
  from this precreated_no_lost_wakeup [OF this] show ?thesis by simp
qed

text \<open>
  C38: The producer publishes its slot even when the creation of the log failed, so a consumer can be given a
  name no log was created under: there is a reachable state where no log was ever made and the
  all-zero name has been handed out.
\<close>

theorem precreated_failure_published:
  "\<exists>s. reachable s \<and> made s = [] \<and> taken s = [replicate 32 0]"
proof -
  let ?s1 = "log_sys_init\<lparr>producer_at := P_Create\<rparr>"
  let ?s2 = "?s1\<lparr>producer_at := P_Publish, failed := True\<rparr>"
  let ?q = "precreated_init\<lparr>precreated_back := 1\<rparr>"
  let ?s3 = "?s2\<lparr>ring_of := ?q, producer_at := P_Check\<rparr>"
  let ?s4 = "?s3\<lparr>ring_of := ?q\<lparr>precreated_front := 1\<rparr>, taken := [replicate 32 0]\<rparr>"
  have "\<not> ring_full precreated_init" by (simp add: ring_full_def precreated_init_def PRECREATED_MAX_def)
  then have "log_step log_sys_init ?s1" by (intro check_room) (simp_all add: log_sys_init_def)
  then have r1: "reachable ?s1" by (rule step [OF start])
  have "log_step ?s1 ?s2" using create_fail [of ?s1 precreated_init] by (simp add: log_sys_init_def precreate_log_def)
  then have r2: "reachable ?s2" by (rule step [OF r1])
  have "producer_publish precreated_init = (True, ?q)"
    by (simp add: producer_publish_def precreated_init_def PRECREATED_MAX_def)
  then have "log_step ?s2 ?s3" using publish [of ?s2 True ?q ?s3] by (simp add: log_sys_init_def broadcast_def)
  then have r3: "reachable ?s3" by (rule step [OF r2])
  have "gdpfs_log_get_precreated ?q = Some (replicate 32 0, ?q\<lparr>precreated_front := 1\<rparr>)"
    by (simp add: gdpfs_log_get_precreated_def ring_empty_def precreated_init_def PRECREATED_MAX_def)
  then have "log_step ?s3 ?s4"
    using get [of ?s3 "replicate 32 0" "?q\<lparr>precreated_front := 1\<rparr>" ?s4] signalled.none [of ?s4]
    by (simp add: log_sys_init_def)
  then have "reachable ?s4" by (rule step [OF r3])
  then show ?thesis by (intro exI [of _ ?s4]) (simp add: log_sys_init_def)
qed

end
