(* ===== verification/Log_Entry.thy ===== *)
theory Log_Entry
  imports Log_Queue
begin

text \<open>
  Log handles and log entries of \<^verbatim>\<open>src/gdpfs_log.c\<close>. An entry is read from the log daemon, or from a
  local file that caches the record; the operations on entries hide the difference. The library
  of the log daemon is a parameter, the local cache files are a map from log and record number to bytes.
\<close>

section \<open>Status codes and modes\<close>

text \<open>The codes of \<^verbatim>\<open>src/gdpfs_stat.h\<close>, and those of the log daemon's library the program tells apart.\<close>

datatype ep_stat =
    GDPFS_STAT_OK
  | GDPFS_STAT_EOF
  | GDPFS_STAT_NOTFOUND
  | GDPFS_STAT_RW_FAILED
  | GDPFS_STAT_OOMEM
  | GDPFS_STAT_BADFH
  | GDPFS_STAT_INVLDPARAM
  | GDPFS_STAT_INVLDMODE
  | GDPFS_STAT_INVLDFTYPE
  | GDPFS_STAT_BADLOGMODE
  | GDPFS_STAT_CORRUPT
  | GDPFS_STAT_BADPATH
  | GDPFS_STAT_CREATE_FAILED
  | GDPFS_STAT_FILE_EXISTS
  | GDPFS_STAT_DIR_EXISTS
  | GDPFS_STAT_DIR_NOT_EMPTY
  | GDPFS_STAT_LOCAL_FS_FAIL
  | GDPFS_STAT_SYNCH_FAIL
  | EP_STAT_OK
  | GDP_STAT_NOTFOUND
  | GDP_STAT_FAIL

definition EP_STAT_ISOK :: "ep_stat \<Rightarrow> bool" where
  "EP_STAT_ISOK s \<longleftrightarrow> s = GDPFS_STAT_OK \<or> s = GDPFS_STAT_EOF \<or> s = EP_STAT_OK"

datatype gdp_iomode = GDP_MODE_ANY | GDP_MODE_RO | GDP_MODE_AO | GDP_MODE_RA

text \<open>
  \<open>init_gdpfs_log\<close>: the status, the mode (static storage is zero before), and the empty queue of
  precreated logs. The first argument is the status of \<open>gdp_init\<close>.
\<close>

definition init_gdpfs_log :: "ep_stat \<Rightarrow> int \<Rightarrow> ep_stat \<times> gdp_iomode \<times> precreated" where
  "init_gdpfs_log estat log_mode =
     (if \<not> EP_STAT_ISOK estat then (estat, GDP_MODE_ANY, precreated_init)
      else if log_mode = 0 then (GDPFS_STAT_OK, GDP_MODE_RO, precreated_init)
      else if log_mode = 1 then (GDPFS_STAT_OK, GDP_MODE_RA, precreated_init)
      else if log_mode = 2 then (GDPFS_STAT_OK, GDP_MODE_AO, precreated_init)
      else (GDPFS_STAT_INVLDPARAM, GDP_MODE_ANY, precreated_init))"

section \<open>The library of the log daemon\<close>

text \<open>
  The functions of the library the log layer calls: \<open>'w\<close> is the state of the daemon and \<open>'d\<close> a datum
  with its buffer. Reading fills a datum that \<open>gdp_datum_new\<close> made.
\<close>

record ('w, 'd) gdp_lib =
  gdp_gcl_open :: "'w \<Rightarrow> gdp_name \<Rightarrow> gdp_iomode \<Rightarrow> ep_stat"
  gdp_gcl_close :: "'w \<Rightarrow> gdp_name \<Rightarrow> ep_stat"
  gdp_gcl_append :: "'w \<Rightarrow> gdp_name \<Rightarrow> 'd \<Rightarrow> ep_stat \<times> 'w"
  gdp_gcl_append_async :: "'w \<Rightarrow> gdp_name \<Rightarrow> 'd \<Rightarrow> ep_stat \<times> 'w"
  gdp_gcl_read :: "'w \<Rightarrow> gdp_name \<Rightarrow> int \<Rightarrow> 'd \<Rightarrow> ep_stat \<times> 'd"
  gdp_datum_new :: "'d option"
  gdp_datum_getrecno :: "'d \<Rightarrow> int"
  gdp_buf_getlength :: "'d \<Rightarrow> nat"
  gdp_buf_read :: "'d \<Rightarrow> nat \<Rightarrow> u8 list \<times> 'd"
  gdp_buf_peek :: "'d \<Rightarrow> nat \<Rightarrow> u8 list"
  gdp_buf_drain :: "'d \<Rightarrow> nat \<Rightarrow> int \<times> 'd"
  gdp_buf_write :: "'d \<Rightarrow> u8 list \<Rightarrow> int \<times> 'd"

section \<open>Log handles\<close>

record gdpfs_log =
  gcl_handle :: gdp_name
  gname :: gdp_name

definition gdpfs_log_open :: "('w, 'd) gdp_lib \<Rightarrow> gdp_iomode \<Rightarrow> 'w \<Rightarrow> gdp_name \<Rightarrow> ep_stat \<times> gdpfs_log option" where
  "gdpfs_log_open L gcl_mode w gcl_name =
     (let estat = gdp_gcl_open L w gcl_name gcl_mode in
      if \<not> EP_STAT_ISOK estat then (estat, None)
      else (estat, Some \<lparr>gcl_handle = gcl_name, gname = gcl_name\<rparr>))"

definition gdpfs_log_close :: "('w, 'd) gdp_lib \<Rightarrow> 'w \<Rightarrow> gdpfs_log \<Rightarrow> ep_stat" where
  "gdpfs_log_close L w handle = gdp_gcl_close L w (gcl_handle handle)"

definition gdpfs_log_gname :: "gdpfs_log \<Rightarrow> gdp_name" where
  "gdpfs_log_gname handle = gname handle"

section \<open>Log entries\<close>

text \<open>
  A cache file is named by the log and the record number. \<open>cdeny\<close> marks names that cannot be opened
  although they may exist, \<open>cquota\<close> bounds the size of a file. An open descriptor is the name with a
  position; \<open>None\<close> is the descriptor -1. A datum that has been freed is \<open>None\<close>.
\<close>

type_synonym cache_name = "gdp_name \<times> int"

record cache_dir =
  cfiles :: "cache_name \<Rightarrow> u8 list option"
  cdeny :: "cache_name \<Rightarrow> bool"
  cquota :: nat

record 'd gdpfs_log_ent =
  cached_fd :: "(cache_name \<times> nat) option"
  cached_recno :: int
  is_cached :: bool
  datum :: "'d option"

definition gdpfs_log_ent_init :: "('w, 'd) gdp_lib \<Rightarrow> ep_stat \<times> 'd gdpfs_log_ent" where
  "gdpfs_log_ent_init L =
     (if gdp_datum_new L = None then GDPFS_STAT_OOMEM else GDPFS_STAT_OK,
      \<lparr>cached_fd = None, cached_recno = 0, is_cached = False, datum = gdp_datum_new L\<rparr>)"

definition gdpfs_log_append ::
  "('w, 'd) gdp_lib \<Rightarrow> gdp_iomode \<Rightarrow> 'w \<Rightarrow> gdpfs_log \<Rightarrow> 'd gdpfs_log_ent \<Rightarrow> bool \<Rightarrow> (ep_stat \<times> 'w) res" where
  "gdpfs_log_append L gcl_mode w handle ent cb =
     (if gcl_mode = GDP_MODE_RO then Inr (GDPFS_STAT_BADLOGMODE, w)
      else case datum ent of
        None \<Rightarrow> Inl Bad_Pointer
      | Some d \<Rightarrow> Inr (if cb then gdp_gcl_append_async L w (gcl_handle handle) d else gdp_gcl_append L w (gcl_handle handle) d))"

text \<open>The failure path of \<open>gdpfs_log_ent_open\<close>: the datum is freed.\<close>

definition ent_open_fail :: "ep_stat \<Rightarrow> 'd gdpfs_log_ent \<Rightarrow> ep_stat \<times> 'd gdpfs_log_ent" where
  "ent_open_fail estat ent =
     (if estat = GDP_STAT_NOTFOUND then GDPFS_STAT_NOTFOUND else estat, ent\<lparr>datum := None\<rparr>)"

text \<open>Filling the cache file of a record that is not cached yet.\<close>

definition ent_fill_cache ::
  "('w, 'd) gdp_lib \<Rightarrow> 'w \<Rightarrow> cache_dir \<Rightarrow> gdpfs_log \<Rightarrow> int \<Rightarrow> (ep_stat \<times> 'd gdpfs_log_ent \<times> cache_dir) res" where
  "ent_fill_cache L w fs handle recno =
     (let (estat, ent) = gdpfs_log_ent_init L; name = (gname handle, recno) in
      case datum ent of
        None \<Rightarrow> Inr (estat, ent, fs)
      | Some d \<Rightarrow>
          let fs = fs\<lparr>cfiles := (cfiles fs)(name \<mapsto> [])\<rparr>;
              (estat, d) = gdp_gcl_read L w (gcl_handle handle) recno d;
              ent = ent\<lparr>datum := Some d\<rparr> in
          if \<not> EP_STAT_ISOK estat
          then let (estat, ent) = ent_open_fail estat ent in Inr (estat, ent, fs)
          else
            let len = gdp_buf_getlength L d; bounce = fst (gdp_buf_read L d len) in
            bindR (assertR (len = length bounce \<and> len \<le> cquota fs) ()) (\<lambda>_.
            Inr (GDPFS_STAT_OK,
                 ent\<lparr>cached_fd := Some (name, 0), cached_recno := recno, is_cached := True, datum := None\<rparr>,
                 fs\<lparr>cfiles := (cfiles fs)(name \<mapsto> bounce)\<rparr>)))"

definition gdpfs_log_ent_open ::
  "('w, 'd) gdp_lib \<Rightarrow> gdp_iomode \<Rightarrow> 'w \<Rightarrow> cache_dir \<Rightarrow> gdpfs_log \<Rightarrow> 'd gdpfs_log_ent \<Rightarrow> int \<Rightarrow> bool
    \<Rightarrow> (ep_stat \<times> 'd gdpfs_log_ent \<times> cache_dir) res" where
  "gdpfs_log_ent_open L gcl_mode w fs handle ent recno bypass_cache =
     (if gcl_mode = GDP_MODE_AO then Inr (GDPFS_STAT_BADLOGMODE, ent, fs)
      else if recno \<ge> 0 \<and> \<not> bypass_cache then
        let name = (gname handle, recno) in
        if cdeny fs name then
          Inr (GDPFS_STAT_OK, ent\<lparr>cached_fd := None, cached_recno := recno, is_cached := True, datum := None\<rparr>, fs)
        else (case cfiles fs name of
          Some _ \<Rightarrow> Inr (GDPFS_STAT_OK,
            ent\<lparr>cached_fd := Some (name, 0), cached_recno := recno, is_cached := True, datum := None\<rparr>, fs)
        | None \<Rightarrow> ent_fill_cache L w fs handle recno)
      else
        let (estat, ent) = gdpfs_log_ent_init L in
        (case datum ent of
          None \<Rightarrow> Inr (estat, ent, fs)
        | Some d \<Rightarrow>
            let (estat, d) = gdp_gcl_read L w (gcl_handle handle) recno d; ent = ent\<lparr>datum := Some d\<rparr> in
            if \<not> EP_STAT_ISOK estat
            then let (estat, ent) = ent_open_fail estat ent in Inr (estat, ent, fs)
            else Inr (estat, ent, fs)))"

definition gdpfs_log_ent_close :: "'d gdpfs_log_ent \<Rightarrow> 'd gdpfs_log_ent res" where
  "gdpfs_log_ent_close ent =
     (if is_cached ent then Inr (ent\<lparr>cached_fd := None\<rparr>)
      else if datum ent = None then Inl Bad_Pointer
      else Inr (ent\<lparr>datum := None\<rparr>))"

text \<open>Access to the datum and to the cache file of an entry.\<close>

definition ent_datum :: "'d gdpfs_log_ent \<Rightarrow> 'd res" where
  "ent_datum ent = (case datum ent of None \<Rightarrow> Inl Bad_Pointer | Some d \<Rightarrow> Inr d)"

definition ent_file :: "cache_dir \<Rightarrow> 'd gdpfs_log_ent \<Rightarrow> (cache_name \<times> nat \<times> u8 list) res" where
  "ent_file fs ent =
     (case cached_fd ent of
        None \<Rightarrow> Inl Bad_Pointer
      | Some (name, pos) \<Rightarrow> (case cfiles fs name of None \<Rightarrow> Inl Bad_Pointer | Some bs \<Rightarrow> Inr (name, pos, bs)))"

definition gdpfs_log_ent_length :: "('w, 'd) gdp_lib \<Rightarrow> cache_dir \<Rightarrow> 'd gdpfs_log_ent \<Rightarrow> nat res" where
  "gdpfs_log_ent_length L fs ent =
     (if is_cached ent then bindR (ent_file fs ent) (\<lambda>(name, pos, bs). Inr (length bs))
      else bindR (ent_datum ent) (\<lambda>d. Inr (gdp_buf_getlength L d)))"

text \<open>
  A read returns the number of bytes with the bytes. With the buffer \<open>NULL\<close> the bytes are skipped; a
  cached entry cannot do that.
\<close>

definition gdpfs_log_ent_read ::
  "('w, 'd) gdp_lib \<Rightarrow> cache_dir \<Rightarrow> 'd gdpfs_log_ent \<Rightarrow> bool \<Rightarrow> nat \<Rightarrow> (int \<times> u8 list \<times> 'd gdpfs_log_ent) res" where
  "gdpfs_log_ent_read L fs ent null sz =
     (if is_cached ent then
        bindR (assertR (cached_fd ent \<noteq> None) ()) (\<lambda>_.
        bindR (ent_file fs ent) (\<lambda>(name, pos, bs).
        let out = take sz (drop pos bs) in
        if null then Inr (if out = [] then 0 else -1, [], ent)
        else Inr (int (length out), out, ent\<lparr>cached_fd := Some (name, pos + length out)\<rparr>)))
      else
        bindR (ent_datum ent) (\<lambda>d.
        if null then
          let (r, d) = gdp_buf_drain L d sz in Inr (if r \<noteq> 0 then 0 else int sz, [], ent\<lparr>datum := Some d\<rparr>)
        else
          let (out, d) = gdp_buf_read L d sz in Inr (int (length out), out, ent\<lparr>datum := Some d\<rparr>)))"

definition gdpfs_log_ent_peek ::
  "('w, 'd) gdp_lib \<Rightarrow> cache_dir \<Rightarrow> 'd gdpfs_log_ent \<Rightarrow> nat \<Rightarrow> (int \<times> u8 list) res" where
  "gdpfs_log_ent_peek L fs ent sz =
     (if is_cached ent then
        if cached_fd ent = None then Inr (-1, [])
        else bindR (ent_file fs ent) (\<lambda>(name, pos, bs).
        let out = take sz (drop pos bs) in Inr (int (length out), out))
      else bindR (ent_datum ent) (\<lambda>d. let out = gdp_buf_peek L d sz in Inr (int (length out), out)))"

definition gdpfs_log_ent_recno :: "('w, 'd) gdp_lib \<Rightarrow> 'd gdpfs_log_ent \<Rightarrow> int res" where
  "gdpfs_log_ent_recno L ent =
     (if is_cached ent then Inr (cached_recno ent) else bindR (ent_datum ent) (\<lambda>d. Inr (gdp_datum_getrecno L d)))"

definition gdpfs_log_ent_write ::
  "('w, 'd) gdp_lib \<Rightarrow> 'd gdpfs_log_ent \<Rightarrow> u8 list \<Rightarrow> (int \<times> 'd gdpfs_log_ent) res" where
  "gdpfs_log_ent_write L ent buf =
     bindR (assertR (\<not> is_cached ent) ()) (\<lambda>_.
     bindR (ent_datum ent) (\<lambda>d.
     let (r, d) = gdp_buf_write L d buf in Inr (r, ent\<lparr>datum := Some d\<rparr>)))"

text \<open>Draining a cached entry moves the file position by the size, read as a signed offset.\<close>

definition gdpfs_log_ent_drain ::
  "('w, 'd) gdp_lib \<Rightarrow> cache_dir \<Rightarrow> 'd gdpfs_log_ent \<Rightarrow> nat \<Rightarrow> (int \<times> 'd gdpfs_log_ent) res" where
  "gdpfs_log_ent_drain L fs ent sz =
     (if is_cached ent then
        if cached_fd ent = None then Inr (-1, ent)
        else bindR (ent_file fs ent) (\<lambda>(name, pos, bs).
        let off = int pos + sint (of_nat sz :: u64) in
        if off < 0 then Inr (-1, ent) else Inr (0, ent\<lparr>cached_fd := Some (name, nat off)\<rparr>))
      else bindR (ent_datum ent) (\<lambda>d.
        let (r, d) = gdp_buf_drain L d sz in Inr (r, ent\<lparr>datum := Some d\<rparr>)))"

section \<open>What the library promises\<close>

text \<open>
  The documented behaviour of buffers: \<open>cont\<close> is what a datum holds. Draining is only promised to work
  within the contents.
\<close>

definition buf_ok :: "('w, 'd) gdp_lib \<Rightarrow> ('d \<Rightarrow> u8 list) \<Rightarrow> bool" where
  "buf_ok L cont \<longleftrightarrow> (\<forall>d. gdp_buf_getlength L d = length (cont d)) \<and>
     (\<forall>d n. fst (gdp_buf_read L d n) = take n (cont d) \<and> cont (snd (gdp_buf_read L d n)) = drop n (cont d)) \<and>
     (\<forall>d n. gdp_buf_peek L d n = take n (cont d)) \<and>
     (\<forall>d n. n \<le> length (cont d) \<longrightarrow> fst (gdp_buf_drain L d n) = 0 \<and> cont (snd (gdp_buf_drain L d n)) = drop n (cont d))"

lemma buf_okD:
  assumes "buf_ok L cont"
  shows "gdp_buf_getlength L d = length (cont d)" "gdp_buf_peek L d n = take n (cont d)"
    "gdp_buf_read L d n = (out, d') \<Longrightarrow> out = take n (cont d) \<and> cont d' = drop n (cont d)"
    "gdp_buf_drain L d n = (r, d') \<Longrightarrow> n \<le> length (cont d) \<Longrightarrow> r = 0 \<and> cont d' = drop n (cont d)"
  using assms unfolding buf_ok_def by (metis fst_conv snd_conv)+

section \<open>The contract of an entry\<close>

text \<open>Reads, peeks and drains see one sequence of bytes, front to back.\<close>

datatype ent_op = Ent_Read nat | Ent_Peek nat | Ent_Drain nat

fun ops_spec :: "ent_op list \<Rightarrow> u8 list \<Rightarrow> (int \<times> u8 list) list" where
  "ops_spec [] bs = []"
| "ops_spec (Ent_Read n # ops) bs = (int (length (take n bs)), take n bs) # ops_spec ops (drop n bs)"
| "ops_spec (Ent_Peek n # ops) bs = (int (length (take n bs)), take n bs) # ops_spec ops bs"
| "ops_spec (Ent_Drain n # ops) bs = (0, []) # ops_spec ops (drop n bs)"

text \<open>Drains that stay within the entry, whose size fits a signed file offset.\<close>

fun ops_within :: "ent_op list \<Rightarrow> nat \<Rightarrow> bool" where
  "ops_within [] n = (n < 2 ^ 63)"
| "ops_within (Ent_Read k # ops) n = ops_within ops (n - k)"
| "ops_within (Ent_Peek k # ops) n = ops_within ops n"
| "ops_within (Ent_Drain k # ops) n \<longleftrightarrow> k \<le> n \<and> k < 2 ^ 63 \<and> ops_within ops (n - k)"

primrec run_ops ::
  "('s \<Rightarrow> nat \<Rightarrow> (int \<times> u8 list \<times> 's) res) \<Rightarrow> ('s \<Rightarrow> nat \<Rightarrow> (int \<times> u8 list) res) \<Rightarrow> ('s \<Rightarrow> nat \<Rightarrow> (int \<times> 's) res)
    \<Rightarrow> ent_op list \<Rightarrow> 's \<Rightarrow> (int \<times> u8 list) list res" where
  "run_ops rd pk dr [] s = Inr []"
| "run_ops rd pk dr (op # ops) s = (case op of
     Ent_Read n \<Rightarrow> bindR (rd s n) (\<lambda>(k, bs, s). bindR (run_ops rd pk dr ops s) (\<lambda>rs. Inr ((k, bs) # rs)))
   | Ent_Peek n \<Rightarrow> bindR (pk s n) (\<lambda>(k, bs). bindR (run_ops rd pk dr ops s) (\<lambda>rs. Inr ((k, bs) # rs)))
   | Ent_Drain n \<Rightarrow> bindR (dr s n) (\<lambda>(k, s). bindR (run_ops rd pk dr ops s) (\<lambda>rs. Inr ((k, []) # rs))))"

locale byte_source =
  fixes at :: "'s \<Rightarrow> u8 list \<Rightarrow> bool"
    and rd :: "'s \<Rightarrow> nat \<Rightarrow> (int \<times> u8 list \<times> 's) res"
    and pk :: "'s \<Rightarrow> nat \<Rightarrow> (int \<times> u8 list) res"
    and dr :: "'s \<Rightarrow> nat \<Rightarrow> (int \<times> 's) res"
  assumes rd_ok: "at s bs \<Longrightarrow> \<exists>s'. rd s n = Inr (int (length (take n bs)), take n bs, s') \<and> at s' (drop n bs)"
    and pk_ok: "at s bs \<Longrightarrow> pk s n = Inr (int (length (take n bs)), take n bs)"
    and dr_ok: "at s bs \<Longrightarrow> n \<le> length bs \<Longrightarrow> n < 2 ^ 63 \<Longrightarrow> \<exists>s'. dr s n = Inr (0, s') \<and> at s' (drop n bs)"
begin

lemma run_spec: "at s bs \<Longrightarrow> ops_within ops (length bs) \<Longrightarrow> run_ops rd pk dr ops s = Inr (ops_spec ops bs)"
proof (induction ops arbitrary: s bs)
  case (Cons op ops)
  show ?case
  proof (cases op)
    case (Ent_Read n)
    then show ?thesis using rd_ok [OF Cons.prems(1), of n] Cons by fastforce
  next
    case (Ent_Peek n)
    then show ?thesis using pk_ok [OF Cons.prems(1), of n] Cons by simp
  next
    case (Ent_Drain n)
    then show ?thesis using dr_ok [OF Cons.prems(1), of n] Cons by fastforce
  qed
qed simp

end

section \<open>Entries keep the contract\<close>

definition ent_at :: "('w, 'd) gdp_lib \<Rightarrow> ('d \<Rightarrow> u8 list) \<Rightarrow> cache_dir \<Rightarrow> 'd gdpfs_log_ent \<Rightarrow> u8 list \<Rightarrow> bool" where
  "ent_at L cont fs e bs \<longleftrightarrow> buf_ok L cont \<and>
     (if is_cached e then \<exists>name pos c. cached_fd e = Some (name, pos) \<and> cfiles fs name = Some c \<and> bs = drop pos c
      else \<exists>d. datum e = Some d \<and> cont d = bs)"

lemma sint_small: "n < 2 ^ 63 \<Longrightarrow> sint (of_nat n :: u64) = int n"
  by (simp add: sint_uint unsigned_of_nat take_bit_nat_eq_self signed_take_bit_int_eq_self)

lemma ent_read_at:
  assumes "ent_at L cont fs e bs"
  shows "\<exists>e'. gdpfs_log_ent_read L fs e False n = Inr (int (length (take n bs)), take n bs, e') \<and> ent_at L cont fs e' (drop n bs)"
proof (cases "is_cached e")
  case True
  then show ?thesis using assms
    by (auto simp: ent_at_def gdpfs_log_ent_read_def ent_file_def Let_def min_def drop_drop add.commute)
next
  case False
  then obtain d where d: "datum e = Some d" "cont d = bs" "buf_ok L cont" using assms by (auto simp: ent_at_def)
  obtain out d' where r: "gdp_buf_read L d n = (out, d')" by fastforce
  then show ?thesis using False d buf_okD(3) [OF d(3) r]
    by (auto simp: ent_at_def gdpfs_log_ent_read_def ent_datum_def)
qed

lemma ent_peek_at: "ent_at L cont fs e bs \<Longrightarrow> gdpfs_log_ent_peek L fs e n = Inr (int (length (take n bs)), take n bs)"
  using buf_okD(2) [of L cont]
  by (auto simp: ent_at_def gdpfs_log_ent_peek_def ent_file_def ent_datum_def Let_def split: if_splits)

lemma ent_drain_at:
  assumes "ent_at L cont fs e bs" "n \<le> length bs" "n < 2 ^ 63"
  shows "\<exists>e'. gdpfs_log_ent_drain L fs e n = Inr (0, e') \<and> ent_at L cont fs e' (drop n bs)"
proof (cases "is_cached e")
  case True
  then show ?thesis using assms sint_small [OF assms(3)]
    by (auto simp: ent_at_def gdpfs_log_ent_drain_def ent_file_def Let_def nat_add_distrib drop_drop add.commute)
next
  case False
  then obtain d where d: "datum e = Some d" "cont d = bs" "buf_ok L cont" using assms by (auto simp: ent_at_def)
  obtain r d' where r: "gdp_buf_drain L d n = (r, d')" by fastforce
  then show ?thesis using False d buf_okD(4) [OF d(3) r] assms(2)
    by (auto simp: ent_at_def gdpfs_log_ent_drain_def ent_datum_def)
qed

interpretation ent: byte_source "\<lambda>e bs. ent_at L cont fs e bs" "\<lambda>e n. gdpfs_log_ent_read L fs e False n"
  "gdpfs_log_ent_peek L fs" "gdpfs_log_ent_drain L fs" for L cont fs
  by unfold_locales (rule ent_read_at ent_peek_at ent_drain_at; assumption)+

section \<open>Properties\<close>

definition ent_run :: "('w, 'd) gdp_lib \<Rightarrow> cache_dir \<Rightarrow> ent_op list \<Rightarrow> 'd gdpfs_log_ent \<Rightarrow> (int \<times> u8 list) list res" where
  "ent_run L fs = run_ops (\<lambda>e n. gdpfs_log_ent_read L fs e False n) (gdpfs_log_ent_peek L fs) (gdpfs_log_ent_drain L fs)"

lemma ent_run_at: "ent_at L cont fs e bs \<Longrightarrow> ops_within ops (length bs) \<Longrightarrow> ent_run L fs ops e = Inr (ops_spec ops bs)"
  unfolding ent_run_def by (rule ent.run_spec)

lemma open_bypass:
  assumes "buf_ok L cont" "mode \<noteq> GDP_MODE_AO" "gdp_datum_new L = Some d0"
    "gdp_gcl_read L w (gcl_handle handle) recno d0 = (st, d)" "EP_STAT_ISOK st" "cont d = bs"
  shows "\<exists>e. gdpfs_log_ent_open L mode w fs handle ent recno True = Inr (st, e, fs) \<and> ent_at L cont fs e bs \<and>
    gdpfs_log_ent_length L fs e = Inr (length bs)"
  using assms buf_okD(1) [OF assms(1)]
  by (simp add: gdpfs_log_ent_open_def gdpfs_log_ent_init_def ent_at_def gdpfs_log_ent_length_def ent_datum_def)

lemma open_cached:
  assumes "buf_ok L cont" "mode \<noteq> GDP_MODE_AO" "0 \<le> recno" "gdp_datum_new L = Some d0"
    "gdp_gcl_read L w (gcl_handle handle) recno d0 = (st, d)" "EP_STAT_ISOK st" "cont d = bs"
    "\<not> cdeny fs (gname handle, recno)" "cfiles fs (gname handle, recno) \<in> {None, Some bs}" "length bs \<le> cquota fs"
  shows "\<exists>e fs'. gdpfs_log_ent_open L mode w fs handle ent recno False = Inr (GDPFS_STAT_OK, e, fs') \<and>
    cfiles fs' = (cfiles fs)((gname handle, recno) \<mapsto> bs) \<and> ent_at L cont fs' e bs \<and> gdpfs_log_ent_length L fs' e = Inr (length bs)"
proof (cases "cfiles fs (gname handle, recno)")
  case None
  obtain out d' where r: "gdp_buf_read L d (length bs) = (out, d')" by fastforce
  then have "out = bs" using buf_okD(3) [OF assms(1) r] assms(7) by simp
  then show ?thesis using assms None r buf_okD(1) [OF assms(1)]
    by (simp add: gdpfs_log_ent_open_def ent_fill_cache_def gdpfs_log_ent_init_def ent_at_def gdpfs_log_ent_length_def ent_file_def Let_def)
next
  case (Some c)
  then have "cfiles fs = (cfiles fs)((gname handle, recno) \<mapsto> bs)" using assms(9) by (simp add: fun_upd_idem)
  then show ?thesis using assms Some
    by (simp add: gdpfs_log_ent_open_def ent_at_def gdpfs_log_ent_length_def ent_file_def Let_def)
qed

text \<open>
  C39: the cache of log records is transparent. Opening a record through the cache, whether it is
  filled by this call or by an earlier one, and opening it past the cache give entries of the same
  length on which every sequence of reads, peeks and drains returns the same, namely the bytes
  of the record from front to back; and the cache file then holds the record.
\<close>

theorem log_entry_cache_transparent:
  assumes "buf_ok L cont" "mode \<noteq> GDP_MODE_AO" "0 \<le> recno" "gdp_datum_new L = Some d0"
    "gdp_gcl_read L w (gcl_handle handle) recno d0 = (st, d)" "EP_STAT_ISOK st" "cont d = bs"
    "\<not> cdeny fs (gname handle, recno)" "cfiles fs (gname handle, recno) \<in> {None, Some bs}" "length bs \<le> cquota fs"
    "ops_within ops (length bs)"
  shows "\<exists>e1 e2 fs'. gdpfs_log_ent_open L mode w fs handle ent recno False = Inr (GDPFS_STAT_OK, e1, fs') \<and>
    gdpfs_log_ent_open L mode w fs handle ent recno True = Inr (st, e2, fs) \<and>
    cfiles fs' (gname handle, recno) = Some bs \<and>
    gdpfs_log_ent_length L fs' e1 = Inr (length bs) \<and> gdpfs_log_ent_length L fs e2 = Inr (length bs) \<and>
    ent_run L fs' ops e1 = Inr (ops_spec ops bs) \<and> ent_run L fs ops e2 = Inr (ops_spec ops bs)"
  using open_cached [OF assms(1-10), of ent] open_bypass [OF assms(1,2,4-7), of fs ent] ent_run_at [OF _ assms(11)]
  by fastforce

text \<open>A library whose data are lists of bytes and whose logs are lists of records.\<close>

definition list_lib :: "(gdp_name \<Rightarrow> u8 list list, int \<times> u8 list) gdp_lib" where
  "list_lib = \<lparr>gdp_gcl_open = (\<lambda>w n m. EP_STAT_OK), gdp_gcl_close = (\<lambda>w n. EP_STAT_OK),
     gdp_gcl_append = (\<lambda>w n d. (EP_STAT_OK, w(n := w n @ [snd d]))),
     gdp_gcl_append_async = (\<lambda>w n d. (EP_STAT_OK, w(n := w n @ [snd d]))),
     gdp_gcl_read = (\<lambda>w n r d. let r = (if r = -1 then int (length (w n)) else r) in
        if 1 \<le> r \<and> r \<le> int (length (w n)) then (EP_STAT_OK, (r, w n ! nat (r - 1))) else (GDP_STAT_NOTFOUND, d)),
     gdp_datum_new = Some (0, []), gdp_datum_getrecno = fst, gdp_buf_getlength = (\<lambda>d. length (snd d)),
     gdp_buf_read = (\<lambda>d n. (take n (snd d), (fst d, drop n (snd d)))), gdp_buf_peek = (\<lambda>d n. take n (snd d)),
     gdp_buf_drain = (\<lambda>d n. (0, (fst d, drop n (snd d)))), gdp_buf_write = (\<lambda>d bs. (0, (fst d, snd d @ bs)))\<rparr>"

definition empty_cache :: cache_dir where
  "empty_cache = \<lparr>cfiles = (\<lambda>_. None), cdeny = (\<lambda>_. False), cquota = 1000\<rparr>"

definition log7 :: gdpfs_log where
  "log7 = \<lparr>gcl_handle = [7], gname = [7]\<rparr>"

lemma list_lib_ok: "buf_ok list_lib snd"
  by (simp add: buf_ok_def list_lib_def)

theorem log_entry_cache_transparent_witness:
  "\<exists>e1 e2 fs'. gdpfs_log_ent_open list_lib GDP_MODE_RA (\<lambda>_. [[1], [2, 3, 4]]) empty_cache log7
       (snd (gdpfs_log_ent_init list_lib)) 2 False = Inr (GDPFS_STAT_OK, e1, fs') \<and>
     gdpfs_log_ent_open list_lib GDP_MODE_RA (\<lambda>_. [[1], [2, 3, 4]]) empty_cache log7
       (snd (gdpfs_log_ent_init list_lib)) 2 True = Inr (EP_STAT_OK, e2, empty_cache) \<and>
     ent_run list_lib fs' [Ent_Peek 1, Ent_Drain 1, Ent_Read 5] e1 = Inr [(1, [2]), (0, []), (2, [3, 4])] \<and>
     ent_run list_lib empty_cache [Ent_Peek 1, Ent_Drain 1, Ent_Read 5] e2 = Inr [(1, [2]), (0, []), (2, [3, 4])]"
proof -
  let ?w = "\<lambda>_ :: gdp_name. [[1], [2, 3, 4 :: u8]]"
  have r: "gdp_gcl_read list_lib ?w (gcl_handle log7) 2 (0, []) = (EP_STAT_OK, (2, [2, 3, 4]))"
    by (simp add: list_lib_def)
  have n: "gdp_datum_new list_lib = Some (0, [])" by (simp add: list_lib_def)
  show ?thesis
    using log_entry_cache_transparent [OF list_lib_ok _ _ n r, of GDP_MODE_RA "[2, 3, 4]" empty_cache "[Ent_Peek 1, Ent_Drain 1, Ent_Read 5]"
        "snd (gdpfs_log_ent_init list_lib)"]
    by (auto simp: EP_STAT_ISOK_def empty_cache_def)
qed

text \<open>
  C40: a failed read poisons the cache. When the log daemon does not return a record that is not cached
  yet, \<open>gdpfs_log_ent_open\<close> reports the failure but leaves an empty cache file behind; every later open of
  the record through the cache succeeds with an entry of length 0, whatever the daemon would return.
\<close>

theorem failed_read_poisons_cache:
  assumes "mode \<noteq> GDP_MODE_AO" "0 \<le> recno" "gdp_datum_new L = Some d0" "\<not> cdeny fs (gname handle, recno)"
    "cfiles fs (gname handle, recno) = None" "\<not> EP_STAT_ISOK (fst (gdp_gcl_read L w (gcl_handle handle) recno d0))"
  shows "\<exists>st e fs'. gdpfs_log_ent_open L mode w fs handle ent recno False = Inr (st, e, fs') \<and> \<not> EP_STAT_ISOK st \<and>
    (\<forall>w' ent. \<exists>e'. gdpfs_log_ent_open L mode w' fs' handle ent recno False = Inr (GDPFS_STAT_OK, e', fs') \<and>
       gdpfs_log_ent_length L fs' e' = Inr 0)"
proof -
  obtain st d where r: "gdp_gcl_read L w (gcl_handle handle) recno d0 = (st, d)" by fastforce
  let ?fs = "fs\<lparr>cfiles := (cfiles fs)((gname handle, recno) \<mapsto> [])\<rparr>"
  have "\<exists>e. gdpfs_log_ent_open L mode w fs handle ent recno False =
      Inr (if st = GDP_STAT_NOTFOUND then GDPFS_STAT_NOTFOUND else st, e, ?fs)"
    using assms r by (simp add: gdpfs_log_ent_open_def ent_fill_cache_def gdpfs_log_ent_init_def ent_open_fail_def Let_def)
  moreover have "\<not> EP_STAT_ISOK (if st = GDP_STAT_NOTFOUND then GDPFS_STAT_NOTFOUND else st)"
    using assms(6) r by (simp add: EP_STAT_ISOK_def)
  moreover have "\<exists>e'. gdpfs_log_ent_open L mode w' ?fs handle ent recno False = Inr (GDPFS_STAT_OK, e', ?fs) \<and>
      gdpfs_log_ent_length L ?fs e' = Inr 0" for w' ent
    using assms by (simp add: gdpfs_log_ent_open_def gdpfs_log_ent_length_def ent_file_def Let_def)
  ultimately show ?thesis by blast
qed

theorem failed_read_poisons_cache_witness:
  "\<exists>st e fs' e'. gdpfs_log_ent_open list_lib GDP_MODE_RA (\<lambda>_. []) empty_cache log7 (snd (gdpfs_log_ent_init list_lib)) 1 False
       = Inr (st, e, fs') \<and> \<not> EP_STAT_ISOK st \<and>
     gdpfs_log_ent_open list_lib GDP_MODE_RA (\<lambda>_. [[5, 6]]) fs' log7 (snd (gdpfs_log_ent_init list_lib)) 1 False
       = Inr (GDPFS_STAT_OK, e', fs') \<and> gdpfs_log_ent_length list_lib fs' e' = Inr 0"
  using failed_read_poisons_cache [of GDP_MODE_RA 1 list_lib "(0, [])" empty_cache log7 "\<lambda>_. []" "snd (gdpfs_log_ent_init list_lib)"]
  by (fastforce simp: list_lib_def empty_cache_def EP_STAT_ISOK_def)

end
