(* ===== verification/File_State.thy ===== *)
theory File_State
  imports Bitmap DList Posix_File Fig_Iter Fig_Ckpt Log_Entry
begin

text \<open>
  The file layer, \<^verbatim>\<open>src/gdpfs_file.c\<close>: its state, file information, the local cache, reference counts, the
  list of recently closed files, checkpoints and the callbacks of the log daemon. A call runs
  under its locks and is one step; callbacks are events that wait in \<open>pending\<close>.
\<close>

section \<open>The log service\<close>

text \<open>
  The log layer as the file layer uses it, at the level of decoded records: \<open>'w\<close> is the state of the
  log daemon. Record number -1 asks for the last record; a read returns the number it found.
\<close>

record 'w log_service =
  svc_open :: "'w \<Rightarrow> gdp_name \<Rightarrow> ep_stat"
  svc_append :: "'w \<Rightarrow> gdp_name \<Rightarrow> log_rec \<Rightarrow> ep_stat \<times> 'w"
  svc_read :: "'w \<Rightarrow> gdp_name \<Rightarrow> int \<Rightarrow> ep_stat + int \<times> log_rec"

section \<open>Data\<close>

definition MAX_FHS :: nat where
  "MAX_FHS = 1024"

definition RC_CAP :: int where
  "RC_CAP = 256"

definition MAGIC_NUMBER :: u64 where
  "MAGIC_NUMBER = 0xb531479b64f64e0d"

record gdpfs_file =
  log_handle :: gdp_name
  hash_key :: gdp_name
  ref_count :: u32
  cache_fd :: "gdp_name option"
  new_file :: bool
  info_cache_valid :: bool
  info_cache :: gdpfs_file_info
  last_recno :: int
  outstanding_reqs :: int
  index_flush_reqs :: int
  recently_closed :: bool
  figtree_of :: figtree
  figtree_initialized :: bool

datatype fevent =
    Free_Fileref nat ep_stat
  | Chkpt_Finish "nat option"

text \<open>
  The static variables of the file, the heap of file structures, the nodes of all indexes, the
  files of the cache directory, the events that wait, and the state of the log layer. A file
  structure and its list element \<open>rc_elem\<close> have one address; the list of recently closed files has
  its head and tail at addresses 0 and 1. \<open>cblk\<close> and \<open>cquota_f\<close> are the block size and the largest file
  size of the local file system, \<open>cdeny_f\<close> the cache files that cannot be opened.
\<close>

record 'w fsys =
  fhs :: "bitmap_t option"
  files :: "nat option list"
  file_hash :: "gdp_name \<Rightarrow> nat option"
  fmem :: "nat \<Rightarrow> gdpfs_file option"
  fnext :: nat
  rc_links :: links
  recently_closed_size :: int
  use_cache :: bool
  nheap :: heap
  cache_files :: "gdp_name \<Rightarrow> pfile option"
  cblk :: nat
  cquota_f :: nat
  cdeny_f :: "gdp_name \<Rightarrow> bool"
  pending :: "fevent list"
  ring :: precreated
  io_mode :: gdp_iomode
  world :: 'w

definition rc_list :: nat where
  "rc_list = 0"

definition get_file :: "'w fsys \<Rightarrow> nat \<Rightarrow> gdpfs_file res" where
  "get_file s p = (case fmem s p of None \<Rightarrow> Inl Bad_Pointer | Some f \<Rightarrow> Inr f)"

definition put_file :: "'w fsys \<Rightarrow> nat \<Rightarrow> gdpfs_file \<Rightarrow> 'w fsys" where
  "put_file s p f = s\<lparr>fmem := (fmem s)(p \<mapsto> f)\<rparr>"

text \<open>\<open>gdpfs_log_ent_open\<close> past the cache and \<open>gdpfs_log_append\<close>, with the mode checks of the log layer.\<close>

definition rec_open :: "'w log_service \<Rightarrow> 'w fsys \<Rightarrow> gdp_name \<Rightarrow> int \<Rightarrow> ep_stat + int \<times> log_rec" where
  "rec_open S s log rno =
     (if io_mode s = GDP_MODE_AO then Inl GDPFS_STAT_BADLOGMODE
      else case svc_read S (world s) log rno of
        Inl e \<Rightarrow> Inl (if e = GDP_STAT_NOTFOUND then GDPFS_STAT_NOTFOUND else e)
      | Inr r \<Rightarrow> Inr r)"

definition rec_append :: "'w log_service \<Rightarrow> 'w fsys \<Rightarrow> gdp_name \<Rightarrow> log_rec \<Rightarrow> ep_stat \<times> 'w fsys" where
  "rec_append S s log r =
     (if io_mode s = GDP_MODE_RO then (GDPFS_STAT_BADLOGMODE, s)
      else let (estat, w) = svc_append S (world s) log r in (estat, s\<lparr>world := w\<rparr>))"

text \<open>The log an index reads its nodes from.\<close>

definition log_of :: "'w log_service \<Rightarrow> 'w fsys \<Rightarrow> gdp_name \<Rightarrow> gdp_log" where
  "log_of S s log rno = (case rec_open S s log rno of Inl _ \<Rightarrow> None | Inr (_, r) \<Rightarrow> Some r)"

section \<open>File information\<close>

definition no_info :: "gdpfs_file_type \<Rightarrow> gdpfs_file_info" where
  "no_info ft = \<lparr>file_size = 0, file_type = ft, file_perm = 0\<rparr>"

definition file_load_info_cache :: "'w log_service \<Rightarrow> 'w fsys \<Rightarrow> nat \<Rightarrow> (ep_stat \<times> 'w fsys) res" where
  "file_load_info_cache S s p =
     bindR (get_file s p) (\<lambda>f.
     case rec_open S s (log_handle f) (-1) of
       Inl estat \<Rightarrow>
         if estat = GDPFS_STAT_NOTFOUND
         then Inr (GDPFS_STAT_OK, put_file s p (f\<lparr>info_cache := no_info GDPFS_FILE_TYPE_NEW\<rparr>))
         else Inr (estat, put_file s p (f\<lparr>info_cache := no_info GDPFS_FILE_TYPE_UNKNOWN\<rparr>))
     | Inr (_, r) \<Rightarrow>
         Inr (GDPFS_STAT_OK, put_file s p (f\<lparr>info_cache := \<lparr>file_size = file_size (rmeta r),
           file_type = file_type (rmeta r), file_perm = file_perm (rmeta r)\<rparr>\<rparr>)))"

text \<open>The information itself is then in the file structure, where the callers change it.\<close>

definition file_get_info_raw :: "'w log_service \<Rightarrow> 'w fsys \<Rightarrow> nat \<Rightarrow> (ep_stat \<times> 'w fsys) res" where
  "file_get_info_raw S s p =
     bindR (get_file s p) (\<lambda>f.
     if info_cache_valid f then Inr (GDPFS_STAT_OK, s)
     else bindR (file_load_info_cache S s p) (\<lambda>(estat, s).
       if \<not> EP_STAT_ISOK estat then Inr (estat, s)
       else bindR (get_file s p) (\<lambda>f. Inr (GDPFS_STAT_OK, put_file s p (f\<lparr>info_cache_valid := True\<rparr>)))))"

definition lookup_fh :: "'w fsys \<Rightarrow> u64 \<Rightarrow> nat option res" where
  "lookup_fh s fh =
     bindR (bitmap_is_set (fhs s) fh) (\<lambda>set_bit.
     if set_bit < 0 then Inr None
     else if unat fh < length (files s) then Inr (files s ! unat fh) else Inl Out_Of_Bounds)"

definition gdpfs_file_get_info :: "'w log_service \<Rightarrow> 'w fsys \<Rightarrow> u64 \<Rightarrow> (ep_stat \<times> nat option \<times> 'w fsys) res" where
  "gdpfs_file_get_info S s fh =
     bindR (lookup_fh s fh) (\<lambda>file.
     case file of
       None \<Rightarrow> Inr (GDPFS_STAT_BADFH, None, s)
     | Some p \<Rightarrow> bindR (file_get_info_raw S s p) (\<lambda>(estat, s). Inr (estat, Some p, s)))"

definition gdpfs_file_gname :: "'w fsys \<Rightarrow> u64 \<Rightarrow> gdp_name res" where
  "gdpfs_file_gname s fh =
     (if unat fh < length (files s)
      then bindR (deref (files s ! unat fh)) (\<lambda>p. bindR (get_file s p) (\<lambda>f. Inr (hash_key f)))
      else Inl Out_Of_Bounds)"

section \<open>Checkpoints\<close>

definition chkpt_meta :: "gdpfs_file_info \<Rightarrow> nat \<Rightarrow> gdpfs_fmeta" where
  "chkpt_meta info n = \<lparr>file_size = file_size info, file_type = file_type info, file_perm = file_perm info,
     logent_type = GDPFS_LOGENT_TYPE_CHKPT, ent_offset = -1, ent_size = of_nat n, magic = MAGIC_NUMBER\<rparr>"

definition file_chkpt :: "'w log_service \<Rightarrow> 'w fsys \<Rightarrow> nat \<Rightarrow> bool \<Rightarrow> 'w fsys res" where
  "file_chkpt S s p do_callback =
     bindR (file_get_info_raw S s p) (\<lambda>(estat, s).
     if \<not> EP_STAT_ISOK estat then Inl App_Fatal
     else
       bindR (get_file s p) (\<lambda>f.
       let f = f\<lparr>last_recno := last_recno f + 1\<rparr> in
       bindR (get_dirty (nheap s) (figtree_of f) (last_recno f)) (\<lambda>(chkpt, h).
       let s = s\<lparr>nheap := h\<rparr> in
       if chkpt \<noteq> [] then
         let f = f\<lparr>index_flush_reqs := index_flush_reqs f + 1\<rparr>;
             r = \<lparr>rmeta = chkpt_meta (info_cache f) (length chkpt * sizeof_ft_node), rbody = Chkpt_Body chkpt\<rparr>;
             (estat, s) = rec_append S (put_file s p f) (log_handle f) r in
         assertR (EP_STAT_ISOK estat) (s\<lparr>pending := pending s @ [Chkpt_Finish (if do_callback then Some p else None)]\<rparr>)
       else Inr (put_file s p f))))"

text \<open>The wait for outstanding requests has no end unless there are none.\<close>

definition file_dealloc :: "'w log_service \<Rightarrow> 'w fsys \<Rightarrow> nat \<Rightarrow> (ep_stat \<times> 'w fsys) res" where
  "file_dealloc S s p =
     bindR (get_file s p) (\<lambda>f.
     if outstanding_reqs f \<noteq> 0 then Inl Blocked
     else bindR (file_chkpt S s p True) (\<lambda>s. Inr (GDPFS_STAT_OK, s)))"

section \<open>Recently closed files\<close>

definition recently_closed_insert :: "'w log_service \<Rightarrow> 'w fsys \<Rightarrow> nat \<Rightarrow> (ep_stat \<times> 'w fsys) res" where
  "recently_closed_insert S s p =
     bindR (get_file s p) (\<lambda>f.
     bindR (assertR (\<not> recently_closed f) ()) (\<lambda>_.
     let s = put_file s p (f\<lparr>recently_closed := True\<rparr>) in
     bindR (list_push_front (rc_links s) rc_list (Some p)) (\<lambda>l.
     let s = s\<lparr>rc_links := l\<rparr> in
     bindR (assertR (recently_closed_size s \<le> RC_CAP \<and> recently_closed_size s \<ge> 0) ()) (\<lambda>_.
     if recently_closed_size s = RC_CAP then
       bindR (list_pop_back (rc_links s) rc_list) (\<lambda>(old, l).
       bindR (deref old) (\<lambda>oldfile.
       let s = s\<lparr>rc_links := l\<rparr> in
       bindR (get_file s oldfile) (\<lambda>fo.
       file_dealloc S (put_file s oldfile (fo\<lparr>recently_closed := False\<rparr>)) oldfile)))
     else Inr (GDPFS_STAT_OK, s\<lparr>recently_closed_size := recently_closed_size s + 1\<rparr>)))))"

definition recently_closed_revive :: "'w fsys \<Rightarrow> nat \<Rightarrow> 'w fsys res" where
  "recently_closed_revive s p =
     bindR (get_file s p) (\<lambda>f.
     bindR (assertR (recently_closed f) ()) (\<lambda>_.
     let s = put_file s p (f\<lparr>recently_closed := False\<rparr>) in
     bindR (list_remove (rc_links s) (Some p)) (\<lambda>(_, l).
     Inr (s\<lparr>rc_links := l, recently_closed_size := recently_closed_size s - 1\<rparr>))))"

section \<open>Reference counts\<close>

definition file_unref :: "'w log_service \<Rightarrow> 'w fsys \<Rightarrow> nat \<Rightarrow> (ep_stat \<times> 'w fsys) res" where
  "file_unref S s p =
     bindR (get_file s p) (\<lambda>f.
     let f = f\<lparr>ref_count := ref_count f - 1\<rparr>; s = put_file s p f in
     if ref_count f = 0 then recently_closed_insert S s p else Inr (GDPFS_STAT_OK, s))"

definition file_ref :: "'w fsys \<Rightarrow> nat \<Rightarrow> (ep_stat \<times> 'w fsys) res" where
  "file_ref s p =
     bindR (get_file s p) (\<lambda>f. Inr (EP_STAT_OK, put_file s p (f\<lparr>ref_count := ref_count f + 1\<rparr>)))"

definition gdpfs_file_close :: "'w log_service \<Rightarrow> 'w fsys \<Rightarrow> u64 \<Rightarrow> (ep_stat \<times> 'w fsys) res" where
  "gdpfs_file_close S s fh =
     bindR (lookup_fh s fh) (\<lambda>file.
     case file of
       None \<Rightarrow> Inr (GDPFS_STAT_BADFH, s)
     | Some p \<Rightarrow>
         bindR (bitmap_release (fhs s) fh) (\<lambda>(_, b).
         file_unref S (s\<lparr>fhs := b\<rparr>) p))"

section \<open>Callbacks\<close>

definition free_fileref :: "'w log_service \<Rightarrow> 'w fsys \<Rightarrow> nat \<Rightarrow> 'w fsys res" where
  "free_fileref S s p =
     bindR (get_file s p) (\<lambda>f.
     let s = put_file s p (f\<lparr>outstanding_reqs := outstanding_reqs f - 1\<rparr>) in
     bindR (file_unref S s p) (\<lambda>(_, s). Inr s))"

text \<open>
  The callback of a checkpoint in two parts, between which all locks are free: the decision whether
  the file can go, and its removal.
\<close>

definition chkpt_finish_check :: "'w fsys \<Rightarrow> nat \<Rightarrow> (bool \<times> 'w fsys) res" where
  "chkpt_finish_check s p =
     bindR (get_file s p) (\<lambda>f.
     let f = f\<lparr>index_flush_reqs := index_flush_reqs f - 1\<rparr>; s = put_file s p f in
     Inr (index_flush_reqs f = 0 \<and> ref_count f = 0 \<and> \<not> recently_closed f, s))"

definition chkpt_finish_free :: "'w fsys \<Rightarrow> nat \<Rightarrow> 'w fsys res" where
  "chkpt_finish_free s p =
     bindR (get_file s p) (\<lambda>f.
     let s = s\<lparr>file_hash := (file_hash s)(hash_key f := None)\<rparr> in
     bindR (ft_dealloc (nheap s) (figtree_of f)) (\<lambda>(_, h).
     Inr (s\<lparr>nheap := h, fmem := (fmem s)(p := None), rc_links := (rc_links s)(p := None)\<rparr>)))"

definition file_chkpt_finish :: "'w fsys \<Rightarrow> nat option \<Rightarrow> 'w fsys res" where
  "file_chkpt_finish s udata =
     (case udata of
        None \<Rightarrow> Inr s
      | Some p \<Rightarrow> bindR (chkpt_finish_check s p) (\<lambda>(dofree, s). if dofree then chkpt_finish_free s p else Inr s))"

end
