(* ===== verification/File_Io.thy ===== *)
theory File_Io
  imports File_State
begin

text \<open>
  Reading and writing of the file layer, \<^verbatim>\<open>src/gdpfs_file.c\<close>: the local cache, \<open>do_write\<close> and \<open>do_read\<close> with the
  operations on file information that use them.
\<close>

section \<open>The local cache\<close>

text \<open>The descriptor is valid when the cache is in use and the file was opened with it.\<close>

definition cache_of :: "'w fsys \<Rightarrow> nat \<Rightarrow> (gdp_name \<times> pfile) res" where
  "cache_of s p =
     bindR (get_file s p) (\<lambda>f.
     case cache_fd f of
       None \<Rightarrow> Inl Bad_Pointer
     | Some n \<Rightarrow> (case cache_files s n of None \<Rightarrow> Inl Bad_Pointer | Some c \<Rightarrow> Inr (n, c)))"

definition gdpfs_file_fill_cache :: "'w fsys \<Rightarrow> nat \<Rightarrow> u8 list \<Rightarrow> u64 \<Rightarrow> bool \<Rightarrow> (ep_stat \<times> 'w fsys) res" where
  "gdpfs_file_fill_cache s p buffer off overwrite =
     (if \<not> use_cache s then Inr (GDPFS_STAT_INVLDMODE, s)
      else if overwrite then
        bindR (cache_of s p) (\<lambda>(n, c).
        case pseek (sint off) of
          None \<Rightarrow> Inr (GDPFS_STAT_OOMEM, s)
        | Some pos \<Rightarrow>
            let (written, c) = pwrite (cblk s) (cquota_f s) c pos buffer;
                s = s\<lparr>cache_files := (cache_files s)(n \<mapsto> c)\<rparr> in
            Inr (if written \<noteq> length buffer then GDPFS_STAT_OOMEM else GDPFS_STAT_OK, s))
      else Inl App_Fatal)"

text \<open>
  The bytes of a hit, \<open>None\<close> otherwise. The file position before the call is not part of the state, so
  a negative offset, for which \<open>lseek\<close> fails and the position is read, is a fault.
\<close>

definition get_cache_check :: "'w fsys \<Rightarrow> nat \<Rightarrow> nat \<Rightarrow> u64 \<Rightarrow> u8 list option res" where
  "get_cache_check s p sz off =
     bindR (cache_of s p) (\<lambda>(n, c).
     case pseek (sint off) of
       None \<Rightarrow> Inl Out_Of_Bounds
     | Some pos \<Rightarrow> let out = pread c pos sz in Inr (if length out \<noteq> sz then None else Some out))"

definition gdpfs_file_get_cache :: "'w fsys \<Rightarrow> nat \<Rightarrow> nat \<Rightarrow> u64 \<Rightarrow> u8 list option res" where
  "gdpfs_file_get_cache s p sz off =
     (if \<not> use_cache s then Inr None
      else
        bindR (get_file s p) (\<lambda>f.
        if new_file f then get_cache_check s p sz off
        else if sz = 0 then Inr (Some [])
        else
          bindR (cache_of s p) (\<lambda>(n, c).
          case pseek_hole (cblk s) c (sint off) of
            None \<Rightarrow> Inr None
          | Some lrv \<Rightarrow>
              if (of_nat lrv :: u64) \<ge> off + of_nat sz then get_cache_check s p sz off else Inr None)))"

section \<open>Writing\<close>

definition data_meta :: "gdpfs_file_info \<Rightarrow> u64 \<Rightarrow> u64 \<Rightarrow> gdpfs_fmeta" where
  "data_meta info off sz = \<lparr>file_size = file_size info, file_type = file_type info, file_perm = file_perm info,
     logent_type = GDPFS_LOGENT_TYPE_DATA, ent_offset = off, ent_size = sz, magic = MAGIC_NUMBER\<rparr>"

text \<open>The number of bytes written; byte indices of the index have 32 bits.\<close>

definition do_write :: "'w log_service \<Rightarrow> 'w fsys \<Rightarrow> u64 \<Rightarrow> u8 list \<Rightarrow> u64 \<Rightarrow> gdpfs_file_info \<Rightarrow> (u64 \<times> 'w fsys) res" where
  "do_write S s fh buf off info =
    (let sz = of_nat (length buf) :: u64; r = \<lparr>rmeta = data_meta info off sz, rbody = Data_Body buf\<rparr> in
     bindR (lookup_fh s fh) (\<lambda>file.
     case file of
       None \<Rightarrow> Inr (0, s)
     | Some p \<Rightarrow>
         bindR (file_ref s p) (\<lambda>(_, s).
         bindR (get_file s p) (\<lambda>f.
         let s = put_file s p (f\<lparr>outstanding_reqs := outstanding_reqs f + 1\<rparr>) in
         bindR (if use_cache s then bindR (gdpfs_file_fill_cache s p buf off True) (\<lambda>(_, s). Inr s) else Inr s) (\<lambda>s.
         bindR (get_file s p) (\<lambda>f.
         let f = f\<lparr>last_recno := last_recno f + 1\<rparr>; s = put_file s p f in
         bindR (if sz > 0
                then bindR (ft_write (log_of S s (log_handle f)) (nheap s) (figtree_of f) (ucast off) (ucast (off + sz - 1)) (last_recno f))
                       (\<lambda>(tr, h). Inr (put_file (s\<lparr>nheap := h\<rparr>) p (f\<lparr>figtree_of := tr\<rparr>)))
                else Inr s) (\<lambda>s.
         let (estat, s) = rec_append S s (log_handle f) r in
         if EP_STAT_ISOK estat
         then Inr (sz, s\<lparr>pending := pending s @ [Free_Fileref p estat]\<rparr>)
         else Inr (0, s))))))))"

text \<open>\<open>max\<close> compares unsigned 64-bit sizes; the information in the file structure changes in place.\<close>

definition change_info :: "'w fsys \<Rightarrow> nat \<Rightarrow> (gdpfs_file_info \<Rightarrow> gdpfs_file_info) \<Rightarrow> (gdpfs_file_info \<times> 'w fsys) res" where
  "change_info s p upd =
     bindR (get_file s p) (\<lambda>f.
     let info = upd (info_cache f) in Inr (info, put_file s p (f\<lparr>info_cache := info\<rparr>)))"

definition gdpfs_file_write :: "'w log_service \<Rightarrow> 'w fsys \<Rightarrow> u64 \<Rightarrow> u8 list \<Rightarrow> u64 \<Rightarrow> (u64 \<times> 'w fsys) res" where
  "gdpfs_file_write S s fh buf off =
     bindR (gdpfs_file_get_info S s fh) (\<lambda>(estat, file, s).
     if \<not> EP_STAT_ISOK estat then Inr (0, s)
     else
       bindR (deref file) (\<lambda>p.
       let potential_size = off + of_nat (length buf) in
       bindR (change_info s p (\<lambda>i. i\<lparr>file_size := max (file_size i) potential_size\<rparr>)) (\<lambda>(info, s).
       do_write S s fh buf off info)))"

definition gdpfs_file_ftruncate :: "'w log_service \<Rightarrow> 'w fsys \<Rightarrow> u64 \<Rightarrow> u64 \<Rightarrow> (u64 \<times> 'w fsys) res" where
  "gdpfs_file_ftruncate S s fh new_size =
     bindR (gdpfs_file_get_info S s fh) (\<lambda>(estat, file, s).
     if \<not> EP_STAT_ISOK estat then Inr (0, s)
     else
       bindR (deref file) (\<lambda>p.
       bindR (change_info s p (\<lambda>i. i\<lparr>file_size := 0\<rparr>)) (\<lambda>(info, s).
       do_write S s fh [] 0 info)))"

definition gdpfs_file_set_perm :: "'w log_service \<Rightarrow> 'w fsys \<Rightarrow> u64 \<Rightarrow> 16 word \<Rightarrow> (ep_stat \<times> 'w fsys) res" where
  "gdpfs_file_set_perm S s fh perm =
     bindR (gdpfs_file_get_info S s fh) (\<lambda>(estat, file, s).
     if \<not> EP_STAT_ISOK estat then Inr (estat, s)
     else
       bindR (deref file) (\<lambda>p.
       bindR (change_info s p (\<lambda>i. i\<lparr>file_perm := perm\<rparr>)) (\<lambda>(info, s).
       bindR (do_write S s fh [] 0 info) (\<lambda>(_, s). Inr (GDPFS_STAT_OK, s)))))"

definition gdpfs_file_set_info :: "'w log_service \<Rightarrow> 'w fsys \<Rightarrow> u64 \<Rightarrow> gdpfs_file_info \<Rightarrow> (ep_stat \<times> 'w fsys) res" where
  "gdpfs_file_set_info S s fh info = bindR (do_write S s fh [] 0 info) (\<lambda>(_, s). Inr (GDPFS_STAT_OK, s))"

section \<open>Reading\<close>

text \<open>Storing bytes into the caller's buffer.\<close>

definition buf_put :: "u8 list \<Rightarrow> int \<Rightarrow> u8 list \<Rightarrow> u8 list res" where
  "buf_put buf i bs =
     (if bs = [] then Inr buf
      else if 0 \<le> i \<and> nat i + length bs \<le> length buf
      then Inr (take (nat i) buf @ bs @ drop (nat i + length bs) buf)
      else Inl Out_Of_Bounds)"

text \<open>The bytes of a record from an absolute offset on; the status of the open is not checked.\<close>

definition rec_bytes :: "'w log_service \<Rightarrow> 'w fsys \<Rightarrow> gdp_name \<Rightarrow> int \<Rightarrow> u64 \<Rightarrow> nat \<Rightarrow> u8 list res" where
  "rec_bytes S s log rno from len =
     (case rec_open S s log rno of
        Inl _ \<Rightarrow> Inl Bad_Pointer
      | Inr (_, r) \<Rightarrow>
          if of_nat (body_length (rbody r)) \<noteq> ent_size (rmeta r) then Inl App_Fatal
          else (case rbody r of
            Chkpt_Body _ \<Rightarrow> Inl Undecodable
          | Data_Body bs \<Rightarrow>
              let out = take len (drop (unat (from - ent_offset (rmeta r))) bs) in
              assertR (length out = len) out))"

text \<open>
  One round of the loop over the pieces of the index. A negative value would start an asynchronous
  read without a callback, and the final wait would not end.
\<close>

definition read_piece :: "'w log_service \<Rightarrow> 'w fsys \<Rightarrow> nat \<Rightarrow> gdp_name \<Rightarrow> u64 \<Rightarrow> u8 list \<Rightarrow> fig \<Rightarrow> u8 list res" where
  "read_piece S s p log off buf indexgroup =
     (let l = left (fig_irange indexgroup); len = unat (right (fig_irange indexgroup) - l + 1);
          i = uint l - uint off in
      if fig_value indexgroup = 0 then
        bindR (gdpfs_file_get_cache s p len (ucast l)) (\<lambda>hit.
        case hit of None \<Rightarrow> Inl Assert_Fail | Some bs \<Rightarrow> buf_put buf i bs)
      else if fig_value indexgroup > 0 then
        bindR (rec_bytes S s log (fig_value indexgroup) (ucast l) len) (\<lambda>bs. buf_put buf i bs)
      else Inl Blocked)"

text \<open>The loop; \<open>n\<close> bounds the number of pieces.\<close>

primrec read_loop ::
  "nat \<Rightarrow> 'w log_service \<Rightarrow> 'w fsys \<Rightarrow> nat \<Rightarrow> gdp_name \<Rightarrow> u64 \<Rightarrow> figtree_iter \<Rightarrow> u8 list \<Rightarrow> (u8 list \<times> 'w fsys) res" where
  "read_loop 0 S s p log off it buf = Inl Out_Of_Fuel"
| "read_loop (Suc n) S s p log off it buf =
     bindR (fti_next (log_of S s log) (nheap s) it) (\<lambda>(nxt, it, h).
     let s = s\<lparr>nheap := h\<rparr> in
     case nxt of
       None \<Rightarrow> Inr (buf, s)
     | Some indexgroup \<Rightarrow>
         bindR (read_piece S s p log off buf indexgroup) (\<lambda>buf. read_loop n S s p log off it buf))"

definition do_read :: "'w log_service \<Rightarrow> 'w fsys \<Rightarrow> u64 \<Rightarrow> u64 \<Rightarrow> u64 \<Rightarrow> (u8 list \<times> 'w fsys) res" where
  "do_read S s fh sz off =
     bindR (lookup_fh s fh) (\<lambda>file.
     case file of
       None \<Rightarrow> Inr ([], s)
     | Some p \<Rightarrow>
         bindR (file_get_info_raw S s p) (\<lambda>(estat, s).
         if \<not> EP_STAT_ISOK estat then Inr ([], s)
         else
           bindR (get_file s p) (\<lambda>f.
           let fsize = file_size (info_cache f) in
           if sz + off > fsize \<and> off > fsize then Inr ([], s)
           else
             let sz = (if sz + off > fsize then fsize - off else sz) in
             bindR (if use_cache s then gdpfs_file_get_cache s p (unat sz) off else Inr None) (\<lambda>hit.
             case hit of
               Some bs \<Rightarrow> Inr (bs, s)
             | None \<Rightarrow>
                 if sz > 0 then
                   bindR (ft_read (log_of S s (log_handle f)) (nheap s) (figtree_of f) (ucast off) (ucast (off + sz - 1))) (\<lambda>(it, h).
                   bindR (read_loop (Suc (unat sz)) S (s\<lparr>nheap := h\<rparr>) p (log_handle f) off it (replicate (unat sz) 0)) (\<lambda>(buf, s).
                   if unat fh < length (files s)
                   then bindR (deref (files s ! unat fh)) (\<lambda>p.
                        bindR (gdpfs_file_fill_cache s p buf off True) (\<lambda>(_, s). Inr (buf, s)))
                   else Inl Out_Of_Bounds))
                 else Inr ([], s)))))"

definition gdpfs_file_read :: "'w log_service \<Rightarrow> 'w fsys \<Rightarrow> u64 \<Rightarrow> u64 \<Rightarrow> u64 \<Rightarrow> (u8 list \<times> 'w fsys) res" where
  "gdpfs_file_read S s fh sz off = do_read S s fh sz off"

end
