(* ===== verification/File_Open.thy ===== *)
theory File_Open
  imports File_Io
begin

text \<open>
  Opening, creating and closing files, \<^verbatim>\<open>src/gdpfs_file.c\<close>: \<open>open_file\<close> with the replay of a log into the index
  and the cache, the start and the end of the layer, and the steps an execution consists of.
\<close>

section \<open>Replay of a log\<close>

text \<open>
  The first loop: records from the last one down to the newest checkpoint, oldest first in the
  result, with the node at the root of the checkpoint.
\<close>

primrec replay_scan ::
  "'w log_service \<Rightarrow> 'w fsys \<Rightarrow> gdp_name \<Rightarrow> nat \<Rightarrow> (int \<times> log_rec) list \<Rightarrow> (ft_node option \<times> (int \<times> log_rec) list) res" where
  "replay_scan S s log 0 ents = Inr (None, ents)"
| "replay_scan S s log (Suc n) ents =
     (case rec_open S s log (int (Suc n)) of
        Inl _ \<Rightarrow> Inl Assert_Fail
      | Inr (rno, r) \<Rightarrow>
          if of_nat (body_length (rbody r)) \<noteq> ent_size (rmeta r) then Inl App_Fatal
          else if logent_type (rmeta r) = GDPFS_LOGENT_TYPE_CHKPT then
            bindR (assertR (ent_size (rmeta r) mod of_nat sizeof_ft_node = 0 \<and> ent_size (rmeta r) > 0) ()) (\<lambda>_.
            bindR (body_node_at (rbody r) (int (body_length (rbody r)) - int sizeof_ft_node)) (\<lambda>rt. Inr (Some rt, ents)))
          else replay_scan S s log n ((rno, r) # ents))"

text \<open>The cache is filled in pieces of 1024 bytes.\<close>

function fill_chunks :: "'w fsys \<Rightarrow> nat \<Rightarrow> u8 list \<Rightarrow> u64 \<Rightarrow> 'w fsys res" where
  "fill_chunks s p bs off =
     (if bs = [] then Inr s
      else
        bindR (gdpfs_file_fill_cache s p (take 1024 bs) off True) (\<lambda>(estat, s).
        bindR (assertR (EP_STAT_ISOK estat) ()) (\<lambda>_.
        fill_chunks s p (drop 1024 bs) (off + of_nat (length (take 1024 bs))))))"
  by pat_completeness auto
termination
  by (relation "measure (\<lambda>(s, p, bs, off). length bs)") auto

declare fill_chunks.simps [simp del]

definition replay_ent :: "'w log_service \<Rightarrow> nat \<Rightarrow> 'w fsys \<Rightarrow> int \<times> log_rec \<Rightarrow> 'w fsys res" where
  "replay_ent S p s ent =
     (case ent of (rno, r) \<Rightarrow>
      if of_nat (body_length (rbody r)) \<noteq> ent_size (rmeta r) then Inl App_Fatal
      else if ent_size (rmeta r) > 0 then
        bindR (get_file s p) (\<lambda>f.
        bindR (ft_write (log_of S s (log_handle f)) (nheap s) (figtree_of f) (ucast (ent_offset (rmeta r)))
                 (ucast (ent_offset (rmeta r) + ent_size (rmeta r) - 1)) rno) (\<lambda>(tr, h).
        let s = put_file (s\<lparr>nheap := h\<rparr>) p (f\<lparr>figtree_of := tr\<rparr>) in
        case rbody r of
          Chkpt_Body _ \<Rightarrow> Inl Undecodable
        | Data_Body bs \<Rightarrow> fill_chunks s p bs (ent_offset (rmeta r))))
      else Inr s)"

text \<open>
  The record number of the last record is read from the entry even when it could not be opened; its
  datum has been freed then.
\<close>

definition load_index :: "'w log_service \<Rightarrow> 'w fsys \<Rightarrow> nat \<Rightarrow> 'w fsys res" where
  "load_index S s p =
     bindR (get_file s p) (\<lambda>f.
     case rec_open S s (log_handle f) (-1) of
       Inl _ \<Rightarrow> Inl Bad_Pointer
     | Inr (rno, _) \<Rightarrow>
         let s = put_file s p (f\<lparr>last_recno := rno\<rparr>) in
         bindR (replay_scan S s (log_handle f) (nat rno) []) (\<lambda>(rt, ents).
         bindR (case rt of
                  None \<Rightarrow> ft_init (nheap s)
                | Some nd \<Rightarrow> let (q, h) = mem_alloc (nheap s) nd in Inr (ft_init_with_root (Some q), h)) (\<lambda>(tr, h).
         bindR (get_file s p) (\<lambda>f.
         let s = put_file (s\<lparr>nheap := h\<rparr>) p (f\<lparr>figtree_of := tr\<rparr>) in
         bindR (foldR (replay_ent S p) ents s) (\<lambda>s.
         bindR (get_file s p) (\<lambda>f. Inr (put_file s p (f\<lparr>figtree_initialized := True\<rparr>))))))))"

section \<open>Opening\<close>

definition zero_file :: gdpfs_file where
  "zero_file = \<lparr>log_handle = [], hash_key = [], ref_count = 0, cache_fd = None, new_file = False, info_cache_valid = False,
     info_cache = \<lparr>file_size = 0, file_type = GDPFS_FILE_TYPE_REGULAR, file_perm = 0\<rparr>, last_recno = 0,
     outstanding_reqs = 0, index_flush_reqs = 0, recently_closed = False, figtree_of = \<lparr>root = None\<rparr>,
     figtree_initialized = False\<rparr>"

text \<open>
  The part under \<open>open_lock\<close>: the file structure for a log name, made or found. \<open>Inl\<close> of the status is the
  path to \<open>fail0\<close>; nothing has been entered into a table then.
\<close>

definition open_struct :: "'w log_service \<Rightarrow> 'w fsys \<Rightarrow> gdp_name \<Rightarrow> (ep_stat + nat \<times> 'w fsys) res" where
  "open_struct S s log_name =
     (case file_hash s log_name of
        None \<Rightarrow>
          let estat = svc_open S (world s) log_name in
          if \<not> EP_STAT_ISOK estat then Inr (Inl estat)
          else if use_cache s \<and> cdeny_f s log_name then Inr (Inl GDPFS_STAT_LOCAL_FS_FAIL)
          else
            let p = fnext s;
                f = zero_file\<lparr>log_handle := log_name, hash_key := log_name,
                      cache_fd := (if use_cache s then Some log_name else None)\<rparr>;
                s = s\<lparr>fnext := Suc p, fmem := (fmem s)(p \<mapsto> f),
                      rc_links := (rc_links s)(p \<mapsto> \<lparr>lprev = None, lnext = None\<rparr>),
                      cache_files := (if use_cache s \<and> cache_files s log_name = None
                                      then (cache_files s)(log_name \<mapsto> empty_file) else cache_files s),
                      file_hash := (file_hash s)(log_name \<mapsto> p)\<rparr> in
            Inr (Inr (p, s))
      | Some p \<Rightarrow>
          bindR (get_file s p) (\<lambda>f.
          if recently_closed f then bindR (recently_closed_revive s p) (\<lambda>s. Inr (Inr (p, s)))
          else Inr (Inr (p, s))))"

text \<open>The path to \<open>fail2\<close> closes the handle again.\<close>

definition open_fail2 :: "'w log_service \<Rightarrow> 'w fsys \<Rightarrow> u64 \<Rightarrow> ep_stat \<Rightarrow> (ep_stat \<times> u64 \<times> 'w fsys) res" where
  "open_fail2 S s fh estat = bindR (gdpfs_file_close S s fh) (\<lambda>(_, s). Inr (estat, -1, s))"

text \<open>The check of the file type; the status is not OK on the path to \<open>fail2\<close>.\<close>

definition open_check_type ::
  "'w log_service \<Rightarrow> 'w fsys \<Rightarrow> u64 \<Rightarrow> nat \<Rightarrow> gdpfs_file_type \<Rightarrow> 16 word \<Rightarrow> bool \<Rightarrow> bool \<Rightarrow> (ep_stat \<times> 'w fsys) res" where
  "open_check_type S s fh p ftype perm init strict_init =
     (if ftype = GDPFS_FILE_TYPE_UNKNOWN then Inr (GDPFS_STAT_OK, s)
      else
        bindR (file_get_info_raw S s p) (\<lambda>(estat, s).
        if \<not> EP_STAT_ISOK estat then Inr (estat, s)
        else
          bindR (get_file s p) (\<lambda>f.
          if init then
            if file_type (info_cache f) = GDPFS_FILE_TYPE_NEW then
              bindR (change_info s p (\<lambda>i. i\<lparr>file_size := 0, file_type := ftype, file_perm := perm\<rparr>)) (\<lambda>(info, s).
              bindR (do_write S s fh [] 0 info) (\<lambda>(_, s). Inr (GDPFS_STAT_OK, s)))
            else if file_type (info_cache f) = GDPFS_FILE_TYPE_UNKNOWN \<or> strict_init
            then Inr (GDPFS_STAT_INVLDFTYPE, s)
            else Inr (GDPFS_STAT_OK, s)
          else if file_type (info_cache f) \<noteq> ftype then Inr (GDPFS_STAT_INVLDFTYPE, s)
          else Inr (GDPFS_STAT_OK, s))))"

definition open_index :: "'w log_service \<Rightarrow> 'w fsys \<Rightarrow> nat \<Rightarrow> bool \<Rightarrow> 'w fsys res" where
  "open_index S s p strict_init =
     bindR (get_file s p) (\<lambda>f.
     if strict_init then
       bindR (ft_init (nheap s)) (\<lambda>(tr, h).
       Inr (put_file (s\<lparr>nheap := h\<rparr>) p (f\<lparr>figtree_of := tr, last_recno := 1, figtree_initialized := True\<rparr>)))
     else if \<not> figtree_initialized f then load_index S s p
     else Inr s)"

text \<open>Status, handle and new state; the handle is -1 on failure.\<close>

definition open_file ::
  "'w log_service \<Rightarrow> 'w fsys \<Rightarrow> gdp_name \<Rightarrow> gdpfs_file_type \<Rightarrow> 16 word \<Rightarrow> bool \<Rightarrow> bool \<Rightarrow> (ep_stat \<times> u64 \<times> 'w fsys) res" where
  "open_file S s log_name ftype perm init strict_init =
     bindR (bitmap_reserve (fhs s)) (\<lambda>(fh, b).
     if fh = -1 then Inr (GDPFS_STAT_OOMEM, -1, s)
     else
       bindR (open_struct S (s\<lparr>fhs := b\<rparr>) log_name) (\<lambda>r.
       case r of
         Inl estat \<Rightarrow> bindR (bitmap_release b fh) (\<lambda>(_, b). Inr (estat, -1, s\<lparr>fhs := b\<rparr>))
       | Inr (p, s) \<Rightarrow>
           bindR (file_ref s p) (\<lambda>(_, s).
           if length (files s) \<le> unat fh then Inl Out_Of_Bounds
           else
             let s = s\<lparr>files := (files s)[unat fh := Some p]\<rparr> in
             bindR (get_file s p) (\<lambda>f.
             let s = (if strict_init then put_file s p (f\<lparr>new_file := True\<rparr>) else s) in
             bindR (open_check_type S s fh p ftype perm init strict_init) (\<lambda>(estat, s).
             if \<not> EP_STAT_ISOK estat then open_fail2 S s fh estat
             else bindR (open_index S s p strict_init) (\<lambda>s. Inr (GDPFS_STAT_OK, fh, s)))))))"

definition gdpfs_file_open :: "'w log_service \<Rightarrow> 'w fsys \<Rightarrow> gdp_name \<Rightarrow> (ep_stat \<times> u64 \<times> 'w fsys) res" where
  "gdpfs_file_open S s name = open_file S s name GDPFS_FILE_TYPE_UNKNOWN 0 False False"

definition gdpfs_file_open_type ::
  "'w log_service \<Rightarrow> 'w fsys \<Rightarrow> gdp_name \<Rightarrow> gdpfs_file_type \<Rightarrow> (ep_stat \<times> u64 \<times> 'w fsys) res" where
  "gdpfs_file_open_type S s name ftype = open_file S s name ftype 0 False False"

definition gdpfs_file_open_init ::
  "'w log_service \<Rightarrow> 'w fsys \<Rightarrow> gdp_name \<Rightarrow> gdpfs_file_type \<Rightarrow> 16 word \<Rightarrow> bool \<Rightarrow> (ep_stat \<times> u64 \<times> 'w fsys) res" where
  "gdpfs_file_open_init S s name ftype perm strict_init = open_file S s name ftype perm True strict_init"

text \<open>The name of the log and the handle; the caller waits while no log is precreated.\<close>

definition gdpfs_file_create ::
  "'w log_service \<Rightarrow> 'w fsys \<Rightarrow> gdpfs_file_type \<Rightarrow> 16 word \<Rightarrow> (ep_stat \<times> u64 \<times> gdp_name \<times> 'w fsys) res" where
  "gdpfs_file_create S s ftype perm =
     (case gdpfs_log_get_precreated (ring s) of
        None \<Rightarrow> Inl Blocked
      | Some (log_iname, q) \<Rightarrow>
          bindR (gdpfs_file_open_init S (s\<lparr>ring := q\<rparr>) log_iname ftype perm True) (\<lambda>(estat, fh, s).
          if \<not> EP_STAT_ISOK estat then Inr (estat, fh, log_iname, s)
          else Inr (GDPFS_STAT_OK, fh, log_iname, s)))"

section \<open>Start and end\<close>

text \<open>
  \<open>init_gdpfs_file\<close> when memory and locks are available: the arguments are the mode, the status of the
  log daemon's library, and the state of the local file system. The cache directory is emptied.
\<close>

definition init_gdpfs_file ::
  "ep_stat \<Rightarrow> int \<Rightarrow> bool \<Rightarrow> nat \<Rightarrow> nat \<Rightarrow> (gdp_name \<Rightarrow> bool) \<Rightarrow> bool \<Rightarrow> 'w \<Rightarrow> ep_stat \<times> 'w fsys" where
  "init_gdpfs_file gdp_stat fs_mode use_cache0 blk quota deny dir_ok w =
     (let (estat, mode, q) = init_gdpfs_log gdp_stat fs_mode;
          s = \<lparr>fhs = bitmap_create True True (of_nat MAX_FHS), files = replicate MAX_FHS None, file_hash = (\<lambda>_. None),
               fmem = (\<lambda>_. None), fnext = 2, rc_links = list_init (\<lambda>_. None) rc_list, recently_closed_size = 0,
               use_cache = use_cache0, nheap = \<lparr>mem = (\<lambda>_. None), next_ptr = 0\<rparr>, cache_files = (\<lambda>_. None),
               cblk = blk, cquota_f = quota, cdeny_f = deny, pending = [], ring = q, io_mode = mode, world = w\<rparr> in
      if \<not> EP_STAT_ISOK estat then (estat, s\<lparr>fhs := None, files := []\<rparr>)
      else if use_cache0 \<and> \<not> dir_ok then (GDPFS_STAT_LOCAL_FS_FAIL, s\<lparr>fhs := None, files := []\<rparr>)
      else (GDPFS_STAT_OK, s))"

text \<open>At the end every file in the table is checkpointed; \<open>names\<close> lists the table.\<close>

definition stop_gdpfs_file :: "'w log_service \<Rightarrow> 'w fsys \<Rightarrow> gdp_name list \<Rightarrow> 'w fsys res" where
  "stop_gdpfs_file S s names =
     bindR (foldR (\<lambda>s n. case file_hash s n of None \<Rightarrow> Inr s | Some p \<Rightarrow> file_chkpt S s p False) names s) (\<lambda>s.
     bindR (bitmap_free (fhs s)) (\<lambda>b. Inr (s\<lparr>fhs := b, file_hash := (\<lambda>_. None)\<rparr>)))"

end
