(* ===== verification/File_Inv.thy ===== *)
theory File_Inv
  imports File_Open
begin

text \<open>
  The invariant of the file layer: reference counts, handles, the table of files, the list of recently
  closed files and the callbacks that wait agree, in every state that opening, closing, reading,
  writing and the callbacks of the log daemon can reach.
\<close>

section \<open>The invariant\<close>

text \<open>
  The invariant is stated for a set \<open>U\<close> of handles and a number \<open>X p\<close> of further references to each
  file, so that it also describes the states in the middle of an operation.
\<close>

definition handles :: "nat set \<Rightarrow> 'w fsys \<Rightarrow> nat \<Rightarrow> nat set" where
  "handles U s p = {i \<in> U. files s ! i = Some p}"

definition write_acks :: "fevent list \<Rightarrow> nat \<Rightarrow> nat" where
  "write_acks es p = length (filter (\<lambda>e. case e of Free_Fileref q _ \<Rightarrow> q = p | Chkpt_Finish _ \<Rightarrow> False) es)"

definition chkpt_acks :: "fevent list \<Rightarrow> nat \<Rightarrow> nat" where
  "chkpt_acks es p = length (filter (\<lambda>e. e = Chkpt_Finish (Some p)) es)"

definition tables_ok :: "nat set \<Rightarrow> 'w fsys \<Rightarrow> bool" where
  "tables_ok U s \<longleftrightarrow> (\<exists>b. fhs s = Some b \<and> bitmap_wf b \<and> capacity b = MAX_FHS \<and> U \<subseteq> bits b) \<and>
     length (files s) = MAX_FHS \<and> 2 \<le> fnext s \<and> (\<forall>i \<in> U. \<exists>p. files s ! i = Some p \<and> fmem s p \<noteq> None) \<and>
     (\<forall>n p. file_hash s n = Some p \<longrightarrow> (\<exists>f. fmem s p = Some f \<and> hash_key f = n)) \<and>
     (\<forall>p f. fmem s p = Some f \<longrightarrow> file_hash s (hash_key f) = Some p)"

definition file_ok :: "nat set \<Rightarrow> (nat \<Rightarrow> nat) \<Rightarrow> 'w fsys \<Rightarrow> nat \<Rightarrow> gdpfs_file \<Rightarrow> bool" where
  "file_ok U X s p f \<longleftrightarrow> 2 \<le> p \<and> p < fnext s \<and> rc_links s p \<noteq> None \<and>
     int (write_acks (pending s) p) \<le> outstanding_reqs f \<and>
     unat (ref_count f) = card (handles U s p) + nat (outstanding_reqs f) + X p \<and>
     index_flush_reqs f = int (chkpt_acks (pending s) p) \<and> (recently_closed f \<longrightarrow> ref_count f = 0)"

definition rc_ok :: "'w fsys \<Rightarrow> bool" where
  "rc_ok s \<longleftrightarrow> (\<exists>xs. dlist (rc_links s) rc_list xs \<and> int (length xs) = recently_closed_size s \<and> recently_closed_size s \<le> RC_CAP \<and>
     set xs = {p. \<exists>f. fmem s p = Some f \<and> recently_closed f})"

definition event_ok :: "'w fsys \<Rightarrow> fevent \<Rightarrow> bool" where
  "event_ok s e = (case e of Free_Fileref p _ \<Rightarrow> fmem s p \<noteq> None | Chkpt_Finish q \<Rightarrow> (\<forall>p. q = Some p \<longrightarrow> fmem s p \<noteq> None))"

definition inv_with :: "nat set \<Rightarrow> (nat \<Rightarrow> nat) \<Rightarrow> 'w fsys \<Rightarrow> bool" where
  "inv_with U X s \<longleftrightarrow> tables_ok U s \<and> (\<forall>p f. fmem s p = Some f \<longrightarrow> file_ok U X s p f) \<and> rc_ok s \<and>
     (\<forall>e \<in> set (pending s). event_ok s e)"

definition open_handles :: "'w fsys \<Rightarrow> nat set" where
  "open_handles s = (case fhs s of None \<Rightarrow> {} | Some b \<Rightarrow> bits b)"

definition fs_inv :: "'w fsys \<Rightarrow> bool" where
  "fs_inv s \<longleftrightarrow> inv_with (open_handles s) (\<lambda>_. 0) s"

text \<open>The bound on writes that the daemon has not acknowledged, below which the 32-bit counts do not wrap.\<close>

definition room :: "'w fsys \<Rightarrow> bool" where
  "room s \<longleftrightarrow> (\<forall>p f. fmem s p = Some f \<longrightarrow> outstanding_reqs f < 2 ^ 31)"

section \<open>Changes the invariant does not see\<close>

definition same_file :: "gdpfs_file \<Rightarrow> gdpfs_file \<Rightarrow> bool" where
  "same_file f g \<longleftrightarrow> hash_key f = hash_key g \<and> ref_count f = ref_count g \<and> outstanding_reqs f = outstanding_reqs g \<and>
     index_flush_reqs f = index_flush_reqs g \<and> recently_closed f = recently_closed g"

definition quiet :: "'w fsys \<Rightarrow> 'w fsys \<Rightarrow> bool" where
  "quiet s t \<longleftrightarrow> fhs t = fhs s \<and> files t = files s \<and> file_hash t = file_hash s \<and> fnext t = fnext s \<and>
     rc_links t = rc_links s \<and> recently_closed_size t = recently_closed_size s \<and> pending t = pending s \<and>
     (\<forall>p. rel_option same_file (fmem s p) (fmem t p))"

lemma same_file_refl [simp]: "same_file f f"
  by (simp add: same_file_def)

lemma same_file_upd [simp]:
  "same_file f (f\<lparr>figtree_of := tr\<rparr>)" "same_file f (f\<lparr>figtree_initialized := b\<rparr>)" "same_file f (f\<lparr>last_recno := n\<rparr>)"
  "same_file f (f\<lparr>info_cache := i\<rparr>)" "same_file f (f\<lparr>info_cache_valid := b\<rparr>)" "same_file f (f\<lparr>new_file := b\<rparr>)"
  "same_file f (f\<lparr>figtree_of := tr, last_recno := n, figtree_initialized := b\<rparr>)"
  by (simp_all add: same_file_def)

lemma quiet_refl [simp]: "quiet s s"
  by (simp add: quiet_def option.rel_refl)

lemma quiet_mem: "quiet s t \<Longrightarrow> fmem t p = Some g \<Longrightarrow> \<exists>f. fmem s p = Some f \<and> same_file f g"
  unfolding quiet_def by (metis option.rel_cases option.distinct(1) option.inject)

lemma quiet_mem2: "quiet s t \<Longrightarrow> fmem s p = Some f \<Longrightarrow> \<exists>g. fmem t p = Some g \<and> same_file f g"
  unfolding quiet_def by (metis option.rel_cases option.distinct(1) option.inject)

lemma quiet_none: "quiet s t \<Longrightarrow> fmem t p = None \<longleftrightarrow> fmem s p = None"
  unfolding quiet_def by (metis rel_option_None1 rel_option_None2)

lemma quiet_trans [trans]:
  assumes "quiet r s" "quiet s t"
  shows "quiet r t"
proof -
  have "rel_option same_file (fmem r p) (fmem t p)" for p
    using quiet_mem2 [OF assms(1), of p] quiet_mem2 [OF assms(2), of p] quiet_none [OF assms(1), of p] quiet_none [OF assms(2), of p]
    by (cases "fmem r p") (auto simp: same_file_def)
  then show ?thesis using assms by (simp add: quiet_def)
qed

lemma quiet_put: "fmem s p = Some f \<Longrightarrow> same_file f g \<Longrightarrow> quiet s (put_file s p g)"
  by (auto simp: quiet_def put_file_def option.rel_refl)

lemma quiet_other [simp]:
  "quiet s (s\<lparr>nheap := h\<rparr>)" "quiet s (s\<lparr>cache_files := c\<rparr>)" "quiet s (s\<lparr>world := w\<rparr>)" "quiet s (s\<lparr>ring := q\<rparr>)"
  by (simp_all add: quiet_def option.rel_refl)

lemma quiet_rc:
  assumes "quiet s t"
  shows "(\<exists>f. fmem t p = Some f \<and> recently_closed f) \<longleftrightarrow> (\<exists>f. fmem s p = Some f \<and> recently_closed f)"
  using quiet_mem [OF assms, of p] quiet_mem2 [OF assms, of p] by (auto simp: same_file_def)

lemma file_ok_same: "same_file f g \<Longrightarrow> file_ok U X s p g = file_ok U X s p f"
  by (simp add: file_ok_def same_file_def)

lemma tables_hash: "tables_ok U s \<Longrightarrow> fmem s p = Some f \<Longrightarrow> file_hash s (hash_key f) = Some p"
  by (simp add: tables_ok_def)

lemma tables_found: "tables_ok U s \<Longrightarrow> file_hash s n = Some p \<Longrightarrow> \<exists>f. fmem s p = Some f \<and> hash_key f = n"
  by (simp add: tables_ok_def)

lemma quiet_tables:
  assumes q: "quiet s t" and i: "tables_ok U s"
  shows "tables_ok U t"
proof -
  have e: "fhs t = fhs s" "files t = files s" "file_hash t = file_hash s" "fnext t = fnext s" using q by (simp_all add: quiet_def)
  have "file_hash s (hash_key g) = Some p" if "fmem t p = Some g" for p g
    using quiet_mem [OF q that] tables_hash [OF i] unfolding same_file_def by metis
  moreover have "\<exists>g. fmem t p = Some g \<and> hash_key g = n" if "file_hash s n = Some p" for n p
    using tables_found [OF i that] quiet_mem2 [OF q, of p] by (auto simp: same_file_def)
  moreover have "\<forall>i \<in> U. \<exists>p. files s ! i = Some p \<and> fmem t p \<noteq> None"
    using i by (simp add: tables_ok_def quiet_none [OF q])
  ultimately show ?thesis using i unfolding tables_ok_def e by simp
qed

lemma inv_file: "inv_with U X s \<Longrightarrow> fmem s p = Some f \<Longrightarrow> file_ok U X s p f"
  by (simp add: inv_with_def)

lemma inv_quiet:
  assumes i: "inv_with U X s" and q: "quiet s t"
  shows "inv_with U X t"
proof -
  have e: "fhs t = fhs s" "files t = files s" "file_hash t = file_hash s" "fnext t = fnext s" "rc_links t = rc_links s"
    "recently_closed_size t = recently_closed_size s" "pending t = pending s" using q by (simp_all add: quiet_def)
  have "tables_ok U t" using i quiet_tables [OF q] by (simp add: inv_with_def)
  moreover have "file_ok U X t p g" if g: "fmem t p = Some g" for p g
  proof -
    obtain f where f: "fmem s p = Some f" "same_file f g" using quiet_mem [OF q g] by blast
    have "file_ok U X s p g" using inv_file [OF i f(1)] file_ok_same [OF f(2)] by blast
    then show ?thesis using e by (simp add: file_ok_def handles_def)
  qed
  moreover have "rc_ok t" using i quiet_rc [OF q] e by (simp add: inv_with_def rc_ok_def)
  moreover have "\<forall>x \<in> set (pending t). event_ok t x"
    using i quiet_none [OF q] e by (auto simp: inv_with_def event_ok_def split: fevent.splits)
  ultimately show ?thesis by (simp add: inv_with_def)
qed

lemma fs_inv_quiet: "fs_inv s \<Longrightarrow> quiet s t \<Longrightarrow> fs_inv t"
  unfolding fs_inv_def using inv_quiet by (metis open_handles_def quiet_def)

lemma quiet_get: "okR (\<lambda>f. fmem s p = Some f) (get_file s p)"
  by (simp add: get_file_def split: option.splits)

section \<open>Operations that are quiet\<close>

lemma okR_get: "(\<And>f. fmem s p = Some f \<Longrightarrow> okR Q (F f)) \<Longrightarrow> okR Q (bindR (get_file s p) F)"
  by (rule okR_bind [OF quiet_get])

text \<open>A quiet step followed by more.\<close>

lemma okR_quiet: "okR (\<lambda>(e, t). quiet s t) m \<Longrightarrow> (\<And>e t. quiet s t \<Longrightarrow> okR Q (F (e, t))) \<Longrightarrow> okR Q (bindR m F)"
  by (erule okR_bind) auto

lemma okR_any: "(\<And>x. okR Q (F x)) \<Longrightarrow> okR Q (bindR m F)"
  by (rule okR_bind [OF okR_True])

lemma okR_any2: "(\<And>a b. okR Q (F (a, b))) \<Longrightarrow> okR Q (bindR m F)"
  by (rule okR_any) auto

lemma quiet_rec_append: "quiet s (snd (rec_append S s log r))"
  by (simp add: rec_append_def split: prod.split)

lemma quiet_load_info: "okR (\<lambda>(e, t). quiet s t) (file_load_info_cache S s p)"
  unfolding file_load_info_cache_def
  by (rule okR_get) (auto split: sum.split prod.split intro!: quiet_put simp: same_file_def)

lemma quiet_get_info_raw: "okR (\<lambda>(e, t). quiet s t) (file_get_info_raw S s p)"
  unfolding file_get_info_raw_def
proof (rule okR_get, rule okR_if, simp, rule okR_quiet [OF quiet_load_info], goal_cases)
  case (1 f e t)
  have "okR (\<lambda>(e, t). quiet s t) (bindR (get_file t p) (\<lambda>f. Inr (GDPFS_STAT_OK, put_file t p (f\<lparr>info_cache_valid := True\<rparr>))))"
    by (rule okR_get) (auto intro!: quiet_trans [OF 1(3)] quiet_put simp: same_file_def)
  then show ?case using 1 by simp
qed

lemma quiet_get_info: "okR (\<lambda>(e, q, t). quiet s t) (gdpfs_file_get_info S s fh)"
  unfolding gdpfs_file_get_info_def
  by (rule okR_any) (auto split: option.split intro!: okR_quiet [OF quiet_get_info_raw])

lemma quiet_change_info: "okR (\<lambda>(i, t). quiet s t) (change_info s p upd)"
  unfolding change_info_def by (rule okR_get) (auto simp: Let_def same_file_def intro!: quiet_put)

lemma quiet_fill_cache: "okR (\<lambda>(e, t). quiet s t) (gdpfs_file_fill_cache s p buf off ow)"
  unfolding gdpfs_file_fill_cache_def
  by (rule okR_if, simp, rule okR_if, rule okR_any) (auto simp: Let_def split: option.split prod.split)

lemma quiet_read_loop: "okR (\<lambda>(b, t). quiet s t) (read_loop n S s p log off it buf)"
proof (induction n arbitrary: s it buf)
  case (Suc n)
  have "okR (\<lambda>(b, t). quiet s t) (bindR m (\<lambda>buf. read_loop n S (s\<lparr>nheap := h\<rparr>) p log off it buf))" for m h it
    by (rule okR_any, rule okR_mono [OF Suc.IH]) (auto intro: quiet_trans [OF quiet_other(1)])
  then show ?case by (auto simp: Let_def split: option.split intro!: okR_any)
qed simp

lemma quiet_nheap: "quiet (s\<lparr>nheap := h\<rparr>) t \<Longrightarrow> quiet s t"
  using quiet_trans [OF quiet_other(1)] .

lemma quiet_do_read: "okR (\<lambda>(b, t). quiet s t) (do_read S s fh sz off)"
proof -
  have fin: "okR (\<lambda>(b, t). quiet s t) (if unat fh < length (files t) then bindR (deref q) (\<lambda>p.
      bindR (gdpfs_file_fill_cache t p b off True) (\<lambda>(_, s). Inr (b, s))) else Inl e)" if "quiet s t" for t b q e
    by (rule okR_if, rule okR_any, rule okR_quiet [OF quiet_fill_cache]) (auto intro: quiet_trans [OF that])
  have rd: "okR (\<lambda>(b, t). quiet s t) (bindR (ft_read l h tr a z) (\<lambda>(it, h).
      bindR (read_loop n S (t\<lparr>nheap := h\<rparr>) p lg off it bf) (\<lambda>(buf, s).
        if unat fh < length (files s) then bindR (deref (files s ! unat fh)) (\<lambda>p.
          bindR (gdpfs_file_fill_cache s p buf off True) (\<lambda>(_, s). Inr (buf, s))) else Inl Out_Of_Bounds)))"
    if "quiet s t" for t l h tr a z n p lg bf
    by (rule okR_any, clarify, rule okR_quiet [OF quiet_read_loop], simp only: prod.case,
        rule fin, rule quiet_trans [OF that quiet_nheap])
  show ?thesis unfolding do_read_def
  proof (rule okR_any, goal_cases)
    case (1 q)
    show ?case
    proof (cases q)
      case (Some p)
      show ?thesis unfolding Some option.case Let_def
        by (rule okR_quiet [OF quiet_get_info_raw], simp only: prod.case, rule okR_if, simp, rule okR_get,
            rule okR_if, simp, rule okR_any) (simp add: rd del: read_loop.simps split: option.split)
    qed simp
  qed
qed

lemma quiet_fill_chunks: "okR (quiet (s :: 'w fsys)) (fill_chunks s p bs off)"
proof (induction "length bs" arbitrary: s bs off rule: less_induct)
  case less
  show ?case
  proof (cases "bs = []")
    case False
    then have IH: "okR (quiet t) (fill_chunks t p (drop 1024 bs) off)" for t :: "'w fsys" and off
      using less.hyps [of "drop 1024 bs" t off] by simp
    have "okR (quiet s) (bindR (gdpfs_file_fill_cache s p (take 1024 bs) off True) (\<lambda>(estat, s).
        bindR (assertR (EP_STAT_ISOK estat) ()) (\<lambda>_.
        fill_chunks s p (drop 1024 bs) (off + of_nat (length (take 1024 bs))))))"
      by (rule okR_quiet [OF quiet_fill_cache], simp only: prod.case, rule okR_bind [OF okR_assert],
          rule okR_mono [OF IH], rule quiet_trans)
    then show ?thesis using False by (subst fill_chunks.simps) simp
  qed (simp add: fill_chunks.simps)
qed

lemma quiet_put_after: "quiet s t \<Longrightarrow> fmem t p = Some f \<Longrightarrow> same_file f g \<Longrightarrow> quiet s (put_file t p g)"
  using quiet_trans quiet_put by blast

lemma quiet_put_heap: "quiet s t \<Longrightarrow> fmem t p = Some f \<Longrightarrow> same_file f g \<Longrightarrow> quiet s (put_file (t\<lparr>nheap := h\<rparr>) p g)"
  using quiet_put_after [OF quiet_trans [OF _ quiet_other(1)]] by simp

lemma quiet_replay_ent: "okR (quiet s) (replay_ent S p s ent)"
proof -
  obtain rno r where e: "ent = (rno, r)" by (cases ent)
  have fc: "okR (quiet s) (fill_chunks (put_file (s\<lparr>nheap := h\<rparr>) p (f\<lparr>figtree_of := tr\<rparr>)) p bs off)"
    if "fmem s p = Some f" for h f tr bs off
    by (rule okR_mono [OF quiet_fill_chunks], rule quiet_trans [OF quiet_put_heap [OF quiet_refl that same_file_upd(1)]])
  show ?thesis unfolding e replay_ent_def prod.case Let_def
    by (rule okR_if, simp, rule okR_if, rule okR_get, rule okR_any) (auto split: log_body.split intro!: fc)
qed

lemma quiet_replay: "okR (quiet s) (foldR (replay_ent S p) ents s)"
  by (rule okR_fold) (auto intro: okR_mono [OF quiet_replay_ent] quiet_trans)

lemma quiet_load_index: "okR (quiet s) (load_index S s p)"
proof -
  have fin: "okR (quiet s) (bindR (foldR (replay_ent S p) ents t) (\<lambda>s.
      bindR (get_file s p) (\<lambda>f. Inr (put_file s p (f\<lparr>figtree_initialized := True\<rparr>)))))" if "quiet s t" for t ents
    by (rule okR_bind [OF quiet_replay], rule okR_get)
      (auto intro: quiet_put_after [OF quiet_trans [OF that]])
  have tail: "okR (quiet s) (bindR m (\<lambda>(rt, ents). bindR (g rt) (\<lambda>(tr, h).
      bindR (get_file t p) (\<lambda>f. let t = put_file (t\<lparr>nheap := h\<rparr>) p (f\<lparr>figtree_of := tr\<rparr>) in
      bindR (foldR (replay_ent S p) ents t) (\<lambda>s.
      bindR (get_file s p) (\<lambda>f. Inr (put_file s p (f\<lparr>figtree_initialized := True\<rparr>))))))))" if "quiet s t" for m g t
    by (rule okR_any, clarify, rule okR_any, clarify, rule okR_get)
      (auto simp only: Let_def same_file_upd intro!: fin quiet_put_heap [OF that])
  show ?thesis unfolding load_index_def
  proof (rule okR_get, goal_cases)
    case (1 f)
    show ?case
    proof (cases "rec_open S s (log_handle f) (- 1)")
      case (Inr x)
      then show ?thesis unfolding Inr sum.case
        by (cases x, simp only: prod.case Let_def)
          (rule tail [unfolded Let_def, OF quiet_put [OF 1 same_file_upd(3)]])
    qed simp
  qed
qed

lemma quiet_open_index: "okR (quiet s) (open_index S s p si)"
  unfolding open_index_def
  by (rule okR_get, rule okR_if, rule okR_any)
    (auto intro!: quiet_load_index quiet_put_heap [OF quiet_refl])

section \<open>Changes of one file and of the events\<close>

lemma acks_snoc [simp]:
  "write_acks (es @ [Free_Fileref q est]) p = write_acks es p + (if q = p then 1 else 0)"
  "write_acks (es @ [Chkpt_Finish r]) p = write_acks es p"
  "chkpt_acks (es @ [Free_Fileref q est]) p = chkpt_acks es p"
  "chkpt_acks (es @ [Chkpt_Finish r]) p = chkpt_acks es p + (if r = Some p then 1 else 0)"
  by (simp_all add: write_acks_def chkpt_acks_def)

lemma put_file_sel [simp]:
  "fmem (put_file s p g) = (fmem s)(p \<mapsto> g)" "fhs (put_file s p g) = fhs s" "files (put_file s p g) = files s"
  "file_hash (put_file s p g) = file_hash s" "fnext (put_file s p g) = fnext s" "rc_links (put_file s p g) = rc_links s"
  "recently_closed_size (put_file s p g) = recently_closed_size s" "pending (put_file s p g) = pending s"
  "handles U (put_file s p g) q = handles U s q"
  by (simp_all add: put_file_def handles_def)

lemma handles_pending [simp]: "handles U (s\<lparr>pending := es\<rparr>) p = handles U s p"
  by (simp add: handles_def)

lemma inv_put:
  assumes i: "inv_with U X s" and f: "fmem s p = Some f" "hash_key g = hash_key f" "recently_closed g = recently_closed f"
    and g: "file_ok U Y (put_file s p g\<lparr>pending := es\<rparr>) p g"
    and others: "\<And>q. q \<noteq> p \<Longrightarrow> Y q = X q \<and> write_acks es q = write_acks (pending s) q \<and> chkpt_acks es q = chkpt_acks (pending s) q"
    and ev: "\<And>e. e \<in> set es \<Longrightarrow> event_ok s e"
  shows "inv_with U Y (put_file s p g\<lparr>pending := es\<rparr>)"
proof -
  let ?t = "put_file s p g\<lparr>pending := es\<rparr>"
  have T: "tables_ok U s" using i by (simp add: inv_with_def)
  have "tables_ok U ?t"
  proof -
    have "\<exists>k. fmem ?t q = Some k \<and> hash_key k = n" if "file_hash s n = Some q" for n q
      using tables_found [OF T that] f by auto
    moreover have "file_hash s (hash_key k) = Some q" if "fmem ?t q = Some k" for q k
      using tables_hash [OF T] f that by (auto split: if_splits)
    moreover have "\<forall>i \<in> U. \<exists>q. files s ! i = Some q \<and> fmem ?t q \<noteq> None"
      using T by (fastforce simp: tables_ok_def)
    ultimately show ?thesis using T by (simp add: tables_ok_def)
  qed
  moreover have "file_ok U Y ?t q k" if "fmem ?t q = Some k" for q k
  proof (cases "q = p")
    case True
    then show ?thesis using g that by simp
  next
    case False
    then have "file_ok U X s q k" using inv_file [OF i] that by simp
    then show ?thesis using others [OF False] by (simp add: file_ok_def)
  qed
  moreover have "rc_ok ?t"
  proof -
    have "(\<exists>k. fmem ?t q = Some k \<and> recently_closed k) \<longleftrightarrow> (\<exists>k. fmem s q = Some k \<and> recently_closed k)" for q using f by simp
    then show ?thesis using i by (simp add: inv_with_def rc_ok_def)
  qed
  moreover have "event_ok ?t e" if "event_ok s e" for e using that by (cases e) (auto simp: event_ok_def)
  ultimately show ?thesis using ev by (simp add: inv_with_def)
qed

lemma inv_put_file:
  assumes "inv_with U X s" "fmem s p = Some f" "hash_key g = hash_key f" "recently_closed g = recently_closed f"
    and "file_ok U Y (put_file s p g) p g" "\<And>q. q \<noteq> p \<Longrightarrow> Y q = X q"
  shows "inv_with U Y (put_file s p g)"
proof -
  have e: "put_file s p g\<lparr>pending := pending s\<rparr> = put_file s p g" by (simp add: put_file_def)
  show ?thesis using inv_put [OF assms(1-4), of Y "pending s"] assms(1,5,6) unfolding e by (simp add: inv_with_def)
qed

lemma inv_event: "inv_with U X s \<Longrightarrow> e \<in> set (pending s) \<Longrightarrow> event_ok s e"
  by (simp add: inv_with_def)

section \<open>Checkpoints and the list of recently closed files\<close>

lemma file_ok_quiet: "quiet s t \<Longrightarrow> file_ok U X s p f \<Longrightarrow> file_ok U X t p f"
  by (simp add: quiet_def file_ok_def handles_def)

lemma inv_chkpt:
  assumes i: "inv_with U X s"
  shows "okR (inv_with U X) (file_chkpt S s p True)"
  unfolding file_chkpt_def
proof (rule okR_quiet [OF quiet_get_info_raw], simp only: prod.case, rule okR_if, simp, rule okR_get, unfold Let_def, rule okR_any2,
    simp only: prod.case, goal_cases)
  case (1 e t f chkpt h)
  let ?f = "f\<lparr>last_recno := last_recno f + 1\<rparr>" and ?t = "t\<lparr>nheap := h\<rparr>"
  have it: "inv_with U X ?t" using inv_quiet [OF i quiet_trans [OF 1(1) quiet_other(1)]] .
  have ft: "fmem ?t p = Some f" using 1(3) by simp
  have fo: "file_ok U X ?t p f" using inv_file [OF it ft] .
  have "okR (inv_with U X) (Inr (put_file ?t p ?f))" using inv_quiet [OF it quiet_put [OF ft same_file_upd(3)]] by simp
  moreover have "okR (inv_with U X) (case rec_append S (put_file ?t p (?f\<lparr>index_flush_reqs := index_flush_reqs ?f + 1\<rparr>)) lh r of
      (estat, s) \<Rightarrow> assertR (EP_STAT_ISOK estat) (s\<lparr>pending := pending s @ [Chkpt_Finish (if True then Some p else None)]\<rparr>))" for lh r
  proof -
    let ?g = "?f\<lparr>index_flush_reqs := index_flush_reqs ?f + 1\<rparr>"
    have "inv_with U X (put_file ?t p ?g\<lparr>pending := pending ?t @ [Chkpt_Finish (Some p)]\<rparr>)"
    proof (rule inv_put [OF it ft])
      show "event_ok ?t e" if "e \<in> set (pending ?t @ [Chkpt_Finish (Some p)])" for e
        using that inv_event [OF it] ft by (auto simp: event_ok_def)
      show "file_ok U X (put_file ?t p ?g\<lparr>pending := pending ?t @ [Chkpt_Finish (Some p)]\<rparr>) p ?g"
        using fo by (simp add: file_ok_def)
    qed auto
    moreover have "quiet (put_file ?t p ?g\<lparr>pending := es\<rparr>) (snd (rec_append S (put_file ?t p ?g) lh r)\<lparr>pending := es\<rparr>)" for es
      by (auto simp: rec_append_def quiet_def option.rel_refl split: prod.split)
    moreover have "pending (snd (rec_append S (put_file ?t p ?g) lh r)) = pending ?t"
      by (simp add: rec_append_def split: prod.split)
    ultimately show ?thesis using inv_quiet by (fastforce split: prod.split)
  qed
  ultimately show ?case by (simp only: simp_thms split: if_split)
qed

lemma inv_dealloc: "inv_with U X s \<Longrightarrow> okR (\<lambda>(e, t). inv_with U X t) (file_dealloc S s p)"
  unfolding file_dealloc_def
  by (rule okR_get, rule okR_if, simp, rule okR_bind [OF inv_chkpt]) auto

lemma rc_list_nodes: "set (nodes rc_list xs) = {0, 1} \<union> set xs"
  by (auto simp: nodes_def rc_list_def list_head_def list_tail_def)

text \<open>What the list operations need of a state, and what they leave behind.\<close>

lemma rc_obtain:
  assumes "inv_with U X s"
  obtains xs where "dlist (rc_links s) rc_list xs" "int (length xs) = recently_closed_size s" "recently_closed_size s \<le> RC_CAP"
    "\<And>p. p \<in> set xs \<longleftrightarrow> (\<exists>f. fmem s p = Some f \<and> recently_closed f)"
  using assms unfolding inv_with_def rc_ok_def by blast

lemma links_keep:
  assumes "dlist l' rc_list xs" "\<forall>x. x \<notin> set (nodes rc_list xs) \<longrightarrow> l' x = l x" "l p \<noteq> None"
  shows "l' p \<noteq> None"
proof (cases "p \<in> set (nodes rc_list xs)")
  case True
  then show ?thesis
  proof (cases "p \<in> set xs")
    case True
    then show ?thesis using dlist_members [OF assms(1)] by (simp add: live_elem_def)
  next
    case False
    then have "p \<in> {0, 1}" using True rc_list_nodes by auto
    then show ?thesis using assms(1) by (auto simp: dlist_def nodes_def rc_list_def list_head_def list_tail_def)
  qed
qed (use assms in auto)

text \<open>A new list with the flags to match.\<close>

lemma inv_rc:
  assumes i: "inv_with U X s" and l: "dlist l rc_list xs" "\<And>p. rc_links s p \<noteq> None \<Longrightarrow> l p \<noteq> None"
    and n: "int (length xs) = n" "n \<le> RC_CAP"
    and m: "\<And>p. rel_option (\<lambda>f g. g = f\<lparr>recently_closed := (p \<in> set xs)\<rparr>) (fmem s p) (m p)"
    and xs: "\<And>p. p \<in> set xs \<Longrightarrow> \<exists>f. fmem s p = Some f \<and> ref_count f = 0"
  shows "inv_with U X (s\<lparr>rc_links := l, recently_closed_size := n, fmem := m\<rparr>)"
proof -
  let ?t = "s\<lparr>rc_links := l, recently_closed_size := n, fmem := m\<rparr>"
  have T: "tables_ok U s" using i by (simp add: inv_with_def)
  have m1: "\<exists>f. fmem s p = Some f \<and> g = f\<lparr>recently_closed := (p \<in> set xs)\<rparr>" if "m p = Some g" for p g
    using m [of p] that by (cases "fmem s p") auto
  have m2: "m p = Some (f\<lparr>recently_closed := (p \<in> set xs)\<rparr>)" if "fmem s p = Some f" for p f
    using m [of p] that by (cases "m p") auto
  have mN: "m p = None \<longleftrightarrow> fmem s p = None" for p using m [of p] by (cases "fmem s p"; cases "m p") auto
  have "tables_ok U ?t"
  proof -
    have "\<exists>k. m q = Some k \<and> hash_key k = a" if "file_hash s a = Some q" for a q
      using tables_found [OF T that] m2 by fastforce
    moreover have "file_hash s (hash_key k) = Some q" if "m q = Some k" for q k
      using m1 [OF that] tables_hash [OF T] by auto
    moreover have "\<forall>i \<in> U. \<exists>q. files s ! i = Some q \<and> m q \<noteq> None" using T mN by (fastforce simp: tables_ok_def)
    ultimately show ?thesis using T by (simp add: tables_ok_def)
  qed
  moreover have "file_ok U X ?t p g" if g: "m p = Some g" for p g
  proof -
    obtain f where f: "fmem s p = Some f" "g = f\<lparr>recently_closed := (p \<in> set xs)\<rparr>" using m1 [OF g] by blast
    then show ?thesis using inv_file [OF i f(1)] l(2) [of p] xs [of p] by (auto simp: file_ok_def handles_def)
  qed
  moreover have "set xs = {p. \<exists>f. m p = Some f \<and> recently_closed f}"
    using xs m1 m2 by fastforce
  moreover have "event_ok ?t e" if "event_ok s e" for e using that mN by (cases e) (auto simp: event_ok_def)
  ultimately show ?thesis using i l(1) n unfolding inv_with_def rc_ok_def by auto
qed

lemma get_file_Some [simp]: "fmem s p = Some f \<Longrightarrow> get_file s p = Inr f"
  by (simp add: get_file_def)

text \<open>
  Putting a file without references on the list succeeds while the list is not full; on a full list
  the oldest file leaves it and is deallocated.
\<close>

lemma rc_insert_cases:
  assumes i: "inv_with U X s" and f: "fmem s p = Some f" "ref_count f = 0" "\<not> recently_closed f"
  shows "(\<exists>t. recently_closed_insert S s p = Inr (GDPFS_STAT_OK, t) \<and> inv_with U X t \<and> recently_closed_size s < RC_CAP) \<or>
    (\<exists>t q. recently_closed_insert S s p = file_dealloc S t q \<and> inv_with U X t \<and> recently_closed_size s = RC_CAP)"
proof -
  obtain xs where xs: "dlist (rc_links s) rc_list xs" "int (length xs) = recently_closed_size s" "recently_closed_size s \<le> RC_CAP"
    "\<And>p. p \<in> set xs \<longleftrightarrow> (\<exists>f. fmem s p = Some f \<and> recently_closed f)" using rc_obtain [OF i] by blast
  have fo: "2 \<le> p" "rc_links s p \<noteq> None" using inv_file [OF i f(1)] by (auto simp: file_ok_def)
  have pn: "p \<notin> set (nodes rc_list xs)" using fo(1) xs(4) f by (auto simp: nodes_def rc_list_def list_head_def list_tail_def)
  have zero: "ref_count g = 0" if "fmem s q = Some g" "recently_closed g" for q g
    using inv_file [OF i that(1)] that(2) by (simp add: file_ok_def)
  obtain l where l: "list_push_front (rc_links s) rc_list (Some p) = Inr l" "dlist l rc_list (p # xs)"
    "\<forall>x. x \<notin> set (nodes rc_list (p # xs)) \<longrightarrow> l x = rc_links s x"
    using list_push_front_dlist [OF xs(1) pn fo(2)] by blast
  let ?m = "(fmem s)(p \<mapsto> f\<lparr>recently_closed := True\<rparr>)"
  have keep: "l q \<noteq> None" if "rc_links s q \<noteq> None" for q using links_keep [OF l(2,3) that] .
  show ?thesis
  proof (cases "recently_closed_size s = RC_CAP")
    case False
    have "inv_with U X (s\<lparr>rc_links := l, recently_closed_size := recently_closed_size s + 1, fmem := ?m\<rparr>)"
    proof (rule inv_rc [OF i l(2)])
      show "rel_option (\<lambda>f g. g = f\<lparr>recently_closed := (q \<in> set (p # xs))\<rparr>) (fmem s q) (?m q)" for q
        using f xs(4) [of q] by (cases "fmem s q") auto
      show "\<exists>f. fmem s q = Some f \<and> ref_count f = 0" if "q \<in> set (p # xs)" for q using that f xs(4) [of q] zero by auto
    qed (use xs(2,3) False keep in auto)
    moreover have "recently_closed_insert S s p = Inr (GDPFS_STAT_OK, s\<lparr>rc_links := l, recently_closed_size := recently_closed_size s + 1, fmem := ?m\<rparr>)"
      using f l(1) xs(2,3) False by (simp add: recently_closed_insert_def put_file_def Let_def)
    ultimately show ?thesis using False xs(3) by auto
  next
    case True
    then have "xs \<noteq> []" using xs(2) by (auto simp: RC_CAP_def)
    then obtain ys q where ys: "xs = ys @ [q]" by (cases xs rule: rev_cases) auto
    obtain l2 where l2: "list_pop_back l rc_list = Inr (Some q, l2)" "dlist l2 rc_list (p # ys)"
      "\<forall>y. y \<notin> set (nodes rc_list (p # ys)) \<longrightarrow> l2 y = l y"
      using list_pop_back_dlist [of l rc_list "p # ys" q] l(2) ys by auto
    have keep2: "l2 x \<noteq> None" if "rc_links s x \<noteq> None" for x using links_keep [OF l2(2,3) keep [OF that]] .
    have pq: "q \<noteq> p" "q \<notin> set ys" using l(2) ys by (auto simp: dlist_def nodes_def)
    obtain k where k: "fmem s q = Some k" "recently_closed k" using xs(4) [of q] ys by auto
    let ?m2 = "?m(q \<mapsto> k\<lparr>recently_closed := False\<rparr>)"
    have "inv_with U X (s\<lparr>rc_links := l2, recently_closed_size := recently_closed_size s, fmem := ?m2\<rparr>)"
    proof (rule inv_rc [OF i l2(2)])
      show "rel_option (\<lambda>f g. g = f\<lparr>recently_closed := (x \<in> set (p # ys))\<rparr>) (fmem s x) (?m2 x)" for x
        using f xs(4) [of x] ys k pq by (cases "fmem s x") auto
      show "\<exists>f. fmem s x = Some f \<and> ref_count f = 0" if "x \<in> set (p # ys)" for x using that f xs(4) [of x] zero ys by auto
    qed (use xs(2,3) True keep2 ys in auto)
    moreover have "s\<lparr>rc_links := l2, recently_closed_size := recently_closed_size s, fmem := ?m2\<rparr> = s\<lparr>rc_links := l2, fmem := ?m2\<rparr>" by simp
    moreover have "recently_closed_insert S s p = file_dealloc S (s\<lparr>rc_links := l2, fmem := ?m2\<rparr>) q"
      using f l(1) l2(1) xs(2,3) True k pq by (simp add: recently_closed_insert_def put_file_def Let_def RC_CAP_def get_file_def deref_def)
    ultimately show ?thesis using True by metis
  qed
qed

lemma inv_rc_insert:
  assumes "inv_with U X s" "fmem s p = Some f" "ref_count f = 0" "\<not> recently_closed f"
  shows "okR (\<lambda>(e, t). inv_with U X t) (recently_closed_insert S s p)"
  using rc_insert_cases [OF assms, of S] inv_dealloc by fastforce

lemma rc_revive_inv:
  assumes i: "inv_with U X s" and f: "fmem s p = Some f" "recently_closed f"
  shows "\<exists>t. recently_closed_revive s p = Inr t \<and> inv_with U X t \<and> fmem t = (fmem s)(p \<mapsto> f\<lparr>recently_closed := False\<rparr>) \<and>
    fhs t = fhs s \<and> files t = files s"
proof -
  obtain xs where xs: "dlist (rc_links s) rc_list xs" "int (length xs) = recently_closed_size s" "recently_closed_size s \<le> RC_CAP"
    "\<And>p. p \<in> set xs \<longleftrightarrow> (\<exists>f. fmem s p = Some f \<and> recently_closed f)" using rc_obtain [OF i] by blast
  have zero: "ref_count g = 0" if "fmem s q = Some g" "recently_closed g" for q g
    using inv_file [OF i that(1)] that(2) by (simp add: file_ok_def)
  obtain us vs where uv: "xs = us @ p # vs" using xs(4) [of p] f by (auto simp: in_set_conv_decomp)
  then have p: "p \<notin> set (us @ vs)" using xs(1) by (auto simp: dlist_def nodes_def)
  obtain x l where l: "list_remove (rc_links s) (Some p) = Inr (x, l)" "dlist l rc_list (us @ vs)"
    "\<forall>y. y \<notin> set (nodes rc_list (us @ vs)) \<longrightarrow> l y = rc_links s y"
    using list_remove_dlist [of "rc_links s" rc_list us p vs] xs(1) uv by blast
  let ?m = "(fmem s)(p \<mapsto> f\<lparr>recently_closed := False\<rparr>)"
  let ?t = "s\<lparr>rc_links := l, recently_closed_size := recently_closed_size s - 1, fmem := ?m\<rparr>"
  have "inv_with U X ?t"
  proof (rule inv_rc [OF i l(2)])
    show "rel_option (\<lambda>f g. g = f\<lparr>recently_closed := (q \<in> set (us @ vs))\<rparr>) (fmem s q) (?m q)" for q
      using f xs(4) [of q] uv p by (cases "fmem s q") auto
    show "\<exists>f. fmem s q = Some f \<and> ref_count f = 0" if "q \<in> set (us @ vs)" for q using that xs(4) [of q] uv zero by auto
  qed (use xs(2,3) uv links_keep [OF l(2,3)] in auto)
  moreover have "recently_closed_revive s p = Inr ?t"
    using f l(1) by (simp add: recently_closed_revive_def put_file_def Let_def)
  ultimately show ?thesis by simp
qed

end
