(* ===== verification/File_Steps.thy ===== *)
theory File_Steps
  imports File_Inv
begin

text \<open>
  The operations of the file layer keep its invariant. The steps of an execution are calls on handles
  that are open and callbacks that wait, in any order; the properties are about all reachable states.
\<close>

section \<open>Dropping a reference\<close>

definition one_ref :: "nat \<Rightarrow> nat \<Rightarrow> nat" where
  "one_ref p q = (if q = p then 1 else 0)"

lemma one_ref_simps [simp]: "one_ref p p = 1" "q \<noteq> p \<Longrightarrow> one_ref p q = 0"
  by (simp_all add: one_ref_def)

lemma unref_inv:
  assumes i: "inv_with U (one_ref p) s" and f: "fmem s p = Some f"
  shows "inv_with U (\<lambda>_. 0) (put_file s p (f\<lparr>ref_count := ref_count f - 1\<rparr>))" "\<not> recently_closed f"
proof -
  have fo: "file_ok U (one_ref p) s p f" using inv_file [OF i f] .
  then have n: "ref_count f \<noteq> 0" by (auto simp: file_ok_def)
  then have r: "unat (ref_count f - 1) = unat (ref_count f) - 1" by (simp add: unat_minus_one)
  show rc: "\<not> recently_closed f" using fo n by (simp add: file_ok_def)
  show "inv_with U (\<lambda>_. 0) (put_file s p (f\<lparr>ref_count := ref_count f - 1\<rparr>))"
    using fo r rc by (intro inv_put_file [OF i f]) (auto simp: file_ok_def)
qed

lemma inv_unref:
  assumes i: "inv_with U (one_ref p) s"
  shows "okR (\<lambda>(e, t). inv_with U (\<lambda>_. 0) t) (file_unref S s p)"
  unfolding file_unref_def Let_def
proof (rule okR_get, goal_cases)
  case (1 f)
  show ?case using unref_inv [OF i 1] by (auto intro!: inv_rc_insert)
qed

text \<open>When the list of recently closed files is not full, dropping a reference succeeds.\<close>

lemma unref_succeeds:
  assumes i: "inv_with U (one_ref p) s" and f: "fmem s p = Some f" and n: "recently_closed_size s < RC_CAP"
  shows "\<exists>t. file_unref S s p = Inr (GDPFS_STAT_OK, t) \<and> inv_with U (\<lambda>_. 0) t"
proof -
  let ?t = "put_file s p (f\<lparr>ref_count := ref_count f - 1\<rparr>)"
  have it: "inv_with U (\<lambda>_. 0) ?t" "\<not> recently_closed f" using unref_inv [OF i f] by auto
  show ?thesis
  proof (cases "ref_count f - 1 = 0")
    case True
    then have "\<exists>t. recently_closed_insert S ?t p = Inr (GDPFS_STAT_OK, t) \<and> inv_with U (\<lambda>_. 0) t"
      using rc_insert_cases [OF it(1), of p "f\<lparr>ref_count := ref_count f - 1\<rparr>" S] it(2) n by auto
    then show ?thesis using True f by (simp add: file_unref_def)
  qed (use it f in \<open>auto simp: file_unref_def\<close>)
qed

section \<open>Closing a handle\<close>

lemma inv_bits:
  assumes "inv_with U X s"
  obtains b where "fhs s = Some b" "bitmap_wf b" "capacity b = MAX_FHS" "U \<subseteq> bits b" "length (files s) = MAX_FHS" "finite U"
    "\<And>i. i \<in> U \<Longrightarrow> i < MAX_FHS"
proof -
  obtain b where b: "fhs s = Some b" "bitmap_wf b" "capacity b = MAX_FHS" "U \<subseteq> bits b" "length (files s) = MAX_FHS"
    using assms by (auto simp: inv_with_def tables_ok_def)
  have "bits b \<subseteq> {..<MAX_FHS}" using b(2,3) by (simp add: bitmap_wf_def)
  then have u: "U \<subseteq> {..<MAX_FHS}" using b(4) by (rule order_trans [rotated])
  then have "finite U" by (rule finite_subset) simp
  then show ?thesis using that [OF b] u by auto
qed

text \<open>A handle that is given up leaves one reference behind.\<close>

lemma inv_drop_handle:
  assumes i: "inv_with U (\<lambda>_. 0) s" and h: "h \<in> U" "files s ! h = Some p"
    and b: "bitmap_wf b" "capacity b = MAX_FHS" "U - {h} \<subseteq> bits b"
  shows "inv_with (U - {h}) (one_ref p) (s\<lparr>fhs := Some b\<rparr>)"
proof -
  have fin: "finite U" using inv_bits [OF i] by blast
  have H: "handles (U - {h}) (s\<lparr>fhs := Some b\<rparr>) q = (if q = p then handles U s p - {h} else handles U s q)" for q
    using h by (auto simp: handles_def)
  have "finite (handles U s p)" "h \<in> handles U s p" using fin h by (auto simp: handles_def)
  then have c: "card (handles U s p) = Suc (card (handles U s p - {h}))" by (metis card.remove)
  have "file_ok (U - {h}) (one_ref p) (s\<lparr>fhs := Some b\<rparr>) q f" if "fmem s q = Some f" for q f
    using inv_file [OF i that] c unfolding file_ok_def H by auto
  moreover have "tables_ok (U - {h}) (s\<lparr>fhs := Some b\<rparr>)" using i b by (auto simp: inv_with_def tables_ok_def)
  moreover have "rc_ok (s\<lparr>fhs := Some b\<rparr>)" using i by (simp add: inv_with_def rc_ok_def)
  moreover have "event_ok (s\<lparr>fhs := Some b\<rparr>) e = event_ok s e" for e by (simp add: event_ok_def split: fevent.split)
  ultimately show ?thesis using i by (simp add: inv_with_def)
qed

lemma lookup_open:
  assumes "inv_with U X s" "unat fh \<in> U"
  shows "\<exists>p f. lookup_fh s fh = Inr (Some p) \<and> files s ! unat fh = Some p \<and> fmem s p = Some f"
proof -
  obtain b where b: "fhs s = Some b" "bitmap_wf b" "capacity b = MAX_FHS" "U \<subseteq> bits b" "length (files s) = MAX_FHS"
    "unat fh < MAX_FHS" using inv_bits [OF assms(1)] assms(2) by metis
  obtain p where p: "files s ! unat fh = Some p" "fmem s p \<noteq> None" using assms by (auto simp: inv_with_def tables_ok_def)
  have "bitmap_is_set (fhs s) fh = Inr 1" using bitmap_is_set_in [OF b(2), of fh] b assms(2) by auto
  then show ?thesis using b p by (auto simp: lookup_fh_def)
qed

lemma close_step:
  assumes i: "fs_inv s" and h: "unat fh \<in> open_handles s"
  shows "\<exists>b p f. bitmap_release (fhs s) fh = Inr (0, Some b) \<and> lookup_fh s fh = Inr (Some p) \<and> fmem s p = Some f \<and>
    bits b = open_handles s - {unat fh} \<and> inv_with (open_handles s - {unat fh}) (one_ref p) (s\<lparr>fhs := Some b\<rparr>)"
proof -
  have i': "inv_with (open_handles s) (\<lambda>_. 0) s" using i by (simp add: fs_inv_def)
  obtain p f where p: "lookup_fh s fh = Inr (Some p)" "files s ! unat fh = Some p" "fmem s p = Some f"
    using lookup_open [OF i' h] by blast
  obtain b where b: "fhs s = Some b" "bitmap_wf b" "capacity b = MAX_FHS" using inv_bits [OF i'] by metis
  have o: "open_handles s = bits b" using b by (simp add: open_handles_def)
  have lt: "unat fh < capacity b" using h o b(2) by (auto simp: bitmap_wf_def)
  obtain b' where b': "bitmap_release (Some b) fh = Inr (0, Some b')" "bits b' = bits b - {unat fh}" "bitmap_wf b'" "capacity b' = capacity b"
    using bitmap_release_in [OF b(2) lt] h o by auto
  then show ?thesis using p b o inv_drop_handle [OF i' h p(2) b'(3)] by auto
qed

section \<open>Tables that stay\<close>

definition pins :: "'w fsys \<Rightarrow> 'w fsys \<Rightarrow> bool" where
  "pins s t \<longleftrightarrow> fhs t = fhs s \<and> files t = files s"

lemma pins_refl [simp]: "pins s s"
  by (simp add: pins_def)

lemma pins_upd [simp]:
  "pins s (put_file t p f) = pins s t" "pins s (t\<lparr>pending := es\<rparr>) = pins s t" "pins s (t\<lparr>nheap := h\<rparr>) = pins s t"
  "pins s (t\<lparr>rc_links := l\<rparr>) = pins s t" "pins s (t\<lparr>recently_closed_size := n\<rparr>) = pins s t" "pins s (t\<lparr>world := w\<rparr>) = pins s t"
  by (simp_all add: pins_def)

lemma pins_quiet: "pins s t \<Longrightarrow> quiet t u \<Longrightarrow> pins s u"
  by (simp add: pins_def quiet_def)

lemma okR_conj: "okR P m \<Longrightarrow> okR Q m \<Longrightarrow> okR (\<lambda>x. P x \<and> Q x) m"
  by (simp add: okR_def)

lemma pins_append: "pins s t \<Longrightarrow> pins s (snd (rec_append S t log r))"
  by (simp add: rec_append_def split: prod.split)

lemma pins_chkpt: "pins s t \<Longrightarrow> okR (pins s) (file_chkpt S t p cb)"
  unfolding file_chkpt_def
proof (rule okR_quiet [OF quiet_get_info_raw], simp only: prod.case, rule okR_if, simp, rule okR_get, unfold Let_def,
    rule okR_any2, simp only: prod.case, goal_cases)
  case (1 e u f chkpt h)
  have p: "pins s u" using pins_quiet [OF 1(1,2)] .
  have "okR (pins s) (case rec_append S v lh r of (estat, s) \<Rightarrow> assertR (EP_STAT_ISOK estat) (s\<lparr>pending := pending s @ es\<rparr>))"
    if "pins s v" for v lh r es
    using pins_append [OF that, of S lh r] by (auto split: prod.split)
  then show ?case using p by (auto simp del: okR_simps(3))
qed

lemma pins_insert: "pins s t \<Longrightarrow> okR (\<lambda>(e, u). pins s u) (recently_closed_insert S t p)"
  unfolding recently_closed_insert_def Let_def file_dealloc_def
  by (rule okR_get, rule okR_bind [OF okR_assert], rule okR_any, rule okR_bind [OF okR_assert], rule okR_if, rule okR_any2,
      simp only: prod.case, rule okR_any, rule okR_get, rule okR_get, rule okR_if, simp, rule okR_bind [OF pins_chkpt]) auto

lemma pins_unref: "okR (\<lambda>(e, u). pins s u) (file_unref S s p)"
  unfolding file_unref_def Let_def by (rule okR_get, rule okR_if, rule pins_insert) auto

lemma pins_handles: "pins s t \<Longrightarrow> open_handles t = open_handles s"
  by (simp add: pins_def open_handles_def)

lemma pins_inv: "inv_with U X t \<Longrightarrow> pins s t \<Longrightarrow> open_handles s = U \<Longrightarrow> inv_with (open_handles t) X t"
  by (simp add: pins_def open_handles_def)

lemma inv_close:
  assumes i: "fs_inv s" and h: "unat fh \<in> open_handles s"
  shows "okR (\<lambda>(e, t). fs_inv t) (gdpfs_file_close S s fh)"
proof -
  obtain b p f where c: "bitmap_release (fhs s) fh = Inr (0, Some b)" "lookup_fh s fh = Inr (Some p)"
    "bits b = open_handles s - {unat fh}" "inv_with (open_handles s - {unat fh}) (one_ref p) (s\<lparr>fhs := Some b\<rparr>)"
    using close_step [OF i h] by blast
  let ?s = "s\<lparr>fhs := Some b\<rparr>"
  have o: "open_handles ?s = open_handles s - {unat fh}" using c(3) by (simp add: open_handles_def)
  have "okR (\<lambda>(e, t). fs_inv t) (file_unref S ?s p)"
    by (rule okR_mono [OF okR_conj [OF inv_unref [OF c(4)] pins_unref]])
      (auto simp: fs_inv_def intro: pins_inv [OF _ _ o])
  then show ?thesis using c(1,2) by (simp add: gdpfs_file_close_def)
qed

section \<open>Callbacks\<close>

lemma acks_split:
  "write_acks (es @ e # es') p = write_acks (es @ es') p + (case e of Free_Fileref q _ \<Rightarrow> if q = p then 1 else 0 | Chkpt_Finish _ \<Rightarrow> 0)"
  "chkpt_acks (es @ e # es') p = chkpt_acks (es @ es') p + (if e = Chkpt_Finish (Some p) then 1 else 0)"
  by (simp_all add: write_acks_def chkpt_acks_def split: fevent.split)

lemma event_ok_pending [simp]: "event_ok (s\<lparr>pending := es\<rparr>) e = event_ok s e"
  by (cases e) (simp_all add: event_ok_def)

lemma put_pending: "put_file (s\<lparr>pending := es\<rparr>) p g = put_file s p g\<lparr>pending := es\<rparr>"
  by (simp add: put_file_def)

lemma ack_step:
  assumes i: "fs_inv s" and e: "pending s = es @ Free_Fileref p est # es'"
  shows "\<exists>f. fmem s p = Some f \<and> inv_with (open_handles s) (one_ref p)
    (put_file (s\<lparr>pending := es @ es'\<rparr>) p (f\<lparr>outstanding_reqs := outstanding_reqs f - 1\<rparr>))"
proof -
  have i': "inv_with (open_handles s) (\<lambda>_. 0) s" using i by (simp add: fs_inv_def)
  have ev: "event_ok s x" if "x \<in> set (pending s)" for x using inv_event [OF i' that] .
  obtain f where f: "fmem s p = Some f" using ev [of "Free_Fileref p est"] e by (auto simp: event_ok_def)
  have fo: "file_ok (open_handles s) (\<lambda>_. 0) s p f" using inv_file [OF i' f] .
  let ?g = "f\<lparr>outstanding_reqs := outstanding_reqs f - 1\<rparr>"
  have "inv_with (open_handles s) (one_ref p) (put_file s p ?g\<lparr>pending := es @ es'\<rparr>)"
  proof (rule inv_put [OF i' f])
    show "file_ok (open_handles s) (one_ref p) (put_file s p ?g\<lparr>pending := es @ es'\<rparr>) p ?g"
      using fo unfolding file_ok_def e acks_split by (auto simp: nat_diff_distrib)
    show "one_ref p q = 0 \<and> write_acks (es @ es') q = write_acks (pending s) q \<and> chkpt_acks (es @ es') q = chkpt_acks (pending s) q"
      if "q \<noteq> p" for q using that unfolding e acks_split by auto
    show "event_ok s x" if "x \<in> set (es @ es')" for x using ev [of x] that e by auto
  qed auto
  then show ?thesis using f unfolding put_pending by blast
qed

lemma inv_ack:
  assumes i: "fs_inv s" and e: "pending s = es @ Free_Fileref p est # es'"
  shows "okR fs_inv (free_fileref S (s\<lparr>pending := es @ es'\<rparr>) p)"
proof -
  obtain f where f: "fmem s p = Some f" and t: "inv_with (open_handles s) (one_ref p)
    (put_file (s\<lparr>pending := es @ es'\<rparr>) p (f\<lparr>outstanding_reqs := outstanding_reqs f - 1\<rparr>))"
    using ack_step [OF i e] by blast
  let ?t = "put_file (s\<lparr>pending := es @ es'\<rparr>) p (f\<lparr>outstanding_reqs := outstanding_reqs f - 1\<rparr>)"
  have o: "open_handles ?t = open_handles s" by (simp add: open_handles_def)
  have "okR (\<lambda>(e, t). fs_inv t) (file_unref S ?t p)"
    by (rule okR_mono [OF okR_conj [OF inv_unref [OF t] pins_unref]])
      (auto simp: fs_inv_def intro: pins_inv [OF _ _ o])
  then have "okR fs_inv (bindR (file_unref S ?t p) (\<lambda>(_, s). Inr s))" by (rule okR_bind) auto
  then show ?thesis using f by (simp add: free_fileref_def)
qed

text \<open>A file that nothing refers to can go.\<close>

lemma inv_forget:
  assumes i: "inv_with U (\<lambda>_. 0) s" and f: "fmem s p = Some f" "ref_count f = 0" "\<not> recently_closed f" "index_flush_reqs f = 0"
  shows "inv_with U (\<lambda>_. 0) (s\<lparr>file_hash := (file_hash s)(hash_key f := None), nheap := h,
    fmem := (fmem s)(p := None), rc_links := (rc_links s)(p := None)\<rparr>)" (is "inv_with U _ ?t")
proof -
  have T: "tables_ok U s" using i by (simp add: inv_with_def)
  have fo: "file_ok U (\<lambda>_. 0) s p f" using inv_file [OF i f(1)] .
  have "finite U" by (rule inv_bits [OF i])
  then have fin: "finite (handles U s p)" by (simp add: handles_def)
  have none: "handles U s p = {}" "write_acks (pending s) p = 0" "chkpt_acks (pending s) p = 0"
    using fo f(2,4) fin by (auto simp: file_ok_def)
  have "tables_ok U ?t"
  proof -
    have "\<exists>q. files s ! j = Some q \<and> fmem ?t q \<noteq> None" if "j \<in> U" for j
      using T that none(1) by (fastforce simp: tables_ok_def handles_def)
    moreover have "\<exists>k. fmem ?t q = Some k \<and> hash_key k = n" if "file_hash ?t n = Some q" for n q
    proof -
      have "n \<noteq> hash_key f" "file_hash s n = Some q" using that by (auto split: if_splits)
      then show ?thesis using tables_found [OF T] f(1) by fastforce
    qed
    moreover have "file_hash ?t (hash_key k) = Some q" if k: "fmem ?t q = Some k" for q k
    proof -
      have q: "q \<noteq> p" "fmem s q = Some k" using k by (auto split: if_splits)
      then have "hash_key k \<noteq> hash_key f" using tables_hash [OF T q(2)] tables_hash [OF T f(1)] by auto
      then show ?thesis using tables_hash [OF T q(2)] by simp
    qed
    ultimately show ?thesis using T unfolding tables_ok_def by simp
  qed
  moreover have "file_ok U (\<lambda>_. 0) ?t q k" if "fmem ?t q = Some k" for q k
    using that inv_file [OF i, of q k] by (auto simp: file_ok_def handles_def split: if_splits)
  moreover have "rc_ok ?t"
  proof -
    obtain xs where xs: "dlist (rc_links s) rc_list xs" "int (length xs) = recently_closed_size s" "recently_closed_size s \<le> RC_CAP"
      "\<And>p. p \<in> set xs \<longleftrightarrow> (\<exists>f. fmem s p = Some f \<and> recently_closed f)" using rc_obtain [OF i] by blast
    have "p \<notin> set (nodes rc_list xs)" using fo xs(4) f by (auto simp: file_ok_def nodes_def rc_list_def list_head_def list_tail_def)
    then have "dlist ((rc_links s)(p := None)) rc_list xs"
      using xs(1) lchain_frame [of "nodes rc_list xs" "(rc_links s)(p := None)" "rc_links s"] by (auto simp: dlist_def)
    moreover have "set xs = {q. \<exists>k. ((fmem s)(p := None)) q = Some k \<and> recently_closed k}" using xs(4) f by (auto split: if_splits)
    ultimately show ?thesis using xs(2,3) unfolding rc_ok_def by auto
  qed
  moreover have "event_ok ?t e" if e: "e \<in> set (pending s)" for e
  proof -
    have "event_ok s e" using inv_event [OF i e] .
    moreover have "e \<noteq> Chkpt_Finish (Some p)" using none(3) e by (auto simp: chkpt_acks_def filter_empty_conv)
    moreover have "e \<noteq> Free_Fileref p x" for x using none(2) e by (auto simp: write_acks_def filter_empty_conv)
    ultimately show ?thesis by (cases e) (auto simp: event_ok_def)
  qed
  ultimately show ?thesis by (simp add: inv_with_def)
qed

lemma inv_chkpt_ack:
  assumes i: "fs_inv s" and e: "pending s = es @ Chkpt_Finish q # es'"
  shows "okR fs_inv (file_chkpt_finish (s\<lparr>pending := es @ es'\<rparr>) q)"
proof -
  have i': "inv_with (open_handles s) (\<lambda>_. 0) s" using i by (simp add: fs_inv_def)
  have ev: "event_ok s x" if "x \<in> set (pending s)" for x using inv_event [OF i' that] .
  show ?thesis
  proof (cases q)
    case None
    have "inv_with (open_handles s) (\<lambda>_. 0) (s\<lparr>pending := es @ es'\<rparr>)"
      using i' ev unfolding inv_with_def tables_ok_def file_ok_def rc_ok_def e None acks_split
      by (simp add: handles_def)
    then show ?thesis using None by (simp add: file_chkpt_finish_def fs_inv_def open_handles_def)
  next
    case (Some p)
    obtain f where f: "fmem s p = Some f" using ev [of "Chkpt_Finish q"] e Some by (auto simp: event_ok_def)
    have fo: "file_ok (open_handles s) (\<lambda>_. 0) s p f" using inv_file [OF i' f] .
    let ?g = "f\<lparr>index_flush_reqs := index_flush_reqs f - 1\<rparr>"
    let ?t = "put_file (s\<lparr>pending := es @ es'\<rparr>) p ?g"
    have t: "inv_with (open_handles s) (\<lambda>_. 0) ?t" unfolding put_pending
    proof (rule inv_put [OF i' f])
      show "file_ok (open_handles s) (\<lambda>_. 0) (put_file s p ?g\<lparr>pending := es @ es'\<rparr>) p ?g"
        using fo unfolding file_ok_def e Some acks_split by auto
      show "0 = 0 \<and> write_acks (es @ es') x = write_acks (pending s) x \<and> chkpt_acks (es @ es') x = chkpt_acks (pending s) x"
        if "x \<noteq> p" for x using that unfolding e Some acks_split by auto
      show "event_ok s x" if "x \<in> set (es @ es')" for x using ev [of x] that e by auto
    qed auto
    have o: "open_handles ?t = open_handles s" by (simp add: open_handles_def)
    have "okR fs_inv (if index_flush_reqs ?g = 0 \<and> ref_count ?g = 0 \<and> \<not> recently_closed ?g then chkpt_finish_free ?t p else Inr ?t)"
    proof (rule okR_if)
      assume d: "index_flush_reqs ?g = 0 \<and> ref_count ?g = 0 \<and> \<not> recently_closed ?g"
      show "okR fs_inv (chkpt_finish_free ?t p)" unfolding chkpt_finish_free_def
      proof (rule okR_get, unfold Let_def, rule okR_any2, goal_cases)
        case (1 k a h)
        then have "k = ?g" by simp
        then show ?case using inv_forget [OF t 1, of h] d
          by (simp add: fs_inv_def open_handles_def)
      qed
    qed (use t o in \<open>simp add: fs_inv_def\<close>)
    then show ?thesis using Some f by (simp add: file_chkpt_finish_def chkpt_finish_check_def Let_def)
  qed
qed

section \<open>Writing\<close>

lemma handles_bound:
  assumes "inv_with U X s"
  shows "card (handles U s p) \<le> MAX_FHS"
proof -
  have "U \<subseteq> {..<MAX_FHS}" by (rule inv_bits [OF assms]) auto
  then have "handles U s p \<subseteq> {..<MAX_FHS}" by (auto simp: handles_def)
  then show ?thesis using card_mono [of "{..<MAX_FHS}" "handles U s p"] by simp
qed

lemma ref_no_wrap:
  assumes i: "inv_with U (\<lambda>_. 0) s" and f: "fmem s p = Some f" "outstanding_reqs f < 2 ^ 31"
  shows "unat (ref_count f + 1) = unat (ref_count f) + 1"
proof -
  have "unat (ref_count f) \<le> MAX_FHS + nat (outstanding_reqs f)"
    using inv_file [OF i f(1)] handles_bound [OF i, of p] by (simp add: file_ok_def)
  moreover have "nat (outstanding_reqs f) < 2 ^ 31" using f(2) by (simp add: nat_less_iff)
  ultimately have "unat (ref_count f) + 1 < 2 ^ 32" by (simp add: MAX_FHS_def)
  then show ?thesis by (simp add: unat_word_ariths)
qed

text \<open>An open handle has a reference, so its file is not on the list.\<close>

lemma open_not_closed:
  assumes i: "inv_with U X s" and h: "h \<in> U" "files s ! h = Some p" "fmem s p = Some f"
  shows "\<not> recently_closed f" "0 < unat (ref_count f)"
proof -
  have "finite U" by (rule inv_bits [OF i])
  then have "finite (handles U s p)" "h \<in> handles U s p" using h by (auto simp: handles_def)
  then have "0 < card (handles U s p)" by (auto simp: card_gt_0_iff)
  then show "0 < unat (ref_count f)" using inv_file [OF i h(3)] by (simp add: file_ok_def)
  then show "\<not> recently_closed f" using inv_file [OF i h(3)] by (auto simp: file_ok_def)
qed

text \<open>What a write does before it touches the cache, the index and the log.\<close>

lemma write_ref:
  assumes i: "inv_with U (\<lambda>_. 0) s" and h: "h \<in> U" "files s ! h = Some p" "fmem s p = Some f" and r: "outstanding_reqs f < 2 ^ 31"
  shows "inv_with U (\<lambda>_. 0) (put_file s p (f\<lparr>ref_count := ref_count f + 1, outstanding_reqs := outstanding_reqs f + 1\<rparr>))"
proof (rule inv_put_file [OF i h(3)])
  have "unat (ref_count f + 1) = unat (ref_count f) + 1" using ref_no_wrap [OF i h(3) r] .
  then show "file_ok U (\<lambda>_. 0) (put_file s p (f\<lparr>ref_count := ref_count f + 1, outstanding_reqs := outstanding_reqs f + 1\<rparr>)) p
      (f\<lparr>ref_count := ref_count f + 1, outstanding_reqs := outstanding_reqs f + 1\<rparr>)"
    using inv_file [OF i h(3)] open_not_closed(1) [OF i h] by (auto simp: file_ok_def nat_add_distrib)
qed auto

text \<open>And what it does after: the record is appended and its acknowledgement awaited.\<close>

lemma write_append:
  assumes i: "inv_with U (\<lambda>_. 0) s" and f: "fmem s p = Some f" "int (write_acks (pending s) p) < outstanding_reqs f"
  shows "case rec_append S s lg r of (estat, t) \<Rightarrow>
    okR (\<lambda>(n, t). inv_with U (\<lambda>_. 0) t \<and> pins s t)
      (if EP_STAT_ISOK estat then Inr (sz, t\<lparr>pending := pending t @ [Free_Fileref p estat]\<rparr>) else Inr (0, t))"
proof -
  obtain estat t where a: "rec_append S s lg r = (estat, t)" by fastforce
  have q: "quiet s t" using quiet_rec_append [of s S lg r] a by simp
  have it: "inv_with U (\<lambda>_. 0) t" using inv_quiet [OF i q] .
  obtain g where g: "fmem t p = Some g" "same_file f g" using quiet_mem2 [OF q f(1)] by blast
  have pt: "pending t = pending s" "pins s t" using q by (simp_all add: quiet_def pins_def)
  have "inv_with U (\<lambda>_. 0) (put_file t p g\<lparr>pending := pending t @ [Free_Fileref p estat]\<rparr>)"
  proof (rule inv_put [OF it g(1)])
    show "file_ok U (\<lambda>_. 0) (put_file t p g\<lparr>pending := pending t @ [Free_Fileref p estat]\<rparr>) p g"
      using inv_file [OF it g(1)] f(2) g(2) pt(1) by (simp add: file_ok_def same_file_def)
    show "event_ok t e" if "e \<in> set (pending t @ [Free_Fileref p estat])" for e
      using that inv_event [OF it, of e] g(1) by (auto simp: event_ok_def)
  qed auto
  moreover have "put_file t p g = t" using g(1) by (simp add: put_file_def fun_upd_idem)
  ultimately show ?thesis using a it pt(2) by simp
qed

lemma inv_do_write:
  assumes i: "inv_with U (\<lambda>_. 0) s" and h: "unat fh \<in> U" and r: "room s"
  shows "okR (\<lambda>(n, t). inv_with U (\<lambda>_. 0) t \<and> pins s t) (do_write S s fh buf off info)"
proof -
  obtain p f where p: "lookup_fh s fh = Inr (Some p)" "files s ! unat fh = Some p" "fmem s p = Some f"
    using lookup_open [OF i h] by blast
  let ?f = "f\<lparr>ref_count := ref_count f + 1, outstanding_reqs := outstanding_reqs f + 1\<rparr>"
  let ?s = "put_file s p ?f"
  have ro: "outstanding_reqs f < 2 ^ 31" using r p(3) by (simp add: room_def)
  have is1: "inv_with U (\<lambda>_. 0) ?s" using write_ref [OF i h p(2,3) ro] .
  have acks: "int (write_acks (pending s) p) < outstanding_reqs ?f" using inv_file [OF i p(3)] by (simp add: file_ok_def)
  have pend: "okR (\<lambda>(n, t). inv_with U (\<lambda>_. 0) t \<and> pins s t) (case rec_append S u lg rc of (estat, t) \<Rightarrow>
      if EP_STAT_ISOK estat then Inr (sz, t\<lparr>pending := pending t @ [Free_Fileref p estat]\<rparr>) else Inr (0, t))"
    if q: "quiet ?s u" for u lg rc sz
  proof -
    have iu: "inv_with U (\<lambda>_. 0) u" using inv_quiet [OF is1 q] .
    obtain g where g: "fmem u p = Some g" "same_file ?f g" using quiet_mem2 [OF q, of p ?f] by auto
    have "int (write_acks (pending u) p) < outstanding_reqs g" using acks g(2) q by (simp add: quiet_def same_file_def)
    moreover have "pins s u" using pins_quiet [of s ?s u] q by simp
    ultimately show ?thesis using write_append [OF iu g(1), where S = S and lg = lg and r = rc and sz = sz] by (auto simp: pins_def split: prod.splits if_splits)
  qed
  have idx: "okR (\<lambda>(n, t). inv_with U (\<lambda>_. 0) t \<and> pins s t) (bindR (get_file u p) (\<lambda>f.
      let f = f\<lparr>last_recno := last_recno f + 1\<rparr>; s = put_file u p f in
      bindR (if c then bindR (w s f) (\<lambda>(tr, h). Inr (put_file (s\<lparr>nheap := h\<rparr>) p (f\<lparr>figtree_of := tr\<rparr>))) else Inr s) (\<lambda>s.
      let (estat, s) = rec_append S s (log_handle f) rc in
      if EP_STAT_ISOK estat then Inr (sz, s\<lparr>pending := pending s @ [Free_Fileref p estat]\<rparr>) else Inr (0, s))))"
    if q: "quiet ?s u" for u c w rc sz
  proof (rule okR_get, unfold Let_def, goal_cases)
    case (1 k)
    let ?v = "put_file u p (k\<lparr>last_recno := last_recno k + 1\<rparr>)"
    have qv: "quiet ?s ?v" using quiet_put_after [OF q 1 same_file_upd(3)] .
    have "okR (quiet ?s) (if c then bindR (w ?v (k\<lparr>last_recno := last_recno k + 1\<rparr>)) (\<lambda>(tr, h).
        Inr (put_file (?v\<lparr>nheap := h\<rparr>) p (k\<lparr>last_recno := last_recno k + 1, figtree_of := tr\<rparr>))) else Inr ?v)"
      by (rule okR_if, rule okR_any2) (auto intro!: quiet_put_heap [OF qv] simp: qv same_file_def)
    then show ?case by (rule okR_bind) (rule pend)
  qed
  have "okR (\<lambda>u. quiet ?s u) (if use_cache ?s then bindR (gdpfs_file_fill_cache ?s p buf off True) (\<lambda>(_, s). Inr s) else Inr ?s)"
    by (rule okR_if, rule okR_quiet [OF quiet_fill_cache]) auto
  then have fin: "okR (\<lambda>(n, t). inv_with U (\<lambda>_. 0) t \<and> pins s t) (bindR
      (if use_cache ?s then bindR (gdpfs_file_fill_cache ?s p buf off True) (\<lambda>(_, s). Inr s) else Inr ?s) (\<lambda>u. bindR (get_file u p) (\<lambda>f.
      let f = f\<lparr>last_recno := last_recno f + 1\<rparr>; s = put_file u p f in
      bindR (if c then bindR (w s f) (\<lambda>(tr, h). Inr (put_file (s\<lparr>nheap := h\<rparr>) p (f\<lparr>figtree_of := tr\<rparr>))) else Inr s) (\<lambda>s.
      let (estat, s) = rec_append S s (log_handle f) rc in
      if EP_STAT_ISOK estat then Inr (sz, s\<lparr>pending := pending s @ [Free_Fileref p estat]\<rparr>) else Inr (0, s)))))" for c w rc sz
    by (rule okR_bind) (rule idx)
  let ?f1 = "f\<lparr>ref_count := ref_count f + 1\<rparr>"
  have g: "get_file (put_file s p ?f1) p = Inr ?f1" by simp
  have e: "put_file (put_file s p ?f1) p (?f1\<lparr>outstanding_reqs := outstanding_reqs ?f1 + 1\<rparr>) = ?s" by (simp add: put_file_def)
  show ?thesis unfolding do_write_def file_ref_def Let_def
    by (simp only: p(1) bindR_simps option.case get_file_Some [OF p(3)] prod.case g e) (rule fin [unfolded Let_def])
qed

lemma room_quiet:
  assumes "room s" "quiet s t"
  shows "room t"
  unfolding room_def
proof (intro allI impI)
  fix p g assume "fmem t p = Some g"
  from quiet_mem [OF assms(2) this] obtain f where f: "fmem s p = Some f" "same_file f g" by blast
  have "outstanding_reqs f < 2 ^ 31" using assms(1) f(1) by (simp add: room_def)
  moreover have "outstanding_reqs g = outstanding_reqs f" using f(2) by (simp add: same_file_def)
  ultimately show "outstanding_reqs g < 2 ^ 31" by simp
qed

lemma quiet_handles: "quiet s t \<Longrightarrow> open_handles t = open_handles s"
  by (simp add: quiet_def open_handles_def)

lemma fs_do_write:
  assumes "fs_inv s" "unat fh \<in> open_handles s" "room s" "quiet s t"
  shows "okR (\<lambda>(n, t). fs_inv t) (do_write S t fh buf off info)"
proof -
  have i: "inv_with (open_handles t) (\<lambda>_. 0) t" using fs_inv_quiet [OF assms(1,4)] by (simp add: fs_inv_def)
  have h: "unat fh \<in> open_handles t" using assms(2) quiet_handles [OF assms(4)] by simp
  have "okR (\<lambda>(n, u). inv_with (open_handles t) (\<lambda>_. 0) u \<and> pins t u) (do_write S t fh buf off info)"
    by (rule inv_do_write [OF i h room_quiet [OF assms(3,4)]])
  then show ?thesis by (rule okR_mono) (auto simp: fs_inv_def intro: pins_inv)
qed

lemma inv_write:
  assumes a: "fs_inv s" "unat fh \<in> open_handles s" "room s"
  shows "okR (\<lambda>(n, t). fs_inv t) (gdpfs_file_write S s fh buf off)"
    "okR (\<lambda>(n, t). fs_inv t) (gdpfs_file_ftruncate S s fh len)"
    "okR (\<lambda>(e, t). fs_inv t) (gdpfs_file_set_perm S s fh perm)"
    "okR (\<lambda>(e, t). fs_inv t) (gdpfs_file_set_info S s fh info)"
proof -
  have w: "okR Q (bindR (gdpfs_file_get_info S s fh) (\<lambda>(estat, file, s). if \<not> EP_STAT_ISOK estat then G estat s else
      bindR (deref file) (\<lambda>p. bindR (change_info s p upd) (\<lambda>(info, s). F info s))))"
    if "\<And>e t. fs_inv t \<Longrightarrow> okR Q (G e t)" "\<And>i t. quiet s t \<Longrightarrow> okR Q (F i t)" for Q upd F G
  proof (rule okR_bind [OF quiet_get_info], clarify, rule okR_if, goal_cases)
    case (1 e q t)
    then show ?case using that(1) fs_inv_quiet [OF a(1)] by simp
  next
    case (2 e q t)
    show ?case by (rule okR_any, rule okR_quiet [OF quiet_change_info], simp only: prod.case)
        (rule that(2), rule quiet_trans [OF 2(1)])
  qed
  show "okR (\<lambda>(n, t). fs_inv t) (gdpfs_file_write S s fh buf off)"
    "okR (\<lambda>(n, t). fs_inv t) (gdpfs_file_ftruncate S s fh len)"
    unfolding gdpfs_file_write_def gdpfs_file_ftruncate_def Let_def by (rule w; simp add: fs_do_write [OF a])+
  have st: "okR (\<lambda>(e, t). fs_inv t) (bindR (do_write S t fh [] 0 i) (\<lambda>(_, s). Inr (GDPFS_STAT_OK, s)))" if "quiet s t" for t i
    by (rule okR_bind [OF fs_do_write [OF a that]]) auto
  show "okR (\<lambda>(e, t). fs_inv t) (gdpfs_file_set_perm S s fh perm)"
    unfolding gdpfs_file_set_perm_def Let_def by (rule w) (simp_all add: st)
  show "okR (\<lambda>(e, t). fs_inv t) (gdpfs_file_set_info S s fh info)"
    unfolding gdpfs_file_set_info_def by (rule st) simp
qed

section \<open>Opening\<close>

lemma inv_reserve:
  assumes i: "fs_inv s"
  shows "okR (\<lambda>(fh, b). fh = -1 \<or> (\<exists>b'. b = Some b' \<and> bitmap_wf b' \<and> capacity b' = MAX_FHS \<and> unat fh \<notin> open_handles s \<and>
    unat fh < MAX_FHS \<and> bits b' = insert (unat fh) (open_handles s))) (bitmap_reserve (fhs s))"
proof -
  have i': "inv_with (open_handles s) (\<lambda>_. 0) s" using i by (simp add: fs_inv_def)
  obtain b where b: "fhs s = Some b" "bitmap_wf b" "capacity b = MAX_FHS" using inv_bits [OF i'] by metis
  have o: "open_handles s = bits b" using b by (simp add: open_handles_def)
  show ?thesis
  proof (cases "bits b = {..<capacity b}")
    case True
    then show ?thesis using bitmap_reserve_full_aligned [OF b(2) True] b by (simp add: MAX_FHS_def)
  next
    case False
    then show ?thesis using fhs.take_least [OF b(2) False] b o
      by (auto simp: bitmap_take_def bindR_eq_Inr split: option.splits)
  qed
qed

text \<open>The reserved handle is not counted yet.\<close>

lemma inv_new_bits:
  assumes i: "inv_with U X s" and b: "bitmap_wf b" "capacity b = MAX_FHS" "U \<subseteq> bits b"
  shows "inv_with U X (s\<lparr>fhs := Some b\<rparr>)"
proof -
  have "handles U (s\<lparr>fhs := Some b\<rparr>) p = handles U s p" for p by (simp add: handles_def)
  moreover have "event_ok (s\<lparr>fhs := Some b\<rparr>) e = event_ok s e" for e by (cases e) (simp_all add: event_ok_def)
  ultimately show ?thesis using i b unfolding inv_with_def tables_ok_def file_ok_def rc_ok_def by simp
qed

lemma no_acks:
  assumes "\<forall>e \<in> set es. event_ok s e" "fmem s p = None"
  shows "write_acks es p = 0" "chkpt_acks es p = 0"
  using assms by (auto simp: write_acks_def chkpt_acks_def filter_empty_conv event_ok_def split: fevent.splits)

lemma inv_new_struct:
  assumes i: "inv_with U (\<lambda>_. 0) s" and n: "file_hash s n = None"
    and f: "hash_key f = n" "ref_count f = 0" "outstanding_reqs f = 0" "index_flush_reqs f = 0" "\<not> recently_closed f"
  shows "inv_with U (\<lambda>_. 0) (s\<lparr>fnext := Suc (fnext s), fmem := (fmem s)(fnext s \<mapsto> f), rc_links := (rc_links s)(fnext s \<mapsto> e),
    cache_files := c, file_hash := (file_hash s)(n \<mapsto> fnext s)\<rparr>)" (is "inv_with U _ ?t")
proof -
  let ?p = "fnext s"
  have T: "tables_ok U s" using i by (simp add: inv_with_def)
  have lt: "2 \<le> q \<and> q < ?p" if "fmem s q = Some k" for q k using inv_file [OF i that] by (simp add: file_ok_def)
  then have free: "fmem s ?p = None" by (cases "fmem s ?p") auto
  have ev: "\<forall>e \<in> set (pending s). event_ok s e" using i by (simp add: inv_with_def)
  obtain xs where xs: "dlist (rc_links s) rc_list xs" "int (length xs) = recently_closed_size s" "recently_closed_size s \<le> RC_CAP"
    "\<And>p. p \<in> set xs \<longleftrightarrow> (\<exists>f. fmem s p = Some f \<and> recently_closed f)" using rc_obtain [OF i] by blast
  have p: "?p \<notin> set (nodes rc_list xs)" using T xs(4) [of ?p] free
    by (auto simp: tables_ok_def nodes_def rc_list_def list_head_def list_tail_def)
  have H: "handles U ?t q = handles U s q" for q by (simp add: handles_def)
  have Hp: "handles U s ?p = {}" using T free by (fastforce simp: handles_def tables_ok_def)
  have "tables_ok U ?t"
  proof -
    have "\<exists>q. files s ! j = Some q \<and> fmem ?t q \<noteq> None" if "j \<in> U" for j
      using T that by (fastforce simp: tables_ok_def)
    moreover have "\<exists>k. fmem ?t q = Some k \<and> hash_key k = m" if "file_hash ?t m = Some q" for m q
    proof (cases "m = n")
      case False
      then have "file_hash s m = Some q" using that by simp
      then show ?thesis using tables_found [OF T] free by fastforce
    qed (use that f in auto)
    moreover have "file_hash ?t (hash_key k) = Some q" if k: "fmem ?t q = Some k" for q k
    proof (cases "q = ?p")
      case False
      then have "file_hash s (hash_key k) = Some q" using k tables_hash [OF T] by simp
      then show ?thesis using n by auto
    qed (use k f in auto)
    ultimately show ?thesis using T unfolding tables_ok_def by simp
  qed
  moreover have "file_ok U (\<lambda>_. 0) ?t q k" if k: "fmem ?t q = Some k" for q k
  proof (cases "q = ?p")
    case True
    have "k = f" "2 \<le> ?p" using True k T by (simp_all add: tables_ok_def)
    then show ?thesis using f Hp no_acks [OF ev free] unfolding True file_ok_def H by simp
  next
    case False
    then show ?thesis using k inv_file [OF i, of q k] unfolding file_ok_def H by auto
  qed
  moreover have "rc_ok ?t"
  proof -
    have "dlist ((rc_links s)(?p \<mapsto> e)) rc_list xs"
      using xs(1) p lchain_frame [of "nodes rc_list xs" "(rc_links s)(?p \<mapsto> e)" "rc_links s"] by (auto simp: dlist_def)
    moreover have "set xs = {q. \<exists>k. fmem ?t q = Some k \<and> recently_closed k}" using xs(4) f(5) free by (auto split: if_splits)
    ultimately show ?thesis using xs(2,3) unfolding rc_ok_def by auto
  qed
  moreover have "event_ok ?t x" if "x \<in> set (pending s)" for x
    using ev that by (cases x) (auto simp: event_ok_def)
  ultimately show ?thesis by (simp add: inv_with_def)
qed

text \<open>The structure of a file, made or found, is ready for a new reference.\<close>

lemma inv_open_struct:
  assumes i: "inv_with U (\<lambda>_. 0) s" and r: "room s"
  shows "okR (\<lambda>x. case x of Inl e \<Rightarrow> True | Inr (p, t) \<Rightarrow> inv_with U (\<lambda>_. 0) t \<and> pins s t \<and> room t \<and>
    (\<exists>f. fmem t p = Some f \<and> \<not> recently_closed f)) (open_struct S s n)"
proof (cases "file_hash s n")
  case None
  have new: "room (s\<lparr>fnext := Suc q, fmem := (fmem s)(q \<mapsto> k), rc_links := l, cache_files := c, file_hash := h\<rparr>)"
    if "outstanding_reqs k = 0" for q k l c h using r that by (simp add: room_def)
  show ?thesis unfolding open_struct_def None option.case Let_def
    by (rule okR_if, simp, rule okR_if, simp, simp only: okR_simps sum.case prod.case, intro conjI inv_new_struct [OF i None] new)
      (simp_all add: pins_def zero_file_def)
next
  case (Some p)
  obtain f where f: "fmem s p = Some f" using tables_found [OF _ Some, of U] i by (auto simp: inv_with_def)
  have rm: "room t" if "fmem t = (fmem s)(p \<mapsto> f\<lparr>recently_closed := False\<rparr>)" for t using r f that by (auto simp: room_def)
  show ?thesis
  proof (cases "recently_closed f")
    case True
    obtain t where t: "recently_closed_revive s p = Inr t" "inv_with U (\<lambda>_. 0) t"
      "fmem t = (fmem s)(p \<mapsto> f\<lparr>recently_closed := False\<rparr>)" "fhs t = fhs s" "files t = files s"
      using rc_revive_inv [OF i f True] by blast
    then show ?thesis using Some f True rm [OF t(3)] by (simp add: open_struct_def pins_def)
  qed (use Some f i r in \<open>auto simp: open_struct_def\<close>)
qed

text \<open>The new reference and the new handle together.\<close>

lemma inv_new_handle:
  assumes i: "inv_with U (\<lambda>_. 0) s" and f: "fmem s p = Some f" "\<not> recently_closed f" "outstanding_reqs f < 2 ^ 31"
    and h: "h \<notin> U" "h < MAX_FHS" "fhs s = Some b" "bits b = insert h U"
  shows "fs_inv (put_file s p (f\<lparr>ref_count := ref_count f + 1\<rparr>)\<lparr>files := (files s)[h := Some p]\<rparr>)" (is "fs_inv ?t")
proof -
  have T: "tables_ok U s" using i by (simp add: inv_with_def)
  have len: "length (files s) = MAX_FHS" "finite U" using T inv_bits [OF i] by (auto simp: tables_ok_def)
  have o: "open_handles ?t = insert h U" using h by (simp add: open_handles_def)
  have H: "handles (insert h U) ?t q = (if q = p then insert h (handles U s p) else handles U s q)" for q
    using h len(1) by (auto simp: handles_def nth_list_update)
  have c: "card (insert h (handles U s p)) = Suc (card (handles U s p))" using h(1) len(2) by (subst card_insert_disjoint) (auto simp: handles_def)
  have w: "unat (ref_count f + 1) = unat (ref_count f) + 1" using ref_no_wrap [OF i f(1,3)] .
  have "tables_ok (insert h U) ?t"
  proof -
    have "\<exists>q. (files s)[h := Some p] ! j = Some q \<and> fmem ?t q \<noteq> None" if j: "j \<in> insert h U" for j
    proof (cases "j = h")
      case False
      then obtain q where "files s ! j = Some q" "fmem s q \<noteq> None" using T j by (auto simp: tables_ok_def)
      then show ?thesis using False by (intro exI [of _ q]) simp
    qed (use len(1) h(2) in simp)
    moreover have "\<exists>k. fmem ?t q = Some k \<and> hash_key k = m" if "file_hash s m = Some q" for m q
      using tables_found [OF T that] f(1) by auto
    moreover have "file_hash s (hash_key k) = Some q" if "fmem ?t q = Some k" for q k
      using tables_hash [OF T] f(1) that by (auto split: if_splits)
    ultimately show ?thesis using T h by (simp add: tables_ok_def)
  qed
  moreover have "file_ok (insert h U) (\<lambda>_. 0) ?t q k" if k: "fmem ?t q = Some k" for q k
  proof (cases "q = p")
    case True
    then have "k = f\<lparr>ref_count := ref_count f + 1\<rparr>" using k by simp
    then show ?thesis using inv_file [OF i f(1)] f(2) w c unfolding True file_ok_def H by simp
  next
    case False
    then show ?thesis using inv_file [OF i, of q k] k unfolding file_ok_def H by simp
  qed
  moreover have "rc_ok ?t"
  proof -
    have "(\<exists>k. fmem ?t q = Some k \<and> recently_closed k) \<longleftrightarrow> (\<exists>k. fmem s q = Some k \<and> recently_closed k)" for q using f by simp
    then show ?thesis using i by (simp add: inv_with_def rc_ok_def)
  qed
  moreover have "event_ok ?t e" if "event_ok s e" for e using that by (cases e) (auto simp: event_ok_def)
  ultimately show ?thesis using i o by (simp add: inv_with_def fs_inv_def)
qed

lemma inv_check_type:
  assumes a: "fs_inv s" "unat fh \<in> open_handles s" "room s"
  shows "okR (\<lambda>(e, t). fs_inv t \<and> open_handles t = open_handles s) (open_check_type S s fh p ty perm ini si)"
proof -
  have q: "fs_inv t \<and> open_handles t = open_handles s" if "quiet s t" for t
    using fs_inv_quiet [OF a(1) that] quiet_handles [OF that] by simp
  have w: "okR (\<lambda>(n, u). fs_inv u \<and> open_handles u = open_handles s) (do_write S t fh buf off info)" if "quiet s t" for t buf off info
  proof -
    have i: "inv_with (open_handles s) (\<lambda>_. 0) t" using q [OF that] by (auto simp: fs_inv_def)
    have "fs_inv u \<and> open_handles u = open_handles s" if "inv_with (open_handles s) (\<lambda>_. 0) u" "pins t u" for u
      using that pins_handles [OF that(2)] quiet_handles [OF \<open>quiet s t\<close>] by (simp add: fs_inv_def)
    then show ?thesis by (intro okR_mono [OF inv_do_write [OF i a(2) room_quiet [OF a(3) that]]]) auto
  qed
  have ini: "okR (\<lambda>(e, t). fs_inv t \<and> open_handles t = open_handles s) (bindR (change_info t p upd) (\<lambda>(info, s).
      bindR (do_write S s fh [] 0 info) (\<lambda>(_, s). Inr (GDPFS_STAT_OK, s))))" if "quiet s t" for t upd
    by (rule okR_quiet [OF quiet_change_info], simp only: prod.case, rule okR_bind [OF w [OF quiet_trans [OF that]]]) auto
  have st: "okR (\<lambda>(e, t). fs_inv t \<and> open_handles t = open_handles s) (Inr (e, t))" if "quiet s t" for e t
    using q [OF that] by (simp only: okR_simps prod.case)
  show ?thesis unfolding open_check_type_def
    by (rule okR_if, rule st, simp, rule okR_quiet [OF quiet_get_info_raw], simp only: prod.case, rule okR_if, erule st, rule okR_get)
      (intro okR_if ini st; assumption)
qed

lemma inv_open_file:
  assumes i: "fs_inv s" and r: "room s"
  shows "okR (\<lambda>(e, fh, t). fs_inv t) (open_file S s n ty perm ini si)"
  unfolding open_file_def
proof (rule okR_bind [OF inv_reserve [OF i]], clarify, rule okR_if, use i in simp, goal_cases)
  case (1 fh b)
  then obtain b' where b: "b = Some b'" "bitmap_wf b'" "capacity b' = MAX_FHS" "unat fh \<notin> open_handles s"
    "unat fh < MAX_FHS" "bits b' = insert (unat fh) (open_handles s)" by blast
  let ?U = "open_handles s" and ?s = "s\<lparr>fhs := b\<rparr>"
  have i0: "inv_with ?U (\<lambda>_. 0) s" using i by (simp add: fs_inv_def)
  have i1: "inv_with ?U (\<lambda>_. 0) ?s" using inv_new_bits [OF i0 b(2,3)] b(1,6) by auto
  have r1: "room ?s" using r by (simp add: room_def)
  show ?case
  proof (rule okR_bind [OF inv_open_struct [OF i1 r1]], goal_cases)
    case (1 x)
    show ?case
    proof (cases x)
      case (Inl e)
      obtain b2 where b2: "bitmap_release (Some b') fh = Inr (0, Some b2)" "bits b2 = bits b' - {unat fh}" "bitmap_wf b2" "capacity b2 = capacity b'"
        using bitmap_release_in [OF b(2), of fh] b by auto
      then have "inv_with ?U (\<lambda>_. 0) (s\<lparr>fhs := Some b2\<rparr>)" using inv_new_bits [OF i0 b2(3)] b by auto
      moreover have "open_handles (s\<lparr>fhs := Some b2\<rparr>) = ?U" using b2(2) b(4,6) by (simp add: open_handles_def)
      ultimately show ?thesis using Inl b2(1) b(1) by (simp add: fs_inv_def)
    next
      case (Inr pt)
      obtain p t f where pt: "pt = (p, t)" "inv_with ?U (\<lambda>_. 0) t" "pins ?s t" "room t" "fmem t p = Some f" "\<not> recently_closed f"
        using 1 Inr by (cases pt) auto
      let ?t = "put_file t p (f\<lparr>ref_count := ref_count f + 1\<rparr>)"
      let ?u = "?t\<lparr>files := (files ?t)[unat fh := Some p]\<rparr>"
      have fu: "fs_inv ?u"
        using inv_new_handle [OF pt(2,5,6), of "unat fh" b'] pt(3,4,5) b by (simp add: room_def pins_def)
      have len: "\<not> length (files ?t) \<le> unat fh" using pt(2) b(5) by (simp add: inv_with_def tables_ok_def)
      have ru: "room ?u" using pt(4,5) by (auto simp: room_def)
      have hu: "unat fh \<in> open_handles ?u" using pt(3) b(1,6) by (simp add: pins_def open_handles_def)
      have fin: "okR (\<lambda>(e, fh, t). fs_inv t) (bindR (open_check_type S v fh p ty perm ini si) (\<lambda>(estat, s).
          if \<not> EP_STAT_ISOK estat then open_fail2 S s fh estat
          else bindR (open_index S s p si) (\<lambda>s. Inr (GDPFS_STAT_OK, fh, s))))" if v: "quiet ?u v" for v
      proof (rule okR_bind [OF inv_check_type [OF fs_inv_quiet [OF fu v] _ room_quiet [OF ru v]]], use hu quiet_handles [OF v] in simp,
          clarify, rule okR_if, goal_cases)
        case (1 e w)
        have "unat fh \<in> open_handles w" using 1 hu quiet_handles [OF v] by simp
        then show ?case unfolding open_fail2_def by (intro okR_bind [OF inv_close [OF 1(1)]]) auto
      next
        case (2 e w)
        show ?case by (rule okR_bind [OF quiet_open_index]) (auto intro: fs_inv_quiet [OF 2(1)])
      qed
      have "okR (\<lambda>(e, fh, t). fs_inv t) (bindR (get_file ?u p) (\<lambda>f. let s = if si then put_file ?u p (f\<lparr>new_file := True\<rparr>) else ?u in
          bindR (open_check_type S s fh p ty perm ini si) (\<lambda>(estat, s).
          if \<not> EP_STAT_ISOK estat then open_fail2 S s fh estat
          else bindR (open_index S s p si) (\<lambda>s. Inr (GDPFS_STAT_OK, fh, s)))))"
        unfolding Let_def by (rule okR_get, rule fin) (auto intro!: quiet_put)
      then show ?thesis unfolding Inr pt(1) sum.case prod.case file_ref_def get_file_Some [OF pt(5)] bindR_simps Let_def
        using len by (simp only: if_False prod.case)
    qed
  qed
qed

section \<open>Executions\<close>

text \<open>
  The steps: calls of the layer, on open handles where they need one; callbacks that wait, in any order;
  changes of the log daemon and of the queue of precreated logs by others.
\<close>

inductive fstep :: "'w log_service \<Rightarrow> 'w fsys \<Rightarrow> 'w fsys \<Rightarrow> bool" for S where
  Open: "room s \<Longrightarrow> open_file S s n ty perm ini si = Inr (e, fh, t) \<Longrightarrow> fstep S s t"
| Create: "room s \<Longrightarrow> gdpfs_file_create S s ty perm = Inr (e, fh, n, t) \<Longrightarrow> fstep S s t"
| Close: "unat fh \<in> open_handles s \<Longrightarrow> gdpfs_file_close S s fh = Inr (e, t) \<Longrightarrow> fstep S s t"
| Read: "gdpfs_file_read S s fh sz off = Inr (bs, t) \<Longrightarrow> fstep S s t"
| Get_Info: "gdpfs_file_get_info S s fh = Inr (e, q, t) \<Longrightarrow> fstep S s t"
| Write: "unat fh \<in> open_handles s \<Longrightarrow> room s \<Longrightarrow> gdpfs_file_write S s fh buf off = Inr (n, t) \<Longrightarrow> fstep S s t"
| Truncate: "unat fh \<in> open_handles s \<Longrightarrow> room s \<Longrightarrow> gdpfs_file_ftruncate S s fh len = Inr (n, t) \<Longrightarrow> fstep S s t"
| Set_Perm: "unat fh \<in> open_handles s \<Longrightarrow> room s \<Longrightarrow> gdpfs_file_set_perm S s fh perm = Inr (e, t) \<Longrightarrow> fstep S s t"
| Set_Info: "unat fh \<in> open_handles s \<Longrightarrow> room s \<Longrightarrow> gdpfs_file_set_info S s fh info = Inr (e, t) \<Longrightarrow> fstep S s t"
| Ack: "pending s = es @ Free_Fileref p est # es' \<Longrightarrow> free_fileref S (s\<lparr>pending := es @ es'\<rparr>) p = Inr t \<Longrightarrow> fstep S s t"
| Chkpt_Ack: "pending s = es @ Chkpt_Finish q # es' \<Longrightarrow> file_chkpt_finish (s\<lparr>pending := es @ es'\<rparr>) q = Inr t \<Longrightarrow> fstep S s t"
| Daemon: "fstep S s (s\<lparr>world := w\<rparr>)"
| Producer: "fstep S s (s\<lparr>ring := q\<rparr>)"

inductive freach :: "'w log_service \<Rightarrow> 'w fsys \<Rightarrow> bool" for S where
  Init: "init_gdpfs_file gst mode cache blk quota deny dir w = (e, s) \<Longrightarrow> EP_STAT_ISOK e \<Longrightarrow> freach S s"
| Step: "freach S s \<Longrightarrow> fstep S s t \<Longrightarrow> freach S t"

lemma okRD: "okR P m \<Longrightarrow> m = Inr x \<Longrightarrow> P x"
  by (simp add: okR_def)

lemma inv_create:
  assumes "fs_inv s" "room s"
  shows "okR (\<lambda>(e, fh, n, t). fs_inv t) (gdpfs_file_create S s ty perm)"
proof (cases "gdpfs_log_get_precreated (ring s)")
  case (Some x)
  obtain n q where x: "x = (n, q)" by (cases x)
  have "okR (\<lambda>(e, fh, t). fs_inv t) (gdpfs_file_open_init S (s\<lparr>ring := q\<rparr>) n ty perm True)"
    unfolding gdpfs_file_open_init_def
    by (rule inv_open_file [OF fs_inv_quiet [OF assms(1) quiet_other(4)] room_quiet [OF assms(2) quiet_other(4)]])
  then show ?thesis unfolding gdpfs_file_create_def Some x option.case prod.case by (rule okR_bind) auto
qed (simp add: gdpfs_file_create_def)

lemma fs_inv_step: "fstep S s t \<Longrightarrow> fs_inv s \<Longrightarrow> fs_inv t"
proof (induction rule: fstep.induct)
  case (Open s n ty perm ini si e fh t)
  then show ?case using okRD [OF inv_open_file] by fastforce
next
  case (Create s ty perm e fh n t)
  then show ?case using okRD [OF inv_create] by fastforce
next
  case (Close fh s e t)
  then show ?case using okRD [OF inv_close] by fastforce
next
  case (Read s fh sz off bs t)
  then have "quiet s t" using okRD [OF quiet_do_read] unfolding gdpfs_file_read_def by fastforce
  then show ?case using fs_inv_quiet [OF Read(2)] by simp
next
  case (Get_Info s fh e q t)
  then have "quiet s t" using okRD [OF quiet_get_info] by fastforce
  then show ?case using fs_inv_quiet [OF Get_Info(2)] by simp
next
  case (Ack s es p est es' t)
  then show ?case using okRD [OF inv_ack] by fastforce
next
  case (Chkpt_Ack s es q es' t)
  then show ?case using okRD [OF inv_chkpt_ack] by fastforce
next
  case (Daemon s w)
  then show ?case by (rule fs_inv_quiet [OF _ quiet_other(3)])
next
  case (Producer s q)
  then show ?case by (rule fs_inv_quiet [OF _ quiet_other(4)])
qed (use okRD [OF inv_write(1)] okRD [OF inv_write(2)] okRD [OF inv_write(3)] okRD [OF inv_write(4)] in fastforce)+

lemma fs_inv_init:
  assumes "init_gdpfs_file gst mode cache blk quota deny dir w = (e, s)" "EP_STAT_ISOK e"
  shows "fs_inv s"
proof -
  obtain b where b: "bitmap_create True True (of_nat MAX_FHS) = Some b" "bitmap_wf b" "bits b = {}" "capacity b = MAX_FHS"
    using bitmap_create_wf [of "of_nat MAX_FHS"] by (auto simp: MAX_FHS_def)
  obtain e1 m1 q1 where l: "init_gdpfs_log gst mode = (e1, m1, q1)" by (cases "init_gdpfs_log gst mode") auto
  have s: "fhs s = Some b" "files s = replicate MAX_FHS None" "file_hash s = (\<lambda>_. None)" "fmem s = (\<lambda>_. None)" "fnext s = 2"
    "rc_links s = list_init (\<lambda>_. None) rc_list" "recently_closed_size s = 0" "pending s = []"
  proof -
    have "EP_STAT_ISOK e1" using assms l by (cases "EP_STAT_ISOK e1") (auto simp: init_gdpfs_file_def)
    moreover have "\<not> (cache \<and> \<not> dir)"
      using assms l calculation by (cases "cache \<and> \<not> dir") (auto simp: init_gdpfs_file_def EP_STAT_ISOK_def)
    ultimately have "snd (init_gdpfs_file gst mode cache blk quota deny dir w) = s" "EP_STAT_ISOK e1" "\<not> (cache \<and> \<not> dir)"
      using assms(1) by simp_all
    then show "fhs s = Some b" "files s = replicate MAX_FHS None" "file_hash s = (\<lambda>_. None)" "fmem s = (\<lambda>_. None)" "fnext s = 2"
      "rc_links s = list_init (\<lambda>_. None) rc_list" "recently_closed_size s = 0" "pending s = []"
      unfolding init_gdpfs_file_def l Let_def prod.case b(1) by (auto simp only: snd_conv if_True if_False not_not fsys.simps simp_thms)
  qed
  have "dlist (list_init (\<lambda>_. None) rc_list) rc_list []"
    by (simp add: dlist_def nodes_def list_init_def rc_list_def list_head_def list_tail_def)
  then have "rc_ok s" using s by (auto simp: rc_ok_def RC_CAP_def)
  moreover have "tables_ok {} s" using s b by (simp add: tables_ok_def)
  ultimately have "inv_with {} (\<lambda>_. 0) s" using s by (simp add: inv_with_def)
  moreover have "open_handles s = {}" using s(1) b(3) by (simp add: open_handles_def)
  ultimately show ?thesis by (simp add: fs_inv_def)
qed

lemma fs_inv_reach: "freach S s \<Longrightarrow> fs_inv s"
  by (induction rule: freach.induct) (auto intro: fs_inv_init fs_inv_step)

end
