(* ===== verification/Fig_Local.thy ===== *)
theory Fig_Local
  imports Fig_Correct
begin

text \<open>
  The operations on the index are local: an execution that succeeds on a heap succeeds in the same way on a
  larger heap and leaves the rest of it alone. So writes into one tree do not touch the nodes of
  another.
\<close>

section \<open>Executions on a larger heap\<close>

text \<open>\<open>ext D h H\<close>: the heap \<open>H\<close> is \<open>h\<close> and the nodes \<open>D\<close> besides.\<close>

definition ext :: "(nat \<rightharpoonup> ft_node) \<Rightarrow> heap \<Rightarrow> heap \<Rightarrow> bool" where
  "ext D h H \<longleftrightarrow> next_ptr H = next_ptr h \<and> dom D \<inter> dom (mem h) = {} \<and> dom D \<subseteq> {..<next_ptr h} \<and>
     (\<forall>a. mem H a = (if a \<in> dom D then D a else mem h a))"

definition sim :: "('a \<Rightarrow> 'b \<Rightarrow> bool) \<Rightarrow> 'a res \<Rightarrow> 'b res \<Rightarrow> bool" where
  "sim R m M \<longleftrightarrow> (\<forall>x. m = Inr x \<longrightarrow> (\<exists>y. M = Inr y \<and> R x y))"

lemma sim_Inl [intro, simp]: "sim R (Inl e) M"
  by (simp add: sim_def)

lemma sim_Inr [simp]: "sim R (Inr x) (Inr y) \<longleftrightarrow> R x y"
  by (simp add: sim_def)

lemma sim_bind: "sim R m M \<Longrightarrow> (\<And>x y. R x y \<Longrightarrow> sim Q (f x) (F y)) \<Longrightarrow> sim Q (bindR m f) (bindR M F)"
  by (cases m) (auto simp: sim_def)

lemma sim_same: "(\<And>x. sim Q (f x) (F x)) \<Longrightarrow> sim Q (bindR m f) (bindR m F)"
  by (cases m) auto

lemma sim_if: "(b \<Longrightarrow> sim R m M) \<Longrightarrow> (\<not> b \<Longrightarrow> sim R m' M') \<Longrightarrow> sim R (if b then m else m') (if b then M else M')"
  by simp

lemma sim_assert: "(b \<Longrightarrow> R x y) \<Longrightarrow> sim R (assertR b x) (assertR b y)"
  by (simp add: assertR_def)

lemma sim_mono: "sim R m M \<Longrightarrow> (\<And>x y. R x y \<Longrightarrow> Q x y) \<Longrightarrow> sim Q m M"
  by (auto simp: sim_def)

lemma sim_foldR:
  assumes "ext D h H" and "\<And>h H x. ext D h H \<Longrightarrow> sim (ext D) (f h x) (f H x)"
  shows "sim (ext D) (foldR f xs h) (foldR f xs H)"
  using assms(1)
proof (induction xs arbitrary: h H)
  case (Cons x xs)
  then show ?case by (auto intro: sim_bind [OF assms(2)])
qed simp

section \<open>Memory\<close>

lemma sim_get: "ext D h H \<Longrightarrow> (\<And>nd. p \<notin> dom D \<Longrightarrow> mem h p = Some nd \<Longrightarrow> sim Q (f nd) (F nd)) \<Longrightarrow>
    sim Q (bindR (get_node h p) f) (bindR (get_node H p) F)"
  unfolding get_node_def ext_def by (cases "mem h p") auto

lemma ext_put: "ext D h H \<Longrightarrow> p \<notin> dom D \<Longrightarrow> ext D (put_node h p nd) (put_node H p nd)"
  by (auto simp: ext_def put_node_def)

lemma ext_alloc:
  assumes "ext D h H"
  shows "fst (mem_alloc H nd) = fst (mem_alloc h nd)" "ext D (snd (mem_alloc h nd)) (snd (mem_alloc H nd))" "fst (mem_alloc h nd) \<notin> dom D"
  using assms by (auto simp: ext_def mem_alloc_def)

lemma ext_drop: "ext D h H \<Longrightarrow> p \<notin> dom D \<Longrightarrow> ext D (h\<lparr>mem := (mem h)(p := None)\<rparr>) (H\<lparr>mem := (mem H)(p := None)\<rparr>)"
  by (auto simp: ext_def)

lemma sim_free: "ext D h H \<Longrightarrow> sim (ext D) (mem_free h q) (mem_free H q)"
proof (cases q)
  case (Some p)
  assume e: "ext D h H"
  show ?thesis unfolding mem_free_def Some option.case by (rule sim_get [OF e]) (simp add: ext_drop [OF e])
qed (simp add: mem_free_def)

lemma sim_subtree_free_by:
  assumes "ext D h H" "\<And>h H p. ext D h H \<Longrightarrow> sim (ext D) (free h p) (free H p)"
  shows "sim (\<lambda>(s, h) (s', H). s' = s \<and> ext D h H) (subtree_free_by free h sptr) (subtree_free_by free H sptr)"
  unfolding subtree_free_by_def using assms(1) by (cases "st sptr") (auto intro!: sim_bind [OF assms(2)])

lemma sim_ftn_free: "ext D h H \<Longrightarrow> sim (ext D) (ftn_free n h p) (ftn_free n H p)"
proof (induction n arbitrary: h H p)
  case (Suc n)
  have s: "sim (ext D) (bindR (subtree_free_by (ftn_free n) h sptr) (\<lambda>(_, h). Inr h)) (bindR (subtree_free_by (ftn_free n) H sptr) (\<lambda>(_, h). Inr h))"
    if "ext D h H" for h H sptr
    by (rule sim_bind [OF sim_subtree_free_by [OF that Suc.IH]]) auto
  show ?case unfolding ftn_free.simps
    by (rule sim_get [OF Suc.prems], rule sim_bind [OF sim_foldR [OF Suc.prems s]]) (auto intro: sim_free)
qed simp

lemma sim_free_subtrees: "ext D h H \<Longrightarrow> sim (ext D) (free_subtrees n h sps) (free_subtrees n H sps)"
  unfolding free_subtrees_def subtree_free_def
proof (rule sim_foldR, assumption, goal_cases)
  case (1 h H sptr)
  then show ?case by (intro sim_bind [OF sim_subtree_free_by [OF 1(2) sim_ftn_free]]) auto
qed

text \<open>Results with a new node, and without one.\<close>

definition on_ptr :: "(nat \<rightharpoonup> ft_node) \<Rightarrow> nat \<times> heap \<Rightarrow> nat \<times> heap \<Rightarrow> bool" where
  "on_ptr D x y \<longleftrightarrow> fst y = fst x \<and> fst x \<notin> dom D \<and> ext D (snd x) (snd y)"

definition on_val :: "(nat \<rightharpoonup> ft_node) \<Rightarrow> 'a \<times> heap \<Rightarrow> 'a \<times> heap \<Rightarrow> bool" where
  "on_val D x y \<longleftrightarrow> fst y = fst x \<and> ext D (snd x) (snd y)"

definition on_heap :: "(nat \<rightharpoonup> ft_node) \<Rightarrow> heap \<times> 'a \<Rightarrow> heap \<times> 'a \<Rightarrow> bool" where
  "on_heap D x y \<longleftrightarrow> snd y = snd x \<and> ext D (fst x) (fst y)"

lemma sim_ftn_new: "ext D h H \<Longrightarrow> sim (on_ptr D) (ftn_new h k mk) (ftn_new H k mk)"
proof (induction h k mk arbitrary: H rule: ftn_new.induct)
  case (1 h k mk)
  let ?nd = "\<lparr>entries = [], subtrees = [], HEIGHT = k, dirty = True\<rparr>"
  obtain p h1 where a: "mem_alloc h ?nd = (p, h1)" by (cases "mem_alloc h ?nd")
  obtain H1 where A: "mem_alloc H ?nd = (p, H1)" "ext D h1 H1" "p \<notin> dom D" using ext_alloc [OF "1.prems", of ?nd] a by (cases "mem_alloc H ?nd") auto
  show ?case
  proof (cases "k < 0")
    case False
    have "sim (on_val D) (if k = 0 \<or> \<not> mk then Inr (None, h1) else bindR (ftn_new h1 (k - 1) True) (\<lambda>(p, h). Inr (Some p, h)))
        (if k = 0 \<or> \<not> mk then Inr (None, H1) else bindR (ftn_new H1 (k - 1) True) (\<lambda>(p, h). Inr (Some p, h)))"
    proof (rule sim_if, simp add: on_val_def A(2), goal_cases)
      case 1
      have "sim (on_ptr D) (ftn_new h1 (k - 1) True) (ftn_new H1 (k - 1) True)" using "1.IH" [OF False a [symmetric] refl 1] A(2) by blast
      then show ?case by (rule sim_bind) (auto simp: on_ptr_def on_val_def)
    qed
    then show ?thesis unfolding ftn_new.simps [of h] ftn_new.simps [of H] a A(1) Let_def prod.case if_not_P [OF False]
      by (rule sim_bind) (simp add: on_val_def on_ptr_def A(3) ext_put case_prod_beta)
  qed (simp add: ftn_new.simps [of h])
qed

lemma sim_new_child:
  assumes "ext D h H" "\<And>c h H. ext D h H \<Longrightarrow> sim Q (f (c, h)) (F (c, H))"
  shows "sim Q (bindR (if b then Inr (None, h) else bindR (ftn_new h k True) (\<lambda>(p, h). Inr (Some p, h))) f)
     (bindR (if b then Inr (None, H) else bindR (ftn_new H k True) (\<lambda>(p, h). Inr (Some p, h))) F)"
proof (rule sim_bind [where R = "on_val D"])
  show "sim (on_val D) (if b then Inr (None, h) else bindR (ftn_new h k True) (\<lambda>(p, h). Inr (Some p, h)))
     (if b then Inr (None, H) else bindR (ftn_new H k True) (\<lambda>(p, h). Inr (Some p, h)))"
    using assms(1) by (intro sim_if) (auto simp: on_val_def on_ptr_def intro!: sim_bind [OF sim_ftn_new])
qed (use assms(2) in \<open>auto simp: on_val_def\<close>)

section \<open>Nodes\<close>

lemma sim_ftn_clear: "ext D h H \<Longrightarrow> sim (ext D) (ftn_clear h p mk) (ftn_clear H p mk)"
  unfolding ftn_clear_def
  by (rule sim_get, assumption, rule sim_bind [OF sim_free_subtrees], assumption, rule sim_get, assumption,
      rule sim_new_child, assumption, unfold prod.case, rule sim_get, assumption) (simp add: ext_put)

lemma sim_subtree_clear: "ext D h H \<Longrightarrow> sim (ext D) (subtree_clear h p i k) (subtree_clear H p i k)"
  unfolding subtree_clear_def Let_def
proof (intro sim_if, simp, rule sim_get, assumption, intro sim_if, simp, goal_cases)
  case (1 nd)
  show ?case
  proof (cases "st (subtrees nd ! i)")
    case None
    then show ?thesis using 1(1) by simp
  next
    case (Some q)
    show ?thesis unfolding Some option.case by (rule sim_get [OF 1(1)]) (simp add: assertR_def sim_ftn_clear [OF 1(1)])
  qed
next
  case (2 nd)
  show ?case
  proof (rule sim_bind [OF sim_ftn_new [OF 2(1)]], clarify, goal_cases)
    case (1 a b a' b')
    then have e: "ext D b b'" "a' = a" by (simp_all add: on_ptr_def)
    show ?case by (unfold e(2), rule sim_get [OF e(1)]) (simp add: ext_put [OF e(1)])
  qed
qed

lemma sim_ftn_insert: "ext D h H \<Longrightarrow> sim (on_val D) (ftn_insert h p e i l r) (ftn_insert H p e i l r)"
  unfolding ftn_insert_def Let_def
proof (rule sim_get, assumption, rule sim_same, rule sim_same, rule sim_same, rule sim_same, rule sim_if, goal_cases)
  case (1 nd a b nd1 nd2)
  let ?n = "nd2\<lparr>dirty := True\<rparr>"
  have e: "ext D (put_node h p ?n) (put_node H p ?n)" using 1 by (intro ext_put)
  show ?case
  proof (rule sim_bind [OF sim_ftn_new [OF e]], clarify, goal_cases)
    case (1 l h1 l' H1)
    then have l: "l' = l" "l \<notin> dom D" "ext D h1 H1" by (simp_all add: on_ptr_def)
    show ?case
    proof (rule sim_bind [OF sim_ftn_new [OF l(3)]], clarify, goal_cases)
      case (1 r h2 r' H2)
      then have r: "r' = r" "r \<notin> dom D" "ext D h2 H2" by (simp_all add: on_ptr_def)
      show ?case unfolding l(1) r(1)
        by (rule sim_get [OF r(3)], rule sim_get [OF r(3)]) (simp add: on_val_def ext_put l(2) r(2,3) \<open>p \<notin> dom D\<close>)
    qed
  qed
next
  case (2 nd a b nd1 nd2)
  then show ?case by (simp add: on_val_def ext_put)
qed

lemma sim_replaceEntries: "ext D h H \<Longrightarrow> sim (ext D) (ftn_replaceEntries h p i j iv v) (ftn_replaceEntries H p i j iv v)"
  unfolding ftn_replaceEntries_def
  by (rule sim_get, assumption, rule sim_same, rule sim_same, rule sim_same, rule sim_bind [OF sim_free_subtrees], assumption,
      rule sim_get, assumption) (simp add: ext_put)

lemma sim_performdeletes: "ext D h H \<Longrightarrow> sim (ext D) (prune_performdeletes h p ed sd) (prune_performdeletes H p ed sd)"
  unfolding prune_performdeletes_def Let_def
  by (rule sim_get, assumption, rule sim_bind [OF sim_free_subtrees], rule ext_put, assumption, assumption, rule sim_get, assumption,
      rule sim_assert, rule ext_put)

lemma sim_boundary: "ext D h H \<Longrightarrow> sim (ext D) (prune_boundary h p i c v) (prune_boundary H p i c v)"
  unfolding prune_boundary_def
  by (rule sim_get, assumption, rule sim_bind [OF sim_subtree_clear], assumption, rule sim_get, assumption, rule sim_same) (simp add: ext_put)

lemma sim_cut:
  assumes "ext D h H" "\<And>i h H. ext D h H \<Longrightarrow> sim Q (f (i, h)) (F (i, H))"
  shows "sim Q (bindR (if b then bindR (prune_boundary h p i c v) (\<lambda>h. Inr (j, h)) else Inr (i, h)) f)
     (bindR (if b then bindR (prune_boundary H p i c v) (\<lambda>h. Inr (j, h)) else Inr (i, H)) F)"
proof (rule sim_bind [where R = "on_val D"])
  show "sim (on_val D) (if b then bindR (prune_boundary h p i c v) (\<lambda>h. Inr (j, h)) else Inr (i, h))
     (if b then bindR (prune_boundary H p i c v) (\<lambda>h. Inr (j, h)) else Inr (i, H))"
    using assms(1) by (intro sim_if) (auto simp: on_val_def intro!: sim_bind [OF sim_boundary])
qed (use assms(2) in \<open>auto simp: on_val_def\<close>)

lemma sim_pruneTo: "ext D h H \<Longrightarrow> sim (ext D) (ftn_pruneTo h p v) (ftn_pruneTo H p v)"
  unfolding ftn_pruneTo_def Let_def
proof (rule sim_if, erule sim_ftn_clear, rule sim_get, assumption, rule sim_if, simp, goal_cases)
  case (1 nd)
  let ?n = "length (entries nd)"
  obtain i ed sd where l: "prune_left_loop (entries nd) v 0 (replicate ?n False) (replicate (length (subtrees nd)) False) = (i, ed, sd)"
    using prod_cases3 by blast
  show ?case unfolding l prod.case
  proof (rule sim_if, rule sim_performdeletes [OF 1(1)], rule sim_cut [OF 1(1)], unfold prod.case, rule sim_if, erule sim_performdeletes,
      rule sim_get, assumption, rule sim_if, erule sim_performdeletes, rule sim_cut, assumption, unfold prod.case, rule sim_if,
      erule sim_performdeletes, rule sim_get, assumption, goal_cases)
    case (1 i1 h1 H1 nd1 i2 h2 H2 nd2)
    obtain i' ed' sd' where "prune_right_loop (entries nd2) v i2 ed sd = (i', ed', sd')" using prod_cases3 by blast
    then show ?case using 1 by (simp add: sim_performdeletes)
  qed
qed

section \<open>The tree\<close>

lemma sim_get_sub: "ext D h H \<Longrightarrow> sim (on_val D) (subtree_get lg h p i) (subtree_get lg H p i)"
  unfolding subtree_get_def Let_def
proof (rule sim_get, assumption, rule sim_if, simp, rule sim_if, simp add: on_val_def, goal_cases)
  case (1 nd)
  show ?case
  proof (cases "lg (recno (subtrees nd ! i))")
    case (Some r)
    show ?thesis unfolding Some option.case
    proof (rule sim_if, simp, rule sim_if, simp, rule sim_same, goal_cases)
      case (1 c)
      show ?case using ext_alloc [OF \<open>ext D h H\<close>, of c] ext_put \<open>p \<notin> dom D\<close> by (simp add: case_prod_beta on_val_def)
    qed
  qed simp
qed

lemma sub_after:
  assumes "ext D h H" "\<And>c h H. ext D h H \<Longrightarrow> sim Q (f (c, h)) (F (c, H))"
  shows "sim Q (bindR (subtree_get lg h p i) f) (bindR (subtree_get lg H p i) F)"
  by (rule sim_bind [OF sim_get_sub [OF assms(1)]]) (use assms(2) in \<open>auto simp: on_val_def\<close>)

lemma sim_ft_replace: "ext D h H \<Longrightarrow> sim (on_heap D) (ft_replace lg md h rng v c V pth i) (ft_replace lg md H rng v c V pth i)"
  unfolding ft_replace_def Let_def
proof (rule sim_get, assumption, goal_cases)
  case (1 nd)
  have left: "sim (on_val D) (if b then bindR (subtree_get lg h c i) (\<lambda>(at, h). bindR (m at) (\<lambda>v. Inr (g at v, h))) else Inr (ic, h))
      (if b then bindR (subtree_get lg H c i) (\<lambda>(at, h). bindR (m at) (\<lambda>v. Inr (g at v, h))) else Inr (ic, H))"
    for b m ic and g :: "nat option \<Rightarrow> interval \<Rightarrow> insertcont"
    by (rule sim_if, rule sub_after [OF 1(1)], unfold prod.case, rule sim_same) (simp_all add: on_val_def 1(1))
  have right: "sim (\<lambda>(ic, h, q) (ic', H, q'). ic' = ic \<and> q' = q \<and> ext D h H)
      (if b then bindR (subtree_get lg h' c j) (\<lambda>(at, h). bindR (m at) (\<lambda>v. bindR n (\<lambda>q. Inr (g at v, h, q)))) else bindR k (\<lambda>q. Inr (ic, h', q)))
      (if b then bindR (subtree_get lg H' c j) (\<lambda>(at, h). bindR (m at) (\<lambda>v. bindR n (\<lambda>q. Inr (g at v, h, q)))) else bindR k (\<lambda>q. Inr (ic, H', q)))"
    if "ext D h' H'" for b m n k ic h' H' j and g :: "nat option \<Rightarrow> interval \<Rightarrow> insertcont"
    by (rule sim_if, rule sub_after [OF that], unfold prod.case, rule sim_same, rule sim_same, simp, rule sim_same) (simp add: that)
  show ?case
  proof (rule sim_bind [OF left], clarify, goal_cases)
    case (1 ic1 h1 ic1' H1)
    then have e: "ic1' = ic1" "ext D h1 H1" by (simp_all add: on_val_def)
    show ?case unfolding e(1)
      by (rule sim_bind [OF right [OF e(2)]], clarify, rule sim_bind [OF sim_replaceEntries], assumption) (simp add: on_heap_def)
  qed
qed

definition on_mid :: "(nat \<rightharpoonup> ft_node) \<Rightarrow> 'a \<times> heap \<times> 'b \<Rightarrow> 'a \<times> heap \<times> 'b \<Rightarrow> bool" where
  "on_mid D x y \<longleftrightarrow> fst y = fst x \<and> on_heap D (snd x) (snd y)"

lemma sim_ft_descend: "ext D h H \<Longrightarrow> sim (on_mid D) (ft_descend n lg md h rng v c V pth) (ft_descend n lg md H rng v c V pth)"
proof (induction n arbitrary: h H c V pth)
  case (Suc n)
  show ?case
  proof (cases c)
    case None
    then show ?thesis using Suc.prems by (simp only: ft_descend.simps option.case sim_Inr) (simp add: on_mid_def on_heap_def)
  next
    case (Some p)
    show ?thesis unfolding ft_descend.simps Some option.case Let_def
    proof (rule sim_bind [OF sim_pruneTo [OF Suc.prems]], rule sim_get, assumption, goal_cases)
      case (1 h1 H1 nd)
      have go: "sim (on_mid D) (bindR m1 (\<lambda>q. bindR (subtree_get lg h1 p i) (\<lambda>(next, h). bindR m2 (\<lambda>V. ft_descend n lg md h rng v next V q))))
        (bindR m1 (\<lambda>q. bindR (subtree_get lg H1 p i) (\<lambda>(next, h). bindR m2 (\<lambda>V. ft_descend n lg md h rng v next V q))))" for m1 m2 i
        by (rule sim_same, rule sub_after [OF 1(1)], unfold prod.case, rule sim_same, rule Suc.IH)
      have ov: "sim (on_mid D) (bindR (ft_replace lg md h1 rng v p V pth i) (\<lambda>(h, path, ic). Inr (Some p, h, path, ic)))
        (bindR (ft_replace lg md H1 rng v p V pth i) (\<lambda>(h, path, ic). Inr (Some p, h, path, ic)))" for i
        by (rule sim_bind [OF sim_ft_replace [OF 1(1)]]) (auto simp: on_mid_def on_heap_def)
      show ?case by (cases "ft_scan (entries nd) rng 0") (simp_all only: scan_result.case go ov)
    qed
  qed
qed (simp only: ft_descend.simps sim_Inl)

lemma sim_ft_adjust: "ext D h H \<Longrightarrow> sim (on_heap D) (ft_adjust lg fs h pth k tn r) (ft_adjust lg fs H pth k tn r)"
proof -
  assume e: "ext D h H"
  have sub: "sim (on_heap D) (bindR (subtree_get lg h t i) (\<lambda>(l, h). case l of None \<Rightarrow> Inl Bad_Pointer | Some l \<Rightarrow> Inr (h, g l)))
    (bindR (subtree_get lg H t i) (\<lambda>(l, h). case l of None \<Rightarrow> Inl Bad_Pointer | Some l \<Rightarrow> Inr (h, g l)))" for t i and g :: "nat \<Rightarrow> ft_path"
    by (rule sub_after [OF e]) (auto simp: on_heap_def split: option.split)
  show ?thesis unfolding ft_adjust_def Let_def
    by (rule sim_same, cases tn) (auto simp: on_heap_def e intro: sub)
qed

lemma sim_ft_ascend:
  "ext D h H \<Longrightarrow> sim (on_heap D) (ft_ascend lg rc fs k h pth tn e l r) (ft_ascend lg rc fs k H pth tn e l r)"
proof (induction k arbitrary: h H pth tn e l r)
  case (Suc k)
  have adj: "sim (on_heap D) (if rc then ft_adjust lg fs h pth k rv r else Inr (h, pth)) (if rc then ft_adjust lg fs H pth k rv r else Inr (H, pth))"
    if "ext D h H" for h H rv using that by (intro sim_if) (auto simp: on_heap_def intro: sim_ft_adjust)
  show ?case unfolding ft_ascend.simps Let_def
  proof (rule sim_bind [OF sim_ftn_insert [OF Suc.prems]], clarify, goal_cases)
    case (1 rv h1 rv' H1)
    then have e1: "rv' = rv" "ext D h1 H1" by (simp_all add: on_val_def)
    show ?case unfolding e1(1)
    proof (rule sim_bind [OF sim_free [OF e1(2)]], rule sim_bind [OF adj], assumption, clarify, goal_cases)
      case (1 h2 H2 h3 q h3' q')
      then have e3: "q' = q" "ext D h3 h3'" by (simp_all add: on_heap_def)
      show ?case
      proof (cases rv)
        case None
        then show ?thesis unfolding e3(1) None option.case by (intro sim_same) (simp add: on_heap_def e3(2))
      next
        case (Some t)
        show ?thesis unfolding e3(1) Some option.case
          by (rule sim_get [OF e3(2)], rule sub_after [OF e3(2)], unfold prod.case, rule sub_after, assumption, unfold prod.case, rule Suc.IH)
      qed
    qed
  qed
qed (simp add: on_heap_def)

lemma sim_ft_insert: "ext D h H \<Longrightarrow> sim (on_heap D) (ft_insert lg md h tr ar pth rc) (ft_insert lg md H tr ar pth rc)"
  unfolding ft_insert_def Let_def
proof (rule sim_bind [OF sim_ft_descend], assumption, clarify, goal_cases)
  case (1 c h1 q ic c' H1 q' ic')
  then have e: "c' = c" "q' = q" "ic' = ic" "ext D h1 H1" by (simp_all add: on_mid_def on_heap_def)
  have idx: "sim (on_val D) (if b then Inr (1, h) else bindR (subtree_get lg h t 0) (\<lambda>(l, h). assertR (x = l) (0 :: nat, h)))
    (if b then Inr (1, H) else bindR (subtree_get lg H t 0) (\<lambda>(l, h). assertR (x = l) (0, h)))" if "ext D h H" for b x t h H
    by (rule sim_if, simp add: on_val_def that, rule sub_after [OF that], unfold prod.case, rule sim_assert) (simp add: on_val_def)
  let ?rest = "\<lambda>h fs. case c of Some _ \<Rightarrow> Inr (h, tr, q, fs)
            | None \<Rightarrow> bindR (ft_ascend lg rc fs (length q) h q None \<lparr>irange = ia_range ar, fvalue = ia_value ar\<rparr> None None)
                  (\<lambda>(h, path, noparent, topushnode).
                if \<not> noparent then Inr (h, tr, path, fs)
                else if \<not> rc then Inr (h, tr\<lparr>root := topushnode\<rparr>, path, fs)
                  else case topushnode of
                    None \<Rightarrow> Inl Bad_Pointer
                  | Some t \<Rightarrow>
                      if path = [] \<or> length path \<ge> md then Inl Out_Of_Bounds
                      else
                        bindR (subtree_get lg h t 1) (\<lambda>(r, h).
                        bindR (if Some (fst (path ! 0)) = r then Inr (1, h)
                               else bindR (subtree_get lg h t 0) (\<lambda>(l, h).
                                    assertR (Some (fst (path ! 0)) = l) (0, h))) (\<lambda>(idx, h).
                        Inr (h, tr\<lparr>root := topushnode\<rparr>, (t, idx) # path, fs + 1))))"
  have "sim (on_heap D) (?rest h1 fs) (?rest H1 fs)" for fs
  proof (cases c)
    case None
    show ?thesis unfolding None option.case
    proof (rule sim_bind [OF sim_ft_ascend [OF e(4)]], clarify, goal_cases)
      case (1 h2 p2 np tn H2 p2' np' tn')
      then have e2: "p2' = p2" "np' = np" "tn' = tn" "ext D h2 H2" by (simp_all add: on_heap_def)
      show ?case unfolding e2(1-3)
      proof (rule sim_if, simp add: on_heap_def e2(4), rule sim_if, simp add: on_heap_def e2(4), goal_cases)
        case 1
        show ?case
        proof (cases tn)
          case (Some t)
          show ?thesis unfolding Some option.case
            by (rule sim_if, simp, rule sub_after [OF e2(4)], unfold prod.case, rule sim_bind [OF idx], assumption) (auto simp: on_heap_def on_val_def)
        qed simp
      qed
    qed
  qed (simp add: on_heap_def e(4))
  then show ?case unfolding e(1-3) by (rule sim_bind) (auto simp: on_heap_def)
qed

lemma sim_cont:
  assumes "ext D h H"
  shows "sim (on_heap D) (if b then bindR (ft_insert lg md h tr ar q rc) (\<lambda>(h, this, path, newstar).
        assertR (\<not> hasleftc newstar \<and> \<not> hasrightc newstar) (h, g this path)) else Inr (h, x))
      (if b then bindR (ft_insert lg md H tr ar q rc) (\<lambda>(h, this, path, newstar).
        assertR (\<not> hasleftc newstar \<and> \<not> hasrightc newstar) (h, g this path)) else Inr (H, x))"
  by (rule sim_if, rule sim_bind [OF sim_ft_insert [OF assms]]) (auto simp: on_heap_def assms intro!: sim_assert)

lemma sim_ft_write: "ext D h H \<Longrightarrow> sim (on_val D) (ft_write lg h tr a b v) (ft_write lg H tr a b v)"
proof (cases "root tr")
  case (Some rt)
  assume e: "ext D h H"
  show ?thesis unfolding ft_write_def Some option.case Let_def
  proof (rule sim_get [OF e], rule sim_bind [OF sim_ft_insert [OF e]], simp only: split_paired_all prod.case, goal_cases)
    case (1 nd h1 tr1 q1 ic h1' tr1' q1' ic')
    then have e1: "tr1' = tr1" "q1' = q1" "ic' = ic" "ext D h1 h1'" by (simp_all add: on_heap_def)
    show ?case unfolding e1(1-3)
    proof (rule sim_bind [OF sim_cont [where g = Pair, OF e1(4)]], clarify, goal_cases)
      case (1 h2 tr2 q2 h2' tr2' q2')
      then have e2: "tr2' = tr2" "q2' = q2" "ext D h2 h2'" by (simp_all add: on_heap_def)
      show ?case unfolding e2(1,2)
        by (rule sim_bind [OF sim_cont [where g = "\<lambda>t p. t", OF e2(3)]]) (auto simp: on_heap_def on_val_def)
    qed
  qed
qed (simp add: ft_write_def)

section \<open>Other trees\<close>

text \<open>A tree apart from the one that is written stays what it was, and stays apart.\<close>

definition spares :: "heap \<Rightarrow> ftree \<Rightarrow> heap \<Rightarrow> ftree \<Rightarrow> bool" where
  "spares h t h' t' \<longleftrightarrow> (\<forall>tr u. fig_ok h tr u \<longrightarrow> set (addrs u) \<inter> set (addrs t) = {} \<longrightarrow>
     fig_ok h' tr u \<and> set (addrs u) \<inter> set (addrs t') = {})"

lemma spares_refl: "spares h t h t"
  by (simp add: spares_def)

lemma fig_ok_addrs: "fig_ok h tr t \<Longrightarrow> set (addrs t) \<subseteq> dom (mem h)"
  using rep_addrs_mem by (fastforce simp: fig_ok_def owns_def)

lemma fig_ok_cong:
  assumes "fig_ok h tr t" "heap_ok h'" "\<And>a. a \<in> set (addrs t) \<Longrightarrow> mem h' a = mem h a"
  shows "fig_ok h' tr t"
  using assms rep_cong [of t h' h] by (auto simp: fig_ok_def owns_def)

lemma ft_write_spares:
  assumes ok: "fig_ok H tr t" and rng: "start \<le> stop" "stop < BYTE_INDEX_MAX"
  shows "\<exists>tr' H' t'. ft_write lg H tr start stop val = Inr (tr', H') \<and> fig_ok H' tr' t' \<and> spares H t H' t' \<and>
    (\<forall>x. tlook t' x = (if start \<le> x \<and> x \<le> stop then Some val else tlook t x))"
proof -
  let ?A = "set (addrs t)"
  define h where "h = H\<lparr>mem := mem H |` ?A\<rparr>"
  define D where "D = mem H |` (- ?A)"
  have hok: "heap_ok H" using ok by (auto simp: fig_ok_def owns_def)
  then have "heap_ok h" by (auto simp: heap_ok_def h_def restrict_map_def)
  then have hk: "fig_ok h tr t" by (rule fig_ok_cong [OF ok]) (simp add: h_def)
  have e: "ext D h H" using hok by (auto simp: ext_def D_def h_def heap_ok_def restrict_map_def split: if_splits)
  obtain tr' h' t' where w: "ft_write lg h tr start stop val = Inr (tr', h')" "fig_ok h' tr' t'"
    "\<forall>x. tlook t' x = (if start \<le> x \<and> x \<le> stop then Some val else tlook t x)" using ft_write_spec [OF hk rng, of lg val] by blast
  from sim_ft_write [OF e, of lg tr start stop val] obtain H' where W: "ft_write lg H tr start stop val = Inr (tr', H')" "ext D h' H'"
    unfolding w(1) by (auto simp: sim_def on_val_def)
  have E: "next_ptr H' = next_ptr h'" "dom D \<inter> dom (mem h') = {}" "dom D \<subseteq> {..<next_ptr h'}" "\<And>a. mem H' a = (if a \<in> dom D then D a else mem h' a)"
    using W(2) by (simp_all add: ext_def)
  have "heap_ok h'" using w(2) by (auto simp: fig_ok_def owns_def)
  then have ok': "heap_ok H'" using E(1,3,4) unfolding heap_ok_def by (metis lessThan_iff subsetD domIff)
  note a' = fig_ok_addrs [OF w(2)]
  have "fig_ok H' tr' t'" by (rule fig_ok_cong [OF w(2) ok']) (use a' E(2,4) in auto)
  moreover have "fig_ok H' tr2 u \<and> set (addrs u) \<inter> set (addrs t') = {}" if u: "fig_ok H tr2 u" "set (addrs u) \<inter> ?A = {}" for tr2 u
  proof -
    have d: "set (addrs u) \<subseteq> dom D" "\<And>a. a \<in> set (addrs u) \<Longrightarrow> D a = mem H a"
      using fig_ok_addrs [OF u(1)] u(2) by (auto simp: D_def restrict_map_def)
    have "fig_ok H' tr2 u"
    proof (rule fig_ok_cong [OF u(1) ok'])
      show "mem H' a = mem H a" if "a \<in> set (addrs u)" for a using d(2) [OF that] d(1) that E(4) [of a] by (simp add: subset_iff)
    qed
    then show ?thesis using d(1) a' E(2) by blast
  qed
  ultimately show ?thesis using W(1) w(3) unfolding spares_def by blast
qed

text \<open>A new tree is apart from all others.\<close>

lemma ft_init_spares:
  assumes "heap_ok h"
  shows "\<exists>tr h' t. ft_init h = Inr (tr, h') \<and> fig_ok h' tr t \<and> (\<forall>x. tlook t x = None) \<and>
    (\<forall>tr2 u. fig_ok h tr2 u \<longrightarrow> fig_ok h' tr2 u \<and> set (addrs u) \<inter> set (addrs t) = {})"
proof -
  obtain p h' t where A: "ftn_new h (int 0) True = Inr (p, h')" "rep h' (Suc 0) (Some p) t" "chain t" "heap_ok h'"
    "frame {} h h'" "set (addrs t) \<subseteq> fresh h h'" "distinct (addrs t)" using ftn_new_spec [OF assms, of 0] by blast
  have "tptr t = Some p" using rep_tptr [OF A(2)] by simp
  then have ok: "fig_ok h' \<lparr>root = Some p\<rparr> t" using A chain_twf by (auto simp: fig_ok_def owns_def intro!: exI [of _ 0])
  have "fig_ok h' tr2 u \<and> set (addrs u) \<inter> set (addrs t) = {}" if u: "fig_ok h tr2 u" for tr2 u
  proof -
    have lt: "a < next_ptr h" if "a \<in> set (addrs u)" for a using fig_ok_addrs [OF u] that assms by (auto simp: heap_ok_def)
    have "fig_ok h' tr2 u" by (rule fig_ok_cong [OF u A(4)]) (use frame_mem [OF A(5)] lt in simp)
    moreover have "set (addrs u) \<inter> set (addrs t) = {}" using A(6) lt by (fastforce simp: fresh_def)
    ultimately show ?thesis by simp
  qed
  then show ?thesis using A(1) ok chain_look [OF A(3)] by (auto simp: ft_init_def)
qed

end
