(* ===== verification/File_Data.thy ===== *)
theory File_Data
  imports File_Steps Fig_Local
begin

text \<open>
  What a file holds: reading returns the bytes that were written, in the order of the writes, both when
  a read is answered from the local cache and when it goes through the index to the log.
\<close>

section \<open>What the log daemon promises\<close>

text \<open>
  A log is a sequence of records, \<open>hist\<close>: an append succeeds and adds the record at the end, and a
  read of a record number returns that record. An empty log has no last record.
\<close>

definition svc_ok :: "'w log_service \<Rightarrow> ('w \<Rightarrow> gdp_name \<Rightarrow> log_rec list) \<Rightarrow> bool" where
  "svc_ok S hist \<longleftrightarrow>
     (\<forall>w n r. EP_STAT_ISOK (fst (svc_append S w n r)) \<and> hist (snd (svc_append S w n r)) = (hist w)(n := hist w n @ [r])) \<and>
     (\<forall>w n i. 1 \<le> i \<longrightarrow> i \<le> int (length (hist w n)) \<longrightarrow> svc_read S w n i = Inr (i, hist w n ! nat (i - 1))) \<and>
     (\<forall>w n. hist w n = [] \<longrightarrow> svc_read S w n (-1) = Inl GDP_STAT_NOTFOUND)"

lemma svc_append_ok:
  assumes "svc_ok S hist" "svc_append S w n r = (e, w')"
  shows "EP_STAT_ISOK e" "hist w' = (hist w)(n := hist w n @ [r])"
  using assms unfolding svc_ok_def by (metis fst_conv, metis snd_conv)

lemma svc_read_ok:
  "svc_ok S hist \<Longrightarrow> 1 \<le> i \<Longrightarrow> i \<le> int (length (hist w n)) \<Longrightarrow> svc_read S w n i = Inr (i, hist w n ! nat (i - 1))"
  by (simp add: svc_ok_def)

section \<open>Records, index and contents\<close>

text \<open>The byte a record has for an absolute offset.\<close>

definition rec_byte :: "log_rec \<Rightarrow> nat \<Rightarrow> u8 option" where
  "rec_byte r x = (case rbody r of
     Chkpt_Body _ \<Rightarrow> None
   | Data_Body bs \<Rightarrow> (let k = unat (ent_offset (rmeta r)) in
       if k \<le> x \<and> x < k + length bs then Some (bs ! (x - k)) else None))"

definition rec_sound :: "log_rec \<Rightarrow> bool" where
  "rec_sound r \<longleftrightarrow> of_nat (body_length (rbody r)) = ent_size (rmeta r)"

text \<open>The index leads every byte it knows to a record that has it; the other bytes are zero.\<close>

definition indexed :: "log_rec list \<Rightarrow> ftree \<Rightarrow> u8 list \<Rightarrow> bool" where
  "indexed L t c \<longleftrightarrow> (\<forall>x. case tlook t x of
     None \<Rightarrow> unat x < length c \<longrightarrow> c ! unat x = 0
   | Some v \<Rightarrow> unat x < length c \<and> 1 \<le> v \<and> v \<le> int (length L) \<and> rec_sound (L ! nat (v - 1)) \<and>
       rec_byte (L ! nat (v - 1)) (unat x) = Some (c ! unat x))"

text \<open>The data of a file structure: \<open>c\<close> is all that was ever written into it.\<close>

definition data_at :: "('w \<Rightarrow> gdp_name \<Rightarrow> log_rec list) \<Rightarrow> 'w fsys \<Rightarrow> nat \<Rightarrow> gdpfs_file \<Rightarrow> u8 list \<Rightarrow> bool" where
  "data_at hist s p f c \<longleftrightarrow> fmem s p = Some f \<and> io_mode s = GDP_MODE_RA \<and> length c < 2 ^ 32 \<and>
     last_recno f = int (length (hist (world s) (log_handle f))) \<and>
     (\<exists>t. fig_ok (nheap s) (figtree_of f) t \<and> indexed (hist (world s) (log_handle f)) t c) \<and>
     (use_cache s \<longrightarrow> new_file f \<and> (\<exists>n k. cache_fd f = Some n \<and> cache_files s n = Some k \<and> fdata k = c))"

text \<open>The tables for handles have their size.\<close>

definition tabs :: "'w fsys \<Rightarrow> bool" where
  "tabs s \<longleftrightarrow> (\<exists>b. fhs s = Some b \<and> bitmap_wf b \<and> capacity b = MAX_FHS) \<and> length (files s) = MAX_FHS"

text \<open>The same with the tree of the index.\<close>

definition data_tree :: "('w \<Rightarrow> gdp_name \<Rightarrow> log_rec list) \<Rightarrow> 'w fsys \<Rightarrow> nat \<Rightarrow> gdpfs_file \<Rightarrow> u8 list \<Rightarrow> ftree \<Rightarrow> bool" where
  "data_tree hist s p f c t \<longleftrightarrow> fmem s p = Some f \<and> io_mode s = GDP_MODE_RA \<and> length c < 2 ^ 32 \<and>
     last_recno f = int (length (hist (world s) (log_handle f))) \<and>
     fig_ok (nheap s) (figtree_of f) t \<and> indexed (hist (world s) (log_handle f)) t c \<and>
     (use_cache s \<longrightarrow> new_file f \<and> (\<exists>n k. cache_fd f = Some n \<and> cache_files s n = Some k \<and> fdata k = c))"

lemma data_at_tree: "data_at hist s p f c \<longleftrightarrow> (\<exists>t. data_tree hist s p f c t)"
  by (auto simp: data_at_def data_tree_def)

text \<open>What an operation on one file leaves alone: the handles, the other files, their logs, indices and caches.\<close>

definition same_place :: "gdpfs_file \<Rightarrow> gdpfs_file \<Rightarrow> bool" where
  "same_place f g \<longleftrightarrow> log_handle g = log_handle f \<and> hash_key g = hash_key f \<and> cache_fd g = cache_fd f"

definition spares_others :: "('w \<Rightarrow> gdp_name \<Rightarrow> log_rec list) \<Rightarrow> nat \<Rightarrow> gdpfs_file \<Rightarrow> 'w fsys \<Rightarrow> 'w fsys \<Rightarrow> bool" where
  "spares_others hist p f s s' \<longleftrightarrow> fhs s' = fhs s \<and> files s' = files s \<and> use_cache s' = use_cache s \<and> cquota_f s' = cquota_f s \<and>
     io_mode s' = io_mode s \<and> (\<forall>q. q \<noteq> p \<longrightarrow> fmem s' q = fmem s q) \<and>
     (\<forall>n. n \<noteq> log_handle f \<longrightarrow> hist (world s') n = hist (world s) n) \<and>
     (\<forall>n. cache_fd f \<noteq> Some n \<longrightarrow> cache_files s' n = cache_files s n)"

text \<open>A handle on a file with the data \<open>c\<close> and the size \<open>n\<close>.\<close>

definition file_data :: "('w \<Rightarrow> gdp_name \<Rightarrow> log_rec list) \<Rightarrow> 'w fsys \<Rightarrow> u64 \<Rightarrow> u8 list \<Rightarrow> nat \<Rightarrow> bool" where
  "file_data hist s fh c n \<longleftrightarrow> (\<exists>p f. lookup_fh s fh = Inr (Some p) \<and> data_at hist s p f c \<and>
     unat fh < length (files s) \<and> files s ! unat fh = Some p \<and>
     info_cache_valid f \<and> file_size (info_cache f) = of_nat n \<and> n \<le> length c)"

text \<open>A write that fits: byte indices stay below the last one, and the cache file has room.\<close>

definition fits :: "'w fsys \<Rightarrow> u64 \<Rightarrow> u8 list \<Rightarrow> bool" where
  "fits s off buf \<longleftrightarrow> unat off + length buf < 2 ^ 32 \<and> (use_cache s \<longrightarrow> unat off + length buf \<le> cquota_f s)"

lemma data_atD:
  assumes "data_at hist s p f c"
  shows "fmem s p = Some f" "io_mode s = GDP_MODE_RA" "length c < 2 ^ 32"
    "last_recno f = int (length (hist (world s) (log_handle f)))"
    "\<exists>t. fig_ok (nheap s) (figtree_of f) t \<and> indexed (hist (world s) (log_handle f)) t c"
    "use_cache s \<Longrightarrow> new_file f \<and> (\<exists>n k. cache_fd f = Some n \<and> cache_files s n = Some k \<and> fdata k = c)"
  using assms by (simp_all only: data_at_def)

lemma indexed_some:
  assumes "indexed L t c" "tlook t x = Some v"
  shows "unat x < length c" "1 \<le> v" "v \<le> int (length L)" "rec_sound (L ! nat (v - 1))"
    "rec_byte (L ! nat (v - 1)) (unat x) = Some (c ! unat x)"
  using assms unfolding indexed_def by (auto dest!: spec [of _ x])

lemma indexed_none: "indexed L t c \<Longrightarrow> tlook t x = None \<Longrightarrow> unat x < length c \<Longrightarrow> c ! unat x = 0"
  unfolding indexed_def by (auto dest!: spec [of _ x])

lemma indexed_append:
  assumes "indexed L t c"
  shows "indexed (L @ [r]) t c"
  unfolding indexed_def
proof
  fix x
  show "case tlook t x of None \<Rightarrow> unat x < length c \<longrightarrow> c ! unat x = 0
    | Some v \<Rightarrow> unat x < length c \<and> 1 \<le> v \<and> v \<le> int (length (L @ [r])) \<and> rec_sound ((L @ [r]) ! nat (v - 1)) \<and>
        rec_byte ((L @ [r]) ! nat (v - 1)) (unat x) = Some (c ! unat x)"
  proof (cases "tlook t x")
    case (Some v)
    note v = indexed_some [OF assms Some]
    have "nat (v - 1) < length L" using v by linarith
    then show ?thesis using Some v by (simp add: nth_append)
  qed (use indexed_none [OF assms] in simp)
qed

lemma indexed_write:
  assumes i: "indexed L t c" and b: "buf \<noteq> []" "off + length buf < 2 ^ 32"
    and t': "\<And>x. tlook t' x = (if off \<le> unat x \<and> unat x < off + length buf then Some (int (length L) + 1) else tlook t x)"
    and r: "rbody r = Data_Body buf" "ent_size (rmeta r) = of_nat (length buf)" "unat (ent_offset (rmeta r)) = off"
  shows "indexed (L @ [r]) t' (overlay c off buf)"
  unfolding indexed_def
proof
  fix x
  let ?c = "overlay c off buf"
  have len: "length ?c = max (length c) (off + length buf)" using b(1) by (simp add: length_overlay)
  show "case tlook t' x of None \<Rightarrow> unat x < length ?c \<longrightarrow> ?c ! unat x = 0
    | Some v \<Rightarrow> unat x < length ?c \<and> 1 \<le> v \<and> v \<le> int (length (L @ [r])) \<and> rec_sound ((L @ [r]) ! nat (v - 1)) \<and>
        rec_byte ((L @ [r]) ! nat (v - 1)) (unat x) = Some (?c ! unat x)"
  proof (cases "off \<le> unat x \<and> unat x < off + length buf")
    case True
    then have "unat x < length ?c" "?c ! unat x = buf ! (unat x - off)" using len nth_overlay [of "unat x" c off buf] by auto
    then show ?thesis using True t' [of x] r by (simp add: rec_sound_def rec_byte_def)
  next
    case False
    then have "?c ! unat x = (if unat x < length c then c ! unat x else 0)" if "unat x < length ?c"
      using nth_overlay [OF that] by auto
    moreover have "tlook t' x = tlook t x" by (subst t') (simp only: False if_False)
    ultimately show ?thesis
      using indexed_some [OF indexed_append [OF i, of r], of x] indexed_none [OF i, of x] len by (cases "tlook t x") auto
  qed
qed

section \<open>Writing\<close>

lemma unat_off:
  assumes "unat (off :: u64) + n < 2 ^ 32"
  shows "unat (ucast off :: u32) = unat off" "sint off = int (unat off)"
proof -
  have "unat off < 2 ^ 32" using assms by simp
  then show "unat (ucast off :: u32) = unat off" by (simp add: unsigned_ucast_eq take_bit_nat_eq_self)
  show "sint off = int (unat off)" using sint_small [of "unat off"] assms by simp
qed

lemma unat_last:
  assumes "unat (off :: u64) + n < 2 ^ 32" "0 < n"
  shows "unat (ucast (off + of_nat n - 1) :: u32) = unat off + n - 1" "unat (of_nat n :: u64) = n" "0 < (of_nat n :: u64)"
proof -
  have o: "off = of_nat (unat off)" by simp
  have "off + of_nat n - 1 = of_nat (unat off + n - 1)" using assms(2) by (subst o) (simp add: of_nat_diff)
  moreover have "unat (of_nat (unat off + n - 1) :: u64) = unat off + n - 1" using assms by (simp only: unat_of_nat) simp
  ultimately have "unat (off + of_nat n - 1) = unat off + n - 1" by simp
  then show "unat (ucast (off + of_nat n - 1) :: u32) = unat off + n - 1"
    using assms by (simp add: unsigned_ucast_eq take_bit_nat_eq_self)
  show n: "unat (of_nat n :: u64) = n" using assms by (simp add: unat_of_nat)
  show "0 < (of_nat n :: u64)" using n assms(2) by (metis word_gt_0 unat_0 less_irrefl)
qed

lemma fill_cache_data:
  assumes "use_cache s" "fmem s p = Some f" "cache_fd f = Some n" "cache_files s n = Some k" "fits s off buf"
  shows "\<exists>e k'. gdpfs_file_fill_cache s p buf off True = Inr (e, s\<lparr>cache_files := (cache_files s)(n \<mapsto> k')\<rparr>) \<and>
    fdata k' = overlay (fdata k) (unat off) buf"
proof -
  have "sint off = int (unat off)" using assms(5) unat_off [of off "length buf"] by (simp add: fits_def)
  then show ?thesis using assms pwrite_all [of "unat off" buf "cquota_f s" "cblk s" k]
    by (auto simp: gdpfs_file_fill_cache_def cache_of_def pseek_def fits_def Let_def split: prod.split)
qed

lemma rec_append_data:
  assumes "svc_ok S hist" "io_mode s = GDP_MODE_RA"
  shows "\<exists>e w. rec_append S s n r = (e, s\<lparr>world := w\<rparr>) \<and> EP_STAT_ISOK e \<and> hist w = (hist (world s))(n := hist (world s) n @ [r])"
  using assms svc_append_ok [OF assms(1)] by (cases "svc_append S (world s) n r") (auto simp: rec_append_def)

text \<open>The index after a write.\<close>

lemma index_write:
  assumes "fig_ok h tr t" "indexed L t c" "buf \<noteq> []" "unat off + length buf < 2 ^ 32"
    and r: "rbody r = Data_Body buf" "ent_size (rmeta r) = of_nat (length buf)" "ent_offset (rmeta r) = off"
  shows "\<exists>tr' h' t'. ft_write log h tr (ucast off) (ucast (off + of_nat (length buf) - 1)) (int (length L) + 1) = Inr (tr', h') \<and>
    fig_ok h' tr' t' \<and> indexed (L @ [r]) t' (overlay c (unat off) buf) \<and> spares h t h' t'"
proof -
  let ?a = "ucast off :: byte_index_t" and ?b = "ucast (off + of_nat (length buf) - 1) :: byte_index_t"
  have n: "0 < length buf" using assms(3) by simp
  have a: "unat ?a = unat off" "unat ?b = unat off + length buf - 1" using unat_off [OF assms(4)] unat_last [OF assms(4) n] by auto
  have "unat ?a \<le> unat ?b" unfolding a using n by linarith
  then have "?a \<le> ?b" by (simp only: word_le_nat_alt)
  moreover have "unat BYTE_INDEX_MAX = 2 ^ 32 - 1" by (simp add: BYTE_INDEX_MAX_def unsigned_minus_1_eq_mask mask_eq_exp_minus_1)
  then have "unat ?b < unat BYTE_INDEX_MAX" unfolding a using n assms(4) by linarith
  then have "?b < BYTE_INDEX_MAX" by (simp only: word_less_nat_alt)
  ultimately have "\<exists>tr' h' t'. ft_write log h tr ?a ?b (int (length L) + 1) = Inr (tr', h') \<and> fig_ok h' tr' t' \<and> spares h t h' t'
    \<and> (\<forall>x. tlook t' x = (if ?a \<le> x \<and> x \<le> ?b then Some (int (length L) + 1) else tlook t x))"
    by (rule ft_write_spares [OF assms(1)])
  then obtain tr' h' t' where w: "ft_write log h tr ?a ?b (int (length L) + 1) = Inr (tr', h')" "fig_ok h' tr' t'"
    "spares h t h' t'" "\<forall>x. tlook t' x = (if ?a \<le> x \<and> x \<le> ?b then Some (int (length L) + 1) else tlook t x)"
    by (elim exE conjE)
  have "(?a \<le> x \<and> x \<le> ?b) \<longleftrightarrow> (unat off \<le> unat x \<and> unat x < unat off + length buf)" for x
  proof -
    have "unat x \<le> unat off + length buf - 1 \<longleftrightarrow> unat x < unat off + length buf" using n by linarith
    then show ?thesis by (simp only: word_le_nat_alt a)
  qed
  then have "tlook t' x = (if unat off \<le> unat x \<and> unat x < unat off + length buf then Some (int (length L) + 1) else tlook t x)" for x
    using w(4) by simp
  then show ?thesis using w indexed_write [OF assms(2-4), of t' r] r by blast
qed

text \<open>A write without data leaves the index alone.\<close>

lemma tree_step:
  assumes S: "svc_ok S hist" and L: "lookup_fh s fh = Inr (Some p)" and D: "data_tree hist s p f c t" and F: "fits s off buf"
  shows "\<exists>s' f' t'. do_write S s fh buf off info = Inr (of_nat (length buf), s') \<and> data_tree hist s' p f' (overlay c (unat off) buf) t' \<and>
    info_cache f' = info_cache f \<and> info_cache_valid f' = info_cache_valid f \<and> same_place f f' \<and> spares_others hist p f s s' \<and>
    spares (nheap s) t (nheap s') t'"
proof -
  let ?L = "hist (world s) (log_handle f)" and ?c = "overlay c (unat off) buf"
  let ?r = "\<lparr>rmeta = data_meta info off (of_nat (length buf)), rbody = Data_Body buf\<rparr>"
  have d: "fmem s p = Some f" "io_mode s = GDP_MODE_RA" "length c < 2 ^ 32" "last_recno f = int (length ?L)"
    and t: "fig_ok (nheap s) (figtree_of f) t" "indexed ?L t c" using D by (simp_all only: data_tree_def)
  have fit: "unat off + length buf < 2 ^ 32" using F by (simp add: fits_def)
  define f1 where "f1 = f\<lparr>ref_count := ref_count f + 1, outstanding_reqs := outstanding_reqs f + 1\<rparr>"
  define s1 where "s1 = put_file s p f1"
  have s1: "fmem s1 p = Some f1" "use_cache s1 = use_cache s" "cache_files s1 = cache_files s" "io_mode s1 = io_mode s" "world s1 = world s"
    "nheap s1 = nheap s" "fhs s1 = fhs s" "files s1 = files s" "cquota_f s1 = cquota_f s" "fits s1 off buf"
    using F by (simp_all add: s1_def put_file_def fits_def)
  have f1: "log_handle f1 = log_handle f" "last_recno f1 = last_recno f" "figtree_of f1 = figtree_of f" "cache_fd f1 = cache_fd f"
    "new_file f1 = new_file f" "hash_key f1 = hash_key f" "info_cache f1 = info_cache f" "info_cache_valid f1 = info_cache_valid f" by (simp_all add: f1_def)
  have "\<exists>C. (if use_cache s1 then bindR (gdpfs_file_fill_cache s1 p buf off True) (\<lambda>(_, s). Inr s) else Inr s1) = Inr (s1\<lparr>cache_files := C\<rparr>) \<and>
     (use_cache s \<longrightarrow> new_file f \<and> (\<exists>n k. cache_fd f = Some n \<and> C n = Some k \<and> fdata k = ?c)) \<and>
     (\<forall>n. cache_fd f \<noteq> Some n \<longrightarrow> C n = cache_files s n)"
  proof (cases "use_cache s")
    case True
    obtain n k where k: "new_file f" "cache_fd f = Some n" "cache_files s n = Some k" "fdata k = c"
      using D True unfolding data_tree_def by (elim conjE impE exE) simp_all
    have "use_cache s1" "cache_fd f1 = Some n" "cache_files s1 n = Some k" using True k s1 f1 by simp_all
    from fill_cache_data [OF this(1) s1(1) this(2,3) s1(10)] obtain e k' where
      e: "gdpfs_file_fill_cache s1 p buf off True = Inr (e, s1\<lparr>cache_files := (cache_files s1)(n \<mapsto> k')\<rparr>)"
      "fdata k' = overlay (fdata k) (unat off) buf" by (elim exE conjE)
    show ?thesis by (rule exI [of _ "(cache_files s1)(n \<mapsto> k')"]) (simp add: e k s1(2,3) True)
  next
    case False
    then show ?thesis using s1(2,3) by (intro exI [of _ "cache_files s1"]) simp
  qed
  then obtain C where C: "(if use_cache s1 then bindR (gdpfs_file_fill_cache s1 p buf off True) (\<lambda>(_, s). Inr s) else Inr s1) = Inr (s1\<lparr>cache_files := C\<rparr>)"
    "use_cache s \<longrightarrow> new_file f \<and> (\<exists>n k. cache_fd f = Some n \<and> C n = Some k \<and> fdata k = ?c)"
    "\<forall>n. cache_fd f \<noteq> Some n \<longrightarrow> C n = cache_files s n" by blast
  define f2 where "f2 = f1\<lparr>last_recno := last_recno f1 + 1\<rparr>"
  define s2 where "s2 = put_file (s1\<lparr>cache_files := C\<rparr>) p f2"
  have "\<exists>h tr t'. (if (of_nat (length buf) :: u64) > 0
                then bindR (ft_write (log_of S s2 (log_handle f2)) (nheap s2) (figtree_of f2) (ucast off) (ucast (off + of_nat (length buf) - 1)) (last_recno f2))
                       (\<lambda>(tr, h). Inr (put_file (s2\<lparr>nheap := h\<rparr>) p (f2\<lparr>figtree_of := tr\<rparr>)))
                else Inr s2) = Inr (put_file (s2\<lparr>nheap := h\<rparr>) p (f2\<lparr>figtree_of := tr\<rparr>)) \<and>
     fig_ok h tr t' \<and> indexed (?L @ [?r]) t' ?c \<and> spares (nheap s) t h t'"
  proof (cases "buf = []")
    case True
    have "put_file (s2\<lparr>nheap := nheap s2\<rparr>) p (f2\<lparr>figtree_of := figtree_of f2\<rparr>) = s2" by (simp add: s2_def put_file_def)
    then show ?thesis using True t indexed_append [OF t(2), of ?r]
      by (intro exI [of _ "nheap s2"] exI [of _ "figtree_of f2"] exI [of _ t]) (simp add: s2_def f2_def f1 s1 put_file_def overlay_def spares_refl)
  next
    case False
    have pos: "(of_nat (length buf) :: u64) > 0" using unat_last(3) [OF fit] False by simp
    have r: "rbody ?r = Data_Body buf" "ent_size (rmeta ?r) = of_nat (length buf)" "ent_offset (rmeta ?r) = off" by (simp_all add: data_meta_def)
    from index_write [OF t False fit r] obtain tr h t' where
      "ft_write (log_of S s2 (log_handle f2)) (nheap s) (figtree_of f) (ucast off) (ucast (off + of_nat (length buf) - 1)) (int (length ?L) + 1) = Inr (tr, h)"
      "fig_ok h tr t'" "indexed (?L @ [?r]) t' ?c" "spares (nheap s) t h t'" by blast
    moreover have "nheap s2 = nheap s" "figtree_of f2 = figtree_of f" "last_recno f2 = int (length ?L) + 1"
      by (simp_all add: s2_def f2_def f1 s1 put_file_def d)
    ultimately show ?thesis using pos by (intro exI [of _ h] exI [of _ tr] exI [of _ t']) simp
  qed
  then obtain h tr t' where I: "(if (of_nat (length buf) :: u64) > 0
                then bindR (ft_write (log_of S s2 (log_handle f2)) (nheap s2) (figtree_of f2) (ucast off) (ucast (off + of_nat (length buf) - 1)) (last_recno f2))
                       (\<lambda>(tr, h). Inr (put_file (s2\<lparr>nheap := h\<rparr>) p (f2\<lparr>figtree_of := tr\<rparr>)))
                else Inr s2) = Inr (put_file (s2\<lparr>nheap := h\<rparr>) p (f2\<lparr>figtree_of := tr\<rparr>))"
     "fig_ok h tr t'" "indexed (?L @ [?r]) t' ?c" "spares (nheap s) t h t'" by blast
  define f3 where "f3 = f2\<lparr>figtree_of := tr\<rparr>"
  define s3 where "s3 = put_file (s2\<lparr>nheap := h\<rparr>) p f3"
  have s3: "io_mode s3 = GDP_MODE_RA" "world s3 = world s" "log_handle f2 = log_handle f"
    by (simp_all add: s3_def s2_def f2_def s1 f1 put_file_def d)
  obtain e w where A: "rec_append S s3 (log_handle f2) ?r = (e, s3\<lparr>world := w\<rparr>)" "EP_STAT_ISOK e"
    "hist w = (hist (world s))(log_handle f := ?L @ [?r])" using rec_append_data [OF S s3(1), of "log_handle f2" ?r] s3 by auto
  let ?s = "s3\<lparr>world := w, pending := pending s3 @ [Free_Fileref p e]\<rparr>"
  have "do_write S s fh buf off info = Inr (of_nat (length buf), ?s)"
  proof -
    have g: "get_file (put_file s p (f\<lparr>ref_count := ref_count f + 1\<rparr>)) p = Inr (f\<lparr>ref_count := ref_count f + 1\<rparr>)"
      "get_file (s1\<lparr>cache_files := C\<rparr>) p = Inr f1" "get_file s p = Inr f"
      "put_file (put_file s p (f\<lparr>ref_count := ref_count f + 1\<rparr>)) p ((f\<lparr>ref_count := ref_count f + 1\<rparr>)\<lparr>outstanding_reqs := outstanding_reqs (f\<lparr>ref_count := ref_count f + 1\<rparr>) + 1\<rparr>) = s1"
      using d s1 by (simp_all add: get_file_def put_file_def s1_def f1_def)
    show ?thesis
      unfolding do_write_def Let_def L bindR_simps option.case file_ref_def g prod.case C(1) f2_def [symmetric] s2_def [symmetric] I(1)
        f3_def [symmetric] s3_def [symmetric] A(1)
      using A(2) by simp
  qed
  moreover have "data_tree hist ?s p f3 ?c t'"
    unfolding data_tree_def using d I(2,3) C(2) fit A(3)
    by (auto simp: s3_def s2_def f3_def f2_def s1 f1 put_file_def length_overlay)
  moreover have "info_cache f3 = info_cache f" "info_cache_valid f3 = info_cache_valid f" "same_place f f3"
    by (simp_all add: f3_def f2_def f1 same_place_def)
  moreover have "spares_others hist p f s ?s" unfolding spares_others_def using A(3) C(3)
    by (simp add: s3_def s2_def s1 put_file_def) (simp add: s1_def put_file_def)
  moreover have "spares (nheap s) t (nheap ?s) t'" using I(4) by (simp add: s3_def put_file_def)
  ultimately show ?thesis by blast
qed

lemma get_info_valid: "fmem s p = Some f \<Longrightarrow> info_cache_valid f \<Longrightarrow> file_get_info_raw S s p = Inr (GDPFS_STAT_OK, s)"
  by (simp add: file_get_info_raw_def get_file_def)

lemma file_dataE:
  assumes "file_data hist s fh c n"
  obtains p f where "lookup_fh s fh = Inr (Some p)" "data_at hist s p f c" "unat fh < length (files s)" "files s ! unat fh = Some p"
    "info_cache_valid f" "file_size (info_cache f) = of_nat n" "n \<le> length c" "fmem s p = Some f" "n < 2 ^ 32"
    "gdpfs_file_get_info S s fh = Inr (GDPFS_STAT_OK, Some p, s)"
proof -
  obtain p f where p: "lookup_fh s fh = Inr (Some p)" "data_at hist s p f c" "unat fh < length (files s)" "files s ! unat fh = Some p"
    "info_cache_valid f" "file_size (info_cache f) = of_nat n" "n \<le> length c"
    using assms unfolding file_data_def by (elim exE conjE)
  have "n < 2 ^ 32" using p(7) data_atD(3) [OF p(2)] by simp
  moreover have "gdpfs_file_get_info S s fh = Inr (GDPFS_STAT_OK, Some p, s)"
    using p(1) get_info_valid [OF data_atD(1) [OF p(2)] p(5), of S] by (simp add: gdpfs_file_get_info_def)
  ultimately show thesis using that p data_atD(1) [OF p(2)] by blast
qed

lemma data_tree_info:
  assumes "data_tree hist s p f c t"
  shows "data_tree hist (put_file s p (f\<lparr>info_cache := i\<rparr>)) p (f\<lparr>info_cache := i\<rparr>) c t"
  using assms unfolding data_tree_def put_file_def by simp

lemma lookup_cong: "fhs t = fhs s \<Longrightarrow> files t = files s \<Longrightarrow> lookup_fh t fh = lookup_fh s fh"
  by (simp only: lookup_fh_def)

lemma lookup_put [simp]: "lookup_fh (put_file s p f) fh = lookup_fh s fh"
  by (rule lookup_cong) (simp_all add: put_file_def)

text \<open>The writes that go through the file information: it is changed in place and recorded with the data.\<close>

lemma info_tree:
  assumes S: "svc_ok S hist" and L: "lookup_fh s fh = Inr (Some p)" and D: "data_tree hist s p f c t" and v: "info_cache_valid f"
    and F: "fits s off buf" and sz: "file_size (upd (info_cache f)) = of_nat m"
  shows "\<exists>s1 s' info f' t'. gdpfs_file_get_info S s fh = Inr (GDPFS_STAT_OK, Some p, s) \<and> change_info s p upd = Inr (info, s1) \<and>
    do_write S s1 fh buf off info = Inr (of_nat (length buf), s') \<and> data_tree hist s' p f' (overlay c (unat off) buf) t' \<and>
    info_cache_valid f' \<and> file_size (info_cache f') = of_nat m \<and> same_place f f' \<and> spares_others hist p f s s' \<and>
    spares (nheap s) t (nheap s') t'"
proof -
  have f: "fmem s p = Some f" using D by (simp add: data_tree_def)
  define f1 where "f1 = f\<lparr>info_cache := upd (info_cache f)\<rparr>"
  define s1 where "s1 = put_file s p f1"
  have c1: "change_info s p upd = Inr (upd (info_cache f), s1)" using f by (simp add: change_info_def get_file_def s1_def f1_def Let_def)
  have "lookup_fh s1 fh = Inr (Some p)" "data_tree hist s1 p f1 c t" "fits s1 off buf"
    using L data_tree_info [OF D] F by (simp_all add: s1_def f1_def fits_def put_file_def lookup_put [unfolded put_file_def])
  from tree_step [OF S this, of "upd (info_cache f)"] obtain s' f' t' where
    w: "do_write S s1 fh buf off (upd (info_cache f)) = Inr (of_nat (length buf), s')" "data_tree hist s' p f' (overlay c (unat off) buf) t'"
    "info_cache f' = info_cache f1" "info_cache_valid f' = info_cache_valid f1" "same_place f1 f'" "spares_others hist p f1 s1 s'"
    "spares (nheap s1) t (nheap s') t'" by (elim exE conjE)
  have "gdpfs_file_get_info S s fh = Inr (GDPFS_STAT_OK, Some p, s)"
    using L get_info_valid [OF f v, of S] by (simp add: gdpfs_file_get_info_def)
  moreover have "same_place f f'" "spares_others hist p f s s'" "spares (nheap s) t (nheap s') t'"
    using w(5-7) by (simp_all add: same_place_def spares_others_def f1_def s1_def put_file_def)
  moreover have "info_cache_valid f'" "file_size (info_cache f') = of_nat m" using w(3,4) v sz by (simp_all add: f1_def)
  ultimately show ?thesis using c1 w(1,2) by (intro exI conjI)
qed

lemma info_write:
  assumes S: "svc_ok S hist" and D: "file_data hist s fh c n" and F: "fits s off buf"
    and sz: "\<And>i. file_size i = of_nat n \<Longrightarrow> file_size (upd i) = of_nat m" and m: "m \<le> length (overlay c (unat off) buf)"
  shows "\<exists>p s1 s' info. gdpfs_file_get_info S s fh = Inr (GDPFS_STAT_OK, Some p, s) \<and> change_info s p upd = Inr (info, s1) \<and>
    do_write S s1 fh buf off info = Inr (of_nat (length buf), s') \<and> file_data hist s' fh (overlay c (unat off) buf) m \<and>
    use_cache s' = use_cache s \<and> cquota_f s' = cquota_f s"
proof -
  obtain p f where p: "lookup_fh s fh = Inr (Some p)" "data_at hist s p f c" "unat fh < length (files s)" "files s ! unat fh = Some p"
    "info_cache_valid f" "file_size (info_cache f) = of_nat n" using file_dataE [OF D, of S] by metis
  obtain t where t: "data_tree hist s p f c t" using p(2) by (auto simp: data_at_tree)
  from info_tree [OF S p(1) t p(5) F, where upd = upd and m = m, OF sz [OF p(6)]] obtain s1 s' info f' t' where
    w: "gdpfs_file_get_info S s fh = Inr (GDPFS_STAT_OK, Some p, s)" "change_info s p upd = Inr (info, s1)"
    "do_write S s1 fh buf off info = Inr (of_nat (length buf), s')" "data_tree hist s' p f' (overlay c (unat off) buf) t'"
    "info_cache_valid f'" "file_size (info_cache f') = of_nat m" "spares_others hist p f s s'" by (elim exE conjE)
  have s': "fhs s' = fhs s" "files s' = files s" "use_cache s' = use_cache s" "cquota_f s' = cquota_f s" using w(7) by (simp_all add: spares_others_def)
  have "lookup_fh s' fh = Inr (Some p)" using p(1) lookup_cong [of s' s fh] s' by simp
  moreover have "data_at hist s' p f' (overlay c (unat off) buf)" using w(4) by (auto simp: data_at_tree)
  ultimately have "file_data hist s' fh (overlay c (unat off) buf) m"
    using p(3,4) w(5,6) s' m unfolding file_data_def by (intro exI [of _ p] exI [of _ f']) simp
  then show ?thesis using w(1-3) s' by blast
qed

lemma grown_size:
  assumes "n < 2 ^ 32" "unat (off :: u64) + k < 2 ^ 32" "file_size i = of_nat n"
  shows "file_size (i\<lparr>file_size := max (file_size i) (off + of_nat k)\<rparr>) = of_nat (max n (unat off + k))"
proof -
  have n: "unat (of_nat n :: u64) = n" "unat (of_nat (unat off + k) :: u64) = unat off + k"
    using assms(1,2) by (simp_all only: unat_of_nat) simp_all
  have "off + of_nat k = of_nat (unat off + k)" by simp
  then have "max (of_nat n) (off + of_nat k) = (of_nat (max n (unat off + k)) :: u64)"
    using n by (simp only: max_def word_le_nat_alt) simp
  then show ?thesis using assms(3) by simp
qed

lemma write_data:
  assumes S: "svc_ok S hist" and D: "file_data hist s fh c n" and F: "fits s off buf" and b: "buf \<noteq> []"
  shows "\<exists>s'. gdpfs_file_write S s fh buf off = Inr (of_nat (length buf), s') \<and>
    file_data hist s' fh (overlay c (unat off) buf) (max n (unat off + length buf)) \<and> use_cache s' = use_cache s \<and> cquota_f s' = cquota_f s"
proof -
  let ?u = "\<lambda>i. i\<lparr>file_size := max (file_size i) (off + of_nat (length buf))\<rparr>"
  obtain p f where n: "n \<le> length c" "n < 2 ^ 32" using file_dataE [OF D, of S] by metis
  have l: "unat off + length buf < 2 ^ 32" using F by (simp add: fits_def)
  have g: "file_size (?u i) = of_nat (max n (unat off + length buf))" if "file_size i = of_nat n" for i by (rule grown_size [OF n(2) l that])
  have "max n (unat off + length buf) \<le> length (overlay c (unat off) buf)" using b n(1) by (simp add: length_overlay max.mono)
  then obtain p s1 s' info where "gdpfs_file_get_info S s fh = Inr (GDPFS_STAT_OK, Some p, s)" "change_info s p ?u = Inr (info, s1)"
    "do_write S s1 fh buf off info = Inr (of_nat (length buf), s')"
    "file_data hist s' fh (overlay c (unat off) buf) (max n (unat off + length buf))" "use_cache s' = use_cache s" "cquota_f s' = cquota_f s"
    using info_write [OF S D F, of ?u "max n (unat off + length buf)"] g by (elim meta_impE exE conjE)
  then show ?thesis by (intro exI [of _ s']) (simp add: gdpfs_file_write_def deref_def EP_STAT_ISOK_def)
qed

lemma truncate_data:
  assumes S: "svc_ok S hist" and D: "file_data hist s fh c n"
  shows "\<exists>s'. gdpfs_file_ftruncate S s fh len = Inr (0, s') \<and> file_data hist s' fh c 0 \<and> use_cache s' = use_cache s \<and> cquota_f s' = cquota_f s"
proof -
  let ?u = "\<lambda>i. i\<lparr>file_size := 0\<rparr>"
  have F: "fits s 0 []" by (simp add: fits_def)
  obtain p s1 s' info where "gdpfs_file_get_info S s fh = Inr (GDPFS_STAT_OK, Some p, s)" "change_info s p ?u = Inr (info, s1)"
    "do_write S s1 fh [] 0 info = Inr (of_nat (length []), s')"
    "file_data hist s' fh (overlay c (unat 0) []) 0" "use_cache s' = use_cache s" "cquota_f s' = cquota_f s"
    using info_write [OF S D F, of ?u 0] by auto
  then show ?thesis by (intro exI [of _ s']) (simp add: gdpfs_file_ftruncate_def deref_def EP_STAT_ISOK_def overlay_def)
qed

section \<open>Reading\<close>

lemma plook_piece:
  assumes "pieces_ok ps a b" "(l, r, v) \<in> set ps" "l \<le> x" "x < r"
  shows "plook ps x = Some v"
  using assms
proof (induction ps)
  case (Cons q ps)
  obtain l' r' v' where q: "q = (l', r', v')" by (cases q)
  show ?case
  proof (cases "(l, r, v) = q")
    case False
    then have m: "(l, r, v) \<in> set ps" using Cons.prems(2) by simp
    then have "r' \<le> l" "pieces_ok ps a b" using Cons.prems(1) q by (auto simp: pieces_ok_def)
    then show ?thesis using Cons.IH [OF _ m Cons.prems(3,4)] Cons.prems(3) q by simp
  qed (use Cons.prems q in simp)
qed simp

lemma plook_none: "plook ps x = None \<longleftrightarrow> (\<forall>l r v. (l, r, v) \<in> set ps \<longrightarrow> \<not> (l \<le> x \<and> x < r))"
  by (induction ps) (auto split: if_splits)

lemma pieces_length: "pieces_ok ps a b \<Longrightarrow> length ps \<le> b - a"
proof (induction ps arbitrary: a)
  case (Cons q ps)
  obtain l r v where q: "q = (l, r, v)" by (cases q)
  then have b: "a \<le> l" "l < r" "r \<le> b" "pieces_ok ps r b" using Cons.prems by (auto simp: pieces_ok_def)
  then show ?case using Cons.IH [OF b(4)] by simp
qed simp

text \<open>A piece of the index, and the bytes the record has for it.\<close>

definition piece_bytes :: "'w log_service \<Rightarrow> 'w fsys \<Rightarrow> gdp_name \<Rightarrow> u8 list \<Rightarrow> piece \<Rightarrow> bool" where
  "piece_bytes S s lg c q \<longleftrightarrow> (case q of (l, r, v) \<Rightarrow> 0 < v \<and> rec_bytes S s lg v (of_nat l) (r - l) = Inr (take (r - l) (drop l c)))"

lemma rec_byte_data:
  assumes "\<And>x. l \<le> x \<Longrightarrow> x < e \<Longrightarrow> rec_byte r x = Some (c ! x)" "l < e" "e \<le> length c"
  shows "\<exists>bs. rbody r = Data_Body bs \<and> unat (ent_offset (rmeta r)) \<le> l \<and> e \<le> unat (ent_offset (rmeta r)) + length bs \<and>
    take (e - l) (drop (l - unat (ent_offset (rmeta r))) bs) = take (e - l) (drop l c)"
proof -
  have "rec_byte r l \<noteq> None" using assms by simp
  then obtain bs where bs: "rbody r = Data_Body bs" by (cases "rbody r") (auto simp: rec_byte_def)
  let ?k = "unat (ent_offset (rmeta r))"
  have k: "?k \<le> x \<and> x < ?k + length bs \<and> bs ! (x - ?k) = c ! x" if "l \<le> x" "x < e" for x
    using assms(1) [OF that] bs by (simp add: rec_byte_def Let_def split: if_splits)
  have "l \<le> e - 1" "e - 1 < e" using assms(2) by linarith+
  then have "?k \<le> l" "e - 1 < ?k + length bs" using k [of l] k [of "e - 1"] assms(2) by (blast, blast)
  then have r: "?k \<le> l" "e \<le> ?k + length bs" by linarith+
  moreover have "take (e - l) (drop (l - ?k) bs) = take (e - l) (drop l c)"
  proof (rule nth_equalityI)
    show "length (take (e - l) (drop (l - ?k) bs)) = length (take (e - l) (drop l c))" using r assms by simp
    fix i assume "i < length (take (e - l) (drop (l - ?k) bs))"
    then have "i < e - l" "i < length bs - (l - ?k)" by simp_all
    then show "take (e - l) (drop (l - ?k) bs) ! i = take (e - l) (drop l c) ! i" using k [of "l + i"] r assms by simp
  qed
  ultimately show ?thesis using bs by blast
qed

lemma piece_bytes_ok:
  assumes S: "svc_ok S hist" and m: "io_mode s = GDP_MODE_RA" and I: "indexed (hist (world s) lg) t c"
    and q: "\<And>x. l \<le> x \<Longrightarrow> x < e \<Longrightarrow> tlook t (of_nat x) = Some v" and b: "l < e" "e \<le> length c" "length c < 2 ^ 32"
  shows "piece_bytes S s lg c (l, e, v)"
proof -
  let ?L = "hist (world s) lg" let ?r = "?L ! nat (v - 1)"
  have u: "unat (of_nat x :: byte_index_t) = x" if "x < e" for x using that b by (simp add: unat_of_nat)
  have v: "1 \<le> v" "v \<le> int (length ?L)" "rec_sound ?r" using indexed_some [OF I q [of l]] b(1) by simp_all
  have "rec_byte ?r x = Some (c ! x)" if "l \<le> x" "x < e" for x using indexed_some(5) [OF I q [OF that]] u [OF that(2)] by simp
  from rec_byte_data [OF this b(1,2)] obtain bs where bs: "rbody ?r = Data_Body bs" "unat (ent_offset (rmeta ?r)) \<le> l"
    "e \<le> unat (ent_offset (rmeta ?r)) + length bs"
    "take (e - l) (drop (l - unat (ent_offset (rmeta ?r))) bs) = take (e - l) (drop l c)" by blast
  have l: "unat (of_nat l :: u64) = l" using b by (simp add: unat_of_nat)
  have k: "unat (of_nat l - ent_offset (rmeta ?r)) = l - unat (ent_offset (rmeta ?r))"
    using bs(2) l by (metis unat_sub word_le_nat_alt)
  have "rec_open S s lg v = Inr (v, ?r)" using svc_read_ok [OF S v(1,2)] m by (simp add: rec_open_def)
  then show ?thesis
    using v bs b k by (simp add: piece_bytes_def rec_bytes_def rec_sound_def Let_def)
qed

lemma nth_buf_put:
  assumes "a \<le> l" "l < e" "e - a \<le> length buf" "length bs = e - l"
  shows "\<exists>b. buf_put buf (int l - int a) bs = Inr b \<and> length b = length buf \<and>
    (\<forall>i < length buf. b ! i = (if l \<le> a + i \<and> a + i < e then bs ! (a + i - l) else buf ! i))"
proof -
  have "buf_put buf (int l - int a) bs = Inr (take (l - a) buf @ bs @ drop (e - a) buf)"
  proof -
    have "nat (int l - int a) = l - a" "bs \<noteq> []" "l - a + length bs = e - a" using assms by auto
    then show ?thesis using assms by (simp add: buf_put_def)
  qed
  moreover have "(take (l - a) buf @ bs @ drop (e - a) buf) ! i = (if l \<le> a + i \<and> a + i < e then bs ! (a + i - l) else buf ! i)"
    if "i < length buf" for i
  proof -
    consider "i < l - a" | "l - a \<le> i" "i < e - a" | "e - a \<le> i" by linarith
    then show ?thesis
    proof cases
      case 1
      then show ?thesis using assms that by (auto simp: nth_append)
    next
      case 2
      then have "l \<le> a + i \<and> a + i < e" "i - (l - a) = a + i - l" "i - (l - a) < length bs" using assms by auto
      then show ?thesis using 2 that by (simp add: nth_append)
    next
      case 3
      then have "\<not> (l \<le> a + i \<and> a + i < e)" "\<not> i - (l - a) < length bs" "length bs + (l - a) = e - a" using assms by auto
      moreover have "\<not> i < l - a" using 3 assms by linarith
      ultimately show ?thesis using 3 that assms by (simp add: nth_append)
    qed
  qed
  ultimately show ?thesis using assms by (intro exI [of _ "take (l - a) buf @ bs @ drop (e - a) buf"]) simp
qed

lemma fig_bounds:
  assumes "fig_is g (l, e, v)" "l < e" "e < 2 ^ 32"
  shows "unat (left (fig_irange g)) = l" "unat (right (fig_irange g) - left (fig_irange g) + 1) = e - l"
    "(ucast (left (fig_irange g)) :: u64) = of_nat l" "fig_value g = v"
proof -
  let ?x = "left (fig_irange g)" and ?y = "right (fig_irange g)"
  show l: "unat ?x = l" and "fig_value g = v" using assms(1) by (simp_all add: fig_is_def)
  have y: "unat ?y = e - 1" using assms(1) by (auto simp: fig_is_def)
  have "?x \<le> ?y" using l y assms(2) by (simp add: word_le_nat_alt)
  then have "unat (?y - ?x) = e - 1 - l" using l y by (simp add: unat_sub)
  moreover have "unat (?y - ?x + 1) = (unat (?y - ?x) + 1) mod 2 ^ 32" by (simp add: unat_word_ariths)
  ultimately show "unat (?y - ?x + 1) = e - l" using assms(2,3) by simp
  show "(ucast ?x :: u64) = of_nat l" using l by (metis of_nat_unat)
qed

lemma read_piece_data:
  assumes f: "fig_is g (l, e, v)" and b: "a \<le> l" "l < e" "e \<le> a + length buf" "a + length buf \<le> length c" "length c < 2 ^ 32"
    and P: "piece_bytes S s lg c (l, e, v)" and off: "unat off = a"
  shows "\<exists>b. read_piece S s p lg off buf g = Inr b \<and> length b = length buf \<and>
    (\<forall>i < length buf. b ! i = (if l \<le> a + i \<and> a + i < e then c ! (a + i) else buf ! i))"
proof -
  have e: "e < 2 ^ 32" using b by simp
  note g = fig_bounds [OF f b(2) e]
  have "uint (left (fig_irange g)) - uint off = int l - int a" using g(1) off by (simp add: uint_nat)
  then have "read_piece S s p lg off buf g = buf_put buf (int l - int a) (take (e - l) (drop l c))"
    using P g by (simp add: read_piece_def piece_bytes_def Let_def)
  moreover have "length (take (e - l) (drop l c)) = e - l" "e - a \<le> length buf" using b by auto
  moreover have "take (e - l) (drop l c) ! (a + i - l) = c ! (a + i)" if "l \<le> a + i" "a + i < e" for i using that b by simp
  ultimately show ?thesis using nth_buf_put [of a l e buf "take (e - l) (drop l c)"] b(1,2) by auto
qed

lemma read_loop_data:
  assumes "iter_ok (nheap s) it kts" "length (rems (it_states it) kts) < n"
    "\<forall>(l, e, v) \<in> set (rems (it_states it) kts). piece_bytes S s lg c (l, e, v) \<and> a \<le> l \<and> l < e \<and> e \<le> a + length buf"
    "a + length buf \<le> length c" "length c < 2 ^ 32" "unat off = a"
  shows "\<exists>b. read_loop n S s p lg off it buf = Inr (b, s) \<and> length b = length buf \<and>
    (\<forall>i < length buf. b ! i = (if plook (rems (it_states it) kts) (a + i) \<noteq> None then c ! (a + i) else buf ! i))"
  using assms
proof (induction n arbitrary: it kts buf)
  case (Suc n)
  have s: "s\<lparr>nheap := nheap s\<rparr> = s" by simp
  show ?case
  proof (cases "it_states it = []")
    case True
    then show ?thesis using fti_next_end [OF Suc.prems(1) True, of "log_of S s lg"] s by simp
  next
    case False
    obtain g q it' kts' where y: "fti_next (log_of S s lg) (nheap s) it = Inr (Some g, it', nheap s)" "fig_is g q" "iter_ok (nheap s) it' kts'"
      "rems (it_states it) kts = q # rems (it_states it') kts'" using fti_next_yield [OF Suc.prems(1) False] by blast
    obtain l e v where q: "q = (l, e, v)" by (cases q)
    have P: "piece_bytes S s lg c (l, e, v)" "a \<le> l" "l < e" "e \<le> a + length buf" using Suc.prems(3) y(4) q by auto
    from read_piece_data [OF y(2) [unfolded q] P(2,3,4) Suc.prems(4,5) P(1) Suc.prems(6)] obtain b where
      b: "read_piece S s p lg off buf g = Inr b" "length b = length buf"
      "\<forall>i < length buf. b ! i = (if l \<le> a + i \<and> a + i < e then c ! (a + i) else buf ! i)" by blast
    have "length (rems (it_states it') kts') < n" using Suc.prems(2) y(4) by simp
    moreover have "\<forall>(l, e, v) \<in> set (rems (it_states it') kts'). piece_bytes S s lg c (l, e, v) \<and> a \<le> l \<and> l < e \<and> e \<le> a + length b"
      using Suc.prems(3) y(4) b(2) by auto
    moreover have "a + length b \<le> length c" using Suc.prems(4) b(2) by simp
    ultimately obtain b' where b': "read_loop n S s p lg off it' b = Inr (b', s)" "length b' = length b"
      "\<forall>i < length b. b' ! i = (if plook (rems (it_states it') kts') (a + i) \<noteq> None then c ! (a + i) else b ! i)"
      using Suc.IH [OF y(3)] Suc.prems(5,6) by blast
    have "read_loop (Suc n) S s p lg off it buf = Inr (b', s)" using y(1) b(1) b'(1) s by simp
    moreover have "b' ! i = (if plook (rems (it_states it) kts) (a + i) \<noteq> None then c ! (a + i) else buf ! i)" if "i < length buf" for i
      using b(2,3) b'(3) that by (auto simp: y(4) q)
    ultimately show ?thesis using b(2) b'(2) by (intro exI [of _ b']) simp
  qed
qed simp

text \<open>The bytes of the index and the log, for a range inside of the data.\<close>

lemma index_read:
  assumes S: "svc_ok S hist" and D: "data_at hist s p f c" and sz: "0 < sz" "unat off + unat sz \<le> length c"
  shows "\<exists>it. ft_read (log_of S s (log_handle f)) (nheap s) (figtree_of f) (ucast off) (ucast (off + sz - 1)) = Inr (it, nheap s) \<and>
    read_loop (Suc (unat sz)) S s p (log_handle f) off it (replicate (unat sz) 0) = Inr (take (unat sz) (drop (unat off) c), s)"
proof -
  let ?a = "unat off" and ?b = "unat off + unat sz" and ?lg = "log_handle f"
  let ?x = "ucast off :: byte_index_t" and ?y = "ucast (off + sz - 1) :: byte_index_t"
  obtain t where t: "fig_ok (nheap s) (figtree_of f) t" "indexed (hist (world s) ?lg) t c" using data_atD(5) [OF D] by (elim exE conjE)
  have lc: "length c < 2 ^ 32" and m: "io_mode s = GDP_MODE_RA" by (fact data_atD [OF D])+
  have n: "0 < unat sz" "?a + unat sz < 2 ^ 32" using sz lc by (simp_all add: word_gt_0 unat_gt_0)
  have u: "unat ?x = ?a" "unat ?y = ?b - 1" using unat_off [OF n(2)] unat_last(1) [OF n(2,1)] by simp_all
  have "unat ?x \<le> unat ?y" using u n(1) by linarith
  then have "?x \<le> ?y" by (simp only: word_le_nat_alt)
  from ft_read_spec [OF t(1) this, of "log_of S s ?lg"] obtain it kts where
    it: "ft_read (log_of S s ?lg) (nheap s) (figtree_of f) ?x ?y = Inr (it, nheap s)" "iter_ok (nheap s) it kts"
    "rems (it_states it) kts = flat t ?a (Suc (?b - 1))" unfolding u by (elim exE conjE)
  let ?ps = "rems (it_states it) kts"
  have "describes (flat t) (tlook t)" using t(1) flat_describes by (simp add: fig_ok_def)
  moreover have "Suc (?b - 1) = ?b" using n(1) by simp
  ultimately have ps: "pieces_ok ?ps ?a ?b" "\<And>x. ?a \<le> unat x \<Longrightarrow> unat x < ?b \<Longrightarrow> tlook t x = plook ?ps (unat x)"
    using it(3) by (simp_all add: describes_def)
  have w: "unat (of_nat x :: byte_index_t) = x" if "x < ?b" for x using that n(2) by (simp add: unat_of_nat)
  have "piece_bytes S s ?lg c (l, e, v) \<and> ?a \<le> l \<and> l < e \<and> e \<le> ?b" if q: "(l, e, v) \<in> set ?ps" for l e v
  proof -
    have r: "?a \<le> l" "l < e" "e \<le> ?b" using ps(1) q by (auto simp: pieces_ok_def)
    have "tlook t (of_nat x) = Some v" if "l \<le> x" "x < e" for x
      using plook_piece [OF ps(1) q that] ps(2) [of "of_nat x"] w [of x] that r by simp
    from piece_bytes_ok [OF S m t(2) this r(2)] show ?thesis using r sz(2) lc by simp
  qed
  moreover have "length ?ps < Suc (unat sz)" using pieces_length [OF ps(1)] by simp
  ultimately obtain b where b: "read_loop (Suc (unat sz)) S s p ?lg off it (replicate (unat sz) 0) = Inr (b, s)" "length b = unat sz"
    "\<forall>i < unat sz. b ! i = (if plook ?ps (?a + i) \<noteq> None then c ! (?a + i) else replicate (unat sz) 0 ! i)"
    using read_loop_data [OF it(2), of "Suc (unat sz)" S ?lg c ?a "replicate (unat sz) 0" off p] sz(2) lc by auto
  have "b ! i = c ! (?a + i)" if "i < unat sz" for i
  proof (cases "plook ?ps (?a + i)")
    case None
    then have "tlook t (of_nat (?a + i)) = None" using ps(2) [of "of_nat (?a + i)"] w [of "?a + i"] that by (simp del: of_nat_add)
    then have "c ! (?a + i) = 0" using indexed_none [OF t(2), of "of_nat (?a + i)"] w [of "?a + i"] that sz(2) by (simp del: of_nat_add)
    then show ?thesis using b(3) that None by simp
  qed (use b(3) that in simp)
  then have "b = take (unat sz) (drop ?a c)" using b(2) sz(2) by (intro nth_equalityI) simp_all
  then show ?thesis using it(1) b(1) by blast
qed

text \<open>The number of bytes a read may return.\<close>

lemma read_size:
  assumes "unat (sz :: u64) + unat off < 2 ^ 64" "n < 2 ^ 32"
  shows "sz + off > of_nat n \<and> off > of_nat n \<longleftrightarrow> n < unat off"
    "unat off \<le> n \<Longrightarrow> unat (if sz + off > of_nat n then of_nat n - off else sz) = min (unat sz) (n - unat off)"
proof -
  have n: "unat (of_nat n :: u64) = n" using assms(2) by (simp add: unat_of_nat)
  have p: "unat (sz + off) = unat sz + unat off" using assms(1) by (simp add: unat_word_ariths)
  have l: "sz + off > of_nat n \<longleftrightarrow> n < unat sz + unat off" "off > of_nat n \<longleftrightarrow> n < unat off" using n p by (simp_all add: word_less_nat_alt)
  show "sz + off > of_nat n \<and> off > of_nat n \<longleftrightarrow> n < unat off" using l by auto
  assume o: "unat off \<le> n"
  then have "unat (of_nat n - off) = n - unat off" using n by (metis unat_sub word_le_nat_alt)
  then show "unat (if sz + off > of_nat n then of_nat n - off else sz) = min (unat sz) (n - unat off)" using l o by auto
qed

lemma read_data:
  assumes S: "svc_ok S hist" and D: "file_data hist s fh c n" and r: "unat sz + unat off < 2 ^ 64"
  shows "gdpfs_file_read S s fh sz off = Inr (take (unat sz) (drop (unat off) (take n c)), s)"
proof -
  obtain p f where p: "lookup_fh s fh = Inr (Some p)" "data_at hist s p f c" "unat fh < length (files s)" "files s ! unat fh = Some p"
    "info_cache_valid f" "file_size (info_cache f) = of_nat n" "n \<le> length c" "fmem s p = Some f" "n < 2 ^ 32"
    using file_dataE [OF D, of S] by metis
  let ?sz = "if sz + off > of_nat n then of_nat n - off else sz"
  note gi = get_info_valid [OF p(8,5), of S] and gf = get_file_Some [OF p(8)] and rs = read_size [OF r p(9)]
  show ?thesis
  proof (cases "n < unat off")
    case True
    then have "sz + off > of_nat n \<and> off > of_nat n" using rs(1) by blast
    then show ?thesis using True p(1,6) gi gf by (simp add: gdpfs_file_read_def do_read_def EP_STAT_ISOK_def)
  next
    case False
    then have o: "unat off \<le> n" and F: "\<not> (sz + off > of_nat n \<and> off > of_nat n)" using rs(1) by auto
    have z: "unat ?sz = min (unat sz) (n - unat off)" by (rule rs(2) [OF o])
    define w where "w = ?sz"
    have wz: "unat w = min (unat sz) (n - unat off)" using z by (simp only: w_def)
    have w: "unat off + unat w \<le> n" "take (unat sz) (drop (unat off) (take n c)) = take (unat w) (drop (unat off) c)"
      using o wz by (linarith, simp add: drop_take min_def)
    have E: "gdpfs_file_read S s fh sz off =
      bindR (if use_cache s then gdpfs_file_get_cache s p (unat w) off else Inr None) (\<lambda>hit.
             case hit of
               Some bs \<Rightarrow> Inr (bs, s)
             | None \<Rightarrow>
                 if w > 0 then
                   bindR (ft_read (log_of S s (log_handle f)) (nheap s) (figtree_of f) (ucast off) (ucast (off + w - 1))) (\<lambda>(it, h).
                   bindR (read_loop (Suc (unat w)) S (s\<lparr>nheap := h\<rparr>) p (log_handle f) off it (replicate (unat w) 0)) (\<lambda>(buf, s).
                   if unat fh < length (files s)
                   then bindR (deref (files s ! unat fh)) (\<lambda>p.
                        bindR (gdpfs_file_fill_cache s p buf off True) (\<lambda>(_, s). Inr (buf, s)))
                   else Inl Out_Of_Bounds))
                 else Inr ([], s))"
      unfolding gdpfs_file_read_def do_read_def p(1) bindR_simps option.case gi prod.case gf p(6) Let_def if_not_P [OF F] w_def [symmetric]
      by (simp add: EP_STAT_ISOK_def)
    show ?thesis
    proof (cases "use_cache s")
      case True
      obtain k n' where k: "new_file f" "cache_fd f = Some n'" "cache_files s n' = Some k" "fdata k = c" using data_atD(6) [OF p(2) True] by auto
      have "sint off = int (unat off)" using unat_off [of off 0] o p(9) by simp
      then have "gdpfs_file_get_cache s p (unat w) off = Inr (Some (take (unat w) (drop (unat off) c)))"
        using True k gf w(1) p(7) by (simp add: gdpfs_file_get_cache_def get_cache_check_def cache_of_def pseek_def pread_def Let_def)
      then show ?thesis unfolding E w(2) using True by simp
    next
      case False
      show ?thesis
      proof (cases "w > 0")
        case True
        obtain it where "ft_read (log_of S s (log_handle f)) (nheap s) (figtree_of f) (ucast off) (ucast (off + w - 1)) = Inr (it, nheap s)"
          "read_loop (Suc (unat w)) S s p (log_handle f) off it (replicate (unat w) 0) = Inr (take (unat w) (drop (unat off) c), s)"
          using index_read [OF S p(2) True] w(1) p(7) by (meson le_trans)
        then show ?thesis unfolding E w(2) using False True p(3,4) by (simp add: deref_def gdpfs_file_fill_cache_def del: read_loop.simps)
      next
        case z: False
        then have "unat w = 0" by (simp add: word_gt_0)
        then show ?thesis unfolding E w(2) using False z by simp
      qed
    qed
  qed
qed

end
