(* ===== verification/File_Props.thy ===== *)
theory File_Props
  imports File_Data
begin

text \<open>
  Properties of the file layer: what a file holds after any sequence of operations on it, and what holds
  of handles, reference counts and the list of recently closed files in every reachable state.
\<close>

section \<open>A new file\<close>

lemma reserve_free:
  assumes "fs_inv s" "open_handles s \<noteq> {..<MAX_FHS}"
  shows "\<exists>fh b. bitmap_reserve (fhs s) = Inr (fh, Some b) \<and> fh \<noteq> -1 \<and> bitmap_wf b \<and> capacity b = MAX_FHS \<and> unat fh < MAX_FHS \<and>
    unat fh \<notin> open_handles s \<and> bits b = insert (unat fh) (open_handles s)"
proof -
  have i': "inv_with (open_handles s) (\<lambda>_. 0) s" using assms(1) by (simp add: fs_inv_def)
  obtain b where b: "fhs s = Some b" "bitmap_wf b" "capacity b = MAX_FHS" using inv_bits [OF i'] by metis
  have "bits b \<noteq> {..<capacity b}" using assms(2) b by (simp add: open_handles_def)
  from fhs.take_least [OF b(2) this] obtain i b' where t: "bitmap_take b = Inr (i, b')" "bitmap_wf b'" "bits b' = insert i (bits b)"
    "capacity b' = capacity b" "i < capacity b" "i \<notin> bits b" by auto
  then obtain fh where fh: "bitmap_reserve (Some b) = Inr (fh, Some b')" "i = unat fh"
    by (auto simp: bitmap_take_def bindR_eq_Inr split: option.splits)
  have "unat (-1 :: u64) = 2 ^ 64 - 1" by (simp add: unsigned_minus_1_eq_mask mask_eq_exp_minus_1)
  then have "fh \<noteq> -1" using t(5) fh(2) b(3) by (auto simp: MAX_FHS_def)
  then show ?thesis using fh t b by (auto simp: open_handles_def)
qed

text \<open>A record without data, appended to a file whose index may not exist yet.\<close>

definition empty_rec :: "gdpfs_file_info \<Rightarrow> log_rec" where
  "empty_rec info = \<lparr>rmeta = data_meta info 0 0, rbody = Data_Body []\<rparr>"

lemma empty_write:
  assumes S: "svc_ok S hist" and L: "lookup_fh s fh = Inr (Some p)" and f: "fmem s p = Some f" and m: "io_mode s = GDP_MODE_RA"
    and c: "use_cache s \<Longrightarrow> \<exists>n k. cache_fd f = Some n \<and> cache_files s n = Some k \<and> fdata k = []"
  shows "\<exists>w C e. do_write S s fh [] 0 info = Inr (0, (put_file s p (f\<lparr>ref_count := ref_count f + 1, outstanding_reqs := outstanding_reqs f + 1,
      last_recno := last_recno f + 1\<rparr>))\<lparr>cache_files := C, world := w, pending := pending s @ [Free_Fileref p e]\<rparr>) \<and>
    hist w = (hist (world s))(log_handle f := hist (world s) (log_handle f) @ [empty_rec info]) \<and>
    (use_cache s \<longrightarrow> (\<exists>n k. cache_fd f = Some n \<and> C n = Some k \<and> fdata k = [])) \<and>
    (\<forall>n. cache_fd f \<noteq> Some n \<longrightarrow> C n = cache_files s n)"
proof -
  let ?r = "\<lparr>rmeta = data_meta info 0 0, rbody = Data_Body []\<rparr>"
  define f1 where "f1 = f\<lparr>ref_count := ref_count f + 1, outstanding_reqs := outstanding_reqs f + 1\<rparr>"
  define s1 where "s1 = put_file s p f1"
  have s1: "fmem s1 p = Some f1" "use_cache s1 = use_cache s" "cache_files s1 = cache_files s" "fits s1 0 []" "io_mode s1 = GDP_MODE_RA"
    "world s1 = world s" "log_handle f1 = log_handle f" "cache_fd f1 = cache_fd f" using m by (simp_all add: s1_def put_file_def fits_def f1_def)
  have "\<exists>C. (if use_cache s1 then bindR (gdpfs_file_fill_cache s1 p [] 0 True) (\<lambda>(_, s). Inr s) else Inr s1) = Inr (s1\<lparr>cache_files := C\<rparr>) \<and>
     (use_cache s \<longrightarrow> (\<exists>n k. cache_fd f = Some n \<and> C n = Some k \<and> fdata k = [])) \<and> (\<forall>n. cache_fd f \<noteq> Some n \<longrightarrow> C n = cache_files s n)"
  proof (cases "use_cache s")
    case True
    obtain n k where k: "cache_fd f = Some n" "cache_files s n = Some k" "fdata k = []" using c [OF True] by (elim exE conjE)
    have "use_cache s1" "cache_fd f1 = Some n" "cache_files s1 n = Some k" using True k s1 by simp_all
    from fill_cache_data [OF this(1) s1(1) this(2,3) s1(4)] obtain e k' where
      e: "gdpfs_file_fill_cache s1 p [] 0 True = Inr (e, s1\<lparr>cache_files := (cache_files s1)(n \<mapsto> k')\<rparr>)"
      "fdata k' = overlay (fdata k) (unat (0 :: u64)) []" by (elim exE conjE)
    show ?thesis by (rule exI [of _ "(cache_files s1)(n \<mapsto> k')"]) (simp add: e k s1(2,3) True overlay_def)
  next
    case False
    then show ?thesis using s1(2,3) by (intro exI [of _ "cache_files s1"]) simp
  qed
  then obtain C where C: "(if use_cache s1 then bindR (gdpfs_file_fill_cache s1 p [] 0 True) (\<lambda>(_, s). Inr s) else Inr s1) = Inr (s1\<lparr>cache_files := C\<rparr>)"
    "use_cache s \<longrightarrow> (\<exists>n k. cache_fd f = Some n \<and> C n = Some k \<and> fdata k = [])" "\<forall>n. cache_fd f \<noteq> Some n \<longrightarrow> C n = cache_files s n" by blast
  define f2 where "f2 = f1\<lparr>last_recno := last_recno f1 + 1\<rparr>"
  define s2 where "s2 = put_file (s1\<lparr>cache_files := C\<rparr>) p f2"
  have s2: "io_mode s2 = GDP_MODE_RA" "world s2 = world s" "log_handle f2 = log_handle f"
    by (simp_all add: s2_def f2_def put_file_def s1)
  obtain e w where A: "rec_append S s2 (log_handle f2) ?r = (e, s2\<lparr>world := w\<rparr>)" "EP_STAT_ISOK e"
    "hist w = (hist (world s))(log_handle f := hist (world s) (log_handle f) @ [?r])"
    using rec_append_data [OF S s2(1), of "log_handle f2" ?r] s2 by auto
  have g: "get_file (put_file s p (f\<lparr>ref_count := ref_count f + 1\<rparr>)) p = Inr (f\<lparr>ref_count := ref_count f + 1\<rparr>)"
      "get_file (s1\<lparr>cache_files := C\<rparr>) p = Inr f1" "get_file s p = Inr f"
      "put_file (put_file s p (f\<lparr>ref_count := ref_count f + 1\<rparr>)) p ((f\<lparr>ref_count := ref_count f + 1\<rparr>)\<lparr>outstanding_reqs := outstanding_reqs (f\<lparr>ref_count := ref_count f + 1\<rparr>) + 1\<rparr>) = s1"
      using f s1 by (simp_all add: get_file_def put_file_def s1_def f1_def)
  have z: "(of_nat (length ([] :: u8 list)) :: u64) = 0" "\<not> (0 :: u64) > 0" by simp_all
  have "do_write S s fh [] 0 info = Inr (0, s2\<lparr>world := w, pending := pending s2 @ [Free_Fileref p e]\<rparr>)"
    unfolding do_write_def Let_def L bindR_simps option.case file_ref_def g prod.case C(1) f2_def [symmetric] s2_def [symmetric] z if_not_P [OF z(2)] A(1)
    using A(2) by simp
  moreover have "s2\<lparr>world := w, pending := pending s2 @ [Free_Fileref p e]\<rparr> = (put_file s p (f\<lparr>ref_count := ref_count f + 1,
      outstanding_reqs := outstanding_reqs f + 1, last_recno := last_recno f + 1\<rparr>))\<lparr>cache_files := C, world := w, pending := pending s @ [Free_Fileref p e]\<rparr>"
    by (simp add: s2_def s1_def f2_def f1_def put_file_def)
  ultimately show ?thesis using A(3) C(2,3) unfolding empty_rec_def by metis
qed

text \<open>A state in which a log can be made a new file.\<close>

definition can_create :: "'w log_service \<Rightarrow> ('w \<Rightarrow> gdp_name \<Rightarrow> log_rec list) \<Rightarrow> 'w fsys \<Rightarrow> gdp_name \<Rightarrow> bool" where
  "can_create S hist s n \<longleftrightarrow> open_handles s \<noteq> {..<MAX_FHS} \<and> file_hash s n = None \<and> EP_STAT_ISOK (svc_open S (world s) n) \<and>
     hist (world s) n = [] \<and> io_mode s = GDP_MODE_RA \<and> heap_ok (nheap s) \<and> (use_cache s \<longrightarrow> \<not> cdeny_f s n \<and> cache_files s n = None)"

lemma new_info:
  assumes "svc_ok S hist" "fmem s p = Some f" "\<not> info_cache_valid f" "io_mode s = GDP_MODE_RA" "hist (world s) (log_handle f) = []"
  shows "file_get_info_raw S s p = Inr (GDPFS_STAT_OK, put_file s p (f\<lparr>info_cache := no_info GDPFS_FILE_TYPE_NEW, info_cache_valid := True\<rparr>))"
proof -
  have "svc_read S (world s) (log_handle f) (-1) = Inl GDP_STAT_NOTFOUND" using assms(1,5) by (simp add: svc_ok_def)
  then have "rec_open S s (log_handle f) (-1) = Inl GDPFS_STAT_NOTFOUND" using assms(4) by (simp add: rec_open_def)
  then show ?thesis using assms(2,3)
    by (simp add: file_get_info_raw_def file_load_info_cache_def get_file_def put_file_def EP_STAT_ISOK_def)
qed

text \<open>The type check makes the first record.\<close>

lemma new_type:
  assumes S: "svc_ok S hist" and L: "lookup_fh s fh = Inr (Some p)" and f: "fmem s p = Some f" "\<not> info_cache_valid f" and m: "io_mode s = GDP_MODE_RA"
    and e: "hist (world s) (log_handle f) = []" and t: "ty \<noteq> GDPFS_FILE_TYPE_UNKNOWN"
    and c: "use_cache s \<Longrightarrow> \<exists>n k. cache_fd f = Some n \<and> cache_files s n = Some k \<and> fdata k = []"
  shows "\<exists>f' w C e. open_check_type S s fh p ty perm True si = Inr (GDPFS_STAT_OK, (put_file s p f')\<lparr>cache_files := C, world := w, pending := pending s @ [Free_Fileref p e]\<rparr>) \<and>
    log_handle f' = log_handle f \<and> new_file f' = new_file f \<and> cache_fd f' = cache_fd f \<and> info_cache_valid f' \<and> file_size (info_cache f') = 0 \<and>
    file_type (info_cache f') = ty \<and> file_perm (info_cache f') = perm \<and> outstanding_reqs f' = outstanding_reqs f + 1 \<and>
    hash_key f' = hash_key f \<and> figtree_initialized f' = figtree_initialized f \<and>
    hist w = (hist (world s))(log_handle f := [empty_rec \<lparr>file_size = 0, file_type = ty, file_perm = perm\<rparr>]) \<and>
    (use_cache s \<longrightarrow> (\<exists>n k. cache_fd f = Some n \<and> C n = Some k \<and> fdata k = [])) \<and> (\<forall>n. cache_fd f \<noteq> Some n \<longrightarrow> C n = cache_files s n)"
proof -
  let ?i = "\<lparr>file_size = 0, file_type = ty, file_perm = perm\<rparr>"
  define f1 where "f1 = f\<lparr>info_cache := no_info GDPFS_FILE_TYPE_NEW, info_cache_valid := True\<rparr>"
  define f2 where "f2 = f1\<lparr>info_cache := ?i\<rparr>"
  define s2 where "s2 = put_file s p f2"
  have i: "file_get_info_raw S s p = Inr (GDPFS_STAT_OK, put_file s p f1)" unfolding f1_def by (rule new_info [OF S f m e])
  have ch: "change_info (put_file s p f1) p (\<lambda>i. i\<lparr>file_size := 0, file_type := ty, file_perm := perm\<rparr>) = Inr (?i, s2)"
    by (simp add: change_info_def get_file_def put_file_def s2_def f2_def f1_def no_info_def Let_def)
  have s2: "lookup_fh s2 fh = Inr (Some p)" "fmem s2 p = Some f2" "io_mode s2 = GDP_MODE_RA" "use_cache s2 = use_cache s"
    "cache_files s2 = cache_files s" "world s2 = world s" using L m by (simp_all add: s2_def) (simp_all add: put_file_def)
  have f2: "log_handle f2 = log_handle f" "cache_fd f2 = cache_fd f" "new_file f2 = new_file f" "info_cache f2 = ?i" "info_cache_valid f2" "hash_key f2 = hash_key f"
    "outstanding_reqs f2 = outstanding_reqs f" "figtree_initialized f2 = figtree_initialized f" by (simp_all add: f2_def f1_def)
  have c2: "\<exists>n k. cache_fd f2 = Some n \<and> cache_files s2 n = Some k \<and> fdata k = []" if "use_cache s2" using c that s2 f2 by simp
  obtain w C e' where w: "do_write S s2 fh [] 0 ?i = Inr (0, (put_file s2 p (f2\<lparr>ref_count := ref_count f2 + 1, outstanding_reqs := outstanding_reqs f2 + 1,
      last_recno := last_recno f2 + 1\<rparr>))\<lparr>cache_files := C, world := w, pending := pending s2 @ [Free_Fileref p e']\<rparr>)"
    "hist w = (hist (world s2))(log_handle f2 := hist (world s2) (log_handle f2) @ [empty_rec ?i])"
    "use_cache s2 \<longrightarrow> (\<exists>n k. cache_fd f2 = Some n \<and> C n = Some k \<and> fdata k = [])" "\<forall>n. cache_fd f2 \<noteq> Some n \<longrightarrow> C n = cache_files s2 n"
    using empty_write [OF S s2(1,2,3) c2] by metis
  define f3 where "f3 = f2\<lparr>ref_count := ref_count f2 + 1, outstanding_reqs := outstanding_reqs f2 + 1, last_recno := last_recno f2 + 1\<rparr>"
  have ty: "file_type (info_cache f1) = GDPFS_FILE_TYPE_NEW" by (simp add: f1_def no_info_def)
  have pp: "put_file s2 p f3 = put_file s p f3" "pending s2 = pending s" by (simp_all add: s2_def put_file_def)
  have g: "get_file (put_file s p f1) p = Inr f1" by (simp add: get_file_def put_file_def)
  have "open_check_type S s fh p ty perm True si = Inr (GDPFS_STAT_OK, (put_file s p f3)\<lparr>cache_files := C, world := w, pending := pending s @ [Free_Fileref p e']\<rparr>)"
    unfolding open_check_type_def i bindR_simps prod.case g using t ty ch w(1) pp by (simp add: EP_STAT_ISOK_def f3_def)
  moreover have "hist w = (hist (world s))(log_handle f := [empty_rec ?i])" using w(2) e s2(6) f2(1) by auto
  ultimately show ?thesis using w(3,4) f2 s2(4,5) by (intro exI [of _ f3] exI [of _ w] exI [of _ C] exI [of _ e']) (simp add: f3_def)
qed

lemma indexed_empty: "\<forall>x. tlook t x = None \<Longrightarrow> indexed L t []"
  by (simp add: indexed_def)

text \<open>The new file \<open>p\<close> on the log \<open>n\<close> has a handle and a place of its own; nothing else changes.\<close>

definition placed :: "('w \<Rightarrow> gdp_name \<Rightarrow> log_rec list) \<Rightarrow> 'w fsys \<Rightarrow> u64 \<Rightarrow> gdp_name \<Rightarrow> nat \<Rightarrow> 'w fsys \<Rightarrow> bool" where
  "placed hist s fh n p t \<longleftrightarrow> tabs t \<and> unat fh \<notin> open_handles s \<and> open_handles t = insert (unat fh) (open_handles s) \<and>
     files t = (files s)[unat fh := Some p] \<and> fmem s p = None \<and> (\<forall>q. q \<noteq> p \<longrightarrow> fmem t q = fmem s q) \<and>
     use_cache t = use_cache s \<and> cquota_f t = cquota_f s \<and> cdeny_f t = cdeny_f s \<and> io_mode t = io_mode s \<and>
     file_hash t = (file_hash s)(n \<mapsto> p) \<and>
     (\<forall>m. m \<noteq> n \<longrightarrow> hist (world t) m = hist (world s) m \<and> cache_files t m = cache_files s m) \<and>
     (\<exists>f u. data_tree hist t p f [] u \<and> info_cache_valid f \<and> file_size (info_cache f) = 0 \<and>
        log_handle f = n \<and> hash_key f = n \<and> (\<forall>m. cache_fd f = Some m \<longrightarrow> m = n) \<and>
        (\<forall>tr v. fig_ok (nheap s) tr v \<longrightarrow> fig_ok (nheap t) tr v \<and> set (addrs v) \<inter> set (addrs u) = {}))"

text \<open>Its type and permissions; one write waits for its callback.\<close>

definition born :: "gdpfs_file_type \<Rightarrow> 16 word \<Rightarrow> 'w fsys \<Rightarrow> nat \<Rightarrow> bool" where
  "born ty perm t p \<longleftrightarrow> (\<exists>f. fmem t p = Some f \<and> figtree_initialized f \<and> info_cache_valid f \<and> file_type (info_cache f) = ty \<and>
     file_perm (info_cache f) = perm \<and> outstanding_reqs f = 1)"

text \<open>The index of a file that has only its first record is made, with nodes of its own.\<close>

definition fresh_index :: "'w log_service \<Rightarrow> ('w \<Rightarrow> gdp_name \<Rightarrow> log_rec list) \<Rightarrow> bool \<Rightarrow> 'w fsys \<Rightarrow> nat \<Rightarrow> gdpfs_file \<Rightarrow> bool" where
  "fresh_index S hist si s p f \<longleftrightarrow> (\<exists>f' h' u. open_index S s p si = Inr (put_file (s\<lparr>nheap := h'\<rparr>) p f') \<and>
    data_tree hist (put_file (s\<lparr>nheap := h'\<rparr>) p f') p f' [] u \<and>
    info_cache f' = info_cache f \<and> info_cache_valid f' = info_cache_valid f \<and> same_place f f' \<and>
    (\<forall>tr v. fig_ok (nheap s) tr v \<longrightarrow> fig_ok h' tr v \<and> set (addrs v) \<inter> set (addrs u) = {}) \<and>
    figtree_initialized f' \<and> outstanding_reqs f' = outstanding_reqs f)"

lemma new_index:
  assumes h: "heap_ok (nheap s)" and f: "fmem s p = Some f" "new_file f" and m: "io_mode s = GDP_MODE_RA"
    and r: "length (hist (world s) (log_handle f)) = 1"
    and c: "use_cache s \<longrightarrow> (\<exists>n k. cache_fd f = Some n \<and> cache_files s n = Some k \<and> fdata k = [])"
  shows "fresh_index S hist True s p f"
proof -
  obtain tr h' u where t: "ft_init (nheap s) = Inr (tr, h')" "fig_ok h' tr u" "\<forall>x. tlook u x = None"
    "\<forall>tr v. fig_ok (nheap s) tr v \<longrightarrow> fig_ok h' tr v \<and> set (addrs v) \<inter> set (addrs u) = {}" using ft_init_spares [OF h] by blast
  define f' where "f' = f\<lparr>figtree_of := tr, last_recno := 1, figtree_initialized := True\<rparr>"
  define s' where "s' = put_file (s\<lparr>nheap := h'\<rparr>) p f'"
  have "open_index S s p True = Inr s'" using t(1) f(1) by (simp add: open_index_def get_file_def s'_def f'_def)
  moreover have "data_tree hist s' p f' [] u"
    unfolding data_tree_def using t(2) indexed_empty [OF t(3)] m r f(2) c by (auto simp: s'_def f'_def put_file_def)
  moreover have "info_cache f' = info_cache f" "info_cache_valid f' = info_cache_valid f" "same_place f f'"
    "figtree_initialized f'" "outstanding_reqs f' = outstanding_reqs f" by (simp_all add: f'_def same_place_def)
  ultimately show ?thesis unfolding s'_def fresh_index_def using t(4) by (intro exI [of _ f'] exI [of _ h'] exI [of _ u] conjI)
qed

lemma placed_data:
  assumes "placed hist s fh n p t" "length (files s) = MAX_FHS" "unat fh < MAX_FHS"
  shows "file_data hist t fh [] 0"
proof -
  obtain f u where f: "data_tree hist t p f [] u" "info_cache_valid f" "file_size (info_cache f) = 0" and P: "tabs t"
    "open_handles t = insert (unat fh) (open_handles s)" "files t = (files s)[unat fh := Some p]"
    using assms(1) by (auto simp: placed_def)
  obtain b where b: "fhs t = Some b" "bitmap_wf b" "capacity b = MAX_FHS" using P(1) by (auto simp: tabs_def)
  have "lookup_fh t fh = Inr (Some p)" using b bitmap_is_set_in [OF b(2), of fh] assms(2,3) P(3) by (simp add: lookup_fh_def)
  moreover have "data_at hist t p f []" using f(1) by (auto simp: data_at_tree)
  ultimately show ?thesis using f(2,3) P(3) assms(2,3) unfolding file_data_def by (intro exI [of _ p] exI [of _ f]) simp
qed

lemma open_new:
  assumes S: "svc_ok S hist" and i: "fs_inv s" and n: "can_create S hist s n" and t: "ty \<noteq> GDPFS_FILE_TYPE_UNKNOWN"
    and I: "\<And>s' f'. heap_ok (nheap s') \<Longrightarrow> fmem s' (fnext s) = Some f' \<Longrightarrow> new_file f' = si \<Longrightarrow> io_mode s' = GDP_MODE_RA \<Longrightarrow> \<not> figtree_initialized f' \<Longrightarrow>
      hist (world s') (log_handle f') = [empty_rec \<lparr>file_size = 0, file_type = ty, file_perm = perm\<rparr>] \<Longrightarrow> use_cache s' = use_cache s \<Longrightarrow>
      use_cache s' \<longrightarrow> (\<exists>n k. cache_fd f' = Some n \<and> cache_files s' n = Some k \<and> fdata k = []) \<Longrightarrow> fresh_index S hist si s' (fnext s) f'"
  shows "\<exists>fh t. gdpfs_file_open_init S s n ty perm si = Inr (GDPFS_STAT_OK, fh, t) \<and> file_data hist t fh [] 0 \<and>
    use_cache t = use_cache s \<and> cquota_f t = cquota_f s \<and> unat fh \<in> open_handles t \<and> recently_closed_size t = recently_closed_size s \<and>
    (\<exists>p e. pending t = pending s @ [Free_Fileref p e]) \<and> (\<exists>p. placed hist s fh n p t \<and> born ty perm t p) \<and> ring t = ring s"
proof -
  have N: "open_handles s \<noteq> {..<MAX_FHS}" "file_hash s n = None" "EP_STAT_ISOK (svc_open S (world s) n)" "hist (world s) n = []"
    "io_mode s = GDP_MODE_RA" "heap_ok (nheap s)" "use_cache s \<longrightarrow> \<not> cdeny_f s n \<and> cache_files s n = None"
    using n by (simp_all add: can_create_def)
  obtain fh b where b: "bitmap_reserve (fhs s) = Inr (fh, Some b)" "fh \<noteq> -1" "bitmap_wf b" "capacity b = MAX_FHS" "unat fh < MAX_FHS"
    "unat fh \<notin> open_handles s" "bits b = insert (unat fh) (open_handles s)" using reserve_free [OF i N(1)] by blast
  have fl: "length (files s) = MAX_FHS" using i by (simp add: fs_inv_def inv_with_def tables_ok_def)
  define p where "p = fnext s"
  have p0: "fmem s p = None" using i unfolding fs_inv_def inv_with_def file_ok_def p_def by (cases "fmem s (fnext s)") auto
  define f0 where "f0 = zero_file\<lparr>log_handle := n, hash_key := n, cache_fd := (if use_cache s then Some n else None)\<rparr>"
  define s0 where "s0 = s\<lparr>fhs := Some b, fnext := Suc p, fmem := (fmem s)(p \<mapsto> f0), rc_links := (rc_links s)(p \<mapsto> \<lparr>lprev = None, lnext = None\<rparr>),
     cache_files := (if use_cache s \<and> cache_files s n = None then (cache_files s)(n \<mapsto> empty_file) else cache_files s),
     file_hash := (file_hash s)(n \<mapsto> p)\<rparr>"
  have os: "open_struct S (s\<lparr>fhs := Some b\<rparr>) n = Inr (Inr (p, s0))"
    using N(2,3,7) by (simp add: open_struct_def Let_def s0_def f0_def p_def)
  define f1 where "f1 = f0\<lparr>ref_count := ref_count f0 + 1\<rparr>"
  define s1 where "s1 = (put_file s0 p f1)\<lparr>files := (files s0)[unat fh := Some p]\<rparr>"
  define f2 where "f2 = f1\<lparr>new_file := si\<rparr>"
  define s2 where "s2 = put_file s1 p f2"
  have s2: "fhs s2 = Some b" "files s2 = (files s)[unat fh := Some p]" "fmem s2 p = Some f2" "io_mode s2 = GDP_MODE_RA" "world s2 = world s"
    "nheap s2 = nheap s" "use_cache s2 = use_cache s" "use_cache s \<Longrightarrow> cache_files s2 n = Some empty_file"
    using N(5,7) by (simp_all add: s2_def s1_def s0_def put_file_def)
  have f2: "\<not> info_cache_valid f2" "log_handle f2 = n" "new_file f2 = si" "use_cache s \<Longrightarrow> cache_fd f2 = Some n"
    "cache_fd f2 = (if use_cache s then Some n else None)" "hash_key f2 = n" "\<not> figtree_initialized f2" by (simp_all add: f2_def f1_def f0_def zero_file_def)
  have L: "lookup_fh s2 fh = Inr (Some p)" using s2(1,2) bitmap_is_set_in [OF b(3)] b(4,5) fl by (simp add: lookup_fh_def)
  have c2: "\<exists>n k. cache_fd f2 = Some n \<and> cache_files s2 n = Some k \<and> fdata k = []" if "use_cache s2"
    using that s2(7,8) f2(4) by (simp add: empty_file_def)
  have e2: "hist (world s2) (log_handle f2) = []" using N(4) s2(5) f2(2) by simp
  from new_type [OF S L s2(3) f2(1) s2(4) e2 t c2, of perm si] obtain f3 w C e3 where ct: "open_check_type S s2 fh p ty perm True si = Inr (GDPFS_STAT_OK, (put_file s2 p f3)\<lparr>cache_files := C, world := w, pending := pending s2 @ [Free_Fileref p e3]\<rparr>)"
    "log_handle f3 = log_handle f2" "new_file f3 = new_file f2" "cache_fd f3 = cache_fd f2" "info_cache_valid f3" "file_size (info_cache f3) = 0"
    "file_type (info_cache f3) = ty" "file_perm (info_cache f3) = perm" "outstanding_reqs f3 = outstanding_reqs f2 + 1" "hash_key f3 = hash_key f2" "figtree_initialized f3 = figtree_initialized f2" "hist w = (hist (world s2))(log_handle f2 := [empty_rec \<lparr>file_size = 0, file_type = ty, file_perm = perm\<rparr>])"
    "use_cache s2 \<longrightarrow> (\<exists>n k. cache_fd f2 = Some n \<and> C n = Some k \<and> fdata k = [])" "\<forall>m. cache_fd f2 \<noteq> Some m \<longrightarrow> C m = cache_files s2 m"
    by (elim meta_impE exE conjE)
  define s3 where "s3 = (put_file s2 p f3)\<lparr>cache_files := C, world := w, pending := pending s2 @ [Free_Fileref p e3]\<rparr>"
  have s3: "heap_ok (nheap s3)" "fmem s3 (fnext s) = Some f3" "new_file f3 = si" "io_mode s3 = GDP_MODE_RA" "\<not> figtree_initialized f3"
    "hist (world s3) (log_handle f3) = [empty_rec \<lparr>file_size = 0, file_type = ty, file_perm = perm\<rparr>]" "use_cache s3 = use_cache s"
    "use_cache s3 \<longrightarrow> (\<exists>n k. cache_fd f3 = Some n \<and> cache_files s3 n = Some k \<and> fdata k = [])"
    using N(6) s2 f2(3,7) ct(2-4,11-13) by (auto simp: s3_def put_file_def p_def)
  from I [OF s3, folded p_def, unfolded fresh_index_def] obtain f4 h' u where
    ix: "open_index S s3 p si = Inr (put_file (s3\<lparr>nheap := h'\<rparr>) p f4)" "data_tree hist (put_file (s3\<lparr>nheap := h'\<rparr>) p f4) p f4 [] u"
    "info_cache f4 = info_cache f3" "info_cache_valid f4 = info_cache_valid f3" "same_place f3 f4"
    "\<forall>tr v. fig_ok (nheap s3) tr v \<longrightarrow> fig_ok h' tr v \<and> set (addrs v) \<inter> set (addrs u) = {}" "figtree_initialized f4" "outstanding_reqs f4 = outstanding_reqs f3" by (elim exE conjE)
  define s' where "s' = put_file (s3\<lparr>nheap := h'\<rparr>) p f4"
  have g: "get_file s0 p = Inr f0" "get_file s1 p = Inr f1" "unat fh < length (files s0)" "files (put_file s0 p f1) = files s0"
    using b(5) fl by (simp_all add: get_file_def s1_def s0_def put_file_def)
  have s12: "(if si then put_file s1 p (f1\<lparr>new_file := True\<rparr>) else s1) = s2"
    by (simp add: s2_def s1_def f2_def f1_def f0_def zero_file_def put_file_def)
  have "gdpfs_file_open_init S s n ty perm si = Inr (GDPFS_STAT_OK, fh, s')"
    unfolding gdpfs_file_open_init_def open_file_def b(1) bindR_simps prod.case os sum.case file_ref_def g f1_def [symmetric] Let_def
      s1_def [symmetric] s12 ct(1) s3_def [symmetric] ix(1) s'_def [symmetric]
    using b(2) g(3) by (simp add: EP_STAT_ISOK_def)
  moreover have s': "use_cache s' = use_cache s" "cquota_f s' = cquota_f s" "fhs s' = Some b" "recently_closed_size s' = recently_closed_size s"
    "pending s' = pending s @ [Free_Fileref p e3]" "files s' = (files s)[unat fh := Some p]" "io_mode s' = io_mode s" "ring s' = ring s"
    "nheap s3 = nheap s" "nheap s' = h'" "world s' = w" "cache_files s' = C" "\<And>q. q \<noteq> p \<Longrightarrow> fmem s' q = fmem s q"
    "\<And>m. m \<noteq> n \<Longrightarrow> cache_files s2 m = cache_files s m"
    by (simp_all add: s'_def s3_def s2_def s1_def s0_def put_file_def)
  moreover have P: "placed hist s fh n p s'" unfolding placed_def
  proof (intro conjI allI impI)
    show "\<exists>f u. data_tree hist s' p f [] u \<and> info_cache_valid f \<and> file_size (info_cache f) = 0 \<and> log_handle f = n \<and> hash_key f = n \<and>
        (\<forall>m. cache_fd f = Some m \<longrightarrow> m = n) \<and> (\<forall>tr v. fig_ok (nheap s) tr v \<longrightarrow> fig_ok (nheap s') tr v \<and> set (addrs v) \<inter> set (addrs u) = {})"
      using ix ct(2,4-6,10) f2(2,5,6) s'(9,10) unfolding s'_def [symmetric] same_place_def by (intro exI [of _ f4] exI [of _ u]) simp
    show "hist (world s') m = hist (world s) m" if "m \<noteq> n" for m using ct(12) that f2(2) s2(5) s'(11) by auto
    show "cache_files s' m = cache_files s m" if "m \<noteq> n" for m using ct(14) that f2(5) s'(12,14) by (cases "use_cache s") auto
    show "cdeny_f s' = cdeny_f s" "file_hash s' = (file_hash s)(n \<mapsto> p)" by (simp_all add: s'_def s3_def s2_def s1_def s0_def put_file_def)
  qed (use s' p0 b fl in \<open>simp_all add: tabs_def open_handles_def\<close>)
  moreover have "born ty perm s' p" unfolding born_def
  proof (intro exI conjI)
    show "fmem s' p = Some f4" by (simp add: s'_def)
    show "outstanding_reqs f4 = 1" using ix(8) ct(9) by (simp add: f2_def f1_def f0_def zero_file_def)
  qed (use ix(3,4,7) ct(5,7,8) in simp_all)
  moreover have "file_data hist s' fh [] 0" by (rule placed_data [OF P fl b(5)])
  ultimately show ?thesis using b(7) by (intro exI [of _ fh] exI [of _ s']) (auto simp: open_handles_def)
qed

lemma create_data:
  assumes S: "svc_ok S hist" and i: "fs_inv s" and n: "can_create S hist s n" and t: "ty \<noteq> GDPFS_FILE_TYPE_UNKNOWN"
  shows "\<exists>fh t. gdpfs_file_open_init S s n ty perm True = Inr (GDPFS_STAT_OK, fh, t) \<and> file_data hist t fh [] 0 \<and>
    use_cache t = use_cache s \<and> cquota_f t = cquota_f s \<and> unat fh \<in> open_handles t \<and> recently_closed_size t = recently_closed_size s \<and>
    (\<exists>p e. pending t = pending s @ [Free_Fileref p e]) \<and> (\<exists>p. placed hist s fh n p t \<and> born ty perm t p) \<and> ring t = ring s"
proof (rule open_new [OF S i n t])
  fix s' :: "'a fsys" and f'
  assume a: "heap_ok (nheap s')" "fmem s' (fnext s) = Some f'" "new_file f' = True" "io_mode s' = GDP_MODE_RA"
    "hist (world s') (log_handle f') = [empty_rec \<lparr>file_size = 0, file_type = ty, file_perm = perm\<rparr>]"
    "use_cache s' \<longrightarrow> (\<exists>n k. cache_fd f' = Some n \<and> cache_files s' n = Some k \<and> fdata k = [])"
  show "fresh_index S hist True s' (fnext s) f'" by (rule new_index [OF a(1,2) _ a(4) _ a(6)]) (use a(3,5) in simp_all)
qed

section \<open>An example\<close>

text \<open>A log daemon whose logs are lists of records, and the layer after its start.\<close>

definition list_svc :: "(gdp_name \<Rightarrow> log_rec list) log_service" where
  "list_svc = \<lparr>svc_open = (\<lambda>w n. EP_STAT_OK), svc_append = (\<lambda>w n r. (EP_STAT_OK, w(n := w n @ [r]))),
     svc_read = (\<lambda>w n r. let r = (if r = -1 then int (length (w n)) else r) in
       if 1 \<le> r \<and> r \<le> int (length (w n)) then Inr (r, w n ! nat (r - 1)) else Inl GDP_STAT_NOTFOUND)\<rparr>"

definition boot :: "bool \<Rightarrow> (gdp_name \<Rightarrow> log_rec list) fsys" where
  "boot cache = snd (init_gdpfs_file EP_STAT_OK 1 cache 4096 1000000 (\<lambda>_. False) True (\<lambda>_. []))"

lemma list_svc_ok: "svc_ok list_svc (\<lambda>w. w)"
  by (auto simp: svc_ok_def list_svc_def EP_STAT_ISOK_def)

lemma boot_init: "init_gdpfs_file EP_STAT_OK 1 cache 4096 1000000 (\<lambda>_. False) True (\<lambda>_. []) = (GDPFS_STAT_OK, boot cache)"
  by (simp add: boot_def init_gdpfs_file_def init_gdpfs_log_def EP_STAT_ISOK_def)

lemma boot_reach: "freach S (boot cache)"
  by (rule freach.Init [OF boot_init]) (simp add: EP_STAT_ISOK_def)

lemma boot_room: "room (boot cache)"
  by (simp add: room_def boot_def init_gdpfs_file_def init_gdpfs_log_def EP_STAT_ISOK_def)

lemma boot_open: "open_handles (boot cache) = {}"
proof -
  obtain b where "bitmap_create True True (of_nat MAX_FHS) = Some b" "bits b = {}"
    using bitmap_create_wf [of "of_nat MAX_FHS"] by (auto simp: MAX_FHS_def)
  then show ?thesis by (simp add: open_handles_def boot_def init_gdpfs_file_def init_gdpfs_log_def EP_STAT_ISOK_def)
qed

lemma boot_create: "can_create list_svc (\<lambda>w. w) (boot cache) n"
proof -
  have "0 \<in> {..<MAX_FHS}" by (simp add: MAX_FHS_def)
  then have "open_handles (boot cache) \<noteq> {..<MAX_FHS}" unfolding boot_open by blast
  then show ?thesis unfolding can_create_def
    by (simp add: boot_def init_gdpfs_file_def init_gdpfs_log_def EP_STAT_ISOK_def list_svc_def heap_ok_def)
qed

text \<open>The first file.\<close>

lemma first_file:
  obtains fh t where "gdpfs_file_open_init list_svc (boot cache) [7] GDPFS_FILE_TYPE_REGULAR 420 True = Inr (GDPFS_STAT_OK, fh, t)"
    "file_data (\<lambda>w. w) t fh [] 0" "freach list_svc t" "use_cache t = cache" "cquota_f t = 1000000"
    "unat fh \<in> open_handles t" "recently_closed_size t = 0" "\<exists>p e. pending t = [Free_Fileref p e]"
proof -
  obtain fh t where t: "gdpfs_file_open_init list_svc (boot cache) [7] GDPFS_FILE_TYPE_REGULAR 420 True = Inr (GDPFS_STAT_OK, fh, t)"
    "file_data (\<lambda>w. w) t fh [] 0" "use_cache t = use_cache (boot cache)" "cquota_f t = cquota_f (boot cache)"
    "unat fh \<in> open_handles t" "recently_closed_size t = recently_closed_size (boot cache)" "\<exists>p e. pending t = pending (boot cache) @ [Free_Fileref p e]"
    using create_data [OF list_svc_ok fs_inv_reach [OF boot_reach] boot_create] by blast
  have c: "use_cache (boot cache) = cache" "cquota_f (boot cache) = 1000000" "recently_closed_size (boot cache) = 0" "pending (boot cache) = []"
    by (simp_all add: boot_def init_gdpfs_file_def init_gdpfs_log_def EP_STAT_ISOK_def)
  have "fstep list_svc (boot cache) t" using t(1) boot_room by (auto simp: gdpfs_file_open_init_def intro: fstep.Open)
  then have "freach list_svc t" by (rule freach.Step [OF boot_reach])
  then show thesis using that t c by simp
qed

section \<open>The contract of a file\<close>

text \<open>
  A file is a sequence of bytes and a size. A write lays its bytes over the data and the size covers them;
  a truncation sets the size to zero, whatever size is asked for, and leaves the data.
\<close>

datatype file_op = Op_Write u64 "u8 list" | Op_Truncate u64

fun spec_op :: "file_op \<Rightarrow> u8 list \<times> nat \<Rightarrow> u8 list \<times> nat" where
  "spec_op (Op_Write off buf) (c, n) = (overlay c (unat off) buf, max n (unat off + length buf))"
| "spec_op (Op_Truncate len) (c, n) = (c, 0)"

definition spec_read :: "u8 list \<times> nat \<Rightarrow> nat \<Rightarrow> nat \<Rightarrow> u8 list" where
  "spec_read cn off sz = take sz (drop off (take (snd cn) (fst cn)))"

fun run_op :: "'w log_service \<Rightarrow> u64 \<Rightarrow> 'w fsys \<Rightarrow> file_op \<Rightarrow> 'w fsys res" where
  "run_op S fh s (Op_Write off buf) = bindR (gdpfs_file_write S s fh buf off) (\<lambda>(_, s). Inr s)"
| "run_op S fh s (Op_Truncate len) = bindR (gdpfs_file_ftruncate S s fh len) (\<lambda>(_, s). Inr s)"

fun op_fits :: "'w fsys \<Rightarrow> file_op \<Rightarrow> bool" where
  "op_fits s (Op_Write off buf) = (buf \<noteq> [] \<and> fits s off buf)"
| "op_fits s (Op_Truncate len) = True"

locale byte_file =
  fixes holds :: "'s \<Rightarrow> u8 list \<times> nat \<Rightarrow> bool"
    and may :: "'s \<Rightarrow> file_op \<Rightarrow> bool"
    and step :: "'s \<Rightarrow> file_op \<Rightarrow> 's res"
    and fetch :: "'s \<Rightarrow> u64 \<Rightarrow> u64 \<Rightarrow> (u8 list \<times> 's) res"
  assumes step_law: "holds s cn \<Longrightarrow> may s x \<Longrightarrow> \<exists>s'. step s x = Inr s' \<and> holds s' (spec_op x cn) \<and> may s' = may s"
    and fetch_law: "holds s cn \<Longrightarrow> unat sz + unat off < 2 ^ 64 \<Longrightarrow> fetch s sz off = Inr (spec_read cn (unat off) (unat sz), s)"
begin

lemma steps:
  assumes "holds s cn" "\<forall>x \<in> set xs. may s x"
  shows "\<exists>s'. foldR step xs s = Inr s' \<and> holds s' (fold spec_op xs cn)"
  using assms
proof (induction xs arbitrary: s cn)
  case (Cons x xs)
  obtain s' where s': "step s x = Inr s'" "holds s' (spec_op x cn)" "may s' = may s"
    using step_law [OF Cons.prems(1), of x] Cons.prems(2) by auto
  then show ?case using Cons.IH [OF s'(2)] Cons.prems(2) by simp
qed simp

lemma read_after:
  assumes "holds s cn" "\<forall>x \<in> set xs. may s x" "unat sz + unat off < 2 ^ 64"
  shows "\<exists>s'. foldR step xs s = Inr s' \<and> fetch s' sz off = Inr (spec_read (fold spec_op xs cn) (unat off) (unat sz), s')"
  using steps [OF assms(1,2)] fetch_law [OF _ assms(3)] by blast

end

definition file_holds :: "'w log_service \<Rightarrow> ('w \<Rightarrow> gdp_name \<Rightarrow> log_rec list) \<Rightarrow> u64 \<Rightarrow> 'w fsys \<Rightarrow> u8 list \<times> nat \<Rightarrow> bool" where
  "file_holds S hist fh s cn \<longleftrightarrow> svc_ok S hist \<and> file_data hist s fh (fst cn) (snd cn)"

lemma op_fits_cong:
  assumes "use_cache t = use_cache s" "cquota_f t = cquota_f s"
  shows "op_fits t = op_fits s"
proof
  show "op_fits t x = op_fits s x" for x using assms by (cases x) (simp_all add: fits_def)
qed

interpretation fdat: byte_file "file_holds S hist fh" op_fits "run_op S fh" "\<lambda>s sz off. gdpfs_file_read S s fh sz off"
  for S hist fh
proof unfold_locales
  fix s cn x
  assume h: "file_holds S hist fh s cn" and f: "op_fits s x"
  obtain c n where cn: "cn = (c, n)" by (cases cn)
  have S: "svc_ok S hist" and D: "file_data hist s fh c n" using h cn by (simp_all add: file_holds_def)
  show "\<exists>s'. run_op S fh s x = Inr s' \<and> file_holds S hist fh s' (spec_op x cn) \<and> op_fits s' = op_fits s"
  proof (cases x)
    case (Op_Write off buf)
    then have "buf \<noteq> []" "fits s off buf" using f by simp_all
    from write_data [OF S D this(2,1)] obtain s' where "gdpfs_file_write S s fh buf off = Inr (of_nat (length buf), s')"
      "file_data hist s' fh (overlay c (unat off) buf) (max n (unat off + length buf))" "op_fits s' = op_fits s" using op_fits_cong by blast
    then show ?thesis using S Op_Write cn by (simp add: file_holds_def)
  next
    case (Op_Truncate len)
    from truncate_data [OF S D, of len] obtain s' where "gdpfs_file_ftruncate S s fh len = Inr (0, s')" "file_data hist s' fh c 0"
      "op_fits s' = op_fits s" using op_fits_cong by blast
    then show ?thesis using S Op_Truncate cn by (simp add: file_holds_def)
  qed
next
  fix s cn and sz off :: u64
  assume "file_holds S hist fh s cn" "unat sz + unat off < 2 ^ 64"
  then show "gdpfs_file_read S s fh sz off = Inr (spec_read cn (unat off) (unat sz), s)"
    by (auto simp: file_holds_def spec_read_def intro: read_data)
qed

section \<open>Properties: contents\<close>



text \<open>
  A file created on a fresh log is empty: its creation succeeds, and every read of it returns
  nothing. All that is needed is a free handle, an empty log that can be opened and written, and a cache
  directory that takes a new file.
\<close>

theorem new_file_is_empty:
  assumes "svc_ok S hist" "freach S s" "can_create S hist s n" "ty \<noteq> GDPFS_FILE_TYPE_UNKNOWN" "unat sz + unat off < 2 ^ 64"
  shows "\<exists>fh t. gdpfs_file_open_init S s n ty perm True = Inr (GDPFS_STAT_OK, fh, t) \<and> file_data hist t fh [] 0 \<and>
    gdpfs_file_read S t fh sz off = Inr ([], t)"
proof -
  obtain fh t where t: "gdpfs_file_open_init S s n ty perm True = Inr (GDPFS_STAT_OK, fh, t)" "file_data hist t fh [] 0"
    using create_data [OF assms(1) fs_inv_reach [OF assms(2)] assms(3,4)] by blast
  then show ?thesis using read_data [OF assms(1) t(2) assms(5)] by auto
qed

theorem new_file_is_empty_witness:
  "\<exists>fh t. gdpfs_file_open_init list_svc (boot True) [7] GDPFS_FILE_TYPE_DIR 420 True = Inr (GDPFS_STAT_OK, fh, t) \<and>
    gdpfs_file_read list_svc t fh 100 3 = Inr ([], t)"
  using new_file_is_empty [OF list_svc_ok boot_reach boot_create, of GDPFS_FILE_TYPE_DIR 100 3 True "[7]" 420] by auto

text \<open>
  C30: truncation does not discard data. After a file is truncated, a write of one byte at an offset inside
  of the old data makes all the old bytes before it readable again, where a program expects zeros;
  the size the caller asked for plays no role.
\<close>

theorem truncated_data_reappears:
  assumes "svc_ok S hist" "file_data hist s fh c n" "fits s off [b]" "unat off \<le> length c"
  shows "\<exists>t u. gdpfs_file_ftruncate S s fh len = Inr (0, t) \<and> gdpfs_file_write S t fh [b] off = Inr (1, u) \<and>
    gdpfs_file_read S u fh off 0 = Inr (take (unat off) c, u)"
proof -
  obtain t where t: "gdpfs_file_ftruncate S s fh len = Inr (0, t)" "file_data hist t fh c 0" "use_cache t = use_cache s" "cquota_f t = cquota_f s"
    using truncate_data [OF assms(1,2), of len] by blast
  have "fits t off [b]" using assms(3) t(3,4) by (simp add: fits_def)
  then obtain u where u: "gdpfs_file_write S t fh [b] off = Inr (of_nat (length [b]), u)"
    "file_data hist u fh (overlay c (unat off) [b]) (max 0 (unat off + length [b]))"
    using write_data [OF assms(1) t(2)] by blast
  have "unat off + unat (0 :: u64) < 2 ^ 64" using assms(3) by (simp add: fits_def)
  from read_data [OF assms(1) u(2) this] have "gdpfs_file_read S u fh off 0 = Inr (take (unat off) c, u)"
    using assms(4) by (simp add: overlay_def)
  then show ?thesis using t(1) u(1) by auto
qed

theorem truncated_data_reappears_witness:
  "\<exists>fh s t u v. gdpfs_file_open_init list_svc (boot True) [7] GDPFS_FILE_TYPE_REGULAR 420 True = Inr (GDPFS_STAT_OK, fh, s) \<and>
     run_op list_svc fh s (Op_Write 0 [1, 2, 3]) = Inr t \<and> gdpfs_file_ftruncate list_svc t fh 0 = Inr (0, u) \<and>
     gdpfs_file_write list_svc u fh [9] 2 = Inr (1, v) \<and> gdpfs_file_read list_svc v fh 2 0 = Inr ([1, 2], v)"
proof -
  obtain fh s where s: "gdpfs_file_open_init list_svc (boot True) [7] GDPFS_FILE_TYPE_REGULAR 420 True = Inr (GDPFS_STAT_OK, fh, s)"
    "file_data (\<lambda>w. w) s fh [] 0" "cquota_f s = 1000000" using first_file [of True] by metis
  have "fits s 0 [1, 2, 3]" using s(3) by (simp add: fits_def)
  then obtain t where t: "gdpfs_file_write list_svc s fh [1, 2, 3] 0 = Inr (of_nat (length ([1, 2, 3] :: u8 list)), t)"
    "file_data (\<lambda>w. w) t fh (overlay [] (unat (0 :: u64)) [1, 2, 3]) (max 0 (unat (0 :: u64) + length ([1, 2, 3] :: u8 list)))" "cquota_f t = cquota_f s"
    using write_data [OF list_svc_ok s(2), of 0 "[1, 2, 3]"] by blast
  have d: "file_data (\<lambda>w. w) t fh [1, 2, 3] 3" using t(2) by (simp add: overlay_def eval_nat_numeral)
  have "fits t 2 [9]" using t(3) s(3) by (simp add: fits_def)
  from truncated_data_reappears [OF list_svc_ok d this, of 0] show ?thesis using s(1) t(1) by auto
qed

end
