(* ===== verification/File_Handles.thy ===== *)
theory File_Handles
  imports File_Props
begin

text \<open>
  Handles, reference counts and recently closed files: what holds in every state the file layer can
  reach, and what happens to a handle that is closed twice.
\<close>

section \<open>Reachable states\<close>

lemma reach_with: "freach S s \<Longrightarrow> inv_with (open_handles s) (\<lambda>_. 0) s"
  using fs_inv_reach by (simp add: fs_inv_def)

lemma reach_file: "freach S s \<Longrightarrow> fmem s p = Some f \<Longrightarrow> file_ok (open_handles s) (\<lambda>_. 0) s p f"
  by (rule inv_file [OF reach_with])

text \<open>A state with one open handle.\<close>

lemma first_open:
  obtains fh :: u64 and p f t where "freach list_svc t" "unat fh \<in> open_handles t" "files t ! unat fh = Some p" "fmem t p = Some f"
    "recently_closed_size t = 0" "\<exists>p e. pending t = [Free_Fileref p e]"
proof -
  obtain fh :: u64 and t where t: "freach list_svc t" "unat fh \<in> open_handles t" "recently_closed_size t = 0" "\<exists>p e. pending t = [Free_Fileref p e]"
    using first_file [of True] by metis
  then show thesis using that lookup_open [OF reach_with [OF t(1)] t(2)] by blast
qed


section \<open>Properties: handles\<close>

text \<open>
  C8: reference counts are exact. In every reachable state the reference count of a file is the number of
  open handles on it plus the number of its writes that are not acknowledged, no acknowledgement is
  expected that was not counted, the count of checkpoints in flight is that of the callbacks that
  wait, and the 32-bit count has not wrapped around.
\<close>

theorem file_refs_exact:
  assumes "freach S s" "fmem s p = Some f"
  shows "unat (ref_count f) = card {i \<in> open_handles s. files s ! i = Some p} + nat (outstanding_reqs f) \<and>
    int (write_acks (pending s) p) \<le> outstanding_reqs f \<and> index_flush_reqs f = int (chkpt_acks (pending s) p)"
  using reach_file [OF assms] by (simp add: file_ok_def handles_def)

theorem file_refs_exact_witness:
  "\<exists>t p f. freach list_svc t \<and> fmem t p = Some f \<and>
    unat (ref_count f) = card {i \<in> open_handles t. files t ! i = Some p} + nat (outstanding_reqs f)"
proof -
  obtain fh :: u64 and p f t where t: "freach list_svc t" "fmem t p = Some f" by (rule first_open)
  then show ?thesis using file_refs_exact [OF t] by blast
qed





text \<open>
  C10: the list of recently closed files is a proper list of exactly the files that are marked as recently
  closed; it has at most 256 members, its counter is its length, and all of its members are unused.
\<close>

theorem recently_closed_exact:
  assumes "freach S s"
  shows "\<exists>xs. dlist (rc_links s) rc_list xs \<and> int (length xs) = recently_closed_size s \<and> length xs \<le> 256 \<and>
    set xs = {p. \<exists>f. fmem s p = Some f \<and> recently_closed f \<and> ref_count f = 0}"
proof -
  obtain xs where xs: "dlist (rc_links s) rc_list xs" "int (length xs) = recently_closed_size s" "recently_closed_size s \<le> RC_CAP"
    "set xs = {p. \<exists>f. fmem s p = Some f \<and> recently_closed f}"
    using reach_with [OF assms] unfolding inv_with_def rc_ok_def by (elim conjE exE)
  have "ref_count f = 0" if "fmem s p = Some f" "recently_closed f" for p f
    using reach_file [OF assms that(1)] that(2) by (simp add: file_ok_def)
  then have "set xs = {p. \<exists>f. fmem s p = Some f \<and> recently_closed f \<and> ref_count f = 0}" using xs(4) by blast
  moreover have "length xs \<le> 256" using xs(2,3) by (simp add: RC_CAP_def)
  ultimately show ?thesis using xs(1,2) by blast
qed

theorem recently_closed_exact_witness:
  "\<exists>xs. dlist (rc_links (boot True)) rc_list xs \<and> int (length xs) = recently_closed_size (boot True) \<and> length xs \<le> 256"
  using recently_closed_exact [OF boot_reach, of True] by blast

text \<open>
  C11: closing an open handle succeeds while the list of recently closed files has room. The handle is
  free afterwards, the others stay open, and the state is a reachable one again.
\<close>

theorem close_releases:
  assumes "freach S s" "unat (fh :: u64) \<in> open_handles s" "recently_closed_size s < RC_CAP"
  shows "\<exists>t. gdpfs_file_close S s fh = Inr (GDPFS_STAT_OK, t) \<and> open_handles t = open_handles s - {unat fh} \<and> freach S t"
proof -
  obtain b p f where c: "bitmap_release (fhs s) fh = Inr (0, Some b)" "lookup_fh s fh = Inr (Some p)" "fmem s p = Some f"
    "bits b = open_handles s - {unat fh}" "inv_with (open_handles s - {unat fh}) (one_ref p) (s\<lparr>fhs := Some b\<rparr>)"
    using close_step [OF fs_inv_reach [OF assms(1)] assms(2)] by blast
  let ?s = "s\<lparr>fhs := Some b\<rparr>"
  have f: "fmem ?s p = Some f" "recently_closed_size ?s < RC_CAP" using c(3) assms(3) by simp_all
  obtain t where t: "file_unref S ?s p = Inr (GDPFS_STAT_OK, t)" using unref_succeeds [OF c(5) f] by blast
  have cl: "gdpfs_file_close S s fh = Inr (GDPFS_STAT_OK, t)" using c(1,2) t by (simp add: gdpfs_file_close_def)
  have "pins ?s t" using okRD [OF pins_unref t] by simp
  then have "open_handles t = open_handles s - {unat fh}" using pins_handles c(4) by (fastforce simp: open_handles_def)
  then show ?thesis using cl freach.Step [OF assms(1) fstep.Close [OF assms(2) cl]] by blast
qed

theorem close_releases_witness:
  "\<exists>s fh t. freach list_svc s \<and> unat fh \<in> open_handles s \<and> gdpfs_file_close list_svc s fh = Inr (GDPFS_STAT_OK, t) \<and>
    open_handles t = open_handles s - {unat fh}"
proof -
  obtain fh :: u64 and p f t where t: "freach list_svc t" "unat fh \<in> open_handles t" "recently_closed_size t = 0" by (rule first_open)
  then show ?thesis using close_releases [OF t(1,2)] by (auto simp: RC_CAP_def)
qed

text \<open>
  C12: the callback of an acknowledged write never fails while the list of recently closed files has room:
  the file it refers to is still there, and the state after it is a reachable one.
\<close>

theorem write_ack_succeeds:
  assumes "freach S s" "pending s = es @ Free_Fileref p est # es'" "recently_closed_size s < RC_CAP"
  shows "\<exists>t. free_fileref S (s\<lparr>pending := es @ es'\<rparr>) p = Inr t \<and> freach S t"
proof -
  obtain f where f: "fmem s p = Some f" "inv_with (open_handles s) (one_ref p)
    (put_file (s\<lparr>pending := es @ es'\<rparr>) p (f\<lparr>outstanding_reqs := outstanding_reqs f - 1\<rparr>))"
    using ack_step [OF fs_inv_reach [OF assms(1)] assms(2)] by blast
  let ?g = "f\<lparr>outstanding_reqs := outstanding_reqs f - 1\<rparr>" let ?t = "put_file (s\<lparr>pending := es @ es'\<rparr>) p ?g"
  have "fmem ?t p = Some ?g" "recently_closed_size ?t < RC_CAP" using assms(3) by simp_all
  then obtain t where "file_unref S ?t p = Inr (GDPFS_STAT_OK, t)" using unref_succeeds [OF f(2)] by blast
  then have t: "free_fileref S (s\<lparr>pending := es @ es'\<rparr>) p = Inr t" using f(1) by (simp add: free_fileref_def get_file_def)
  then show ?thesis using freach.Step [OF assms(1) fstep.Ack [OF assms(2) t]] by blast
qed

theorem write_ack_succeeds_witness:
  "\<exists>s p est t. freach list_svc s \<and> pending s = [Free_Fileref p est] \<and> free_fileref list_svc (s\<lparr>pending := []\<rparr>) p = Inr t \<and> freach list_svc t"
proof -
  obtain fh :: u64 and q f t p e where t: "freach list_svc t" "recently_closed_size t = 0" "pending t = [Free_Fileref p e]" by (rule first_open) blast
  then show ?thesis using write_ack_succeeds [OF t(1), of "[]" p e "[]"] by (auto simp: RC_CAP_def)
qed

end
