(* ===== verification/File_Disk.thy ===== *)
theory File_Disk
  imports File_Handles
begin

text \<open>
  Several files at once: operations on one file leave the others alone, and all handles on a file see the
  same data.
\<close>

section \<open>Files that do not overlap\<close>

definition handle_file :: "'w fsys \<Rightarrow> u64 \<Rightarrow> nat option" where
  "handle_file s fh = (if unat fh \<in> open_handles s then files s ! unat fh else None)"

text \<open>A file structure with the data \<open>c\<close>, the size \<open>n\<close> and the index \<open>t\<close>; log and cache have the name of the file.\<close>

definition located :: "('w \<Rightarrow> gdp_name \<Rightarrow> log_rec list) \<Rightarrow> 'w fsys \<Rightarrow> nat \<Rightarrow> gdpfs_file \<Rightarrow> u8 list \<Rightarrow> nat \<Rightarrow> ftree \<Rightarrow> bool" where
  "located hist s p f c n t \<longleftrightarrow> data_tree hist s p f c t \<and> info_cache_valid f \<and> file_size (info_cache f) = of_nat n \<and> n \<le> length c \<and>
     hash_key f = log_handle f \<and> (\<forall>m. cache_fd f = Some m \<longrightarrow> m = log_handle f)"

text \<open>The files of \<open>M\<close>, with indices that share no node and logs that differ.\<close>

definition disk_with ::
  "('w \<Rightarrow> gdp_name \<Rightarrow> log_rec list) \<Rightarrow> 'w fsys \<Rightarrow> (nat \<rightharpoonup> u8 list \<times> nat) \<Rightarrow> (nat \<Rightarrow> gdpfs_file) \<Rightarrow> (nat \<Rightarrow> ftree) \<Rightarrow> bool" where
  "disk_with hist s M F T \<longleftrightarrow> tabs s \<and> (\<forall>p c n. M p = Some (c, n) \<longrightarrow> located hist s p (F p) c n (T p)) \<and>
     (\<forall>p q. p \<in> dom M \<longrightarrow> q \<in> dom M \<longrightarrow> p \<noteq> q \<longrightarrow> set (addrs (T p)) \<inter> set (addrs (T q)) = {} \<and> log_handle (F p) \<noteq> log_handle (F q))"

definition disk :: "('w \<Rightarrow> gdp_name \<Rightarrow> log_rec list) \<Rightarrow> 'w fsys \<Rightarrow> (nat \<rightharpoonup> u8 list \<times> nat) \<Rightarrow> bool" where
  "disk hist s M \<longleftrightarrow> (\<exists>F T. disk_with hist s M F T)"

lemma disk_withD:
  assumes "disk_with hist s M F T"
  shows "tabs s" "M p = Some (c, n) \<Longrightarrow> located hist s p (F p) c n (T p)"
    "M p \<noteq> None \<Longrightarrow> M q \<noteq> None \<Longrightarrow> p \<noteq> q \<Longrightarrow> set (addrs (T p)) \<inter> set (addrs (T q)) = {} \<and> log_handle (F p) \<noteq> log_handle (F q)"
  using assms unfolding disk_with_def domIff by blast+

lemma handle_lookup:
  assumes "tabs s" "handle_file s fh = Some p"
  shows "lookup_fh s fh = Inr (Some p)" "unat fh < length (files s)" "files s ! unat fh = Some p"
proof -
  obtain b where b: "fhs s = Some b" "bitmap_wf b" "capacity b = MAX_FHS" "length (files s) = MAX_FHS" using assms(1) by (auto simp: tabs_def)
  have h: "unat fh \<in> bits b" "files s ! unat fh = Some p" using assms(2) b(1) by (auto simp: handle_file_def open_handles_def split: if_splits)
  then have "unat fh < MAX_FHS" using b(2,3) by (auto simp: bitmap_wf_def)
  then show "lookup_fh s fh = Inr (Some p)" "unat fh < length (files s)" "files s ! unat fh = Some p"
    using b bitmap_is_set_in [OF b(2), of fh] h by (simp_all add: lookup_fh_def)
qed

lemma handle_cong: "fhs t = fhs s \<Longrightarrow> files t = files s \<Longrightarrow> handle_file t = handle_file s"
  by (rule ext) (simp add: handle_file_def open_handles_def)

lemma disk_file:
  assumes "disk hist s M" "handle_file s fh = Some p" "M p = Some (c, n)"
  shows "file_data hist s fh c n"
proof -
  obtain F T where D: "disk_with hist s M F T" using assms(1) by (auto simp: disk_def)
  have l: "located hist s p (F p) c n (T p)" by (rule disk_withD(2) [OF D assms(3)])
  then have "data_at hist s p (F p) c" by (auto simp: located_def data_at_tree)
  then show ?thesis using l handle_lookup [OF disk_withD(1) [OF D] assms(2)] unfolding file_data_def located_def
    by (intro exI [of _ p] exI [of _ "F p"]) simp
qed

text \<open>A file whose log, cache and index are not touched stays where it is.\<close>

lemma located_other:
  assumes l: "located hist s q g c n u" and m: "fmem t q = fmem s q" and i: "io_mode t = io_mode s" "use_cache t = use_cache s"
    and h: "hist (world t) (log_handle g) = hist (world s) (log_handle g)" "cache_files t (log_handle g) = cache_files s (log_handle g)"
    and x: "fig_ok (nheap t) (figtree_of g) u"
  shows "located hist t q g c n u"
proof -
  have "cache_files t m = cache_files s m" if "cache_fd g = Some m" for m using l that h(2) by (auto simp: located_def)
  then have "use_cache s \<longrightarrow> new_file g \<and> (\<exists>n k. cache_fd g = Some n \<and> cache_files t n = Some k \<and> fdata k = c)"
    using l unfolding located_def data_tree_def by (elim conjE) (intro impI, elim impE exE conjE, auto)
  then show ?thesis using l m i h(1) x unfolding located_def data_tree_def by simp
qed

lemma disk_put:
  assumes D: "disk_with hist s M F T" and t: "tabs s'" and l: "located hist s' p f' c' n' t'"
    and oth: "\<And>q c n. M q = Some (c, n) \<Longrightarrow> q \<noteq> p \<Longrightarrow>
      located hist s' q (F q) c n (T q) \<and> set (addrs (T q)) \<inter> set (addrs t') = {} \<and> log_handle (F q) \<noteq> log_handle f'"
  shows "disk_with hist s' (M(p \<mapsto> (c', n'))) (F(p := f')) (T(p := t'))"
  unfolding disk_with_def
proof (intro conjI allI impI)
  fix q c n
  assume "(M(p \<mapsto> (c', n'))) q = Some (c, n)"
  then show "located hist s' q ((F(p := f')) q) c n ((T(p := t')) q)" using l oth [of q c n] by (cases "q = p") auto
next
  fix q r
  assume qr: "q \<in> dom (M(p \<mapsto> (c', n')))" "r \<in> dom (M(p \<mapsto> (c', n')))" "q \<noteq> r"
  have n: "\<exists>c n. M x = Some (c, n)" if "x \<in> dom (M(p \<mapsto> (c', n')))" "x \<noteq> p" for x using that by auto
  have "set (addrs ((T(p := t')) q)) \<inter> set (addrs ((T(p := t')) r)) = {} \<and> log_handle ((F(p := f')) q) \<noteq> log_handle ((F(p := f')) r)"
  proof (cases "q = p \<or> r = p")
    case True
    then show ?thesis
    proof
      assume "q = p"
      then obtain c n where "M r = Some (c, n)" "r \<noteq> p" using n [OF qr(2)] qr(3) by auto
      then show ?thesis using \<open>q = p\<close> oth [of r c n] by (auto simp: Int_commute)
    next
      assume "r = p"
      then obtain c n where "M q = Some (c, n)" "q \<noteq> p" using n [OF qr(1)] qr(3) by auto
      then show ?thesis using \<open>r = p\<close> oth [of q c n] by simp
    qed
  next
    case False
    then have "M q \<noteq> None" "M r \<noteq> None" using n [OF qr(1)] n [OF qr(2)] by auto
    then show ?thesis using disk_withD(3) [OF D _ _ qr(3)] False by simp
  qed
  then show "set (addrs ((T(p := t')) q)) \<inter> set (addrs ((T(p := t')) r)) = {}"
      "log_handle ((F(p := f')) q) \<noteq> log_handle ((F(p := f')) r)" by simp_all
qed (rule t)

lemma disk_step:
  assumes D: "disk_with hist s M F T" and p: "M p = Some cn" and l: "located hist s' p f' c' n' t'" and f: "same_place (F p) f'"
    and o: "spares_others hist p (F p) s s'" and h: "spares (nheap s) (T p) (nheap s') t'"
  shows "disk_with hist s' (M(p \<mapsto> (c', n'))) (F(p := f')) (T(p := t'))"
proof (rule disk_put [OF D _ l])
  have lp: "cache_fd (F p) = Some m \<Longrightarrow> m = log_handle (F p)" for m using disk_withD(2) [OF D, of p "fst cn" "snd cn"] p by (auto simp: located_def)
  have O: "tabs s'" "io_mode s' = io_mode s" "use_cache s' = use_cache s" "\<And>q. q \<noteq> p \<Longrightarrow> fmem s' q = fmem s q"
    "\<And>n. n \<noteq> log_handle (F p) \<Longrightarrow> hist (world s') n = hist (world s) n \<and> cache_files s' n = cache_files s n"
    using o disk_withD(1) [OF D] lp unfolding spares_others_def tabs_def by auto
  show "tabs s'" by (rule O(1))
  fix q c n
  assume q: "M q = Some (c, n)" "q \<noteq> p"
  have lq: "located hist s q (F q) c n (T q)" by (rule disk_withD(2) [OF D q(1)])
  have d: "set (addrs (T q)) \<inter> set (addrs (T p)) = {}" "log_handle (F q) \<noteq> log_handle (F p)" using disk_withD(3) [OF D, of q p] p q by simp_all
  have "fig_ok (nheap s) (figtree_of (F q)) (T q)" using lq by (simp add: located_def data_tree_def)
  then have x: "fig_ok (nheap s') (figtree_of (F q)) (T q)" "set (addrs (T q)) \<inter> set (addrs t') = {}" using h d(1) by (simp_all add: spares_def)
  show "located hist s' q (F q) c n (T q) \<and> set (addrs (T q)) \<inter> set (addrs t') = {} \<and> log_handle (F q) \<noteq> log_handle f'"
    using located_other [OF lq O(4) [OF q(2)] O(2,3) _ _ x(1)] O(5) [OF d(2)] x(2) d(2) f by (simp add: same_place_def)
qed

text \<open>A new file joins the others.\<close>

lemma disk_placed:
  assumes D: "disk_with hist s M F T" and i: "fs_inv s" and n: "file_hash s n = None" and P: "placed hist s fh n p t"
  shows "\<exists>f u. disk_with hist t (M(p \<mapsto> ([], 0))) (F(p := f)) (T(p := u))" "M p = None" "handle_file t fh = Some p"
    "\<And>fh'. unat fh' \<in> open_handles s \<Longrightarrow> handle_file t fh' = handle_file s fh'"
proof -
  obtain f u where f: "data_tree hist t p f [] u" "info_cache_valid f" "file_size (info_cache f) = 0" "log_handle f = n" "hash_key f = n"
      "\<forall>m. cache_fd f = Some m \<longrightarrow> m = n" "\<forall>tr v. fig_ok (nheap s) tr v \<longrightarrow> fig_ok (nheap t) tr v \<and> set (addrs v) \<inter> set (addrs u) = {}"
    and A: "tabs t" "unat fh \<notin> open_handles s" "open_handles t = insert (unat fh) (open_handles s)" "files t = (files s)[unat fh := Some p]"
      "fmem s p = None" "\<And>q. q \<noteq> p \<Longrightarrow> fmem t q = fmem s q" "use_cache t = use_cache s" "io_mode t = io_mode s"
      "\<And>m. m \<noteq> n \<Longrightarrow> hist (world t) m = hist (world s) m \<and> cache_files t m = cache_files s m"
    using P unfolding placed_def by (elim exE conjE) blast
  have m: "fmem s q = Some (F q)" "log_handle (F q) \<noteq> n" if "M q = Some (c, k)" for q c k
  proof -
    have lq: "located hist s q (F q) c k (T q)" by (rule disk_withD(2) [OF D that])
    then show g: "fmem s q = Some (F q)" by (simp add: located_def data_tree_def)
    have "file_hash s (hash_key (F q)) = Some q" using i g by (simp add: fs_inv_def inv_with_def tables_ok_def)
    then show "log_handle (F q) \<noteq> n" using lq n by (auto simp: located_def)
  qed
  show mp: "M p = None" using m(1) [of p] A(5) by (cases "M p") auto
  have "disk_with hist t (M(p \<mapsto> ([], 0))) (F(p := f)) (T(p := u))"
  proof (rule disk_put [OF D A(1)])
    show "located hist t p f [] 0 u" using f by (simp add: located_def)
    fix q c k
    assume q: "M q = Some (c, k)" "q \<noteq> p"
    have lq: "located hist s q (F q) c k (T q)" by (rule disk_withD(2) [OF D q(1)])
    then have x: "fig_ok (nheap t) (figtree_of (F q)) (T q)" "set (addrs (T q)) \<inter> set (addrs u) = {}" using f(7) by (auto simp: located_def data_tree_def)
    show "located hist t q (F q) c k (T q) \<and> set (addrs (T q)) \<inter> set (addrs u) = {} \<and> log_handle (F q) \<noteq> log_handle f"
      using located_other [OF lq A(6) [OF q(2)] A(8,7) _ _ x(1)] A(9) [OF m(2) [OF q(1)]] x(2) m(2) [OF q(1)] f(4) by simp
  qed
  then show "\<exists>f u. disk_with hist t (M(p \<mapsto> ([], 0))) (F(p := f)) (T(p := u))" by blast
  have "unat fh < length (files s)"
  proof -
    obtain b where b: "fhs t = Some b" "bitmap_wf b" "capacity b = MAX_FHS" "length (files t) = MAX_FHS" using A(1) by (auto simp: tabs_def)
    then have "unat fh \<in> bits b" using A(3) by (auto simp: open_handles_def)
    then show ?thesis using b A(4) by (auto simp: bitmap_wf_def)
  qed
  then show "handle_file t fh = Some p" using A(3,4) by (simp add: handle_file_def)
  show "handle_file t fh' = handle_file s fh'" if "unat fh' \<in> open_handles s" for fh'
  proof -
    have "unat fh' \<noteq> unat fh" using that A(2) by metis
    then show ?thesis using that A(3,4) by (simp add: handle_file_def)
  qed
qed

lemma create_on_disk:
  assumes S: "svc_ok S hist" and i: "fs_inv s" and n: "can_create S hist s n" and t: "ty \<noteq> GDPFS_FILE_TYPE_UNKNOWN" and D: "disk hist s M"
  shows "\<exists>fh t p. gdpfs_file_open_init S s n ty perm True = Inr (GDPFS_STAT_OK, fh, t) \<and> disk hist t (M(p \<mapsto> ([], 0))) \<and> M p = None \<and>
    handle_file t fh = Some p \<and> (\<forall>fh'. unat fh' \<in> open_handles s \<longrightarrow> handle_file t fh' = handle_file s fh') \<and>
    open_handles t = insert (unat fh) (open_handles s) \<and> unat fh \<notin> open_handles s \<and> use_cache t = use_cache s \<and> cquota_f t = cquota_f s \<and>
    placed hist s fh n p t \<and> ring t = ring s \<and> born ty perm t p \<and> recently_closed_size t = recently_closed_size s"
proof -
  obtain F T where W: "disk_with hist s M F T" using D by (auto simp: disk_def)
  obtain fh t p where c: "gdpfs_file_open_init S s n ty perm True = Inr (GDPFS_STAT_OK, fh, t)" "placed hist s fh n p t" "ring t = ring s"
      "born ty perm t p" "recently_closed_size t = recently_closed_size s"
    using create_data [OF S i n t, of perm] by blast
  have h: "file_hash s n = None" using n by (simp add: can_create_def)
  note P = disk_placed [OF W i h c(2)]
  have "disk hist t (M(p \<mapsto> ([], 0)))" using P(1) unfolding disk_def by blast
  moreover have "open_handles t = insert (unat fh) (open_handles s)" "unat fh \<notin> open_handles s" "use_cache t = use_cache s" "cquota_f t = cquota_f s"
    using c(2) by (simp_all add: placed_def)
  ultimately show ?thesis using c P(2-4) by (intro exI [of _ fh] exI [of _ t] exI [of _ p]) simp
qed

section \<open>Operations\<close>

definition run_disk_op :: "'w log_service \<Rightarrow> 'w fsys \<Rightarrow> u64 \<times> file_op \<Rightarrow> 'w fsys res" where
  "run_disk_op S s y = run_op S (fst y) s (snd y)"

lemma run_on_disk:
  assumes S: "svc_ok S hist" and D: "disk hist s M" and h: "handle_file s fh = Some p" and p: "M p = Some cn" and x: "op_fits s x"
  shows "\<exists>s'. run_op S fh s x = Inr s' \<and> disk hist s' (M(p \<mapsto> spec_op x cn)) \<and> handle_file s' = handle_file s \<and> op_fits s' = op_fits s"
proof -
  obtain F T where W: "disk_with hist s M F T" using D by (auto simp: disk_def)
  obtain c n where cn: "cn = (c, n)" by (cases cn)
  have l: "located hist s p (F p) c n (T p)" using disk_withD(2) [OF W] p cn by simp
  have L: "lookup_fh s fh = Inr (Some p)" by (rule handle_lookup(1) [OF disk_withD(1) [OF W] h])
  have lf: "data_tree hist s p (F p) c (T p)" "info_cache_valid (F p)" "file_size (info_cache (F p)) = of_nat n" "n \<le> length c"
    "hash_key (F p) = log_handle (F p)" "\<forall>m. cache_fd (F p) = Some m \<longrightarrow> m = log_handle (F p)" using l by (simp_all add: located_def)
  have fin: "disk hist s' (M(p \<mapsto> (c', m))) \<and> handle_file s' = handle_file s \<and> op_fits s' = op_fits s"
    if "data_tree hist s' p f' c' t'" "info_cache_valid f'" "file_size (info_cache f') = of_nat m" "m \<le> length c'" "same_place (F p) f'"
      "spares_others hist p (F p) s s'" "spares (nheap s) (T p) (nheap s') t'" for s' f' t' c' m
  proof -
    have "located hist s' p f' c' m t'" using that(1-5) lf(5,6) by (simp add: located_def same_place_def)
    then have "disk hist s' (M(p \<mapsto> (c', m)))" using disk_step [OF W p _ that(5-7)] unfolding disk_def by blast
    then show ?thesis using that(6) handle_cong [of s' s] op_fits_cong [of s' s] by (simp add: spares_others_def)
  qed
  show ?thesis
  proof (cases x)
    case (Op_Write off buf)
    let ?u = "\<lambda>i. i\<lparr>file_size := max (file_size i) (off + of_nat (length buf))\<rparr>" and ?m = "max n (unat off + length buf)"
    have b: "buf \<noteq> []" "fits s off buf" using x Op_Write by simp_all
    have k: "n < 2 ^ 32" "unat off + length buf < 2 ^ 32" using lf(1,4) b(2) by (simp_all add: data_tree_def fits_def)
    from info_tree [OF S L lf(1,2) b(2), where upd = ?u and m = ?m, OF grown_size [OF k lf(3)]] obtain s1 s' info f' t' where
      w: "gdpfs_file_get_info S s fh = Inr (GDPFS_STAT_OK, Some p, s)" "change_info s p ?u = Inr (info, s1)"
      "do_write S s1 fh buf off info = Inr (of_nat (length buf), s')" and e: "data_tree hist s' p f' (overlay c (unat off) buf) t'"
      "info_cache_valid f'" "file_size (info_cache f') = of_nat ?m" "same_place (F p) f'" "spares_others hist p (F p) s s'"
      "spares (nheap s) (T p) (nheap s') t'" by (elim exE conjE)
    have "?m \<le> length (overlay c (unat off) buf)" using b(1) lf(4) by (simp add: length_overlay max.mono)
    from fin [OF e(1-3) this e(4-6)] show ?thesis using w Op_Write cn
      by (intro exI [of _ s']) (simp add: gdpfs_file_write_def deref_def EP_STAT_ISOK_def)
  next
    case (Op_Truncate len)
    let ?u = "\<lambda>i. i\<lparr>file_size := 0\<rparr>"
    have z: "file_size (?u (info_cache (F p))) = of_nat 0" "fits s 0 []" by (simp_all add: fits_def)
    from info_tree [OF S L lf(1,2) z(2), where upd = ?u and m = 0, OF z(1)] obtain s1 s' info f' t' where
      w: "gdpfs_file_get_info S s fh = Inr (GDPFS_STAT_OK, Some p, s)" "change_info s p ?u = Inr (info, s1)"
      "do_write S s1 fh [] 0 info = Inr (of_nat (length ([] :: u8 list)), s')" and e: "data_tree hist s' p f' (overlay c (unat (0 :: u64)) []) t'"
      "info_cache_valid f'" "file_size (info_cache f') = of_nat 0" "same_place (F p) f'" "spares_others hist p (F p) s s'"
      "spares (nheap s) (T p) (nheap s') t'" by (elim exE conjE)
    from fin [OF e(1-3) _ e(4-6)] show ?thesis using w Op_Truncate cn
      by (intro exI [of _ s']) (simp add: gdpfs_file_ftruncate_def deref_def EP_STAT_ISOK_def overlay_def)
  qed
qed

section \<open>The contract of the file layer\<close>

text \<open>
  A store of files with handles on them. A step is an operation through a handle; it acts on the file of
  that handle and on no other.
\<close>

definition ops_on :: "(u64 \<Rightarrow> nat option) \<Rightarrow> nat \<Rightarrow> (u64 \<times> file_op) list \<Rightarrow> file_op list" where
  "ops_on tg p ys = map snd (filter (\<lambda>y. tg (fst y) = Some p) ys)"

locale file_store =
  fixes holds :: "'s \<Rightarrow> (nat \<rightharpoonup> u8 list \<times> nat) \<Rightarrow> bool"
    and target :: "'s \<Rightarrow> u64 \<Rightarrow> nat option"
    and may :: "'s \<Rightarrow> file_op \<Rightarrow> bool"
    and step :: "'s \<Rightarrow> u64 \<times> file_op \<Rightarrow> 's res"
    and fetch :: "'s \<Rightarrow> u64 \<Rightarrow> u64 \<Rightarrow> u64 \<Rightarrow> (u8 list \<times> 's) res"
  assumes step_law: "holds s M \<Longrightarrow> target s fh = Some p \<Longrightarrow> M p = Some cn \<Longrightarrow> may s x \<Longrightarrow>
      \<exists>s'. step s (fh, x) = Inr s' \<and> holds s' (M(p \<mapsto> spec_op x cn)) \<and> target s' = target s \<and> may s' = may s"
    and fetch_law: "holds s M \<Longrightarrow> target s fh = Some p \<Longrightarrow> M p = Some cn \<Longrightarrow> unat sz + unat off < 2 ^ 64 \<Longrightarrow>
      fetch s fh sz off = Inr (spec_read cn (unat off) (unat sz), s)"
begin

lemma store_steps:
  assumes "holds s M" "\<forall>y \<in> set ys. \<exists>q. target s (fst y) = Some q \<and> M q \<noteq> None" "\<forall>y \<in> set ys. may s (snd y)" "M p = Some cn"
  shows "\<exists>s' M'. foldR step ys s = Inr s' \<and> holds s' M' \<and> target s' = target s \<and> M' p = Some (fold spec_op (ops_on (target s) p ys) cn)"
  using assms
proof (induction ys arbitrary: s M cn)
  case (Cons y ys)
  obtain fh x where y: "y = (fh, x)" by (cases y)
  obtain q dn where q: "target s fh = Some q" "M q = Some dn" using Cons.prems(2) y by auto
  obtain s' where s': "step s y = Inr s'" "holds s' (M(q \<mapsto> spec_op x dn))" "target s' = target s" "may s' = may s"
    using step_law [OF Cons.prems(1) q, of x] Cons.prems(3) y by auto
  define cn' where "cn' = (if p = q then spec_op x cn else cn)"
  have p': "(M(q \<mapsto> spec_op x dn)) p = Some cn'" using Cons.prems(4) q(2) by (auto simp: cn'_def)
  have keep: "(M(q \<mapsto> spec_op x dn)) r \<noteq> None" if "M r \<noteq> None" for r using that by simp
  have "\<forall>y \<in> set ys. \<exists>r. target s' (fst y) = Some r \<and> (M(q \<mapsto> spec_op x dn)) r \<noteq> None"
    using Cons.prems(2) keep unfolding s'(3) by (metis list.set_intros(2))
  moreover have "\<forall>y \<in> set ys. may s' (snd y)" using Cons.prems(3) s'(4) by simp
  ultimately have "\<exists>t M'. foldR step ys s' = Inr t \<and> holds t M' \<and> target t = target s' \<and> M' p = Some (fold spec_op (ops_on (target s') p ys) cn')"
    by (rule Cons.IH [OF s'(2) _ _ p'])
  then show ?case using s'(1,3) q(1) y by (auto simp: ops_on_def cn'_def)
qed (auto simp: ops_on_def)

lemma store_read:
  assumes "holds s M" "\<forall>y \<in> set ys. \<exists>q. target s (fst y) = Some q \<and> M q \<noteq> None" "\<forall>y \<in> set ys. may s (snd y)"
    "target s fh = Some p" "M p = Some cn" "unat sz + unat off < 2 ^ 64"
  shows "\<exists>s'. foldR step ys s = Inr s' \<and> fetch s' fh sz off = Inr (spec_read (fold spec_op (ops_on (target s) p ys) cn) (unat off) (unat sz), s')"
  using store_steps [OF assms(1-3,5)] fetch_law [OF _ _ _ assms(6)] assms(4) by metis

end

text \<open>Seen through one of its handles a store is a single file.\<close>

sublocale file_store \<subseteq> one: byte_file "\<lambda>s cn. \<exists>M. holds s M \<and> target s fh = Some p \<and> M p = Some cn" may "\<lambda>s x. step s (fh, x)" "\<lambda>s. fetch s fh"
  for fh p
proof unfold_locales
  fix s cn x
  assume "\<exists>M. holds s M \<and> target s fh = Some p \<and> M p = Some cn" "may s x"
  then obtain M where M: "holds s M" "target s fh = Some p" "M p = Some cn" "may s x" by blast
  from step_law [OF M] show "\<exists>s'. step s (fh, x) = Inr s' \<and> (\<exists>M. holds s' M \<and> target s' fh = Some p \<and> M p = Some (spec_op x cn)) \<and> may s' = may s"
    using M(2) by (metis fun_upd_same)
next
  fix s cn and sz off :: u64
  assume "\<exists>M. holds s M \<and> target s fh = Some p \<and> M p = Some cn" "unat sz + unat off < 2 ^ 64"
  then show "fetch s fh sz off = Inr (spec_read cn (unat off) (unat sz), s)" using fetch_law by blast
qed

interpretation fstore: file_store "\<lambda>s M. svc_ok S hist \<and> disk hist s M" handle_file op_fits "run_disk_op S" "\<lambda>s fh sz off. gdpfs_file_read S s fh sz off"
  for S hist
proof unfold_locales
  fix s M fh p cn x
  assume "svc_ok S hist \<and> disk hist s M" "handle_file s fh = Some p" "M p = Some cn" "op_fits s x"
  then show "\<exists>s'. run_disk_op S s (fh, x) = Inr s' \<and> (svc_ok S hist \<and> disk hist s' (M(p \<mapsto> spec_op x cn))) \<and> handle_file s' = handle_file s \<and> op_fits s' = op_fits s"
    using run_on_disk [of S hist s M fh p cn x] by (simp add: run_disk_op_def)
next
  fix s M fh p cn and sz off :: u64
  assume "svc_ok S hist \<and> disk hist s M" "handle_file s fh = Some p" "M p = Some cn" "unat sz + unat off < 2 ^ 64"
  then show "gdpfs_file_read S s fh sz off = Inr (spec_read cn (unat off) (unat sz), s)"
    using disk_file [of hist s M fh p "fst cn" "snd cn"] read_data [of S hist s fh "fst cn" "snd cn" sz off] by (simp add: spec_read_def)
qed

section \<open>An example\<close>

text \<open>Two files.\<close>

lemma two_files:
  obtains fa fb s t pa pb where
    "gdpfs_file_open_init list_svc (boot cache) [7] GDPFS_FILE_TYPE_REGULAR 420 True = Inr (GDPFS_STAT_OK, fa, s)"
    "gdpfs_file_open_init list_svc s [8] GDPFS_FILE_TYPE_REGULAR 420 True = Inr (GDPFS_STAT_OK, fb, t)"
    "disk (\<lambda>w. w) t [pa \<mapsto> ([], 0), pb \<mapsto> ([], 0)]" "pa \<noteq> pb" "handle_file t fa = Some pa" "handle_file t fb = Some pb"
    "cquota_f t = 1000000"
proof -
  have ib: "fs_inv (boot cache)" by (rule fs_inv_reach [OF boot_reach])
  have "tabs (boot cache)" using ib by (auto simp: fs_inv_def inv_with_def tables_ok_def tabs_def)
  then have d0: "disk (\<lambda>w. w) (boot cache) Map.empty" by (auto simp: disk_def disk_with_def)
  obtain fa s pa where a: "gdpfs_file_open_init list_svc (boot cache) [7] GDPFS_FILE_TYPE_REGULAR 420 True = Inr (GDPFS_STAT_OK, fa, s)"
    "disk (\<lambda>w. w) s [pa \<mapsto> ([], 0)]" "handle_file s fa = Some pa" "open_handles s = insert (unat fa) (open_handles (boot cache))"
    "placed (\<lambda>w. w) (boot cache) fa [7] pa s" "cquota_f s = cquota_f (boot cache)"
    using create_on_disk [OF list_svc_ok ib boot_create [of cache "[7]"] _ d0, of GDPFS_FILE_TYPE_REGULAR 420] by auto
  have "fstep list_svc (boot cache) s" using a(1) boot_room by (auto simp: gdpfs_file_open_init_def intro: fstep.Open)
  then have inv: "fs_inv s" by (rule fs_inv_reach [OF freach.Step [OF boot_reach]])
  have o: "open_handles s = {unat fa}" using a(4) boot_open by simp
  have "open_handles s \<noteq> {..<MAX_FHS}"
  proof
    assume "open_handles s = {..<MAX_FHS}"
    then have "{0, 1} \<subseteq> {unat fa}" unfolding o by (auto simp: MAX_FHS_def)
    then show False by auto
  qed
  moreover have "heap_ok (nheap s)" using a(5) by (auto simp: placed_def data_tree_def fig_ok_def owns_def)
  moreover have "[8] \<noteq> ([7] :: gdp_name)" by simp
  ultimately have cs: "can_create list_svc (\<lambda>w. w) s [8]" using a(5) boot_create [of cache "[8]"]
    by (simp add: can_create_def placed_def list_svc_def)
  have ty: "GDPFS_FILE_TYPE_REGULAR \<noteq> GDPFS_FILE_TYPE_UNKNOWN" by simp
  obtain fb t pb where b: "gdpfs_file_open_init list_svc s [8] GDPFS_FILE_TYPE_REGULAR 420 True = Inr (GDPFS_STAT_OK, fb, t)"
    "disk (\<lambda>w. w) t ([pa \<mapsto> ([], 0)](pb \<mapsto> ([], 0)))" "[pa \<mapsto> ([] :: u8 list, 0 :: nat)] pb = None" "handle_file t fb = Some pb"
    "\<forall>fh'. unat fh' \<in> open_handles s \<longrightarrow> handle_file t fh' = handle_file s fh'" "cquota_f t = cquota_f s"
    using create_on_disk [OF list_svc_ok inv cs ty a(2), of 420] by (elim exE conjE)
  have "handle_file t fa = Some pa" using b(5) o a(3) by simp
  moreover have "pa \<noteq> pb" using b(3) by (auto split: if_splits)
  moreover have "cquota_f t = 1000000" using b(6) a(6) by (simp add: boot_def init_gdpfs_file_def init_gdpfs_log_def EP_STAT_ISOK_def)
  ultimately show thesis using that a(1) b(1,2,4) by blast
qed

section \<open>Properties\<close>

text \<open>
  C6: files do not interfere. Take any interleaving of writes and truncations through handles on any number
  of files, with several handles on a file allowed. All of them succeed, and a read through a handle
  afterwards returns what the operations through handles on the same file make of it, in their order;
  the operations on other files might as well not have happened, although all files share the heap
  of the indices, the local cache and the log daemon.
\<close>

theorem files_do_not_interfere:
  assumes "svc_ok S hist" "disk hist s M" "\<forall>y \<in> set ys. \<exists>q. handle_file s (fst y) = Some q \<and> M q \<noteq> None"
    "\<forall>y \<in> set ys. op_fits s (snd y)" "handle_file s fh = Some p" "M p = Some cn" "unat sz + unat off < 2 ^ 64"
  shows "\<exists>t. foldR (run_disk_op S) ys s = Inr t \<and>
    gdpfs_file_read S t fh sz off = Inr (spec_read (fold spec_op (ops_on (handle_file s) p ys) cn) (unat off) (unat sz), t)"
  by (rule fstore.store_read [where hist = hist and M = M, OF _ assms(3-7)]) (use assms(1,2) in simp)

theorem files_do_not_interfere_witness:
  "\<exists>fa fb s t u. gdpfs_file_open_init list_svc (boot True) [7] GDPFS_FILE_TYPE_REGULAR 420 True = Inr (GDPFS_STAT_OK, fa, s) \<and>
     gdpfs_file_open_init list_svc s [8] GDPFS_FILE_TYPE_REGULAR 420 True = Inr (GDPFS_STAT_OK, fb, t) \<and>
     foldR (run_disk_op list_svc) [(fa, Op_Write 0 [1, 2]), (fb, Op_Write 0 [9]), (fa, Op_Write 1 [5]), (fb, Op_Truncate 0)] t = Inr u \<and>
     gdpfs_file_read list_svc u fa 10 0 = Inr ([1, 5], u)"
proof -
  obtain fa fb s t pa pb where a: "gdpfs_file_open_init list_svc (boot True) [7] GDPFS_FILE_TYPE_REGULAR 420 True = Inr (GDPFS_STAT_OK, fa, s)"
    "gdpfs_file_open_init list_svc s [8] GDPFS_FILE_TYPE_REGULAR 420 True = Inr (GDPFS_STAT_OK, fb, t)"
    "disk (\<lambda>w. w) t [pa \<mapsto> ([], 0), pb \<mapsto> ([], 0)]" "pa \<noteq> pb" "handle_file t fa = Some pa" "handle_file t fb = Some pb"
    "cquota_f t = 1000000" by (rule two_files)
  let ?ys = "[(fa, Op_Write 0 [1, 2]), (fb, Op_Write 0 [9]), (fa, Op_Write 1 [5]), (fb, Op_Truncate 0)]"
  let ?M = "[pa \<mapsto> ([] :: u8 list, 0 :: nat), pb \<mapsto> ([], 0)]"
  have "\<forall>y \<in> set ?ys. \<exists>q. handle_file t (fst y) = Some q \<and> ?M q \<noteq> None" "\<forall>y \<in> set ?ys. op_fits t (snd y)" "?M pa = Some ([], 0)"
    using a(4-7) by (simp_all add: fits_def)
  moreover have "ops_on (handle_file t) pa ?ys = [Op_Write 0 [1, 2], Op_Write 1 [5]]" using a(4-6) by (simp add: ops_on_def)
  moreover have "spec_read (fold spec_op [Op_Write 0 [1, 2], Op_Write 1 [5]] ([], 0)) (unat (0 :: u64)) (unat (10 :: u64)) = [1, 5]"
    by (simp add: spec_read_def overlay_def)
  ultimately have "\<exists>u. foldR (run_disk_op list_svc) ?ys t = Inr u \<and> gdpfs_file_read list_svc u fa 10 0 = Inr ([1, 5], u)"
    using files_do_not_interfere [OF list_svc_ok a(3), of ?ys fa pa "([], 0)" 10 0] a(5) by simp
  then show ?thesis using a(1,2) by blast
qed

end
