(* ===== verification/Dir.thy ===== *)
theory Dir
  imports File_Open
begin

text \<open>
  Directories, \<^verbatim>\<open>src/gdpfs_dir.c\<close>: a directory is a file of fixed-size entries, which are searched in order
  and reused when they are not in use. Paths are resolved from the root directory; every step opens
  a file of the file layer and closes the one before.
\<close>

section \<open>C strings\<close>

text \<open>A C string is its bytes without the terminating zero.\<close>

type_synonym cstring = "u8 list"

definition SLASH :: u8 where
  "SLASH = 0x2F"

definition strncpy :: "cstring \<Rightarrow> nat \<Rightarrow> u8 list" where
  "strncpy src n = take n src @ replicate (n - length src) 0"

text \<open>
  \<open>strcmp\<close> of an array with a string, as far as the program uses it: an array without a zero is read
  past its end when the string goes on after it.
\<close>

definition strcmp_same :: "u8 list \<Rightarrow> cstring \<Rightarrow> bool res" where
  "strcmp_same a s =
     (if 0 \<in> set a then Inr (takeWhile (\<lambda>x. x \<noteq> 0) a = s)
      else if take (length a) s = a then Inl Out_Of_Bounds
      else Inr False)"

definition strip_slashes :: "cstring \<Rightarrow> cstring" where
  "strip_slashes p = rev (dropWhile (\<lambda>x. x = SLASH) (rev p))"

definition dirname :: "cstring \<Rightarrow> cstring" where
  "dirname p =
     (let q = strip_slashes p; d = rev (dropWhile (\<lambda>x. x \<noteq> SLASH) (rev q)) in
      if p = [] then [0x2E]
      else if q = [] then [SLASH]
      else if d = [] then [0x2E]
      else if strip_slashes d = [] then [SLASH]
      else strip_slashes d)"

definition basename :: "cstring \<Rightarrow> cstring" where
  "basename p =
     (let q = strip_slashes p in
      if p = [] then [0x2E]
      else if q = [] then [SLASH]
      else rev (takeWhile (\<lambda>x. x \<noteq> SLASH) (rev q)))"

section \<open>Entries\<close>

definition NAME_MAX_GDPFS :: nat where
  "NAME_MAX_GDPFS = 255"

text \<open>The name is an array of 256 bytes; all members have alignment 1, so the structure has 289 bytes.\<close>

record gdpfs_dir_entry_phys =
  ent_gname :: gdp_name
  in_use :: bool
  ent_name :: "u8 list"

definition sizeof_dirent :: nat where
  "sizeof_dirent = 289"

definition dirent_bytes :: "gdpfs_dir_entry_phys \<Rightarrow> u8 list" where
  "dirent_bytes e = ent_gname e @ [if in_use e then 1 else 0] @ ent_name e"

definition dirent_of :: "u8 list \<Rightarrow> gdpfs_dir_entry_phys" where
  "dirent_of bs = \<lparr>ent_gname = take 32 bs, in_use = (bs ! 32 \<noteq> 0), ent_name = drop 33 bs\<rparr>"

section \<open>Searching\<close>

text \<open>
  The status, the offset and the entry that was read last. The offset is a signed 64-bit number, which
  must not overflow.
\<close>

function find_from ::
  "'w log_service \<Rightarrow> u64 \<Rightarrow> cstring \<Rightarrow> 'w fsys \<Rightarrow> u64 \<Rightarrow> u64 option \<Rightarrow> ((ep_stat \<times> u64 \<times> gdpfs_dir_entry_phys) \<times> 'w fsys) res" where
  "find_from S fh name s off insert_offset =
     bindR (gdpfs_file_read S s fh (of_nat sizeof_dirent) off) (\<lambda>(bs, s).
     let found_ent = dirent_of bs in
     if bs = [] then
       Inr ((GDPFS_STAT_OK, case insert_offset of Some i \<Rightarrow> i | None \<Rightarrow> off, found_ent), s)
     else if length bs \<noteq> sizeof_dirent then Inr ((GDPFS_STAT_CORRUPT, off, found_ent), s)
     else
       bindR (if in_use found_ent then strcmp_same (ent_name found_ent) name else Inr False) (\<lambda>same.
       if same then Inr ((GDPFS_STAT_FILE_EXISTS, off, found_ent), s)
       else if 2 ^ 63 \<le> unat off + sizeof_dirent then Inl Out_Of_Bounds
       else find_from S fh name s (off + of_nat sizeof_dirent)
              (if \<not> in_use found_ent \<and> insert_offset = None then Some off else insert_offset)))"
  by pat_completeness auto
termination
proof (relation "measure (\<lambda>(S, fh, name, s, off, i). 2 ^ 63 - unat off)", goal_cases)
  case 1
  show ?case by simp
next
  case (2 S fh name s off i x bs s' e same)
  then have "unat (off + of_nat sizeof_dirent) = unat off + sizeof_dirent"
    by (simp add: sizeof_dirent_def unat_word_ariths)
  then show ?case using 2 by (simp add: sizeof_dirent_def)
qed

declare find_from.simps [simp del]

definition find_insert_offset ::
  "'w log_service \<Rightarrow> 'w fsys \<Rightarrow> u64 \<Rightarrow> cstring \<Rightarrow> ((ep_stat \<times> u64 \<times> gdpfs_dir_entry_phys) \<times> 'w fsys) res" where
  "find_insert_offset S s fh name = find_from S fh name s 0 None"

section \<open>Changing\<close>

definition write_status :: "u64 \<Rightarrow> ep_stat \<Rightarrow> ep_stat" where
  "write_status n ok_stat =
     (if n = 0 then GDPFS_STAT_RW_FAILED else if n \<noteq> of_nat sizeof_dirent then GDPFS_STAT_CORRUPT else ok_stat)"

definition add_at_offset :: "'w log_service \<Rightarrow> 'w fsys \<Rightarrow> u64 \<Rightarrow> u64 \<Rightarrow> cstring \<Rightarrow> gdp_name \<Rightarrow> (ep_stat \<times> 'w fsys) res" where
  "add_at_offset S s fh off name log_gname =
     (let phys_ent = \<lparr>ent_gname = log_gname, in_use = True, ent_name = strncpy name NAME_MAX_GDPFS @ [0]\<rparr> in
      bindR (gdpfs_file_write S s fh (dirent_bytes phys_ent) off) (\<lambda>(n, s). Inr (write_status n GDPFS_STAT_OK, s)))"

text \<open>
  The first entry in use at or after an offset: its name and the offset after it. The name is copied
  with its terminating zero, 256 bytes, into an array of 255, the last byte into the padding after it.
\<close>

function dir_read_from :: "'w log_service \<Rightarrow> u64 \<Rightarrow> 'w fsys \<Rightarrow> u64 \<Rightarrow> ((ep_stat \<times> (u8 list \<times> u64) option) \<times> 'w fsys) res" where
  "dir_read_from S fh s off =
     bindR (gdpfs_file_read S s fh (of_nat sizeof_dirent) off) (\<lambda>(bs, s).
     let phys_ent = dirent_of bs in
     if bs = [] then Inr ((GDPFS_STAT_EOF, None), s)
     else if length bs \<noteq> sizeof_dirent then Inr ((GDPFS_STAT_CORRUPT, None), s)
     else if 2 ^ 63 \<le> unat off + sizeof_dirent then Inl Out_Of_Bounds
     else if in_use phys_ent then Inr ((GDPFS_STAT_OK, Some (ent_name phys_ent, off + of_nat sizeof_dirent)), s)
     else dir_read_from S fh s (off + of_nat sizeof_dirent))"
  by pat_completeness auto
termination
proof (relation "measure (\<lambda>(S, fh, s, off). 2 ^ 63 - unat off)", goal_cases)
  case 1
  show ?case by simp
next
  case (2 S fh s off x bs s' e)
  then have "unat (off + of_nat sizeof_dirent) = unat off + sizeof_dirent"
    by (simp add: sizeof_dirent_def unat_word_ariths)
  then show ?case using 2 by (simp add: sizeof_dirent_def)
qed

declare dir_read_from.simps [simp del]

definition gdpfs_dir_read :: "'w log_service \<Rightarrow> 'w fsys \<Rightarrow> u64 \<Rightarrow> u64 \<Rightarrow> ((ep_stat \<times> (u8 list \<times> u64) option) \<times> 'w fsys) res" where
  "gdpfs_dir_read S s fh off = dir_read_from S fh s off"

definition gdpfs_dir_isempty :: "'w log_service \<Rightarrow> 'w fsys \<Rightarrow> u64 \<Rightarrow> (ep_stat \<times> bool \<times> 'w fsys) res" where
  "gdpfs_dir_isempty S s fh =
     bindR (gdpfs_dir_read S s fh 0) (\<lambda>((estat, _), s).
     if \<not> EP_STAT_ISOK estat then Inr (estat, False, s)
     else Inr (GDPFS_STAT_OK, estat = GDPFS_STAT_EOF, s))"

definition gdpfs_dir_remove :: "'w log_service \<Rightarrow> 'w fsys \<Rightarrow> u64 \<Rightarrow> cstring \<Rightarrow> gdpfs_file_type \<Rightarrow> (ep_stat \<times> 'w fsys) res" where
  "gdpfs_dir_remove S s fh name ftype =
     bindR (find_insert_offset S s fh name) (\<lambda>((estat, off, phys_ent), s).
     if estat \<noteq> GDPFS_STAT_FILE_EXISTS then Inr (estat, s)
     else
       bindR (if ftype = GDPFS_FILE_TYPE_UNKNOWN then Inr (GDPFS_STAT_OK, s)
              else
                bindR (gdpfs_file_open_type S s (ent_gname phys_ent) ftype) (\<lambda>(estat, filefh, s).
                if \<not> EP_STAT_ISOK estat then Inr (estat, s)
                else
                  bindR (if ftype = GDPFS_FILE_TYPE_DIR
                         then bindR (gdpfs_dir_isempty S s filefh) (\<lambda>(estat, isempty, s).
                              Inr (if EP_STAT_ISOK estat \<and> \<not> isempty then GDPFS_STAT_DIR_NOT_EMPTY else estat, s))
                         else Inr (estat, s)) (\<lambda>(estat, s).
                  bindR (gdpfs_file_close S s filefh) (\<lambda>(_, s). Inr (estat, s))))) (\<lambda>(estat, s).
       if \<not> EP_STAT_ISOK estat then Inr (estat, s)
       else
         bindR (gdpfs_file_write S s fh (dirent_bytes (phys_ent\<lparr>in_use := False\<rparr>)) off) (\<lambda>(n, s).
         Inr (write_status n estat, s))))"

section \<open>Paths\<close>

text \<open>
  The loop over a path: \<open>fh\<close> is the directory reached, \<open>curr_type\<close> the type the next component must have.
  A component that does not fit into the array for names is written past its end.
\<close>

function open_walk ::
  "'w log_service \<Rightarrow> gdpfs_file_type \<Rightarrow> 'w fsys \<Rightarrow> u64 \<Rightarrow> gdpfs_file_type \<Rightarrow> cstring \<Rightarrow> (ep_stat \<times> u64 \<times> 'w fsys) res" where
  "open_walk S ftype s fh curr_type path =
     (if path = [] then Inr (EP_STAT_OK, fh, s)
      else if hd path = SLASH then open_walk S ftype s fh curr_type (tl path)
      else
        let name = takeWhile (\<lambda>x. x \<noteq> SLASH) path; rest = dropWhile (\<lambda>x. x \<noteq> SLASH) path in
        if NAME_MAX_GDPFS < length name then Inl Out_Of_Bounds
        else
          bindR (find_insert_offset S s fh name) (\<lambda>((estat, _, phys_ent), s).
          bindR (gdpfs_file_close S s fh) (\<lambda>(_, s).
          if estat = GDPFS_STAT_FILE_EXISTS then
            let curr_type = (if rest = [] then ftype else curr_type) in
            bindR (gdpfs_file_open_type S s (ent_gname phys_ent) curr_type) (\<lambda>(estat, fh, s).
            if \<not> EP_STAT_ISOK estat then Inr (estat, -1, s)
            else open_walk S ftype s fh curr_type rest)
          else if EP_STAT_ISOK estat then Inr (GDPFS_STAT_BADPATH, -1, s)
          else Inr (GDPFS_STAT_CORRUPT, -1, s))))"
  by pat_completeness auto
termination
proof (relation "measure (\<lambda>(S, ftype, s, fh, ct, path). length path)", goal_cases)
  case (2 S ftype s fh ct path)
  then show ?case by (cases path) simp_all
next
  case (3 S ftype s fh ct path)
  then show ?case using length_dropWhile_le [of "\<lambda>x. x \<noteq> SLASH" "tl path"] by (cases path) (simp_all add: less_Suc_eq_le)
qed simp

declare open_walk.simps [simp del]

text \<open>The name of the root directory's log is a static variable, here the argument \<open>rootlog\<close>.\<close>

definition gdpfs_dir_open_file_at_path ::
  "'w log_service \<Rightarrow> gdp_name \<Rightarrow> 'w fsys \<Rightarrow> cstring \<Rightarrow> gdpfs_file_type \<Rightarrow> (ep_stat \<times> u64 \<times> 'w fsys) res" where
  "gdpfs_dir_open_file_at_path S rootlog s path ftype =
     (if path \<noteq> [] \<and> hd path \<noteq> SLASH then Inr (GDPFS_STAT_BADPATH, -1, s)
      else
        bindR (gdpfs_file_open_type S s rootlog GDPFS_FILE_TYPE_DIR) (\<lambda>(estat, fh, s).
        if \<not> EP_STAT_ISOK estat then Inr (estat, -1, s)
        else bindR (assertR (fh \<noteq> -1) ()) (\<lambda>_. open_walk S ftype s fh GDPFS_FILE_TYPE_DIR path)))"

text \<open>The handle of the parent directory and the last component.\<close>

definition open_parent_dir ::
  "'w log_service \<Rightarrow> gdp_name \<Rightarrow> 'w fsys \<Rightarrow> cstring \<Rightarrow> (ep_stat \<times> u64 \<times> cstring \<times> 'w fsys) res" where
  "open_parent_dir S rootlog s filepath =
     (if filepath = [] \<or> hd filepath \<noteq> SLASH then Inr (GDPFS_STAT_BADPATH, -1, [], s)
      else
        bindR (gdpfs_dir_open_file_at_path S rootlog s (dirname filepath) GDPFS_FILE_TYPE_DIR) (\<lambda>(estat, fh, s).
        Inr (estat, fh, basename filepath, s)))"

text \<open>
  Status, handle and the log name of a file that is already there. The caller may pass a null pointer
  for the latter, which the code does not check. The directory is not closed when the entry exists
  or the file cannot be created.
\<close>

definition gdpfs_dir_create_file_at_path ::
  "'w log_service \<Rightarrow> gdp_name \<Rightarrow> 'w fsys \<Rightarrow> cstring \<Rightarrow> gdpfs_file_type \<Rightarrow> bool \<Rightarrow> 16 word \<Rightarrow>
   (ep_stat \<times> u64 \<times> gdp_name \<times> 'w fsys) res" where
  "gdpfs_dir_create_file_at_path S rootlog s filepath ftype has_gname perm =
     bindR (open_parent_dir S rootlog s filepath) (\<lambda>(estat, dirfh, name, s).
     if \<not> EP_STAT_ISOK estat then Inr (estat, -1, [], s)
     else
       bindR (find_insert_offset S s dirfh name) (\<lambda>((estat, insert_offset, phys_ent), s).
       if estat = GDPFS_STAT_FILE_EXISTS then
         if has_gname then Inr (estat, -1, ent_gname phys_ent, s) else Inl Bad_Pointer
       else if \<not> EP_STAT_ISOK estat then Inr (estat, -1, [], s)
       else
         bindR (gdpfs_file_create S s ftype perm) (\<lambda>(estat, fh, newfile_gname, s).
         if \<not> EP_STAT_ISOK estat then Inr (estat, fh, [], s)
         else
           bindR (add_at_offset S s dirfh insert_offset name newfile_gname) (\<lambda>(estat, s).
           bindR (gdpfs_file_close S s dirfh) (\<lambda>(_, s).
           Inr (if EP_STAT_ISOK estat then GDPFS_STAT_OK else estat, fh, [], s))))))"

text \<open>The check of the entry that is replaced; its handle is closed again on every path.\<close>

definition replace_check :: "'w log_service \<Rightarrow> 'w fsys \<Rightarrow> gdpfs_file_type \<Rightarrow> gdp_name \<Rightarrow> (ep_stat \<times> 'w fsys) res" where
  "replace_check S s f1type gname2 =
     bindR (gdpfs_file_open S s gname2) (\<lambda>(estat, fh2, s).
     if \<not> EP_STAT_ISOK estat then Inr (estat, s)
     else
       bindR (gdpfs_file_get_info S s fh2) (\<lambda>(estat, file, s).
       bindR (if \<not> EP_STAT_ISOK estat then Inr (estat, s)
              else
                bindR (deref file) (\<lambda>p. bindR (get_file s p) (\<lambda>f.
                let f2type = file_type (info_cache f) in
                if f1type \<noteq> f2type
                then Inr (if f2type = GDPFS_FILE_TYPE_REGULAR then GDPFS_STAT_FILE_EXISTS else GDPFS_STAT_DIR_EXISTS, s)
                else if f2type = GDPFS_FILE_TYPE_DIR
                then bindR (gdpfs_dir_isempty S s fh2) (\<lambda>(estat, isempty, s).
                     Inr (if EP_STAT_ISOK estat \<and> \<not> isempty then GDPFS_STAT_DIR_NOT_EMPTY else estat, s))
                else Inr (estat, s)))) (\<lambda>(estat, s).
       bindR (gdpfs_file_close S s fh2) (\<lambda>(_, s). Inr (estat, s)))))"

text \<open>The handle of the parent directory takes the place of the argument and is not closed.\<close>

definition gdpfs_dir_replace_file_at_path ::
  "'w log_service \<Rightarrow> gdp_name \<Rightarrow> 'w fsys \<Rightarrow> u64 \<Rightarrow> cstring \<Rightarrow> (ep_stat \<times> 'w fsys) res" where
  "gdpfs_dir_replace_file_at_path S rootlog s fh filepath2 =
     bindR (gdpfs_file_gname s fh) (\<lambda>log_gname.
     bindR (gdpfs_file_get_info S s fh) (\<lambda>(estat, file, s).
     if \<not> EP_STAT_ISOK estat then Inr (estat, s)
     else
       bindR (deref file) (\<lambda>p. bindR (get_file s p) (\<lambda>f.
       let f1type = file_type (info_cache f) in
       bindR (open_parent_dir S rootlog s filepath2) (\<lambda>(estat, fh, name, s).
       if \<not> EP_STAT_ISOK estat then Inr (estat, s)
       else
         bindR (find_insert_offset S s fh name) (\<lambda>((estat, insert_offset, existing_phys_ent), s).
         bindR (if estat = GDPFS_STAT_FILE_EXISTS then replace_check S s f1type (ent_gname existing_phys_ent)
                else Inr (estat, s)) (\<lambda>(estat, s).
         if \<not> EP_STAT_ISOK estat then Inr (estat, s)
         else bindR (add_at_offset S s fh insert_offset name log_gname) (\<lambda>(estat, s).
              Inr (if EP_STAT_ISOK estat then GDPFS_STAT_OK else estat, s)))))))))"

definition gdpfs_dir_remove_file_at_path ::
  "'w log_service \<Rightarrow> gdp_name \<Rightarrow> 'w fsys \<Rightarrow> cstring \<Rightarrow> gdpfs_file_type \<Rightarrow> (ep_stat \<times> 'w fsys) res" where
  "gdpfs_dir_remove_file_at_path S rootlog s filepath ftype =
     bindR (open_parent_dir S rootlog s filepath) (\<lambda>(estat, fh, name, s).
     if \<not> EP_STAT_ISOK estat then Inr (estat, s)
     else
       bindR (gdpfs_dir_remove S s fh name ftype) (\<lambda>(estat, s).
       bindR (gdpfs_file_close S s fh) (\<lambda>(_, s). Inr (estat, s))))"

text \<open>The name of the root log is parsed by the log daemon's library.\<close>

definition init_gdpfs_dir :: "'w log_service \<Rightarrow> 'w fsys \<Rightarrow> gdp_name \<Rightarrow> (ep_stat \<times> 'w fsys) res" where
  "init_gdpfs_dir S s rootlog =
     bindR (gdpfs_file_open_init S s rootlog GDPFS_FILE_TYPE_DIR 0x169 False) (\<lambda>(estat, fh, s).
     if EP_STAT_ISOK estat then bindR (gdpfs_file_close S s fh) (\<lambda>(_, s). Inr (estat, s))
     else Inr (estat, s))"

end
