(* ===== verification/Fuse.thy ===== *)
theory Fuse
  imports Dir
begin

text \<open>
  The handlers that the kernel calls, \<^verbatim>\<open>src/gdpfs.c\<close>. A handler returns the number the kernel gets, which is
  a negated error code on failure, with its output and the new state of the file layer. The file
  structure of an open call holds the handle \<open>fh\<close>.
\<close>

unbundle bit_operations_syntax

section \<open>Constants\<close>

definition ENOENT :: int where
  "ENOENT = 2"

definition EACCES :: int where
  "EACCES = 13"

definition ENOTDIR :: int where
  "ENOTDIR = 20"

definition EISDIR :: int where
  "EISDIR = 21"

definition ENOTEMPTY :: int where
  "ENOTEMPTY = 39"

definition S_IFREG :: u32 where
  "S_IFREG = 0x8000"

definition S_IFDIR :: u32 where
  "S_IFDIR = 0x4000"

definition S_IRUSR :: "16 word" where
  "S_IRUSR = 0x100"

definition S_IWUSR :: "16 word" where
  "S_IWUSR = 0x80"

definition S_IXUSR :: "16 word" where
  "S_IXUSR = 0x40"

text \<open>The permission bits of owner, group and others.\<close>

definition gdpfs_extract_perm :: "u32 \<Rightarrow> 16 word" where
  "gdpfs_extract_perm mode = ucast (mode AND 0x1FF)"

text \<open>\<open>GDPFS_FILE_MODE_RO\<close>, \<open>RW\<close> and \<open>WO\<close> are 0, 1 and 2.\<close>

type_synonym fs_mode = int

record fuse_stat =
  st_nlink :: nat
  st_size :: u64
  st_uid :: nat
  st_gid :: nat
  st_mode :: u32

section \<open>Attributes\<close>

definition stat_type :: "gdpfs_file_type \<Rightarrow> u32 option" where
  "stat_type ft = (case ft of GDPFS_FILE_TYPE_REGULAR \<Rightarrow> Some S_IFREG | GDPFS_FILE_TYPE_DIR \<Rightarrow> Some S_IFDIR | _ \<Rightarrow> None)"

definition stat_perm :: "fs_mode \<Rightarrow> u32 \<Rightarrow> u32 option" where
  "stat_perm mode m =
     (if mode = 0 then Some (m AND NOT 0x92)
      else if mode = 1 then Some m
      else if mode = 2 then Some (m AND NOT 0x124)
      else None)"

definition gdpfs_getattr ::
  "'w log_service \<Rightarrow> gdp_name \<Rightarrow> fs_mode \<Rightarrow> nat \<Rightarrow> nat \<Rightarrow> 'w fsys \<Rightarrow> cstring \<Rightarrow> (int \<times> fuse_stat option \<times> 'w fsys) res" where
  "gdpfs_getattr S rootlog mode uid gid s path =
     bindR (gdpfs_dir_open_file_at_path S rootlog s path GDPFS_FILE_TYPE_UNKNOWN) (\<lambda>(estat, fh, s).
     if \<not> EP_STAT_ISOK estat then Inr (- ENOENT, None, s)
     else
       bindR (gdpfs_file_get_info S s fh) (\<lambda>(estat, file, s).
       bindR (if \<not> EP_STAT_ISOK estat then Inr None
              else
                bindR (deref file) (\<lambda>p. bindR (get_file s p) (\<lambda>f.
                Inr (case stat_type (file_type (info_cache f)) of
                  None \<Rightarrow> None
                | Some t \<Rightarrow> (case stat_perm mode (t OR ucast (file_perm (info_cache f))) of
                    None \<Rightarrow> None
                  | Some m \<Rightarrow> Some \<lparr>st_nlink = 1, st_size = file_size (info_cache f), st_uid = uid, st_gid = gid, st_mode = m\<rparr>))))) (\<lambda>stbuf.
       bindR (gdpfs_file_close S s fh) (\<lambda>(_, s).
       Inr (if stbuf = None then - ENOENT else 0, stbuf, s)))))"

section \<open>Opening and closing\<close>

text \<open>The lower two bits of the flags are the access mode.\<close>

definition check_open_flags :: "'w log_service \<Rightarrow> 'w fsys \<Rightarrow> u64 \<Rightarrow> u32 \<Rightarrow> (bool \<times> 'w fsys) res" where
  "check_open_flags S s fh flags =
     bindR (gdpfs_file_get_info S s fh) (\<lambda>(estat, file, s).
     if \<not> EP_STAT_ISOK estat then Inr (False, s)
     else
       bindR (deref file) (\<lambda>p. bindR (get_file s p) (\<lambda>f.
       let acc = flags AND 3; perm = file_perm (info_cache f) in
       Inr (if acc = 0 then perm AND S_IRUSR \<noteq> 0
            else if acc = 1 then perm AND S_IWUSR \<noteq> 0
            else if acc = 2 then perm AND S_IRUSR \<noteq> 0 \<and> perm AND S_IWUSR \<noteq> 0
            else False, s))))"

definition fuse_open_path ::
  "'w log_service \<Rightarrow> gdp_name \<Rightarrow> 'w fsys \<Rightarrow> cstring \<Rightarrow> gdpfs_file_type \<Rightarrow> (int \<times> u64 \<times> 'w fsys) res" where
  "fuse_open_path S rootlog s path ftype =
     bindR (gdpfs_dir_open_file_at_path S rootlog s path ftype) (\<lambda>(estat, fh, s).
     Inr (if \<not> EP_STAT_ISOK estat then - ENOENT else 0, fh, s))"

definition fuse_release_fh :: "'w log_service \<Rightarrow> 'w fsys \<Rightarrow> u64 \<Rightarrow> (int \<times> 'w fsys) res" where
  "fuse_release_fh S s fh = bindR (gdpfs_file_close S s fh) (\<lambda>(_, s). Inr (0, s))"

definition open_as ::
  "'w log_service \<Rightarrow> gdp_name \<Rightarrow> 'w fsys \<Rightarrow> cstring \<Rightarrow> gdpfs_file_type \<Rightarrow> u32 \<Rightarrow> (int \<times> u64 \<times> 'w fsys) res" where
  "open_as S rootlog s path ftype flags =
     bindR (fuse_open_path S rootlog s path ftype) (\<lambda>(rv, fh, s).
     if rv \<noteq> 0 then Inr (- ENOENT, fh, s)
     else
       bindR (check_open_flags S s fh flags) (\<lambda>(success, s).
       if \<not> success then bindR (fuse_release_fh S s fh) (\<lambda>(_, s). Inr (- EACCES, fh, s))
       else Inr (0, fh, s)))"

definition gdpfs_open :: "'w log_service \<Rightarrow> gdp_name \<Rightarrow> 'w fsys \<Rightarrow> cstring \<Rightarrow> u32 \<Rightarrow> (int \<times> u64 \<times> 'w fsys) res" where
  "gdpfs_open S rootlog s path flags = open_as S rootlog s path GDPFS_FILE_TYPE_REGULAR flags"

definition gdpfs_opendir :: "'w log_service \<Rightarrow> gdp_name \<Rightarrow> 'w fsys \<Rightarrow> cstring \<Rightarrow> u32 \<Rightarrow> (int \<times> u64 \<times> 'w fsys) res" where
  "gdpfs_opendir S rootlog s path flags = open_as S rootlog s path GDPFS_FILE_TYPE_DIR flags"

definition gdpfs_release :: "'w log_service \<Rightarrow> 'w fsys \<Rightarrow> u64 \<Rightarrow> (int \<times> 'w fsys) res" where
  "gdpfs_release S s fh = fuse_release_fh S s fh"

definition gdpfs_releasedir :: "'w log_service \<Rightarrow> 'w fsys \<Rightarrow> u64 \<Rightarrow> (int \<times> 'w fsys) res" where
  "gdpfs_releasedir S s fh = bindR (gdpfs_file_close S s fh) (\<lambda>(_, s). Inr (0, s))"

section \<open>Reading and writing\<close>

text \<open>The number of bytes is returned as a 32-bit integer.\<close>

definition gdpfs_read :: "'w log_service \<Rightarrow> 'w fsys \<Rightarrow> u64 \<Rightarrow> u64 \<Rightarrow> u64 \<Rightarrow> (int \<times> u8 list \<times> 'w fsys) res" where
  "gdpfs_read S s fh sz off =
     bindR (gdpfs_file_read S s fh sz off) (\<lambda>(bs, s). Inr (sint (of_nat (length bs) :: u32), bs, s))"

definition gdpfs_write :: "'w log_service \<Rightarrow> 'w fsys \<Rightarrow> u64 \<Rightarrow> u8 list \<Rightarrow> u64 \<Rightarrow> (int \<times> 'w fsys) res" where
  "gdpfs_write S s fh buf off =
     bindR (gdpfs_file_write S s fh buf off) (\<lambda>(n, s). Inr (sint (ucast n :: u32), s))"

definition gdpfs_truncate :: "'w log_service \<Rightarrow> gdp_name \<Rightarrow> 'w fsys \<Rightarrow> cstring \<Rightarrow> u64 \<Rightarrow> (int \<times> 'w fsys) res" where
  "gdpfs_truncate S rootlog s path len =
     bindR (fuse_open_path S rootlog s path GDPFS_FILE_TYPE_REGULAR) (\<lambda>(rv, fh, s).
     if rv \<noteq> 0 then Inr (rv, s)
     else
       bindR (gdpfs_file_ftruncate S s fh len) (\<lambda>(n, s).
       bindR (fuse_release_fh S s fh) (\<lambda>(rv, s).
       Inr (if rv \<noteq> 0 \<or> (ucast n :: u32) \<noteq> 0 then 1 else 0, s))))"

definition gdpfs_ftruncate :: "'w log_service \<Rightarrow> 'w fsys \<Rightarrow> u64 \<Rightarrow> u64 \<Rightarrow> (int \<times> 'w fsys) res" where
  "gdpfs_ftruncate S s fh len = bindR (gdpfs_file_ftruncate S s fh len) (\<lambda>(n, s). Inr (sint (ucast n :: u32), s))"

section \<open>Listing a directory\<close>

text \<open>An entry that was read lies behind the offset it was looked for at.\<close>

lemma dir_read_from_ahead:
  "dir_read_from S fh s off = Inr ((e, Some (nm, o')), s') \<Longrightarrow> unat off < unat o' \<and> unat o' < 2 ^ 63"
proof (induction S fh s off rule: dir_read_from.induct)
  case (1 S fh s off)
  obtain bs t where r: "gdpfs_file_read S s fh (of_nat sizeof_dirent) off = Inr (bs, t)" "bs \<noteq> []" "length bs = sizeof_dirent"
    "unat off + sizeof_dirent < 2 ^ 63"
    using 1(2) unfolding dir_read_from.simps [of S fh s off] by (auto simp: bindR_eq_Inr Let_def not_le split: if_splits)
  have u: "unat (off + of_nat sizeof_dirent) = unat off + sizeof_dirent" using r(4) by (simp add: sizeof_dirent_def unat_word_ariths)
  show ?case
  proof (cases "in_use (dirent_of bs)")
    case True
    then have "o' = off + of_nat sizeof_dirent" using 1(2) r unfolding dir_read_from.simps [of S fh s off] by (simp add: Let_def)
    then show ?thesis using u r(4) by (simp add: sizeof_dirent_def)
  next
    case False
    then have "dir_read_from S fh t (off + of_nat sizeof_dirent) = Inr ((e, Some (nm, o')), s')"
      using 1(2) r unfolding dir_read_from.simps [of S fh s off] by (simp add: Let_def)
    moreover have "\<not> 2 ^ 63 \<le> unat off + sizeof_dirent" "\<not> length bs \<noteq> sizeof_dirent" using r(3,4) by simp_all
    ultimately show ?thesis using 1(1) [OF r(1) refl refl r(2) _ _ False] u by (simp add: sizeof_dirent_def)
  qed
qed

text \<open>The offset the handler goes on with; it is not 0, 1 or 2, which stand for the start and the two names it makes up.\<close>

lemma readdir_ahead:
  assumes "off \<noteq> 1" "off \<noteq> 2" "gdpfs_dir_read S s fh (off - 3) = Inr ((e, Some (nm, eo)), t)"
  shows "2 ^ 64 - unat (eo + 3) < 2 ^ 64 - unat off"
proof -
  have r: "unat (off - 3) < unat eo" "unat eo < 2 ^ 63" using dir_read_from_ahead assms(3) unfolding gdpfs_dir_read_def by blast+
  have "off \<noteq> 0" using r by auto
  then have "unat off \<noteq> 0" "unat off \<noteq> 1" "unat off \<noteq> 2" using assms(1,2) by (auto simp: word_unat_eq_iff)
  then have "(3 :: u64) \<le> off" by (simp add: word_le_nat_alt)
  then have "unat (off - 3) = unat off - 3" "3 \<le> unat off" by (simp_all add: unat_sub word_le_nat_alt)
  moreover have "unat (eo + 3) = unat eo + 3" using r(2) by (simp add: unat_word_ariths)
  moreover have "unat off < 2 ^ 64" using unsigned_less [of off] by simp
  ultimately show ?thesis using r by simp
qed

text \<open>
  The loop over a directory with the callback \<open>filler\<close>, which has a state and returns 1 when its buffer
  is full. When the directory is corrupt the entry was never stored, but the code goes on with it.
\<close>

function readdir_loop ::
  "'w log_service \<Rightarrow> u64 \<Rightarrow> ('b \<Rightarrow> cstring \<Rightarrow> u64 \<Rightarrow> int \<times> 'b) \<Rightarrow> 'b \<Rightarrow> 'w fsys \<Rightarrow> u64 \<Rightarrow> ('b \<times> 'w fsys) res" where
  "readdir_loop S fh filler b s off =
     (if off = 1 then
        let (full, b) = filler b [0x2E] 2 in if full = 1 then Inr (b, s) else readdir_loop S fh filler b s 2
      else if off = 2 then
        let (full, b) = filler b [0x2E, 0x2E] 3 in if full = 1 then Inr (b, s) else readdir_loop S fh filler b s 3
      else
        bindR (gdpfs_dir_read S s fh (off - 3)) (\<lambda>((estat, ent), s).
        if estat = GDPFS_STAT_EOF then Inr (b, s)
        else case ent of
          None \<Rightarrow> Inl Bad_Pointer
        | Some (name, eoff) \<Rightarrow>
            if 0 \<notin> set name then Inl Out_Of_Bounds
            else
              let (full, b) = filler b (takeWhile (\<lambda>x. x \<noteq> 0) name) (eoff + 3) in
              if full = 1 then Inr (b, s) else readdir_loop S fh filler b s (eoff + 3)))"
  by pat_completeness auto
termination
proof (relation "measure (\<lambda>(S, fh, filler, b, s, off). 2 ^ 64 - unat off)", goal_cases)
  case (2 S fh filler b s off)
  then show ?case by auto
next
  case (4 S fh filler b s off x a t e ent s' q nm eo)
  then show ?case using readdir_ahead [of off S s fh e nm eo t] by simp
qed auto

declare readdir_loop.simps [simp del]

definition gdpfs_readdir ::
  "'w log_service \<Rightarrow> ('b \<Rightarrow> cstring \<Rightarrow> u64 \<Rightarrow> int \<times> 'b) \<Rightarrow> 'b \<Rightarrow> 'w fsys \<Rightarrow> u64 \<Rightarrow> u64 \<Rightarrow> (int \<times> 'b \<times> 'w fsys) res" where
  "gdpfs_readdir S filler b s off fh =
     bindR (readdir_loop S fh filler b s (if off = 0 then 1 else off)) (\<lambda>(b, s). Inr (0, b, s))"

section \<open>Creating and removing\<close>

definition gdpfs_create ::
  "'w log_service \<Rightarrow> gdp_name \<Rightarrow> 'w fsys \<Rightarrow> cstring \<Rightarrow> u32 \<Rightarrow> (int \<times> u64 \<times> 'w fsys) res" where
  "gdpfs_create S rootlog s filepath mode =
     (if filepath = [] then Inr (- ENOENT, -1, s)
      else if last filepath = SLASH then Inr (- EISDIR, -1, s)
      else
        bindR (gdpfs_dir_create_file_at_path S rootlog s filepath GDPFS_FILE_TYPE_REGULAR True (gdpfs_extract_perm mode))
          (\<lambda>(estat, fh, existing_logname, s).
        bindR (if estat = GDPFS_STAT_FILE_EXISTS then gdpfs_file_open_type S s existing_logname GDPFS_FILE_TYPE_REGULAR
               else Inr (estat, fh, s)) (\<lambda>(estat, fh, s).
        Inr (if \<not> EP_STAT_ISOK estat then - ENOENT else 0, fh, s))))"

definition gdpfs_unlink :: "'w log_service \<Rightarrow> gdp_name \<Rightarrow> 'w fsys \<Rightarrow> cstring \<Rightarrow> (int \<times> 'w fsys) res" where
  "gdpfs_unlink S rootlog s filepath =
     (if filepath = [] then Inr (- ENOENT, s)
      else
        bindR (gdpfs_dir_remove_file_at_path S rootlog s filepath GDPFS_FILE_TYPE_REGULAR) (\<lambda>(estat, s).
        Inr (if \<not> EP_STAT_ISOK estat then - ENOENT else 0, s)))"

text \<open>The handle of the new directory stays open.\<close>

definition gdpfs_mkdir :: "'w log_service \<Rightarrow> gdp_name \<Rightarrow> 'w fsys \<Rightarrow> cstring \<Rightarrow> u32 \<Rightarrow> (int \<times> 'w fsys) res" where
  "gdpfs_mkdir S rootlog s filepath mode =
     (if filepath = [] then Inr (- ENOENT, s)
      else
        bindR (gdpfs_dir_create_file_at_path S rootlog s filepath GDPFS_FILE_TYPE_DIR False (gdpfs_extract_perm mode))
          (\<lambda>(estat, _, _, s).
        Inr (if \<not> EP_STAT_ISOK estat then - ENOENT else 0, s)))"

definition gdpfs_rmdir :: "'w log_service \<Rightarrow> gdp_name \<Rightarrow> 'w fsys \<Rightarrow> cstring \<Rightarrow> (int \<times> 'w fsys) res" where
  "gdpfs_rmdir S rootlog s filepath =
     (if filepath = [] then Inr (- ENOENT, s)
      else
        bindR (gdpfs_dir_remove_file_at_path S rootlog s filepath GDPFS_FILE_TYPE_DIR) (\<lambda>(estat, s).
        Inr (if estat = GDPFS_STAT_DIR_NOT_EMPTY then - ENOTEMPTY
             else if \<not> EP_STAT_ISOK estat then - ENOENT else 0, s)))"

definition gdpfs_rename :: "'w log_service \<Rightarrow> gdp_name \<Rightarrow> 'w fsys \<Rightarrow> cstring \<Rightarrow> cstring \<Rightarrow> (int \<times> 'w fsys) res" where
  "gdpfs_rename S rootlog s filepath1 filepath2 =
     bindR (fuse_open_path S rootlog s filepath1 GDPFS_FILE_TYPE_UNKNOWN) (\<lambda>(rv, fh, s).
     if rv \<noteq> 0 then Inr (- ENOENT, s)
     else
       bindR (gdpfs_dir_replace_file_at_path S rootlog s fh filepath2) (\<lambda>(estat, s).
       bindR (gdpfs_file_close S s fh) (\<lambda>(_, s).
       if estat = GDPFS_STAT_FILE_EXISTS then Inr (- ENOTDIR, s)
       else if estat = GDPFS_STAT_DIR_EXISTS then Inr (- EISDIR, s)
       else if estat = GDPFS_STAT_DIR_NOT_EMPTY then Inr (- ENOTEMPTY, s)
       else if \<not> EP_STAT_ISOK estat then Inr (- ENOENT, s)
       else
         bindR (gdpfs_dir_remove_file_at_path S rootlog s filepath1 GDPFS_FILE_TYPE_UNKNOWN) (\<lambda>(estat, s).
         Inr (if \<not> EP_STAT_ISOK estat then - ENOENT else 0, s)))))"

section \<open>Permissions\<close>

text \<open>\<open>R_OK\<close>, \<open>W_OK\<close> and \<open>X_OK\<close> are 4, 2 and 1.\<close>

definition gdpfs_access :: "'w log_service \<Rightarrow> gdp_name \<Rightarrow> 'w fsys \<Rightarrow> cstring \<Rightarrow> u32 \<Rightarrow> (int \<times> 'w fsys) res" where
  "gdpfs_access S rootlog s filepath mode =
     bindR (fuse_open_path S rootlog s filepath GDPFS_FILE_TYPE_UNKNOWN) (\<lambda>(rv, fh, s).
     if rv \<noteq> 0 then Inr (-1, s)
     else
       bindR (gdpfs_file_get_info S s fh) (\<lambda>(estat, file, s).
       bindR (if \<not> EP_STAT_ISOK estat then Inr False
              else
                bindR (deref file) (\<lambda>p. bindR (get_file s p) (\<lambda>f.
                let perm = file_perm (info_cache f) in
                Inr ((mode AND 4 \<noteq> 0 \<longrightarrow> perm AND S_IRUSR \<noteq> 0) \<and> (mode AND 2 \<noteq> 0 \<longrightarrow> perm AND S_IWUSR \<noteq> 0) \<and>
                     (mode AND 1 \<noteq> 0 \<longrightarrow> perm AND S_IXUSR \<noteq> 0))))) (\<lambda>success.
       bindR (fuse_release_fh S s fh) (\<lambda>(_, s). Inr (if success then 0 else -1, s)))))"

definition gdpfs_chmod :: "'w log_service \<Rightarrow> gdp_name \<Rightarrow> 'w fsys \<Rightarrow> cstring \<Rightarrow> u32 \<Rightarrow> (int \<times> 'w fsys) res" where
  "gdpfs_chmod S rootlog s filepath mode =
     bindR (fuse_open_path S rootlog s filepath GDPFS_FILE_TYPE_UNKNOWN) (\<lambda>(rv, fh, s).
     if rv \<noteq> 0 then Inr (- ENOENT, s)
     else
       bindR (gdpfs_file_set_perm S s fh (gdpfs_extract_perm mode)) (\<lambda>(_, s).
       bindR (fuse_release_fh S s fh) (\<lambda>(_, s). Inr (0, s))))"

definition gdpfs_chown :: "'w fsys \<Rightarrow> cstring \<Rightarrow> nat \<Rightarrow> nat \<Rightarrow> int \<times> 'w fsys" where
  "gdpfs_chown s filepath uid gid = (0, s)"

definition gdpfs_utimens :: "'w fsys \<Rightarrow> cstring \<Rightarrow> int \<times> 'w fsys" where
  "gdpfs_utimens s filepath = (0, s)"

section \<open>Start and end\<close>

text \<open>
  The start before the loop of the kernel interface: \<open>None\<close> when the program exits. The arguments after
  \<open>use_cache0\<close> describe the local file system and the log daemon.
\<close>

definition gdpfs_run ::
  "'w log_service \<Rightarrow> gdp_name \<Rightarrow> ep_stat \<Rightarrow> bool \<Rightarrow> bool \<Rightarrow> nat \<Rightarrow> nat \<Rightarrow> (gdp_name \<Rightarrow> bool) \<Rightarrow> bool \<Rightarrow> 'w \<Rightarrow> (fs_mode \<times> 'w fsys) option res" where
  "gdpfs_run S rootlog gdp_stat ro use_cache0 blk quota deny dir_ok w =
     (let mode = (if ro then 0 else 1); (estat, s) = init_gdpfs_file gdp_stat mode use_cache0 blk quota deny dir_ok w in
      if \<not> EP_STAT_ISOK estat then Inr None
      else
        bindR (init_gdpfs_dir S s rootlog) (\<lambda>(estat, s).
        Inr (if \<not> EP_STAT_ISOK estat then None else Some (mode, s))))"

definition gdpfs_stop :: "'w log_service \<Rightarrow> 'w fsys \<Rightarrow> gdp_name list \<Rightarrow> 'w fsys res" where
  "gdpfs_stop S s names = stop_gdpfs_file S s names"

end
