(* ===== verification/Dir_Data.thy ===== *)
theory Dir_Data
  imports Fuse File_Props
begin

text \<open>
  What a directory holds. Its entries are a sequence of slots in the bytes of a file; the slots in use
  stand for a finite map from names to logs, and the operations on directories for lookups and
  updates of that map.
\<close>

section \<open>Entries as bytes\<close>

definition ent_wf :: "gdpfs_dir_entry_phys \<Rightarrow> bool" where
  "ent_wf e \<longleftrightarrow> length (ent_gname e) = 32 \<and> length (ent_name e) = 256 \<and> 0 \<in> set (ent_name e)"

definition cname :: "gdpfs_dir_entry_phys \<Rightarrow> cstring" where
  "cname e = takeWhile (\<lambda>x. x \<noteq> 0) (ent_name e)"

lemma dirent_length: "ent_wf e \<Longrightarrow> length (dirent_bytes e) = sizeof_dirent"
  by (simp add: ent_wf_def dirent_bytes_def sizeof_dirent_def)

lemma dirent_of_bytes:
  assumes "ent_wf e"
  shows "dirent_of (dirent_bytes e) = e"
proof -
  have "length (ent_gname e) = 32" using assms by (simp add: ent_wf_def)
  then show ?thesis by (simp add: dirent_of_def dirent_bytes_def nth_append)
qed

lemma strcmp_name: "ent_wf e \<Longrightarrow> strcmp_same (ent_name e) name = Inr (cname e = name)"
  by (simp add: strcmp_same_def ent_wf_def cname_def)

text \<open>A new entry; names have at most 255 bytes and no zero.\<close>

definition name_ok :: "cstring \<Rightarrow> bool" where
  "name_ok name \<longleftrightarrow> length name \<le> NAME_MAX_GDPFS \<and> 0 \<notin> set name"

definition new_ent :: "cstring \<Rightarrow> gdp_name \<Rightarrow> gdpfs_dir_entry_phys" where
  "new_ent name g = \<lparr>ent_gname = g, in_use = True, ent_name = strncpy name NAME_MAX_GDPFS @ [0]\<rparr>"

lemma new_ent:
  assumes "name_ok name" "length g = 32"
  shows "ent_wf (new_ent name g)" "cname (new_ent name g) = name" "in_use (new_ent name g)" "ent_gname (new_ent name g) = g"
proof -
  have t: "take NAME_MAX_GDPFS name = name" using assms(1) by (simp add: name_ok_def)
  show "ent_wf (new_ent name g)" using assms by (simp add: ent_wf_def new_ent_def strncpy_def name_ok_def NAME_MAX_GDPFS_def)
  have "takeWhile (\<lambda>x. x \<noteq> 0) (name @ zs @ [0]) = name" if "set zs \<subseteq> {0}" for zs
  proof -
    have "takeWhile (\<lambda>x. x \<noteq> 0) (name @ ys) = name @ takeWhile (\<lambda>x. x \<noteq> 0) ys" for ys
      using assms(1) by (intro takeWhile_append2) (auto simp: name_ok_def)
    then show ?thesis using that by (cases zs) auto
  qed
  from this [of "replicate (NAME_MAX_GDPFS - length name) 0"] show "cname (new_ent name g) = name"
    using t by (simp add: cname_def new_ent_def strncpy_def set_replicate_conv_if)
qed (simp_all add: new_ent_def)

section \<open>Slots\<close>

lemma drop_blocks:
  assumes "\<forall>x \<in> set xs. length x = k" "i \<le> length xs"
  shows "drop (k * i) (concat xs) = concat (drop i xs)"
  using assms
proof (induction xs arbitrary: i)
  case (Cons x xs)
  then show ?case by (cases i) simp_all
qed simp

lemma block_at:
  assumes "\<forall>x \<in> set xs. length x = k" "i < length xs"
  shows "take k (drop (k * i) (concat xs)) = xs ! i"
  using assms drop_blocks [OF assms(1), of i] by (simp add: Cons_nth_drop_Suc [symmetric])

lemma length_blocks: "\<forall>x \<in> set xs. length x = k \<Longrightarrow> length (concat xs) = k * length xs"
  by (induction xs) simp_all

definition dir_bytes :: "gdpfs_dir_entry_phys list \<Rightarrow> u8 list" where
  "dir_bytes es = concat (map dirent_bytes es)"

definition dir_data :: "('w \<Rightarrow> gdp_name \<Rightarrow> log_rec list) \<Rightarrow> 'w fsys \<Rightarrow> u64 \<Rightarrow> gdpfs_dir_entry_phys list \<Rightarrow> bool" where
  "dir_data hist s fh es \<longleftrightarrow> (\<forall>e \<in> set es. ent_wf e) \<and>
     (\<exists>c. file_data hist s fh c (sizeof_dirent * length es) \<and> take (sizeof_dirent * length es) c = dir_bytes es)"

definition dslot :: "nat \<Rightarrow> u64" where
  "dslot i = of_nat (sizeof_dirent * i)"

lemma dir_bytes_blocks: "\<forall>e \<in> set es. ent_wf e \<Longrightarrow> \<forall>x \<in> set (map dirent_bytes es). length x = sizeof_dirent"
  using dirent_length by simp

lemma dir_data_bound:
  assumes "dir_data hist s fh es"
  shows "sizeof_dirent * length es < 2 ^ 32"
proof -
  obtain c where "file_data hist s fh c (sizeof_dirent * length es)" using assms by (auto simp: dir_data_def)
  then show ?thesis using file_dataE by metis
qed

lemma unat_slot:
  assumes "sizeof_dirent * i < 2 ^ 32"
  shows "unat (dslot i) = sizeof_dirent * i" "dslot i + of_nat sizeof_dirent = dslot (Suc i)"
proof -
  show "unat (dslot i) = sizeof_dirent * i" using assms by (simp only: dslot_def unat_of_nat) simp
  show "dslot i + of_nat sizeof_dirent = dslot (Suc i)" unfolding dslot_def mult_Suc_right by (simp only: of_nat_add add.commute)
qed

lemma read_slot:
  assumes S: "svc_ok S hist" and D: "dir_data hist s fh es" and i: "i \<le> length es"
  shows "gdpfs_file_read S s fh (of_nat sizeof_dirent) (dslot i) = Inr (if i < length es then dirent_bytes (es ! i) else [], s)"
proof -
  obtain c where c: "file_data hist s fh c (sizeof_dirent * length es)" "take (sizeof_dirent * length es) c = dir_bytes es"
    and wf: "\<forall>e \<in> set es. ent_wf e" using D by (auto simp: dir_data_def)
  have b: "sizeof_dirent * i \<le> sizeof_dirent * length es" "sizeof_dirent * length es < 2 ^ 32" using i dir_data_bound [OF D] by simp_all
  from unat_slot(1) [OF le_less_trans [OF this]] have u: "unat (dslot i) = sizeof_dirent * i" .
  have z: "unat (of_nat sizeof_dirent :: u64) = sizeof_dirent" by (simp add: sizeof_dirent_def)
  have "unat (of_nat sizeof_dirent :: u64) + unat (dslot i) < 2 ^ 64" using b unfolding u z by (simp add: sizeof_dirent_def)
  from read_data [OF S c(1) this] have "gdpfs_file_read S s fh (of_nat sizeof_dirent) (dslot i) =
    Inr (take sizeof_dirent (drop (sizeof_dirent * i) (dir_bytes es)), s)" unfolding u z c(2) .
  moreover have "take sizeof_dirent (drop (sizeof_dirent * i) (dir_bytes es)) = (if i < length es then dirent_bytes (es ! i) else [])"
    using block_at [OF dir_bytes_blocks [OF wf], of i] length_blocks [OF dir_bytes_blocks [OF wf]] i by (auto simp: dir_bytes_def)
  ultimately show ?thesis by simp
qed

section \<open>Searching\<close>

text \<open>The search on slots: the status and the number of the slot.\<close>

fun find_slot :: "gdpfs_dir_entry_phys list \<Rightarrow> cstring \<Rightarrow> nat \<Rightarrow> nat option \<Rightarrow> bool \<times> nat" where
  "find_slot [] name i ins = (False, case ins of Some j \<Rightarrow> j | None \<Rightarrow> i)"
| "find_slot (e # es) name i ins =
     (if in_use e \<and> cname e = name then (True, i)
      else find_slot es name (Suc i) (if \<not> in_use e \<and> ins = None then Some i else ins))"

lemma find_slot_found:
  "find_slot es name i ins = (True, j) \<Longrightarrow> \<exists>k < length es. j = i + k \<and> in_use (es ! k) \<and> cname (es ! k) = name"
proof (induction es arbitrary: i ins)
  case (Cons e es)
  then show ?case by (cases "in_use e \<and> cname e = name") (auto, fastforce+)
qed simp

lemma find_slot_free:
  "find_slot es name i ins = (False, j) \<Longrightarrow> (\<forall>e \<in> set es. \<not> (in_use e \<and> cname e = name)) \<and>
     (case ins of Some x \<Rightarrow> j = x | None \<Rightarrow> j = i + length es \<or> (\<exists>k < length es. j = i + k \<and> \<not> in_use (es ! k)))"
proof (induction es arbitrary: i ins)
  case (Cons e es)
  have n: "\<not> (in_use e \<and> cname e = name)" using Cons.prems by (auto split: if_splits)
  then have f: "find_slot es name (Suc i) (if \<not> in_use e \<and> ins = None then Some i else ins) = (False, j)" using Cons.prems by (simp only: find_slot.simps if_False)
  note ih = Cons.IH [OF f]
  show ?case
  proof (cases "ins = None \<and> in_use e")
    case True
    then have "j = Suc i + length es \<or> (\<exists>k < length es. j = Suc i + k \<and> \<not> in_use (es ! k))" using ih by simp
    then have "j = i + length (e # es) \<or> (\<exists>k < length (e # es). j = i + k \<and> \<not> in_use ((e # es) ! k))"
    proof
      assume "\<exists>k < length es. j = Suc i + k \<and> \<not> in_use (es ! k)"
      then obtain k where "k < length es" "j = Suc i + k" "\<not> in_use (es ! k)" by blast
      then show ?thesis by (intro disjI2 exI [of _ "Suc k"]) simp
    qed simp
    then show ?thesis using ih n True by auto
  next
    case False
    then have "case ins of Some x \<Rightarrow> j = x | None \<Rightarrow> j = i \<and> \<not> in_use e" using ih by (auto split: option.splits)
    then show ?thesis using ih n by (auto split: option.splits)
  qed
qed (auto split: option.splits)

lemma find_spec:
  assumes S: "svc_ok S hist" and D: "dir_data hist s fh es" and i: "i \<le> length es"
  shows "\<exists>ent. find_from S fh name s (dslot i) (map_option dslot ins) =
    (case find_slot (drop i es) name i ins of (found, j) \<Rightarrow>
       Inr ((if found then GDPFS_STAT_FILE_EXISTS else GDPFS_STAT_OK, dslot j, if found then es ! j else ent), s))"
  using i
proof (induction "length es - i" arbitrary: i ins)
  case 0
  then have "i = length es" by simp
  then show ?case using read_slot [OF S D, of "length es"] by (simp add: find_from.simps [of S fh name s] option.map_comp split: option.split)
next
  case (Suc n)
  let ?e = "es ! i"
  have l: "i < length es" "n = length es - Suc i" "Suc i \<le> length es" using Suc.hyps(2) by simp_all
  have b: "sizeof_dirent * i + sizeof_dirent \<le> sizeof_dirent * length es" "sizeof_dirent * length es < 2 ^ 32"
    using mult_le_mono2 [OF l(3), of sizeof_dirent] dir_data_bound [OF D] by simp_all
  have u: "unat (dslot i) = sizeof_dirent * i" "dslot i + of_nat sizeof_dirent = dslot (Suc i)" by (intro unat_slot; use b in simp)+
  have wf: "ent_wf ?e" using D l(1) by (simp add: dir_data_def)
  have d: "drop i es = ?e # drop (Suc i) es" using l(1) by (simp add: Cons_nth_drop_Suc)
  have ne: "dirent_bytes ?e \<noteq> []" "length (dirent_bytes ?e) = sizeof_dirent" using dirent_length [OF wf] by (auto simp: sizeof_dirent_def)
  have step: "find_from S fh name s (dslot i) (map_option dslot ins) =
    (if in_use ?e \<and> cname ?e = name then Inr ((GDPFS_STAT_FILE_EXISTS, dslot i, ?e), s)
     else find_from S fh name s (dslot (Suc i)) (map_option dslot (if \<not> in_use ?e \<and> ins = None then Some i else ins)))"
    using read_slot [OF S D, of i] l(1) ne dirent_of_bytes [OF wf] strcmp_name [OF wf, of name] b
    by (subst find_from.simps) (auto simp: u Let_def)
  show ?case
  proof (cases "in_use ?e \<and> cname ?e = name")
    case True
    then show ?thesis by (simp add: step d)
  next
    case False
    obtain ent where "find_from S fh name s (dslot (Suc i)) (map_option dslot (if \<not> in_use ?e \<and> ins = None then Some i else ins)) =
      (case find_slot (drop (Suc i) es) name (Suc i) (if \<not> in_use ?e \<and> ins = None then Some i else ins) of (found, j) \<Rightarrow>
       Inr ((if found then GDPFS_STAT_FILE_EXISTS else GDPFS_STAT_OK, dslot j, if found then es ! j else ent), s))"
      using Suc.hyps(1) [OF l(2,3)] by blast
    then show ?thesis unfolding step d find_slot.simps if_not_P [OF False] by (intro exI [of _ ent])
  qed
qed

section \<open>Changing a slot\<close>

definition set_slot :: "gdpfs_dir_entry_phys list \<Rightarrow> nat \<Rightarrow> gdpfs_dir_entry_phys \<Rightarrow> gdpfs_dir_entry_phys list" where
  "set_slot es j e = (if j < length es then es[j := e] else es @ [e])"

text \<open>The largest number of slots the index and the cache file have room for.\<close>

definition dir_room :: "'w fsys \<Rightarrow> nat \<Rightarrow> bool" where
  "dir_room s n \<longleftrightarrow> sizeof_dirent * n < 2 ^ 32 \<and> (use_cache s \<longrightarrow> sizeof_dirent * n \<le> cquota_f s)"

lemma dir_room_mono: "dir_room s n \<Longrightarrow> m \<le> n \<Longrightarrow> dir_room s m"
  unfolding dir_room_def by (meson le_less_trans le_trans mult_le_mono2)

lemma dir_bytes_simps [simp]: "dir_bytes [] = []" "dir_bytes (e # es) = dirent_bytes e @ dir_bytes es" "dir_bytes (xs @ ys) = dir_bytes xs @ dir_bytes ys"
  by (simp_all add: dir_bytes_def)

lemma dir_bytes_length: "\<forall>e \<in> set es. ent_wf e \<Longrightarrow> length (dir_bytes es) = sizeof_dirent * length es"
  using length_blocks [OF dir_bytes_blocks] by (simp add: dir_bytes_def)

lemma overlay_slot:
  assumes wf: "\<forall>e \<in> set es. ent_wf e" "ent_wf e" and j: "j \<le> length es"
    and c: "take (sizeof_dirent * length es) c = dir_bytes es" "sizeof_dirent * length es \<le> length c"
  shows "take (sizeof_dirent * length (set_slot es j e)) (overlay c (sizeof_dirent * j) (dirent_bytes e)) = dir_bytes (set_slot es j e)"
proof -
  let ?k = sizeof_dirent let ?b = "dirent_bytes e"
  have b: "length ?b = ?k" "?b \<noteq> []" using dirent_length [OF wf(2)] by (auto simp: sizeof_dirent_def)
  have kj: "?k * j \<le> ?k * length es" using j by simp
  have c': "c = dir_bytes es @ drop (?k * length es) c" using c(1) by (metis append_take_drop_id)
  have o: "overlay c (?k * j) ?b = take (?k * j) c @ ?b @ drop (?k * j + ?k) c" using b le_trans [OF kj c(2)] by (simp add: overlay_def)
  have "es = take j es @ drop j es" by simp
  then have e: "dir_bytes es = dir_bytes (take j es) @ dir_bytes (drop j es)" by (metis dir_bytes_simps(3))
  have lt: "length (dir_bytes (take j es)) = ?k * j" using dir_bytes_length [of "take j es"] wf(1) j by (auto dest: in_set_takeD)
  have t: "take (?k * j) c = dir_bytes (take j es)" by (subst c') (simp add: e lt)
  show ?thesis
  proof (cases "j < length es")
    case True
    have d: "drop j es = es ! j # drop (Suc j) es" using True by (simp add: Cons_nth_drop_Suc)
    have "length (dirent_bytes (es ! j)) = ?k" using dirent_length wf(1) True by simp
    then have dr: "drop (?k * j + ?k) c = dir_bytes (drop (Suc j) es) @ drop (?k * length es) c" by (subst c') (simp add: e lt d)
    have ss: "set_slot es j e = take j es @ e # drop (Suc j) es" using True by (simp add: set_slot_def upd_conv_take_nth_drop)
    have l: "length (dir_bytes (set_slot es j e)) = ?k * length (set_slot es j e)"
      by (rule dir_bytes_length) (use wf in \<open>auto simp: ss dest: in_set_takeD in_set_dropD\<close>)
    have "overlay c (?k * j) ?b = dir_bytes (set_slot es j e) @ drop (?k * length es) c" unfolding o t dr by (simp add: ss)
    then show ?thesis using l by simp
  next
    case False
    then have "j = length es" "set_slot es j e = es @ [e]" using j by (simp_all add: set_slot_def)
    moreover have "length (dir_bytes es @ ?b) = ?k * length (es @ [e])" using dir_bytes_length [OF wf(1)] b by simp
    ultimately show ?thesis unfolding o t using b by (simp add: dir_bytes_def)
  qed
qed

lemma write_slot:
  assumes S: "svc_ok S hist" and D: "dir_data hist s fh es" and e: "ent_wf e" and j: "j \<le> length es" and r: "dir_room s (Suc j)"
  shows "\<exists>s'. gdpfs_file_write S s fh (dirent_bytes e) (dslot j) = Inr (of_nat sizeof_dirent, s') \<and> dir_data hist s' fh (set_slot es j e) \<and>
    use_cache s' = use_cache s \<and> cquota_f s' = cquota_f s"
proof -
  obtain c where c: "file_data hist s fh c (sizeof_dirent * length es)" "take (sizeof_dirent * length es) c = dir_bytes es"
    and wf: "\<forall>e \<in> set es. ent_wf e" using D by (auto simp: dir_data_def)
  have b: "length (dirent_bytes e) = sizeof_dirent" "dirent_bytes e \<noteq> []" using dirent_length [OF e] by (auto simp: sizeof_dirent_def)
  have r': "sizeof_dirent * j + sizeof_dirent < 2 ^ 32" "use_cache s \<longrightarrow> sizeof_dirent * j + sizeof_dirent \<le> cquota_f s"
    using r by (simp_all add: dir_room_def add.commute)
  then have u: "unat (dslot j) = sizeof_dirent * j" by (intro unat_slot) simp
  have "fits s (dslot j) (dirent_bytes e)" using r' u b by (simp add: fits_def)
  from write_data [OF S c(1) this b(2)] obtain s' where w: "gdpfs_file_write S s fh (dirent_bytes e) (dslot j) = Inr (of_nat sizeof_dirent, s')"
    "file_data hist s' fh (overlay c (sizeof_dirent * j) (dirent_bytes e)) (max (sizeof_dirent * length es) (sizeof_dirent * j + sizeof_dirent))"
    "use_cache s' = use_cache s" "cquota_f s' = cquota_f s" unfolding b u by (elim exE conjE)
  have "max (sizeof_dirent * length es) (sizeof_dirent * j + sizeof_dirent) = sizeof_dirent * length (set_slot es j e)"
  proof (cases "j < length es")
    case True
    then have "sizeof_dirent * Suc j \<le> sizeof_dirent * length es" by (intro mult_le_mono2) simp
    then show ?thesis using True by (simp add: set_slot_def)
  qed (use j in \<open>simp add: set_slot_def\<close>)
  moreover have "sizeof_dirent * length es \<le> length c" using file_dataE [OF c(1)] by metis
  moreover have "\<forall>x \<in> set (set_slot es j e). ent_wf x"
    using wf e set_update_subset_insert [of es j e] by (auto simp: set_slot_def)
  ultimately have "dir_data hist s' fh (set_slot es j e)"
    using w(2) overlay_slot [OF wf e j c(2)] unfolding dir_data_def by auto
  then show ?thesis using w(1,3,4) by blast
qed

section \<open>Directories as maps\<close>

fun dir_map :: "gdpfs_dir_entry_phys list \<Rightarrow> cstring \<Rightarrow> gdp_name option" where
  "dir_map [] n = None"
| "dir_map (e # es) n = (if in_use e \<and> cname e = n then Some (ent_gname e) else dir_map es n)"

definition uniq :: "gdpfs_dir_entry_phys list \<Rightarrow> bool" where
  "uniq es \<longleftrightarrow> distinct (map cname (filter in_use es))"

lemma dir_map_append: "dir_map (xs @ ys) n = (case dir_map xs n of Some g \<Rightarrow> Some g | None \<Rightarrow> dir_map ys n)"
  by (induction xs) auto

lemma dir_map_none: "dir_map es n = None \<longleftrightarrow> (\<forall>e \<in> set es. \<not> (in_use e \<and> cname e = n))"
  by (induction es) auto

lemma dir_map_dom: "dom (dir_map es) = cname ` {e \<in> set es. in_use e}"
  by (rule set_eqI) (simp only: domIff dir_map_none, auto)

lemma split_at: "j < length es \<Longrightarrow> \<exists>xs ys. es = xs @ es ! j # ys \<and> length xs = j"
  by (intro exI [of _ "take j es"] exI [of _ "drop (Suc j) es"]) (simp add: id_take_nth_drop)

lemma uniq_other:
  assumes "uniq (xs @ a # ys)" "in_use a"
  shows "dir_map xs (cname a) = None" "dir_map ys (cname a) = None"
proof -
  have "cname a \<notin> cname ` {x \<in> set xs. in_use x}" "cname a \<notin> cname ` {x \<in> set ys. in_use x}"
    using assms by (simp_all add: uniq_def)
  then show "dir_map xs (cname a) = None" "dir_map ys (cname a) = None"
    unfolding dir_map_none by (blast dest: sym intro: rev_image_eqI)+
qed

text \<open>An entry replaces one with the same name or an unused one.\<close>

lemma link_same:
  assumes "uniq (xs @ a # ys)" "in_use a" "cname a = n" "in_use e" "cname e = n"
  shows "dir_map (xs @ e # ys) = (dir_map (xs @ a # ys))(n \<mapsto> ent_gname e)" "uniq (xs @ e # ys)"
proof -
  have "dir_map xs n = None" using uniq_other [OF assms(1,2)] assms(3) by simp
  then show "dir_map (xs @ e # ys) = (dir_map (xs @ a # ys))(n \<mapsto> ent_gname e)"
    using assms by (auto simp: fun_eq_iff dir_map_append split: option.split)
  show "uniq (xs @ e # ys)" using assms by (auto simp: uniq_def)
qed

lemma link_free:
  assumes "uniq (xs @ zs @ ys)" "\<forall>a \<in> set zs. \<not> in_use a" "dir_map (xs @ zs @ ys) n = None" "in_use e" "cname e = n"
  shows "dir_map (xs @ e # ys) = (dir_map (xs @ zs @ ys))(n \<mapsto> ent_gname e)" "uniq (xs @ e # ys)"
proof -
  have z: "dir_map zs m = None" "filter in_use zs = []" for m using assms(2) by (auto simp: dir_map_none filter_empty_conv)
  have n: "dir_map xs n = None" "dir_map ys n = None" using assms(3) z by (auto simp: dir_map_append split: option.splits)
  then show "dir_map (xs @ e # ys) = (dir_map (xs @ zs @ ys))(n \<mapsto> ent_gname e)"
    using assms z by (auto simp: fun_eq_iff dir_map_append split: option.split)
  show "uniq (xs @ e # ys)" using assms n z(2) unfolding uniq_def dir_map_none by auto
qed

lemma unlink_map:
  assumes "uniq (xs @ a # ys)" "in_use a" "cname a = n" "\<not> in_use e"
  shows "dir_map (xs @ e # ys) = (dir_map (xs @ a # ys))(n := None)" "uniq (xs @ e # ys)"
proof -
  have n: "dir_map xs n = None" "dir_map ys n = None" using uniq_other [OF assms(1,2)] assms(3) by simp_all
  then show "dir_map (xs @ e # ys) = (dir_map (xs @ a # ys))(n := None)"
    using assms by (auto simp: fun_eq_iff dir_map_append split: option.split)
  show "uniq (xs @ e # ys)" using assms by (auto simp: uniq_def)
qed

lemma link_slots:
  assumes u: "uniq es" and f: "find_slot es name 0 None = (found, j)" and e: "in_use e" "cname e = name"
  shows "j \<le> length es" "dir_map (set_slot es j e) = (dir_map es)(name \<mapsto> ent_gname e)" "uniq (set_slot es j e)"
    "length (set_slot es j e) \<le> Suc (length es)" "found \<longleftrightarrow> dir_map es name \<noteq> None"
proof -
  have "j \<le> length es \<and> dir_map (set_slot es j e) = (dir_map es)(name \<mapsto> ent_gname e) \<and> uniq (set_slot es j e) \<and> (found \<longleftrightarrow> dir_map es name \<noteq> None)"
  proof (cases found)
    case True
    then have j: "j < length es" "in_use (es ! j)" "cname (es ! j) = name" using find_slot_found [of es name 0 None j] f by auto
    obtain xs ys where s: "es = xs @ es ! j # ys" "length xs = j" using split_at [OF j(1)] by blast
    have ss: "set_slot es j e = xs @ e # ys" using j(1) s by (simp add: set_slot_def) (metis list_update_length)
    have "dir_map es name \<noteq> None" using j by (auto simp: dir_map_none)
    then show ?thesis using link_same [of xs "es ! j" ys name e] u s(1) j e ss True by (auto simp: less_imp_le)
  next
    case False
    then have n: "dir_map es name = None" and c: "j = length es \<or> (j < length es \<and> \<not> in_use (es ! j))"
      using find_slot_free [of es name 0 None j] f by (auto simp: dir_map_none)
    from c obtain xs zs ys where s: "es = xs @ zs @ ys" "\<forall>a \<in> set zs. \<not> in_use a" "set_slot es j e = xs @ e # ys"
    proof
      assume "j = length es"
      then show thesis using that [of es "[]" "[]"] by (simp add: set_slot_def)
    next
      assume j: "j < length es \<and> \<not> in_use (es ! j)"
      then obtain xs ys where s: "es = xs @ es ! j # ys" "length xs = j" using split_at by blast
      have "set_slot es j e = xs @ e # ys" using j s by (simp add: set_slot_def) (metis list_update_length)
      then show thesis using that [of xs "[es ! j]" ys] s j by simp
    qed
    then show ?thesis using link_free [of xs zs ys name e] u e n c False by auto
  qed
  then show "j \<le> length es" "dir_map (set_slot es j e) = (dir_map es)(name \<mapsto> ent_gname e)" "uniq (set_slot es j e)"
    "found \<longleftrightarrow> dir_map es name \<noteq> None" by simp_all
qed (simp add: set_slot_def)

lemma dir_map_at: "uniq es \<Longrightarrow> j < length es \<Longrightarrow> in_use (es ! j) \<Longrightarrow> dir_map es (cname (es ! j)) = Some (ent_gname (es ! j))"
  using split_at [of j es] uniq_other(1) by (auto simp: dir_map_append) (metis dir_map.simps(2) dir_map_append option.simps(4))

section \<open>The operations on maps\<close>

text \<open>
  A lookup, and the changes: a name is entered the way a file is created or replaced, at the place the
  search returns, and removed without a look at the file.
\<close>

definition dir_lookup :: "'w log_service \<Rightarrow> u64 \<Rightarrow> 'w fsys \<Rightarrow> cstring \<Rightarrow> (gdp_name option \<times> 'w fsys) res" where
  "dir_lookup S fh s name = bindR (find_insert_offset S s fh name) (\<lambda>((estat, _, ent), s).
     Inr (if estat = GDPFS_STAT_FILE_EXISTS then Some (ent_gname ent) else None, s))"

datatype dir_op = Link cstring gdp_name | Unlink cstring

fun run_dir_op :: "'w log_service \<Rightarrow> u64 \<Rightarrow> 'w fsys \<Rightarrow> dir_op \<Rightarrow> 'w fsys res" where
  "run_dir_op S fh s (Link name g) = bindR (find_insert_offset S s fh name) (\<lambda>((estat, off, _), s).
     bindR (add_at_offset S s fh off name g) (\<lambda>(estat, s). assertR (EP_STAT_ISOK estat) s))"
| "run_dir_op S fh s (Unlink name) = bindR (gdpfs_dir_remove S s fh name GDPFS_FILE_TYPE_UNKNOWN) (\<lambda>(estat, s). assertR (EP_STAT_ISOK estat) s)"

fun spec_dir_op :: "dir_op \<Rightarrow> (cstring \<rightharpoonup> gdp_name) \<Rightarrow> (cstring \<rightharpoonup> gdp_name)" where
  "spec_dir_op (Link name g) m = m(name \<mapsto> g)"
| "spec_dir_op (Unlink name) m = m(name := None)"

fun dir_op_ok :: "dir_op \<Rightarrow> bool" where
  "dir_op_ok (Link name g) = (name_ok name \<and> length g = 32)"
| "dir_op_ok (Unlink name) = True"

lemma find_in_dir:
  assumes "svc_ok S hist" "dir_data hist s fh es"
  shows "\<exists>ent. find_insert_offset S s fh name = (case find_slot es name 0 None of (found, j) \<Rightarrow>
       Inr ((if found then GDPFS_STAT_FILE_EXISTS else GDPFS_STAT_OK, dslot j, if found then es ! j else ent), s))"
  using find_spec [OF assms, of 0 name None] by (simp add: find_insert_offset_def dslot_def)

lemma lookup_in_dir:
  assumes "svc_ok S hist" "dir_data hist s fh es" "uniq es"
  shows "dir_lookup S fh s name = Inr (dir_map es name, s)"
proof -
  obtain found j where f: "find_slot es name 0 None = (found, j)" by (cases "find_slot es name 0 None")
  obtain ent where "find_insert_offset S s fh name = Inr ((if found then GDPFS_STAT_FILE_EXISTS else GDPFS_STAT_OK, dslot j, if found then es ! j else ent), s)"
    using find_in_dir [OF assms(1,2), of name] f by auto
  moreover have "dir_map es name = Some (ent_gname (es ! j))" if found
    using find_slot_found [of es name 0 None j] f that dir_map_at [OF assms(3)] by auto
  moreover have "dir_map es name = None" if "\<not> found" using find_slot_free [of es name 0 None j] f that by (simp add: dir_map_none)
  ultimately show ?thesis by (cases found) (simp_all add: dir_lookup_def)
qed

lemma link_in_dir:
  assumes S: "svc_ok S hist" and D: "dir_data hist s fh es" and u: "uniq es" and r: "dir_room s (Suc (length es))"
    and n: "name_ok name" "length g = 32"
  shows "\<exists>s' es' e off ent. find_insert_offset S s fh name = Inr ((e, off, ent), s) \<and> (e = GDPFS_STAT_OK \<longleftrightarrow> dir_map es name = None) \<and>
    add_at_offset S s fh off name g = Inr (GDPFS_STAT_OK, s') \<and> dir_data hist s' fh es' \<and> uniq es' \<and>
    dir_map es' = (dir_map es)(name \<mapsto> g) \<and> length es' \<le> Suc (length es) \<and> use_cache s' = use_cache s \<and> cquota_f s' = cquota_f s"
proof -
  obtain found j where f: "find_slot es name 0 None = (found, j)" by (cases "find_slot es name 0 None")
  obtain ent where e: "find_insert_offset S s fh name = Inr ((if found then GDPFS_STAT_FILE_EXISTS else GDPFS_STAT_OK, dslot j, if found then es ! j else ent), s)"
    using find_in_dir [OF S D, of name] f by auto
  note N = new_ent [OF n]
  note L = link_slots [OF u f N(3,2)]
  obtain s' where w: "gdpfs_file_write S s fh (dirent_bytes (new_ent name g)) (dslot j) = Inr (of_nat sizeof_dirent, s')"
    "dir_data hist s' fh (set_slot es j (new_ent name g))" "use_cache s' = use_cache s" "cquota_f s' = cquota_f s"
    using write_slot [OF S D N(1) L(1) dir_room_mono [OF r]] L(1) by auto
  have "add_at_offset S s fh (dslot j) name g = Inr (GDPFS_STAT_OK, s')"
    using w(1) by (simp add: add_at_offset_def new_ent_def write_status_def sizeof_dirent_def)
  then show ?thesis using e w(2-4) L N(4) by (intro exI [of _ s'] exI [of _ "set_slot es j (new_ent name g)"] exI conjI) auto
qed

lemma unlink_in_dir:
  assumes S: "svc_ok S hist" and D: "dir_data hist s fh es" and u: "uniq es" and r: "dir_room s (length es)"
  shows "\<exists>s' es'. gdpfs_dir_remove S s fh name GDPFS_FILE_TYPE_UNKNOWN = Inr (GDPFS_STAT_OK, s') \<and> dir_data hist s' fh es' \<and> uniq es' \<and>
    dir_map es' = (dir_map es)(name := None) \<and> length es' = length es \<and> use_cache s' = use_cache s \<and> cquota_f s' = cquota_f s"
proof -
  obtain found j where f: "find_slot es name 0 None = (found, j)" by (cases "find_slot es name 0 None")
  obtain ent where e: "find_insert_offset S s fh name = Inr ((if found then GDPFS_STAT_FILE_EXISTS else GDPFS_STAT_OK, dslot j, if found then es ! j else ent), s)"
    using find_in_dir [OF S D, of name] f by auto
  show ?thesis
  proof (cases found)
    case True
    then have j: "j < length es" "in_use (es ! j)" "cname (es ! j) = name" using find_slot_found [of es name 0 None j] f by auto
    let ?e = "(es ! j)\<lparr>in_use := False\<rparr>"
    have wf: "ent_wf ?e" using D j(1) by (simp add: dir_data_def ent_wf_def)
    obtain s' where w: "gdpfs_file_write S s fh (dirent_bytes ?e) (dslot j) = Inr (of_nat sizeof_dirent, s')"
      "dir_data hist s' fh (set_slot es j ?e)" "use_cache s' = use_cache s" "cquota_f s' = cquota_f s"
      using write_slot [OF S D wf less_imp_le [OF j(1)] dir_room_mono [OF r]] j(1) by auto
    obtain xs ys where s: "es = xs @ es ! j # ys" "length xs = j" using split_at [OF j(1)] by blast
    have ss: "set_slot es j ?e = xs @ ?e # ys" using j(1) s by (simp add: set_slot_def) (metis list_update_length)
    have "uniq (xs @ es ! j # ys)" using u s(1) by simp
    from unlink_map [OF this j(2,3), of ?e] have "dir_map (set_slot es j ?e) = (dir_map es)(name := None)" "uniq (set_slot es j ?e)"
      using ss s(1) by simp_all
    moreover have "gdpfs_dir_remove S s fh name GDPFS_FILE_TYPE_UNKNOWN = Inr (GDPFS_STAT_OK, s')"
      using e w(1) True by (simp add: gdpfs_dir_remove_def EP_STAT_ISOK_def write_status_def sizeof_dirent_def)
    ultimately show ?thesis using w(2-4) j(1) by (intro exI [of _ s'] exI [of _ "set_slot es j ?e"]) (simp add: set_slot_def)
  next
    case False
    then have "dir_map es name = None" using find_slot_free [of es name 0 None j] f by (simp add: dir_map_none)
    then have "(dir_map es)(name := None) = dir_map es" by auto
    then show ?thesis using e False D u by (intro exI [of _ s] exI [of _ es]) (simp add: gdpfs_dir_remove_def)
  qed
qed

end
