(* ===== verification/Dir_Props.thy ===== *)
theory Dir_Props
  imports Dir_Data
begin

text \<open>
  Properties of directories: the operations refine a finite map from names to logs, and a listing of a
  directory, in pages of any size, has every name once.
\<close>

section \<open>The contract of a directory\<close>

text \<open>
  A table of names: what it stands for, how many slots it takes, how many it may take, its changes and its
  lookups. A change takes at most one more slot.
\<close>

locale name_table =
  fixes holds :: "'s \<Rightarrow> (cstring \<rightharpoonup> gdp_name) \<Rightarrow> nat \<Rightarrow> bool"
    and has_room :: "'s \<Rightarrow> nat \<Rightarrow> bool"
    and step :: "'s \<Rightarrow> dir_op \<Rightarrow> 's res"
    and look :: "'s \<Rightarrow> cstring \<Rightarrow> (gdp_name option \<times> 's) res"
  assumes step_law: "holds s m n \<Longrightarrow> has_room s (Suc n) \<Longrightarrow> dir_op_ok x \<Longrightarrow>
      \<exists>s'. step s x = Inr s' \<and> holds s' (spec_dir_op x m) (Suc n) \<and> has_room s' = has_room s"
    and look_law: "holds s m n \<Longrightarrow> look s name = Inr (m name, s)"
    and room_law: "has_room s n \<Longrightarrow> k \<le> n \<Longrightarrow> has_room s k"
begin

lemma dir_steps:
  assumes "holds s m n" "has_room s (n + length xs)" "\<forall>x \<in> set xs. dir_op_ok x"
  shows "\<exists>s'. foldR step xs s = Inr s' \<and> holds s' (fold spec_dir_op xs m) (n + length xs)"
  using assms
proof (induction xs arbitrary: s m n)
  case (Cons x xs)
  have "has_room s (Suc n)" by (rule room_law [OF Cons.prems(2)]) simp
  then obtain s' where s': "step s x = Inr s'" "holds s' (spec_dir_op x m) (Suc n)" "has_room s' = has_room s"
    using step_law [OF Cons.prems(1)] Cons.prems(3) by auto
  then show ?case using Cons.IH [OF s'(2)] Cons.prems(2,3) by simp
qed simp

lemma lookup_after:
  assumes "holds s m n" "has_room s (n + length xs)" "\<forall>x \<in> set xs. dir_op_ok x"
  shows "\<exists>s'. foldR step xs s = Inr s' \<and> look s' name = Inr (fold spec_dir_op xs m name, s')"
  using dir_steps [OF assms] look_law by blast

end

definition dir_holds :: "'w log_service \<Rightarrow> ('w \<Rightarrow> gdp_name \<Rightarrow> log_rec list) \<Rightarrow> u64 \<Rightarrow> 'w fsys \<Rightarrow> (cstring \<rightharpoonup> gdp_name) \<Rightarrow> nat \<Rightarrow> bool" where
  "dir_holds S hist fh s m n \<longleftrightarrow> svc_ok S hist \<and> (\<exists>es. dir_data hist s fh es \<and> uniq es \<and> dir_map es = m \<and> length es \<le> n)"

lemma dir_room_cong: "use_cache t = use_cache s \<Longrightarrow> cquota_f t = cquota_f s \<Longrightarrow> dir_room t = dir_room s"
  by (rule ext) (simp add: dir_room_def)

lemma run_dir_op_law:
  assumes h: "dir_holds S hist fh s m n" and r: "dir_room s (Suc n)" and x: "dir_op_ok x"
  shows "\<exists>s'. run_dir_op S fh s x = Inr s' \<and> dir_holds S hist fh s' (spec_dir_op x m) (Suc n) \<and> dir_room s' = dir_room s"
proof -
  obtain es where S: "svc_ok S hist" and D: "dir_data hist s fh es" and u: "uniq es" and m: "dir_map es = m" and l: "length es \<le> n"
    using h by (auto simp: dir_holds_def)
  show ?thesis
  proof (cases x)
    case (Link name g)
    then have n: "name_ok name" "length g = 32" using x by simp_all
    have "dir_room s (Suc (length es))" by (rule dir_room_mono [OF r]) (use l in simp)
    from link_in_dir [OF S D u this n] obtain s' es' e off ent where a: "find_insert_offset S s fh name = Inr ((e, off, ent), s)"
      "add_at_offset S s fh off name g = Inr (GDPFS_STAT_OK, s')" "dir_data hist s' fh es'" "uniq es'"
      "dir_map es' = (dir_map es)(name \<mapsto> g)" "length es' \<le> Suc (length es)" "use_cache s' = use_cache s" "cquota_f s' = cquota_f s"
      by (elim exE conjE)
    have "dir_holds S hist fh s' (spec_dir_op x m) (Suc n)" unfolding dir_holds_def
      using S a(3-6) l m Link by (intro conjI exI [of _ es']) simp_all
    moreover have "run_dir_op S fh s x = Inr s'" using a(1,2) Link by (simp add: EP_STAT_ISOK_def)
    ultimately show ?thesis using dir_room_cong [OF a(7,8)] by blast
  next
    case (Unlink name)
    have "dir_room s (length es)" by (rule dir_room_mono [OF r]) (use l in simp)
    from unlink_in_dir [OF S D u this, of name] obtain s' es' where
      a: "gdpfs_dir_remove S s fh name GDPFS_FILE_TYPE_UNKNOWN = Inr (GDPFS_STAT_OK, s')" "dir_data hist s' fh es'" "uniq es'"
      "dir_map es' = (dir_map es)(name := None)" "length es' = length es" "use_cache s' = use_cache s" "cquota_f s' = cquota_f s"
      by (elim exE conjE)
    have "dir_holds S hist fh s' (spec_dir_op x m) (Suc n)" unfolding dir_holds_def
      using S a(2-5) l m Unlink by (intro conjI exI [of _ es']) simp_all
    moreover have "run_dir_op S fh s x = Inr s'" using a(1) Unlink by (simp add: EP_STAT_ISOK_def)
    ultimately show ?thesis using dir_room_cong [OF a(6,7)] by blast
  qed
qed

interpretation dtab: name_table "dir_holds S hist fh" dir_room "run_dir_op S fh" "dir_lookup S fh"
  for S hist fh
proof unfold_locales
  show "dir_lookup S fh s name = Inr (m name, s)" if h: "dir_holds S hist fh s m n" for s m n name
  proof -
    obtain es where "svc_ok S hist" "dir_data hist s fh es" "uniq es" "dir_map es = m" using h by (auto simp: dir_holds_def)
    then show ?thesis using lookup_in_dir by metis
  qed
qed (rule run_dir_op_law, assumption+, rule dir_room_mono)

section \<open>Listings\<close>

text \<open>
  The names a directory lists and the offsets to go on at, and a caller's buffer with room for \<open>k\<close>
  names.
\<close>

fun entries :: "nat \<Rightarrow> gdpfs_dir_entry_phys list \<Rightarrow> (cstring \<times> u64) list" where
  "entries i [] = []"
| "entries i (e # es) = (if in_use e then (cname e, dslot (Suc i) + 3) # entries (Suc i) es else entries (Suc i) es)"

definition listing :: "gdpfs_dir_entry_phys list \<Rightarrow> (cstring \<times> u64) list" where
  "listing es = ([0x2E], 2) # ([0x2E, 0x2E], 3) # entries 0 es"

definition page :: "nat \<Rightarrow> (cstring \<times> u64) list \<Rightarrow> cstring \<Rightarrow> u64 \<Rightarrow> int \<times> (cstring \<times> u64) list" where
  "page k b n off = (if length b < k then (0, b @ [(n, off)]) else (1, b))"

lemma entries_names: "map fst (entries i es) = map cname (filter in_use es)"
  by (induction es arbitrary: i) simp_all

lemma entries_at:
  "j < length (entries i es) \<Longrightarrow>
     \<exists>n < length es. snd (entries i es ! j) = dslot (Suc (i + n)) + 3 \<and> drop (Suc j) (entries i es) = entries (Suc (i + n)) (drop (Suc n) es)"
proof (induction es arbitrary: i j)
  case (Cons e es)
  show ?case
  proof (cases "in_use e \<and> j = 0")
    case True
    then show ?thesis by (intro exI [of _ 0]) simp
  next
    case False
    define j' where "j' = (if in_use e then j - 1 else j)"
    have "j' < length (entries (Suc i) es)" using Cons.prems False by (auto simp: j'_def split: if_splits)
    from Cons.IH [OF this] obtain n where "n < length es" "snd (entries (Suc i) es ! j') = dslot (Suc (Suc i + n)) + 3"
      "drop (Suc j') (entries (Suc i) es) = entries (Suc (Suc i + n)) (drop (Suc n) es)" by (elim exE conjE)
    then show ?thesis using False by (intro exI [of _ "Suc n"]) (auto simp: j'_def split: if_splits)
  qed
qed simp

text \<open>Reading from a slot returns the next one in use.\<close>

lemma read_next:
  assumes S: "svc_ok S hist" and D: "dir_data hist s fh es" and i: "i \<le> length es"
  shows "case entries i (drop i es) of
      [] \<Rightarrow> dir_read_from S fh s (dslot i) = Inr ((GDPFS_STAT_EOF, None), s)
    | (n, off) # r \<Rightarrow> \<exists>j nm. i \<le> j \<and> j < length es \<and> dir_read_from S fh s (dslot i) = Inr ((GDPFS_STAT_OK, Some (nm, dslot (Suc j))), s) \<and>
        0 \<in> set nm \<and> takeWhile (\<lambda>x. x \<noteq> 0) nm = n \<and> off = dslot (Suc j) + 3 \<and> r = entries (Suc j) (drop (Suc j) es)"
  using i
proof (induction "length es - i" arbitrary: i)
  case 0
  then have "i = length es" by simp
  then show ?case using read_slot [OF S D, of "length es"] by (simp add: dir_read_from.simps [of S fh s])
next
  case (Suc n)
  let ?e = "es ! i"
  have l: "i < length es" "n = length es - Suc i" "Suc i \<le> length es" using Suc.hyps(2) by simp_all
  have b: "sizeof_dirent * i + sizeof_dirent \<le> sizeof_dirent * length es" "sizeof_dirent * length es < 2 ^ 32"
    using mult_le_mono2 [OF l(3), of sizeof_dirent] dir_data_bound [OF D] by simp_all
  have u: "unat (dslot i) = sizeof_dirent * i" "dslot i + of_nat sizeof_dirent = dslot (Suc i)" by (intro unat_slot; use b in simp)+
  have wf: "ent_wf ?e" using D l(1) by (simp add: dir_data_def)
  have ne: "dirent_bytes ?e \<noteq> []" "length (dirent_bytes ?e) = sizeof_dirent" using dirent_length [OF wf] by (auto simp: sizeof_dirent_def)
  have step: "dir_read_from S fh s (dslot i) =
    (if in_use ?e then Inr ((GDPFS_STAT_OK, Some (ent_name ?e, dslot (Suc i))), s) else dir_read_from S fh s (dslot (Suc i)))"
    using read_slot [OF S D, of i] l(1) ne dirent_of_bytes [OF wf] b by (subst dir_read_from.simps) (auto simp: u Let_def)
  have d: "drop i es = ?e # drop (Suc i) es" using l(1) by (simp add: Cons_nth_drop_Suc)
  show ?case
  proof (cases "in_use ?e")
    case True
    then show ?thesis using wf l(1) by (simp add: step d ent_wf_def cname_def) (intro exI [of _ i], simp)
  next
    case False
    have e: "entries i (drop i es) = entries (Suc i) (drop (Suc i) es)" using False by (simp add: d)
    have s: "dir_read_from S fh s (dslot i) = dir_read_from S fh s (dslot (Suc i))" using False by (simp add: step)
    show ?thesis using Suc.hyps(1) [OF l(2,3)] unfolding e s
      by (auto split: list.splits intro: Suc_leD)
  qed
qed

lemma slot_after: "sizeof_dirent * i < 2 ^ 32 \<Longrightarrow> dslot i + 3 \<noteq> 0 \<and> dslot i + 3 \<noteq> 1 \<and> dslot i + 3 \<noteq> 2"
proof -
  assume b: "sizeof_dirent * i < 2 ^ 32"
  then have u: "unat (dslot i + 3) = sizeof_dirent * i + 3" by (simp add: unat_word_ariths unat_slot(1))
  have "dslot i + 3 \<noteq> x" if "unat x < 3" for x using u that by (intro notI) simp
  from this [of 0] this [of 1] this [of 2] show ?thesis by simp
qed

lemma dir_slot_bound: "dir_data hist s fh es \<Longrightarrow> i \<le> length es \<Longrightarrow> sizeof_dirent * i < 2 ^ 32"
  using dir_data_bound [of hist s fh es] mult_le_mono2 [of i "length es" sizeof_dirent] by linarith

lemma loop_from:
  assumes S: "svc_ok S hist" and D: "dir_data hist s fh es" and i: "i \<le> length es" and b: "length b \<le> k"
  shows "readdir_loop S fh (page k) b s (dslot i + 3) = Inr (b @ take (k - length b) (entries i (drop i es)), s)"
  using i b
proof (induction "length es - i" arbitrary: i b rule: less_induct)
  case less
  note ne = slot_after [OF dir_slot_bound [OF D less.prems(1)]]
  have c: "dslot i + 3 - 3 = dslot i" by simp
  note R = read_next [OF S D less.prems(1)]
  show ?case
  proof (cases "entries i (drop i es)")
    case Nil
    then have "dir_read_from S fh s (dslot i) = Inr ((GDPFS_STAT_EOF, None), s)" using R by simp
    then show ?thesis using Nil ne by (simp add: readdir_loop.simps [of S fh "page k" b s] gdpfs_dir_read_def)
  next
    case (Cons x r)
    obtain n off where x: "x = (n, off)" by (cases x)
    obtain j nm where j: "i \<le> j" "j < length es" "dir_read_from S fh s (dslot i) = Inr ((GDPFS_STAT_OK, Some (nm, dslot (Suc j))), s)"
      "0 \<in> set nm" "takeWhile (\<lambda>x. x \<noteq> 0) nm = n" "off = dslot (Suc j) + 3" "r = entries (Suc j) (drop (Suc j) es)"
      using R Cons x by auto
    have st: "readdir_loop S fh (page k) b s (dslot i + 3) =
      (case page k b n off of (full, b) \<Rightarrow> if full = 1 then Inr (b, s) else readdir_loop S fh (page k) b s off)"
      unfolding j(6) by (subst readdir_loop.simps) (use ne j(3-5) in \<open>simp add: gdpfs_dir_read_def Let_def\<close>)
    show ?thesis
    proof (cases "length b < k")
      case True
      have "readdir_loop S fh (page k) (b @ [(n, off)]) s (dslot (Suc j) + 3) =
        Inr ((b @ [(n, off)]) @ take (k - length (b @ [(n, off)])) (entries (Suc j) (drop (Suc j) es)), s)"
        by (rule less.hyps) (use j(1,2) True in auto)
      moreover have "take (k - length b) (x # r) = x # take (k - Suc (length b)) r" by (simp add: Suc_diff_Suc [OF True, symmetric])
      ultimately show ?thesis using st True Cons x j(6,7) by (simp add: page_def)
    next
      case False
      then show ?thesis using st less.prems(2) by (simp add: page_def)
    qed
  qed
qed

text \<open>The two entries the handler makes up itself come first.\<close>

lemma loop_start:
  assumes S: "svc_ok S hist" and D: "dir_data hist s fh es"
  shows "length b \<le> k \<Longrightarrow> readdir_loop S fh (page k) b s 2 = Inr (b @ take (k - length b) (drop 1 (listing es)), s)"
    and "readdir_loop S fh (page k) [] s 1 = Inr (take k (listing es), s)"
proof -
  have three: "readdir_loop S fh (page k) b s 3 = Inr (b @ take (k - length b) (entries 0 es), s)" if "length b \<le> k" for b
    using loop_from [OF S D, of 0 b k] that by (simp add: dslot_def)
  have two: "readdir_loop S fh (page k) b s 2 = Inr (b @ take (k - length b) (drop 1 (listing es)), s)" if "length b \<le> k" for b
  proof (cases "length b < k")
    case True
    then show ?thesis using three [of "b @ [([0x2E, 0x2E], 3)]"]
      by (subst readdir_loop.simps) (simp add: page_def listing_def Suc_diff_Suc [symmetric])
  next
    case False
    then show ?thesis using that by (subst readdir_loop.simps) (simp add: page_def)
  qed
  then show "length b \<le> k \<Longrightarrow> readdir_loop S fh (page k) b s 2 = Inr (b @ take (k - length b) (drop 1 (listing es)), s)" .
  show "readdir_loop S fh (page k) [] s 1 = Inr (take k (listing es), s)"
  proof (cases k)
    case 0
    then show ?thesis by (subst readdir_loop.simps) (simp add: page_def)
  next
    case (Suc k')
    then show ?thesis using two [of "[([0x2E], 2)]"] by (subst readdir_loop.simps) (simp add: page_def listing_def)
  qed
qed

lemma readdir_resumes:
  assumes S: "svc_ok S hist" and D: "dir_data hist s fh es" and j: "j < length (listing es)"
  shows "gdpfs_readdir S (page k) [] s (snd (listing es ! j)) fh = Inr (0, take k (drop (Suc j) (listing es)), s)"
proof -
  consider "j = 0" | "j = 1" | j' where "j = Suc (Suc j')" by (metis One_nat_def not0_implies_Suc)
  then show ?thesis
  proof cases
    case 1
    then show ?thesis using loop_start(1) [OF S D, of "[]" k] by (simp add: gdpfs_readdir_def listing_def)
  next
    case 2
    then show ?thesis using loop_from [OF S D, of 0 "[]" k] by (simp add: gdpfs_readdir_def listing_def dslot_def)
  next
    case 3
    then have "j' < length (entries 0 es)" using j by (simp add: listing_def)
    from entries_at [OF this] obtain n where n: "n < length es" "snd (entries 0 es ! j') = dslot (Suc n) + 3"
      "drop (Suc j') (entries 0 es) = entries (Suc n) (drop (Suc n) es)" by auto
    have l: "Suc n \<le> length es" using n(1) by simp
    show ?thesis using loop_from [OF S D l, of "[]" k] slot_after [OF dir_slot_bound [OF D l]] 3 n(2,3)
      by (simp add: gdpfs_readdir_def listing_def)
  qed
qed

section \<open>An example\<close>

text \<open>A new directory at the start, and the names and logs that are entered into it.\<close>

lemma first_dir:
  obtains fh t where "gdpfs_file_open_init list_svc (boot cache) [7] GDPFS_FILE_TYPE_DIR 420 True = Inr (GDPFS_STAT_OK, fh, t)"
    "dir_data (\<lambda>w. w) t fh []" "dir_room t 100"
proof -
  obtain fh t where t: "gdpfs_file_open_init list_svc (boot cache) [7] GDPFS_FILE_TYPE_DIR 420 True = Inr (GDPFS_STAT_OK, fh, t)"
    "file_data (\<lambda>w. w) t fh [] 0" "cquota_f t = cquota_f (boot cache)"
    using create_data [OF list_svc_ok fs_inv_reach [OF boot_reach] boot_create] by blast
  have "cquota_f (boot cache) = 1000000" by (simp add: boot_def init_gdpfs_file_def init_gdpfs_log_def EP_STAT_ISOK_def)
  then have "dir_data (\<lambda>w. w) t fh []" "dir_room t 100" using t(2,3) by (auto simp: dir_data_def dir_room_def sizeof_dirent_def)
  then show thesis using that t(1) by blast
qed

definition log_a :: gdp_name where
  "log_a = replicate 32 1"

definition log_b :: gdp_name where
  "log_b = replicate 32 2"

lemma example_ops_ok: "dir_op_ok (Link [97] log_a)" "dir_op_ok (Link [98] log_b)" "dir_op_ok (Link [97] log_b)"
  by (simp_all add: name_ok_def NAME_MAX_GDPFS_def log_a_def log_b_def)

section \<open>Properties\<close>

text \<open>
  C13: a directory is a finite map from names to logs. After any sequence of entries made and removed, all
  of which succeed while the directory stays below 4 GiB and the quota of the cache, a lookup of any
  name returns what the map has for it: a name that is entered again is replaced, not doubled, and
  the place of a removed entry is used again without a trace of it.
\<close>

theorem directory_is_a_map:
  assumes "svc_ok S hist" "dir_data hist s fh es" "uniq es" "dir_room s (length es + length xs)" "\<forall>x \<in> set xs. dir_op_ok x"
  shows "\<exists>t. foldR (run_dir_op S fh) xs s = Inr t \<and>
    dir_lookup S fh t name = Inr (fold spec_dir_op xs (dir_map es) name, t)"
proof -
  have "dir_holds S hist fh s (dir_map es) (length es)" using assms(1-3) by (auto simp: dir_holds_def)
  from dtab.lookup_after [OF this assms(4,5)] show ?thesis .
qed

theorem directory_is_a_map_witness:
  "\<exists>fh s t. gdpfs_file_open_init list_svc (boot True) [7] GDPFS_FILE_TYPE_DIR 420 True = Inr (GDPFS_STAT_OK, fh, s) \<and>
     foldR (run_dir_op list_svc fh) [Link [97] log_a, Link [98] log_b, Unlink [98], Link [97] log_b] s = Inr t \<and>
     dir_lookup list_svc fh t [97] = Inr (Some log_b, t)"
proof -
  let ?xs = "[Link [97] log_a, Link [98] log_b, Unlink [98], Link [97] log_b]"
  obtain fh s where s: "gdpfs_file_open_init list_svc (boot True) [7] GDPFS_FILE_TYPE_DIR 420 True = Inr (GDPFS_STAT_OK, fh, s)"
    "dir_data (\<lambda>w. w) s fh []" "dir_room s 100" by (rule first_dir)
  have "uniq []" "dir_room s (length ([] :: gdpfs_dir_entry_phys list) + length ?xs)" "\<forall>x \<in> set ?xs. dir_op_ok x"
    using dir_room_mono [OF s(3)] example_ops_ok by (simp_all add: uniq_def)
  from directory_is_a_map [OF list_svc_ok s(2) this, of "[97]"] show ?thesis using s(1) by auto
qed

text \<open>
  C14: a listing of a directory is complete. Read in pages of any size it has the two names every directory
  has and then each name of the directory exactly once, and a page that is read from the offset that
  came with an entry goes on right after that entry. Listing a directory changes nothing.
\<close>

theorem readdir_pages:
  assumes "svc_ok S hist" "dir_data hist s fh es" "uniq es"
  shows "gdpfs_readdir S (page k) [] s 0 fh = Inr (0, take k (listing es), s) \<and>
    (\<forall>j < length (listing es). gdpfs_readdir S (page k) [] s (snd (listing es ! j)) fh = Inr (0, take k (drop (Suc j) (listing es)), s)) \<and>
    distinct (map fst (drop 2 (listing es))) \<and> set (map fst (drop 2 (listing es))) = dom (dir_map es)"
proof -
  have e: "drop 2 (listing es) = entries 0 es" by (simp add: listing_def)
  show ?thesis unfolding e
  proof (intro conjI allI impI)
    show "gdpfs_readdir S (page k) [] s 0 fh = Inr (0, take k (listing es), s)"
      using loop_start(2) [OF assms(1,2)] by (simp add: gdpfs_readdir_def)
    show "distinct (map fst (entries 0 es))" using assms(3) by (simp only: entries_names uniq_def)
    show "set (map fst (entries 0 es)) = dom (dir_map es)" unfolding entries_names dir_map_dom by simp
  qed (rule readdir_resumes [OF assms(1,2)])
qed

theorem readdir_pages_witness:
  "\<exists>fh s. gdpfs_file_open_init list_svc (boot True) [7] GDPFS_FILE_TYPE_DIR 420 True = Inr (GDPFS_STAT_OK, fh, s) \<and>
     gdpfs_readdir list_svc (page 1) [] s 0 fh = Inr (0, [([0x2E], 2)], s) \<and>
     gdpfs_readdir list_svc (page 1) [] s 2 fh = Inr (0, [([0x2E, 0x2E], 3)], s) \<and>
     gdpfs_readdir list_svc (page 1) [] s 3 fh = Inr (0, [], s)"
proof -
  obtain fh s where s: "gdpfs_file_open_init list_svc (boot True) [7] GDPFS_FILE_TYPE_DIR 420 True = Inr (GDPFS_STAT_OK, fh, s)"
    "dir_data (\<lambda>w. w) s fh []" by (rule first_dir)
  have "uniq []" by (simp add: uniq_def)
  note r = readdir_pages [OF list_svc_ok s(2) this, of 1]
  have l: "listing [] = [([0x2E], 2), ([0x2E, 0x2E], 3)]" by (simp add: listing_def)
  note q = conjunct1 [OF conjunct2 [OF r], THEN spec, THEN mp]
  from q [of 0] q [of 1]
  have "gdpfs_readdir list_svc (page 1) [] s 2 fh = Inr (0, [([0x2E, 0x2E], 3)], s)" "gdpfs_readdir list_svc (page 1) [] s 3 fh = Inr (0, [], s)"
    by (simp_all add: l)
  moreover have "gdpfs_readdir list_svc (page 1) [] s 0 fh = Inr (0, take 1 (listing []), s)" using r by (simp only:)
  ultimately show ?thesis using s(1) by (intro exI [of _ fh] exI [of _ s]) (simp add: l)
qed

text \<open>
  C31: removing a name that a directory does not have reports success. The search returns an error only
  when the directory is corrupt; otherwise its status, that the name is free, is passed on, and nothing
  is written.
\<close>

theorem unlink_missing_succeeds:
  assumes "svc_ok S hist" "dir_data hist s fh es" "dir_map es name = None"
  shows "gdpfs_dir_remove S s fh name ty = Inr (GDPFS_STAT_OK, s)"
proof -
  obtain found j where f: "find_slot es name 0 None = (found, j)" by (cases "find_slot es name 0 None")
  have "\<not> found" using assms(3) find_slot_found [of es name 0 None j] f by (auto simp: dir_map_none)
  then show ?thesis using find_in_dir [OF assms(1,2), of name] f by (auto simp: gdpfs_dir_remove_def)
qed

theorem unlink_missing_succeeds_witness:
  "\<exists>fh s. gdpfs_file_open_init list_svc (boot True) [7] GDPFS_FILE_TYPE_DIR 420 True = Inr (GDPFS_STAT_OK, fh, s) \<and>
     gdpfs_dir_remove list_svc s fh [97] GDPFS_FILE_TYPE_REGULAR = Inr (GDPFS_STAT_OK, s)"
proof -
  obtain fh s where s: "gdpfs_file_open_init list_svc (boot True) [7] GDPFS_FILE_TYPE_DIR 420 True = Inr (GDPFS_STAT_OK, fh, s)"
    "dir_data (\<lambda>w. w) s fh []" by (rule first_dir)
  then show ?thesis using unlink_missing_succeeds [OF list_svc_ok s(2)] by auto
qed

end
