(* ===== verification/Dir_Handles.thy ===== *)
theory Dir_Handles
  imports Fuse File_Handles
begin

text \<open>
  Which handles the operations on directories and the handlers of the kernel leave open. The operations of
  the file layer are described by the map from open handles to files; the rest follows by composition.
\<close>

section \<open>The map of open handles\<close>

definition hmap :: "'w fsys \<Rightarrow> nat \<Rightarrow> nat option option" where
  "hmap s i = (if i \<in> open_handles s then Some (files s ! i) else None)"

definition has_handle :: "'w fsys \<Rightarrow> u64 \<Rightarrow> bool" where
  "has_handle s fh \<longleftrightarrow> (\<exists>p. hmap s (unat fh) = Some (Some p))"

text \<open>An operation that leaves the handles alone, one that opens a handle when it succeeds, and one that closes a handle.\<close>

definition balanced :: "'w fsys \<Rightarrow> 'w fsys \<Rightarrow> bool" where
  "balanced s t \<longleftrightarrow> tabs t \<and> hmap t = hmap s"

definition gained :: "'w fsys \<Rightarrow> u64 \<Rightarrow> 'w fsys \<Rightarrow> bool" where
  "gained s fh t \<longleftrightarrow> tabs t \<and> (\<exists>p. hmap s (unat fh) = None \<and> hmap t = (hmap s)(unat fh \<mapsto> Some p))"

definition opened :: "'w fsys \<Rightarrow> bool \<Rightarrow> u64 \<Rightarrow> 'w fsys \<Rightarrow> bool" where
  "opened s good fh t \<longleftrightarrow> (if good then gained s fh t else balanced s t)"

definition dropped_fh :: "'w fsys \<Rightarrow> u64 \<Rightarrow> 'w fsys \<Rightarrow> bool" where
  "dropped_fh s fh t \<longleftrightarrow> tabs t \<and> hmap t = (hmap s)(unat fh := None)"

lemma hmap_dom: "dom (hmap s) = open_handles s"
  by (auto simp: hmap_def dom_def)

lemma pins_hmap: "pins s t \<Longrightarrow> hmap t = hmap s"
  by (rule ext) (simp add: hmap_def pins_def open_handles_def)

lemma pins_tabs: "pins s t \<Longrightarrow> tabs s \<Longrightarrow> tabs t"
  by (simp add: pins_def tabs_def)

lemma pins_balanced: "pins s t \<Longrightarrow> tabs s \<Longrightarrow> balanced s t"
  by (simp add: balanced_def pins_hmap pins_tabs)

lemma balanced_refl: "tabs s \<Longrightarrow> balanced s s"
  by (simp add: balanced_def)

lemma balanced_trans: "balanced s t \<Longrightarrow> balanced t u \<Longrightarrow> balanced s u"
  by (simp add: balanced_def)

lemma balanced_tabs: "balanced s t \<Longrightarrow> tabs t"
  by (simp add: balanced_def)

lemma gained_has: "gained s fh t \<Longrightarrow> has_handle t fh \<and> tabs t"
  by (auto simp: gained_def has_handle_def)

lemma balanced_has: "balanced s t \<Longrightarrow> has_handle t fh = has_handle s fh"
  by (simp add: balanced_def has_handle_def)

lemma gained_balanced: "gained s fh t \<Longrightarrow> balanced t u \<Longrightarrow> gained s fh u"
  by (auto simp: gained_def balanced_def)

lemma balanced_gained: "balanced s t \<Longrightarrow> gained t fh u \<Longrightarrow> gained s fh u"
  by (simp add: gained_def balanced_def)

lemma gained_dropped: "gained s fh t \<Longrightarrow> dropped_fh t fh u \<Longrightarrow> balanced s u"
  by (auto simp: gained_def dropped_fh_def balanced_def fun_upd_idem)

lemma balanced_opened: "balanced s t \<Longrightarrow> opened t g fh u \<Longrightarrow> opened s g fh u"
  by (auto simp: opened_def intro: balanced_gained balanced_trans)

lemma balanced_dropped: "balanced s t \<Longrightarrow> dropped_fh t fh u \<Longrightarrow> dropped_fh s fh u"
  by (simp add: dropped_fh_def balanced_def)

section \<open>The file layer\<close>

lemma pins_quiet': "quiet s t \<Longrightarrow> pins s t"
  by (simp add: pins_def quiet_def)

lemma pins_do_write: "pins s t \<Longrightarrow> okR (\<lambda>(n, u). pins s u) (do_write S t fh buf off info)"
proof -
  assume t: "pins s t"
  have fill: "okR (pins s) (if use_cache u then bindR (gdpfs_file_fill_cache u p buf off True) (\<lambda>(_, s). Inr s) else Inr u)"
    if "pins s u" for u p
    by (rule okR_if, rule okR_quiet [OF quiet_fill_cache]) (auto intro: that pins_quiet [OF that])
  have ap: "okR (\<lambda>(n, u). pins s u) (case rec_append S u lg r of (estat, s) \<Rightarrow>
       if EP_STAT_ISOK estat then Inr (sz, s\<lparr>pending := pending s @ [Free_Fileref p estat]\<rparr>) else Inr (0, s))"
    if "pins s u" for u lg r sz p
    using pins_append [OF that, of S lg r] by (auto split: prod.split)
  show ?thesis unfolding do_write_def Let_def file_ref_def
  proof (rule okR_any, simp only: option.case_eq_if, rule okR_if, use t in simp, goal_cases)
    case (1 x)
    show ?case
      by (rule okR_bind [where P = "\<lambda>(e, u). pins s u"], rule okR_get, use t in simp, clarify, rule okR_get, rule okR_bind [OF fill], simp,
          rule okR_get, rule okR_bind [where P = "pins s"], rule okR_if, rule okR_any2, simp, simp, rule ap)
  qed
qed

lemma pins_info_write:
  assumes "\<And>e t. pins s t \<Longrightarrow> okR Q (G e t)" "\<And>i t. pins s t \<Longrightarrow> okR Q (F i t)"
  shows "okR Q (bindR (gdpfs_file_get_info S s fh) (\<lambda>(estat, file, s). if \<not> EP_STAT_ISOK estat then G estat s else
      bindR (deref file) (\<lambda>p. bindR (change_info s p upd) (\<lambda>(info, s). F info s))))"
proof (rule okR_bind [OF quiet_get_info], clarify, rule okR_if, goal_cases)
  case (1 e q t)
  then show ?case by (intro assms(1) pins_quiet')
next
  case (2 e q t)
  show ?case by (rule okR_any, rule okR_quiet [OF quiet_change_info], simp only: prod.case)
      (intro assms(2) pins_quiet' quiet_trans [OF 2(1)])
qed

lemma pins_writes:
  "okR (\<lambda>(n, t). pins s t) (gdpfs_file_write S s fh buf off)"
  "okR (\<lambda>(n, t). pins s t) (gdpfs_file_ftruncate S s fh len)"
  "okR (\<lambda>(e, t). pins s t) (gdpfs_file_set_perm S s fh perm)"
proof -
  show "okR (\<lambda>(n, t). pins s t) (gdpfs_file_write S s fh buf off)" "okR (\<lambda>(n, t). pins s t) (gdpfs_file_ftruncate S s fh len)"
    unfolding gdpfs_file_write_def gdpfs_file_ftruncate_def Let_def by (rule pins_info_write; simp add: pins_do_write)+
  have "okR (\<lambda>(e, t). pins s t) (bindR (do_write S t fh [] 0 i) (\<lambda>(_, s). Inr (GDPFS_STAT_OK, s)))" if "pins s t" for t i
    by (rule okR_bind [OF pins_do_write [OF that]]) auto
  then show "okR (\<lambda>(e, t). pins s t) (gdpfs_file_set_perm S s fh perm)"
    unfolding gdpfs_file_set_perm_def by (intro pins_info_write) simp_all
qed

lemma pins_read: "okR (\<lambda>(bs, t). pins s t) (gdpfs_file_read S s fh sz off)"
  unfolding gdpfs_file_read_def by (rule okR_mono [OF quiet_do_read]) (auto intro: pins_quiet')

lemma pins_info: "okR (\<lambda>(e, q, t). pins s t) (gdpfs_file_get_info S s fh)"
  by (rule okR_mono [OF quiet_get_info]) (auto intro: pins_quiet')

lemma pins_check_type: "pins s t \<Longrightarrow> okR (\<lambda>(e, u). pins s u) (open_check_type S t fh p ty perm ini si)"
proof -
  assume t: "pins s t"
  have ini: "okR (\<lambda>(e, t). pins s t) (bindR (change_info u p upd) (\<lambda>(info, s).
      bindR (do_write S s fh [] 0 info) (\<lambda>(_, s). Inr (GDPFS_STAT_OK, s))))" if "pins s u" for u upd
    by (rule okR_quiet [OF quiet_change_info], simp only: prod.case, rule okR_bind [OF pins_do_write [OF pins_quiet [OF that]]]) auto
  have st: "okR (\<lambda>(e, u). pins s u) (Inr (e, u))" if "quiet t u" for e u using pins_quiet [OF t that] by simp
  show ?thesis unfolding open_check_type_def
    by (rule okR_if, rule st, simp, rule okR_quiet [OF quiet_get_info_raw], simp only: prod.case, rule okR_if, erule st, rule okR_get)
      (intro okR_if ini st; (assumption | erule pins_quiet [OF t]))
qed

lemma pins_revive: "okR (pins s) (recently_closed_revive s p)"
  unfolding recently_closed_revive_def Let_def
  by (rule okR_get, rule okR_bind [OF okR_assert], rule okR_any2) (simp add: pins_def put_file_def)

lemma pins_struct: "okR (\<lambda>r. case r of Inl e \<Rightarrow> \<not> EP_STAT_ISOK e | Inr (p, t) \<Rightarrow> pins s t) (open_struct S s n)"
proof (cases "file_hash s n")
  case None
  then show ?thesis by (simp add: open_struct_def Let_def pins_def EP_STAT_ISOK_def)
next
  case (Some p)
  have "okR (\<lambda>r. case r of Inl e \<Rightarrow> \<not> EP_STAT_ISOK e | Inr (p, t) \<Rightarrow> pins s t) (bindR (recently_closed_revive s p) (\<lambda>s. Inr (Inr (p, s))))"
    by (rule okR_bind [OF pins_revive]) simp
  then show ?thesis unfolding open_struct_def Some option.case by (intro okR_get okR_if) simp_all
qed

lemma tabs_reserve:
  assumes "tabs s"
  shows "okR (\<lambda>(fh, b). fh = -1 \<or> (\<exists>b'. b = Some b' \<and> bitmap_wf b' \<and> capacity b' = MAX_FHS \<and> unat fh \<notin> open_handles s \<and>
    unat fh < MAX_FHS \<and> bits b' = insert (unat fh) (open_handles s))) (bitmap_reserve (fhs s))"
proof -
  obtain b where b: "fhs s = Some b" "bitmap_wf b" "capacity b = MAX_FHS" using assms by (auto simp: tabs_def)
  have o: "open_handles s = bits b" using b by (simp add: open_handles_def)
  show ?thesis
  proof (cases "bits b = {..<capacity b}")
    case True
    then show ?thesis using bitmap_reserve_full_aligned [OF b(2) True] b by (simp add: MAX_FHS_def)
  next
    case False
    then show ?thesis using fhs.take_least [OF b(2) False] b o
      by (auto simp: bitmap_take_def bindR_eq_Inr split: option.splits)
  qed
qed

lemma tabs_release:
  assumes "fhs s = Some b" "bitmap_wf b" "capacity b = MAX_FHS" "length (files s) = MAX_FHS" "unat fh < MAX_FHS"
  shows "\<exists>r b'. bitmap_release (fhs s) fh = Inr (r, Some b') \<and> dropped_fh s fh (s\<lparr>fhs := Some b'\<rparr>)"
proof -
  obtain b' where b': "bitmap_release (Some b) fh = Inr (if unat fh \<in> bits b then 0 else -1, Some b')" "bits b' = bits b - {unat fh}"
    "bitmap_wf b'" "capacity b' = capacity b" using bitmap_release_in [OF assms(2), of fh] assms by auto
  have "hmap (s\<lparr>fhs := Some b'\<rparr>) = (hmap s)(unat fh := None)"
    using assms(1) b'(2) by (intro ext) (simp add: hmap_def open_handles_def)
  then show ?thesis using assms b' by (intro exI conjI) (auto simp: dropped_fh_def tabs_def)
qed

lemma close_drops:
  assumes "tabs s" "has_handle s fh"
  shows "okR (\<lambda>(e, t). dropped_fh s fh t) (gdpfs_file_close S s fh)"
proof -
  obtain b p where b: "fhs s = Some b" "bitmap_wf b" "capacity b = MAX_FHS" "length (files s) = MAX_FHS"
    and p: "unat fh \<in> bits b" "files s ! unat fh = Some p"
    using assms by (auto simp: tabs_def has_handle_def hmap_def open_handles_def split: if_splits)
  have lt: "unat fh < MAX_FHS" using p(1) b(2,3) by (auto simp: bitmap_wf_def)
  have "lookup_fh s fh = Inr (Some p)" using bitmap_is_set_in [OF b(2), of fh] b lt p by (simp add: lookup_fh_def)
  moreover obtain r b' where r: "bitmap_release (fhs s) fh = Inr (r, Some b')" "dropped_fh s fh (s\<lparr>fhs := Some b'\<rparr>)"
    using tabs_release [OF b lt] by blast
  moreover have "okR (\<lambda>(e, t). dropped_fh s fh t) (file_unref S (s\<lparr>fhs := Some b'\<rparr>) p)"
    by (rule okR_mono [OF pins_unref]) (use r(2) in \<open>auto simp: dropped_fh_def intro: pins_tabs simp: pins_hmap\<close>)
  ultimately show ?thesis by (simp add: gdpfs_file_close_def)
qed

text \<open>What opening does once the file structure is there.\<close>

lemma opened_rest:
  assumes g: "gained s fh u" and t: "pins u v"
  shows "okR (\<lambda>(e, fh', t). opened s (EP_STAT_ISOK e) fh' t) (bindR (open_check_type S v fh p ty perm ini si) (\<lambda>(estat, s).
          if \<not> EP_STAT_ISOK estat then open_fail2 S s fh estat
          else bindR (open_index S s p si) (\<lambda>s. Inr (GDPFS_STAT_OK, fh, s))))"
proof (rule okR_bind [OF pins_check_type [OF t]], clarify, rule okR_if, goal_cases)
  case (1 e w)
  have w: "balanced u w" by (rule pins_balanced [OF 1(1)]) (use gained_has [OF g] in simp)
  have h: "has_handle w fh" "tabs w" using gained_has [OF gained_balanced [OF g w]] by simp_all
  show ?case unfolding open_fail2_def
    by (rule okR_bind [OF close_drops [OF h(2,1)]])
      (use 1(2) gained_dropped [OF gained_balanced [OF g w]] in \<open>auto simp: opened_def\<close>)
next
  case (2 e w)
  have w: "gained s fh x" if "quiet w x" for x
  proof -
    have "pins u x" by (rule pins_quiet [OF 2(1) that])
    then show ?thesis by (intro gained_balanced [OF g] pins_balanced) (use gained_has [OF g] in simp_all)
  qed
  show ?case by (rule okR_bind [OF quiet_open_index]) (auto simp: opened_def EP_STAT_ISOK_def intro: w)
qed

lemma file_opens:
  assumes t: "tabs s"
  shows "okR (\<lambda>(e, fh, t). opened s (EP_STAT_ISOK e) fh t) (open_file S s n ty perm ini si)"
  unfolding open_file_def
proof (rule okR_bind [OF tabs_reserve [OF t]], clarify, rule okR_if,
    use t in \<open>simp add: opened_def EP_STAT_ISOK_def balanced_refl\<close>, goal_cases)
  case (1 fh b)
  then obtain b' where b: "b = Some b'" "bitmap_wf b'" "capacity b' = MAX_FHS" "unat fh \<notin> open_handles s"
    "unat fh < MAX_FHS" "bits b' = insert (unat fh) (open_handles s)" by blast
  let ?s = "s\<lparr>fhs := b\<rparr>"
  have l: "length (files s) = MAX_FHS" using t by (simp add: tabs_def)
  show ?case
  proof (rule okR_bind [OF pins_struct], goal_cases)
    case (1 x)
    show ?case
    proof (cases x)
      case (Inl e)
      have bs: "fhs ?s = Some b'" "length (files ?s) = MAX_FHS" using b(1) l by simp_all
      from tabs_release [OF bs(1) b(2,3) bs(2) b(5)] obtain r b2 where r: "bitmap_release b fh = Inr (r, Some b2)"
        "dropped_fh ?s fh (?s\<lparr>fhs := Some b2\<rparr>)" by auto
      have "(hmap ?s)(unat fh := None) = hmap s" using b(1,4,6) by (intro ext) (auto simp: hmap_def open_handles_def)
      then have "balanced s (s\<lparr>fhs := Some b2\<rparr>)" using r(2) by (simp add: dropped_fh_def balanced_def)
      then show ?thesis using Inl 1 r(1) by (simp add: opened_def)
    next
      case (Inr pt)
      obtain p u where pt: "pt = (p, u)" "pins ?s u" using 1 Inr by (cases pt) auto
      have fin: "okR (\<lambda>(e, fh', t). opened s (EP_STAT_ISOK e) fh' t) (bindR (get_file w p) (\<lambda>f.
             let s = (if si then put_file w p (f\<lparr>new_file := True\<rparr>) else w) in
             bindR (open_check_type S s fh p ty perm ini si) (\<lambda>(estat, s).
             if \<not> EP_STAT_ISOK estat then open_fail2 S s fh estat
             else bindR (open_index S s p si) (\<lambda>s. Inr (GDPFS_STAT_OK, fh, s)))))" if "gained s fh w" for w
        unfolding Let_def by (rule okR_get, rule opened_rest [OF that]) simp
      have g: "gained s fh (v\<lparr>files := (files v)[unat fh := Some p]\<rparr>)" if "pins ?s v" for v
      proof -
        have v: "fhs v = Some b'" "files v = files s" using that b(1) by (simp_all add: pins_def)
        have "hmap (v\<lparr>files := (files v)[unat fh := Some p]\<rparr>) = (hmap s)(unat fh \<mapsto> Some p)"
          using v b(4-6) l by (intro ext) (auto simp: hmap_def open_handles_def nth_list_update)
        then show ?thesis using v b(2-4) l by (auto simp: gained_def tabs_def hmap_def)
      qed
      show ?thesis unfolding Inr pt(1) sum.case prod.case file_ref_def
        by (rule okR_bind [where P = "\<lambda>(e, u). pins ?s u"], rule okR_get, use pt(2) in simp, clarify, rule okR_if, simp, unfold Let_def,
            rule fin [unfolded Let_def], rule g)
    qed
  qed
qed

lemma file_opens_type:
  "tabs s \<Longrightarrow> okR (\<lambda>(e, fh, t). opened s (EP_STAT_ISOK e) fh t) (gdpfs_file_open_type S s n ty)"
  "tabs s \<Longrightarrow> okR (\<lambda>(e, fh, t). opened s (EP_STAT_ISOK e) fh t) (gdpfs_file_open S s n)"
  "tabs s \<Longrightarrow> okR (\<lambda>(e, fh, t). opened s (EP_STAT_ISOK e) fh t) (gdpfs_file_open_init S s n ty perm si)"
  unfolding gdpfs_file_open_type_def gdpfs_file_open_def gdpfs_file_open_init_def by (rule file_opens, assumption)+

lemma file_creates:
  assumes "tabs s"
  shows "okR (\<lambda>(e, fh, n, t). opened s (EP_STAT_ISOK e) fh t) (gdpfs_file_create S s ty perm)"
proof (cases "gdpfs_log_get_precreated (ring s)")
  case (Some x)
  obtain n q where x: "x = (n, q)" by (cases x)
  have q: "tabs (s\<lparr>ring := q\<rparr>)" "balanced s (s\<lparr>ring := q\<rparr>)" using assms by (auto simp: tabs_def balanced_def hmap_def open_handles_def)
  have o: "opened s g fh t" if "opened (s\<lparr>ring := q\<rparr>) g fh t" for g fh t by (rule balanced_opened [OF q(2) that])
  show ?thesis unfolding gdpfs_file_create_def Some x option.case prod.case
  proof (rule okR_bind [OF file_opens_type(3) [OF q(1)]], clarify, rule okR_if, goal_cases)
    case (1 e fh t)
    then show ?case using o [OF 1(1)] by simp
  next
    case (2 e fh t)
    then show ?case using o [OF 2(1)] by (simp add: EP_STAT_ISOK_def)
  qed
qed (simp add: gdpfs_file_create_def)

section \<open>Directories\<close>

lemma okR_bind_eq: "okR P m \<Longrightarrow> (\<And>x. m = Inr x \<Longrightarrow> P x \<Longrightarrow> okR Q (f x)) \<Longrightarrow> okR Q (bindR m f)"
  by (cases m) auto

lemma pins_find: "pins s t \<Longrightarrow> okR (\<lambda>(r, u). pins s u) (find_from S fh name t off ins)"
proof (induction S fh name t off ins rule: find_from.induct)
  case (1 S fh name t off ins)
  show ?case unfolding find_from.simps [of S fh name t off ins]
  proof (rule okR_bind_eq [OF pins_read], clarify, goal_cases)
    case (1 bs u)
    have p: "pins s u" using 1(2) \<open>pins s t\<close> by (simp add: pins_def)
    show ?case unfolding Let_def
    proof (intro okR_if, use p in simp, use p in simp, rule okR_bind_eq [OF okR_True], intro okR_if, use p in simp, simp, goal_cases)
      case (1 same)
      then show ?case using "1.IH" [OF \<open>gdpfs_file_read S t fh (of_nat sizeof_dirent) off = Inr (bs, u)\<close> refl refl] p by simp
    qed
  qed
qed

lemma pins_find_insert: "okR (\<lambda>(r, u). pins s u) (find_insert_offset S s fh name)"
  unfolding find_insert_offset_def by (rule pins_find) simp

lemma pins_dir_read: "pins s t \<Longrightarrow> okR (\<lambda>(r, u). pins s u) (dir_read_from S fh t off)"
proof (induction S fh t off rule: dir_read_from.induct)
  case (1 S fh t off)
  show ?case unfolding dir_read_from.simps [of S fh t off]
  proof (rule okR_bind_eq [OF pins_read], clarify, goal_cases)
    case (1 bs u)
    have p: "pins s u" using 1(2) \<open>pins s t\<close> by (simp add: pins_def)
    show ?case unfolding Let_def
    proof (intro okR_if, use p in simp, use p in simp, simp, use p in simp, goal_cases)
      case 1
      then show ?case using "1.IH" [OF \<open>gdpfs_file_read S t fh (of_nat sizeof_dirent) off = Inr (bs, u)\<close> refl refl] p by simp
    qed
  qed
qed

lemma pins_isempty: "okR (\<lambda>(e, b, u). pins s u) (gdpfs_dir_isempty S s fh)"
  unfolding gdpfs_dir_isempty_def gdpfs_dir_read_def
  by (rule okR_bind [OF pins_dir_read [OF pins_refl]]) (auto simp: case_prod_beta)

lemma pins_add: "okR (\<lambda>(e, u). pins s u) (add_at_offset S s fh off name g)"
  unfolding add_at_offset_def Let_def by (rule okR_bind [OF pins_writes(1)]) auto

lemma pins_gained: "gained s fh t \<Longrightarrow> pins t u \<Longrightarrow> gained s fh u"
  by (rule gained_balanced, assumption, rule pins_balanced) (auto dest: gained_has)

text \<open>A handle that was opened and is closed again.\<close>

lemma close_gained: "gained s fh t \<Longrightarrow> okR (\<lambda>(e, u). balanced s u) (gdpfs_file_close S t fh)"
  by (rule okR_mono [OF close_drops]) (auto dest: gained_has intro: gained_dropped)

lemma close_after:
  assumes g: "gained s fh t" and Q: "\<And>e u. balanced s u \<Longrightarrow> okR Q (F (e, u))"
  shows "okR Q (bindR (gdpfs_file_close S t fh) F)"
  by (rule okR_bind [OF close_gained [OF g]]) (auto intro: Q)

lemma walk_opens: "gained s0 fh s \<Longrightarrow> okR (\<lambda>(e, fh', t). opened s0 (EP_STAT_ISOK e) fh' t) (open_walk S ty s fh ct path)"
proof (induction S ty s fh ct path rule: open_walk.induct)
  case (1 S ty s fh ct path)
  let ?name = "takeWhile (\<lambda>x. x \<noteq> SLASH) path" and ?rest = "dropWhile (\<lambda>x. x \<noteq> SLASH) path"
  show ?case unfolding open_walk.simps [of S ty s fh ct path] Let_def
  proof (intro okR_if, goal_cases)
    case 1
    then show ?case using "1.prems" by (simp add: opened_def EP_STAT_ISOK_def)
  next
    case 2
    then show ?case using "1.IH"(1) "1.prems" by simp
  next
    case 3
    then show ?case by simp
  next
    case c: 4
    show ?case
    proof (rule okR_bind_eq [OF pins_find_insert], clarify, rule okR_bind_eq [OF close_gained], erule pins_gained [OF "1.prems"], clarify,
        intro okR_if, goal_cases)
      case (1 e off ent u e2 v)
      let ?ct = "if ?rest = [] then ty else ct"
      have v: "tabs v" "balanced s0 v" using 1(4) balanced_tabs by auto
      show ?case
      proof (rule okR_bind_eq [OF file_opens_type(1) [OF v(1)]], clarify, intro okR_if, goal_cases)
        case (1 e3 fh' w)
        then show ?case using balanced_opened [OF v(2) 1(2)] by (simp add: opened_def)
      next
        case (2 e3 fh' w)
        have "gained s0 fh' w" using balanced_opened [OF v(2) 2(2)] 2(3) by (simp add: opened_def)
        then show ?case using "1.IH"(2) [OF c(1,2) refl refl c(3) 1(1) refl refl refl 1(3) refl 1(5) refl 2(1) refl refl 2(3)] by simp
      qed
    next
      case (2 e off ent u e2 v)
      then show ?case by (simp add: opened_def EP_STAT_ISOK_def)
    next
      case (3 e off ent u e2 v)
      then show ?case by (simp add: opened_def EP_STAT_ISOK_def)
    qed
  qed
qed

lemma path_opens:
  assumes "tabs s"
  shows "okR (\<lambda>(e, fh, t). opened s (EP_STAT_ISOK e) fh t) (gdpfs_dir_open_file_at_path S rt s path ty)"
  unfolding gdpfs_dir_open_file_at_path_def
proof (intro okR_if, use assms in \<open>simp add: opened_def EP_STAT_ISOK_def balanced_refl\<close>,
    rule okR_bind [OF file_opens_type(1) [OF assms]], clarify, intro okR_if, simp add: opened_def, goal_cases)
  case (1 e fh t)
  then have "gained s fh t" by (simp add: opened_def)
  then show ?case by (intro okR_any walk_opens)
qed

lemma parent_opens:
  assumes "tabs s"
  shows "okR (\<lambda>(e, fh, name, t). opened s (EP_STAT_ISOK e) fh t) (open_parent_dir S rt s path)"
  unfolding open_parent_dir_def
  by (intro okR_if, use assms in \<open>simp add: opened_def EP_STAT_ISOK_def balanced_refl\<close>)
    (rule okR_bind [OF path_opens [OF assms]], auto)

lemma parent_after:
  assumes "tabs s" and bad: "\<And>e fh nm t. \<not> EP_STAT_ISOK e \<Longrightarrow> balanced s t \<Longrightarrow> okR Q (G e fh nm t)"
    and good: "\<And>e fh nm t. gained s fh t \<Longrightarrow> okR Q (F e fh nm t)"
  shows "okR Q (bindR (open_parent_dir S rt s path) (\<lambda>(e, fh, nm, t). if \<not> EP_STAT_ISOK e then G e fh nm t else F e fh nm t))"
proof (rule okR_bind [OF parent_opens [OF assms(1)]], clarify, intro okR_if, goal_cases)
  case (1 e fh nm t)
  then show ?case by (intro bad) (simp_all add: opened_def)
next
  case (2 e fh nm t)
  then show ?case by (intro good) (simp add: opened_def)
qed

text \<open>The check before an entry is removed opens and closes the file it is about.\<close>

lemma remove_pins:
  assumes g: "gained s fh t"
  shows "okR (\<lambda>(e, u). gained s fh u) (gdpfs_dir_remove S t fh name ty)"
  unfolding gdpfs_dir_remove_def
proof (rule okR_bind [OF pins_find_insert], clarify, intro okR_if, use pins_gained [OF g] in simp, goal_cases)
  case (1 e off ent u)
  have gu: "gained s fh u" using pins_gained [OF g 1(1)] .
  then have tu: "tabs u" using gained_has by blast
  have emp: "okR (\<lambda>(e, w). pins v w) (if c then bindR (gdpfs_dir_isempty S v filefh) (\<lambda>(estat, isempty, s).
      Inr (if EP_STAT_ISOK estat \<and> \<not> isempty then GDPFS_STAT_DIR_NOT_EMPTY else estat, s)) else Inr (e, v))" for v filefh c e
    by (rule okR_if, rule okR_bind [OF pins_isempty]) auto
  have "okR (\<lambda>(e, v). gained s fh v) (if ty = GDPFS_FILE_TYPE_UNKNOWN then Inr (GDPFS_STAT_OK, u)
       else bindR (gdpfs_file_open_type S u (ent_gname ent) ty) (\<lambda>(estat, filefh, s).
            if \<not> EP_STAT_ISOK estat then Inr (estat, s)
            else
              bindR (if ty = GDPFS_FILE_TYPE_DIR
                     then bindR (gdpfs_dir_isempty S s filefh) (\<lambda>(estat, isempty, s).
                          Inr (if EP_STAT_ISOK estat \<and> \<not> isempty then GDPFS_STAT_DIR_NOT_EMPTY else estat, s))
                     else Inr (estat, s)) (\<lambda>(estat, s).
              bindR (gdpfs_file_close S s filefh) (\<lambda>(_, s). Inr (estat, s)))))"
  proof (intro okR_if, use gu in simp, rule okR_bind [OF file_opens_type(1) [OF tu]], clarify, intro okR_if, goal_cases)
    case (1 e2 fh2 v)
    then show ?case using gained_balanced [OF gu] by (simp add: opened_def)
  next
    case (2 e2 fh2 v)
    then have g2: "gained u fh2 v" by (simp add: opened_def)
    show ?case by (rule okR_bind [OF emp], clarify, rule close_after [OF pins_gained [OF g2]], assumption)
        (use gained_balanced [OF gu] in simp)
  qed
  then show ?case
    by (rule okR_bind, clarify, intro okR_if) (simp, rule okR_bind [OF pins_writes(1)], auto intro: pins_gained)
qed

lemma remove_path_balanced:
  assumes "tabs s"
  shows "okR (\<lambda>(e, t). balanced s t) (gdpfs_dir_remove_file_at_path S rt s path ty)"
  unfolding gdpfs_dir_remove_file_at_path_def
  by (rule parent_after [OF assms], simp, rule okR_bind [OF remove_pins], assumption, clarify, rule close_after, assumption, simp)

text \<open>Of two handles the first is closed.\<close>

lemma gained_swap:
  assumes "gained s a t" "gained t b u" "dropped_fh u a v"
  shows "gained s b v"
proof -
  obtain p q where p: "hmap s (unat a) = None" "hmap t = (hmap s)(unat a \<mapsto> Some p)" "hmap t (unat b) = None"
    "hmap u = (hmap t)(unat b \<mapsto> Some q)" "hmap v = (hmap u)(unat a := None)" "tabs v"
    using assms by (auto simp: gained_def dropped_fh_def)
  then have "unat a \<noteq> unat b" by auto
  then have "hmap v = (hmap s)(unat b \<mapsto> Some q)" "hmap s (unat b) = None" using p by (auto simp: fun_eq_iff)
  then show ?thesis using p(6) by (auto simp: gained_def)
qed

lemma gained_keeps: "gained s a t \<Longrightarrow> gained t b u \<Longrightarrow> has_handle u a"
  by (auto simp: gained_def has_handle_def)

lemma close_first: "gained s a t \<Longrightarrow> gained t b u \<Longrightarrow> okR (\<lambda>(e, v). gained s b v) (gdpfs_file_close S u a)"
  by (rule okR_mono [OF close_drops]) (auto dest: gained_has gained_keeps intro: gained_swap)

lemma create_path_gains:
  assumes "tabs s"
  shows "okR (\<lambda>(e, fh, g, t). EP_STAT_ISOK e \<longrightarrow> gained s fh t) (gdpfs_dir_create_file_at_path S rt s path ty hg perm)"
  unfolding gdpfs_dir_create_file_at_path_def
proof (rule parent_after [OF assms], simp, rule okR_bind [OF pins_find_insert], clarify, intro okR_if, simp add: EP_STAT_ISOK_def, simp, simp, goal_cases)
  case (1 e d nm t e2 off ent u)
  have gu: "gained s d u" using pins_gained [OF 1(1,2)] .
  then have "tabs u" using gained_has by blast
  show ?case
  proof (rule okR_bind [OF file_creates [OF \<open>tabs u\<close>]], clarify, intro okR_if, simp, goal_cases)
    case (1 e3 fh g v)
    then have "gained u fh v" by (simp add: opened_def)
    then show ?case
      by (intro okR_bind [OF pins_add], clarify, intro okR_bind [OF close_first [OF gu]]) (auto intro: pins_gained)
  qed
qed

lemma replace_check_balanced:
  assumes "tabs s"
  shows "okR (\<lambda>(e, t). balanced s t) (replace_check S s ty g)"
  unfolding replace_check_def
proof (rule okR_bind [OF file_opens_type(2) [OF assms]], clarify, intro okR_if, simp add: opened_def, goal_cases)
  case (1 e fh t)
  then have g: "gained s fh t" by (simp add: opened_def)
  have chk: "okR (\<lambda>(e, w). pins v w) (if c then Inr (e, v) else bindR (deref q) (\<lambda>p. bindR (get_file v p) (\<lambda>f.
       let f2type = file_type (info_cache f) in
       if ty \<noteq> f2type then Inr (if f2type = GDPFS_FILE_TYPE_REGULAR then GDPFS_STAT_FILE_EXISTS else GDPFS_STAT_DIR_EXISTS, v)
       else if f2type = GDPFS_FILE_TYPE_DIR
       then bindR (gdpfs_dir_isempty S v fh) (\<lambda>(estat, isempty, s).
            Inr (if EP_STAT_ISOK estat \<and> \<not> isempty then GDPFS_STAT_DIR_NOT_EMPTY else estat, s))
       else Inr (e, v))))" for c e v q
    unfolding Let_def
    by (intro okR_if, simp, rule okR_any, rule okR_get, intro okR_if, simp, rule okR_bind [OF pins_isempty]) auto
  show ?case
  proof (rule okR_bind [OF pins_info], clarify, goal_cases)
    case (1 e2 q v)
    have gv: "gained s fh v" using pins_gained [OF g 1] .
    show ?case by (rule okR_bind [OF chk], clarify, rule close_after [OF pins_gained [OF gv]]) auto
  qed
qed

text \<open>A successful replacement leaves the handle of the directory open.\<close>

lemma replace_path_gains:
  assumes "tabs s"
  shows "okR (\<lambda>(e, t). EP_STAT_ISOK e \<longrightarrow> (\<exists>i. gained s i t)) (gdpfs_dir_replace_file_at_path S rt s fh path)"
  unfolding gdpfs_dir_replace_file_at_path_def Let_def
proof (rule okR_any, rule okR_bind [OF pins_info], clarify, intro okR_if, simp, rule okR_any, rule okR_get, goal_cases)
  case (1 g e q t p f)
  have t: "tabs t" "balanced s t" using pins_tabs [OF 1(1) assms] pins_balanced [OF 1(1) assms] .
  show ?case
  proof (rule parent_after [OF t(1)], simp, rule okR_bind [OF pins_find_insert], clarify, goal_cases)
    case (1 e2 d nm u e3 off ent v)
    have gv: "gained t d v" using pins_gained [OF 1] .
    then have tv: "tabs v" using gained_has by blast
    have "okR (\<lambda>(e, w). gained s d w) (if e3 = GDPFS_STAT_FILE_EXISTS then replace_check S v (file_type (info_cache f)) (ent_gname ent) else Inr (e3, v))"
      by (intro okR_if okR_mono [OF replace_check_balanced [OF tv]])
        (use balanced_gained [OF t(2) gv] in \<open>auto intro: gained_balanced\<close>)
    then show ?case
      by (rule okR_bind, clarify, intro okR_if, simp, intro okR_bind [OF pins_add]) (auto intro!: exI [of _ d] intro: pins_gained)
  qed
qed

section \<open>Handlers\<close>

lemma fuse_opens:
  assumes "tabs s"
  shows "okR (\<lambda>(rv, fh, t). opened s (rv = 0) fh t) (fuse_open_path S rt s path ty)"
  unfolding fuse_open_path_def by (rule okR_bind [OF path_opens [OF assms]]) (auto simp: ENOENT_def)

lemma fuse_after:
  assumes "tabs s" and bad: "\<And>rv fh t. rv \<noteq> 0 \<Longrightarrow> balanced s t \<Longrightarrow> okR Q (G rv fh t)"
    and good: "\<And>rv fh t. gained s fh t \<Longrightarrow> okR Q (F rv fh t)"
  shows "okR Q (bindR (fuse_open_path S rt s path ty) (\<lambda>(rv, fh, t). if rv \<noteq> 0 then G rv fh t else F rv fh t))"
proof (rule okR_bind [OF fuse_opens [OF assms(1)]], clarify, intro okR_if, goal_cases)
  case (1 rv fh t)
  then show ?case by (intro bad) (simp_all add: opened_def)
next
  case (2 rv fh t)
  then show ?case by (intro good) (simp add: opened_def)
qed

lemma release_after:
  assumes g: "gained s fh t" and Q: "\<And>e u. balanced s u \<Longrightarrow> okR Q (F (e, u))"
  shows "okR Q (bindR (fuse_release_fh S t fh) F)"
  unfolding fuse_release_fh_def
  by (rule okR_bind [where P = "\<lambda>(e, u). balanced s u"], rule close_after [OF g]) (auto intro: Q)

lemma info_after:
  assumes "gained s fh t" "\<And>e q u. gained s fh u \<Longrightarrow> okR Q (F e q u)"
  shows "okR Q (bindR (gdpfs_file_get_info S t fh) (\<lambda>(e, q, u). F e q u))"
  by (rule okR_bind [OF pins_info], clarify, rule assms(2), rule pins_gained [OF assms(1)])

lemma getattr_balanced: "tabs s \<Longrightarrow> okR (\<lambda>(rv, st, t). balanced s t) (gdpfs_getattr S rt mode uid gid s path)"
  unfolding gdpfs_getattr_def
proof (rule okR_bind [OF path_opens], assumption, clarify, intro okR_if, simp add: opened_def, goal_cases)
  case (1 e fh t)
  then have g: "gained s fh t" by (simp add: opened_def)
  show ?case by (rule info_after [OF g], rule okR_any, rule close_after) auto
qed

lemma truncate_balanced: "tabs s \<Longrightarrow> okR (\<lambda>(rv, t). balanced s t) (gdpfs_truncate S rt s path len)"
  unfolding gdpfs_truncate_def
  by (rule fuse_after, assumption, simp, rule okR_bind [OF pins_writes(2)], clarify, rule release_after, erule pins_gained, assumption) simp

lemma access_balanced: "tabs s \<Longrightarrow> okR (\<lambda>(rv, t). balanced s t) (gdpfs_access S rt s path m)"
  unfolding gdpfs_access_def
  by (rule fuse_after, assumption, simp, rule info_after, assumption, rule okR_any, rule release_after) auto

lemma chmod_balanced: "tabs s \<Longrightarrow> okR (\<lambda>(rv, t). balanced s t) (gdpfs_chmod S rt s path m)"
  unfolding gdpfs_chmod_def
  by (rule fuse_after, assumption, simp, rule okR_bind [OF pins_writes(3)], clarify, rule release_after, erule pins_gained, assumption) simp

lemma unlink_balanced: "tabs s \<Longrightarrow> okR (\<lambda>(rv, t). balanced s t) (gdpfs_unlink S rt s path)"
  unfolding gdpfs_unlink_def
  by (intro okR_if, simp add: balanced_refl, rule okR_bind [OF remove_path_balanced]) auto

lemma rmdir_balanced: "tabs s \<Longrightarrow> okR (\<lambda>(rv, t). balanced s t) (gdpfs_rmdir S rt s path)"
  unfolding gdpfs_rmdir_def
  by (intro okR_if, simp add: balanced_refl, rule okR_bind [OF remove_path_balanced]) auto

lemma open_as_opens: "tabs s \<Longrightarrow> okR (\<lambda>(rv, fh, t). opened s (rv = 0) fh t) (open_as S rt s path ty flags)"
  unfolding open_as_def
proof (rule fuse_after, assumption, simp add: opened_def ENOENT_def, goal_cases)
  case (1 rv fh t)
  have "okR (\<lambda>(b, u). gained s fh u) (check_open_flags S t fh flags)"
    unfolding check_open_flags_def by (rule info_after [OF 1(2)], intro okR_if, simp, rule okR_any, rule okR_get) (simp add: Let_def)
  then show ?case
  proof (rule okR_bind, clarify, intro okR_if, goal_cases)
    case (1 b u)
    show ?case by (rule release_after [OF 1(1)]) (simp add: opened_def EACCES_def)
  next
    case (2 b u)
    then show ?case by (simp add: opened_def)
  qed
qed

lemma mkdir_gains: "tabs s \<Longrightarrow> okR (\<lambda>(rv, t). rv = 0 \<longrightarrow> (\<exists>i. gained s i t)) (gdpfs_mkdir S rt s path m)"
  unfolding gdpfs_mkdir_def
  by (intro okR_if, simp add: ENOENT_def, rule okR_bind [OF create_path_gains]) (auto simp: ENOENT_def split: if_splits)

lemma rename_gains: "tabs s \<Longrightarrow> okR (\<lambda>(rv, t). rv = 0 \<longrightarrow> (\<exists>i. gained s i t)) (gdpfs_rename S rt s path1 path2)"
  unfolding gdpfs_rename_def
proof (rule fuse_after, assumption, simp add: ENOENT_def, goal_cases)
  case (1 rv fh t)
  have t: "tabs t" using gained_has [OF 1(2)] by simp
  show ?case
  proof (rule okR_bind [OF replace_path_gains [OF t]], clarify, goal_cases)
    case (1 e u)
    show ?case
    proof (cases "EP_STAT_ISOK e")
      case True
      then obtain i where i: "gained t i u" using 1 by blast
      show ?thesis
      proof (rule okR_bind [OF close_first [OF \<open>gained s fh t\<close> i]], clarify, intro okR_if,
          simp add: ENOTDIR_def, simp add: EISDIR_def, simp add: ENOTEMPTY_def, simp add: ENOENT_def, goal_cases)
        case (1 e2 v)
        then have "tabs v" using gained_has by blast
        then show ?case using \<open>gained s i v\<close>
          by (intro okR_bind [OF remove_path_balanced]) (auto intro!: exI [of _ i] intro: gained_balanced simp: ENOENT_def)
      qed
    next
      case False
      then show ?thesis by (intro okR_any) (auto simp: ENOTDIR_def EISDIR_def ENOTEMPTY_def ENOENT_def)
    qed
  qed
qed

section \<open>Properties\<close>

lemma reach_tabs: "freach S s \<Longrightarrow> tabs s"
  using fs_inv_reach [of S s] by (auto simp: fs_inv_def inv_with_def tables_ok_def tabs_def)

lemma balanced_handles: "balanced s t \<Longrightarrow> open_handles t = open_handles s"
  using hmap_dom [of s] hmap_dom [of t] by (simp add: balanced_def)

lemma gained_handles: "gained s fh t \<Longrightarrow> unat fh \<notin> open_handles s \<and> open_handles t = insert (unat fh) (open_handles s)"
  using hmap_dom [of s] hmap_dom [of t] by (auto simp: gained_def domIff)



end
