(* ===== verification/Mount.thy ===== *)
theory Mount
  imports File_Disk Dir_Props
begin

text \<open>
  A running file system: the files on disk with their types and permissions, and room for more handles,
  writes and closed files. Opening a file that is in the table and closing it change reference counts and
  handles only; a write changes the file it goes to; a new file joins the others.
\<close>

section \<open>Changes of reference counts\<close>

definition same_data :: "gdpfs_file \<Rightarrow> gdpfs_file \<Rightarrow> bool" where
  "same_data f g \<longleftrightarrow> g = f\<lparr>ref_count := ref_count g, recently_closed := recently_closed g\<rparr>"

definition calm :: "'w fsys \<Rightarrow> 'w fsys \<Rightarrow> bool" where
  "calm s t \<longleftrightarrow> (\<forall>p. rel_option same_data (fmem s p) (fmem t p)) \<and> nheap t = nheap s \<and> world t = world s \<and>
     cache_files t = cache_files s \<and> io_mode t = io_mode s \<and> use_cache t = use_cache s \<and> cquota_f t = cquota_f s \<and>
     cdeny_f t = cdeny_f s \<and> file_hash t = file_hash s \<and> ring t = ring s"

lemma same_data_refl [simp]: "same_data f f"
  by (simp add: same_data_def)

lemma same_data_upd [simp]:
  "same_data f (f\<lparr>ref_count := n\<rparr>)" "same_data f (f\<lparr>recently_closed := b\<rparr>)"
  by (simp_all add: same_data_def)

lemma same_data_trans: "same_data f g \<Longrightarrow> same_data g h \<Longrightarrow> same_data f h"
  by (cases f, cases g, cases h) (simp add: same_data_def)

lemma same_data_sel:
  assumes "same_data f g"
  shows "log_handle g = log_handle f" "hash_key g = hash_key f" "cache_fd g = cache_fd f" "new_file g = new_file f"
    "info_cache_valid g = info_cache_valid f" "info_cache g = info_cache f" "last_recno g = last_recno f"
    "outstanding_reqs g = outstanding_reqs f" "figtree_of g = figtree_of f" "figtree_initialized g = figtree_initialized f"
  using assms by (cases f, cases g, simp add: same_data_def)+

lemma calm_refl [simp]: "calm s s"
  by (simp add: calm_def option.rel_refl)

lemma calm_trans [trans]:
  assumes "calm r s" "calm s t"
  shows "calm r t"
proof -
  have "rel_option same_data (fmem r p) (fmem t p)" for p
  proof -
    have "rel_option same_data (fmem r p) (fmem s p)" "rel_option same_data (fmem s p) (fmem t p)" using assms by (simp_all add: calm_def)
    then show ?thesis by (cases "fmem r p"; cases "fmem s p"; cases "fmem t p") (auto intro: same_data_trans)
  qed
  then show ?thesis using assms by (simp add: calm_def)
qed

lemma calm_fmem:
  assumes "calm s t" "fmem s p = Some f"
  shows "\<exists>g. fmem t p = Some g \<and> same_data f g"
proof -
  have "rel_option same_data (fmem s p) (fmem t p)" using assms(1) by (simp add: calm_def)
  then show ?thesis using assms(2) by (cases "fmem t p") auto
qed

lemma calm_put: "fmem s p = Some f \<Longrightarrow> same_data f g \<Longrightarrow> calm s (put_file s p g)"
  by (auto simp: calm_def put_file_def option.rel_refl)

lemma calm_after:
  "calm s t \<Longrightarrow> fmem t p = Some f \<Longrightarrow> same_data f g \<Longrightarrow> calm s (put_file t p g)"
  using calm_trans calm_put by blast

lemma calm_upd [simp]:
  "calm s (t\<lparr>fhs := b\<rparr>) = calm s t" "calm s (t\<lparr>files := xs\<rparr>) = calm s t" "calm s (t\<lparr>rc_links := l\<rparr>) = calm s t"
  "calm s (t\<lparr>recently_closed_size := n\<rparr>) = calm s t"
  by (simp_all add: calm_def)

text \<open>Dropping a reference does not evict a file while the list of recently closed files has room.\<close>

definition closes :: "'w fsys \<Rightarrow> 'w fsys \<Rightarrow> bool" where
  "closes s t \<longleftrightarrow> calm s t \<and> files t = files s \<and> recently_closed_size t \<le> recently_closed_size s + 1"

lemma closes_insert:
  assumes "recently_closed_size s < RC_CAP"
  shows "okR (\<lambda>(e, t). closes s t) (recently_closed_insert S s p)"
  unfolding recently_closed_insert_def Let_def
  by (rule okR_get, rule okR_bind [OF okR_assert], rule okR_any, rule okR_bind [OF okR_assert])
    (use assms in \<open>auto simp: closes_def intro: calm_put\<close>)

lemma closes_unref:
  assumes "recently_closed_size s < RC_CAP"
  shows "okR (\<lambda>(e, t). closes s t) (file_unref S s p)"
proof -
  have "okR (\<lambda>(e, t). closes s t) (recently_closed_insert S (put_file s p (f\<lparr>ref_count := n\<rparr>)) p)" if "fmem s p = Some f" for f n
  proof (rule okR_mono [OF closes_insert], use assms in simp, clarify)
    fix e t
    assume c: "closes (put_file s p (f\<lparr>ref_count := n\<rparr>)) t"
    have "calm s (put_file s p (f\<lparr>ref_count := n\<rparr>))" by (rule calm_put [OF that]) simp
    then show "closes s t" using c calm_trans unfolding closes_def by fastforce
  qed
  then show ?thesis unfolding file_unref_def Let_def
    by (intro okR_get okR_if) (auto simp: closes_def intro: calm_put)
qed

section \<open>The attributes of a file\<close>

definition attrs :: "'w fsys \<Rightarrow> nat \<Rightarrow> (gdpfs_file_type \<times> 16 word) option" where
  "attrs s p = (case fmem s p of None \<Rightarrow> None
     | Some f \<Rightarrow> if figtree_initialized f \<and> info_cache_valid f
                 then Some (file_type (info_cache f), file_perm (info_cache f)) else None)"

lemma attrs_Some:
  "attrs s p = Some (ty, perm) \<longleftrightarrow> (\<exists>f. fmem s p = Some f \<and> figtree_initialized f \<and> info_cache_valid f \<and>
     file_type (info_cache f) = ty \<and> file_perm (info_cache f) = perm)"
  by (auto simp: attrs_def split: option.split)

lemma calm_attrs: "calm s t \<Longrightarrow> attrs t = attrs s"
proof
  fix p
  assume "calm s t"
  then have "rel_option same_data (fmem s p) (fmem t p)" by (simp add: calm_def)
  then show "attrs t p = attrs s p" by (cases "fmem s p"; cases "fmem t p") (simp_all add: attrs_def same_data_sel)
qed

lemma calm_located:
  assumes "calm s t" "located hist s p f c n u"
  shows "\<exists>g. fmem t p = Some g \<and> located hist t p g c n u \<and> log_handle g = log_handle f"
proof -
  have "fmem s p = Some f" using assms(2) by (simp add: located_def data_tree_def)
  then obtain g where g: "fmem t p = Some g" "same_data f g" using calm_fmem [OF assms(1)] by blast
  have "located hist t p g c n u" using assms g unfolding located_def data_tree_def calm_def by (simp add: same_data_sel [OF g(2)])
  then show ?thesis using g same_data_sel(1) [OF g(2)] by blast
qed

lemma calm_disk:
  assumes "disk hist s M" "calm s t" "tabs t"
  shows "disk hist t M"
proof -
  obtain F T where D: "disk_with hist s M F T" using assms(1) by (auto simp: disk_def)
  define G where "G p = the (fmem t p)" for p
  have l: "located hist t p (G p) c n (T p) \<and> log_handle (G p) = log_handle (F p)" if "M p = Some (c, n)" for p c n
    using calm_located [OF assms(2) disk_withD(2) [OF D that]] by (auto simp: G_def)
  have lg: "log_handle (G p) = log_handle (F p)" if d: "p \<in> dom M" for p
  proof -
    obtain cn where "M p = Some cn" using domD [OF d] by blast
    then show ?thesis using l [of p "fst cn" "snd cn"] by simp
  qed
  have "disk_with hist t M G T" unfolding disk_with_def
  proof (intro conjI allI impI)
    fix p q assume d: "p \<in> dom M" "q \<in> dom M" "p \<noteq> q"
    show "set (addrs (T p)) \<inter> set (addrs (T q)) = {}" "log_handle (G p) \<noteq> log_handle (G q)"
      using disk_withD(3) [OF D, of p q] d lg by (auto simp: domIff)
  qed (use l assms(3) in auto)
  then show ?thesis by (auto simp: disk_def)
qed

section \<open>Mounted file systems\<close>

text \<open>Room for \<open>a\<close> more writes to a file before they are acknowledged, and for \<open>b\<close> more closed files.\<close>

definition mounted :: "'w log_service \<Rightarrow> ('w \<Rightarrow> gdp_name \<Rightarrow> log_rec list) \<Rightarrow> nat \<Rightarrow> nat \<Rightarrow> 'w fsys \<Rightarrow> (nat \<rightharpoonup> u8 list \<times> nat) \<Rightarrow> bool" where
  "mounted S hist a b s M \<longleftrightarrow> svc_ok S hist \<and> freach S s \<and> disk hist s M \<and>
     a < 2 ^ 31 \<and> (\<forall>p f. fmem s p = Some f \<longrightarrow> outstanding_reqs f + int a < 2 ^ 31) \<and> recently_closed_size s + int b \<le> RC_CAP"

lemma mountedD:
  assumes "mounted S hist a b s M"
  shows "svc_ok S hist" "freach S s" "fs_inv s" "tabs s" "disk hist s M" "room s"
    "fmem s p = Some f \<Longrightarrow> outstanding_reqs f + int a < 2 ^ 31" "recently_closed_size s + int b \<le> RC_CAP" "a < 2 ^ 31"
proof -
  show M: "svc_ok S hist" "freach S s" "disk hist s M" "a < 2 ^ 31" "recently_closed_size s + int b \<le> RC_CAP"
    "fmem s p = Some f \<Longrightarrow> outstanding_reqs f + int a < 2 ^ 31" using assms by (simp_all add: mounted_def)
  show "fs_inv s" by (rule fs_inv_reach [OF M(2)])
  then show "tabs s" by (auto simp: fs_inv_def inv_with_def tables_ok_def tabs_def)
  have "outstanding_reqs f + int a < 2 ^ 31" if "fmem s p = Some f" for p f using assms that by (simp add: mounted_def)
  then show "room s" unfolding room_def by fastforce
qed

lemma mounted_mono: "mounted S hist a b s M \<Longrightarrow> a' \<le> a \<Longrightarrow> b' \<le> b \<Longrightarrow> mounted S hist a' b' s M"
  unfolding mounted_def by fastforce

lemma tabs_reach: "freach S s \<Longrightarrow> tabs s"
  using fs_inv_reach [of S s] by (auto simp: fs_inv_def inv_with_def tables_ok_def tabs_def)

lemma mounted_calm:
  assumes "mounted S hist a b s M" "calm s t" "freach S t" "recently_closed_size t + int b' \<le> RC_CAP"
  shows "mounted S hist a b' t M"
proof -
  have "outstanding_reqs g + int a < 2 ^ 31" if g: "fmem t p = Some g" for p g
  proof -
    have "rel_option same_data (fmem s p) (fmem t p)" using assms(2) by (simp add: calm_def)
    then obtain f where "fmem s p = Some f" "same_data f g" using g by (cases "fmem s p") auto
    then show ?thesis using mountedD(7) [OF assms(1)] same_data_sel(8) by metis
  qed
  then show ?thesis using assms(3,4) mountedD(1,9) [OF assms(1)] calm_disk [OF mountedD(5) [OF assms(1)] assms(2) tabs_reach [OF assms(3)]]
    by (simp add: mounted_def)
qed

section \<open>Opening and closing\<close>

text \<open>The states before and after an operation that leaves the open handles but \<open>h\<close> alone.\<close>

definition keeps_handles :: "nat set \<Rightarrow> 'w fsys \<Rightarrow> 'w fsys \<Rightarrow> bool" where
  "keeps_handles H s t \<longleftrightarrow> (\<forall>fh. unat fh \<in> open_handles s - H \<longrightarrow> handle_file t fh = handle_file s fh)"

lemma keeps_refl [simp]: "keeps_handles H s s"
  by (simp add: keeps_handles_def)

lemma handle_open: "handle_file s fh = Some p \<Longrightarrow> unat fh \<in> open_handles s"
  by (simp add: handle_file_def split: if_splits)

lemma close_mounted:
  assumes m: "mounted S hist a (Suc b) s M" and h: "handle_file s fh = Some p"
  shows "\<exists>t. gdpfs_file_close S s fh = Inr (GDPFS_STAT_OK, t) \<and> mounted S hist a b t M \<and> calm s t \<and>
    open_handles t = open_handles s - {unat fh} \<and> keeps_handles {unat fh} s t"
proof -
  have n: "recently_closed_size s < RC_CAP" using mountedD(8) [OF m] by simp
  have o: "unat fh \<in> open_handles s" by (rule handle_open [OF h])
  obtain b' q f where c: "bitmap_release (fhs s) fh = Inr (0, Some b')" "lookup_fh s fh = Inr (Some q)" "fmem s q = Some f"
    "bits b' = open_handles s - {unat fh}" "inv_with (open_handles s - {unat fh}) (one_ref q) (s\<lparr>fhs := Some b'\<rparr>)"
    using close_step [OF mountedD(3) [OF m] o] by blast
  let ?s = "s\<lparr>fhs := Some b'\<rparr>"
  have f: "fmem ?s q = Some f" "recently_closed_size ?s < RC_CAP" using c(3) n by simp_all
  obtain t where t: "file_unref S ?s q = Inr (GDPFS_STAT_OK, t)" using unref_succeeds [OF c(5) f] by blast
  have cl: "gdpfs_file_close S s fh = Inr (GDPFS_STAT_OK, t)" using c(1,2) t by (simp add: gdpfs_file_close_def)
  have k: "closes ?s t" "pins ?s t" using okRD [OF closes_unref [OF f(2)] t] okRD [OF pins_unref t] by simp_all
  have st: "calm s t" using k(1) calm_trans [of s ?s t] by (simp add: closes_def)
  have ot: "open_handles t = open_handles s - {unat fh}" using k(2) pins_handles c(4) by (fastforce simp: open_handles_def)
  have "handle_file t fh' = handle_file s fh'" if "unat fh' \<in> open_handles s - {unat fh}" for fh'
    using that ot k(2) by (simp add: handle_file_def pins_def)
  moreover have "freach S t" by (rule freach.Step [OF mountedD(2) [OF m] fstep.Close [OF o cl]])
  moreover have "recently_closed_size t + int b \<le> RC_CAP" using k(1) mountedD(8) [OF m] by (simp add: closes_def)
  ultimately show ?thesis using cl st ot mounted_calm [OF m st] by (auto simp: keeps_handles_def)
qed

lemma revive_calm:
  "okR (\<lambda>t. calm s t \<and> fhs t = fhs s \<and> files t = files s \<and> recently_closed_size t \<le> recently_closed_size s) (recently_closed_revive s p)"
  unfolding recently_closed_revive_def Let_def
  by (rule okR_get, rule okR_bind [OF okR_assert], rule okR_any2) (auto intro: calm_put)

text \<open>The structure of a log in the table is found, and taken off the list of recently closed files.\<close>

lemma struct_found:
  assumes i: "inv_with U X s" and n: "file_hash s n = Some p"
  shows "\<exists>t. open_struct S s n = Inr (Inr (p, t)) \<and> calm s t \<and> fhs t = fhs s \<and> files t = files s \<and>
    recently_closed_size t \<le> recently_closed_size s"
proof -
  have "tables_ok U s" using i by (simp add: inv_with_def)
  then obtain f where f: "fmem s p = Some f" using tables_found [of U s n p] n by blast
  show ?thesis
  proof (cases "recently_closed f")
    case True
    obtain t where t: "recently_closed_revive s p = Inr t" using rc_revive_inv [OF i f True] by blast
    then show ?thesis using okRD [OF revive_calm t] n f True by (simp add: open_struct_def)
  next
    case False
    then show ?thesis using n f by (simp add: open_struct_def)
  qed
qed

lemma open_mounted:
  assumes m: "mounted S hist a b s M" and n: "file_hash s n = Some p" and at: "attrs s p = Some (ty, perm)"
    and free: "open_handles s \<noteq> {..<MAX_FHS}" and want: "want = GDPFS_FILE_TYPE_UNKNOWN \<or> want = ty"
  shows "\<exists>fh t. gdpfs_file_open_type S s n want = Inr (GDPFS_STAT_OK, fh, t) \<and> mounted S hist a b t M \<and> calm s t \<and>
    handle_file t fh = Some p \<and> unat fh \<notin> open_handles s \<and> open_handles t = insert (unat fh) (open_handles s) \<and> keeps_handles {} s t \<and> fh \<noteq> -1"
proof -
  have i: "fs_inv s" and T: "tabs s" by (rule mountedD [OF m])+
  obtain fh b' where b: "bitmap_reserve (fhs s) = Inr (fh, Some b')" "fh \<noteq> -1" "bitmap_wf b'" "capacity b' = MAX_FHS" "unat fh < MAX_FHS"
    "unat fh \<notin> open_handles s" "bits b' = insert (unat fh) (open_handles s)" using reserve_free [OF i free] by blast
  have fl: "length (files s) = MAX_FHS" using T by (simp add: tabs_def)
  let ?s = "s\<lparr>fhs := Some b'\<rparr>"
  have "inv_with (open_handles s) (\<lambda>_. 0) ?s" using inv_new_bits [of "open_handles s" "\<lambda>_. 0" s b'] i b by (auto simp: fs_inv_def)
  from struct_found [OF this, of n p S] n obtain u where u: "open_struct S ?s n = Inr (Inr (p, u))" "calm ?s u" "fhs u = Some b'"
    "files u = files s" "recently_closed_size u \<le> recently_closed_size s" by auto
  have su: "calm s u" using u(2) calm_trans [of s ?s u] by simp
  obtain f where f: "fmem u p = Some f" "figtree_initialized f" "info_cache_valid f" "file_type (info_cache f) = ty"
    using at calm_attrs [OF su] attrs_Some [of u p ty perm] by auto
  define g where "g = f\<lparr>ref_count := ref_count f + 1\<rparr>"
  define t where "t = (put_file u p g)\<lparr>files := (files u)[unat fh := Some p]\<rparr>"
  have g: "get_file t p = Inr g" "fmem t p = Some g" by (simp_all add: t_def put_file_def get_file_def)
  have "same_data f g" by (simp add: g_def)
  from calm_after [OF su f(1) this] have st: "calm s t" by (simp add: t_def)
  have ct: "open_check_type S t fh p want 0 False False = Inr (GDPFS_STAT_OK, t)"
    using want f(3,4) get_info_valid [OF g(2), of S] g(1) by (auto simp: open_check_type_def g_def EP_STAT_ISOK_def)
  have ix: "open_index S t p False = Inr t" using g f(2) by (simp add: open_index_def g_def)
  have op: "gdpfs_file_open_type S s n want = Inr (GDPFS_STAT_OK, fh, t)"
    unfolding gdpfs_file_open_type_def open_file_def b(1) bindR_simps prod.case u(1) sum.case file_ref_def get_file_Some [OF f(1)]
      g_def [symmetric] Let_def if_False
    using b(2,5) u(4) fl g(1) ct ix by (simp add: t_def EP_STAT_ISOK_def)
  have ot: "open_handles t = insert (unat fh) (open_handles s)" "files t = (files s)[unat fh := Some p]"
    using b(7) u(3,4) by (simp_all add: t_def open_handles_def)
  have r: "freach S t" using op by (auto simp: gdpfs_file_open_type_def intro: freach.Step [OF mountedD(2) [OF m]] fstep.Open [OF mountedD(6) [OF m]])
  have "handle_file t fh' = handle_file s fh'" if "unat fh' \<in> open_handles s" for fh'
  proof -
    have "unat fh' \<noteq> unat fh" using that b(6) by metis
    then show ?thesis using that ot by (simp add: handle_file_def)
  qed
  moreover have "handle_file t fh = Some p" using ot b(5) fl by (simp add: handle_file_def)
  moreover have "recently_closed_size t + int b \<le> RC_CAP" using u(5) mountedD(8) [OF m] by (simp add: t_def)
  ultimately show ?thesis using op mounted_calm [OF m st r] st b(2,6) ot by (auto simp: keeps_handles_def)
qed

section \<open>Writing\<close>

text \<open>What a write leaves of the tables and of the attributes; at most \<open>k\<close> more acknowledgements are due to a file.\<close>

definition like :: "int \<Rightarrow> gdpfs_file \<Rightarrow> gdpfs_file \<Rightarrow> bool" where
  "like k f g \<longleftrightarrow> figtree_initialized g = figtree_initialized f \<and> info_cache_valid g = info_cache_valid f \<and>
     file_type (info_cache g) = file_type (info_cache f) \<and> file_perm (info_cache g) = file_perm (info_cache f) \<and>
     outstanding_reqs g \<le> outstanding_reqs f + k"

definition wrote :: "int \<Rightarrow> 'w fsys \<Rightarrow> 'w fsys \<Rightarrow> bool" where
  "wrote k s t \<longleftrightarrow> fhs t = fhs s \<and> files t = files s \<and> file_hash t = file_hash s \<and> ring t = ring s \<and> recently_closed_size t = recently_closed_size s \<and> cdeny_f t = cdeny_f s \<and>
     (\<forall>p. rel_option (like k) (fmem s p) (fmem t p))"

lemma wrote_refl: "0 \<le> k \<Longrightarrow> wrote k s s"
  by (simp add: wrote_def like_def option.rel_refl)

lemma like_trans: "like j f g \<Longrightarrow> like k g h \<Longrightarrow> like (j + k) f h"
  by (auto simp: like_def)

lemma wrote_put:
  assumes "wrote j s t" "fmem t p = Some f" "like k f g" "0 \<le> k"
  shows "wrote (j + k) s (put_file t p g)"
proof -
  have "rel_option (like (j + k)) (fmem s q) (fmem (put_file t p g) q)" for q
  proof -
    have "rel_option (like j) (fmem s q) (fmem t q)" using assms(1) by (simp add: wrote_def)
    then show ?thesis using assms(2-4) like_trans [of j _ f k g]
      by (cases "fmem s q"; cases "fmem t q") (auto simp: like_def)
  qed
  then show ?thesis using assms(1) by (simp add: wrote_def put_file_def)
qed

lemma wrote_put0: "wrote j s t \<Longrightarrow> fmem t p = Some f \<Longrightarrow> like 0 f g \<Longrightarrow> wrote j s (put_file t p g)"
  using wrote_put [of j s t p f 0 g] by simp

lemma wrote_upd [simp]:
  "wrote k s (t\<lparr>nheap := h\<rparr>) = wrote k s t" "wrote k s (t\<lparr>cache_files := c\<rparr>) = wrote k s t" "wrote k s (t\<lparr>world := w\<rparr>) = wrote k s t"
  "wrote k s (t\<lparr>pending := es\<rparr>) = wrote k s t"
  by (simp_all add: wrote_def)

lemma wrote_fill: "wrote k s t \<Longrightarrow> okR (\<lambda>(e, u). wrote k s u) (gdpfs_file_fill_cache t p buf off ow)"
  unfolding gdpfs_file_fill_cache_def
  by (rule okR_if, simp, rule okR_if, rule okR_any) (auto simp: Let_def split: option.split prod.split)

lemma wrote_do_write: "okR (\<lambda>(n, t). wrote 1 s t) (do_write S s fh buf off info)"
proof -
  have app: "okR (\<lambda>(n, t). wrote 1 s t) (case rec_append S u lg r of (estat, v) \<Rightarrow>
      if EP_STAT_ISOK estat then Inr (sz, v\<lparr>pending := pending v @ [Free_Fileref p estat]\<rparr>) else Inr (0, v))" if "wrote 1 s u" for u lg r sz p
    using that by (auto simp: rec_append_def Let_def split: prod.split)
  have idx: "okR (\<lambda>(n, t). wrote 1 s t) (bindR (get_file u p) (\<lambda>f.
      bindR (if c then bindR (m f) (\<lambda>(tr, h). Inr (put_file ((put_file u p (f\<lparr>last_recno := last_recno f + 1\<rparr>))\<lparr>nheap := h\<rparr>) p ((f\<lparr>last_recno := last_recno f + 1\<rparr>)\<lparr>figtree_of := tr\<rparr>)))
             else Inr (put_file u p (f\<lparr>last_recno := last_recno f + 1\<rparr>))) (\<lambda>v.
      case rec_append S v (log_handle (f\<lparr>last_recno := last_recno f + 1\<rparr>)) r of (estat, v) \<Rightarrow>
        if EP_STAT_ISOK estat then Inr (sz, v\<lparr>pending := pending v @ [Free_Fileref p estat]\<rparr>) else Inr (0, v))))"
    if "wrote 1 s u" for u p c m r sz
  proof (rule okR_get, rule okR_bind [of "wrote 1 s"], goal_cases)
    case (1 f)
    have v: "wrote 1 s (put_file u p (f\<lparr>last_recno := last_recno f + 1\<rparr>))" by (rule wrote_put0 [OF that 1]) (simp add: like_def)
    have "wrote 1 s (put_file ((put_file u p (f\<lparr>last_recno := last_recno f + 1\<rparr>))\<lparr>nheap := h\<rparr>) p ((f\<lparr>last_recno := last_recno f + 1\<rparr>)\<lparr>figtree_of := tr\<rparr>))" for h tr
      by (rule wrote_put0 [of _ _ _ _ "f\<lparr>last_recno := last_recno f + 1\<rparr>"]) (use v in \<open>simp_all add: like_def put_file_def\<close>)
    then show ?case using v by (intro okR_if okR_any2) simp_all
  qed (rule app)
  show ?thesis unfolding do_write_def Let_def file_ref_def
  proof (rule okR_any, goal_cases)
    case (1 q)
    show ?case
    proof (cases q)
      case (Some p)
      have bnd: "okR (\<lambda>(n, t). wrote 1 s t) (bindR (bindR (get_file s p) (\<lambda>f. Inr (EP_STAT_OK, put_file s p (f\<lparr>ref_count := ref_count f + 1\<rparr>)))) F)"
        if "\<And>f. fmem s p = Some f \<Longrightarrow> okR (\<lambda>(n, t). wrote 1 s t) (F (EP_STAT_OK, put_file s p (f\<lparr>ref_count := ref_count f + 1\<rparr>)))" for F
        using that by (cases "fmem s p") (simp_all add: get_file_def)
      show ?thesis unfolding Some option.case
      proof (rule bnd, unfold prod.case, goal_cases)
        case (1 f)
        let ?g = "f\<lparr>ref_count := ref_count f + 1\<rparr>"
        have w: "wrote 1 s (put_file (put_file s p ?g) p (?g\<lparr>outstanding_reqs := outstanding_reqs ?g + 1\<rparr>))"
          using wrote_put [OF wrote_put0 [OF wrote_refl [of 0 s] 1, of ?g], of p ?g 1 "?g\<lparr>outstanding_reqs := outstanding_reqs ?g + 1\<rparr>"]
          by (simp add: like_def)
        have g: "get_file (put_file s p ?g) p = Inr ?g" by (simp add: get_file_def)
        show ?case unfolding g bindR_simps
          by (rule okR_bind [of "wrote 1 s"], rule okR_if, rule okR_bind [OF wrote_fill [OF w]])
            (use w idx in auto)
      qed
    qed (simp add: wrote_refl)
  qed
qed

lemma wrote_trans:
  assumes "wrote j r s" "wrote k s t"
  shows "wrote (j + k) r t"
proof -
  have "rel_option (like (j + k)) (fmem r p) (fmem t p)" for p
  proof -
    have "rel_option (like j) (fmem r p) (fmem s p)" "rel_option (like k) (fmem s p) (fmem t p)" using assms by (simp_all add: wrote_def)
    then show ?thesis by (cases "fmem r p"; cases "fmem s p"; cases "fmem t p") (auto intro: like_trans)
  qed
  then show ?thesis using assms by (simp add: wrote_def)
qed

lemma wrote_attrs: "wrote k s t \<Longrightarrow> attrs t = attrs s"
proof
  fix p
  assume "wrote k s t"
  then have "rel_option (like k) (fmem s p) (fmem t p)" by (simp add: wrote_def)
  then show "attrs t p = attrs s p" by (cases "fmem s p"; cases "fmem t p") (auto simp: attrs_def like_def)
qed

lemma wrote_reqs:
  assumes "wrote 1 s t" "fmem t p = Some g" "\<And>p f. fmem s p = Some f \<Longrightarrow> outstanding_reqs f + int (Suc a) < 2 ^ 31"
  shows "outstanding_reqs g + int a < 2 ^ 31"
proof -
  have "rel_option (like 1) (fmem s p) (fmem t p)" using assms(1) by (simp add: wrote_def)
  then obtain f where "fmem s p = Some f" "like 1 f g" using assms(2) by (cases "fmem s p") auto
  then show ?thesis using assms(3) [of p f] by (simp add: like_def)
qed

lemma change_info_wrote:
  assumes "change_info s p upd = Inr (info, s1)" "\<And>i. file_type (upd i) = file_type i \<and> file_perm (upd i) = file_perm i"
  shows "wrote 0 s s1"
proof -
  obtain f where f: "fmem s p = Some f" "s1 = put_file s p (f\<lparr>info_cache := upd (info_cache f)\<rparr>)"
    using assms(1) by (auto simp: change_info_def get_file_def Let_def split: option.splits)
  then show ?thesis using wrote_put0 [OF wrote_refl [of 0 s] f(1), of "f\<lparr>info_cache := upd (info_cache f)\<rparr>"] assms(2) by (simp add: like_def)
qed

lemma wrote_write:
  assumes "gdpfs_file_get_info S s fh = Inr (GDPFS_STAT_OK, Some p, s)" "gdpfs_file_write S s fh buf off = Inr (n, t)"
  shows "wrote 1 s t"
proof -
  obtain info s1 where c: "change_info s p (\<lambda>i. i\<lparr>file_size := max (file_size i) (off + of_nat (length buf))\<rparr>) = Inr (info, s1)"
    and w: "do_write S s1 fh buf off info = Inr (n, t)"
    using assms by (auto simp: gdpfs_file_write_def EP_STAT_ISOK_def deref_def bindR_eq_Inr Let_def)
  have "wrote 0 s s1" by (rule change_info_wrote [OF c]) simp
  then show ?thesis using wrote_trans [of 0 s s1 1 t] okRD [OF wrote_do_write w] by simp
qed

text \<open>A write through a handle.\<close>

lemma write_mounted:
  assumes m: "mounted S hist (Suc a) b s M" and h: "handle_file s fh = Some p" and p: "M p = Some cn"
    and buf: "buf \<noteq> []" "fits s off buf"
  shows "\<exists>t. gdpfs_file_write S s fh buf off = Inr (of_nat (length buf), t) \<and> mounted S hist a b t (M(p \<mapsto> spec_op (Op_Write off buf) cn)) \<and>
    wrote 1 s t \<and> use_cache t = use_cache s \<and> cquota_f t = cquota_f s"
proof -
  have S: "svc_ok S hist" and D: "disk hist s M" by (rule mountedD [OF m])+
  have F: "file_data hist s fh (fst cn) (snd cn)" using disk_file [OF D h] p by simp
  obtain t where t: "gdpfs_file_write S s fh buf off = Inr (of_nat (length buf), t)" "use_cache t = use_cache s" "cquota_f t = cquota_f s"
    using write_data [OF S F buf(2,1)] by blast
  obtain t' where t': "run_op S fh s (Op_Write off buf) = Inr t'" "disk hist t' (M(p \<mapsto> spec_op (Op_Write off buf) cn))"
    using run_on_disk [OF S D h p, of "Op_Write off buf"] buf by auto
  have "t' = t" using t(1) t'(1) by simp
  then have d: "disk hist t (M(p \<mapsto> spec_op (Op_Write off buf) cn))" using t'(2) by simp
  obtain q where "gdpfs_file_get_info S s fh = Inr (GDPFS_STAT_OK, Some q, s)" using file_dataE [OF F] by metis
  then have w: "wrote 1 s t" by (rule wrote_write [OF _ t(1)])
  have "freach S t" by (rule freach.Step [OF mountedD(2) [OF m] fstep.Write [OF handle_open [OF h] mountedD(6) [OF m] t(1)]])
  moreover have "recently_closed_size t = recently_closed_size s" using w by (simp add: wrote_def)
  ultimately have "mounted S hist a b t (M(p \<mapsto> spec_op (Op_Write off buf) cn))"
    using S d wrote_reqs [OF w] mountedD(7,8,9) [OF m] by (simp add: mounted_def)
  then show ?thesis using t w by blast
qed

section \<open>New files\<close>

definition fresh_log :: "'w log_service \<Rightarrow> ('w \<Rightarrow> gdp_name \<Rightarrow> log_rec list) \<Rightarrow> 'w fsys \<Rightarrow> gdp_name \<Rightarrow> bool" where
  "fresh_log S hist s g \<longleftrightarrow> file_hash s g = None \<and> EP_STAT_ISOK (svc_open S (world s) g) \<and> hist (world s) g = [] \<and> io_mode s = GDP_MODE_RA \<and>
     heap_ok (nheap s) \<and> (use_cache s \<longrightarrow> \<not> cdeny_f s g \<and> cache_files s g = None)"

lemma calm_fresh: "calm s t \<Longrightarrow> fresh_log S hist t g = fresh_log S hist s g"
  by (simp add: calm_def fresh_log_def)

lemma disk_ring: "disk hist (s\<lparr>ring := q\<rparr>) M = disk hist s M"
  by (simp add: disk_def disk_with_def located_def data_tree_def tabs_def)

lemma create_mounted:
  assumes m: "mounted S hist (Suc a) b s M" and r: "gdpfs_log_get_precreated (ring s) = Some (g, q)" and g: "fresh_log S hist s g"
    and free: "open_handles s \<noteq> {..<MAX_FHS}" and ty: "ty \<noteq> GDPFS_FILE_TYPE_UNKNOWN"
  shows "\<exists>fh t p. gdpfs_file_create S s ty perm = Inr (GDPFS_STAT_OK, fh, g, t) \<and> mounted S hist a b t (M(p \<mapsto> ([], 0))) \<and> M p = None \<and>
    handle_file t fh = Some p \<and> unat fh \<notin> open_handles s \<and> open_handles t = insert (unat fh) (open_handles s) \<and> keeps_handles {} s t \<and>
    attrs s p = None \<and> attrs t = (attrs s)(p \<mapsto> (ty, perm)) \<and> file_hash t = (file_hash s)(g \<mapsto> p) \<and> use_cache t = use_cache s \<and> cquota_f t = cquota_f s"
proof -
  let ?s = "s\<lparr>ring := q\<rparr>"
  have S: "svc_ok S hist" by (rule mountedD [OF m])
  have i: "fs_inv ?s" by (rule fs_inv_quiet [OF mountedD(3) [OF m] quiet_other(4)])
  have c: "can_create S hist ?s g" using g free by (simp add: can_create_def fresh_log_def open_handles_def)
  have D: "disk hist ?s M" using mountedD(5) [OF m] by (simp add: disk_ring)
  obtain fh t p where t: "gdpfs_file_open_init S ?s g ty perm True = Inr (GDPFS_STAT_OK, fh, t)" "disk hist t (M(p \<mapsto> ([], 0)))" "M p = None"
    "handle_file t fh = Some p" "\<forall>fh'. unat fh' \<in> open_handles ?s \<longrightarrow> handle_file t fh' = handle_file ?s fh'"
    "open_handles t = insert (unat fh) (open_handles ?s)" "unat fh \<notin> open_handles ?s" "use_cache t = use_cache ?s" "cquota_f t = cquota_f ?s"
    "placed hist ?s fh g p t" "born ty perm t p" "recently_closed_size t = recently_closed_size ?s"
    using create_on_disk [OF S i c ty D, of perm] by blast
  have o: "open_handles ?s = open_handles s" "handle_file ?s = handle_file s" by (auto simp: open_handles_def handle_file_def)
  have cr: "gdpfs_file_create S s ty perm = Inr (GDPFS_STAT_OK, fh, g, t)" using r t(1) by (simp add: gdpfs_file_create_def EP_STAT_ISOK_def)
  have P: "fmem s p = None" "\<And>q. q \<noteq> p \<Longrightarrow> fmem t q = fmem s q" "file_hash t = (file_hash s)(g \<mapsto> p)"
    using t(10) by (simp_all add: placed_def)
  obtain f where f: "fmem t p = Some f" "outstanding_reqs f = 1" using t(11) by (auto simp: born_def)
  have at: "attrs t = (attrs s)(p \<mapsto> (ty, perm))"
  proof
    show "attrs t x = ((attrs s)(p \<mapsto> (ty, perm))) x" for x
      using t(11) P(2) [of x] attrs_Some [of t p ty perm] by (cases "x = p") (auto simp: born_def attrs_def)
  qed
  have "outstanding_reqs k + int a < 2 ^ 31" if "fmem t x = Some k" for x k
    using that P(2) [of x] f mountedD(7) [OF m, of x k] mountedD(9) [OF m] by (cases "x = p") auto
  moreover have "freach S t" by (rule freach.Step [OF mountedD(2) [OF m] fstep.Create [OF mountedD(6) [OF m] cr]])
  ultimately have "mounted S hist a b t (M(p \<mapsto> ([], 0)))" using S t(2,12) mountedD(8,9) [OF m] by (simp add: mounted_def)
  moreover have "keeps_handles {} s t" using t(5) o by (simp add: keeps_handles_def)
  moreover have "attrs s p = None" using P(1) by (simp add: attrs_def)
  ultimately show ?thesis using cr t(3,4,6-9) o at P(3) by (intro exI [of _ fh] exI [of _ t] exI [of _ p]) simp
qed

end
