(* ===== verification/Path.thy ===== *)
theory Path
  imports Mount
begin

text \<open>
  Paths in a mounted file system. Directories lead to one another through their entries and the table of
  files; the loop over a path follows them, closes every directory it leaves, and ends at the file the path
  names, or fails where an entry is missing.
\<close>

section \<open>Directories on disk\<close>

definition dir_on :: "(nat \<rightharpoonup> u8 list \<times> nat) \<Rightarrow> nat \<Rightarrow> gdpfs_dir_entry_phys list \<Rightarrow> bool" where
  "dir_on M d es \<longleftrightarrow> (\<forall>e \<in> set es. ent_wf e) \<and> uniq es \<and>
     (\<exists>c. M d = Some (c, sizeof_dirent * length es) \<and> take (sizeof_dirent * length es) c = dir_bytes es)"

lemma dir_on_data:
  assumes "mounted S hist a b s M" "handle_file s fh = Some d" "dir_on M d es"
  shows "dir_data hist s fh es"
  using assms(3) disk_file [OF mountedD(5) [OF assms(1)] assms(2)] by (auto simp: dir_on_def dir_data_def)

lemma find_found:
  assumes m: "mounted S hist a b s M" and h: "handle_file s fh = Some d" and d: "dir_on M d es" and n: "dir_map es name = Some g"
  shows "\<exists>off ent. find_insert_offset S s fh name = Inr ((GDPFS_STAT_FILE_EXISTS, off, ent), s) \<and> ent_gname ent = g"
proof -
  obtain found j where f: "find_slot es name 0 None = (found, j)" by (cases "find_slot es name 0 None")
  obtain ent where e: "find_insert_offset S s fh name = Inr ((if found then GDPFS_STAT_FILE_EXISTS else GDPFS_STAT_OK, dslot j, if found then es ! j else ent), s)"
    using find_in_dir [OF mountedD(1) [OF m] dir_on_data [OF m h d], of name] f by auto
  have found: found
  proof (rule ccontr)
    assume "\<not> found"
    then show False using find_slot_free [of es name 0 None j] f n dir_map_none [of es name] by auto
  qed
  then have "dir_map es name = Some (ent_gname (es ! j))"
    using find_slot_found [of es name 0 None j] f dir_map_at [of es j] d by (auto simp: dir_on_def)
  then show ?thesis using e found n by auto
qed

lemma find_missing:
  assumes m: "mounted S hist a b s M" and h: "handle_file s fh = Some d" and d: "dir_on M d es" and n: "dir_map es name = None"
  shows "\<exists>j ent. find_slot es name 0 None = (False, j) \<and> find_insert_offset S s fh name = Inr ((GDPFS_STAT_OK, dslot j, ent), s)"
proof -
  obtain found j where f: "find_slot es name 0 None = (found, j)" by (cases "find_slot es name 0 None")
  have "\<not> found" using find_slot_found [of es name 0 None j] f n dir_map_none [of es name] by auto
  then show ?thesis using find_in_dir [OF mountedD(1) [OF m] dir_on_data [OF m h d], of name] f by auto
qed

section \<open>Following a path\<close>

definition comp_ok :: "cstring \<Rightarrow> bool" where
  "comp_ok n \<longleftrightarrow> n \<noteq> [] \<and> SLASH \<notin> set n \<and> name_ok n"

definition path_of :: "cstring list \<Rightarrow> cstring" where
  "path_of ns = concat (map (\<lambda>n. SLASH # n) ns)"

text \<open>The directories below a directory, for the data, the table and the attributes of a state.\<close>

inductive leads ::
  "(nat \<rightharpoonup> u8 list \<times> nat) \<Rightarrow> (gdp_name \<rightharpoonup> nat) \<Rightarrow> (nat \<rightharpoonup> gdpfs_file_type \<times> 16 word) \<Rightarrow> nat \<Rightarrow> cstring list \<Rightarrow> nat \<Rightarrow> bool"
  for M H A where
  Here: "leads M H A d [] d"
| Down: "comp_ok n \<Longrightarrow> dir_on M d es \<Longrightarrow> dir_map es n = Some g \<Longrightarrow> H g = Some q \<Longrightarrow> A q = Some (GDPFS_FILE_TYPE_DIR, perm) \<Longrightarrow>
    leads M H A q ns p \<Longrightarrow> leads M H A d (n # ns) p"

inductive_simps leads_Nil [simp]: "leads M H A d [] p"
inductive_cases leads_ConsE: "leads M H A d (n # ns) p"

lemma path_of_simps [simp]:
  "path_of [] = []" "path_of (n # ns) = SLASH # n @ path_of ns" "path_of (ns @ ms) = path_of ns @ path_of ms"
  by (simp_all add: path_of_def)

lemma split_path:
  assumes "comp_ok n"
  shows "takeWhile (\<lambda>x. x \<noteq> SLASH) (n @ path_of ns) = n" "dropWhile (\<lambda>x. x \<noteq> SLASH) (n @ path_of ns) = path_of ns"
proof -
  have n: "\<forall>x \<in> set n. x \<noteq> SLASH" using assms by (auto simp: comp_ok_def)
  show "takeWhile (\<lambda>x. x \<noteq> SLASH) (n @ path_of ns) = n" using n by (cases ns) (simp_all add: takeWhile_append2)
  show "dropWhile (\<lambda>x. x \<noteq> SLASH) (n @ path_of ns) = path_of ns" using n by (cases ns) (simp_all add: dropWhile_append2)
qed

lemma walk_end [simp]: "open_walk S want s fh ct [] = Inr (EP_STAT_OK, fh, s)"
  by (subst open_walk.simps) simp

text \<open>One round of the loop.\<close>

lemma walk_step:
  assumes "comp_ok n"
  shows "open_walk S want s fh ct (path_of (n # ns)) =
    bindR (find_insert_offset S s fh n) (\<lambda>((estat, _, phys_ent), s).
    bindR (gdpfs_file_close S s fh) (\<lambda>(_, s).
    if estat = GDPFS_STAT_FILE_EXISTS then
      bindR (gdpfs_file_open_type S s (ent_gname phys_ent) (if path_of ns = [] then want else ct)) (\<lambda>(estat, fh, s).
      if \<not> EP_STAT_ISOK estat then Inr (estat, -1, s)
      else open_walk S want s fh (if path_of ns = [] then want else ct) (path_of ns))
    else if EP_STAT_ISOK estat then Inr (GDPFS_STAT_BADPATH, -1, s)
    else Inr (GDPFS_STAT_CORRUPT, -1, s)))"
proof -
  have n: "n @ path_of ns \<noteq> []" "hd (n @ path_of ns) \<noteq> SLASH" "\<not> NAME_MAX_GDPFS < length n"
    using assms by (cases n; auto simp: comp_ok_def name_ok_def)+
  have "open_walk S want s fh ct (path_of (n # ns)) = open_walk S want s fh ct (n @ path_of ns)"
    by (subst open_walk.simps) simp
  also have "\<dots> = bindR (find_insert_offset S s fh n) (\<lambda>((estat, _, phys_ent), s).
    bindR (gdpfs_file_close S s fh) (\<lambda>(_, s).
    if estat = GDPFS_STAT_FILE_EXISTS then
      bindR (gdpfs_file_open_type S s (ent_gname phys_ent) (if path_of ns = [] then want else ct)) (\<lambda>(estat, fh, s).
      if \<not> EP_STAT_ISOK estat then Inr (estat, -1, s)
      else open_walk S want s fh (if path_of ns = [] then want else ct) (path_of ns))
    else if EP_STAT_ISOK estat then Inr (GDPFS_STAT_BADPATH, -1, s)
    else Inr (GDPFS_STAT_CORRUPT, -1, s)))"
    unfolding open_walk.simps [of S want s fh ct "n @ path_of ns"] Let_def split_path [OF assms]
      if_not_P [OF n(1)] if_not_P [OF n(2)] if_not_P [OF n(3)] ..
  finally show ?thesis .
qed

lemma path_of_empty: "list_all comp_ok ns \<Longrightarrow> path_of ns = [] \<longleftrightarrow> ns = []"
  by (cases ns) simp_all

text \<open>A round that finds its entry closes the directory and opens the file; the handle is a free one.\<close>

lemma enter:
  assumes m: "mounted S hist a (Suc b) s M" and h: "handle_file s fh = Some d" and d: "dir_on M d es" and n: "comp_ok n" "dir_map es n = Some g"
    and q: "file_hash s g = Some q" "attrs s q = Some (ty, perm)" and w: "w = (if path_of ns = [] then want else ct)" "w = GDPFS_FILE_TYPE_UNKNOWN \<or> w = ty"
  shows "\<exists>fh' t. open_walk S want s fh ct (path_of (n # ns)) = open_walk S want t fh' w (path_of ns) \<and> mounted S hist a b t M \<and> calm s t \<and>
    handle_file t fh' = Some q \<and> open_handles t = insert (unat fh') (open_handles s - {unat fh}) \<and> unat fh' \<notin> open_handles s - {unat fh} \<and>
    keeps_handles {unat fh} s t"
proof -
  obtain off ent where f: "find_insert_offset S s fh n = Inr ((GDPFS_STAT_FILE_EXISTS, off, ent), s)" "ent_gname ent = g"
    using find_found [OF m h d n(2)] by blast
  obtain u where u: "gdpfs_file_close S s fh = Inr (GDPFS_STAT_OK, u)" "mounted S hist a b u M" "calm s u"
    "open_handles u = open_handles s - {unat fh}" "keeps_handles {unat fh} s u" using close_mounted [OF m h] by blast
  have "unat fh < MAX_FHS" using handle_lookup(2) [OF mountedD(4) [OF m] h] mountedD(4) [OF m] by (simp add: tabs_def)
  then have free: "open_handles u \<noteq> {..<MAX_FHS}" using u(4) by auto
  have q': "file_hash u g = Some q" "attrs u q = Some (ty, perm)" using q u(3) calm_attrs [OF u(3)] by (simp_all add: calm_def)
  obtain fh' t where t: "gdpfs_file_open_type S u g w = Inr (GDPFS_STAT_OK, fh', t)" "mounted S hist a b t M" "calm u t"
    "handle_file t fh' = Some q" "unat fh' \<notin> open_handles u" "open_handles t = insert (unat fh') (open_handles u)" "keeps_handles {} u t"
    using open_mounted [OF u(2) q' free w(2)] by blast
  have "open_walk S want s fh ct (path_of (n # ns)) = open_walk S want t fh' w (path_of ns)"
    unfolding walk_step [OF n(1)] f(1) bindR_simps prod.case u(1) f(2) w(1) [symmetric] t(1) by (simp add: EP_STAT_ISOK_def)
  moreover have "keeps_handles {unat fh} s t" using u(4,5) t(7) by (simp add: keeps_handles_def)
  ultimately show ?thesis using t calm_trans [OF u(3) t(3)] u(4) by (intro exI [of _ fh'] exI [of _ t]) simp
qed

lemma walk_dirs:
  assumes "leads M H A d ns p" "H = file_hash s" "A = attrs s" "mounted S hist a (length ns + b) s M" "handle_file s fh = Some d"
    "list_all comp_ok ms" "ms \<noteq> [] \<or> want = GDPFS_FILE_TYPE_UNKNOWN \<or> want = GDPFS_FILE_TYPE_DIR"
  shows "\<exists>fh' t ct. open_walk S want s fh GDPFS_FILE_TYPE_DIR (path_of (ns @ ms)) = open_walk S want t fh' ct (path_of ms) \<and>
    (ms \<noteq> [] \<longrightarrow> ct = GDPFS_FILE_TYPE_DIR) \<and> mounted S hist a b t M \<and> calm s t \<and> handle_file t fh' = Some p \<and>
    open_handles t = insert (unat fh') (open_handles s - {unat fh}) \<and> unat fh' \<notin> open_handles s - {unat fh} \<and> keeps_handles {unat fh} s t"
  using assms
proof (induction arbitrary: s fh rule: leads.induct)
  case (Here d)
  have "open_handles s = insert (unat fh) (open_handles s - {unat fh})" using handle_open [OF Here.prems(4)] by auto
  then show ?case using Here.prems by (intro exI [of _ fh] exI [of _ s] exI [of _ GDPFS_FILE_TYPE_DIR]) simp
next
  case (Down n d es g q perm ns p)
  let ?w = "if path_of (ns @ ms) = [] then want else GDPFS_FILE_TYPE_DIR"
  have l: "list_all comp_ok ns" using Down.hyps(6) by (induction rule: leads.induct) simp_all
  have w: "?w = GDPFS_FILE_TYPE_UNKNOWN \<or> ?w = GDPFS_FILE_TYPE_DIR" using Down.prems(6) path_of_empty [OF Down.prems(5)] by auto
  have m: "mounted S hist a (Suc (length ns + b)) s M" using Down.prems(3) by simp
  obtain fh1 t1 where t1: "open_walk S want s fh GDPFS_FILE_TYPE_DIR (path_of (n # (ns @ ms))) = open_walk S want t1 fh1 ?w (path_of (ns @ ms))"
    "mounted S hist a (length ns + b) t1 M" "calm s t1" "handle_file t1 fh1 = Some q" "open_handles t1 = insert (unat fh1) (open_handles s - {unat fh})"
    "unat fh1 \<notin> open_handles s - {unat fh}" "keeps_handles {unat fh} s t1"
    using enter [OF m Down.prems(4) Down.hyps(2,1,3) Down.hyps(4,5) [unfolded Down.prems(1,2)] refl w] by blast
  have h: "H = file_hash t1" "A = attrs t1" using Down.prems(1,2) t1(3) calm_attrs [OF t1(3)] by (simp_all add: calm_def)
  have wd: "open_walk S want t1 fh1 ?w (path_of (ns @ ms)) = open_walk S want t1 fh1 GDPFS_FILE_TYPE_DIR (path_of (ns @ ms))"
    by (cases "path_of (ns @ ms) = []") (simp_all only: if_True if_False walk_end)
  obtain fh' t ct where t: "open_walk S want t1 fh1 GDPFS_FILE_TYPE_DIR (path_of (ns @ ms)) = open_walk S want t fh' ct (path_of ms)"
    "ms \<noteq> [] \<longrightarrow> ct = GDPFS_FILE_TYPE_DIR" "mounted S hist a b t M" "calm t1 t" "handle_file t fh' = Some p"
    "open_handles t = insert (unat fh') (open_handles t1 - {unat fh1})" "unat fh' \<notin> open_handles t1 - {unat fh1}" "keeps_handles {unat fh1} t1 t"
    using Down.IH [OF h t1(2,4) Down.prems(5,6)] by blast
  have e: "open_handles t1 - {unat fh1} = open_handles s - {unat fh}" using t1(5,6) by auto
  have "keeps_handles {unat fh} s t" using t1(7) t(8) e by (simp add: keeps_handles_def)
  then show ?case using t1(1) t wd e calm_trans [OF t1(3) t(4)] by (intro exI [of _ fh'] exI [of _ t] exI [of _ ct]) simp
qed

section \<open>Paths from the root\<close>

type_synonym hash = "gdp_name \<rightharpoonup> nat"
type_synonym attr_map = "nat \<rightharpoonup> gdpfs_file_type \<times> 16 word"

definition dir_path :: "cstring list \<Rightarrow> cstring" where
  "dir_path ns = (if ns = [] then [SLASH] else path_of ns)"

definition dir_at :: "(nat \<rightharpoonup> u8 list \<times> nat) \<Rightarrow> hash \<Rightarrow> attr_map \<Rightarrow> gdp_name \<Rightarrow> cstring list \<Rightarrow> nat \<Rightarrow> bool" where
  "dir_at M H A rootlog ns d \<longleftrightarrow> (\<exists>r perm. H rootlog = Some r \<and> A r = Some (GDPFS_FILE_TYPE_DIR, perm) \<and> leads M H A r ns d)"

definition file_at :: "(nat \<rightharpoonup> u8 list \<times> nat) \<Rightarrow> hash \<Rightarrow> attr_map \<Rightarrow> gdp_name \<Rightarrow> cstring list \<Rightarrow> cstring \<Rightarrow> nat \<Rightarrow> bool" where
  "file_at M H A rootlog ns n p \<longleftrightarrow>
     (\<exists>d es g. dir_at M H A rootlog ns d \<and> comp_ok n \<and> dir_on M d es \<and> dir_map es n = Some g \<and> H g = Some p)"

text \<open>An operation that only moves handles: \<open>H\<close> is the set of the handles that are open in between.\<close>

definition moved :: "'w log_service \<Rightarrow> ('w \<Rightarrow> gdp_name \<Rightarrow> log_rec list) \<Rightarrow> nat \<Rightarrow> nat \<Rightarrow> 'w fsys \<Rightarrow> (nat \<rightharpoonup> u8 list \<times> nat) \<Rightarrow> 'w fsys \<Rightarrow> bool" where
  "moved S hist a b s M t \<longleftrightarrow> mounted S hist a b t M \<and> calm s t \<and> keeps_handles {} s t"

definition opens :: "u64 \<Rightarrow> nat \<Rightarrow> 'w fsys \<Rightarrow> 'w fsys \<Rightarrow> bool" where
  "opens fh p s t \<longleftrightarrow> handle_file t fh = Some p \<and> unat fh \<notin> open_handles s \<and> open_handles t = insert (unat fh) (open_handles s)"

lemma movedD:
  assumes "moved S hist a b s M t"
  shows "mounted S hist a b t M" "calm s t" "keeps_handles {} s t" "file_hash t = file_hash s" "attrs t = attrs s" "ring t = ring s"
    "use_cache t = use_cache s" "cquota_f t = cquota_f s"
proof -
  show m: "mounted S hist a b t M" "calm s t" "keeps_handles {} s t" using assms by (simp_all add: moved_def)
  show "attrs t = attrs s" by (rule calm_attrs [OF m(2)])
  show "file_hash t = file_hash s" "ring t = ring s" "use_cache t = use_cache s" "cquota_f t = cquota_f s" using m(2) by (simp_all add: calm_def)
qed

lemma start_walk:
  assumes m: "mounted S hist a b s M" and r: "file_hash s rootlog = Some r" "attrs s r = Some (GDPFS_FILE_TYPE_DIR, perm)"
    and free: "open_handles s \<noteq> {..<MAX_FHS}"
  shows "\<exists>fh t. gdpfs_dir_open_file_at_path S rootlog s (path_of ns) want = open_walk S want t fh GDPFS_FILE_TYPE_DIR (path_of ns) \<and>
    gdpfs_dir_open_file_at_path S rootlog s [SLASH] want = Inr (EP_STAT_OK, fh, t) \<and> moved S hist a b s M t \<and> opens fh r s t"
proof -
  obtain fh t where t: "gdpfs_file_open_type S s rootlog GDPFS_FILE_TYPE_DIR = Inr (GDPFS_STAT_OK, fh, t)" "mounted S hist a b t M" "calm s t"
    "handle_file t fh = Some r" "unat fh \<notin> open_handles s" "open_handles t = insert (unat fh) (open_handles s)" "keeps_handles {} s t" "fh \<noteq> -1"
    using open_mounted [OF m r free, of GDPFS_FILE_TYPE_DIR] by blast
  have "open_walk S want t fh GDPFS_FILE_TYPE_DIR [SLASH] = Inr (EP_STAT_OK, fh, t)" by (subst open_walk.simps) simp
  moreover have "path_of ns = [] \<or> hd (path_of ns) = SLASH" by (cases ns) simp_all
  ultimately show ?thesis using t unfolding moved_def opens_def gdpfs_dir_open_file_at_path_def
    by (intro exI [of _ fh] exI [of _ t]) (auto simp: EP_STAT_ISOK_def assertR_def)
qed

lemma moved_walk:
  assumes s: "moved S hist a' b' s M u" "opens fh r s u" and t: "calm u t" "mounted S hist a b t M" "keeps_handles {unat fh} u t"
  shows "moved S hist a b s M t" "open_handles u - {unat fh} = open_handles s"
proof -
  have o: "open_handles u = insert (unat fh) (open_handles s)" "unat fh \<notin> open_handles s" using s(2) by (simp_all add: opens_def)
  then show "open_handles u - {unat fh} = open_handles s" by simp
  have "handle_file t x = handle_file s x" if "unat x \<in> open_handles s" for x
    using that s(1) t(3) o unfolding moved_def keeps_handles_def by (metis Diff_iff Diff_empty insert_iff singletonD)
  then show "moved S hist a b s M t" using s(1) t(1,2) calm_trans unfolding moved_def keeps_handles_def by blast
qed

lemma open_dir_at:
  assumes m: "mounted S hist a (length ns + b) s M" and d: "dir_at M (file_hash s) (attrs s) rootlog ns d"
    and free: "open_handles s \<noteq> {..<MAX_FHS}" and w: "want = GDPFS_FILE_TYPE_UNKNOWN \<or> want = GDPFS_FILE_TYPE_DIR"
  shows "\<exists>fh t. gdpfs_dir_open_file_at_path S rootlog s (dir_path ns) want = Inr (EP_STAT_OK, fh, t) \<and> moved S hist a b s M t \<and> opens fh d s t"
proof -
  obtain r perm where r: "file_hash s rootlog = Some r" "attrs s r = Some (GDPFS_FILE_TYPE_DIR, perm)" "leads M (file_hash s) (attrs s) r ns d"
    using d by (auto simp: dir_at_def)
  obtain fh u where u: "gdpfs_dir_open_file_at_path S rootlog s (path_of ns) want = open_walk S want u fh GDPFS_FILE_TYPE_DIR (path_of ns)"
    "gdpfs_dir_open_file_at_path S rootlog s [SLASH] want = Inr (EP_STAT_OK, fh, u)" "moved S hist a (length ns + b) s M u" "opens fh r s u"
    using start_walk [OF m r(1,2) free] by blast
  show ?thesis
  proof (cases "ns = []")
    case True
    then show ?thesis using u r(3) by (intro exI [of _ fh] exI [of _ u]) (simp add: dir_path_def)
  next
    case False
    have e: "file_hash s = file_hash u" "attrs s = attrs u" using movedD(4,5) [OF u(3)] by simp_all
    have mu: "mounted S hist a (length ns + b) u M" "handle_file u fh = Some r" using u(3,4) by (simp_all add: moved_def opens_def)
    obtain fh' t ct where t: "open_walk S want u fh GDPFS_FILE_TYPE_DIR (path_of (ns @ [])) = open_walk S want t fh' ct (path_of [])"
      "mounted S hist a b t M" "calm u t" "handle_file t fh' = Some d" "open_handles t = insert (unat fh') (open_handles u - {unat fh})"
      "unat fh' \<notin> open_handles u - {unat fh}" "keeps_handles {unat fh} u t"
      using walk_dirs [OF r(3) e mu, of "[]" want] w by auto
    note M = moved_walk [OF u(3,4) t(3,2,7)]
    show ?thesis using u(1) t M False by (intro exI [of _ fh'] exI [of _ t]) (simp add: dir_path_def opens_def)
  qed
qed

text \<open>The directory a path leads through.\<close>

lemma reach_parent:
  assumes m: "mounted S hist a (length ns + b) s M" and d: "dir_at M (file_hash s) (attrs s) rootlog ns d"
    and free: "open_handles s \<noteq> {..<MAX_FHS}" and ms: "list_all comp_ok ms" "ms \<noteq> []"
  shows "\<exists>fh t. gdpfs_dir_open_file_at_path S rootlog s (path_of (ns @ ms)) want = open_walk S want t fh GDPFS_FILE_TYPE_DIR (path_of ms) \<and>
    moved S hist a b s M t \<and> opens fh d s t"
proof -
  obtain r perm where r: "file_hash s rootlog = Some r" "attrs s r = Some (GDPFS_FILE_TYPE_DIR, perm)" "leads M (file_hash s) (attrs s) r ns d"
    using d by (auto simp: dir_at_def)
  obtain fh u where u: "gdpfs_dir_open_file_at_path S rootlog s (path_of (ns @ ms)) want = open_walk S want u fh GDPFS_FILE_TYPE_DIR (path_of (ns @ ms))"
    "moved S hist a (length ns + b) s M u" "opens fh r s u" using start_walk [OF m r(1,2) free, of "ns @ ms" want] by blast
  have e: "file_hash s = file_hash u" "attrs s = attrs u" using movedD(4,5) [OF u(2)] by simp_all
  have mu: "mounted S hist a (length ns + b) u M" "handle_file u fh = Some r" using u(2,3) by (simp_all add: moved_def opens_def)
  obtain fh' t ct where t: "open_walk S want u fh GDPFS_FILE_TYPE_DIR (path_of (ns @ ms)) = open_walk S want t fh' ct (path_of ms)"
    "ct = GDPFS_FILE_TYPE_DIR" "mounted S hist a b t M" "calm u t" "handle_file t fh' = Some d" "open_handles t = insert (unat fh') (open_handles u - {unat fh})"
    "unat fh' \<notin> open_handles u - {unat fh}" "keeps_handles {unat fh} u t"
    using walk_dirs [OF r(3) e mu ms(1), of want] ms(2) by blast
  note M = moved_walk [OF u(2,3) t(4,3,8)]
  show ?thesis using u(1) t M by (intro exI [of _ fh'] exI [of _ t]) (simp add: opens_def)
qed

lemma open_file_at:
  assumes m: "mounted S hist a (Suc (length ns + b)) s M" and f: "file_at M (file_hash s) (attrs s) rootlog ns n p" "attrs s p = Some (ty, perm)"
    and free: "open_handles s \<noteq> {..<MAX_FHS}" and w: "want = GDPFS_FILE_TYPE_UNKNOWN \<or> want = ty"
  shows "\<exists>fh t. gdpfs_dir_open_file_at_path S rootlog s (path_of (ns @ [n])) want = Inr (EP_STAT_OK, fh, t) \<and> moved S hist a b s M t \<and> opens fh p s t"
proof -
  obtain d es g where d: "dir_at M (file_hash s) (attrs s) rootlog ns d" "comp_ok n" "dir_on M d es" "dir_map es n = Some g" "file_hash s g = Some p"
    using f(1) by (auto simp: file_at_def)
  have m': "mounted S hist a (length ns + Suc b) s M" using m by simp
  have l: "list_all comp_ok [n]" "[n] \<noteq> []" using d(2) by simp_all
  obtain fh u where u: "gdpfs_dir_open_file_at_path S rootlog s (path_of (ns @ [n])) want = open_walk S want u fh GDPFS_FILE_TYPE_DIR (path_of [n])"
    "moved S hist a (Suc b) s M u" "opens fh d s u" using reach_parent [OF m' d(1) free l] by blast
  have e: "file_hash u g = Some p" "attrs u p = Some (ty, perm)" using movedD(4,5) [OF u(2)] d(5) f(2) by simp_all
  have mu: "mounted S hist a (Suc b) u M" "handle_file u fh = Some d" using u(2,3) by (simp_all add: moved_def opens_def)
  have w': "want = (if path_of [] = [] then want else GDPFS_FILE_TYPE_DIR)" by simp
  obtain fh' t where t: "open_walk S want u fh GDPFS_FILE_TYPE_DIR (path_of [n]) = open_walk S want t fh' want (path_of [])" "mounted S hist a b t M"
    "calm u t" "handle_file t fh' = Some p" "open_handles t = insert (unat fh') (open_handles u - {unat fh})" "unat fh' \<notin> open_handles u - {unat fh}"
    "keeps_handles {unat fh} u t" using enter [OF mu d(3,2,4) e w' w] by blast
  note M = moved_walk [OF u(2,3) t(3,2,7)]
  show ?thesis using u(1) t M by (intro exI [of _ fh'] exI [of _ t]) (simp add: opens_def)
qed

lemma open_missing:
  assumes m: "mounted S hist a (Suc (length ns + b)) s M" and d: "dir_at M (file_hash s) (attrs s) rootlog ns d" "dir_on M d es" "dir_map es n = None"
    and free: "open_handles s \<noteq> {..<MAX_FHS}" and ms: "comp_ok n" "list_all comp_ok ms"
  shows "\<exists>t. gdpfs_dir_open_file_at_path S rootlog s (path_of (ns @ n # ms)) want = Inr (GDPFS_STAT_BADPATH, -1, t) \<and> moved S hist a b s M t \<and>
    open_handles t = open_handles s"
proof -
  have m': "mounted S hist a (length ns + Suc b) s M" using m by simp
  have l: "list_all comp_ok (n # ms)" "n # ms \<noteq> []" using ms by simp_all
  obtain fh u where u: "gdpfs_dir_open_file_at_path S rootlog s (path_of (ns @ n # ms)) want = open_walk S want u fh GDPFS_FILE_TYPE_DIR (path_of (n # ms))"
    "moved S hist a (Suc b) s M u" "opens fh d s u" using reach_parent [OF m' d(1) free l] by blast
  have mu: "mounted S hist a (Suc b) u M" "handle_file u fh = Some d" using u(2,3) by (simp_all add: moved_def opens_def)
  obtain off ent where f: "find_insert_offset S u fh n = Inr ((GDPFS_STAT_OK, off, ent), u)" using find_missing [OF mu d(2,3)] by blast
  obtain t where t: "gdpfs_file_close S u fh = Inr (GDPFS_STAT_OK, t)" "mounted S hist a b t M" "calm u t"
    "open_handles t = open_handles u - {unat fh}" "keeps_handles {unat fh} u t" using close_mounted [OF mu] by blast
  note M = moved_walk [OF u(2,3) t(3,2,5)]
  show ?thesis unfolding u(1) walk_step [OF ms(1)] f bindR_simps prod.case t(1) using M t(4) by (intro exI [of _ t]) (simp add: EP_STAT_ISOK_def)
qed

end
