(* ===== verification/Path_Ops.thy ===== *)
theory Path_Ops
  imports Path
begin

text \<open>
  The handlers on paths of a mounted file system: attributes, creation of files and directories, and removal,
  each with the files, the directories and the handles it leaves.
\<close>

section \<open>The parent and the last component\<close>

lemma strip_slashes_comp:
  assumes "n \<noteq> []" "SLASH \<notin> set n"
  shows "strip_slashes (xs @ n) = xs @ n" "strip_slashes (xs @ n @ [SLASH]) = xs @ n"
proof -
  obtain m x where n: "n = m @ [x]" using assms(1) by (metis rev_exhaust)
  then have "x \<noteq> SLASH" using assms(2) by auto
  then show "strip_slashes (xs @ n) = xs @ n" "strip_slashes (xs @ n @ [SLASH]) = xs @ n" using n by (simp_all add: strip_slashes_def)
qed

lemma path_strip:
  assumes "list_all comp_ok ns"
  shows "strip_slashes (path_of ns @ [SLASH]) = path_of ns"
proof (cases ns rule: rev_cases)
  case Nil
  then show ?thesis by (simp add: strip_slashes_def)
next
  case (snoc ms m)
  then have "m \<noteq> []" "SLASH \<notin> set m" using assms by (simp_all add: comp_ok_def)
  then show ?thesis using strip_slashes_comp(2) [of m "path_of ms @ [SLASH]"] snoc by simp
qed

lemma parent_of_path:
  assumes "list_all comp_ok ns" "comp_ok n"
  shows "dirname (path_of (ns @ [n])) = dir_path ns" "basename (path_of (ns @ [n])) = n"
proof -
  have n: "n \<noteq> []" "SLASH \<notin> set n" using assms(2) by (simp_all add: comp_ok_def)
  have s: "strip_slashes (path_of (ns @ [n])) = path_of (ns @ [n])" using strip_slashes_comp(1) [OF n, of "path_of ns @ [SLASH]"] by simp
  have r: "rev (path_of (ns @ [n])) = rev n @ SLASH # rev (path_of ns)" by simp
  have d: "dropWhile (\<lambda>x. x \<noteq> SLASH) (rev n @ SLASH # xs) = SLASH # xs" "takeWhile (\<lambda>x. x \<noteq> SLASH) (rev n @ SLASH # xs) = rev n" for xs
    by (subst dropWhile_append2, use n(2) in auto) (subst takeWhile_append2, use n(2) in auto)
  have e: "path_of ns = [] \<longleftrightarrow> ns = []" by (rule path_of_empty [OF assms(1)])
  show "basename (path_of (ns @ [n])) = n" unfolding basename_def Let_def s r d using n(1) by simp
  show "dirname (path_of (ns @ [n])) = dir_path ns"
    unfolding dirname_def Let_def s r d using n(1) path_strip [OF assms(1)] e by (simp add: dir_path_def)
qed

lemma leads_comps: "leads M H A d ns p \<Longrightarrow> list_all comp_ok ns"
  by (induction rule: leads.induct) simp_all

lemma dir_at_comps: "dir_at M H A rootlog ns d \<Longrightarrow> list_all comp_ok ns"
  by (auto simp: dir_at_def intro: leads_comps)

lemma open_parent_at:
  assumes m: "mounted S hist a (length ns + b) s M" and d: "dir_at M (file_hash s) (attrs s) rootlog ns d" and n: "comp_ok n"
    and free: "open_handles s \<noteq> {..<MAX_FHS}"
  shows "\<exists>fh t. open_parent_dir S rootlog s (path_of (ns @ [n])) = Inr (EP_STAT_OK, fh, n, t) \<and> moved S hist a b s M t \<and> opens fh d s t"
proof -
  obtain fh t where t: "gdpfs_dir_open_file_at_path S rootlog s (dir_path ns) GDPFS_FILE_TYPE_DIR = Inr (EP_STAT_OK, fh, t)"
    "moved S hist a b s M t" "opens fh d s t" using open_dir_at [OF m d free] by blast
  have "path_of (ns @ [n]) \<noteq> []" "hd (path_of (ns @ [n])) = SLASH" by (cases ns; simp)+
  then show ?thesis using t parent_of_path [OF dir_at_comps [OF d] n] unfolding open_parent_dir_def
    by (intro exI [of _ fh] exI [of _ t]) simp
qed

section \<open>Directories that change\<close>

lemma dir_bytes_inj:
  assumes "\<forall>e \<in> set es. ent_wf e" "\<forall>e \<in> set fs. ent_wf e" "length es = length fs" "dir_bytes es = dir_bytes fs"
  shows "es = fs"
proof (rule nth_equalityI [OF assms(3)])
  fix i
  assume i: "i < length es"
  have "dirent_bytes (es ! i) = take sizeof_dirent (drop (sizeof_dirent * i) (dir_bytes es))"
    using block_at [OF dir_bytes_blocks [OF assms(1)], of i] i by (simp add: dir_bytes_def)
  also have "\<dots> = dirent_bytes (fs ! i)"
    using block_at [OF dir_bytes_blocks [OF assms(2)], of i] i assms(3,4) by (simp add: dir_bytes_def)
  finally show "es ! i = fs ! i" using dirent_of_bytes assms(1-3) i by (metis nth_mem)
qed

lemma dir_on_unique: "dir_on M d es \<Longrightarrow> dir_on M d fs \<Longrightarrow> es = fs"
  unfolding dir_on_def by (elim conjE exE) (rule dir_bytes_inj, auto simp: sizeof_dirent_def)

lemma dir_on_cong: "M' d = M d \<Longrightarrow> dir_on M' d es = dir_on M d es"
  by (simp add: dir_on_def)

lemma dir_on_slot:
  assumes d: "dir_on M d es" "M d = Some cn" and e: "ent_wf e" and j: "j \<le> length es" "sizeof_dirent * j < 2 ^ 32" and u: "uniq (set_slot es j e)"
  shows "dir_on (M(d \<mapsto> spec_op (Op_Write (dslot j) (dirent_bytes e)) cn)) d (set_slot es j e)"
proof -
  obtain c where c: "cn = (c, sizeof_dirent * length es)" "take (sizeof_dirent * length es) c = dir_bytes es" and wf: "\<forall>e \<in> set es. ent_wf e"
    using d by (auto simp: dir_on_def)
  have "length (take (sizeof_dirent * length es) c) = sizeof_dirent * length es" using c(2) dir_bytes_length [OF wf] by simp
  then have l: "sizeof_dirent * length es \<le> length c" by simp
  have b: "length (dirent_bytes e) = sizeof_dirent" by (rule dirent_length [OF e])
  have "max (sizeof_dirent * length es) (sizeof_dirent * j + sizeof_dirent) = sizeof_dirent * length (set_slot es j e)"
  proof (cases "j < length es")
    case True
    then have "sizeof_dirent * Suc j \<le> sizeof_dirent * length es" by (intro mult_le_mono2) simp
    then show ?thesis using True by (simp add: set_slot_def)
  qed (use j in \<open>simp add: set_slot_def\<close>)
  moreover have "\<forall>x \<in> set (set_slot es j e). ent_wf x"
    using wf e set_update_subset_insert [of es j e] by (auto simp: set_slot_def)
  ultimately show ?thesis using overlay_slot [OF wf e j(1) c(2) l] u unat_slot(1) [OF j(2)] b by (simp add: dir_on_def c(1))
qed

text \<open>A larger file system has the paths of a smaller one.\<close>

lemma map_leD: "m \<subseteq>\<^sub>m m' \<Longrightarrow> m x = Some y \<Longrightarrow> m' x = Some y"
  by (auto simp: map_le_def dom_def)

definition grows :: "(nat \<rightharpoonup> u8 list \<times> nat) \<Rightarrow> hash \<Rightarrow> attr_map \<Rightarrow> (nat \<rightharpoonup> u8 list \<times> nat) \<Rightarrow> bool" where
  "grows M H A M' \<longleftrightarrow> (\<forall>d es perm. A d = Some (GDPFS_FILE_TYPE_DIR, perm) \<longrightarrow> dir_on M d es \<longrightarrow>
     (\<exists>es'. dir_on M' d es' \<and> (\<forall>n g q perm. dir_map es n = Some g \<longrightarrow> H g = Some q \<longrightarrow> A q = Some (GDPFS_FILE_TYPE_DIR, perm) \<longrightarrow>
        dir_map es' n = Some g)))"

lemma leads_mono:
  assumes "leads M H A d ns p" "A d = Some (GDPFS_FILE_TYPE_DIR, perm)" "grows M H A M'" "H \<subseteq>\<^sub>m H'" "A \<subseteq>\<^sub>m A'"
  shows "leads M' H' A' d ns p"
  using assms
proof (induction arbitrary: perm rule: leads.induct)
  case (Down n d es g q perm' ns p)
  obtain es' where e: "dir_on M' d es'" "\<And>n g q perm. dir_map es n = Some g \<Longrightarrow> H g = Some q \<Longrightarrow> A q = Some (GDPFS_FILE_TYPE_DIR, perm) \<Longrightarrow> dir_map es' n = Some g"
    using Down.hyps(2) Down.prems(1,2) unfolding grows_def by blast
  show ?case
  proof (rule leads.Down [of n M' d es' g H' q A' perm'])
    show "dir_map es' n = Some g" by (rule e(2) [OF Down.hyps(3-5)])
    show "H' g = Some q" by (rule map_leD [OF Down.prems(3) Down.hyps(4)])
    show "A' q = Some (GDPFS_FILE_TYPE_DIR, perm')" by (rule map_leD [OF Down.prems(4) Down.hyps(5)])
    show "leads M' H' A' q ns p" by (rule Down.IH [OF Down.hyps(5) Down.prems(2-4)])
  qed (rule Down.hyps(1), rule e(1))
qed (rule leads.Here)

lemma dir_at_mono:
  assumes "dir_at M H A rootlog ns d" "grows M H A M'" "H \<subseteq>\<^sub>m H'" "A \<subseteq>\<^sub>m A'"
  shows "dir_at M' H' A' rootlog ns d"
proof -
  obtain r perm where r: "H rootlog = Some r" "A r = Some (GDPFS_FILE_TYPE_DIR, perm)" "leads M H A r ns d" using assms(1) by (auto simp: dir_at_def)
  show ?thesis unfolding dir_at_def
    using map_leD [OF assms(3) r(1)] map_leD [OF assms(4) r(2)] leads_mono [OF r(3,2) assms(2-4)] by blast
qed

lemma leads_dir: "leads M H A d ns p \<Longrightarrow> A d = Some (GDPFS_FILE_TYPE_DIR, perm) \<Longrightarrow> \<exists>perm. A p = Some (GDPFS_FILE_TYPE_DIR, perm)"
  by (induction arbitrary: perm rule: leads.induct) auto

lemma dir_at_dir: "dir_at M H A rootlog ns d \<Longrightarrow> \<exists>perm. A d = Some (GDPFS_FILE_TYPE_DIR, perm)"
  by (auto simp: dir_at_def dest: leads_dir)

lemma map_le_new: "m x = None \<Longrightarrow> m \<subseteq>\<^sub>m m(x \<mapsto> y)"
  by (auto simp: map_le_def)

text \<open>One directory changes, and keeps its entries for directories.\<close>

lemma grows_one:
  assumes "dir_on M d es" "dir_on M' d es'" "A p = None" "\<And>q. q \<noteq> d \<Longrightarrow> q \<noteq> p \<Longrightarrow> M' q = M q"
    and e: "\<And>n g q perm. dir_map es n = Some g \<Longrightarrow> H g = Some q \<Longrightarrow> A q = Some (GDPFS_FILE_TYPE_DIR, perm) \<Longrightarrow> dir_map es' n = Some g"
  shows "grows M H A M'"
  unfolding grows_def
proof (intro allI impI)
  fix q fs perm
  assume f: "A q = Some (GDPFS_FILE_TYPE_DIR, perm)" "dir_on M q fs"
  then have "q \<noteq> p" using assms(3) by auto
  then have "\<exists>es'. dir_on M' q es' \<and> (es' = fs \<or> q = d \<and> es' = es'' \<and> fs = es)" if "es'' = es'" for es''
    using f(2) assms(2,4) dir_on_unique [OF assms(1)] dir_on_cong [of M' q M] that by (cases "q = d") auto
  then show "\<exists>es'. dir_on M' q es' \<and> (\<forall>n g r perm. dir_map fs n = Some g \<longrightarrow> H g = Some r \<longrightarrow> A r = Some (GDPFS_FILE_TYPE_DIR, perm) \<longrightarrow> dir_map es' n = Some g)"
    using e by blast
qed

text \<open>The data of files that are no directories do not matter.\<close>

lemma grows_file:
  assumes "A p = Some (ty, perm)" "ty \<noteq> GDPFS_FILE_TYPE_DIR"
  shows "grows M H A (M(p \<mapsto> cn))"
  unfolding grows_def
proof (intro allI impI)
  fix q fs perm'
  assume f: "A q = Some (GDPFS_FILE_TYPE_DIR, perm')" "dir_on M q fs"
  then have "q \<noteq> p" using assms by auto
  then have "dir_on (M(p \<mapsto> cn)) q fs" using f(2) dir_on_cong [of "M(p \<mapsto> cn)" q M] by simp
  then show "\<exists>es'. dir_on (M(p \<mapsto> cn)) q es' \<and> (\<forall>n g r perm. dir_map fs n = Some g \<longrightarrow> H g = Some r \<longrightarrow> A r = Some (GDPFS_FILE_TYPE_DIR, perm) \<longrightarrow> dir_map es' n = Some g)"
    by blast
qed

lemma file_at_data:
  assumes "file_at M H A rootlog ns n f" "A p = Some (ty, perm)" "ty \<noteq> GDPFS_FILE_TYPE_DIR"
  shows "file_at (M(p \<mapsto> cn)) H A rootlog ns n f"
proof -
  obtain d es g where d: "dir_at M H A rootlog ns d" "comp_ok n" "dir_on M d es" "dir_map es n = Some g" "H g = Some f"
    using assms(1) by (auto simp: file_at_def)
  have "dir_at (M(p \<mapsto> cn)) H A rootlog ns d" by (rule dir_at_mono [OF d(1) grows_file [of A p ty perm]]) (use assms(2,3) in simp_all)
  moreover have "d \<noteq> p" using dir_at_dir [OF d(1)] assms(2,3) by auto
  then have "dir_on (M(p \<mapsto> cn)) d es" using d(3) dir_on_cong [of "M(p \<mapsto> cn)" d M] by simp
  ultimately show ?thesis unfolding file_at_def using d(2,4,5) by blast
qed

section \<open>Creating\<close>

text \<open>The state \<open>t\<close> has a new file \<open>p\<close> on the log \<open>g\<close>, entered as \<open>n\<close> into the directory \<open>d\<close>, and a handle on it.\<close>

definition created ::
  "'w log_service \<Rightarrow> ('w \<Rightarrow> gdp_name \<Rightarrow> log_rec list) \<Rightarrow> nat \<Rightarrow> nat \<Rightarrow> 'w fsys \<Rightarrow> (nat \<rightharpoonup> u8 list \<times> nat) \<Rightarrow> nat \<Rightarrow> gdpfs_dir_entry_phys list \<Rightarrow>
     cstring \<Rightarrow> gdp_name \<Rightarrow> gdpfs_file_type \<Rightarrow> 16 word \<Rightarrow> u64 \<Rightarrow> nat \<Rightarrow> 'w fsys \<Rightarrow> (nat \<rightharpoonup> u8 list \<times> nat) \<Rightarrow> bool" where
  "created S hist a b s M d es n g ty perm fh p t M' \<longleftrightarrow> mounted S hist a b t M' \<and> opens fh p s t \<and> keeps_handles {} s t \<and>
     M p = None \<and> attrs s p = None \<and> M' p = Some ([], 0) \<and> (\<forall>q. q \<noteq> p \<longrightarrow> q \<noteq> d \<longrightarrow> M' q = M q) \<and>
     (\<exists>es'. dir_on M' d es' \<and> dir_map es' = (dir_map es)(n \<mapsto> g) \<and> length es' \<le> Suc (length es)) \<and>
     attrs t = (attrs s)(p \<mapsto> (ty, perm)) \<and> file_hash t = (file_hash s)(g \<mapsto> p) \<and> use_cache t = use_cache s \<and> cquota_f t = cquota_f s"

lemma free_handle:
  assumes "card (open_handles s) < MAX_FHS"
  shows "open_handles s \<noteq> {..<MAX_FHS}"
proof
  assume "open_handles s = {..<MAX_FHS}"
  then show False using assms by (simp only: card_lessThan)
qed

lemma mounted_finite:
  assumes "mounted S hist a b s M"
  shows "finite (open_handles s)"
proof -
  obtain b where b: "fhs s = Some b" "bitmap_wf b" using mountedD(4) [OF assms] by (auto simp: tabs_def)
  then have "open_handles s \<subseteq> {..<capacity b}" by (simp add: open_handles_def bitmap_wf_def)
  then show ?thesis by (rule finite_subset) simp
qed

lemma opened_card: "mounted S hist a b s M \<Longrightarrow> opens fh p s t \<Longrightarrow> card (open_handles t) = Suc (card (open_handles s))"
  using mounted_finite [of S hist a b s M] by (simp add: opens_def)

lemma keep_opened: "opens fh p s u \<Longrightarrow> keeps_handles {} u v \<Longrightarrow> handle_file v fh = Some p"
  by (auto simp: opens_def keeps_handles_def)

lemma create_at:
  assumes m: "mounted S hist (Suc (Suc a)) (length ns + Suc b) s M" and d: "dir_at M (file_hash s) (attrs s) rootlog ns d"
    and es: "dir_on M d es" "dir_map es n = None" "dir_room s (Suc (length es))" and n: "comp_ok n"
    and r: "gdpfs_log_get_precreated (ring s) = Some (g, q)" "length g = 32" "fresh_log S hist s g"
    and free: "card (open_handles s) + 2 \<le> MAX_FHS" and ty: "ty \<noteq> GDPFS_FILE_TYPE_UNKNOWN"
  shows "\<exists>fh t p M'. gdpfs_dir_create_file_at_path S rootlog s (path_of (ns @ [n])) ty hg perm = Inr (GDPFS_STAT_OK, fh, [], t) \<and>
    created S hist a b s M d es n g ty perm fh p t M'"
proof -
  obtain df u where u: "open_parent_dir S rootlog s (path_of (ns @ [n])) = Inr (EP_STAT_OK, df, n, u)"
    "moved S hist (Suc (Suc a)) (Suc b) s M u" "opens df d s u" using open_parent_at [OF m d n free_handle] free by auto
  note U = movedD [OF u(2)]
  have hu: "handle_file u df = Some d" using u(3) by (simp add: opens_def)
  obtain j ent where f: "find_slot es n 0 None = (False, j)" "find_insert_offset S u df n = Inr ((GDPFS_STAT_OK, dslot j, ent), u)"
    using find_missing [OF U(1) hu es(1,2)] by blast
  have fu: "open_handles u \<noteq> {..<MAX_FHS}" using free_handle [of u] opened_card [OF m u(3)] free by simp
  have "fresh_log S hist u g" using r(3) calm_fresh [OF U(2)] by blast
  from create_mounted [OF U(1) r(1) [folded U(6)] this fu ty, of perm] obtain fh v p where
    v: "gdpfs_file_create S u ty perm = Inr (GDPFS_STAT_OK, fh, g, v)" "mounted S hist (Suc a) (Suc b) v (M(p \<mapsto> ([], 0)))" "M p = None"
    "handle_file v fh = Some p" "unat fh \<notin> open_handles u" "open_handles v = insert (unat fh) (open_handles u)" "keeps_handles {} u v"
    "attrs u p = None" "attrs v = (attrs u)(p \<mapsto> (ty, perm))" "file_hash v = (file_hash u)(g \<mapsto> p)" "use_cache v = use_cache u" "cquota_f v = cquota_f u"
    by (elim exE conjE)
  let ?M = "M(p \<mapsto> ([], 0))" and ?e = "new_ent n g"
  obtain cn where cn: "M d = Some cn" using es(1) by (auto simp: dir_on_def)
  then have pd: "d \<noteq> p" using v(3) by auto
  have N: "ent_wf ?e" "cname ?e = n" "in_use ?e" "ent_gname ?e = g" using new_ent [of n g] n r(2) by (simp_all add: comp_ok_def)
  have ue: "uniq es" using es(1) by (simp add: dir_on_def)
  note L = link_slots [OF ue f(1) N(3,2)]
  have R: "sizeof_dirent * Suc j \<le> sizeof_dirent * Suc (length es)" using L(1) by (intro mult_le_mono2) simp
  have R2: "sizeof_dirent * j + sizeof_dirent < 2 ^ 32" "use_cache s \<longrightarrow> sizeof_dirent * j + sizeof_dirent \<le> cquota_f s"
    using le_less_trans [OF R] le_trans [OF R] es(3) by (simp_all add: dir_room_def add.commute)
  have hv: "handle_file v df = Some d" by (rule keep_opened [OF u(3) v(7)])
  have b: "length (dirent_bytes ?e) = sizeof_dirent" "dirent_bytes ?e \<noteq> []" using dirent_length [OF N(1)] by (auto simp: sizeof_dirent_def)
  have "unat (dslot j) = sizeof_dirent * j" by (rule unat_slot) (use R2 in simp)
  then have fit: "fits v (dslot j) (dirent_bytes ?e)" using R2 b(1) v(11,12) U(7,8) by (simp add: fits_def)
  have cp: "?M d = Some cn" using cn pd by simp
  let ?M' = "?M(d \<mapsto> spec_op (Op_Write (dslot j) (dirent_bytes ?e)) cn)"
  obtain w where w: "gdpfs_file_write S v df (dirent_bytes ?e) (dslot j) = Inr (of_nat (length (dirent_bytes ?e)), w)"
    "mounted S hist a (Suc b) w ?M'" "wrote 1 v w" "use_cache w = use_cache v" "cquota_f w = cquota_f v"
    using write_mounted [OF v(2) hv cp b(2) fit] by blast
  have ad: "add_at_offset S v df (dslot j) n g = Inr (GDPFS_STAT_OK, w)"
    using w(1) b(1) by (simp add: add_at_offset_def new_ent_def write_status_def sizeof_dirent_def)
  have W: "handle_file w = handle_file v" "open_handles w = open_handles v" "file_hash w = file_hash v" "attrs w = attrs v"
    using w(3) wrote_attrs [OF w(3)] by (auto simp: wrote_def open_handles_def intro: handle_cong)
  obtain t where t: "gdpfs_file_close S w df = Inr (GDPFS_STAT_OK, t)" "mounted S hist a b t ?M'" "calm w t"
    "open_handles t = open_handles w - {unat df}" "keeps_handles {unat df} w t"
    using close_mounted [OF w(2), of df d] hv W(1) by auto
  have o: "unat df \<notin> open_handles s" "open_handles u = insert (unat df) (open_handles s)" using u(3) by (simp_all add: opens_def)
  have ne: "unat fh \<noteq> unat df" "unat fh \<notin> open_handles s" using v(5) o(2) by auto
  have ot: "open_handles t = insert (unat fh) (open_handles s)" using t(4) W(2) v(6) o ne by auto
  have "handle_file t fh = Some p" using t(5) W(1,2) v(4,6) ne(1) by (simp add: keeps_handles_def)
  then have op: "opens fh p s t" using ot ne(2) by (simp add: opens_def)
  have "handle_file t x = handle_file s x" if "unat x \<in> open_handles s" for x
  proof -
    have "unat x \<noteq> unat df" using that o(1) by metis
    then show ?thesis using that t(5) W(1,2) v(6,7) o(2) U(3) by (simp add: keeps_handles_def)
  qed
  then have k: "keeps_handles {} s t" by (simp add: keeps_handles_def)
  have dm: "dir_on ?M d es" "sizeof_dirent * j < 2 ^ 32" using es(1) pd R2 dir_on_cong [of ?M d M] by simp_all
  have "dir_on ?M' d (set_slot es j ?e)" by (rule dir_on_slot [OF dm(1) cp N(1) L(1) dm(2) L(3)])
  then have de: "\<exists>es'. dir_on ?M' d es' \<and> dir_map es' = (dir_map es)(n \<mapsto> g) \<and> length es' \<le> Suc (length es)" using L(2,4) N(4) by auto
  have T: "file_hash t = (file_hash s)(g \<mapsto> p)" "attrs t = (attrs s)(p \<mapsto> (ty, perm))" "use_cache t = use_cache s" "cquota_f t = cquota_f s"
    using calm_attrs [OF t(3)] t(3) W(3,4) v(9-12) w(4,5) U(4,5,7,8) by (simp_all add: calm_def)
  have "gdpfs_dir_create_file_at_path S rootlog s (path_of (ns @ [n])) ty hg perm = Inr (GDPFS_STAT_OK, fh, [], t)"
    unfolding gdpfs_dir_create_file_at_path_def u(1) bindR_simps prod.case f(2) v(1) ad t(1) by (simp add: EP_STAT_ISOK_def)
  moreover have "created S hist a b s M d es n g ty perm fh p t ?M'"
    unfolding created_def using t(2) op k v(3,8) U(5) pd de T by simp
  ultimately show ?thesis by blast
qed

section \<open>Attributes, and the other handlers\<close>

lemma info_at:
  assumes m: "mounted S hist a b s M" and h: "handle_file s fh = Some p" and p: "M p = Some (c, k)" "attrs s p = Some (ty, perm)"
  shows "\<exists>f. gdpfs_file_get_info S s fh = Inr (GDPFS_STAT_OK, Some p, s) \<and> get_file s p = Inr f \<and> file_type (info_cache f) = ty \<and>
    file_perm (info_cache f) = perm \<and> file_size (info_cache f) = of_nat k"
proof -
  obtain F T where D: "disk_with hist s M F T" using mountedD(5) [OF m] by (auto simp: disk_def)
  have l: "located hist s p (F p) c k (T p)" by (rule disk_withD(2) [OF D p(1)])
  then have f: "fmem s p = Some (F p)" "info_cache_valid (F p)" "file_size (info_cache (F p)) = of_nat k" by (simp_all add: located_def data_tree_def)
  have "gdpfs_file_get_info S s fh = Inr (GDPFS_STAT_OK, Some p, s)"
    using handle_lookup(1) [OF mountedD(4) [OF m] h] get_info_valid [OF f(1,2)] by (simp add: gdpfs_file_get_info_def)
  then show ?thesis using f p(2) attrs_Some [of s p ty perm] by auto
qed

text \<open>Closing the handle that was opened last.\<close>

lemma close_opened:
  assumes o: "moved S hist a (Suc b) s M u" "opens fh p s u"
  shows "\<exists>t. gdpfs_file_close S u fh = Inr (GDPFS_STAT_OK, t) \<and> moved S hist a b s M t \<and> open_handles t = open_handles s"
proof -
  have h: "handle_file u fh = Some p" using o(2) by (simp add: opens_def)
  obtain t where t: "gdpfs_file_close S u fh = Inr (GDPFS_STAT_OK, t)" "mounted S hist a b t M" "calm u t"
    "open_handles t = open_handles u - {unat fh}" "keeps_handles {unat fh} u t" using close_mounted [OF movedD(1) [OF o(1)] h] by blast
  note M = moved_walk [OF o t(3,2,5)]
  show ?thesis using t(1,4) M by auto
qed

definition stat_of :: "fs_mode \<Rightarrow> nat \<Rightarrow> nat \<Rightarrow> nat \<Rightarrow> gdpfs_file_type \<Rightarrow> 16 word \<Rightarrow> fuse_stat option" where
  "stat_of mode uid gid k ty perm = (case stat_type ty of None \<Rightarrow> None
     | Some t \<Rightarrow> (case stat_perm mode (t OR ucast perm) of None \<Rightarrow> None
       | Some m \<Rightarrow> Some \<lparr>st_nlink = 1, st_size = of_nat k, st_uid = uid, st_gid = gid, st_mode = m\<rparr>))"

lemma getattr_at:
  assumes m: "mounted S hist a (Suc (Suc (length ns + b))) s M" and f: "file_at M (file_hash s) (attrs s) rootlog ns n p"
    and p: "M p = Some (c, k)" "attrs s p = Some (ty, perm)" and free: "open_handles s \<noteq> {..<MAX_FHS}"
  shows "\<exists>t. gdpfs_getattr S rootlog mode uid gid s (path_of (ns @ [n])) =
      Inr (if stat_of mode uid gid k ty perm = None then - ENOENT else 0, stat_of mode uid gid k ty perm, t) \<and>
    moved S hist a b s M t \<and> open_handles t = open_handles s"
proof -
  have m': "mounted S hist a (Suc (length ns + Suc b)) s M" using m by simp
  obtain fh u where u: "gdpfs_dir_open_file_at_path S rootlog s (path_of (ns @ [n])) GDPFS_FILE_TYPE_UNKNOWN = Inr (EP_STAT_OK, fh, u)"
    "moved S hist a (Suc b) s M u" "opens fh p s u" using open_file_at [OF m' f p(2) free] by blast
  note U = movedD [OF u(2)]
  have h: "handle_file u fh = Some p" "attrs u p = Some (ty, perm)" using u(3) U(5) p(2) by (simp_all add: opens_def)
  obtain x where x: "gdpfs_file_get_info S u fh = Inr (GDPFS_STAT_OK, Some p, u)" "get_file u p = Inr x" "file_type (info_cache x) = ty"
    "file_perm (info_cache x) = perm" "file_size (info_cache x) = of_nat k" using info_at [OF U(1) h(1) p(1) h(2)] by blast
  obtain t where t: "gdpfs_file_close S u fh = Inr (GDPFS_STAT_OK, t)" "moved S hist a b s M t" "open_handles t = open_handles s"
    using close_opened [OF u(2,3)] by blast
  have "gdpfs_getattr S rootlog mode uid gid s (path_of (ns @ [n])) =
      Inr (if stat_of mode uid gid k ty perm = None then - ENOENT else 0, stat_of mode uid gid k ty perm, t)"
    unfolding gdpfs_getattr_def u(1) bindR_simps prod.case x(1) deref_def option.case x(2-5) stat_of_def [symmetric] t(1)
    using t(1) by (simp add: EP_STAT_ISOK_def)
  then show ?thesis using t by blast
qed

lemma getattr_missing:
  assumes "mounted S hist a (Suc (length ns + b)) s M" "dir_at M (file_hash s) (attrs s) rootlog ns d" "dir_on M d es" "dir_map es n = None"
    "open_handles s \<noteq> {..<MAX_FHS}" "comp_ok n" "list_all comp_ok ms"
  shows "\<exists>t. gdpfs_getattr S rootlog mode uid gid s (path_of (ns @ n # ms)) = Inr (- ENOENT, None, t) \<and> moved S hist a b s M t \<and>
    open_handles t = open_handles s"
  using open_missing [OF assms, of GDPFS_FILE_TYPE_UNKNOWN] by (auto simp: gdpfs_getattr_def EP_STAT_ISOK_def)

text \<open>A file that was created is where its path leads.\<close>

lemma created_at:
  assumes c: "created S hist a b s M d es n g ty perm fh p t M'" and d: "dir_at M (file_hash s) (attrs s) rootlog ns d" "dir_on M d es" "dir_map es n = None"
    and n: "comp_ok n" and g: "file_hash s g = None"
  shows "file_at M' (file_hash t) (attrs t) rootlog ns n p" "attrs t p = Some (ty, perm)" "M' p = Some ([], 0)"
    "grows M (file_hash s) (attrs s) M'" "file_hash s \<subseteq>\<^sub>m file_hash t" "attrs s \<subseteq>\<^sub>m attrs t"
proof -
  obtain es' where C: "dir_on M' d es'" "dir_map es' = (dir_map es)(n \<mapsto> g)" "M p = None" "attrs s p = None" "M' p = Some ([], 0)"
    "\<And>q. q \<noteq> p \<Longrightarrow> q \<noteq> d \<Longrightarrow> M' q = M q" "attrs t = (attrs s)(p \<mapsto> (ty, perm))" "file_hash t = (file_hash s)(g \<mapsto> p)"
    using c unfolding created_def by blast
  show G: "grows M (file_hash s) (attrs s) M'"
    by (rule grows_one [where M = M and M' = M' and A = "attrs s" and p = p, OF d(2) C(1,4)]) (use C(2,6) d(3) in auto)
  show H: "file_hash s \<subseteq>\<^sub>m file_hash t" "attrs s \<subseteq>\<^sub>m attrs t" using C(7,8) map_le_new [of "file_hash s" g p] map_le_new [of "attrs s" p "(ty, perm)"] g C(4) by simp_all
  have "dir_at M' (file_hash t) (attrs t) rootlog ns d" by (rule dir_at_mono [OF d(1) G H])
  then show "file_at M' (file_hash t) (attrs t) rootlog ns n p" unfolding file_at_def using n C(1,2,8)
    by (intro exI [of _ d] exI [of _ es'] exI [of _ g]) simp
qed (use c in \<open>simp_all add: created_def\<close>)

lemma path_last: "comp_ok n \<Longrightarrow> path_of (ns @ [n]) \<noteq> [] \<and> last (path_of (ns @ [n])) \<noteq> SLASH"
  using last_in_set [of n] by (cases "last n = SLASH") (auto simp: comp_ok_def)

section \<open>Writing through the handler\<close>

definition fuse_writes :: "'w log_service \<Rightarrow> u64 \<Rightarrow> (u64 \<times> u8 list) list \<Rightarrow> 'w fsys \<Rightarrow> 'w fsys res" where
  "fuse_writes S fh ws s = foldR (\<lambda>s (off, buf). bindR (gdpfs_write S s fh buf off) (\<lambda>(_, s). Inr s)) ws s"

definition spec_writes :: "(u64 \<times> u8 list) list \<Rightarrow> u8 list \<times> nat \<Rightarrow> u8 list \<times> nat" where
  "spec_writes ws = fold spec_op (map (\<lambda>(off, buf). Op_Write off buf) ws)"

lemma fuse_writes_mounted:
  assumes "mounted S hist (length ws + a) b s M" "handle_file s fh = Some p" "M p = Some cn" "\<forall>(off, buf) \<in> set ws. buf \<noteq> [] \<and> fits s off buf"
  shows "\<exists>t. fuse_writes S fh ws s = Inr t \<and> mounted S hist a b t (M(p \<mapsto> spec_writes ws cn)) \<and> handle_file t = handle_file s \<and>
    open_handles t = open_handles s \<and> file_hash t = file_hash s \<and> attrs t = attrs s"
  using assms
proof (induction ws arbitrary: s M cn)
  case Nil
  have "M(p \<mapsto> cn) = M" using Nil.prems(3) by auto
  then show ?case using Nil.prems by (simp add: fuse_writes_def spec_writes_def)
next
  case (Cons w ws)
  obtain off buf where w: "w = (off, buf)" by (cases w)
  have m: "mounted S hist (Suc (length ws + a)) b s M" using Cons.prems(1) by simp
  have b: "buf \<noteq> []" "fits s off buf" using Cons.prems(4) w by auto
  obtain u where u: "gdpfs_file_write S s fh buf off = Inr (of_nat (length buf), u)"
    "mounted S hist (length ws + a) b u (M(p \<mapsto> spec_op (Op_Write off buf) cn))" "wrote 1 s u" "use_cache u = use_cache s" "cquota_f u = cquota_f s"
    using write_mounted [OF m Cons.prems(2,3) b] by blast
  have U: "handle_file u = handle_file s" "open_handles u = open_handles s" "file_hash u = file_hash s" "attrs u = attrs s"
    using u(3) wrote_attrs [OF u(3)] by (auto simp: wrote_def open_handles_def intro: handle_cong)
  have fu: "\<forall>(off, buf) \<in> set ws. buf \<noteq> [] \<and> fits u off buf" using Cons.prems(4) u(4,5) by (auto simp: fits_def)
  have hu: "handle_file u fh = Some p" "(M(p \<mapsto> spec_op (Op_Write off buf) cn)) p = Some (spec_op (Op_Write off buf) cn)" using Cons.prems(2) U(1) by simp_all
  obtain t where t: "fuse_writes S fh ws u = Inr t" "mounted S hist a b t ((M(p \<mapsto> spec_op (Op_Write off buf) cn))(p \<mapsto> spec_writes ws (spec_op (Op_Write off buf) cn)))"
    "handle_file t = handle_file u" "open_handles t = open_handles u" "file_hash t = file_hash u" "attrs t = attrs u"
    using Cons.IH [OF u(2) hu fu] by (elim exE conjE)
  have "fuse_writes S fh (w # ws) s = Inr t" using u(1) t(1) w by (simp add: fuse_writes_def gdpfs_write_def)
  moreover have "spec_writes (w # ws) cn = spec_writes ws (spec_op (Op_Write off buf) cn)" by (simp add: spec_writes_def w)
  ultimately show ?case using t(2-6) U by (intro exI [of _ t]) (simp only: fun_upd_upd simp_thms)
qed

section \<open>Removing\<close>

lemma find_found_slot:
  assumes m: "mounted S hist a b s M" and h: "handle_file s fh = Some d" and d: "dir_on M d es" and n: "dir_map es name = Some g"
  shows "\<exists>j. find_insert_offset S s fh name = Inr ((GDPFS_STAT_FILE_EXISTS, dslot j, es ! j), s) \<and> j < length es \<and> in_use (es ! j) \<and>
    cname (es ! j) = name \<and> ent_gname (es ! j) = g"
proof -
  obtain found j where f: "find_slot es name 0 None = (found, j)" by (cases "find_slot es name 0 None")
  have found
  proof (rule ccontr)
    assume "\<not> found"
    then show False using find_slot_free [of es name 0 None j] f n dir_map_none [of es name] by auto
  qed
  then have j: "j < length es" "in_use (es ! j)" "cname (es ! j) = name" using find_slot_found [of es name 0 None j] f by auto
  then have "ent_gname (es ! j) = g" using dir_map_at [of es j] d n by (simp add: dir_on_def)
  then show ?thesis using find_in_dir [OF mountedD(1) [OF m] dir_on_data [OF m h d], of name] f j \<open>found\<close> by (intro exI [of _ j]) auto
qed

text \<open>A regular file is opened for a look at its type and closed again.\<close>

lemma remove_mounted:
  assumes m: "mounted S hist (Suc a) (Suc b) s M" and h: "handle_file s fh = Some d" and d: "dir_on M d es" "dir_map es n = Some g" "dir_room s (length es)"
    and p: "file_hash s g = Some p" "attrs s p = Some (GDPFS_FILE_TYPE_REGULAR, perm)" and free: "open_handles s \<noteq> {..<MAX_FHS}"
  shows "\<exists>t cn es'. gdpfs_dir_remove S s fh n GDPFS_FILE_TYPE_REGULAR = Inr (GDPFS_STAT_OK, t) \<and> mounted S hist a b t (M(d \<mapsto> cn)) \<and>
    dir_on (M(d \<mapsto> cn)) d es' \<and> dir_map es' = (dir_map es)(n := None) \<and> handle_file t fh = Some d \<and> open_handles t = open_handles s \<and>
    keeps_handles {} s t \<and> file_hash t = file_hash s \<and> attrs t = attrs s"
proof -
  obtain j where j: "find_insert_offset S s fh n = Inr ((GDPFS_STAT_FILE_EXISTS, dslot j, es ! j), s)" "j < length es" "in_use (es ! j)"
    "cname (es ! j) = n" "ent_gname (es ! j) = g" using find_found_slot [OF m h d(1,2)] by blast
  have "GDPFS_FILE_TYPE_REGULAR = GDPFS_FILE_TYPE_UNKNOWN \<or> GDPFS_FILE_TYPE_REGULAR = GDPFS_FILE_TYPE_REGULAR" by simp
  from open_mounted [OF m p free this] obtain ff u where u: "gdpfs_file_open_type S s g GDPFS_FILE_TYPE_REGULAR = Inr (GDPFS_STAT_OK, ff, u)"
    "mounted S hist (Suc a) (Suc b) u M" "calm s u" "handle_file u ff = Some p" "unat ff \<notin> open_handles s"
    "open_handles u = insert (unat ff) (open_handles s)" "keeps_handles {} s u" by (elim exE conjE)
  have mo: "moved S hist (Suc a) (Suc b) s M u" "opens ff p s u" using u by (simp_all add: moved_def opens_def)
  obtain v where v: "gdpfs_file_close S u ff = Inr (GDPFS_STAT_OK, v)" "moved S hist (Suc a) b s M v" "open_handles v = open_handles s"
    using close_opened [OF mo] by blast
  note V = movedD [OF v(2)]
  have hv: "handle_file v fh = Some d" using h V(3) handle_open [OF h] by (simp add: keeps_handles_def)
  let ?e = "(es ! j)\<lparr>in_use := False\<rparr>"
  have wf: "ent_wf ?e" using d(1) j(2) by (simp add: dir_on_def ent_wf_def)
  have b: "length (dirent_bytes ?e) = sizeof_dirent" "dirent_bytes ?e \<noteq> []" using dirent_length [OF wf] by (auto simp: sizeof_dirent_def)
  have R: "sizeof_dirent * Suc j \<le> sizeof_dirent * length es" using j(2) by (intro mult_le_mono2) simp
  have R2: "sizeof_dirent * j + sizeof_dirent < 2 ^ 32" "use_cache s \<longrightarrow> sizeof_dirent * j + sizeof_dirent \<le> cquota_f s"
    using le_less_trans [OF R] le_trans [OF R] d(3) by (simp_all add: dir_room_def add.commute)
  have us: "unat (dslot j) = sizeof_dirent * j" by (rule unat_slot) (use R2 in simp)
  have fit: "fits v (dslot j) (dirent_bytes ?e)" using R2 b(1) V(7,8) us by (simp add: fits_def)
  obtain cn where cn: "M d = Some cn" using d(1) by (auto simp: dir_on_def)
  obtain w where w: "gdpfs_file_write S v fh (dirent_bytes ?e) (dslot j) = Inr (of_nat (length (dirent_bytes ?e)), w)"
    "mounted S hist a b w (M(d \<mapsto> spec_op (Op_Write (dslot j) (dirent_bytes ?e)) cn))" "wrote 1 v w"
    using write_mounted [OF V(1) hv cn b(2) fit] by blast
  have W: "handle_file w = handle_file v" "open_handles w = open_handles v" "file_hash w = file_hash v" "attrs w = attrs v"
    using w(3) wrote_attrs [OF w(3)] by (auto simp: wrote_def open_handles_def intro: handle_cong)
  obtain xs ys where s: "es = xs @ es ! j # ys" "length xs = j" using split_at [OF j(2)] by blast
  have ss: "set_slot es j ?e = xs @ ?e # ys" using j(2) s by (simp add: set_slot_def) (metis list_update_length)
  have "uniq (xs @ es ! j # ys)" using d(1) s(1) by (simp add: dir_on_def)
  from unlink_map [OF this j(3,4), of ?e] have un: "dir_map (set_slot es j ?e) = (dir_map es)(n := None)" "uniq (set_slot es j ?e)"
    using ss s(1) by simp_all
  have "dir_on (M(d \<mapsto> spec_op (Op_Write (dslot j) (dirent_bytes ?e)) cn)) d (set_slot es j ?e)"
    by (rule dir_on_slot [OF d(1) cn wf _ _ un(2)]) (use j(2) R2 in simp_all)
  moreover have "gdpfs_dir_remove S s fh n GDPFS_FILE_TYPE_REGULAR = Inr (GDPFS_STAT_OK, w)"
    unfolding gdpfs_dir_remove_def j(1) bindR_simps prod.case j(5) u(1) using v(1) w(1) b(1) by (simp add: EP_STAT_ISOK_def write_status_def sizeof_dirent_def)
  moreover have "handle_file w fh = Some d" "open_handles w = open_handles s" "keeps_handles {} s w" "file_hash w = file_hash s" "attrs w = attrs s"
    using W V(3-5) v(3) hv by (simp_all add: keeps_handles_def)
  ultimately show ?thesis using w(2) un(1) by blast
qed

end
