(* ===== verification/Start.thy ===== *)
theory Start
  imports Path_Ops
begin

text \<open>
  The start of the file system on a root log that is still empty, with the local cache disabled: the log becomes
  an empty directory. Its file is not a new one, so its index is loaded from the log.
\<close>

section \<open>Loading the index of an empty file\<close>

text \<open>Record number -1 is the last one.\<close>

definition svc_last :: "'w log_service \<Rightarrow> ('w \<Rightarrow> gdp_name \<Rightarrow> log_rec list) \<Rightarrow> bool" where
  "svc_last S hist \<longleftrightarrow> (\<forall>w n. hist w n \<noteq> [] \<longrightarrow> svc_read S w n (-1) = Inr (int (length (hist w n)), last (hist w n)))"

lemma empty_rec_sel [simp]:
  "rbody (empty_rec i) = Data_Body []" "ent_size (rmeta (empty_rec i)) = 0" "logent_type (rmeta (empty_rec i)) = GDPFS_LOGENT_TYPE_DATA"
  by (simp_all add: empty_rec_def data_meta_def)

lemma load_empty:
  assumes S: "svc_ok S hist" "svc_last S hist" and h: "heap_ok (nheap s)" and f: "fmem s p = Some f" "\<not> figtree_initialized f" and m: "io_mode s = GDP_MODE_RA"
    and r: "hist (world s) (log_handle f) = [empty_rec i]" and c: "\<not> use_cache s"
  shows "fresh_index S hist False s p f"
proof -
  obtain tr h' u where t: "ft_init (nheap s) = Inr (tr, h')" "fig_ok h' tr u" "\<forall>x. tlook u x = None"
    "\<forall>tr v. fig_ok (nheap s) tr v \<longrightarrow> fig_ok h' tr v \<and> set (addrs v) \<inter> set (addrs u) = {}" using ft_init_spares [OF h] by blast
  define f' where "f' = f\<lparr>last_recno := 1, figtree_of := tr, figtree_initialized := True\<rparr>"
  define s' where "s' = put_file (s\<lparr>nheap := h'\<rparr>) p f'"
  have ro: "rec_open S x (log_handle f) (-1) = Inr (1, empty_rec i)" "rec_open S x (log_handle f) 1 = Inr (1, empty_rec i)"
    if "world x = world s" "io_mode x = io_mode s" for x
    using S(2) svc_read_ok [OF S(1), of 1 "world s" "log_handle f"] r m that by (simp_all add: rec_open_def svc_last_def)
  have "load_index S s p = Inr s'"
    using f(1) t(1) ro by (simp add: load_index_def get_file_def put_file_def replay_ent_def s'_def f'_def)
  then have "open_index S s p False = Inr s'" using f by (simp add: open_index_def get_file_def)
  moreover have "data_tree hist s' p f' [] u"
    unfolding data_tree_def using t(2) indexed_empty [OF t(3)] m r c by (simp add: s'_def f'_def put_file_def)
  moreover have "info_cache f' = info_cache f" "info_cache_valid f' = info_cache_valid f" "same_place f f'"
    "figtree_initialized f'" "outstanding_reqs f' = outstanding_reqs f" by (simp_all add: f'_def same_place_def)
  ultimately show ?thesis unfolding s'_def fresh_index_def using t(4) by (intro exI [of _ f'] exI [of _ h'] exI [of _ u] conjI)
qed

section \<open>The root directory\<close>

lemma open_root:
  assumes S: "svc_ok S hist" "svc_last S hist" and i: "fs_inv s" and n: "can_create S hist s n" and c: "\<not> use_cache s"
  shows "\<exists>fh t p. gdpfs_file_open_init S s n GDPFS_FILE_TYPE_DIR perm False = Inr (GDPFS_STAT_OK, fh, t) \<and> placed hist s fh n p t \<and>
    born GDPFS_FILE_TYPE_DIR perm t p \<and> recently_closed_size t = recently_closed_size s \<and> ring t = ring s"
proof -
  have "fresh_index S hist False s' (fnext s) f'"
    if "heap_ok (nheap s')" "fmem s' (fnext s) = Some f'" "io_mode s' = GDP_MODE_RA" "\<not> figtree_initialized f'"
      "hist (world s') (log_handle f') = [empty_rec \<lparr>file_size = 0, file_type = GDPFS_FILE_TYPE_DIR, file_perm = perm\<rparr>]" "use_cache s' = use_cache s"
    for s' f' by (rule load_empty [OF S that(1,2,4,3,5)]) (use that(6) c in simp)
  then show ?thesis using open_new [OF S(1) i n, of GDPFS_FILE_TYPE_DIR False perm] by blast
qed

text \<open>The state after the start: an empty root directory, no handle, and one record that is not acknowledged.\<close>

lemma init_dir_mounted:
  assumes S: "svc_ok S hist" "svc_last S hist" and i: "freach S s" "\<And>p. fmem s p = None" "recently_closed_size s = 0" and n: "can_create S hist s n"
    and c: "\<not> use_cache s" and a: "a < 2 ^ 31 - 1" "b < 256"
  shows "\<exists>t p. init_gdpfs_dir S s n = Inr (GDPFS_STAT_OK, t) \<and> mounted S hist a b t [p \<mapsto> ([], 0)] \<and>
    file_hash t = (file_hash s)(n \<mapsto> p) \<and> attrs t p = Some (GDPFS_FILE_TYPE_DIR, 0x169) \<and> open_handles t = open_handles s \<and> ring t = ring s \<and>
    use_cache t = use_cache s \<and> cquota_f t = cquota_f s \<and> (\<forall>m. m \<noteq> n \<longrightarrow> hist (world t) m = hist (world s) m)"
proof -
  have inv: "fs_inv s" by (rule fs_inv_reach [OF i(1)])
  have D: "disk_with hist s Map.empty F T" for F T using tabs_reach [OF i(1)] by (simp add: disk_with_def)
  obtain fh u p where u: "gdpfs_file_open_init S s n GDPFS_FILE_TYPE_DIR 0x169 False = Inr (GDPFS_STAT_OK, fh, u)" "placed hist s fh n p u"
    "born GDPFS_FILE_TYPE_DIR 0x169 u p" "recently_closed_size u = recently_closed_size s" "ring u = ring s" using open_root [OF S inv n c] by blast
  have h: "file_hash s n = None" using n by (simp add: can_create_def)
  note P = disk_placed [OF D inv h u(2)]
  have du: "disk hist u [p \<mapsto> ([], 0)]" using P(1) unfolding disk_def by blast
  have room: "room s" using i(2) by (simp add: room_def)
  have ru: "freach S u" using u(1) by (auto simp: gdpfs_file_open_init_def intro: freach.Step [OF i(1)] fstep.Open [OF room])
  obtain f where f: "fmem u p = Some f" "outstanding_reqs f = 1" "figtree_initialized f" "info_cache_valid f" "file_type (info_cache f) = GDPFS_FILE_TYPE_DIR"
    "file_perm (info_cache f) = 0x169" using u(3) by (auto simp: born_def)
  have au: "attrs u p = Some (GDPFS_FILE_TYPE_DIR, 0x169)" using f by (simp add: attrs_Some)
  have O: "unat fh \<notin> open_handles s" "open_handles u = insert (unat fh) (open_handles s)" "\<And>q. q \<noteq> p \<Longrightarrow> fmem u q = None"
    "file_hash u = (file_hash s)(n \<mapsto> p)" "use_cache u = use_cache s" "cquota_f u = cquota_f s"
    "\<forall>m. m \<noteq> n \<longrightarrow> hist (world u) m = hist (world s) m" using u(2) i(2) by (simp_all add: placed_def)
  have "outstanding_reqs g + int a < 2 ^ 31" if "fmem u q = Some g" for q g
    using that O(3) [of q] f(1,2) a(1) by (cases "q = p") auto
  then have m: "mounted S hist a (Suc b) u [p \<mapsto> ([], 0)]" using S(1) ru du a u(4) i(3) by (simp add: mounted_def RC_CAP_def)
  obtain t where t: "gdpfs_file_close S u fh = Inr (GDPFS_STAT_OK, t)" "mounted S hist a b t [p \<mapsto> ([], 0)]" "calm u t"
    "open_handles t = open_handles u - {unat fh}" using close_mounted [OF m P(3)] by blast
  have "init_gdpfs_dir S s n = Inr (GDPFS_STAT_OK, t)" using u(1) t(1) by (simp add: init_gdpfs_dir_def EP_STAT_ISOK_def)
  moreover have "open_handles t = open_handles s" using t(4) O(1,2) by auto
  moreover have "file_hash t = (file_hash s)(n \<mapsto> p)" "attrs t p = Some (GDPFS_FILE_TYPE_DIR, 0x169)" "ring t = ring s" "use_cache t = use_cache s"
    "cquota_f t = cquota_f s" "\<forall>m. m \<noteq> n \<longrightarrow> hist (world t) m = hist (world s) m"
    using t(3) calm_attrs [OF t(3)] au O(4-7) u(5) by (simp_all add: calm_def)
  ultimately show ?thesis using t(2) by blast
qed

section \<open>The whole start\<close>

lemma init_file_state:
  assumes "EP_STAT_ISOK gst" "init_gdpfs_file gst (if ro then 0 else 1) False blk quota deny dir_ok w = (e, s)"
  shows "e = GDPFS_STAT_OK" "fmem s p = None" "file_hash s n = None" "recently_closed_size s = 0" "\<not> use_cache s" "io_mode s = (if ro then GDP_MODE_RO else GDP_MODE_RA)" "world s = w"
    "heap_ok (nheap s)" "open_handles s = {}" "ring s = precreated_init" "freach S s" "unsaved (nheap s)"
proof -
  obtain b where b: "bitmap_create True True (of_nat MAX_FHS) = Some b" "bits b = {}"
    using bitmap_create_wf [of "of_nat MAX_FHS"] by (auto simp: MAX_FHS_def)
  show e: "e = GDPFS_STAT_OK" "fmem s p = None" "file_hash s n = None" "recently_closed_size s = 0" "\<not> use_cache s" "io_mode s = (if ro then GDP_MODE_RO else GDP_MODE_RA)" "world s = w"
    "heap_ok (nheap s)" "open_handles s = {}" "ring s = precreated_init" "unsaved (nheap s)"
    using assms b by (cases ro; auto simp: init_gdpfs_file_def init_gdpfs_log_def EP_STAT_ISOK_def heap_ok_def open_handles_def unsaved_def)+
  show "freach S s" by (rule freach.Init [OF assms(2)]) (simp add: e(1) EP_STAT_ISOK_def)
qed

lemma run_new_root:
  assumes S: "svc_ok S hist" "svc_last S hist" and g: "EP_STAT_ISOK gst" and n: "EP_STAT_ISOK (svc_open S w n)" "hist w n = []"
    and a: "a < 2 ^ 31 - 1" "b < 256"
  shows "\<exists>s p. gdpfs_run S n gst False False blk quota deny dir_ok w = Inr (Some (1, s)) \<and> mounted S hist a b s [p \<mapsto> ([], 0)] \<and>
    file_hash s = [n \<mapsto> p] \<and> attrs s p = Some (GDPFS_FILE_TYPE_DIR, 0x169) \<and> open_handles s = {} \<and> \<not> use_cache s \<and>
    (\<forall>m. m \<noteq> n \<longrightarrow> hist (world s) m = hist w m)"
proof -
  obtain e s where s: "init_gdpfs_file gst 1 False blk quota deny dir_ok w = (e, s)" by (cases "init_gdpfs_file gst 1 False blk quota deny dir_ok w")
  note I = init_file_state [where ro = False, unfolded if_False, OF g s]
  have "open_handles s \<noteq> {..<MAX_FHS}" using I(9) free_handle [of s] by (simp add: MAX_FHS_def)
  then have c: "can_create S hist s n" using I n by (simp add: can_create_def)
  obtain t p where t: "init_gdpfs_dir S s n = Inr (GDPFS_STAT_OK, t)" "mounted S hist a b t [p \<mapsto> ([], 0)]" "file_hash t = (file_hash s)(n \<mapsto> p)"
    "attrs t p = Some (GDPFS_FILE_TYPE_DIR, 0x169)" "open_handles t = open_handles s" "use_cache t = use_cache s" "\<forall>m. m \<noteq> n \<longrightarrow> hist (world t) m = hist (world s) m"
    using init_dir_mounted [OF S I(11,2,4) c I(5) a] by blast
  have f: "file_hash s = Map.empty" using I(3) by auto
  have "gdpfs_run S n gst False False blk quota deny dir_ok w = Inr (Some (1, t))" using s t(1) I(1) by (simp add: gdpfs_run_def EP_STAT_ISOK_def)
  then show ?thesis using t I(5,7,9) f by auto
qed

text \<open>
  The start in read-only mode on a directory that is still empty: its index is built in memory, where its one node
  is not saved.
\<close>

lemma open_old:
  assumes S: "svc_ok S hist" "svc_last S hist" and i: "fs_inv s" and n: "open_handles s \<noteq> {..<MAX_FHS}" "file_hash s n = None" "EP_STAT_ISOK (svc_open S (world s) n)"
    and r: "hist (world s) n = [empty_rec \<lparr>file_size = 0, file_type = GDPFS_FILE_TYPE_DIR, file_perm = perm\<rparr>]"
    and m: "io_mode s = GDP_MODE_RO" "heap_ok (nheap s)" "unsaved (nheap s)" "\<not> use_cache s"
  shows "\<exists>fh t f u. gdpfs_file_open_init S s n GDPFS_FILE_TYPE_DIR perm' False = Inr (GDPFS_STAT_OK, fh, t) \<and> unat fh \<in> open_handles t \<and>
    file_hash t = (file_hash s)(n \<mapsto> fnext s) \<and> fmem t (fnext s) = Some f \<and> info_cache_valid f \<and> log_handle f = n \<and>
    fig_ok (nheap t) (figtree_of f) u \<and> dirty_in (nheap t) u \<and> io_mode t = GDP_MODE_RO \<and> recently_closed_size t = recently_closed_size s"
proof -
  obtain fh b where b: "bitmap_reserve (fhs s) = Inr (fh, Some b)" "fh \<noteq> -1" "unat fh < MAX_FHS" "bits b = insert (unat fh) (open_handles s)"
    using reserve_free [OF i n(1)] by blast
  have fl: "length (files s) = MAX_FHS" using i by (simp add: fs_inv_def inv_with_def tables_ok_def)
  obtain tr h' u where t: "ft_init (nheap s) = Inr (tr, h')" "fig_ok h' tr u" using ft_init_spares [OF m(2)] by blast
  have "unsaved h'" using unsaved_init [OF m(3)] t(1) by (simp add: okR_def)
  then have d: "dirty_in h' u" by (rule unsaved_dirty_in [OF t(2)])
  have ro: "rec_open S x n (-1) = Inr (1, empty_rec \<lparr>file_size = 0, file_type = GDPFS_FILE_TYPE_DIR, file_perm = perm\<rparr>)"
    "rec_open S x n 1 = Inr (1, empty_rec \<lparr>file_size = 0, file_type = GDPFS_FILE_TYPE_DIR, file_perm = perm\<rparr>)"
    if "world x = world s" "io_mode x = io_mode s" for x
    using S(2) svc_read_ok [OF S(1), of 1 "world s" n] r m(1) that by (simp_all add: rec_open_def svc_last_def)
  have ok: "EP_STAT_ISOK GDPFS_STAT_OK" by (simp add: EP_STAT_ISOK_def)
  have "\<exists>t f. gdpfs_file_open_init S s n GDPFS_FILE_TYPE_DIR perm' False = Inr (GDPFS_STAT_OK, fh, t) \<and> fhs t = Some b \<and>
    file_hash t = (file_hash s)(n \<mapsto> fnext s) \<and> fmem t (fnext s) = Some f \<and> info_cache_valid f \<and> log_handle f = n \<and>
    nheap t = h' \<and> figtree_of f = tr \<and> io_mode t = io_mode s \<and> recently_closed_size t = recently_closed_size s"
    using b fl n(2,3) m(4) t(1) ro ok
    by (simp add: gdpfs_file_open_init_def open_file_def open_struct_def file_ref_def open_check_type_def file_get_info_raw_def file_load_info_cache_def
        open_index_def load_index_def replay_ent_def get_file_def put_file_def zero_file_def Let_def empty_rec_def data_meta_def)
  then show ?thesis using t(2) d b(4) m(1) by (auto simp: open_handles_def)
qed

lemma run_old_root:
  assumes S: "svc_ok S hist" "svc_last S hist" and g: "EP_STAT_ISOK gst" and n: "EP_STAT_ISOK (svc_open S w n)"
    "hist w n = [empty_rec \<lparr>file_size = 0, file_type = GDPFS_FILE_TYPE_DIR, file_perm = perm\<rparr>]"
  shows "\<exists>s p f u. gdpfs_run S n gst True False blk quota deny dir_ok w = Inr (Some (0, s)) \<and> freach S s \<and> file_hash s = [n \<mapsto> p] \<and>
    fmem s p = Some f \<and> info_cache_valid f \<and> fig_ok (nheap s) (figtree_of f) u \<and> dirty_in (nheap s) u \<and> io_mode s = GDP_MODE_RO"
proof -
  obtain e s where s: "init_gdpfs_file gst 0 False blk quota deny dir_ok w = (e, s)" by (cases "init_gdpfs_file gst 0 False blk quota deny dir_ok w")
  note I = init_file_state [where ro = True, unfolded if_True, OF g s]
  have inv: "fs_inv s" by (rule fs_inv_reach [OF I(11)])
  have free: "open_handles s \<noteq> {..<MAX_FHS}" using I(9) free_handle [of s] by (simp add: MAX_FHS_def)
  have hn: "hist (world s) n = [empty_rec \<lparr>file_size = 0, file_type = GDPFS_FILE_TYPE_DIR, file_perm = perm\<rparr>]" "EP_STAT_ISOK (svc_open S (world s) n)"
    using n I(7) by simp_all
  obtain fh u f v where u: "gdpfs_file_open_init S s n GDPFS_FILE_TYPE_DIR 0x169 False = Inr (GDPFS_STAT_OK, fh, u)" "unat fh \<in> open_handles u"
    "file_hash u = (file_hash s)(n \<mapsto> fnext s)" "fmem u (fnext s) = Some f" "info_cache_valid f" "fig_ok (nheap u) (figtree_of f) v"
    "dirty_in (nheap u) v" "io_mode u = GDP_MODE_RO" "recently_closed_size u = recently_closed_size s"
    using open_old [OF S inv free I(3) hn(2,1) I(6,8,12,5), where perm' = "0x169"] by blast
  have room: "room s" using I(2) by (simp add: room_def)
  have ru: "freach S u" using u(1) by (auto simp: gdpfs_file_open_init_def intro: freach.Step [OF I(11)] fstep.Open [OF room])
  obtain b' q fq where c: "bitmap_release (fhs u) fh = Inr (0, Some b')" "lookup_fh u fh = Inr (Some q)" "fmem u q = Some fq"
    "inv_with (open_handles u - {unat fh}) (one_ref q) (u\<lparr>fhs := Some b'\<rparr>)" using close_step [OF fs_inv_reach [OF ru] u(2)] by blast
  have f1: "fmem (u\<lparr>fhs := Some b'\<rparr>) q = Some fq" "recently_closed_size (u\<lparr>fhs := Some b'\<rparr>) < RC_CAP" using c(3) u(9) I(4) by (simp_all add: RC_CAP_def)
  obtain t where t: "file_unref S (u\<lparr>fhs := Some b'\<rparr>) q = Inr (GDPFS_STAT_OK, t)" using unref_succeeds [OF c(4) f1] by blast
  have cl: "gdpfs_file_close S u fh = Inr (GDPFS_STAT_OK, t)" using c(1,2) t by (simp add: gdpfs_file_close_def)
  have "closes (u\<lparr>fhs := Some b'\<rparr>) t" using okRD [OF closes_unref [OF f1(2)] t] by simp
  then have k: "rel_option same_data (fmem u (fnext s)) (fmem t (fnext s))" "nheap t = nheap u" "io_mode t = io_mode u" "file_hash t = file_hash u"
    by (simp_all add: closes_def calm_def)
  obtain f' where f': "fmem t (fnext s) = Some f'" "same_data f f'" using k(1) u(4) by (cases "fmem t (fnext s)") auto
  have ff: "info_cache_valid f' = info_cache_valid f" "figtree_of f' = figtree_of f" using same_data_sel [OF f'(2)] by simp_all
  have "gdpfs_run S n gst True False blk quota deny dir_ok w = Inr (Some (0, t))"
    using s u(1) cl I(1) by (simp add: gdpfs_run_def init_gdpfs_dir_def EP_STAT_ISOK_def)
  moreover have "freach S t" by (rule freach.Step [OF ru fstep.Close [OF u(2) cl]])
  moreover have "file_hash t = [n \<mapsto> fnext s]" using k(4) u(3) I(3) by auto
  ultimately show ?thesis using f'(1) ff u(5-8) k(2,3) by (intro exI [of _ t] exI [of _ "fnext s"] exI [of _ f'] exI [of _ v]) simp
qed

lemma root_dir:
  assumes "file_hash s = [n \<mapsto> p]" "attrs s p = Some (GDPFS_FILE_TYPE_DIR, perm)"
  shows "dir_at [p \<mapsto> ([], 0)] (file_hash s) (attrs s) n [] p" "dir_on [p \<mapsto> ([], 0)] p []"
  using assms by (auto simp: dir_at_def dir_on_def uniq_def)

lemma mounted_ring:
  assumes "mounted S hist a b s M"
  shows "mounted S hist a b (s\<lparr>ring := q\<rparr>) M"
proof -
  have "freach S (s\<lparr>ring := q\<rparr>)" by (rule freach.Step [OF mountedD(2) [OF assms] fstep.Producer])
  then show ?thesis using assms by (simp add: mounted_def disk_ring)
qed

lemma mounted_heap:
  assumes "mounted S hist a b s M" "M p = Some cn"
  shows "heap_ok (nheap s)" "io_mode s = GDP_MODE_RA"
proof -
  obtain F T where D: "disk_with hist s M F T" using mountedD(5) [OF assms(1)] by (auto simp: disk_def)
  have "located hist s p (F p) (fst cn) (snd cn) (T p)" using disk_withD(2) [OF D] assms(2) by simp
  then show "heap_ok (nheap s)" "io_mode s = GDP_MODE_RA" by (auto simp: located_def data_tree_def fig_ok_def owns_def)
qed

end
