(* ===== verification/Path_Props.thy ===== *)
theory Path_Props
  imports Start
begin

text \<open>
  Properties of the whole file system, from the handlers down to the logs: what is written into a file is read
  after the file was closed and opened again by its path, a directory that is made is found, and a file that
  is removed is gone.
\<close>

section \<open>Room for one more file\<close>

text \<open>
  The directory \<open>d\<close> at \<open>ns\<close> has no entry \<open>n\<close> and room for one, a fresh log \<open>g\<close> waits in the queue, and two handles are free.
\<close>

definition can_add ::
  "'w log_service \<Rightarrow> ('w \<Rightarrow> gdp_name \<Rightarrow> log_rec list) \<Rightarrow> nat \<Rightarrow> nat \<Rightarrow> 'w fsys \<Rightarrow> (nat \<rightharpoonup> u8 list \<times> nat) \<Rightarrow> gdp_name \<Rightarrow> cstring list \<Rightarrow> cstring \<Rightarrow>
     nat \<Rightarrow> gdpfs_dir_entry_phys list \<Rightarrow> gdp_name \<Rightarrow> bool" where
  "can_add S hist a b s M rootlog ns n d es g \<longleftrightarrow> mounted S hist a b s M \<and> dir_at M (file_hash s) (attrs s) rootlog ns d \<and> dir_on M d es \<and>
     dir_map es n = None \<and> dir_room s (Suc (length es)) \<and> comp_ok n \<and> (\<exists>q. gdpfs_log_get_precreated (ring s) = Some (g, q)) \<and> length g = 32 \<and>
     fresh_log S hist s g \<and> card (open_handles s) + 2 \<le> MAX_FHS"

lemma add_at:
  assumes c: "can_add S hist (Suc (Suc a)) (length ns + Suc b) s M rootlog ns n d es g" and ty: "ty \<noteq> GDPFS_FILE_TYPE_UNKNOWN"
  shows "\<exists>fh t p M'. gdpfs_dir_create_file_at_path S rootlog s (path_of (ns @ [n])) ty hg perm = Inr (GDPFS_STAT_OK, fh, [], t) \<and>
    created S hist a b s M d es n g ty perm fh p t M' \<and> file_at M' (file_hash t) (attrs t) rootlog ns n p \<and> attrs t p = Some (ty, perm) \<and>
    card (open_handles t) = Suc (card (open_handles s))"
proof -
  obtain q where C: "mounted S hist (Suc (Suc a)) (length ns + Suc b) s M" "dir_at M (file_hash s) (attrs s) rootlog ns d" "dir_on M d es"
    "dir_map es n = None" "dir_room s (Suc (length es))" "comp_ok n" "gdpfs_log_get_precreated (ring s) = Some (g, q)" "length g = 32"
    "fresh_log S hist s g" "card (open_handles s) + 2 \<le> MAX_FHS" using c by (auto simp: can_add_def)
  obtain fh t p M' where t: "gdpfs_dir_create_file_at_path S rootlog s (path_of (ns @ [n])) ty hg perm = Inr (GDPFS_STAT_OK, fh, [], t)"
    "created S hist a b s M d es n g ty perm fh p t M'" using create_at [OF C ty] by blast
  have g: "file_hash s g = None" using C(9) by (simp add: fresh_log_def)
  note A = created_at [OF t(2) C(2-4,6) g]
  have "card (open_handles t) = Suc (card (open_handles s))" using opened_card [OF C(1)] t(2) by (auto simp: created_def)
  then show ?thesis using t A(1,2) by blast
qed

section \<open>A file that is opened again\<close>

text \<open>The owner may read what has the permission to be read.\<close>

lemma open_flags_read:
  assumes "mounted S hist a b s M" "handle_file s fh = Some p" "M p = Some (c, k)" "attrs s p = Some (ty, perm)" "perm AND S_IRUSR \<noteq> 0"
  shows "check_open_flags S s fh 0 = Inr (True, s)"
proof -
  obtain f where f: "gdpfs_file_get_info S s fh = Inr (GDPFS_STAT_OK, Some p, s)" "get_file s p = Inr f" "file_perm (info_cache f) = perm"
    using info_at [OF assms(1-4)] by blast
  then show ?thesis using assms(5) by (simp add: check_open_flags_def EP_STAT_ISOK_def deref_def)
qed

lemma reopen:
  assumes m: "mounted S hist a (Suc (length ns + b)) s M" and f: "file_at M (file_hash s) (attrs s) rootlog ns n p" "M p = Some (c, k)"
    "attrs s p = Some (GDPFS_FILE_TYPE_REGULAR, perm)" "perm AND S_IRUSR \<noteq> 0" and free: "open_handles s \<noteq> {..<MAX_FHS}"
  shows "\<exists>fh t. gdpfs_open S rootlog s (path_of (ns @ [n])) 0 = Inr (0, fh, t) \<and> moved S hist a b s M t \<and> opens fh p s t"
proof -
  obtain fh t where t: "gdpfs_dir_open_file_at_path S rootlog s (path_of (ns @ [n])) GDPFS_FILE_TYPE_REGULAR = Inr (EP_STAT_OK, fh, t)"
    "moved S hist a b s M t" "opens fh p s t" using open_file_at [OF m f(1,3) free] by blast
  note T = movedD [OF t(2)]
  have h: "handle_file t fh = Some p" "attrs t p = Some (GDPFS_FILE_TYPE_REGULAR, perm)" using t(3) T(5) f(3) by (simp_all add: opens_def)
  have "check_open_flags S t fh 0 = Inr (True, t)" by (rule open_flags_read [OF T(1) h(1) f(2) h(2) f(4)])
  then show ?thesis using t by (intro exI [of _ fh] exI [of _ t]) (simp add: gdpfs_open_def open_as_def fuse_open_path_def EP_STAT_ISOK_def)
qed

lemma read_mounted:
  assumes "mounted S hist a b s M" "handle_file s fh = Some p" "M p = Some cn" "unat sz + unat off < 2 ^ 64"
  shows "gdpfs_read S s fh sz off = Inr (sint (of_nat (length (spec_read cn (unat off) (unat sz))) :: u32), spec_read cn (unat off) (unat sz), s)"
proof -
  have "file_data hist s fh (fst cn) (snd cn)" using disk_file [OF mountedD(5) [OF assms(1)] assms(2)] assms(3) by simp
  from read_data [OF mountedD(1) [OF assms(1)] this assms(4)] show ?thesis by (simp add: gdpfs_read_def spec_read_def)
qed

lemma create_write_close:
  assumes c: "can_add S hist (length ws + 2 + a) (length ns + b + 2) s M rootlog ns n d es g"
    and ws: "\<forall>(off, buf) \<in> set ws. buf \<noteq> [] \<and> fits s off buf"
  shows "\<exists>fh t1 t2 t3 p M'. gdpfs_create S rootlog s (path_of (ns @ [n])) mode = Inr (0, fh, t1) \<and> fuse_writes S fh ws t1 = Inr t2 \<and>
    gdpfs_release S t2 fh = Inr (0, t3) \<and> mounted S hist a b t3 M' \<and> file_at M' (file_hash t3) (attrs t3) rootlog ns n p \<and>
    M' p = Some (spec_writes ws ([], 0)) \<and> attrs t3 p = Some (GDPFS_FILE_TYPE_REGULAR, gdpfs_extract_perm mode) \<and> open_handles t3 = open_handles s"
proof -
  let ?P = "gdpfs_extract_perm mode"
  have c': "can_add S hist (Suc (Suc (length ws + a))) (length ns + Suc (Suc b)) s M rootlog ns n d es g" using c by (simp add: add.commute)
  have n: "comp_ok n" using c by (simp add: can_add_def)
  obtain fh t1 p M1 where t1: "gdpfs_dir_create_file_at_path S rootlog s (path_of (ns @ [n])) GDPFS_FILE_TYPE_REGULAR True ?P = Inr (GDPFS_STAT_OK, fh, [], t1)"
    "created S hist (length ws + a) (Suc b) s M d es n g GDPFS_FILE_TYPE_REGULAR ?P fh p t1 M1" "file_at M1 (file_hash t1) (attrs t1) rootlog ns n p"
    "attrs t1 p = Some (GDPFS_FILE_TYPE_REGULAR, ?P)" using add_at [OF c', of GDPFS_FILE_TYPE_REGULAR True ?P] by blast
  have cr: "gdpfs_create S rootlog s (path_of (ns @ [n])) mode = Inr (0, fh, t1)" using t1(1) path_last [OF n, of ns] by (simp add: gdpfs_create_def EP_STAT_ISOK_def)
  have C: "mounted S hist (length ws + a) (Suc b) t1 M1" "opens fh p s t1" "M1 p = Some ([], 0)" "use_cache t1 = use_cache s" "cquota_f t1 = cquota_f s"
    "handle_file t1 fh = Some p" using t1(2) by (simp_all add: created_def opens_def)
  have ws1: "\<forall>(off, buf) \<in> set ws. buf \<noteq> [] \<and> fits t1 off buf" using ws C(4,5) by (auto simp: fits_def)
  let ?M = "M1(p \<mapsto> spec_writes ws ([], 0))"
  obtain t2 where t2: "fuse_writes S fh ws t1 = Inr t2" "mounted S hist a (Suc b) t2 ?M" "handle_file t2 = handle_file t1" "open_handles t2 = open_handles t1"
    "file_hash t2 = file_hash t1" "attrs t2 = attrs t1" using fuse_writes_mounted [OF C(1,6,3) ws1] by blast
  have h2: "handle_file t2 fh = Some p" using t2(3) C(6) by simp
  obtain t3 where t3: "gdpfs_file_close S t2 fh = Inr (GDPFS_STAT_OK, t3)" "mounted S hist a b t3 ?M" "calm t2 t3" "open_handles t3 = open_handles t2 - {unat fh}"
    using close_mounted [OF t2(2) h2] by blast
  have e: "file_hash t3 = file_hash t1" "attrs t3 = attrs t1" using t3(3) calm_attrs [OF t3(3)] t2(5,6) by (simp_all add: calm_def)
  have "file_at ?M (file_hash t3) (attrs t3) rootlog ns n p" unfolding e by (rule file_at_data [OF t1(3,4)]) simp
  moreover have "gdpfs_release S t2 fh = Inr (0, t3)" using t3(1) by (simp add: gdpfs_release_def fuse_release_fh_def)
  moreover have "open_handles t3 = open_handles s" using t3(4) t2(4) C(2) by (auto simp: opens_def)
  moreover have "?M p = Some (spec_writes ws ([], 0))" by simp
  ultimately show ?thesis using cr t2(1) t3(2) e t1(4) by metis
qed

section \<open>Directories\<close>

lemma mkdir_at:
  assumes c: "can_add S hist (2 + a) (length ns + Suc b) s M rootlog ns n d es g"
  shows "\<exists>t p M'. gdpfs_mkdir S rootlog s (path_of (ns @ [n])) mode = Inr (0, t) \<and> mounted S hist a b t M' \<and>
    file_at M' (file_hash t) (attrs t) rootlog ns n p \<and> M' p = Some ([], 0) \<and>
    attrs t p = Some (GDPFS_FILE_TYPE_DIR, gdpfs_extract_perm mode) \<and> card (open_handles t) = Suc (card (open_handles s))"
proof -
  let ?P = "gdpfs_extract_perm mode"
  have c': "can_add S hist (Suc (Suc a)) (length ns + Suc b) s M rootlog ns n d es g" using c by simp
  have n: "comp_ok n" using c by (simp add: can_add_def)
  obtain fh t p M' where t: "gdpfs_dir_create_file_at_path S rootlog s (path_of (ns @ [n])) GDPFS_FILE_TYPE_DIR False ?P = Inr (GDPFS_STAT_OK, fh, [], t)"
    "created S hist a b s M d es n g GDPFS_FILE_TYPE_DIR ?P fh p t M'" "file_at M' (file_hash t) (attrs t) rootlog ns n p"
    "attrs t p = Some (GDPFS_FILE_TYPE_DIR, ?P)" "card (open_handles t) = Suc (card (open_handles s))"
    using add_at [OF c', of GDPFS_FILE_TYPE_DIR False ?P] by blast
  have "gdpfs_mkdir S rootlog s (path_of (ns @ [n])) mode = Inr (0, t)" using t(1) path_last [OF n, of ns] by (simp add: gdpfs_mkdir_def EP_STAT_ISOK_def)
  then show ?thesis using t by (intro exI [of _ t] exI [of _ p] exI [of _ M']) (simp add: created_def)
qed

section \<open>Removal\<close>

lemma unlink_at:
  assumes m: "mounted S hist (Suc a) (length ns + (2 + b)) s M" and d: "dir_at M (file_hash s) (attrs s) rootlog ns d" "dir_on M d es" "dir_room s (length es)"
    and n: "comp_ok n" "dir_map es n = Some g" "file_hash s g = Some p" "attrs s p = Some (GDPFS_FILE_TYPE_REGULAR, perm)"
    and free: "card (open_handles s) + 2 \<le> MAX_FHS"
  shows "\<exists>t cn es'. gdpfs_unlink S rootlog s (path_of (ns @ [n])) = Inr (0, t) \<and> mounted S hist a b t (M(d \<mapsto> cn)) \<and>
    dir_at (M(d \<mapsto> cn)) (file_hash t) (attrs t) rootlog ns d \<and> dir_on (M(d \<mapsto> cn)) d es' \<and> dir_map es' = (dir_map es)(n := None) \<and>
    open_handles t = open_handles s \<and> file_hash t = file_hash s \<and> attrs t = attrs s"
proof -
  obtain df u where u: "open_parent_dir S rootlog s (path_of (ns @ [n])) = Inr (EP_STAT_OK, df, n, u)" "moved S hist (Suc a) (2 + b) s M u" "opens df d s u"
    using open_parent_at [OF m d(1) n(1) free_handle] free by auto
  note U = movedD [OF u(2)]
  have h: "handle_file u df = Some d" using u(3) by (simp add: opens_def)
  have m': "mounted S hist (Suc a) (Suc (Suc b)) u M" using U(1) by simp
  have e: "file_hash u g = Some p" "attrs u p = Some (GDPFS_FILE_TYPE_REGULAR, perm)" "dir_room u (length es)"
    using n(3,4) U(4,5,7,8) d(3) by (simp_all add: dir_room_def)
  have fu: "open_handles u \<noteq> {..<MAX_FHS}" using free_handle [of u] opened_card [OF m u(3)] free by simp
  obtain v cn es' where v: "gdpfs_dir_remove S u df n GDPFS_FILE_TYPE_REGULAR = Inr (GDPFS_STAT_OK, v)" "mounted S hist a (Suc b) v (M(d \<mapsto> cn))"
    "dir_on (M(d \<mapsto> cn)) d es'" "dir_map es' = (dir_map es)(n := None)" "handle_file v df = Some d" "open_handles v = open_handles u"
    "keeps_handles {} u v" "file_hash v = file_hash u" "attrs v = attrs u" using remove_mounted [OF m' h d(2) n(2) e(3,1,2) fu] by blast
  obtain t where t: "gdpfs_file_close S v df = Inr (GDPFS_STAT_OK, t)" "mounted S hist a b t (M(d \<mapsto> cn))" "calm v t" "open_handles t = open_handles v - {unat df}"
    using close_mounted [OF v(2,5)] by blast
  have T: "file_hash t = file_hash s" "attrs t = attrs s" using t(3) calm_attrs [OF t(3)] v(8,9) U(4,5) by (simp_all add: calm_def)
  have ot: "open_handles t = open_handles s" using t(4) v(6) u(3) by (auto simp: opens_def)
  have un: "gdpfs_unlink S rootlog s (path_of (ns @ [n])) = Inr (0, t)"
    using u(1) v(1) t(1) path_last [OF n(1), of ns] by (simp add: gdpfs_unlink_def gdpfs_dir_remove_file_at_path_def EP_STAT_ISOK_def)
  have ne: "attrs s x = None \<Longrightarrow> dir_map es' k = Some y" if "dir_map es k = Some y" "file_hash s y = Some q" "attrs s q = Some (GDPFS_FILE_TYPE_DIR, pm)" for k y q pm x
    using that n v(4) by (cases "k = n") auto
  have "grows M (file_hash s) (attrs s) (M(d \<mapsto> cn))"
  proof -
    have "fmem s (fnext s) = None" using mountedD(3) [OF m] unfolding fs_inv_def inv_with_def file_ok_def by (cases "fmem s (fnext s)") auto
    then have x: "attrs s (fnext s) = None" by (simp add: attrs_def)
    show ?thesis by (rule grows_one [where p = "fnext s" and M' = "M(d \<mapsto> cn)" and A = "attrs s", OF d(2) v(3) x]) (use ne [OF _ _ _ x] in simp_all)
  qed
  then have "dir_at (M(d \<mapsto> cn)) (file_hash t) (attrs t) rootlog ns d" unfolding T by (rule dir_at_mono [OF d(1)]) simp_all
  then show ?thesis using un t(2) v(3,4) ot T by blast
qed

section \<open>An example\<close>

text \<open>The state after the start on an empty root log, when the producer has made the first log.\<close>

definition first_ring :: precreated where
  "first_ring = snd (producer_publish (snd (precreate_log (Some log_a) 0 precreated_init)))"

lemma first_ring: "\<exists>q. gdpfs_log_get_precreated first_ring = Some (log_a, q)"
  by (simp add: first_ring_def producer_publish_def precreate_log_def precreated_init_def gdpfs_log_get_precreated_def ring_empty_def PRECREATED_MAX_def)

lemma list_svc_last: "svc_last list_svc (\<lambda>w. w)"
  by (auto simp: svc_last_def list_svc_def last_conv_nth Suc_le_eq nat_diff_distrib)

lemma can_add_mono: "can_add S hist a b s M rootlog ns n d es g \<Longrightarrow> a' \<le> a \<Longrightarrow> b' \<le> b \<Longrightarrow> can_add S hist a' b' s M rootlog ns n d es g"
  using mounted_mono [of S hist a b s M a' b'] by (simp add: can_add_def)

lemma example_add:
  obtains s p where "gdpfs_run list_svc [7] EP_STAT_OK False False 4096 1000000 (\<lambda>_. False) True (\<lambda>_. []) = Inr (Some (1, s))"
    "can_add list_svc (\<lambda>w. w) 999 99 (s\<lparr>ring := first_ring\<rparr>) [p \<mapsto> ([], 0)] [7] [] [97] p [] log_a" "\<not> use_cache s" "open_handles s = {}"
proof -
  have o: "EP_STAT_ISOK EP_STAT_OK" "EP_STAT_ISOK (svc_open list_svc (\<lambda>_. []) [7])" "(999 :: nat) < 2 ^ 31 - 1" "(99 :: nat) < 256" by (simp_all add: EP_STAT_ISOK_def list_svc_def)
  obtain s p where s: "gdpfs_run list_svc [7] EP_STAT_OK False False 4096 1000000 (\<lambda>_. False) True (\<lambda>_. []) = Inr (Some (1, s))"
    "mounted list_svc (\<lambda>w. w) 999 99 s [p \<mapsto> ([], 0)]" "file_hash s = [[7] \<mapsto> p]" "attrs s p = Some (GDPFS_FILE_TYPE_DIR, 0x169)"
    "open_handles s = {}" "\<not> use_cache s" "\<forall>m. m \<noteq> [7] \<longrightarrow> world s m = []"
    using run_new_root [OF list_svc_ok list_svc_last o(1,2) _ o(3,4), of 4096 1000000 "\<lambda>_. False" True] by auto
  let ?s = "s\<lparr>ring := first_ring\<rparr>"
  have m: "mounted list_svc (\<lambda>w. w) 999 99 ?s [p \<mapsto> ([], 0)]" by (rule mounted_ring [OF s(2)])
  have l: "length log_a = 32" by (simp add: log_a_def)
  have l2: "log_a \<noteq> [7]"
  proof
    assume e: "log_a = [7]"
    show False using l unfolding e by simp
  qed
  have "attrs ?s = attrs s" by (rule ext) (simp add: attrs_def)
  then have d: "dir_at [p \<mapsto> ([], 0)] (file_hash ?s) (attrs ?s) [7] [] p" "dir_on [p \<mapsto> ([], 0)] p []" using root_dir [OF s(3,4)] by simp_all
  have f: "fresh_log list_svc (\<lambda>w. w) ?s log_a" using s(3,6,7) l2 mounted_heap [OF m, of p "([], 0)"] by (simp add: fresh_log_def list_svc_def EP_STAT_ISOK_def)
  have "comp_ok [97]" "dir_room ?s 1" using s(6) by (simp_all add: comp_ok_def name_ok_def SLASH_def NAME_MAX_GDPFS_def dir_room_def sizeof_dirent_def)
  then have "can_add list_svc (\<lambda>w. w) 999 99 ?s [p \<mapsto> ([], 0)] [7] [] [97] p [] log_a"
    unfolding can_add_def using m d f l first_ring s(5) by (simp add: open_handles_def MAX_FHS_def)
  then show thesis using that s(1,5,6) by blast
qed

section \<open>Properties\<close>



text \<open>
  C32: a directory that is made is there. It is found by its path, is an empty directory and has the permissions that
  were asked for. But the handle on it stays open, although the caller does not get it: there is one handle less
  for every directory that is ever made.
\<close>

theorem mkdir_found_and_leaks:
  assumes "can_add S hist 2 (2 * length ns + 3) s M rootlog ns n d es g"
  shows "\<exists>t u. gdpfs_mkdir S rootlog s (path_of (ns @ [n])) mode = Inr (0, t) \<and>
    gdpfs_getattr S rootlog 1 uid gid t (path_of (ns @ [n])) =
      Inr (0, Some \<lparr>st_nlink = 1, st_size = 0, st_uid = uid, st_gid = gid, st_mode = S_IFDIR OR ucast (gdpfs_extract_perm mode)\<rparr>, u) \<and>
    card (open_handles t) = Suc (card (open_handles s)) \<and> open_handles u = open_handles t"
proof -
  have c: "can_add S hist (2 + 0) (length ns + Suc (Suc (Suc (length ns + 0)))) s M rootlog ns n d es g"
    using assms by (simp add: mult_2 eval_nat_numeral)
  obtain t p M' where t: "gdpfs_mkdir S rootlog s (path_of (ns @ [n])) mode = Inr (0, t)" "mounted S hist 0 (Suc (Suc (length ns + 0))) t M'"
    "file_at M' (file_hash t) (attrs t) rootlog ns n p" "M' p = Some ([], 0)" "attrs t p = Some (GDPFS_FILE_TYPE_DIR, gdpfs_extract_perm mode)"
    "card (open_handles t) = Suc (card (open_handles s))" using mkdir_at [OF c] by blast
  have "open_handles t \<noteq> {..<MAX_FHS}" using free_handle [of t] assms t(6) by (simp add: can_add_def)
  from getattr_at [OF t(2-5) this, of 1 uid gid] obtain u where u: "gdpfs_getattr S rootlog 1 uid gid t (path_of (ns @ [n])) =
      Inr (if stat_of 1 uid gid 0 GDPFS_FILE_TYPE_DIR (gdpfs_extract_perm mode) = None then - ENOENT else 0, stat_of 1 uid gid 0 GDPFS_FILE_TYPE_DIR (gdpfs_extract_perm mode), u)"
    "open_handles u = open_handles t" by blast
  then show ?thesis using t(1,6) by (intro exI [of _ t] exI [of _ u]) (simp add: stat_of_def stat_type_def stat_perm_def)
qed

theorem mkdir_found_and_leaks_witness:
  "\<exists>s t u. gdpfs_run list_svc [7] EP_STAT_OK False False 4096 1000000 (\<lambda>_. False) True (\<lambda>_. []) = Inr (Some (1, s)) \<and>
     gdpfs_mkdir list_svc [7] (s\<lparr>ring := first_ring\<rparr>) [0x2F, 97] 0x1ED = Inr (0, t) \<and>
     gdpfs_getattr list_svc [7] 1 1000 100 t [0x2F, 97] = Inr (0, Some \<lparr>st_nlink = 1, st_size = 0, st_uid = 1000, st_gid = 100, st_mode = 0x41ED\<rparr>, u) \<and>
     card (open_handles t) = Suc (card (open_handles (s\<lparr>ring := first_ring\<rparr>)))"
proof -
  obtain s p where s: "gdpfs_run list_svc [7] EP_STAT_OK False False 4096 1000000 (\<lambda>_. False) True (\<lambda>_. []) = Inr (Some (1, s))"
    "can_add list_svc (\<lambda>w. w) 999 99 (s\<lparr>ring := first_ring\<rparr>) [p \<mapsto> ([], 0)] [7] [] [97] p [] log_a" by (rule example_add)
  have c: "can_add list_svc (\<lambda>w. w) 2 (2 * length ([] :: cstring list) + 3) (s\<lparr>ring := first_ring\<rparr>) [p \<mapsto> ([], 0)] [7] [] [97] p [] log_a"
    by (rule can_add_mono [OF s(2)]) simp_all
  have p: "path_of ([] @ [[97]]) = [0x2F, 97]" by (simp add: SLASH_def)
  have m: "S_IFDIR OR ucast (gdpfs_extract_perm 0x1ED) = 0x41ED" by (simp add: S_IFDIR_def gdpfs_extract_perm_def)
  from mkdir_found_and_leaks [OF c, of "0x1ED" 1000 100, unfolded p m] show ?thesis using s(1) by blast
qed



end
