(* ===== verification/Main_Program.thy ===== *)
theory Main_Program
  imports Path_Props
begin

text \<open>
  The main program, \<^verbatim>\<open>src/main.c\<close>: the command line, the call of \<open>gdpfs_run\<close> and the handler of the interrupt
  signal. The vector of arguments is a list of strings, followed in memory by a null pointer. The function
  \<open>getopt\<close> is the one of the GNU C library; \<open>posix\<close> says whether \<open>POSIXLY_CORRECT\<close> is set. Lemmas: a command
  line written from a list of options and operands is read back.
\<close>

section \<open>The C library's getopt\<close>

text \<open>
  \<open>nextchar\<close> is what is left of a group of options, \<open>todo\<close> the arguments that were not looked at and \<open>operands\<close>
  those that were passed over, which the library moves behind the options.
\<close>

record getopt_state =
  nextchar :: string
  todo :: "string list"
  operands :: "string list"

text \<open>The number of colons after a character of the option string: one for an argument, two for an optional one.\<close>

definition opt_colons :: "string \<Rightarrow> char \<Rightarrow> nat option" where
  "opt_colons optstring c =
     (if c = CHR '':'' \<or> c = CHR '';'' then None
      else case dropWhile (\<lambda>x. x \<noteq> c) optstring of
             [] \<Rightarrow> None
           | _ # cs \<Rightarrow> Some (length (takeWhile (\<lambda>x. x = CHR '':'') cs)))"

definition is_operand :: "string \<Rightarrow> bool" where
  "is_operand a \<longleftrightarrow> (case a of [] \<Rightarrow> True | c # cs \<Rightarrow> c \<noteq> CHR ''-'' \<or> cs = [])"

definition getopt_char :: "string \<Rightarrow> char \<Rightarrow> string \<Rightarrow> getopt_state \<Rightarrow> (char \<times> string option) \<times> getopt_state" where
  "getopt_char optstring c cs gs =
     (case opt_colons optstring c of
        None \<Rightarrow> ((CHR ''?'', None), gs\<lparr>nextchar := cs\<rparr>)
      | Some n \<Rightarrow>
          if n = 0 then ((c, None), gs\<lparr>nextchar := cs\<rparr>)
          else if cs \<noteq> [] then ((c, Some cs), gs\<lparr>nextchar := []\<rparr>)
          else if n = 1 then
            (case todo gs of
               [] \<Rightarrow> ((CHR ''?'', None), gs\<lparr>nextchar := []\<rparr>)
             | a # as \<Rightarrow> ((c, Some a), gs\<lparr>nextchar := [], todo := as\<rparr>))
          else ((c, None), gs\<lparr>nextchar := []\<rparr>))"

definition getopt :: "bool \<Rightarrow> string \<Rightarrow> getopt_state \<Rightarrow> (char \<times> string option) option \<times> getopt_state" where
  "getopt posix optstring gs =
     (case nextchar gs of
        c # cs \<Rightarrow> (case getopt_char optstring c cs gs of (r, gs) \<Rightarrow> (Some r, gs))
      | [] \<Rightarrow>
          (let skip = (if posix then [] else takeWhile is_operand (todo gs));
               rest = drop (length skip) (todo gs); ops = operands gs @ skip in
           case rest of
             [] \<Rightarrow> (None, gs\<lparr>todo := [], operands := ops\<rparr>)
           | a # as \<Rightarrow>
               if a = ''--'' then (None, gs\<lparr>todo := [], operands := ops @ as\<rparr>)
               else if is_operand a then (None, gs\<lparr>todo := [], operands := ops @ a # as\<rparr>)
               else (case getopt_char optstring (a ! 1) (drop 2 a) (gs\<lparr>todo := as, operands := ops\<rparr>) of
                       (r, gs) \<Rightarrow> (Some r, gs))))"

section \<open>The main program\<close>

record main_opts =
  o_router :: "string option"
  o_read_only :: bool
  o_use_cache :: bool
  o_show_usage :: bool

definition main_opts0 :: main_opts where
  "main_opts0 = \<lparr>o_router = None, o_read_only = False, o_use_cache = True, o_show_usage = False\<rparr>"

definition main_switch :: "main_opts \<Rightarrow> char \<Rightarrow> string option \<Rightarrow> main_opts" where
  "main_switch os opt optarg =
     (if opt = CHR ''h'' then os\<lparr>o_show_usage := True\<rparr>
      else if opt = CHR ''r'' then os\<lparr>o_read_only := True\<rparr>
      else if opt = CHR ''d'' then os\<lparr>o_use_cache := False\<rparr>
      else if opt = CHR ''G'' then os\<lparr>o_router := optarg\<rparr>
      else os\<lparr>o_show_usage := True\<rparr>)"

definition optstring :: string where
  "optstring = ''G:hrd::''"

definition getopt_left :: "getopt_state \<Rightarrow> nat" where
  "getopt_left gs = length (nextchar gs) + sum_list (map (\<lambda>a. Suc (length a)) (todo gs))"

lemma getopt_char_left:
  "getopt_char opts c cs gs = (r, gs') \<Longrightarrow> getopt_left gs' \<le> length cs + sum_list (map (\<lambda>a. Suc (length a)) (todo gs))"
  by (auto simp: getopt_char_def getopt_left_def split: option.splits if_splits list.splits)

lemma sum_dropWhile: "sum_list (map (\<lambda>a. Suc (length a)) (drop n xs)) \<le> sum_list (map (\<lambda>a. Suc (length a)) xs)"
  by (subst (2) append_take_drop_id [symmetric, of _ n]) (simp del: append_take_drop_id)

lemma getopt_left_less:
  assumes "getopt posix opts gs = (Some r, gs')"
  shows "getopt_left gs' < getopt_left gs"
proof (cases "nextchar gs")
  case Nil
  define skip where "skip = (if posix then [] else takeWhile is_operand (todo gs))"
  obtain a as where a: "drop (length skip) (todo gs) = a # as" "\<not> is_operand a"
    and g: "getopt_char opts (a ! 1) (drop 2 a) (gs\<lparr>todo := as, operands := operands gs @ skip\<rparr>) = (r, gs')"
    using assms Nil by (auto simp: getopt_def skip_def [symmetric] Let_def split: list.splits prod.splits if_splits)
  have "getopt_left gs' \<le> length (drop 2 a) + sum_list (map (\<lambda>a. Suc (length a)) as)"
    using getopt_char_left [OF g] by simp
  also have "\<dots> < sum_list (map (\<lambda>a. Suc (length a)) (a # as))" by simp
  also have "\<dots> \<le> getopt_left gs"
    using sum_dropWhile [of "length skip" "todo gs"] unfolding a getopt_left_def by simp
  finally show ?thesis .
next
  case (Cons c cs)
  then show ?thesis
    using assms getopt_char_left [of opts c cs gs r gs'] by (auto simp: getopt_def getopt_left_def split: prod.splits)
qed

function main_loop :: "bool \<Rightarrow> getopt_state \<Rightarrow> main_opts \<Rightarrow> main_opts \<times> string list" where
  "main_loop posix gs os =
     (case getopt posix optstring gs of
        (None, gs) \<Rightarrow> (os, operands gs)
      | (Some (opt, optarg), gs) \<Rightarrow> main_loop posix gs (main_switch os opt optarg))"
  by pat_completeness auto
termination
  by (relation "measure (\<lambda>(posix, gs, os). getopt_left gs)") (auto intro: getopt_left_less [OF sym])

declare main_loop.simps [simp del]

text \<open>What \<open>main\<close> passes on to \<open>gdpfs_run\<close>, and the global \<open>logd_xname\<close>.\<close>

record main_call =
  root_log :: "string option"
  logd_xname :: "string option"
  gdp_router_addr :: "string option"
  ro_arg :: bool
  use_cache_arg :: bool
  fuse_argc :: nat
  fuse_argv :: "string option list"

text \<open>The loop that counts the arguments from the first \<open>--\<close> on.\<close>

primrec count_fuseargs :: "string list \<Rightarrow> nat" where
  "count_fuseargs [] = 0"
| "count_fuseargs (a # as) = (if a \<noteq> ''--'' then count_fuseargs as else Suc (length as))"

text \<open>
  The arguments in front of the first \<open>--\<close> are read by \<open>getopt\<close>, which leaves the operands in front of the \<open>--\<close>. It does
  nothing when there is not even the name of the program. \<open>None\<close> is the call of \<open>usage\<close>, which exits with
  \<open>EX_USAGE\<close>; a read behind the null pointer at the end is a fault.
\<close>

definition main_args :: "bool \<Rightarrow> string list \<Rightarrow> main_call option res" where
  "main_args posix argv =
     (let fuseargc = count_fuseargs argv; argv0 = (case argv of [] \<Rightarrow> None | a # _ \<Rightarrow> Some a);
          own = take (length argv - fuseargc) argv; others = drop (length argv - fuseargc) argv;
          (os, argc, argv) =
            (case own of
               [] \<Rightarrow> (main_opts0, - 1, drop 1 (map Some others @ [None]))
             | _ # words \<Rightarrow>
                 (let (os, ops) = main_loop posix \<lparr>nextchar = [], todo = words, operands = []\<rparr> main_opts0 in
                  (os, int (length ops), map Some (ops @ others) @ [None])))
      in if length argv < 2 then Inl Out_Of_Bounds
      else
        let gclpname = argv ! 0; logd = argv ! 1; argc = argc - 2; argv = drop 2 argv in
        if o_show_usage os \<or> argc \<noteq> 0 then Inr None
        else
          let (argc, argv) = (if fuseargc > 0 then (fuseargc - 1, drop 1 argv) else (nat argc, argv));
              argv = argv0 # argv; argc = argc + 1
          in Inr (Some \<lparr>root_log = gclpname, logd_xname = logd, gdp_router_addr = o_router os,
                ro_arg = o_read_only os, use_cache_arg = o_use_cache os, fuse_argc = argc, fuse_argv = take argc argv\<rparr>))"

text \<open>
  The whole start: \<open>parse_name\<close> and \<open>gdp_init\<close> are functions of the log daemon's library, the other arguments
  describe the local file system and the state of the logs.
\<close>

definition gdpfs_main ::
  "'w log_service \<Rightarrow> (string \<Rightarrow> gdp_name) \<Rightarrow> (string option \<Rightarrow> ep_stat) \<Rightarrow> nat \<Rightarrow> nat \<Rightarrow> (gdp_name \<Rightarrow> bool) \<Rightarrow> bool \<Rightarrow> 'w \<Rightarrow>
     bool \<Rightarrow> string list \<Rightarrow> (fs_mode \<times> 'w fsys) option res" where
  "gdpfs_main S parse_name gdp_init blk quota deny dir_ok w posix argv =
     bindR (main_args posix argv) (\<lambda>call.
     case call of
       None \<Rightarrow> Inr None
     | Some c \<Rightarrow>
         (case root_log c of
            None \<Rightarrow> Inl Bad_Pointer
          | Some n \<Rightarrow> gdpfs_run S (parse_name n) (gdp_init (gdp_router_addr c)) (ro_arg c) (use_cache_arg c)
                        blk quota deny dir_ok w))"

definition sig_int :: "'w log_service \<Rightarrow> 'w fsys \<Rightarrow> gdp_name list \<Rightarrow> 'w fsys res" where
  "sig_int S s names = gdpfs_stop S s names"

section \<open>Command lines\<close>

text \<open>
  A command line as its author means it: options, with the argument of \<open>-G\<close> attached or not and anything
  attached to \<open>-d\<close>, options the program does not know, and operands, in any order.
\<close>

datatype cl_item = Cl_h | Cl_r | Cl_d string | Cl_G bool string | Cl_bad char | Cl_op string

fun cl_words :: "cl_item \<Rightarrow> string list" where
  "cl_words Cl_h = [''-h'']"
| "cl_words Cl_r = [''-r'']"
| "cl_words (Cl_d cs) = [''-d'' @ cs]"
| "cl_words (Cl_G attached a) = (if attached then [''-G'' @ a] else [''-G'', a])"
| "cl_words (Cl_bad c) = [[CHR ''-'', c]]"
| "cl_words (Cl_op a) = [a]"

fun cl_ok :: "cl_item \<Rightarrow> bool" where
  "cl_ok (Cl_G attached a) = (if attached then a \<noteq> [] else a \<noteq> ''--'')"
| "cl_ok (Cl_bad c) = (c \<notin> set ''Ghrd-'')"
| "cl_ok (Cl_op a) = is_operand a"
| "cl_ok _ = True"

fun cl_operands :: "cl_item list \<Rightarrow> string list" where
  "cl_operands [] = []"
| "cl_operands (Cl_op a # is) = a # cl_operands is"
| "cl_operands (_ # is) = cl_operands is"

fun cl_routers :: "cl_item list \<Rightarrow> string list" where
  "cl_routers [] = []"
| "cl_routers (Cl_G _ a # is) = a # cl_routers is"
| "cl_routers (_ # is) = cl_routers is"

definition cl_usage :: "cl_item list \<Rightarrow> bool" where
  "cl_usage is \<longleftrightarrow> (\<exists>i \<in> set is. case i of Cl_h \<Rightarrow> True | Cl_bad _ \<Rightarrow> True | _ \<Rightarrow> False)"

definition cl_nocache :: "cl_item list \<Rightarrow> bool" where
  "cl_nocache is \<longleftrightarrow> (\<exists>i \<in> set is. case i of Cl_d _ \<Rightarrow> True | _ \<Rightarrow> False)"

definition cl_line :: "string \<Rightarrow> cl_item list \<Rightarrow> string list option \<Rightarrow> string list" where
  "cl_line prog is fuse = prog # concat (map cl_words is) @ (case fuse of None \<Rightarrow> [] | Some as \<Rightarrow> ''--'' # as)"

fun cl_apply :: "cl_item \<Rightarrow> main_opts \<Rightarrow> main_opts" where
  "cl_apply Cl_h os = os\<lparr>o_show_usage := True\<rparr>"
| "cl_apply Cl_r os = os\<lparr>o_read_only := True\<rparr>"
| "cl_apply (Cl_d _) os = os\<lparr>o_use_cache := False\<rparr>"
| "cl_apply (Cl_G _ a) os = os\<lparr>o_router := Some a\<rparr>"
| "cl_apply (Cl_bad _) os = os\<lparr>o_show_usage := True\<rparr>"
| "cl_apply (Cl_op _) os = os"

lemma cl_apply_fold:
  "o_read_only (fold cl_apply is os) \<longleftrightarrow> o_read_only os \<or> Cl_r \<in> set is"
  "o_use_cache (fold cl_apply is os) \<longleftrightarrow> o_use_cache os \<and> \<not> cl_nocache is"
  "o_show_usage (fold cl_apply is os) \<longleftrightarrow> o_show_usage os \<or> cl_usage is"
  "o_router (fold cl_apply is os) = (if cl_routers is = [] then o_router os else Some (last (cl_routers is)))"
proof (induction "is" arbitrary: os)
  case (Cons i "is")
  { case 1 show ?case using Cons(1) [of "cl_apply i os"] by (cases i) auto }
  { case 2 show ?case using Cons(2) [of "cl_apply i os"] by (cases i) (auto simp: cl_nocache_def) }
  { case 3 show ?case using Cons(3) [of "cl_apply i os"] by (cases i) (auto simp: cl_usage_def) }
  { case 4 show ?case using Cons(4) [of "cl_apply i os"] by (cases i) auto }
qed (simp_all add: cl_nocache_def cl_usage_def)

lemma opt_colons_main:
  "opt_colons optstring CHR ''G'' = Some 1"
  "opt_colons optstring CHR ''h'' = Some 0"
  "opt_colons optstring CHR ''r'' = Some 0"
  "opt_colons optstring CHR ''d'' = Some 2"
  by (simp_all add: opt_colons_def optstring_def)

lemma opt_colons_bad: "c \<notin> set ''Ghrd-'' \<Longrightarrow> opt_colons optstring c = None"
  by (auto simp: opt_colons_def optstring_def)

lemma getopt_operand:
  "is_operand a \<Longrightarrow>
     getopt False opts \<lparr>nextchar = [], todo = a # as, operands = ops\<rparr> =
     getopt False opts \<lparr>nextchar = [], todo = as, operands = ops @ [a]\<rparr>"
  by (simp add: getopt_def Let_def split: list.split)

lemma getopt_word:
  "c \<noteq> CHR ''-'' \<Longrightarrow>
     getopt False opts \<lparr>nextchar = [], todo = (CHR ''-'' # c # cs) # as, operands = ops\<rparr> =
     (case getopt_char opts c cs \<lparr>nextchar = [], todo = as, operands = ops\<rparr> of (r, gs) \<Rightarrow> (Some r, gs))"
  by (simp add: getopt_def is_operand_def)

lemma main_loop_item:
  assumes "cl_ok i"
  shows "main_loop False \<lparr>nextchar = [], todo = cl_words i @ as, operands = ops\<rparr> os =
     main_loop False \<lparr>nextchar = [], todo = as, operands = ops @ cl_operands [i]\<rparr> (cl_apply i os)"
proof (cases i)
  case (Cl_op a)
  show ?thesis
    using assms unfolding Cl_op cl_apply.simps main_loop.simps [of _ "\<lparr>nextchar = [], todo = cl_words (Cl_op a) @ as, operands = ops\<rparr>"]
      main_loop.simps [of _ "\<lparr>nextchar = [], todo = as, operands = ops @ cl_operands [Cl_op a]\<rparr>"] by (simp add: getopt_operand)
next
  case (Cl_bad c)
  moreover have "c \<noteq> CHR ''-''" using assms Cl_bad by auto
  ultimately show ?thesis
    using assms by (subst main_loop.simps) (simp add: getopt_word getopt_char_def opt_colons_bad main_switch_def)
qed (use assms in \<open>subst main_loop.simps, simp add: getopt_word getopt_char_def opt_colons_main main_switch_def\<close>)+

lemma cl_operands_Cons: "cl_operands (i # is) = cl_operands [i] @ cl_operands is"
  by (cases i) auto

lemma main_loop_items:
  "list_all cl_ok is \<Longrightarrow>
     main_loop False \<lparr>nextchar = [], todo = concat (map cl_words is), operands = ops\<rparr> os =
     (fold cl_apply is os, ops @ cl_operands is)"
proof (induction "is" arbitrary: ops os)
  case Nil
  then show ?case by (subst main_loop.simps) (simp add: getopt_def)
next
  case (Cons i "is")
  then show ?case by (simp add: main_loop_item cl_operands_Cons [of i "is"])
qed

lemma cl_words_no_dashes: "cl_ok i \<Longrightarrow> ''--'' \<notin> set (cl_words i)"
  by (cases i) (auto simp: is_operand_def)

lemma count_fuseargs_none: "''--'' \<notin> set as \<Longrightarrow> count_fuseargs (as @ bs) = count_fuseargs bs"
  by (induction as) auto

lemma cl_line_split:
  assumes "list_all cl_ok is" "prog \<noteq> ''--''"
  shows "count_fuseargs (cl_line prog is fuse) = (case fuse of None \<Rightarrow> 0 | Some as \<Rightarrow> Suc (length as))"
proof -
  have "''--'' \<notin> set (prog # concat (map cl_words is))"
    using assms cl_words_no_dashes by (auto simp: list_all_iff)
  then show ?thesis
    using count_fuseargs_none [of "prog # concat (map cl_words is)"] by (auto simp: cl_line_def split: option.splits)
qed

lemma main_args_line:
  assumes "list_all cl_ok is" "prog \<noteq> ''--''"
  shows "main_args False (cl_line prog is fuse) =
    (if cl_operands is = [] \<and> fuse = None then Inl Out_Of_Bounds
     else if cl_usage is \<or> length (cl_operands is) \<noteq> 2 then Inr None
     else Inr (Some \<lparr>root_log = Some (cl_operands is ! 0), logd_xname = Some (cl_operands is ! 1),
       gdp_router_addr = (if cl_routers is = [] then None else Some (last (cl_routers is))),
       ro_arg = (Cl_r \<in> set is), use_cache_arg = (\<not> cl_nocache is),
       fuse_argc = Suc (case fuse of None \<Rightarrow> 0 | Some as \<Rightarrow> length as),
       fuse_argv = map Some (prog # (case fuse of None \<Rightarrow> [] | Some as \<Rightarrow> as))\<rparr>))"
proof -
  define os where "os = fold cl_apply is main_opts0"
  define tail where "tail = (case fuse of None \<Rightarrow> [] | Some as \<Rightarrow> ''--'' # as)"
  have n: "count_fuseargs (cl_line prog is fuse) = length tail"
    using cl_line_split [OF assms, of fuse] by (simp add: tail_def split: option.split)
  have l: "cl_line prog is fuse = prog # concat (map cl_words is) @ tail" by (simp add: cl_line_def tail_def)
  have m: "main_loop False \<lparr>nextchar = [], todo = concat (map cl_words is), operands = []\<rparr> main_opts0 = (os, cl_operands is)"
    using main_loop_items [OF assms(1)] by (simp add: os_def)
  have own: "take (length (cl_line prog is fuse) - length tail) (cl_line prog is fuse) = prog # concat (map cl_words is)"
    "drop (length (cl_line prog is fuse) - length tail) (cl_line prog is fuse) = tail" unfolding l by simp_all
  have o: "o_show_usage os = cl_usage is" "o_read_only os = (Cl_r \<in> set is)" "o_use_cache os = (\<not> cl_nocache is)"
    "o_router os = (if cl_routers is = [] then None else Some (last (cl_routers is)))"
    unfolding os_def cl_apply_fold by (simp_all add: main_opts0_def)
  consider "cl_operands is = []" | a where "cl_operands is = [a]" | a b where "cl_operands is = [a, b]"
    | a b c bs where "cl_operands is = a # b # c # bs" by (metis list.exhaust)
  then show ?thesis
    unfolding main_args_def Let_def n own unfolding l list.case m prod.case o
    by cases (simp_all add: tail_def split: option.split)
qed

section \<open>A new file system\<close>

lemma main_starts:
  assumes S: "svc_ok S hist" "svc_last S hist" and line: "list_all cl_ok is" "prog \<noteq> ''--''"
    and own: "cl_operands is = [rlog, server]" "\<not> cl_usage is" "Cl_r \<notin> set is" "cl_nocache is"
    and g: "EP_STAT_ISOK (gdp_init (if cl_routers is = [] then None else Some (last (cl_routers is))))"
    and n: "EP_STAT_ISOK (svc_open S w (parse_name rlog))" "hist w (parse_name rlog) = []"
  shows "\<exists>s p. gdpfs_main S parse_name gdp_init blk quota deny dir_ok w False (cl_line prog is fuse) = Inr (Some (1, s)) \<and>
    mounted S hist 0 1 s [p \<mapsto> ([], 0)] \<and> file_hash s = [parse_name rlog \<mapsto> p] \<and> attrs s p = Some (GDPFS_FILE_TYPE_DIR, 0x169) \<and>
    open_handles s = {} \<and> (\<forall>m. m \<noteq> parse_name rlog \<longrightarrow> hist (world s) m = hist w m)"
proof -
  let ?g = "gdp_init (if cl_routers is = [] then None else Some (last (cl_routers is)))"
  have "gdpfs_main S parse_name gdp_init blk quota deny dir_ok w False (cl_line prog is fuse) =
    gdpfs_run S (parse_name rlog) ?g False False blk quota deny dir_ok w"
    unfolding gdpfs_main_def main_args_line [OF line] using own by simp
  moreover obtain s p where "gdpfs_run S (parse_name rlog) ?g False False blk quota deny dir_ok w = Inr (Some (1, s))"
    "mounted S hist 0 1 s [p \<mapsto> ([], 0)]" "file_hash s = [parse_name rlog \<mapsto> p]" "attrs s p = Some (GDPFS_FILE_TYPE_DIR, 0x169)" "open_handles s = {}"
    "\<forall>m. m \<noteq> parse_name rlog \<longrightarrow> hist (world s) m = hist w m"
    using run_new_root [OF S g n, of 0 1 blk quota deny dir_ok] by auto
  ultimately show ?thesis by auto
qed

lemma list_new_root:
  assumes m: "mounted S hist 0 1 s [p \<mapsto> ([], 0)]" and h: "file_hash s = [n \<mapsto> p]" "attrs s p = Some (GDPFS_FILE_TYPE_DIR, 0x169)" "open_handles s = {}"
  shows "\<exists>fh t. gdpfs_opendir S n s [SLASH] 0 = Inr (0, fh, t) \<and>
    gdpfs_readdir S (page k) [] t 0 fh = Inr (0, take k [([0x2E], 2), ([0x2E, 0x2E], 3)], t)"
proof -
  note d = root_dir [OF h(1,2)]
  have free: "open_handles s \<noteq> {..<MAX_FHS}" using h(3) free_handle [of s] by (simp add: MAX_FHS_def)
  have m1: "mounted S hist 0 (length ([] :: cstring list) + 1) s [p \<mapsto> ([], 0)]" using m by simp
  from open_dir_at [OF m1 d(1) free, of GDPFS_FILE_TYPE_DIR] obtain fh t
    where t: "gdpfs_dir_open_file_at_path S n s [SLASH] GDPFS_FILE_TYPE_DIR = Inr (EP_STAT_OK, fh, t)" "moved S hist 0 1 s [p \<mapsto> ([], 0)] t" "opens fh p s t"
    by (auto simp: dir_path_def)
  have T: "mounted S hist 0 1 t [p \<mapsto> ([], 0)]" "handle_file t fh = Some p" "attrs t p = Some (GDPFS_FILE_TYPE_DIR, 0x169)"
    using movedD [OF t(2)] t(3) h(2) by (simp_all add: opens_def)
  have "check_open_flags S t fh 0 = Inr (True, t)"
    by (rule open_flags_read [OF T(1,2) _ T(3), of "[]" 0]) (simp_all add: S_IRUSR_def)
  then have "gdpfs_opendir S n s [SLASH] 0 = Inr (0, fh, t)"
    using t(1) by (simp add: gdpfs_opendir_def open_as_def fuse_open_path_def EP_STAT_ISOK_def)
  moreover have "gdpfs_readdir S (page k) [] t 0 fh = Inr (0, take k (listing []), t)"
    using loop_start(2) [OF mountedD(1) [OF T(1)] dir_on_data [OF T(1,2) d(2)]] by (simp add: gdpfs_readdir_def)
  ultimately show ?thesis by (auto simp: listing_def)
qed

lemma freach_fhs: "freach S s \<Longrightarrow> \<exists>b. fhs s = Some b"
  using fs_inv_reach [of S s] by (auto simp: fs_inv_def inv_with_def tables_ok_def)

lemma example_main:
  obtains s where "gdpfs_main list_svc (\<lambda>n. map (of_nat \<circ> of_char) n) (\<lambda>_. EP_STAT_OK) 4096 1000000 (\<lambda>_. False) True (\<lambda>_. []) False
    (cl_line ''gdpfs'' [Cl_d [], Cl_op ''root'', Cl_op ''server''] None) = Inr (Some (1, s))" "freach list_svc s"
proof -
  let ?is = "[Cl_d [], Cl_op ''root'', Cl_op ''server'']"
  have i: "list_all cl_ok ?is" "''gdpfs'' \<noteq> ''--''" "cl_operands ?is = [''root'', ''server'']" "\<not> cl_usage ?is" "Cl_r \<notin> set ?is" "cl_nocache ?is"
    by (simp_all add: is_operand_def cl_usage_def cl_nocache_def)
  obtain s p where "gdpfs_main list_svc (\<lambda>n. map (of_nat \<circ> of_char) n) (\<lambda>_. EP_STAT_OK) 4096 1000000 (\<lambda>_. False) True (\<lambda>_. []) False
      (cl_line ''gdpfs'' ?is None) = Inr (Some (1, s))" "mounted list_svc (\<lambda>w. w) 0 1 s [p \<mapsto> ([], 0)]"
    using main_starts [OF list_svc_ok list_svc_last i, of "\<lambda>_. EP_STAT_OK" "\<lambda>_. []" "\<lambda>n. map (of_nat \<circ> of_char) n" 4096 1000000 "\<lambda>_. False" True None]
    by (auto simp: EP_STAT_ISOK_def list_svc_def)
  then show thesis using that mountedD(2) by blast
qed

section \<open>Properties\<close>



text \<open>
  C34: The interrupt signal stops the file layer, and the end of the program stops it again: whenever the handler
  of the signal returns, the second stop releases the bitmap of the handles a second time.
\<close>

theorem stop_after_interrupt_fails:
  assumes "sig_int S s names = Inr s'"
  shows "gdpfs_stop S s' names' = Inl Bad_Pointer"
proof -
  have s': "fhs s' = None" "file_hash s' = (\<lambda>_. None)"
    using assms by (auto simp: sig_int_def gdpfs_stop_def stop_gdpfs_file_def bindR_def bitmap_free_def split: sum.splits option.splits)
  have "foldR (\<lambda>s n. case file_hash s n of None \<Rightarrow> Inr s | Some p \<Rightarrow> file_chkpt S s p False) names' s' = Inr s'"
    by (induction names') (simp_all add: s')
  then show ?thesis by (simp add: gdpfs_stop_def stop_gdpfs_file_def s' bitmap_free_def)
qed

theorem stop_after_interrupt_fails_witness:
  "\<exists>s s'. gdpfs_main list_svc (\<lambda>n. map (of_nat \<circ> of_char) n) (\<lambda>_. EP_STAT_OK) 4096 1000000 (\<lambda>_. False) True (\<lambda>_. []) False
       [''gdpfs'', ''-d'', ''root'', ''server''] = Inr (Some (1, s)) \<and>
     sig_int list_svc s [] = Inr s' \<and> gdpfs_stop list_svc s' [] = Inl Bad_Pointer"
proof -
  obtain s where s: "gdpfs_main list_svc (\<lambda>n. map (of_nat \<circ> of_char) n) (\<lambda>_. EP_STAT_OK) 4096 1000000 (\<lambda>_. False) True (\<lambda>_. []) False
       (cl_line ''gdpfs'' [Cl_d [], Cl_op ''root'', Cl_op ''server''] None) = Inr (Some (1, s))" "freach list_svc s"
    by (rule example_main)
  then obtain b where b: "fhs s = Some b" using freach_fhs by blast
  then obtain s' where "sig_int list_svc s [] = Inr s'" by (simp add: sig_int_def gdpfs_stop_def stop_gdpfs_file_def bitmap_free_def)
  then show ?thesis using s(1) stop_after_interrupt_fails [of list_svc s "[]" s' "[]"] by (auto simp: cl_line_def)
qed

text \<open>
  C18: From the command line to an empty directory. When it names a root log that is still empty and turns the local
  cache off, and the log daemon can be reached at the router that the last \<open>-G\<close> names, the file system starts for reading and writing;
  the root directory can be opened and listed, a page of any size shows the two names every directory has and nothing else, and the
  only log that was written to is the root log.
\<close>

theorem main_mounts_new_root:
  assumes "svc_ok S hist" "svc_last S hist" "list_all cl_ok is" "prog \<noteq> ''--''"
    "cl_operands is = [rlog, server]" "\<not> cl_usage is" "Cl_r \<notin> set is" "cl_nocache is"
    "EP_STAT_ISOK (gdp_init (if cl_routers is = [] then None else Some (last (cl_routers is))))"
    "EP_STAT_ISOK (svc_open S w (parse_name rlog))" "hist w (parse_name rlog) = []"
  shows "\<exists>s fh t. gdpfs_main S parse_name gdp_init blk quota deny dir_ok w False (cl_line prog is fuse) = Inr (Some (1, s)) \<and>
    (\<forall>m. m \<noteq> parse_name rlog \<longrightarrow> hist (world s) m = hist w m) \<and>
    gdpfs_opendir S (parse_name rlog) s [SLASH] 0 = Inr (0, fh, t) \<and>
    gdpfs_readdir S (page k) [] t 0 fh = Inr (0, take k [([0x2E], 2), ([0x2E, 0x2E], 3)], t)"
proof -
  obtain s p where s: "gdpfs_main S parse_name gdp_init blk quota deny dir_ok w False (cl_line prog is fuse) = Inr (Some (1, s))"
    "mounted S hist 0 1 s [p \<mapsto> ([], 0)]" "file_hash s = [parse_name rlog \<mapsto> p]" "attrs s p = Some (GDPFS_FILE_TYPE_DIR, 0x169)" "open_handles s = {}"
    "\<forall>m. m \<noteq> parse_name rlog \<longrightarrow> hist (world s) m = hist w m"
    using main_starts [where gdp_init = gdp_init and w = w and parse_name = parse_name, OF assms] by blast
  obtain fh t where "gdpfs_opendir S (parse_name rlog) s [SLASH] 0 = Inr (0, fh, t)"
    "gdpfs_readdir S (page k) [] t 0 fh = Inr (0, take k [([0x2E], 2), ([0x2E, 0x2E], 3)], t)"
    using list_new_root [OF s(2-5)] by blast
  then show ?thesis using s(1,6) by blast
qed

theorem main_mounts_new_root_witness:
  "\<exists>s fh t. gdpfs_main list_svc (\<lambda>n. map (of_nat \<circ> of_char) n) (\<lambda>r. if r = Some ''router'' then EP_STAT_OK else GDPFS_STAT_NOTFOUND)
       4096 1000000 (\<lambda>_. False) True (\<lambda>_. []) False [''gdpfs'', ''-Grouter'', ''root'', ''-d'', ''server'', ''--'', ''/mnt''] = Inr (Some (1, s)) \<and>
     gdpfs_opendir list_svc [114, 111, 111, 116] s [SLASH] 0 = Inr (0, fh, t) \<and>
     gdpfs_readdir list_svc (page 1) [] t 0 fh = Inr (0, [([0x2E], 2)], t)"
proof -
  let ?is = "[Cl_G True ''router'', Cl_op ''root'', Cl_d [], Cl_op ''server'']" let ?parse = "\<lambda>n. map (of_nat \<circ> of_char) n :: gdp_name"
  let ?init = "\<lambda>r. if r = Some ''router'' then EP_STAT_OK else GDPFS_STAT_NOTFOUND"
  have i: "list_all cl_ok ?is" "''gdpfs'' \<noteq> ''--''" "cl_operands ?is = [''root'', ''server'']" "\<not> cl_usage ?is" "Cl_r \<notin> set ?is" "cl_nocache ?is"
    by (simp_all add: is_operand_def cl_usage_def cl_nocache_def)
  have r: "?parse ''root'' = [114, 111, 111, 116]" by simp
  have "cl_line ''gdpfs'' ?is (Some [''/mnt'']) = [''gdpfs'', ''-Grouter'', ''root'', ''-d'', ''server'', ''--'', ''/mnt'']" by (simp add: cl_line_def)
  moreover have "\<exists>s fh t. gdpfs_main list_svc ?parse ?init 4096 1000000 (\<lambda>_. False) True (\<lambda>_. []) False (cl_line ''gdpfs'' ?is (Some [''/mnt''])) = Inr (Some (1, s)) \<and>
      (\<forall>m. m \<noteq> ?parse ''root'' \<longrightarrow> world s m = []) \<and> gdpfs_opendir list_svc (?parse ''root'') s [SLASH] 0 = Inr (0, fh, t) \<and>
      gdpfs_readdir list_svc (page 1) [] t 0 fh = Inr (0, take 1 [([0x2E], 2), ([0x2E, 0x2E], 3)], t)"
    by (rule main_mounts_new_root [OF list_svc_ok list_svc_last i]) (simp_all add: EP_STAT_ISOK_def list_svc_def)
  ultimately show ?thesis unfolding r by auto
qed

end
