(* ===== verification/Read_Only.thy ===== *)
theory Read_Only
  imports Main_Program
begin

text \<open>
  Read-only operation. The log layer refuses to append in this mode; here this is followed through the whole
  program. The locale \<open>kept_view\<close> has what a view of the state must satisfy to be kept by every operation, from the file layer
  to the handlers; it is interpreted on the mode and, in read-only mode, the state of the log daemon.
\<close>

section \<open>Preconditions\<close>

named_theorems view_wp "operations that keep a view of the state"

text \<open>
  Weakest preconditions: a goal about a sequence is one about its first operation, and an operation that keeps the
  view is followed by any state with that view. The operations that return no state are followed by any result.
\<close>

lemma okR_bind_wp [simp]: "okR Q (bindR m f) \<longleftrightarrow> okR (\<lambda>x. okR Q (f x)) m"
  by (cases m) auto

lemma okR_all: "(\<And>x. Q x) \<Longrightarrow> okR Q m"
  by (simp add: okR_def)

lemmas pure_wp =
  okR_all [where m = "get_file s p" for s p] okR_all [where m = "deref q" for q] okR_all [where m = "lookup_fh s fh" for s fh]
  okR_all [where m = "cache_of s p" for s p] okR_all [where m = "bitmap_release b fh" for b fh] okR_all [where m = "bitmap_reserve b" for b]
  okR_all [where m = "bitmap_free b" for b] okR_all [where m = "get_dirty h tr n" for h tr n] okR_all [where m = "ft_init h" for h]
  okR_all [where m = "ft_dealloc h tr" for h tr] okR_all [where m = "ft_write L h tr a b v" for L h tr a b v]
  okR_all [where m = "ft_read L h tr a b" for L h tr a b] okR_all [where m = "fti_next L h it" for L h it]
  okR_all [where m = "list_push_front k l q" for k l q] okR_all [where m = "list_pop_back k l" for k l] okR_all [where m = "list_remove k q" for k q]
  okR_all [where m = "gdpfs_file_get_cache s p n off" for s p n off] okR_all [where m = "read_piece S s p lg off buf g" for S s p lg off buf g]
  okR_all [where m = "replay_scan S s lg n xs" for S s lg n xs] okR_all [where m = "gdpfs_file_gname s fh" for s fh]
  okR_all [where m = "strcmp_same a b" for a b]

lemmas wp_splits = if_split prod.split option.split sum.split

lemma okR_eq: "okR (\<lambda>x. m = Inr x \<longrightarrow> Q x) m \<Longrightarrow> okR Q m"
  by (simp add: okR_def)

text \<open>The loops over a directory end, because the offset grows.\<close>

lemma next_slot:
  "\<not> 2 ^ 63 \<le> unat off + sizeof_dirent \<Longrightarrow> 2 ^ 63 - unat (off + of_nat sizeof_dirent) < 2 ^ 63 - unat (off :: u64)"
  by (simp add: sizeof_dirent_def unat_word_ariths)

section \<open>Views of the state\<close>

text \<open>
  A view of the state that no assignment to the tables, the files, the index, the caches and the queues changes, and that an append keeps. Everything
  above the log layer then keeps it, whatever its outcome.
\<close>

locale kept_view =
  fixes view :: "'w fsys \<Rightarrow> 'v"
  assumes view_updates [simp]:
    "view (put_file s p f) = view s" "view (s\<lparr>nheap := h\<rparr>) = view s" "view (s\<lparr>cache_files := c\<rparr>) = view s"
    "view (s\<lparr>fhs := b\<rparr>) = view s" "view (s\<lparr>files := l\<rparr>) = view s" "view (s\<lparr>pending := e\<rparr>) = view s"
    "view (s\<lparr>rc_links := k\<rparr>) = view s" "view (s\<lparr>recently_closed_size := i\<rparr>) = view s" "view (s\<lparr>ring := q\<rparr>) = view s"
    "view (s\<lparr>file_hash := m\<rparr>) = view s" "view (s\<lparr>fmem := g\<rparr>) = view s" "view (s\<lparr>fnext := n\<rparr>) = view s"
  assumes view_append: "rec_append S s lg r = (e', t) \<Longrightarrow> view t = view s"
begin

section \<open>The file layer\<close>

lemma wp_load_info [view_wp]: "(\<And>e t. view t = view s \<Longrightarrow> Q (e, t)) \<Longrightarrow> okR Q (file_load_info_cache S s p)"
  by (auto simp: file_load_info_cache_def Let_def intro!: pure_wp view_wp split: wp_splits)

lemma wp_info_raw [view_wp]: "(\<And>e t. view t = view s \<Longrightarrow> Q (e, t)) \<Longrightarrow> okR Q (file_get_info_raw S s p)"
  by (auto simp: file_get_info_raw_def Let_def intro!: pure_wp view_wp split: wp_splits)

lemma wp_get_info [view_wp]: "(\<And>e q t. view t = view s \<Longrightarrow> Q (e, q, t)) \<Longrightarrow> okR Q (gdpfs_file_get_info S s fh)"
  by (auto simp: gdpfs_file_get_info_def Let_def intro!: pure_wp view_wp split: wp_splits)

lemma wp_chkpt [view_wp]: "(\<And>t. view t = view s \<Longrightarrow> Q t) \<Longrightarrow> okR Q (file_chkpt S s p cb)"
  by (auto simp: file_chkpt_def Let_def view_append intro!: pure_wp view_wp split: wp_splits)

lemma wp_dealloc [view_wp]: "(\<And>e t. view t = view s \<Longrightarrow> Q (e, t)) \<Longrightarrow> okR Q (file_dealloc S s p)"
  by (auto simp: file_dealloc_def Let_def intro!: pure_wp view_wp split: wp_splits)

lemma wp_insert [view_wp]: "(\<And>e t. view t = view s \<Longrightarrow> Q (e, t)) \<Longrightarrow> okR Q (recently_closed_insert S s p)"
  by (auto simp: recently_closed_insert_def Let_def intro!: pure_wp view_wp split: wp_splits)

lemma wp_revive [view_wp]: "(\<And>t. view t = view s \<Longrightarrow> Q t) \<Longrightarrow> okR Q (recently_closed_revive s p)"
  by (auto simp: recently_closed_revive_def Let_def intro!: pure_wp view_wp split: wp_splits)

lemma wp_unref [view_wp]: "(\<And>e t. view t = view s \<Longrightarrow> Q (e, t)) \<Longrightarrow> okR Q (file_unref S s p)"
  by (auto simp: file_unref_def Let_def intro!: pure_wp view_wp split: wp_splits)

lemma wp_ref [view_wp]: "(\<And>e t. view t = view s \<Longrightarrow> Q (e, t)) \<Longrightarrow> okR Q (file_ref s p)"
  by (auto simp: file_ref_def Let_def intro!: pure_wp view_wp split: wp_splits)

lemma wp_close [view_wp]: "(\<And>e t. view t = view s \<Longrightarrow> Q (e, t)) \<Longrightarrow> okR Q (gdpfs_file_close S s fh)"
  by (auto simp: gdpfs_file_close_def Let_def intro!: pure_wp view_wp split: wp_splits)

lemma wp_free_fileref [view_wp]: "(\<And>t. view t = view s \<Longrightarrow> Q t) \<Longrightarrow> okR Q (free_fileref S s p)"
  by (auto simp: free_fileref_def Let_def intro!: pure_wp view_wp split: wp_splits)

lemma wp_chkpt_finish [view_wp]: "(\<And>t. view t = view s \<Longrightarrow> Q t) \<Longrightarrow> okR Q (file_chkpt_finish s q)"
  by (auto simp: file_chkpt_finish_def chkpt_finish_check_def chkpt_finish_free_def Let_def intro!: pure_wp view_wp split: wp_splits)

lemma wp_fill [view_wp]: "(\<And>e t. view t = view s \<Longrightarrow> Q (e, t)) \<Longrightarrow> okR Q (gdpfs_file_fill_cache s p buf off ow)"
  by (auto simp: gdpfs_file_fill_cache_def Let_def intro!: pure_wp view_wp split: wp_splits)

lemma wp_do_write [view_wp]: "(\<And>n t. view t = view s \<Longrightarrow> Q (n, t)) \<Longrightarrow> okR Q (do_write S s fh buf off info)"
  by (auto simp: do_write_def Let_def view_append intro!: pure_wp view_wp split: wp_splits)

lemma wp_change [view_wp]: "(\<And>i t. view t = view s \<Longrightarrow> Q (i, t)) \<Longrightarrow> okR Q (change_info s p upd)"
  by (auto simp: change_info_def Let_def intro!: pure_wp view_wp split: wp_splits)

lemma wp_write [view_wp]: "(\<And>n t. view t = view s \<Longrightarrow> Q (n, t)) \<Longrightarrow> okR Q (gdpfs_file_write S s fh buf off)"
  by (auto simp: gdpfs_file_write_def Let_def intro!: pure_wp view_wp split: wp_splits)

lemma wp_truncate [view_wp]: "(\<And>n t. view t = view s \<Longrightarrow> Q (n, t)) \<Longrightarrow> okR Q (gdpfs_file_ftruncate S s fh len)"
  by (auto simp: gdpfs_file_ftruncate_def Let_def intro!: pure_wp view_wp split: wp_splits)

lemma wp_set_perm [view_wp]: "(\<And>e t. view t = view s \<Longrightarrow> Q (e, t)) \<Longrightarrow> okR Q (gdpfs_file_set_perm S s fh perm)"
  by (auto simp: gdpfs_file_set_perm_def Let_def intro!: pure_wp view_wp split: wp_splits)

lemma wp_read_loop [view_wp]: "(\<And>b t. view t = view s \<Longrightarrow> Q (b, t)) \<Longrightarrow> okR Q (read_loop n S s p lg off it buf)"
proof (induction n arbitrary: s it buf)
  case (Suc n)
  then show ?case by (auto simp: Let_def intro!: pure_wp Suc.IH split: wp_splits)
qed simp

lemma wp_read [view_wp]: "(\<And>bs t. view t = view s \<Longrightarrow> Q (bs, t)) \<Longrightarrow> okR Q (gdpfs_file_read S s fh sz off)"
  by (auto simp: gdpfs_file_read_def do_read_def Let_def intro!: pure_wp view_wp split: wp_splits)

section \<open>Opening\<close>

lemma wp_chunks [view_wp]: "(\<And>t. view t = view s \<Longrightarrow> Q t) \<Longrightarrow> okR Q (fill_chunks s p bs off)"
proof (induction bs arbitrary: s off rule: measure_induct_rule [where f = length])
  case (less bs)
  then show ?case by (subst fill_chunks.simps) (auto intro!: view_wp less.IH)
qed

lemma wp_replay: "(\<And>t. view t = view s \<Longrightarrow> Q t) \<Longrightarrow> okR Q (replay_ent S p s x)"
  by (auto simp: replay_ent_def Let_def intro!: pure_wp view_wp split: wp_splits log_body.split)

lemma wp_fold [view_wp]: "(\<And>t. view t = view s \<Longrightarrow> Q t) \<Longrightarrow> okR Q (foldR (replay_ent S p) xs s)"
proof (induction xs arbitrary: s)
  case (Cons x xs)
  then show ?case by (auto intro!: wp_replay Cons.IH)
qed simp

lemma wp_load_index [view_wp]: "(\<And>t. view t = view s \<Longrightarrow> Q t) \<Longrightarrow> okR Q (load_index S s p)"
  by (auto simp: load_index_def Let_def intro!: pure_wp view_wp split: wp_splits)

lemma wp_struct [view_wp]:
  "(\<And>e. Q (Inl e)) \<Longrightarrow> (\<And>p t. view t = view s \<Longrightarrow> Q (Inr (p, t))) \<Longrightarrow> okR Q (open_struct S s n)"
  by (auto simp: open_struct_def Let_def intro!: pure_wp view_wp split: wp_splits)

lemma wp_check_type [view_wp]: "(\<And>e t. view t = view s \<Longrightarrow> Q (e, t)) \<Longrightarrow> okR Q (open_check_type S s fh p ty perm ini si)"
  by (auto simp: open_check_type_def Let_def intro!: pure_wp view_wp split: wp_splits)

lemma wp_index [view_wp]: "(\<And>t. view t = view s \<Longrightarrow> Q t) \<Longrightarrow> okR Q (open_index S s p si)"
  by (auto simp: open_index_def Let_def intro!: pure_wp view_wp split: wp_splits)

lemma wp_open [view_wp]: "(\<And>e fh t. view t = view s \<Longrightarrow> Q (e, fh, t)) \<Longrightarrow> okR Q (open_file S s n ty perm ini si)"
  by (auto simp: open_file_def open_fail2_def Let_def intro!: pure_wp view_wp split: wp_splits)

lemma wp_open_type [view_wp]: "(\<And>e fh t. view t = view s \<Longrightarrow> Q (e, fh, t)) \<Longrightarrow> okR Q (gdpfs_file_open_type S s n ty)"
  by (auto simp: gdpfs_file_open_type_def Let_def intro!: pure_wp view_wp split: wp_splits)

lemma wp_open_any [view_wp]: "(\<And>e fh t. view t = view s \<Longrightarrow> Q (e, fh, t)) \<Longrightarrow> okR Q (gdpfs_file_open S s n)"
  by (auto simp: gdpfs_file_open_def Let_def intro!: pure_wp view_wp split: wp_splits)

lemma wp_open_init [view_wp]: "(\<And>e fh t. view t = view s \<Longrightarrow> Q (e, fh, t)) \<Longrightarrow> okR Q (gdpfs_file_open_init S s n ty perm si)"
  by (auto simp: gdpfs_file_open_init_def Let_def intro!: pure_wp view_wp split: wp_splits)

lemma wp_create [view_wp]: "(\<And>e fh n t. view t = view s \<Longrightarrow> Q (e, fh, n, t)) \<Longrightarrow> okR Q (gdpfs_file_create S s ty perm)"
  by (auto simp: gdpfs_file_create_def Let_def intro!: pure_wp view_wp split: wp_splits)

section \<open>Directories\<close>

lemma wp_find_from [view_wp]: "(\<And>x t. view t = view s \<Longrightarrow> Q (x, t)) \<Longrightarrow> okR Q (find_from S fh name s off i)"
proof (induction off arbitrary: s i rule: measure_induct_rule [where f = "\<lambda>off. 2 ^ 63 - unat off"])
  case (less off)
  then show ?case
    by (subst find_from.simps) (auto simp: Let_def intro!: pure_wp view_wp less.IH [OF next_slot] split: wp_splits)
qed

lemma wp_find [view_wp]: "(\<And>x t. view t = view s \<Longrightarrow> Q (x, t)) \<Longrightarrow> okR Q (find_insert_offset S s fh name)"
  by (auto simp: find_insert_offset_def Let_def intro!: pure_wp view_wp split: wp_splits)

lemma wp_add [view_wp]: "(\<And>e t. view t = view s \<Longrightarrow> Q (e, t)) \<Longrightarrow> okR Q (add_at_offset S s fh off name g)"
  by (auto simp: add_at_offset_def Let_def intro!: pure_wp view_wp split: wp_splits)

lemma wp_dir_read_from [view_wp]: "(\<And>x t. view t = view s \<Longrightarrow> Q (x, t)) \<Longrightarrow> okR Q (dir_read_from S fh s off)"
proof (induction off arbitrary: s rule: measure_induct_rule [where f = "\<lambda>off. 2 ^ 63 - unat off"])
  case (less off)
  then show ?case
    by (subst dir_read_from.simps) (auto simp: Let_def intro!: pure_wp view_wp less.IH [OF next_slot] split: wp_splits)
qed

lemma wp_dir_read [view_wp]: "(\<And>x t. view t = view s \<Longrightarrow> Q (x, t)) \<Longrightarrow> okR Q (gdpfs_dir_read S s fh off)"
  by (auto simp: gdpfs_dir_read_def Let_def intro!: pure_wp view_wp split: wp_splits)

lemma wp_isempty [view_wp]: "(\<And>e b t. view t = view s \<Longrightarrow> Q (e, b, t)) \<Longrightarrow> okR Q (gdpfs_dir_isempty S s fh)"
  by (auto simp: gdpfs_dir_isempty_def Let_def intro!: pure_wp view_wp split: wp_splits)

lemma wp_remove [view_wp]: "(\<And>e t. view t = view s \<Longrightarrow> Q (e, t)) \<Longrightarrow> okR Q (gdpfs_dir_remove S s fh name ty)"
  by (auto simp: gdpfs_dir_remove_def Let_def intro!: pure_wp view_wp split: wp_splits)

lemma wp_walk [view_wp]: "(\<And>e fh t. view t = view s \<Longrightarrow> Q (e, fh, t)) \<Longrightarrow> okR Q (open_walk S ty s fh ct path)"
proof (induction path arbitrary: s fh ct rule: measure_induct_rule [where f = length])
  case (less path)
  have r: "length (dropWhile (\<lambda>x. x \<noteq> SLASH) path) < length path" if "path \<noteq> []" "hd path \<noteq> SLASH"
    using that length_dropWhile_le [of "\<lambda>x. x \<noteq> SLASH" "tl path"] by (cases path) (simp_all add: less_Suc_eq_le)
  show ?case using less
    by (subst open_walk.simps) (auto simp: Let_def intro!: pure_wp view_wp less.IH r split: wp_splits)
qed

lemma wp_at_path [view_wp]: "(\<And>e fh t. view t = view s \<Longrightarrow> Q (e, fh, t)) \<Longrightarrow> okR Q (gdpfs_dir_open_file_at_path S rt s path ty)"
  by (auto simp: gdpfs_dir_open_file_at_path_def Let_def intro!: pure_wp view_wp split: wp_splits)

lemma wp_parent [view_wp]: "(\<And>e fh n t. view t = view s \<Longrightarrow> Q (e, fh, n, t)) \<Longrightarrow> okR Q (open_parent_dir S rt s path)"
  by (auto simp: open_parent_dir_def Let_def intro!: pure_wp view_wp split: wp_splits)

lemma wp_create_at [view_wp]: "(\<And>e fh n t. view t = view s \<Longrightarrow> Q (e, fh, n, t)) \<Longrightarrow> okR Q (gdpfs_dir_create_file_at_path S rt s path ty has perm)"
  by (auto simp: gdpfs_dir_create_file_at_path_def Let_def intro!: pure_wp view_wp split: wp_splits)

lemma wp_replace_check [view_wp]: "(\<And>e t. view t = view s \<Longrightarrow> Q (e, t)) \<Longrightarrow> okR Q (replace_check S s ty g)"
  by (auto simp: replace_check_def Let_def intro!: pure_wp view_wp split: wp_splits)

lemma wp_replace [view_wp]: "(\<And>e t. view t = view s \<Longrightarrow> Q (e, t)) \<Longrightarrow> okR Q (gdpfs_dir_replace_file_at_path S rt s fh path)"
  by (auto simp: gdpfs_dir_replace_file_at_path_def Let_def intro!: pure_wp view_wp split: wp_splits)

lemma wp_remove_at [view_wp]: "(\<And>e t. view t = view s \<Longrightarrow> Q (e, t)) \<Longrightarrow> okR Q (gdpfs_dir_remove_file_at_path S rt s path ty)"
  by (auto simp: gdpfs_dir_remove_file_at_path_def Let_def intro!: pure_wp view_wp split: wp_splits)

lemma wp_init_dir [view_wp]: "(\<And>e t. view t = view s \<Longrightarrow> Q (e, t)) \<Longrightarrow> okR Q (init_gdpfs_dir S s rt)"
  by (auto simp: init_gdpfs_dir_def Let_def intro!: pure_wp view_wp split: wp_splits)

section \<open>Handlers\<close>

lemma wp_getattr [view_wp]: "(\<And>rv b t. view t = view s \<Longrightarrow> Q (rv, b, t)) \<Longrightarrow> okR Q (gdpfs_getattr S rt m uid gid s path)"
  by (auto simp: gdpfs_getattr_def Let_def intro!: pure_wp view_wp split: wp_splits)

lemma wp_check_flags [view_wp]: "(\<And>b t. view t = view s \<Longrightarrow> Q (b, t)) \<Longrightarrow> okR Q (check_open_flags S s fh flags)"
  by (auto simp: check_open_flags_def Let_def intro!: pure_wp view_wp split: wp_splits)

lemma wp_open_path [view_wp]: "(\<And>rv fh t. view t = view s \<Longrightarrow> Q (rv, fh, t)) \<Longrightarrow> okR Q (fuse_open_path S rt s path ty)"
  by (auto simp: fuse_open_path_def Let_def intro!: pure_wp view_wp split: wp_splits)

lemma wp_release_fh [view_wp]: "(\<And>rv t. view t = view s \<Longrightarrow> Q (rv, t)) \<Longrightarrow> okR Q (fuse_release_fh S s fh)"
  by (auto simp: fuse_release_fh_def Let_def intro!: pure_wp view_wp split: wp_splits)

lemma wp_open_as [view_wp]: "(\<And>rv fh t. view t = view s \<Longrightarrow> Q (rv, fh, t)) \<Longrightarrow> okR Q (open_as S rt s path ty flags)"
  by (auto simp: open_as_def Let_def intro!: pure_wp view_wp split: wp_splits)

text \<open>The listing of a directory; its loop is over the offsets that come with the entries.\<close>

lemma wp_readdir_loop [view_wp]: "(\<And>b t. view t = view s \<Longrightarrow> Q (b, t)) \<Longrightarrow> okR Q (readdir_loop S fh filler b s off)"
proof (induction off arbitrary: s b rule: measure_induct_rule [where f = "\<lambda>off. 2 ^ 64 - unat off"])
  case (less off)
  have one: "2 ^ 64 - unat (2 :: u64) < 2 ^ 64 - unat (1 :: u64)" "2 ^ 64 - unat (3 :: u64) < 2 ^ 64 - unat (2 :: u64)" by simp_all
  have d: "okR R (gdpfs_dir_read S s fh (off - 3))"
    if "\<And>e x t. gdpfs_dir_read S s fh (off - 3) = Inr ((e, x), t) \<Longrightarrow> view t = view s \<Longrightarrow> R ((e, x), t)" for R
    by (rule okR_eq) (auto intro!: view_wp that)
  show ?case using less
    by (subst readdir_loop.simps) (auto simp: Let_def intro!: d less.IH one readdir_ahead split: wp_splits)
qed

lemma wp_truncate_at [view_wp]: "(\<And>rv t. view t = view s \<Longrightarrow> Q (rv, t)) \<Longrightarrow> okR Q (gdpfs_truncate S rt s path len)"
  by (auto simp: gdpfs_truncate_def Let_def intro!: pure_wp view_wp split: wp_splits)

lemma wp_unlink [view_wp]: "(\<And>rv t. view t = view s \<Longrightarrow> Q (rv, t)) \<Longrightarrow> okR Q (gdpfs_unlink S rt s path)"
  by (auto simp: gdpfs_unlink_def Let_def intro!: pure_wp view_wp split: wp_splits)

lemma wp_rmdir [view_wp]: "(\<And>rv t. view t = view s \<Longrightarrow> Q (rv, t)) \<Longrightarrow> okR Q (gdpfs_rmdir S rt s path)"
  by (auto simp: gdpfs_rmdir_def Let_def intro!: pure_wp view_wp split: wp_splits)

lemma wp_mkdir [view_wp]: "(\<And>rv t. view t = view s \<Longrightarrow> Q (rv, t)) \<Longrightarrow> okR Q (gdpfs_mkdir S rt s path m)"
  by (auto simp: gdpfs_mkdir_def Let_def intro!: pure_wp view_wp split: wp_splits)

lemma wp_create_handler [view_wp]: "(\<And>rv fh t. view t = view s \<Longrightarrow> Q (rv, fh, t)) \<Longrightarrow> okR Q (gdpfs_create S rt s path m)"
  by (auto simp: gdpfs_create_def Let_def intro!: pure_wp view_wp split: wp_splits)

lemma wp_rename [view_wp]: "(\<And>rv t. view t = view s \<Longrightarrow> Q (rv, t)) \<Longrightarrow> okR Q (gdpfs_rename S rt s path path')"
  by (auto simp: gdpfs_rename_def Let_def intro!: pure_wp view_wp split: wp_splits)

lemma wp_access [view_wp]: "(\<And>rv t. view t = view s \<Longrightarrow> Q (rv, t)) \<Longrightarrow> okR Q (gdpfs_access S rt s path m)"
  by (auto simp: gdpfs_access_def Let_def intro!: pure_wp view_wp split: wp_splits)

lemma wp_chmod [view_wp]: "(\<And>rv t. view t = view s \<Longrightarrow> Q (rv, t)) \<Longrightarrow> okR Q (gdpfs_chmod S rt s path m)"
  by (auto simp: gdpfs_chmod_def Let_def intro!: pure_wp view_wp split: wp_splits)

lemma wp_readdir [view_wp]: "(\<And>rv b' t. view t = view s \<Longrightarrow> Q (rv, b', t)) \<Longrightarrow> okR Q (gdpfs_readdir S filler b s off fh)"
  by (auto simp: gdpfs_readdir_def Let_def intro!: pure_wp view_wp split: wp_splits)

end

section \<open>The logs in read-only mode\<close>

definition ro_view :: "'w fsys \<Rightarrow> 'w option" where
  "ro_view s = (if io_mode s = GDP_MODE_RO then Some (world s) else None)"

interpretation ro: kept_view ro_view
  by unfold_locales (auto simp: ro_view_def put_file_def rec_append_def split: if_splits prod.splits)

section \<open>Sequences of calls\<close>

text \<open>
  One step of the running program: a call of any of the handlers in the table of the kernel interface, with any arguments and any outcome,
  an acknowledgement of the log daemon, or a change of the queue of precreated logs. Calls that fault are
  not followed by anything.
\<close>

inductive fuse_step :: "'w log_service \<Rightarrow> gdp_name \<Rightarrow> fs_mode \<Rightarrow> 'w fsys \<Rightarrow> 'w fsys \<Rightarrow> bool" for S rt mode where
  Getattr: "gdpfs_getattr S rt mode uid gid s path = Inr (rv, stbuf, t) \<Longrightarrow> fuse_step S rt mode s t"
| Readdir: "gdpfs_readdir S (filler :: cstring list \<Rightarrow> _) b s off fh = Inr (rv, b', t) \<Longrightarrow> fuse_step S rt mode s t"
| Open: "gdpfs_open S rt s path flags = Inr (rv, fh, t) \<Longrightarrow> fuse_step S rt mode s t"
| Opendir: "gdpfs_opendir S rt s path flags = Inr (rv, fh, t) \<Longrightarrow> fuse_step S rt mode s t"
| Release: "gdpfs_release S s fh = Inr (rv, t) \<Longrightarrow> fuse_step S rt mode s t"
| Releasedir: "gdpfs_releasedir S s fh = Inr (rv, t) \<Longrightarrow> fuse_step S rt mode s t"
| Read: "gdpfs_read S s fh sz off = Inr (rv, bs, t) \<Longrightarrow> fuse_step S rt mode s t"
| Write: "gdpfs_write S s fh buf off = Inr (rv, t) \<Longrightarrow> fuse_step S rt mode s t"
| Truncate: "gdpfs_truncate S rt s path len = Inr (rv, t) \<Longrightarrow> fuse_step S rt mode s t"
| Ftruncate: "gdpfs_ftruncate S s fh len = Inr (rv, t) \<Longrightarrow> fuse_step S rt mode s t"
| Create: "gdpfs_create S rt s path m = Inr (rv, fh, t) \<Longrightarrow> fuse_step S rt mode s t"
| Unlink: "gdpfs_unlink S rt s path = Inr (rv, t) \<Longrightarrow> fuse_step S rt mode s t"
| Mkdir: "gdpfs_mkdir S rt s path m = Inr (rv, t) \<Longrightarrow> fuse_step S rt mode s t"
| Rmdir: "gdpfs_rmdir S rt s path = Inr (rv, t) \<Longrightarrow> fuse_step S rt mode s t"
| Rename: "gdpfs_rename S rt s path path' = Inr (rv, t) \<Longrightarrow> fuse_step S rt mode s t"
| Chmod: "gdpfs_chmod S rt s path m = Inr (rv, t) \<Longrightarrow> fuse_step S rt mode s t"
| Chown: "gdpfs_chown s path uid gid = (rv, t) \<Longrightarrow> fuse_step S rt mode s t"
| Access: "gdpfs_access S rt s path m = Inr (rv, t) \<Longrightarrow> fuse_step S rt mode s t"
| Utimens: "gdpfs_utimens s path = (rv, t) \<Longrightarrow> fuse_step S rt mode s t"
| Ack: "pending s = es @ Free_Fileref p est # es' \<Longrightarrow> free_fileref S (s\<lparr>pending := es @ es'\<rparr>) p = Inr t \<Longrightarrow> fuse_step S rt mode s t"
| Chkpt_Ack: "pending s = es @ Chkpt_Finish q # es' \<Longrightarrow> file_chkpt_finish (s\<lparr>pending := es @ es'\<rparr>) q = Inr t \<Longrightarrow> fuse_step S rt mode s t"
| Producer: "fuse_step S rt mode s (s\<lparr>ring := q\<rparr>)"

lemma okR_D: "m = Inr x \<Longrightarrow> okR Q m \<Longrightarrow> Q x"
  by (simp add: okR_def)

lemma ro_fuse_step: "fuse_step S rt mode s t \<Longrightarrow> ro_view t = ro_view s"
proof (induction rule: fuse_step.induct)
  case (Ack s es p est es' t)
  then show ?case by (auto dest!: okR_D [where Q = "\<lambda>t. ro_view t = ro_view s"] intro!: view_wp)
next
  case (Chkpt_Ack s es q es' t)
  then show ?case by (auto dest!: okR_D [where Q = "\<lambda>t. ro_view t = ro_view s"] intro!: view_wp)
qed (auto simp: gdpfs_open_def gdpfs_opendir_def gdpfs_release_def gdpfs_releasedir_def gdpfs_read_def gdpfs_write_def gdpfs_ftruncate_def
    gdpfs_chown_def gdpfs_utimens_def
    dest!: okR_D [where Q = "\<lambda>(rv, x, t). ro_view t = v" for v] okR_D [where Q = "\<lambda>(rv, t). ro_view t = v" for v] intro!: view_wp)

lemma ro_fuse_steps: "(fuse_step S rt mode)\<^sup>*\<^sup>* s t \<Longrightarrow> ro_view t = ro_view s"
  by (induction rule: rtranclp_induct) (auto dest: ro_fuse_step)

section \<open>Start and end\<close>

lemma ro_stop: "(\<And>t. ro_view t = ro_view s \<Longrightarrow> Q t) \<Longrightarrow> okR Q (gdpfs_stop S s names)"
proof -
  assume Q: "\<And>t. ro_view t = ro_view s \<Longrightarrow> Q t"
  let ?f = "\<lambda>s n. case file_hash s n of None \<Rightarrow> Inr s | Some p \<Rightarrow> file_chkpt S s p False"
  have "okR (\<lambda>t. ro_view t = ro_view s) (foldR ?f names s)"
    by (rule okR_fold) (auto intro!: view_wp split: option.split)
  then show ?thesis unfolding gdpfs_stop_def stop_gdpfs_file_def by (rule okR_bind) (auto intro!: pure_wp Q)
qed

lemma ro_run:
  assumes "gdpfs_run S n gst True cache blk quota deny dir_ok w = Inr (Some (mode, s))"
  shows "mode = 0" "ro_view s = Some w"
proof -
  obtain e u where u: "init_gdpfs_file gst 0 cache blk quota deny dir_ok w = (e, u)" by (cases "init_gdpfs_file gst 0 cache blk quota deny dir_ok w")
  have e: "EP_STAT_ISOK e" "mode = 0" and i: "\<exists>e'. init_gdpfs_dir S u n = Inr (e', s)"
    using assms u by (auto simp: gdpfs_run_def bindR_eq_Inr split: if_splits)
  have "ro_view u = Some w"
    using u e(1) by (auto simp: init_gdpfs_file_def init_gdpfs_log_def Let_def ro_view_def EP_STAT_ISOK_def split: if_splits)
  moreover have "okR (\<lambda>(e, t). ro_view t = ro_view u) (init_gdpfs_dir S u n)" by (auto intro!: view_wp)
  ultimately show "mode = 0" "ro_view s = Some w" using e(2) i by (auto simp: okR_def)
qed

lemma main_run:
  assumes "list_all cl_ok is" "prog \<noteq> ''--''"
    "gdpfs_main S parse_name gdp_init blk quota deny dir_ok w False (cl_line prog is fuse) = Inr (Some (mode, s))"
  shows "\<exists>gst. gdpfs_run S (parse_name (cl_operands is ! 0)) gst (Cl_r \<in> set is) (\<not> cl_nocache is) blk quota deny dir_ok w = Inr (Some (mode, s))"
  using assms(3) unfolding gdpfs_main_def main_args_line [OF assms(1,2)] by (auto split: if_splits)

text \<open>A command line with \<open>-r\<close> and \<open>-d\<close> on an empty directory.\<close>

lemma main_starts_ro:
  assumes S: "svc_ok S hist" "svc_last S hist" and line: "list_all cl_ok is" "prog \<noteq> ''--''"
    and own: "cl_operands is = [rlog, server]" "\<not> cl_usage is" "Cl_r \<in> set is" "cl_nocache is"
    and g: "EP_STAT_ISOK (gdp_init (if cl_routers is = [] then None else Some (last (cl_routers is))))"
    and n: "EP_STAT_ISOK (svc_open S w (parse_name rlog))"
    "hist w (parse_name rlog) = [empty_rec \<lparr>file_size = 0, file_type = GDPFS_FILE_TYPE_DIR, file_perm = perm\<rparr>]"
  shows "\<exists>s p f u. gdpfs_main S parse_name gdp_init blk quota deny dir_ok w False (cl_line prog is fuse) = Inr (Some (0, s)) \<and> freach S s \<and>
    file_hash s = [parse_name rlog \<mapsto> p] \<and> fmem s p = Some f \<and> info_cache_valid f \<and> fig_ok (nheap s) (figtree_of f) u \<and> dirty_in (nheap s) u \<and>
    io_mode s = GDP_MODE_RO"
proof -
  let ?g = "gdp_init (if cl_routers is = [] then None else Some (last (cl_routers is)))"
  have "gdpfs_main S parse_name gdp_init blk quota deny dir_ok w False (cl_line prog is fuse) =
    gdpfs_run S (parse_name rlog) ?g True False blk quota deny dir_ok w"
    unfolding gdpfs_main_def main_args_line [OF line] using own by simp
  then show ?thesis using run_old_root [OF S g n, of blk quota deny dir_ok] by simp
qed

lemma chkpt_read_only:
  assumes "fmem s p = Some f" "info_cache_valid f" "fig_ok (nheap s) (figtree_of f) u" "dirty_in (nheap s) u" "io_mode s = GDP_MODE_RO"
  shows "file_chkpt S s p cb = Inl Assert_Fail"
proof -
  obtain L h where "get_dirty (nheap s) (figtree_of f) (last_recno f + 1) = Inr (L, h)" "L \<noteq> []"
    using get_dirty_spec [OF assms(3,4)] by blast
  then show ?thesis using assms(1,2,5)
    by (simp add: file_chkpt_def file_get_info_raw_def get_file_def put_file_def rec_append_def Let_def EP_STAT_ISOK_def)
qed

definition ro_world :: "gdp_name \<Rightarrow> log_rec list" where
  "ro_world n = (if n = [114, 111, 111, 116] then [empty_rec \<lparr>file_size = 0, file_type = GDPFS_FILE_TYPE_DIR, file_perm = 0x1ED\<rparr>] else [])"

lemma ro_line:
  "list_all cl_ok [Cl_r, Cl_d [], Cl_op ''root'', Cl_op ''server'']" "''gdpfs'' \<noteq> ''--''"
  "cl_operands [Cl_r, Cl_d [], Cl_op ''root'', Cl_op ''server''] = [''root'', ''server'']" "\<not> cl_usage [Cl_r, Cl_d [], Cl_op ''root'', Cl_op ''server'']"
  "Cl_r \<in> set [Cl_r, Cl_d [], Cl_op ''root'', Cl_op ''server'']" "cl_nocache [Cl_r, Cl_d [], Cl_op ''root'', Cl_op ''server'']"
  "cl_line ''gdpfs'' [Cl_r, Cl_d [], Cl_op ''root'', Cl_op ''server''] None = [''gdpfs'', ''-r'', ''-d'', ''root'', ''server'']"
  by (simp_all add: is_operand_def cl_usage_def cl_nocache_def cl_line_def)

text \<open>
  What attributes look like: one link, the type of a regular file or of a directory, the owner of the process, no
  write permission in read-only mode and no read permission in write-only mode.
\<close>

definition stat_ok :: "fs_mode \<Rightarrow> nat \<Rightarrow> nat \<Rightarrow> fuse_stat \<Rightarrow> bool" where
  "stat_ok mode uid gid a \<longleftrightarrow> st_nlink a = 1 \<and> st_uid a = uid \<and> st_gid a = gid \<and>
     (st_mode a AND S_IFREG = S_IFREG \<or> st_mode a AND S_IFDIR = S_IFDIR) \<and>
     (mode = 0 \<and> st_mode a AND 0x92 = 0 \<or> mode = 1 \<or> mode = 2 \<and> st_mode a AND 0x124 = 0)"

lemma stat_bits:
  assumes "stat_type ft = Some ty" "stat_perm mode (ty OR x) = Some m"
  shows "stat_ok mode uid gid \<lparr>st_nlink = 1, st_size = z, st_uid = uid, st_gid = gid, st_mode = m\<rparr>"
proof -
  have ty: "ty = S_IFREG \<or> ty = S_IFDIR" using assms(1) by (auto simp: stat_type_def split: gdpfs_file_type.splits)
  then have k: "ty AND NOT 0x92 = ty" "ty AND NOT 0x124 = ty" by (auto simp: S_IFREG_def S_IFDIR_def)
  have c: "((ty OR x) AND NOT z) AND ty = ty" if "ty AND NOT z = ty" for z :: u32
  proof -
    have "((ty OR x) AND NOT z) AND ty = (ty OR x) AND (ty AND NOT z)" by (simp add: ac_simps)
    also have "\<dots> = ty" unfolding that by (simp add: word_ao_absorbs)
    finally show ?thesis .
  qed
  have z: "(y AND NOT z) AND z = 0" for y z :: u32 by (simp add: and.assoc)
  have "m AND ty = ty" using assms(2) c [OF k(1)] c [OF k(2)] by (auto simp: stat_perm_def word_ao_absorbs split: if_splits)
  moreover have "mode = 0 \<and> m AND 0x92 = 0 \<or> mode = 1 \<or> mode = 2 \<and> m AND 0x124 = 0"
    using assms(2) z [of "ty OR x" "0x92"] z [of "ty OR x" "0x124"] by (auto simp: stat_perm_def split: if_splits)
  ultimately show ?thesis using ty by (auto simp: stat_ok_def)
qed

section \<open>Properties\<close>

text \<open>
  C17: A file system that is started with \<open>-r\<close> never appends to a log. Whatever the rest of the command line, whatever
  the log daemon answers and whatever handlers are called, with any arguments and in any order, the state of the
  logs is the one at the start, and a stop that returns does not change it either.
\<close>

theorem read_only_appends_nothing:
  assumes "list_all cl_ok is" "prog \<noteq> ''--''" "Cl_r \<in> set is"
    "gdpfs_main S parse_name gdp_init blk quota deny dir_ok w False (cl_line prog is fuse) = Inr (Some (mode, s))"
    "(fuse_step S rootlog mode)\<^sup>*\<^sup>* s t"
  shows "world t = w \<and> okR (\<lambda>u. world u = w) (sig_int S t names)"
proof -
  obtain gst where "gdpfs_run S (parse_name (cl_operands is ! 0)) gst True (\<not> cl_nocache is) blk quota deny dir_ok w = Inr (Some (mode, s))"
    using main_run [OF assms(1,2,4)] assms(3) by auto
  then have v: "ro_view t = Some w" using ro_run ro_fuse_steps [OF assms(5)] by simp
  have w: "world u = w" if "ro_view u = ro_view t" for u using that v by (simp add: ro_view_def split: if_splits)
  show ?thesis using w unfolding sig_int_def by (intro conjI ro_stop) auto
qed

theorem read_only_appends_nothing_witness:
  "\<exists>s t. gdpfs_main list_svc (\<lambda>n. map (of_nat \<circ> of_char) n) (\<lambda>_. EP_STAT_OK) 4096 1000000 (\<lambda>_. False) True ro_world False
       [''gdpfs'', ''-r'', ''-d'', ''root'', ''server''] = Inr (Some (0, s)) \<and>
     (fuse_step list_svc [114, 111, 111, 116] 0)\<^sup>*\<^sup>* s t \<and> ring t = first_ring \<and> world t = ro_world"
proof -
  let ?is = "[Cl_r, Cl_d [], Cl_op ''root'', Cl_op ''server'']" let ?parse = "\<lambda>n. map (of_nat \<circ> of_char) n :: gdp_name"
  have r: "?parse ''root'' = [114, 111, 111, 116]" by simp
  have o: "EP_STAT_ISOK ((\<lambda>_. EP_STAT_OK) (if cl_routers ?is = [] then None else Some (last (cl_routers ?is))))"
    "EP_STAT_ISOK (svc_open list_svc ro_world (?parse ''root''))" by (simp_all add: EP_STAT_ISOK_def list_svc_def)
  have w: "ro_world (?parse ''root'') = [empty_rec \<lparr>file_size = 0, file_type = GDPFS_FILE_TYPE_DIR, file_perm = 0x1ED\<rparr>]"
    unfolding r by (simp add: ro_world_def)
  obtain s where s: "gdpfs_main list_svc ?parse (\<lambda>_. EP_STAT_OK) 4096 1000000 (\<lambda>_. False) True ro_world False (cl_line ''gdpfs'' ?is None) = Inr (Some (0, s))"
    using main_starts_ro [where gdp_init = "\<lambda>_. EP_STAT_OK" and w = ro_world and parse_name = ?parse, OF list_svc_ok list_svc_last ro_line(1-6) o w] by blast
  have st: "(fuse_step list_svc [114, 111, 111, 116] 0)\<^sup>*\<^sup>* s (s\<lparr>ring := first_ring\<rparr>)" by (rule r_into_rtranclp) (rule Producer)
  have "world (s\<lparr>ring := first_ring\<rparr>) = ro_world"
    using read_only_appends_nothing [OF ro_line(1,2,5) s st] by blast
  then show ?thesis using s st unfolding ro_line(7) by auto
qed

text \<open>
  C33: But a read-only file system cannot be stopped. On a directory that is still empty the program starts, and the interrupt signal makes
  it fail: the index that was built in memory counts as changed, its checkpoint is refused by the log
  layer, and the assertion that it was written does not hold.
\<close>

theorem read_only_stop_fails:
  assumes "svc_ok S hist" "svc_last S hist" "list_all cl_ok is" "prog \<noteq> ''--''"
    "cl_operands is = [rlog, server]" "\<not> cl_usage is" "Cl_r \<in> set is" "cl_nocache is"
    "EP_STAT_ISOK (gdp_init (if cl_routers is = [] then None else Some (last (cl_routers is))))"
    "EP_STAT_ISOK (svc_open S w (parse_name rlog))"
    "hist w (parse_name rlog) = [empty_rec \<lparr>file_size = 0, file_type = GDPFS_FILE_TYPE_DIR, file_perm = perm\<rparr>]"
  shows "\<exists>s. gdpfs_main S parse_name gdp_init blk quota deny dir_ok w False (cl_line prog is fuse) = Inr (Some (0, s)) \<and>
    sig_int S s [parse_name rlog] = Inl Assert_Fail"
proof -
  obtain s p f u where s: "gdpfs_main S parse_name gdp_init blk quota deny dir_ok w False (cl_line prog is fuse) = Inr (Some (0, s))"
    "file_hash s = [parse_name rlog \<mapsto> p]" "fmem s p = Some f" "info_cache_valid f" "fig_ok (nheap s) (figtree_of f) u" "dirty_in (nheap s) u" "io_mode s = GDP_MODE_RO"
    using main_starts_ro [where gdp_init = gdp_init and w = w and parse_name = parse_name, OF assms] by blast
  have "sig_int S s [parse_name rlog] = Inl Assert_Fail"
    using s(2) chkpt_read_only [OF s(3-7)] by (simp add: sig_int_def gdpfs_stop_def stop_gdpfs_file_def)
  then show ?thesis using s(1) by blast
qed

theorem read_only_stop_fails_witness:
  "\<exists>s. gdpfs_main list_svc (\<lambda>n. map (of_nat \<circ> of_char) n) (\<lambda>_. EP_STAT_OK) 4096 1000000 (\<lambda>_. False) True ro_world False
       [''gdpfs'', ''-r'', ''-d'', ''root'', ''server''] = Inr (Some (0, s)) \<and>
     sig_int list_svc s [[114, 111, 111, 116]] = Inl Assert_Fail"
proof -
  let ?is = "[Cl_r, Cl_d [], Cl_op ''root'', Cl_op ''server'']" let ?parse = "\<lambda>n. map (of_nat \<circ> of_char) n :: gdp_name"
  have r: "?parse ''root'' = [114, 111, 111, 116]" by simp
  have o: "EP_STAT_ISOK ((\<lambda>_. EP_STAT_OK) (if cl_routers ?is = [] then None else Some (last (cl_routers ?is))))"
    "EP_STAT_ISOK (svc_open list_svc ro_world (?parse ''root''))" by (simp_all add: EP_STAT_ISOK_def list_svc_def)
  have w: "ro_world (?parse ''root'') = [empty_rec \<lparr>file_size = 0, file_type = GDPFS_FILE_TYPE_DIR, file_perm = 0x1ED\<rparr>]"
    unfolding r by (simp add: ro_world_def)
  show ?thesis
    using read_only_stop_fails [where gdp_init = "\<lambda>_. EP_STAT_OK" and w = ro_world and parse_name = ?parse, OF list_svc_ok list_svc_last ro_line(1-6) o w,
      of 4096 1000000 "\<lambda>_. False" True None] unfolding ro_line(7) r .
qed



end
