(* ===== verification/Spec2Isabelle.thy ===== *)
theory Spec2Isabelle
  imports Extent_Map Fig_Iter Fig_Ckpt List_Sort Bitmap_File Log_Queue Log_Entry File_Disk Dir_Props Dir_Handles Read_Only
begin

text \<open>
  GDPFS, a file system on append-only logs.

  \<^bold>\<open>The program.\<close> Each file of GDPFS is a log of the Global Data Plane; a write appends a record with the bytes
  and their place in the file. \<^verbatim>\<open>src/main.c\<close> reads the command line and starts the program; then the kernel calls the handlers of \<^verbatim>\<open>src/gdpfs.c\<close> through FUSE. They walk paths with
  \<^verbatim>\<open>src/gdpfs_dir.c\<close>, where a directory is a file of fixed-size entries. Both use \<^verbatim>\<open>src/gdpfs_file.c\<close>, which keeps a
  structure per open log: a reference count, the cached size, type and permissions, and an index from byte
  ranges to record numbers, the FIG tree of \<^verbatim>\<open>src/figtree/\<close>. Handles are bits of \<^verbatim>\<open>src/bitmap.c\<close>; files
  nobody has open wait on a list of \<^verbatim>\<open>src/list.c\<close> until they are evicted, when their index is written into the
  log as a checkpoint. \<^verbatim>\<open>src/gdpfs_log.c\<close> talks to the log daemon, caches records in local files and keeps a queue
  of logs created ahead of time; \<^verbatim>\<open>src/bitmap_file.c\<close> records which bytes of a cache file are valid.

  \<^bold>\<open>The style of the model.\<close> A C function is a HOL function of the state it reads and returns the state it
  leaves. A failed assertion, a bad pointer, an access out of bounds, a fatal error or an endless wait is a
  value of \<open>fault\<close>, on the left of the type \<open>res\<close> of theory \<open>Gdpfs_Prelude\<close>; the errors the code reports are values
  of \<open>ep_stat\<close> or the numbers the kernel gets. Integers have their widths. Memory is an explicit store
  wherever aliasing or freeing matters: nodes of the index, list elements and file structures have addresses.
  The callbacks of asynchronous calls are events that wait in the state and run in any order.
  The library of the log daemon is an argument: the record \<open>log_service\<close> of its calls. What is assumed
  of it is \<open>svc_ok\<close> (theory \<open>File_Data\<close>): a successful append adds a record to a log, and record \<open>i\<close> can be
  read once it is there, and where a root log is opened \<open>svc_last\<close> (theory \<open>Start\<close>): record -1 is the last one; \<open>list_svc\<close> is an instance with logs that are lists.

  \<^bold>\<open>The index.\<close>
  \<^item> \<open>Interval\<close>: \<^verbatim>\<open>src/figtree/interval.c\<close>, on 32-bit byte indices.
  \<^item> \<open>Fig_Node\<close>, \<open>Fig_Tree\<close>: the definitions for \<^verbatim>\<open>src/figtree/figtreenode.c\<close>, \<open>ft_init\<close>, \<open>ft_write\<close> and \<open>ft_lookup\<close> of \<^verbatim>\<open>src/figtree/figtree.c\<close>
    and the pointers of \<^verbatim>\<open>src/figtree/utils.c\<close>, on a heap of nodes.
  \<^item> \<open>Fig_Rep\<close>, \<open>Fig_Prune\<close>, \<open>Fig_Zip\<close>, \<open>Fig_Ascend\<close>, \<open>Fig_Descend\<close>, \<open>Fig_Marker\<close>, \<open>Fig_Replace\<close>, \<open>Fig_Write\<close>, \<open>Fig_Correct\<close>: the proof
    that a write succeeds, keeps the tree well formed and changes exactly the lookups in its range. The
    heap is related to ghost trees; insertion works on a context with a hole; the continuations a
    cut entry leaves are inserted at a marker.
  \<^item> \<open>Fig_Local\<close>: an execution on a heap is one on any larger heap that leaves the rest alone, by a simulation through
    every operation; so a write into one tree spares the others.
  \<^item> \<open>Extent_Map\<close>: the contract, the locale \<open>extent_map\<close>, interpreted on the index; a lookup returns the last
    write that covers the byte.
  \<^item> \<open>Fig_Iter\<close>: \<open>ft_read\<close> and \<open>fti_next\<close>, which end and return exactly the lookups of a range.
  \<^item> \<open>Fig_Dirty\<close>, \<open>Fig_Ckpt\<close>: \<open>get_dirty\<close>, \<open>ft_dealloc\<close> and loading nodes on demand; the round trip of a checkpoint, and two
    ways in which a second checkpoint of a reloaded index goes wrong.

  \<^bold>\<open>Handles, lists, caches, logs.\<close>
  \<^item> \<open>Bitmap\<close>: \<^verbatim>\<open>src/bitmap.c\<close> with the locale \<open>handle_pool\<close>; reservations are least, distinct and reusable, and full bitmaps
    are read past their end.
  \<^item> \<open>DList\<close>: \<^verbatim>\<open>src/list.c\<close> with the locale \<open>recency_queue\<close>; \<open>List_Sort\<close>: its merge sort, which is stable, and the removal of
    duplicates.
  \<^item> \<open>Posix_File\<close>, \<open>Bitmap_File\<close>: local files, and \<^verbatim>\<open>src/bitmap_file.c\<close> on them.
  \<^item> \<open>Log_Queue\<close>: the queue of precreated logs with the locale \<open>bounded_queue\<close>, and the step relation \<open>log_step\<close> of its producer
    and consumers with the condition variable.
  \<^item> \<open>Log_Entry\<close>: log handles, entries and the record cache with the locale \<open>byte_source\<close>.

  \<^bold>\<open>Files.\<close>
  \<^item> \<open>File_State\<close>, \<open>File_Io\<close>, \<open>File_Open\<close>: every operation of \<^verbatim>\<open>src/gdpfs_file.c\<close> on the record \<open>fsys\<close>.
  \<^item> \<open>File_Inv\<close>, \<open>File_Steps\<close>, \<open>File_Handles\<close>: the steps \<open>fstep\<close>, the reachable states \<open>freach\<close> and the invariant \<open>fs_inv\<close>:
    reference counts are exact, open handles are live, the list of recently closed files is what the
    marks say; closing and acknowledging succeed.
  \<^item> \<open>File_Data\<close>, \<open>File_Props\<close>: the contract of a file, the locale \<open>byte_file\<close>: reads return what was written, through the
    cache or through index and log.
  \<^item> \<open>File_Disk\<close>: several files, the locale \<open>file_store\<close>, of which \<open>byte_file\<close> is a sublocale: operations on a file act on that
    file only, and through all of its handles.

  \<^bold>\<open>Directories and handlers.\<close>
  \<^item> \<open>Dir\<close>, \<open>Fuse\<close>: every operation of \<^verbatim>\<open>src/gdpfs_dir.c\<close> and every handler of \<^verbatim>\<open>src/gdpfs.c\<close>.
  \<^item> \<open>Dir_Data\<close>, \<open>Dir_Props\<close>: a directory is a finite map from names to logs (the locale \<open>name_table\<close>), and a listing in pages
    is complete.
  \<^item> \<open>Dir_Handles\<close>: which handles the operations leave open; the handlers for paths close what they open.
  \<^item> \<open>Mount\<close>: a mounted file system (\<open>mounted\<close>): the data of every file, the attributes, and how many more writes and closings
    the counters allow; what opening, writing, creating and closing a file do to it.
  \<^item> \<open>Path\<close>, \<open>Path_Ops\<close>: the relation \<open>leads\<close> between directories and the paths below them; the walk over a path reaches the file it names and closes
    the directories on the way.
  \<^item> \<open>Start\<close>: \<open>gdpfs_run\<close> on a root log without records, and in read-only mode on an empty directory.
  \<^item> \<open>Path_Props\<close>: the handlers from end to end: what is written into a new file is read back by its path, a
    directory that is made is found, a file that is removed is gone.

  \<^bold>\<open>The whole program.\<close>
  \<^item> \<open>Main_Program\<close>: \<open>main\<close> and \<open>sig_int\<close> of \<^verbatim>\<open>src/main.c\<close>, with \<open>getopt\<close> of the GNU C library; command lines are read as they are meant, and a
    command line on a new root log leads to an empty root directory.
  \<^item> \<open>Read_Only\<close>: the step relation \<open>fuse_step\<close> of all handlers and callbacks, and the locale \<open>kept_view\<close> with a calculus of weakest
    preconditions that carries a view of the state through every operation: with \<open>-r\<close> nothing is ever appended.

  \<^bold>\<open>Bounds and fuel.\<close> Recursions on trees are bounded by the height of the root, as the arrays of the C code
  are, and the proofs show the bound is enough. The loop of \<open>do_read\<close> gets one round per byte and one to end;
  every round but the last returns at least one byte. The searches in directories end because the
  signed offset grows; its overflow is a fault. Byte indices have 32 bits in the index and 64 bits
  elsewhere: \<open>fits\<close> keeps a write below the last index, where the code misbehaves. A reference count has 32
  bits; \<open>room\<close> limits the unacknowledged writes of a file to less than \<open>2 ^ 31\<close>.

  \<^bold>\<open>Not modelled.\<close> \<open>handle_read\<close> of \<^verbatim>\<open>src/gdpfs_file.c\<close> has no caller; the macros of \<^verbatim>\<open>src/list.h\<close> and the text of the usage message have no behaviour of their own. The code under \<open>USE_BITMAP\<close> is compiled out. Allocations and locks succeed, and calls
  under a lock are atomic; the races the code leaves open are noted as findings. The FUSE library, the log
  daemon and the benchmarks are not part of the program.
\<close>

end
